(* ===== verification/RL_Prelude.thy ===== *)
theory RL_Prelude
  imports Main "HOL-Library.AList" "HOL-Library.Multiset"
begin

text \<open>
  Shared vocabulary of the development.

  \<^item> \<open>py_error\<close> and \<open>'a res\<close>: the exceptions the modelled Python code raises, as values. An
    operation that may raise returns \<open>Inl e\<close> for the exception and \<open>Inr x\<close> for a normal return;
    \<open>rbind\<close> sequences two such operations and \<open>rfold\<close> is a \<^verbatim>\<open>for\<close> loop over a list whose body
    may raise.
  \<^item> \<open>dict\<close>: a Python dictionary as an association list in insertion order (\<open>AList.update\<close>
    keeps the position of an existing key and appends a new one, as \<^verbatim>\<open>d[k] = v\<close> does;
    \<open>AList.delete\<close> is \<^verbatim>\<open>d.pop(k, None)\<close>; \<open>map_of\<close> is \<^verbatim>\<open>d.get\<close>).
  \<^item> generic facts about counting, association lists and the result type, which the component
    theories use through the collections declared here.
\<close>

section \<open>Exceptions as values\<close>

datatype py_error =
    ValueError
  | IndexError
  | KeyError
  | AssertionError
  | NotImplementedError
  | StructError
  | ZeroDivisionError
  | RuntimeError
  | TimeoutError
  | QueueEmpty
  | OutOfFuel

type_synonym 'a res = "py_error + 'a"

definition rbind :: "'a res \<Rightarrow> ('a \<Rightarrow> 'b res) \<Rightarrow> 'b res" where
  "rbind m f = (case m of Inl e \<Rightarrow> Inl e | Inr x \<Rightarrow> f x)"

lemma rbind_simps [simp]:
  "rbind (Inl e) f = Inl e"
  "rbind (Inr x) f = f x"
  by (simp_all add: rbind_def)

lemma rbind_eq_Inr [simp]: "rbind m f = Inr y \<longleftrightarrow> (\<exists>x. m = Inr x \<and> f x = Inr y)"
  by (cases m) auto

lemma rbind_assoc: "rbind (rbind m f) g = rbind m (\<lambda>x. rbind (f x) g)"
  by (cases m) auto

primrec rfold :: "('a \<Rightarrow> 's \<Rightarrow> 's res) \<Rightarrow> 'a list \<Rightarrow> 's \<Rightarrow> 's res" where
  "rfold f [] s = Inr s"
| "rfold f (x # xs) s = rbind (f x s) (rfold f xs)"

lemma rfold_append: "rfold f (xs @ ys) s = rbind (rfold f xs s) (rfold f ys)"
proof (induction xs arbitrary: s)
  case (Cons x xs)
  then show ?case by (cases "f x s") auto
qed simp

text \<open>A loop whose body keeps an invariant and never raises does the same as a whole.\<close>

lemma rfold_invariant:
  assumes "I s"
    and "\<And>x s. x \<in> set xs \<Longrightarrow> I s \<Longrightarrow> \<exists>s'. f x s = Inr s' \<and> I s'"
  shows "\<exists>s'. rfold f xs s = Inr s' \<and> I s'"
  using assms
proof (induction xs arbitrary: s)
  case Nil
  then show ?case by simp
next
  case (Cons x xs)
  from Cons.prems obtain s1 where s1: "f x s = Inr s1" "I s1"
    by (metis list.set_intros(1))
  have "\<exists>s'. rfold f xs s1 = Inr s' \<and> I s'"
    by (rule Cons.IH) (use s1 Cons.prems in auto)
  with s1 show ?case by simp
qed

text \<open>
  A call that changes an object and may raise half way keeps what it changed: it returns the object together with
  the exception or the value.
\<close>

type_synonym ('s, 'a) call = "'s \<Rightarrow> 's \<times> 'a res"

definition cbind :: "('s, 'a) call \<Rightarrow> ('a \<Rightarrow> ('s, 'b) call) \<Rightarrow> ('s, 'b) call" where
  "cbind m f s = (case m s of (s1, Inl e) \<Rightarrow> (s1, Inl e) | (s1, Inr x) \<Rightarrow> f x s1)"

primrec cfor :: "('a \<Rightarrow> ('s, unit) call) \<Rightarrow> 'a list \<Rightarrow> ('s, unit) call" where
  "cfor f [] s = (s, Inr ())"
| "cfor f (x # xs) s = cbind (f x) (\<lambda>_. cfor f xs) s"

lemma cbind_Inr_iff [simp]: "cbind m f s = (s', Inr y) \<longleftrightarrow> (\<exists>s1 x. m s = (s1, Inr x) \<and> f x s1 = (s', Inr y))"
  by (auto simp: cbind_def split: prod.splits sum.splits)

lemma cbind_Inl_iff: "cbind m f s = (s', Inl e) \<longleftrightarrow>
    m s = (s', Inl e) \<or> (\<exists>s1 x. m s = (s1, Inr x) \<and> f x s1 = (s', Inl e))"
  by (auto simp: cbind_def split: prod.splits sum.splits)

text \<open>What every body keeps, the loop keeps, whether or not it raises.\<close>

lemma cfor_invariant:
  assumes "I s" "\<And>x s. x \<in> set xs \<Longrightarrow> I s \<Longrightarrow> I (fst (f x s))"
  shows "I (fst (cfor f xs s))"
  using assms
proof (induction xs arbitrary: s)
  case (Cons x xs)
  have "I (fst (f x s))" using Cons.prems by simp
  then show ?case
    using Cons.prems by (cases "f x s"; cases "snd (f x s)") (auto simp: cbind_def intro!: Cons.IH)
qed simp

section \<open>Dictionaries in insertion order\<close>

type_synonym ('k, 'v) dict = "('k \<times> 'v) list"

abbreviation dict_ok :: "('k, 'v) dict \<Rightarrow> bool" where
  "dict_ok d \<equiv> distinct (map fst d)"

named_theorems dict_simps

lemmas [dict_simps] = update_conv' delete_conv' distinct_update distinct_delete

definition dsum :: "('v \<Rightarrow> nat) \<Rightarrow> ('k, 'v) dict \<Rightarrow> nat" where
  "dsum f d = sum_list (map (\<lambda>kv. f (snd kv)) d)"

lemma dsum_Nil [simp]: "dsum f [] = 0"
  and dsum_Cons [simp]: "dsum f (kv # d) = f (snd kv) + dsum f d"
  by (simp_all add: dsum_def)

definition osum :: "('v \<Rightarrow> nat) \<Rightarrow> 'v option \<Rightarrow> nat" where
  "osum f w = (case w of None \<Rightarrow> 0 | Some v \<Rightarrow> f v)"

lemma osum_simps [simp]: "osum f None = 0" "osum f (Some v) = f v"
  by (simp_all add: osum_def)

lemma dsum_update: "dict_ok d \<Longrightarrow> dsum f (AList.update k v d) + osum f (map_of d k) = dsum f d + f v"
proof (induction d)
  case Nil
  then show ?case by simp
next
  case (Cons kv d)
  then show ?case by (cases kv) (auto simp: add.assoc)
qed

lemma delete_notin: "k \<notin> fst ` set d \<Longrightarrow> AList.delete k d = d"
  by (induction d) (auto simp: AList.delete_eq)

lemma dsum_delete: "dict_ok d \<Longrightarrow> dsum f (AList.delete k d) + osum f (map_of d k) = dsum f d"
proof (induction d)
  case Nil
  then show ?case by simp
next
  case (Cons kv d)
  then show ?case
    by (cases kv) (auto simp: delete_notin)
qed

lemma dsum_ge: "map_of d k = Some v \<Longrightarrow> f v \<le> dsum f d"
  by (induction d) (auto split: if_splits)

lemma dsum_eq_0D: "dsum f d = 0 \<Longrightarrow> map_of d k = Some v \<Longrightarrow> f v = 0"
  using dsum_ge by (metis le_zero_eq)

lemma dsum_pos: "0 < dsum f d \<Longrightarrow> \<exists>k v. (k, v) \<in> set d \<and> 0 < f v"
  by (induction d) (auto; metis)+

lemma dsum_cong_mem: "\<forall>(k, v) \<in> set d. f v = g v \<Longrightarrow> dsum f d = dsum g d"
  by (induction d) auto

section \<open>Counting in lists\<close>

lemma count_list_distinct: "distinct xs \<Longrightarrow> count_list xs x = (if x \<in> set xs then 1 else 0)"
  by (induction xs) auto

lemma count_list_pos_iff: "0 < count_list xs x \<longleftrightarrow> x \<in> set xs"
  by (metis count_list_0_iff gr0I less_numeral_extra(3))

lemma count_list_filter: "count_list (filter P xs) x = (if P x then count_list xs x else 0)"
  by (induction xs) auto

lemma count_list_replicate: "count_list (replicate n a) x = (if a = x then n else 0)"
  by (induction n) auto

section \<open>Slices\<close>

text \<open>\<^verbatim>\<open>xs[a:b]\<close>; a negative bound counts from the end.\<close>

definition slice_index :: "'a list \<Rightarrow> int \<Rightarrow> nat" where
  "slice_index xs i = nat (max 0 (if i < 0 then i + int (length xs) else min i (int (length xs))))"

definition py_slice :: "'a list \<Rightarrow> int \<Rightarrow> int \<Rightarrow> 'a list" where
  "py_slice xs a b = take (slice_index xs b - slice_index xs a) (drop (slice_index xs a) xs)"

lemma py_slice_nat:
  "a \<le> b \<Longrightarrow> b \<le> length xs \<Longrightarrow> py_slice xs (int a) (int b) = take (b - a) (drop a xs)"
  by (simp add: py_slice_def slice_index_def)

lemma py_slice_window:
  assumes "a \<le> length xs" "0 \<le> d"
  shows "py_slice xs (int a) (int a + d) = take (nat d) (drop a xs)"
proof -
  have "slice_index xs (int a + d) - slice_index xs (int a) = min (nat d) (length xs - a)"
    using assms by (simp add: slice_index_def)
  moreover have "slice_index xs (int a) = a" using assms(1) by (simp add: slice_index_def)
  ultimately show ?thesis by (cases "nat d \<le> length xs - a") (simp_all add: py_slice_def)
qed

lemma py_slice_last: "xs \<noteq> [] \<Longrightarrow> py_slice xs (int (length xs) - 1) (int (length xs)) = [last xs]"
proof (induction xs rule: rev_induct)
  case (snoc x xs)
  have "py_slice (xs @ [x]) (int (length xs)) (int (length (xs @ [x]))) = [x]" by (subst py_slice_nat) simp_all
  then show ?case by simp
qed simp

end
