(* ===== verification/Free_Queue.thy ===== *)
theory Free_Queue
  imports RL_Prelude
begin

text \<open>
  The free list of the block pool (class \<^verbatim>\<open>FreeBlockQueue\<close> of
  \<^verbatim>\<open>src/rapid_llm/engine/block_pool.py\<close>): a doubly linked list with two sentinels, threaded
  through the blocks' own \<^verbatim>\<open>prev_free_block\<close> and \<^verbatim>\<open>next_free_block\<close> fields.

  The two pointer fields are two maps from nodes to optional nodes, and every operation is the
  sequence of field assignments the code performs. \<open>fq_ok\<close> is the heap invariant and \<open>fq_iter\<close> the
  walk of \<^verbatim>\<open>__iter__\<close>; the lemmas show that the pointer operations implement a plain list: append at
  the back, prepend at the front, pop the front, remove anywhere. The locale \<open>block_queue\<close> states that
  interface, proves what the pool needs of it once, and is interpreted on the pointer operations.
\<close>

section \<open>Nodes and field assignment\<close>

datatype node = Head | Tail | Blk nat

record free_queue =
  prev_free_block :: "node \<Rightarrow> node option"
  next_free_block :: "node \<Rightarrow> node option"
  num_free :: int

definition set_prev :: "node \<Rightarrow> node option \<Rightarrow> free_queue \<Rightarrow> free_queue" where
  "set_prev n v q = q\<lparr>prev_free_block := (prev_free_block q)(n := v)\<rparr>"

definition set_next :: "node \<Rightarrow> node option \<Rightarrow> free_queue \<Rightarrow> free_queue" where
  "set_next n v q = q\<lparr>next_free_block := (next_free_block q)(n := v)\<rparr>"

definition add_num_free :: "int \<Rightarrow> free_queue \<Rightarrow> free_queue" where
  "add_num_free d q = q\<lparr>num_free := num_free q + d\<rparr>"

lemmas fq_fields = set_prev_def set_next_def add_num_free_def

section \<open>The operations\<close>

definition fq_append :: "nat \<Rightarrow> free_queue \<Rightarrow> free_queue res" where
  "fq_append block q =
     (case prev_free_block q Tail of
        None \<Rightarrow> Inl AssertionError
      | Some prev \<Rightarrow>
          Inr (add_num_free 1
                (set_prev Tail (Some (Blk block))
                  (set_next (Blk block) (Some Tail)
                    (set_prev (Blk block) (Some prev)
                      (set_next prev (Some (Blk block)) q))))))"

definition fq_prepend :: "nat \<Rightarrow> free_queue \<Rightarrow> free_queue res" where
  "fq_prepend block q =
     (case next_free_block q Head of
        None \<Rightarrow> Inl AssertionError
      | Some nxt \<Rightarrow>
          Inr (add_num_free 1
                (set_prev nxt (Some (Blk block))
                  (set_next (Blk block) (Some nxt)
                    (set_prev (Blk block) (Some Head)
                      (set_next Head (Some (Blk block)) q))))))"

definition fq_remove :: "nat \<Rightarrow> free_queue \<Rightarrow> free_queue res" where
  "fq_remove block q =
     (case (prev_free_block q (Blk block), next_free_block q (Blk block)) of
        (Some prev, Some nxt) \<Rightarrow>
          Inr (add_num_free (-1)
                (set_prev (Blk block) None
                  (set_next (Blk block) None
                    (set_prev nxt (Some prev)
                      (set_next prev (Some nxt) q)))))
      | _ \<Rightarrow> Inl ValueError)"

text \<open>
  \<^verbatim>\<open>popleft\<close> reads the front node and removes it. The front node of a queue is never the head
  sentinel; were it, \<^verbatim>\<open>remove\<close> would find the head's \<^verbatim>\<open>prev_free_block\<close> unset and raise.
\<close>

definition fq_popleft :: "free_queue \<Rightarrow> (free_queue \<times> nat) res" where
  "fq_popleft q =
     (case next_free_block q Head of
        None \<Rightarrow> Inl IndexError
      | Some Tail \<Rightarrow> Inl IndexError
      | Some Head \<Rightarrow> Inl ValueError
      | Some (Blk block) \<Rightarrow> rbind (fq_remove block q) (\<lambda>q'. Inr (q', block)))"

definition fq_empty :: free_queue where
  "fq_empty =
     \<lparr>prev_free_block = (\<lambda>n. if n = Tail then Some Head else None),
      next_free_block = (\<lambda>n. if n = Head then Some Tail else None),
      num_free = 0\<rparr>"

definition fq_init :: "nat list \<Rightarrow> free_queue res" where
  "fq_init blocks = rfold fq_append blocks fq_empty"

text \<open>
  \<^verbatim>\<open>__iter__\<close>: follow the successor pointers from the head until the tail (or a missing pointer). The
  walk carries fuel; \<open>fq_iter\<close> gives it one unit per element counted by \<^verbatim>\<open>num_free_blocks\<close>, which
  \<open>fq_walk_rep\<close> shows to be enough for every well-formed queue.
\<close>

fun fq_walk :: "nat \<Rightarrow> free_queue \<Rightarrow> node option \<Rightarrow> nat list" where
  "fq_walk (Suc fuel) q (Some (Blk b)) = b # fq_walk fuel q (next_free_block q (Blk b))"
| "fq_walk _ _ _ = []"

definition fq_iter :: "free_queue \<Rightarrow> nat list" where
  "fq_iter q = fq_walk (nat (num_free q)) q (next_free_block q Head)"

section \<open>Representation of a list\<close>

fun dll :: "free_queue \<Rightarrow> node list \<Rightarrow> bool" where
  "dll q (x # y # zs) \<longleftrightarrow>
     next_free_block q x = Some y \<and> prev_free_block q y = Some x \<and> dll q (y # zs)"
| "dll q _ \<longleftrightarrow> True"

definition fq_rep :: "free_queue \<Rightarrow> nat list \<Rightarrow> bool" where
  "fq_rep q xs \<longleftrightarrow>
     distinct xs \<and> num_free q = int (length xs) \<and>
     dll q (Head # map Blk xs @ [Tail]) \<and>
     (\<forall>b. b \<notin> set xs \<longrightarrow> prev_free_block q (Blk b) = None \<and> next_free_block q (Blk b) = None)"

lemma dll_append: "dll q (xs @ y # ys) \<longleftrightarrow> dll q (xs @ [y]) \<and> dll q (y # ys)"
proof (induction xs)
  case Nil
  then show ?case by simp
next
  case (Cons x xs)
  then show ?case by (cases xs) auto
qed

lemma dll_cong:
  assumes "\<forall>n \<in> set (butlast ns). next_free_block q' n = next_free_block q n"
    and "\<forall>n \<in> set (tl ns). prev_free_block q' n = prev_free_block q n"
  shows "dll q' ns = dll q ns"
  using assms by (induction q ns rule: dll.induct) auto

lemma fq_walk_rep:
  "dll q (n # map Blk xs @ [Tail]) \<Longrightarrow> length xs \<le> fuel \<Longrightarrow>
     fq_walk fuel q (next_free_block q n) = xs"
proof (induction xs arbitrary: n fuel)
  case Nil
  then show ?case by (cases fuel) auto
next
  case (Cons x xs)
  then obtain f where f: "fuel = Suc f" by (cases fuel) auto
  with Cons show ?case by auto
qed

lemma fq_rep_iter: "fq_rep q xs \<Longrightarrow> fq_iter q = xs"
  by (simp add: fq_rep_def fq_iter_def fq_walk_rep)

lemma fq_rep_unique: "fq_rep q xs \<Longrightarrow> fq_rep q ys \<Longrightarrow> xs = ys"
  using fq_rep_iter by metis

definition fq_ok :: "free_queue \<Rightarrow> bool" where
  "fq_ok q \<longleftrightarrow> fq_rep q (fq_iter q)"

lemma fq_rep_ok: "fq_rep q xs \<Longrightarrow> fq_ok q"
  by (simp add: fq_ok_def fq_rep_iter)

lemma fq_rep_empty: "fq_rep fq_empty []"
  by (simp add: fq_rep_def fq_empty_def)

section \<open>The pointer operations implement list operations\<close>

text \<open>
  Every operation is made of one step: link a node to its new successor. \<open>dll_link\<close> says what that
  step does to two well-formed segments.
\<close>

definition link :: "node \<Rightarrow> node \<Rightarrow> free_queue \<Rightarrow> free_queue" where
  "link p n q = set_prev n (Some p) (set_next p (Some n) q)"

lemma fq_append_link:
  "prev_free_block q Tail = Some p \<Longrightarrow>
     fq_append b q = Inr (add_num_free 1 (link (Blk b) Tail (link p (Blk b) q)))"
  by (simp add: fq_append_def link_def)

lemma fq_prepend_link:
  "next_free_block q Head = Some n \<Longrightarrow>
     fq_prepend b q = Inr (add_num_free 1 (link (Blk b) n (link Head (Blk b) q)))"
  by (simp add: fq_prepend_def link_def)

lemma fq_remove_link:
  "prev_free_block q (Blk b) = Some p \<Longrightarrow> next_free_block q (Blk b) = Some n \<Longrightarrow>
     fq_remove b q =
       Inr (add_num_free (-1) (set_prev (Blk b) None (set_next (Blk b) None (link p n q))))"
  by (simp add: fq_remove_def link_def)

lemma in_set_tlD: "x \<in> set (tl xs) \<Longrightarrow> x \<in> set xs"
  by (cases xs) auto

lemma dll_link:
  assumes "dll q (us @ [p])" "dll q (n # vs)" "distinct (us @ p # n # vs)"
  shows "dll (link p n q) (us @ p # n # vs)"
proof -
  have "dll (link p n q) (us @ [p]) = dll q (us @ [p])"
    by (rule dll_cong) (use assms(3) in \<open>auto simp: link_def fq_fields dest: in_set_tlD\<close>)
  moreover have "dll (link p n q) (n # vs) = dll q (n # vs)"
    by (rule dll_cong) (use assms(3) in \<open>auto simp: link_def fq_fields dest: in_set_butlastD\<close>)
  moreover have "dll (link p n q) (p # n # vs) = dll (link p n q) (n # vs)"
    by (simp add: link_def fq_fields)
  ultimately show ?thesis
    using assms(1,2) dll_append [of "link p n q" us p "n # vs"] by simp
qed

lemma dll_frame:
  assumes "dll q ns" "Blk b \<notin> set ns"
  shows "dll (set_prev (Blk b) v (set_next (Blk b) w q)) ns"
proof -
  have "dll (set_prev (Blk b) v (set_next (Blk b) w q)) ns = dll q ns"
    by (rule dll_cong) (use assms(2) in \<open>auto simp: fq_fields dest: in_set_tlD in_set_butlastD\<close>)
  with assms(1) show ?thesis by simp
qed

lemma add_num_free_simps [simp]:
  "prev_free_block (add_num_free d q) = prev_free_block q"
  "next_free_block (add_num_free d q) = next_free_block q"
  "num_free (add_num_free d q) = num_free q + d"
  by (simp_all add: add_num_free_def)

lemma dll_add_num_free [simp]: "dll (add_num_free d q) ns = dll q ns"
  by (rule dll_cong) auto

lemma map_Blk_distinct: "distinct xs \<Longrightarrow> distinct (map Blk xs)"
  by (simp add: distinct_map inj_on_def)

lemma fq_append_rep:
  assumes "fq_rep q xs" "b \<notin> set xs"
  obtains q' where "fq_append b q = Inr q'" "fq_rep q' (xs @ [b])"
proof -
  obtain us p where ns: "Head # map Blk xs = us @ [p]"
    by (metis append_butlast_last_id list.distinct(1))
  have eq: "Head # map Blk xs @ [Tail] = us @ p # [Tail]"
    using arg_cong [OF ns, of "\<lambda>l. l @ [Tail]"] by simp
  have d: "dll q (us @ p # [Tail])"
    unfolding eq [symmetric] using assms(1) by (simp add: fq_rep_def)
  then have dp: "dll q (us @ [p])" and pt: "prev_free_block q Tail = Some p"
    using dll_append [of q us p "[Tail]"] by auto
  let ?q1 = "link p (Blk b) q" and ?q2 = "link (Blk b) Tail (link p (Blk b) q)"
  have dist: "distinct ((us @ [p]) @ Blk b # [Tail])"
    using assms ns [symmetric] map_Blk_distinct by (auto simp: fq_rep_def)
  have "dll ?q1 (us @ p # [Blk b])"
    by (rule dll_link) (use dp dist in auto)
  then have "dll ?q2 ((us @ [p]) @ Blk b # [Tail])"
    by (intro dll_link) (use dist in auto)
  moreover have "Head # map Blk (xs @ [b]) @ [Tail] = (us @ [p]) @ Blk b # [Tail]"
    using arg_cong [OF ns, of "\<lambda>l. l @ Blk b # [Tail]"] by simp
  ultimately have "dll (add_num_free 1 ?q2) (Head # map Blk (xs @ [b]) @ [Tail])"
    by (metis dll_add_num_free)
  moreover have "p \<noteq> Blk c \<and> Blk b \<noteq> Blk c" if "c \<notin> set (xs @ [b])" for c
    using that ns [THEN arg_cong, of set] by auto
  ultimately have "fq_rep (add_num_free 1 ?q2) (xs @ [b])"
    using assms by (auto simp: fq_rep_def link_def fq_fields)
  then show ?thesis
    using that fq_append_link [OF pt] by blast
qed

lemma fq_prepend_rep:
  assumes "fq_rep q xs" "b \<notin> set xs"
  obtains q' where "fq_prepend b q = Inr q'" "fq_rep q' (b # xs)"
proof -
  obtain n vs where ns: "map Blk xs @ [Tail] = n # vs"
    by (cases "map Blk xs @ [Tail]") auto
  have "dll q (Head # n # vs)"
    using assms(1) ns by (simp add: fq_rep_def)
  then have dn: "dll q (n # vs)" and hn: "next_free_block q Head = Some n"
    by auto
  let ?q1 = "link Head (Blk b) q" and ?q2 = "link (Blk b) n (link Head (Blk b) q)"
  have dist: "distinct (Head # Blk b # n # vs)"
    using assms ns [symmetric] map_Blk_distinct [of xs] by (auto simp: fq_rep_def)
  have q1: "dll ?q1 (Head # [Blk b])"
    using dll_link [of q "[]" Head "Blk b" "[]"] by simp
  have "dll ?q1 (n # vs) = dll q (n # vs)"
    by (rule dll_cong) (use dist in \<open>auto simp: link_def fq_fields dest: in_set_butlastD\<close>)
  with dn q1 dist have "dll ?q2 ([Head] @ Blk b # n # vs)"
    by (intro dll_link) auto
  then have "dll (add_num_free 1 ?q2) (Head # map Blk (b # xs) @ [Tail])"
    using ns by simp
  moreover have "n \<noteq> Blk c \<and> Blk b \<noteq> Blk c" if "c \<notin> set (b # xs)" for c
    using that ns [THEN arg_cong, of set] by auto
  ultimately have "fq_rep (add_num_free 1 ?q2) (b # xs)"
    using assms by (auto simp: fq_rep_def link_def fq_fields)
  then show ?thesis
    using that fq_prepend_link [OF hn] by blast
qed

lemma fq_remove_rep:
  assumes "fq_rep q (ys @ b # zs)"
  obtains q' where "fq_remove b q = Inr q'" "fq_rep q' (ys @ zs)"
proof -
  obtain us p where ys: "Head # map Blk ys = us @ [p]"
    by (metis append_butlast_last_id list.distinct(1))
  obtain n vs where zs: "map Blk zs @ [Tail] = n # vs"
    by (cases "map Blk zs @ [Tail]") auto
  have all: "Head # map Blk (ys @ b # zs) @ [Tail] = us @ p # Blk b # n # vs"
    using arg_cong [OF ys, of "\<lambda>l. l @ Blk b # map Blk zs @ [Tail]"] zs by simp
  have "dll q (us @ p # Blk b # n # vs)"
    unfolding all [symmetric] using assms by (simp add: fq_rep_def)
  then have d: "dll q (us @ [p])" "dll q (n # vs)"
    and pn: "prev_free_block q (Blk b) = Some p" "next_free_block q (Blk b) = Some n"
    using dll_append [of q us p "Blk b # n # vs"] by auto
  have dist: "distinct (us @ p # Blk b # n # vs)"
    using assms map_Blk_distinct [of "ys @ b # zs"] unfolding all [symmetric]
    by (auto simp: fq_rep_def)
  let ?q' = "add_num_free (-1) (set_prev (Blk b) None (set_next (Blk b) None (link p n q)))"
  have "dll (link p n q) (us @ p # n # vs)"
    using dll_link d dist by simp
  then have "dll ?q' (us @ p # n # vs)"
    using dist by (simp, intro dll_frame) auto
  moreover have "us @ p # n # vs = Head # map Blk (ys @ zs) @ [Tail]"
    using arg_cong [OF ys, of "\<lambda>l. l @ map Blk zs @ [Tail]"] zs by simp
  moreover have "p \<noteq> Blk c \<and> n \<noteq> Blk c" if "c \<notin> set (ys @ zs)" for c
    using that ys [THEN arg_cong, of set] zs [THEN arg_cong, of set] by auto
  ultimately have "fq_rep ?q' (ys @ zs)"
    using assms by (auto simp: fq_rep_def link_def fq_fields)
  then show ?thesis
    using that fq_remove_link [OF pn] by blast
qed

lemma fq_remove_absent: "fq_rep q xs \<Longrightarrow> b \<notin> set xs \<Longrightarrow> fq_remove b q = Inl ValueError"
  by (simp add: fq_rep_def fq_remove_def)

lemma fq_popleft_rep:
  "fq_rep q [] \<Longrightarrow> fq_popleft q = Inl IndexError"
  "fq_rep q (x # xs) \<Longrightarrow> \<exists>q'. fq_popleft q = Inr (q', x) \<and> fq_rep q' xs"
proof -
  show "fq_rep q [] \<Longrightarrow> fq_popleft q = Inl IndexError"
    by (simp add: fq_rep_def fq_popleft_def)
  assume rep: "fq_rep q (x # xs)"
  then obtain q' where "fq_remove x q = Inr q'" "fq_rep q' xs"
    using fq_remove_rep [of q "[]" x xs] by auto
  with rep show "\<exists>q'. fq_popleft q = Inr (q', x) \<and> fq_rep q' xs"
    by (auto simp: fq_rep_def fq_popleft_def)
qed

section \<open>The interface the pool relies on\<close>

text \<open>
  What the block pool may assume of a free queue, over the list of blocks it holds in eviction order.
\<close>

locale block_queue =
  fixes ok :: "'q \<Rightarrow> bool"
    and items :: "'q \<Rightarrow> nat list"
    and append :: "nat \<Rightarrow> 'q \<Rightarrow> 'q res"
    and prepend :: "nat \<Rightarrow> 'q \<Rightarrow> 'q res"
    and remove :: "nat \<Rightarrow> 'q \<Rightarrow> 'q res"
    and popleft :: "'q \<Rightarrow> ('q \<times> nat) res"
  assumes items_distinct: "ok q \<Longrightarrow> distinct (items q)"
    and append_law: "ok q \<Longrightarrow> b \<notin> set (items q) \<Longrightarrow>
          \<exists>q'. append b q = Inr q' \<and> ok q' \<and> items q' = items q @ [b]"
    and prepend_law: "ok q \<Longrightarrow> b \<notin> set (items q) \<Longrightarrow>
          \<exists>q'. prepend b q = Inr q' \<and> ok q' \<and> items q' = b # items q"
    and remove_law: "ok q \<Longrightarrow> b \<in> set (items q) \<Longrightarrow>
          \<exists>q'. remove b q = Inr q' \<and> ok q' \<and> items q' = remove1 b (items q)"
    and remove_absent: "ok q \<Longrightarrow> b \<notin> set (items q) \<Longrightarrow> remove b q = Inl ValueError"
    and popleft_empty: "ok q \<Longrightarrow> items q = [] \<Longrightarrow> popleft q = Inl IndexError"
    and popleft_law: "ok q \<Longrightarrow> items q = x # xs \<Longrightarrow>
          \<exists>q'. popleft q = Inr (q', x) \<and> ok q' \<and> items q' = xs"
begin

lemma append_all:
  "ok q \<Longrightarrow> distinct xs \<Longrightarrow> set xs \<inter> set (items q) = {} \<Longrightarrow>
     \<exists>q'. rfold append xs q = Inr q' \<and> ok q' \<and> items q' = items q @ xs"
proof (induction xs arbitrary: q)
  case Nil
  then show ?case by simp
next
  case (Cons x xs)
  then obtain q1 where q1: "append x q = Inr q1" "ok q1" "items q1 = items q @ [x]"
    using append_law [of q x] by auto
  moreover have "\<exists>q'. rfold append xs q1 = Inr q' \<and> ok q' \<and> items q' = items q1 @ xs"
    by (rule Cons.IH) (use Cons.prems q1 in auto)
  ultimately show ?case by auto
qed

lemma move_to_back:
  assumes "ok q" "b \<in> set (items q)"
  shows "\<exists>q'. rbind (remove b q) (append b) = Inr q' \<and> ok q' \<and> items q' = remove1 b (items q) @ [b]"
proof -
  obtain q1 where q1: "remove b q = Inr q1" "ok q1" "items q1 = remove1 b (items q)"
    using remove_law assms by blast
  moreover have "b \<notin> set (items q1)"
    using q1 items_distinct assms(1) by simp
  ultimately show ?thesis
    using append_law [of q1 b] by auto
qed

lemma popleft_items:
  assumes "ok q" "popleft q = Inr (q', x)"
  shows "items q = x # items q' \<and> ok q'"
proof (cases "items q")
  case Nil
  then show ?thesis using popleft_empty assms by simp
next
  case (Cons y ys)
  then show ?thesis using popleft_law [OF assms(1)] assms(2) by auto
qed

end

interpretation fq: block_queue fq_ok fq_iter fq_append fq_prepend fq_remove fq_popleft
proof
  fix q :: free_queue and b x :: nat and xs :: "nat list"
  assume ok: "fq_ok q"
  then have rep: "fq_rep q (fq_iter q)" by (simp add: fq_ok_def)
  show "distinct (fq_iter q)"
    using rep by (simp add: fq_rep_def)
  show "\<exists>q'. fq_append b q = Inr q' \<and> fq_ok q' \<and> fq_iter q' = fq_iter q @ [b]"
    if "b \<notin> set (fq_iter q)"
    by (rule fq_append_rep [OF rep that]) (simp add: fq_rep_iter fq_rep_ok)
  show "\<exists>q'. fq_prepend b q = Inr q' \<and> fq_ok q' \<and> fq_iter q' = b # fq_iter q"
    if "b \<notin> set (fq_iter q)"
    by (rule fq_prepend_rep [OF rep that]) (simp add: fq_rep_iter fq_rep_ok)
  show "\<exists>q'. fq_remove b q = Inr q' \<and> fq_ok q' \<and> fq_iter q' = remove1 b (fq_iter q)"
    if mem: "b \<in> set (fq_iter q)"
  proof -
    obtain ys zs where yz: "fq_iter q = ys @ b # zs" "b \<notin> set ys"
      using mem by (meson split_list_first)
    then obtain q' where "fq_remove b q = Inr q'" "fq_rep q' (ys @ zs)"
      using rep fq_remove_rep by metis
    with yz show ?thesis
      using fq_rep_iter fq_rep_ok by (auto simp: remove1_append)
  qed
  show "fq_remove b q = Inl ValueError" if "b \<notin> set (fq_iter q)"
    using fq_remove_absent rep that by blast
  show "fq_popleft q = Inl IndexError" if "fq_iter q = []"
    using fq_popleft_rep(1) rep that by simp
  show "\<exists>q'. fq_popleft q = Inr (q', x) \<and> fq_ok q' \<and> fq_iter q' = xs" if "fq_iter q = x # xs"
    using fq_popleft_rep(2) [of q x xs] rep that by (auto simp: fq_rep_iter fq_rep_ok)
qed

lemma fq_init_items:
  assumes "distinct xs"
  shows "\<exists>q. fq_init xs = Inr q \<and> fq_ok q \<and> fq_iter q = xs"
  using fq.append_all [of fq_empty xs] fq_rep_empty [THEN fq_rep_ok] fq_rep_empty [THEN fq_rep_iter] assms
  by (simp add: fq_init_def)

lemma fq_num_free: "fq_ok q \<Longrightarrow> num_free q = int (length (fq_iter q))"
  by (simp add: fq_ok_def fq_rep_def)

section \<open>Properties\<close>

text \<open>
  C24: the pointer operations of the free queue refine a plain list. From a well-formed queue, appending
  and prepending a block that is not queued never raise and put it at the back or the front; removing
  raises exactly for a block that is not queued and otherwise deletes just it, wherever it sits; popping
  raises exactly on the empty queue and otherwise yields the front. Every result is well formed again.
\<close>

theorem free_queue_refines_list:
  assumes "fq_ok q"
  shows "(b \<notin> set (fq_iter q) \<longrightarrow>
      (\<exists>q'. fq_append b q = Inr q' \<and> fq_ok q' \<and> fq_iter q' = fq_iter q @ [b]) \<and>
      (\<exists>q'. fq_prepend b q = Inr q' \<and> fq_ok q' \<and> fq_iter q' = b # fq_iter q)) \<and>
    (if b \<in> set (fq_iter q)
     then \<exists>q'. fq_remove b q = Inr q' \<and> fq_ok q' \<and> fq_iter q' = remove1 b (fq_iter q)
     else fq_remove b q = Inl ValueError) \<and>
    (case fq_iter q of
       [] \<Rightarrow> fq_popleft q = Inl IndexError
     | x # xs \<Rightarrow> \<exists>q'. fq_popleft q = Inr (q', x) \<and> fq_ok q' \<and> fq_iter q' = xs)"
  using fq.append_law [OF assms, of b] fq.prepend_law [OF assms, of b] fq.remove_law [OF assms, of b]
    fq.remove_absent [OF assms, of b] fq.popleft_empty [OF assms] fq.popleft_law [OF assms]
  by (auto split: list.splits)

theorem free_queue_refines_list_witness:
  "\<exists>q. fq_init [1, 2, 3] = Inr q \<and> fq_ok q \<and> (\<exists>q'. fq_remove 2 q = Inr q' \<and> fq_iter q' = [1, 3]) \<and>
     fq_remove 7 q = Inl ValueError"
proof -
  obtain q where q: "fq_init [1, 2, 3] = Inr q" "fq_ok q" "fq_iter q = [1, 2, 3]"
    using fq_init_items [of "[1, 2, 3]"] by auto
  show ?thesis
    using q free_queue_refines_list [OF q(2), of 2] free_queue_refines_list [OF q(2), of 7] by auto
qed

end
