(* ===== verification/Block_Pool.thy ===== *)
theory Block_Pool
  imports Free_Queue
begin

text \<open>
  The physical block pool (class \<^verbatim>\<open>BlockPool\<close> of \<^verbatim>\<open>src/rapid_llm/engine/block_pool.py\<close>).

  A block is its id; the mutable fields of the block objects are maps from ids (\<open>ref_cnt\<close>,
  \<open>block_hash\<close>; the link fields live in the free queue). The hash index is a dictionary from hashes
  to the inner dictionaries of blocks, which hold each block under its own id and are therefore given
  by their ids in insertion order. Block 0 is the null block.

  \<open>pool_inv\<close> ties the three ledgers together: the free queue holds exactly the unreferenced blocks,
  the index holds exactly the hashed blocks, and the null block keeps one permanent reference. Each
  operation has a lemma that gives its whole effect on the ledgers and shows that it cannot raise when
  called within its contract.
\<close>

section \<open>State\<close>

type_synonym bhash = nat

abbreviation (input) NULL_BLOCK_ID :: nat where
  "NULL_BLOCK_ID \<equiv> 0"

record block_pool =
  num_blocks :: nat
  block_size :: nat
  enable_caching :: bool
  evictions :: nat
  resets :: nat
  ref_cnt :: "nat \<Rightarrow> int"
  block_hash :: "nat \<Rightarrow> bhash option"
  free_block_queue :: free_queue
  cached_blocks :: "(bhash, nat list) dict"

definition pool_init :: "int \<Rightarrow> int \<Rightarrow> bool \<Rightarrow> block_pool res" where
  "pool_init n bs caching =
     (if n < 2 then Inl ValueError
      else if bs < 1 then Inl ValueError
      else rbind (fq_init [NULL_BLOCK_ID + 1..<nat n])
        (\<lambda>q. Inr \<lparr>num_blocks = nat n, block_size = nat bs, enable_caching = caching,
                  evictions = 0, resets = 0,
                  ref_cnt = (\<lambda>_. 0)(NULL_BLOCK_ID := 1), block_hash = (\<lambda>_. None),
                  free_block_queue = q, cached_blocks = []\<rparr>))"

section \<open>Views and lookup\<close>

definition num_free_blocks :: "block_pool \<Rightarrow> int" where
  "num_free_blocks p = num_free (free_block_queue p)"

definition num_used_blocks :: "block_pool \<Rightarrow> int" where
  "num_used_blocks p = int (num_blocks p) - num_free_blocks p"

definition num_cached_blocks :: "block_pool \<Rightarrow> nat" where
  "num_cached_blocks p = dsum length (cached_blocks p)"

definition rows_of :: "block_pool \<Rightarrow> nat \<Rightarrow> nat list" where
  "rows_of p b = [b * block_size p..<(b + 1) * block_size p]"

definition get_cached_block :: "block_pool \<Rightarrow> bhash \<Rightarrow> nat option" where
  "get_cached_block p h =
     (case map_of (cached_blocks p) h of
        None \<Rightarrow> None
      | Some by_id \<Rightarrow> (case by_id of [] \<Rightarrow> None | b # _ \<Rightarrow> Some b))"

section \<open>Allocation, sharing and release\<close>

definition maybe_evict_cached_block :: "nat \<Rightarrow> block_pool \<Rightarrow> block_pool" where
  "maybe_evict_cached_block b p =
     (case block_hash p b of
        None \<Rightarrow> p
      | Some h \<Rightarrow>
          p\<lparr>cached_blocks :=
              (case map_of (cached_blocks p) h of
                 None \<Rightarrow> cached_blocks p
               | Some by_id \<Rightarrow>
                   (let rest = removeAll b by_id
                    in if rest = [] then AList.delete h (cached_blocks p)
                       else AList.update h rest (cached_blocks p))),
            block_hash := (block_hash p)(b := None),
            evictions := evictions p + 1\<rparr>)"

primrec take_new_blocks :: "nat \<Rightarrow> block_pool \<Rightarrow> (block_pool \<times> nat list) res" where
  "take_new_blocks 0 p = Inr (p, [])"
| "take_new_blocks (Suc n) p =
     rbind (fq_popleft (free_block_queue p)) (\<lambda>(q, b).
       if ref_cnt p b \<noteq> 0 then Inl AssertionError
       else let p1 = maybe_evict_cached_block b (p\<lparr>free_block_queue := q\<rparr>);
                p2 = p1\<lparr>ref_cnt := (ref_cnt p1)(b := 1)\<rparr>
            in rbind (take_new_blocks n p2) (\<lambda>(p3, bs). Inr (p3, b # bs)))"

definition get_new_blocks :: "int \<Rightarrow> block_pool \<Rightarrow> (block_pool \<times> nat list option) res" where
  "get_new_blocks n p =
     (if n < 0 then Inl ValueError
      else if n > num_free_blocks p then Inr (p, None)
      else rbind (take_new_blocks (nat n) p) (\<lambda>(p', bs). Inr (p', Some bs)))"

definition touch_block :: "nat \<Rightarrow> block_pool \<Rightarrow> block_pool res" where
  "touch_block b p =
     (if b = NULL_BLOCK_ID then Inr p
      else rbind
        (if ref_cnt p b = 0
         then rbind (fq_remove b (free_block_queue p)) (\<lambda>q. Inr (p\<lparr>free_block_queue := q\<rparr>))
         else Inr p)
        (\<lambda>p1. Inr (p1\<lparr>ref_cnt := (ref_cnt p1)(b := ref_cnt p1 b + 1)\<rparr>)))"

definition touch :: "nat list \<Rightarrow> block_pool \<Rightarrow> block_pool res" where
  "touch bs p = rfold touch_block bs p"

definition free_block :: "nat \<Rightarrow> block_pool \<Rightarrow> block_pool res" where
  "free_block b p =
     (if b = NULL_BLOCK_ID then Inr p
      else if ref_cnt p b \<le> 0 then Inl ValueError
      else let p1 = p\<lparr>ref_cnt := (ref_cnt p)(b := ref_cnt p b - 1)\<rparr>
           in if ref_cnt p1 b > 0 then Inr p1
              else rbind ((if block_hash p1 b = None then fq_prepend else fq_append) b
                            (free_block_queue p1))
                     (\<lambda>q. Inr (p1\<lparr>free_block_queue := q\<rparr>)))"

definition free_blocks :: "nat list \<Rightarrow> block_pool \<Rightarrow> block_pool res" where
  "free_blocks bs p = rfold free_block bs p"

section \<open>The hash index\<close>

definition cache_full_block :: "nat \<times> bhash \<Rightarrow> block_pool \<Rightarrow> block_pool" where
  "cache_full_block bh p =
     (let b = fst bh; h = snd bh in
      if b = NULL_BLOCK_ID \<or> block_hash p b \<noteq> None then p
      else let by_id = (case map_of (cached_blocks p) h of None \<Rightarrow> [] | Some ids \<Rightarrow> ids)
           in p\<lparr>block_hash := (block_hash p)(b := Some h),
                cached_blocks :=
                  AList.update h (if b \<in> set by_id then by_id else by_id @ [b]) (cached_blocks p)\<rparr>)"

definition cache_full_blocks :: "nat list \<Rightarrow> bhash list \<Rightarrow> block_pool \<Rightarrow> block_pool res" where
  "cache_full_blocks bs hs p =
     (if \<not> enable_caching p then Inr p
      else if length bs \<noteq> length hs then Inl ValueError
      else Inr (fold cache_full_block (zip bs hs) p))"

definition reset_prefix_cache :: "block_pool \<Rightarrow> block_pool \<times> bool" where
  "reset_prefix_cache p =
     (if num_used_blocks p \<noteq> 1 then (p, False)
      else (p\<lparr>block_hash := (\<lambda>b. if b < num_blocks p then None else block_hash p b),
              cached_blocks := [], resets := resets p + 1\<rparr>, True))"

section \<open>The invariant\<close>

abbreviation free_list :: "block_pool \<Rightarrow> nat list" where
  "free_list p \<equiv> fq_iter (free_block_queue p)"

definition index_ok :: "(bhash, nat list) dict \<Rightarrow> (nat \<Rightarrow> bhash option) \<Rightarrow> bool" where
  "index_ok idx bh \<longleftrightarrow>
     dict_ok idx \<and>
     (\<forall>h. case map_of idx h of
            None \<Rightarrow> \<forall>b. bh b \<noteq> Some h
          | Some ids \<Rightarrow> ids \<noteq> [] \<and> distinct ids \<and> set ids = {b. bh b = Some h})"

definition pool_inv :: "block_pool \<Rightarrow> bool" where
  "pool_inv p \<longleftrightarrow>
     2 \<le> num_blocks p \<and> 1 \<le> block_size p \<and>
     fq_ok (free_block_queue p) \<and>
     set (free_list p) = {b. 0 < b \<and> b < num_blocks p \<and> ref_cnt p b = 0} \<and>
     ref_cnt p 0 = 1 \<and> (\<forall>b. 0 \<le> ref_cnt p b) \<and>
     (\<forall>b. num_blocks p \<le> b \<longrightarrow> ref_cnt p b = 0 \<and> block_hash p b = None) \<and>
     block_hash p 0 = None \<and>
     (\<not> enable_caching p \<longrightarrow> (\<forall>b. block_hash p b = None)) \<and>
     index_ok (cached_blocks p) (block_hash p)"

text \<open>What no operation changes.\<close>

definition same_geometry :: "block_pool \<Rightarrow> block_pool \<Rightarrow> bool" where
  "same_geometry p p' \<longleftrightarrow>
     num_blocks p' = num_blocks p \<and> block_size p' = block_size p \<and>
     enable_caching p' = enable_caching p"

lemma same_geometry_refl [simp]: "same_geometry p p"
  and same_geometry_trans: "same_geometry p q \<Longrightarrow> same_geometry q r \<Longrightarrow> same_geometry p r"
  by (auto simp: same_geometry_def)

lemma pool_invD:
  assumes "pool_inv p"
  shows "fq_ok (free_block_queue p)" "distinct (free_list p)"
    "b \<in> set (free_list p) \<longleftrightarrow> 0 < b \<and> b < num_blocks p \<and> ref_cnt p b = 0"
    "0 \<le> ref_cnt p b" "ref_cnt p 0 = 1" "block_hash p 0 = None"
    "index_ok (cached_blocks p) (block_hash p)"
    "num_free_blocks p = int (length (free_list p))"
  using assms fq.items_distinct fq_num_free by (auto simp: pool_inv_def num_free_blocks_def)

section \<open>Creation and lookup\<close>

lemma index_ok_empty [simp]: "index_ok [] (\<lambda>_. None)"
  by (simp add: index_ok_def)

lemma index_okI:
  assumes "dict_ok idx"
    and "\<And>h ids. map_of idx h = Some ids \<Longrightarrow>
           ids \<noteq> [] \<and> distinct ids \<and> set ids = {b. bh b = Some h}"
    and "\<And>h b. map_of idx h = None \<Longrightarrow> bh b \<noteq> Some h"
  shows "index_ok idx bh"
  unfolding index_ok_def
proof (intro conjI allI)
  show "dict_ok idx" by (rule assms(1))
  show "case map_of idx h of None \<Rightarrow> \<forall>b. bh b \<noteq> Some h
    | Some ids \<Rightarrow> ids \<noteq> [] \<and> distinct ids \<and> set ids = {b. bh b = Some h}" for h
    using assms(2) [of h] assms(3) [of h] by (cases "map_of idx h") simp_all
qed

lemma index_okD:
  assumes "index_ok idx bh"
  shows "dict_ok idx"
    and "map_of idx h = Some ids \<Longrightarrow> ids \<noteq> [] \<and> distinct ids \<and> set ids = {b. bh b = Some h}"
    and "map_of idx h = None \<Longrightarrow> bh b \<noteq> Some h"
    and "bh b = Some h \<Longrightarrow> \<exists>ids. map_of idx h = Some ids \<and> b \<in> set ids"
proof -
  have "dict_ok idx" and i: "case map_of idx h of None \<Rightarrow> \<forall>b. bh b \<noteq> Some h
    | Some ids \<Rightarrow> ids \<noteq> [] \<and> distinct ids \<and> set ids = {b. bh b = Some h}"
    using assms unfolding index_ok_def by blast+
  then show "dict_ok idx"
    and "map_of idx h = Some ids \<Longrightarrow> ids \<noteq> [] \<and> distinct ids \<and> set ids = {b. bh b = Some h}"
    and "map_of idx h = None \<Longrightarrow> bh b \<noteq> Some h"
    by simp_all
  show "bh b = Some h \<Longrightarrow> \<exists>ids. map_of idx h = Some ids \<and> b \<in> set ids"
    using i by (cases "map_of idx h") auto
qed

lemma index_ok_update:
  assumes "index_ok idx bh" "\<And>c g. g \<noteq> h \<Longrightarrow> bh' c = Some g \<longleftrightarrow> bh c = Some g"
    and "ids \<noteq> []" "distinct ids" "set ids = {c. bh' c = Some h}"
  shows "index_ok (AList.update h ids idx) bh'"
proof (rule index_okI)
  show "dict_ok (AList.update h ids idx)"
    using index_okD(1) [OF assms(1)] by (simp add: dict_simps)
next
  fix g l assume "map_of (AList.update h ids idx) g = Some l"
  then show "l \<noteq> [] \<and> distinct l \<and> set l = {c. bh' c = Some g}"
    using index_okD(2) [OF assms(1), of g l] assms(2) [of g] assms(3-)
    by (cases "g = h") (simp_all add: dict_simps)
next
  fix g c assume "map_of (AList.update h ids idx) g = None"
  then show "bh' c \<noteq> Some g"
    using index_okD(3) [OF assms(1), of g c] assms(2) by (cases "g = h") (auto simp: dict_simps)
qed

lemma index_ok_delete:
  assumes "index_ok idx bh" "\<And>c g. g \<noteq> h \<Longrightarrow> bh' c = Some g \<longleftrightarrow> bh c = Some g"
    and "\<And>c. bh' c \<noteq> Some h"
  shows "index_ok (AList.delete h idx) bh'"
proof (rule index_okI)
  show "dict_ok (AList.delete h idx)"
    using index_okD(1) [OF assms(1)] by (simp add: dict_simps)
next
  fix g l assume "map_of (AList.delete h idx) g = Some l"
  then show "l \<noteq> [] \<and> distinct l \<and> set l = {c. bh' c = Some g}"
    using index_okD(2) [OF assms(1), of g l] assms(2) [of g] assms(3-)
    by (cases "g = h") (simp_all add: dict_simps)
next
  fix g c assume "map_of (AList.delete h idx) g = None"
  then show "bh' c \<noteq> Some g"
    using index_okD(3) [OF assms(1), of g c] assms(2,3) by (cases "g = h") (auto simp: dict_simps)
qed

lemma pool_init_ok:
  assumes "2 \<le> n" "1 \<le> bs"
  obtains p where "pool_init n bs c = Inr p" "pool_inv p" "free_list p = [1..<nat n]"
    "num_blocks p = nat n" "block_size p = nat bs" "enable_caching p = c"
    "ref_cnt p = (\<lambda>_. 0)(0 := 1)" "block_hash p = (\<lambda>_. None)"
proof -
  obtain q where q: "fq_init [Suc 0..<nat n] = Inr q" "fq_ok q" "fq_iter q = [Suc 0..<nat n]"
    using fq_init_items [of "[Suc 0..<nat n]"] by auto
  show ?thesis
    by (rule that) (use assms q in \<open>auto simp: pool_init_def pool_inv_def\<close>)
qed

lemma get_cached_block_Some:
  assumes "index_ok (cached_blocks p) (block_hash p)" "get_cached_block p h = Some b"
  shows "block_hash p b = Some h"
proof -
  obtain ids where "map_of (cached_blocks p) h = Some ids" "b \<in> set ids"
    using assms(2) by (auto simp: get_cached_block_def split: option.splits list.splits)
  then show ?thesis using index_okD(2) [OF assms(1), of h ids] by simp
qed

lemma get_cached_block_None:
  assumes "index_ok (cached_blocks p) (block_hash p)"
  shows "get_cached_block p h = None \<longleftrightarrow> (\<forall>b. block_hash p b \<noteq> Some h)"
proof (cases "map_of (cached_blocks p) h")
  case None
  then show ?thesis using index_okD(3) [OF assms] by (simp add: get_cached_block_def)
next
  case (Some ids)
  then obtain c cs where "ids = c # cs" "block_hash p c = Some h"
    using index_okD(2) [OF assms Some] by (cases ids) auto
  with Some show ?thesis by (auto simp: get_cached_block_def)
qed

section \<open>Effect of the operations\<close>

lemma evict_index:
  assumes "index_ok (cached_blocks p) (block_hash p)"
  shows "index_ok (cached_blocks (maybe_evict_cached_block b p)) ((block_hash p)(b := None))"
    and "block_hash (maybe_evict_cached_block b p) = (block_hash p)(b := None)"
proof -
  show bh: "block_hash (maybe_evict_cached_block b p) = (block_hash p)(b := None)"
    by (auto simp: maybe_evict_cached_block_def split: option.splits)
  show "index_ok (cached_blocks (maybe_evict_cached_block b p)) ((block_hash p)(b := None))"
  proof (cases "block_hash p b")
    case None
    then have "(block_hash p)(b := None) = block_hash p" by auto
    with None assms show ?thesis by (simp add: maybe_evict_cached_block_def)
  next
    case (Some h)
    then obtain ids where ids: "map_of (cached_blocks p) h = Some ids" "distinct ids"
        "set ids = {c. block_hash p c = Some h}"
      using index_okD [OF assms] by blast
    have rest: "set (removeAll b ids) = {c. ((block_hash p)(b := None)) c = Some h}"
      using ids(3) by auto
    have other: "((block_hash p)(b := None)) c = Some g \<longleftrightarrow> block_hash p c = Some g" if "g \<noteq> h" for c g
      using that Some by auto
    show ?thesis
    proof (cases "removeAll b ids = []")
      case True
      have "index_ok (AList.delete h (cached_blocks p)) ((block_hash p)(b := None))"
        by (rule index_ok_delete [OF assms]) (use other rest True in auto)
      with True ids Some show ?thesis by (simp add: maybe_evict_cached_block_def)
    next
      case False
      have "index_ok (AList.update h (removeAll b ids) (cached_blocks p)) ((block_hash p)(b := None))"
        by (rule index_ok_update [OF assms other _ _ rest])
          (use False ids in \<open>auto simp: distinct_removeAll\<close>)
      with False ids Some show ?thesis by (simp add: maybe_evict_cached_block_def)
    qed
  qed
qed

lemma evict_frame [simp]:
  "free_block_queue (maybe_evict_cached_block b p) = free_block_queue p"
  "ref_cnt (maybe_evict_cached_block b p) = ref_cnt p"
  "num_blocks (maybe_evict_cached_block b p) = num_blocks p"
  "block_size (maybe_evict_cached_block b p) = block_size p"
  "enable_caching (maybe_evict_cached_block b p) = enable_caching p"
  "resets (maybe_evict_cached_block b p) = resets p"
  by (auto simp: maybe_evict_cached_block_def split: option.splits)

lemma take_new_blocks_ok:
  assumes "pool_inv p" "n \<le> length (free_list p)"
  obtains p' where "take_new_blocks n p = Inr (p', take n (free_list p))" "pool_inv p'"
    "same_geometry p p'" "free_list p' = drop n (free_list p)"
    "ref_cnt p' = (\<lambda>b. if b \<in> set (take n (free_list p)) then 1 else ref_cnt p b)"
    "block_hash p' = (\<lambda>b. if b \<in> set (take n (free_list p)) then None else block_hash p b)"
    "evictions p' = evictions p + length (filter (\<lambda>b. block_hash p b \<noteq> None) (take n (free_list p)))"
    "resets p' = resets p"
  using assms
proof (induction n arbitrary: p thesis)
  case 0
  then show ?case by (auto intro: 0(1))
next
  case (Suc n)
  note inv = \<open>pool_inv p\<close>
  obtain b bs where fl: "free_list p = b # bs"
    using Suc.prems(3) by (cases "free_list p") auto
  obtain q where q: "fq_popleft (free_block_queue p) = Inr (q, b)" "fq_ok q" "fq_iter q = bs"
    using fq.popleft_law [OF pool_invD(1) [OF inv] fl] by blast
  have b: "0 < b" "b < num_blocks p" "ref_cnt p b = 0"
    using pool_invD(3) [OF inv, of b] fl by auto
  have bs: "b \<notin> set bs" "set bs = {c. 0 < c \<and> c < num_blocks p \<and> ref_cnt p c = 0} - {b}"
    using pool_invD(2) [OF inv] inv fl by (auto simp: pool_inv_def)
  define p1 where "p1 = maybe_evict_cached_block b (p\<lparr>free_block_queue := q\<rparr>)"
  define p2 where "p2 = p1\<lparr>ref_cnt := (ref_cnt p1)(b := 1)\<rparr>"
  have p1: "block_hash p1 = (block_hash p)(b := None)" "index_ok (cached_blocks p1) (block_hash p1)"
    "evictions p1 = evictions p + (if block_hash p b = None then 0 else 1)"
    using evict_index [of "p\<lparr>free_block_queue := q\<rparr>" b] pool_invD(7) [OF inv]
    by (auto simp: p1_def maybe_evict_cached_block_def split: option.splits)
  have p2: "free_list p2 = bs" "ref_cnt p2 = (ref_cnt p)(b := 1)" "same_geometry p p2"
    "block_hash p2 = (block_hash p)(b := None)" "evictions p2 = evictions p1" "resets p2 = resets p"
    using q p1 by (auto simp: p2_def p1_def same_geometry_def)
  have inv2: "pool_inv p2"
    using inv q b bs p1 p2 unfolding pool_inv_def p2_def p1_def by auto
  have n: "n \<le> length (free_list p2)" using Suc.prems(3) fl p2 by simp
  obtain p3 where p3: "take_new_blocks n p2 = Inr (p3, take n bs)" "pool_inv p3" "same_geometry p2 p3"
    "free_list p3 = drop n bs" "ref_cnt p3 = (\<lambda>c. if c \<in> set (take n bs) then 1 else ref_cnt p2 c)"
    "block_hash p3 = (\<lambda>c. if c \<in> set (take n bs) then None else block_hash p2 c)"
    "evictions p3 = evictions p2 + length (filter (\<lambda>c. block_hash p2 c \<noteq> None) (take n bs))"
    "resets p3 = resets p2"
    by (rule Suc.IH [OF _ inv2 n]) (simp add: p2(1))
  have f: "filter (\<lambda>c. block_hash p2 c \<noteq> None) (take n bs) = filter (\<lambda>c. block_hash p c \<noteq> None) (take n bs)"
    using bs(1) p2(4) by (intro filter_cong) (auto dest: in_set_takeD)
  show ?case
  proof (rule Suc.prems(1))
    show "take_new_blocks (Suc n) p = Inr (p3, take (Suc n) (free_list p))"
      using q b p3(1) fl by (simp add: Let_def flip: p1_def) (simp flip: p2_def)
    show "same_geometry p p3" using p2(3) p3(3) by (rule same_geometry_trans)
    show "evictions p3 = evictions p + length (filter (\<lambda>b. block_hash p b \<noteq> None) (take (Suc n) (free_list p)))"
      using p3(7) p2(5) p1(3) f fl by simp
  qed (use p2 p3 fl in auto)
qed

lemma get_new_blocks_short: "num_free_blocks p < n \<Longrightarrow> 0 \<le> n \<Longrightarrow> get_new_blocks n p = Inr (p, None)"
  by (simp add: get_new_blocks_def)

definition alloc_effect :: "nat list \<Rightarrow> block_pool \<Rightarrow> block_pool \<Rightarrow> bool" where
  "alloc_effect bs p p' \<longleftrightarrow>
     pool_inv p' \<and> same_geometry p p' \<and>
     ref_cnt p' = (\<lambda>b. if b \<in> set bs then 1 else ref_cnt p b) \<and>
     block_hash p' = (\<lambda>b. if b \<in> set bs then None else block_hash p b) \<and>
     evictions p' = evictions p + length (filter (\<lambda>b. block_hash p b \<noteq> None) bs) \<and>
     resets p' = resets p"

lemma get_new_blocks_ok:
  assumes "pool_inv p" "n \<le> length (free_list p)"
  shows "\<exists>p'. get_new_blocks (int n) p = Inr (p', Some (take n (free_list p))) \<and>
           free_list p' = drop n (free_list p) \<and> alloc_effect (take n (free_list p)) p p'"
proof -
  have n: "\<not> int n > num_free_blocks p"
    using assms pool_invD(8) [OF assms(1)] by simp
  obtain p' where "take_new_blocks n p = Inr (p', take n (free_list p))"
    "free_list p' = drop n (free_list p)" "alloc_effect (take n (free_list p)) p p'"
    unfolding alloc_effect_def by (rule take_new_blocks_ok [OF assms]) blast
  with n show ?thesis by (simp add: get_new_blocks_def)
qed

text \<open>
  \<open>ref_effect d p p'\<close>: only reference counts (and with them the free queue) changed, by \<open>d\<close>; the null
  block is exempt.
\<close>

definition ref_effect :: "(nat \<Rightarrow> int) \<Rightarrow> block_pool \<Rightarrow> block_pool \<Rightarrow> bool" where
  "ref_effect d p p' \<longleftrightarrow>
     pool_inv p' \<and> same_geometry p p' \<and>
     ref_cnt p' = (\<lambda>b. if b = 0 then ref_cnt p b else ref_cnt p b + d b) \<and>
     block_hash p' = block_hash p \<and> cached_blocks p' = cached_blocks p \<and>
     evictions p' = evictions p \<and> resets p' = resets p"

lemma ref_effect_refl: "pool_inv p \<Longrightarrow> ref_effect (\<lambda>_. 0) p p"
  by (auto simp: ref_effect_def)

lemma ref_effect_trans: "ref_effect d p q \<Longrightarrow> ref_effect e q r \<Longrightarrow> ref_effect (\<lambda>b. d b + e b) p r"
  by (auto simp: ref_effect_def intro: same_geometry_trans)

lemma ref_effect_cong: "ref_effect d p p' \<Longrightarrow> (\<And>b. b \<noteq> 0 \<Longrightarrow> d b = e b) \<Longrightarrow> ref_effect e p p'"
  by (auto simp: ref_effect_def)

lemma ref_effectD:
  assumes "ref_effect d p p'"
  shows "pool_inv p'" "same_geometry p p'" "block_hash p' = block_hash p"
    "b \<noteq> 0 \<Longrightarrow> ref_cnt p' b = ref_cnt p b + d b" "num_blocks p' = num_blocks p"
    "get_cached_block p' = get_cached_block p" "evictions p' = evictions p"
  using assms by (auto simp: ref_effect_def same_geometry_def get_cached_block_def fun_eq_iff)

lemma touch_block_ok:
  assumes "pool_inv p" "b < num_blocks p"
  shows "\<exists>p'. touch_block b p = Inr p' \<and> ref_effect (\<lambda>c. if c = b then 1 else 0) p p'"
proof -
  consider "b = 0" | "b \<noteq> 0" "ref_cnt p b \<noteq> 0" | "b \<noteq> 0" "ref_cnt p b = 0" by blast
  then show ?thesis
  proof cases
    case 1
    then show ?thesis
      using ref_effect_cong [OF ref_effect_refl [OF assms(1)]] by (simp add: touch_block_def)
  next
    case 2
    have "ref_cnt p b + 1 \<noteq> 0" using pool_invD(4) [OF assms(1), of b] by simp
    then have "ref_effect (\<lambda>c. if c = b then 1 else 0) p (p\<lparr>ref_cnt := (ref_cnt p)(b := ref_cnt p b + 1)\<rparr>)"
      using 2 assms by (auto simp: ref_effect_def pool_inv_def same_geometry_def)
    with 2 show ?thesis by (simp add: touch_block_def)
  next
    case 3
    then have mem: "b \<in> set (free_list p)"
      using pool_invD(3) [OF assms(1), of b] assms(2) by simp
    obtain q where q: "fq_remove b (free_block_queue p) = Inr q" "fq_ok q"
      "fq_iter q = remove1 b (free_list p)"
      using fq.remove_law [OF pool_invD(1) [OF assms(1)] mem] by blast
    have "ref_effect (\<lambda>c. if c = b then 1 else 0) p
            (p\<lparr>free_block_queue := q, ref_cnt := (ref_cnt p)(b := 1)\<rparr>)"
      using 3 assms q pool_invD(2) [OF assms(1)]
      by (auto simp: ref_effect_def pool_inv_def same_geometry_def)
    with 3 q show ?thesis by (simp add: touch_block_def)
  qed
qed

lemma touch_ok:
  assumes "pool_inv p" "\<forall>b \<in> set bs. b < num_blocks p"
  shows "\<exists>p'. touch bs p = Inr p' \<and> ref_effect (\<lambda>b. int (count_list bs b)) p p'"
  using assms
proof (induction bs arbitrary: p)
  case Nil
  then show ?case by (simp add: touch_def ref_effect_refl)
next
  case (Cons b bs)
  obtain p1 where p1: "touch_block b p = Inr p1" "ref_effect (\<lambda>c. if c = b then 1 else 0) p p1"
    using touch_block_ok [of p b] Cons.prems by auto
  obtain p2 where "touch bs p1 = Inr p2" "ref_effect (\<lambda>b. int (count_list bs b)) p1 p2"
    using Cons.IH [of p1] Cons.prems ref_effectD(1,5) [OF p1(2)] by auto
  then have "touch (b # bs) p = Inr p2" "ref_effect (\<lambda>c. int (count_list (b # bs) c)) p p2"
    using p1(1) ref_effect_cong [OF ref_effect_trans [OF p1(2)]] by (auto simp: touch_def)
  then show ?case by blast
qed

lemma free_block_ok:
  assumes "pool_inv p" "b \<noteq> 0" "0 < ref_cnt p b"
  obtains p' where "free_block b p = Inr p'" "ref_effect (\<lambda>c. if c = b then -1 else 0) p p'"
    "free_list p' = (if 1 < ref_cnt p b then free_list p
                     else if block_hash p b = None then b # free_list p
                     else free_list p @ [b])"
proof (cases "1 < ref_cnt p b")
  case True
  then show ?thesis
    by (intro that [of "p\<lparr>ref_cnt := (ref_cnt p)(b := ref_cnt p b - 1)\<rparr>"])
      (use assms in \<open>auto simp: free_block_def Let_def ref_effect_def same_geometry_def pool_inv_def\<close>)
next
  case False
  then have one: "ref_cnt p b = 1" using assms(3) by simp
  let ?op = "if block_hash p b = None then fq_prepend else fq_append"
  let ?fl = "if block_hash p b = None then b # free_list p else free_list p @ [b]"
  have "b \<notin> set (free_list p)" "b < num_blocks p"
    using pool_invD(3) [OF assms(1), of b] one assms(1) by (auto simp: pool_inv_def not_le_imp_less)
  then obtain q where q: "?op b (free_block_queue p) = Inr q" "fq_ok q" "fq_iter q = ?fl"
    using fq.prepend_law [OF pool_invD(1) [OF assms(1)], of b]
      fq.append_law [OF pool_invD(1) [OF assms(1)], of b] by (cases "block_hash p b") auto
  have "free_block b p = Inr (p\<lparr>ref_cnt := (ref_cnt p)(b := 0), free_block_queue := q\<rparr>)"
    using q one assms(2) by (simp add: free_block_def Let_def)
  then show ?thesis
    by (rule that) (use assms one q \<open>b < num_blocks p\<close> in
        \<open>auto simp: ref_effect_def same_geometry_def pool_inv_def\<close>)
qed

lemma free_block_null [simp]: "free_block 0 p = Inr p"
  by (simp add: free_block_def)

lemma free_blocks_ok:
  assumes "pool_inv p" "\<forall>b. b \<noteq> 0 \<longrightarrow> int (count_list bs b) \<le> ref_cnt p b"
  shows "\<exists>p'. free_blocks bs p = Inr p' \<and> ref_effect (\<lambda>b. - int (count_list bs b)) p p'"
  using assms
proof (induction bs arbitrary: p)
  case Nil
  then show ?case by (simp add: free_blocks_def ref_effect_refl)
next
  case (Cons b bs)
  obtain p1 where p1: "free_block b p = Inr p1"
    "ref_effect (\<lambda>c. if c \<noteq> 0 \<and> c = b then -1 else 0) p p1"
  proof (cases "b = 0")
    case True
    then show ?thesis
      using that [of p] ref_effect_cong [OF ref_effect_refl [OF Cons.prems(1)]] by simp
  next
    case False
    then have pos: "0 < ref_cnt p b" using Cons.prems(2) [rule_format, of b] by simp
    from False have "(\<lambda>c. if c \<noteq> 0 \<and> c = b then -1 else 0 :: int) = (\<lambda>c. if c = b then -1 else 0)"
      by auto
    then show ?thesis
      using that by (auto intro: free_block_ok [OF Cons.prems(1) False pos])
  qed
  have "int (count_list bs c) \<le> ref_cnt p1 c" if "c \<noteq> 0" for c
    using that Cons.prems(2) [rule_format, of c] ref_effectD(4) [OF p1(2), of c] by (cases "c = b") simp_all
  then obtain p2 where p2: "free_blocks bs p1 = Inr p2" "ref_effect (\<lambda>b. - int (count_list bs b)) p1 p2"
    using Cons.IH ref_effectD(1) [OF p1(2)] by blast
  have "ref_effect (\<lambda>c. - int (count_list (b # bs) c)) p p2"
    using ref_effect_trans [OF p1(2) p2(2)] by (rule ref_effect_cong) auto
  with p1(1) p2(1) show ?case by (auto simp: free_blocks_def)
qed

text \<open>
  \<open>hash_effect g p p'\<close>: only hashes were added, exactly those of \<open>g\<close>.
\<close>

definition hash_effect :: "(nat \<Rightarrow> bhash option) \<Rightarrow> block_pool \<Rightarrow> block_pool \<Rightarrow> bool" where
  "hash_effect g p p' \<longleftrightarrow>
     pool_inv p' \<and> same_geometry p p' \<and> ref_cnt p' = ref_cnt p \<and>
     free_block_queue p' = free_block_queue p \<and> evictions p' = evictions p \<and> resets p' = resets p \<and>
     block_hash p' = (\<lambda>b. case block_hash p b of Some h \<Rightarrow> Some h | None \<Rightarrow> g b)"

lemma cache_full_block_ok:
  assumes "pool_inv p" "enable_caching p" "b < num_blocks p"
  shows "hash_effect (if b = 0 then (\<lambda>_. None) else [b \<mapsto> h]) p (cache_full_block (b, h) p)"
proof (cases "b = 0 \<or> block_hash p b \<noteq> None")
  case True
  with assms(1) show ?thesis
    by (auto simp: cache_full_block_def hash_effect_def fun_eq_iff split: option.splits)
next
  case False
  note ix = pool_invD(7) [OF assms(1)]
  let ?ids = "case map_of (cached_blocks p) h of None \<Rightarrow> [] | Some ids \<Rightarrow> ids"
  let ?bh = "(block_hash p)(b := Some h)"
  have ids: "distinct ?ids" "set ?ids = {c. block_hash p c = Some h}"
  proof -
    consider "map_of (cached_blocks p) h = None" | l where "map_of (cached_blocks p) h = Some l"
      by fastforce
    then have "distinct ?ids \<and> set ?ids = {c. block_hash p c = Some h}"
    proof cases
      case 1
      then show ?thesis using index_okD(3) [OF ix 1] by simp
    next
      case (2 l)
      then show ?thesis using index_okD(2) [OF ix 2] by simp
    qed
    then show "distinct ?ids" "set ?ids = {c. block_hash p c = Some h}" by auto
  qed
  then have nb: "b \<notin> set ?ids" using False by simp
  have "index_ok (AList.update h (?ids @ [b]) (cached_blocks p)) ?bh"
    by (rule index_ok_update [OF ix]) (use False ids nb in auto)
  moreover have "cache_full_block (b, h) p =
      p\<lparr>block_hash := ?bh, cached_blocks := AList.update h (?ids @ [b]) (cached_blocks p)\<rparr>"
    using False nb unfolding cache_full_block_def Let_def by (simp only: fst_conv snd_conv if_False simp_thms)
  moreover have "?bh = (\<lambda>c. case block_hash p c of Some h \<Rightarrow> Some h | None \<Rightarrow> [b \<mapsto> h] c)"
    using False by (auto split: option.splits)
  ultimately show ?thesis
    using assms False by (auto simp: hash_effect_def pool_inv_def same_geometry_def)
qed

lemma hash_effectD:
  assumes "hash_effect g p p'"
  shows "pool_inv p'" "same_geometry p p'" "ref_cnt p' = ref_cnt p" "free_list p' = free_list p"
    "num_blocks p' = num_blocks p" "enable_caching p' = enable_caching p"
    "block_hash p b = Some h \<Longrightarrow> block_hash p' b = Some h"
    "block_hash p b = None \<Longrightarrow> block_hash p' b = g b"
    "num_free_blocks p' = num_free_blocks p"
  using assms by (auto simp: hash_effect_def same_geometry_def num_free_blocks_def)

text \<open>
  The hash each block gains from one call: the first hash it is paired with, null blocks excepted.
\<close>

definition gained_hash :: "nat list \<Rightarrow> bhash list \<Rightarrow> nat \<Rightarrow> bhash option" where
  "gained_hash bs hs b = (if b = 0 then None else map_of (zip bs hs) b)"

lemma cache_full_blocks_ok:
  assumes "pool_inv p" "enable_caching p" "length bs = length hs" "\<forall>b \<in> set bs. b < num_blocks p"
  shows "\<exists>p'. cache_full_blocks bs hs p = Inr p' \<and> hash_effect (gained_hash bs hs) p p'"
proof -
  have "hash_effect (gained_hash bs hs) p (fold cache_full_block (zip bs hs) p)"
    using assms(3,1,2,4)
  proof (induction bs hs arbitrary: p rule: list_induct2)
    case Nil
    then show ?case
      by (auto simp: hash_effect_def gained_hash_def fun_eq_iff split: option.splits)
  next
    case (Cons b bs h hs)
    let ?p1 = "cache_full_block (b, h) p"
    have p1: "hash_effect (if b = 0 then (\<lambda>_. None) else [b \<mapsto> h]) p ?p1"
      using cache_full_block_ok Cons.prems by simp
    have p2: "hash_effect (gained_hash bs hs) ?p1 (fold cache_full_block (zip bs hs) ?p1)"
      using Cons.IH [of ?p1] Cons.prems hash_effectD [OF p1] by simp
    from p1 p2 show ?case
      unfolding hash_effect_def
      by (auto simp: gained_hash_def fun_eq_iff elim: same_geometry_trans split: option.splits)
  qed
  then show ?thesis using assms by (simp add: cache_full_blocks_def)
qed

lemma cache_full_blocks_off: "\<not> enable_caching p \<Longrightarrow> cache_full_blocks bs hs p = Inr p"
  by (simp add: cache_full_blocks_def)

lemma reset_prefix_cache_ok:
  assumes "pool_inv p" "reset_prefix_cache p = (p', r)"
  shows "pool_inv p'" "r \<longleftrightarrow> (\<forall>b. 0 < b \<and> b < num_blocks p \<longrightarrow> ref_cnt p b = 0)"
    "r \<Longrightarrow> block_hash p' = (\<lambda>_. None) \<and> ref_cnt p' = ref_cnt p" "\<not> r \<Longrightarrow> p' = p"
    "same_geometry p p'" "evictions p' = evictions p"
proof -
  let ?A = "{b. 0 < b \<and> b < num_blocks p \<and> ref_cnt p b = 0}" and ?B = "{1..<num_blocks p}"
  have len: "length (free_list p) = card ?A"
    using pool_invD(2) [OF assms(1)] assms(1) by (metis distinct_card pool_inv_def)
  have "num_used_blocks p = 1 \<longleftrightarrow> card ?A = card ?B"
    using len pool_invD(8) [OF assms(1)] assms(1) by (auto simp: num_used_blocks_def pool_inv_def)
  moreover have "card ?A = card ?B \<longleftrightarrow> ?A = ?B"
  proof
    show "?A = ?B" if "card ?A = card ?B"
      by (rule card_subset_eq) (use that in auto)
  qed simp
  moreover have "?A = ?B \<longleftrightarrow> (\<forall>b. 0 < b \<and> b < num_blocks p \<longrightarrow> ref_cnt p b = 0)"
    unfolding set_eq_iff by (simp add: Suc_le_eq) blast
  ultimately have used: "num_used_blocks p = 1 \<longleftrightarrow>
      (\<forall>b. 0 < b \<and> b < num_blocks p \<longrightarrow> ref_cnt p b = 0)"
    by (simp only:)
  have none: "(\<lambda>b. if b < num_blocks p then None else block_hash p b) = (\<lambda>_. None)"
    using assms(1) by (auto simp: pool_inv_def fun_eq_iff)
  show "r \<longleftrightarrow> (\<forall>b. 0 < b \<and> b < num_blocks p \<longrightarrow> ref_cnt p b = 0)"
    using used assms(2) by (auto simp: reset_prefix_cache_def split: if_splits)
  show "pool_inv p'"
    using assms none by (auto simp: reset_prefix_cache_def pool_inv_def split: if_splits)
  show "r \<Longrightarrow> block_hash p' = (\<lambda>_. None) \<and> ref_cnt p' = ref_cnt p" "\<not> r \<Longrightarrow> p' = p"
    "same_geometry p p'" "evictions p' = evictions p"
    using assms(2) none by (auto simp: reset_prefix_cache_def same_geometry_def split: if_splits)
qed

section \<open>Properties\<close>

text \<open>
  Allocation is all or nothing. From a consistent pool, asking for \<open>n\<close> blocks either returns nothing
  and changes nothing, when fewer are free, or returns exactly the \<open>n\<close> least recently used free blocks:
  they are distinct, none is the null block, nobody referenced them, they leave the free queue with one
  reference and no hash, so a later lookup cannot hit their old content, and no other block changes.
\<close>

lemma get_new_blocks_all_or_nothing:
  assumes "pool_inv p"
  shows "if n \<le> length (free_list p)
    then \<exists>p'. get_new_blocks (int n) p = Inr (p', Some (take n (free_list p))) \<and> pool_inv p' \<and>
           distinct (take n (free_list p)) \<and>
           (\<forall>b \<in> set (take n (free_list p)). b \<noteq> NULL_BLOCK_ID \<and> ref_cnt p b = 0 \<and> ref_cnt p' b = 1 \<and>
              (\<forall>h. get_cached_block p' h \<noteq> Some b)) \<and>
           free_list p' = drop n (free_list p) \<and>
           (\<forall>b. b \<notin> set (take n (free_list p)) \<longrightarrow> ref_cnt p' b = ref_cnt p b \<and> block_hash p' b = block_hash p b)
    else get_new_blocks (int n) p = Inr (p, None)"
proof (cases "n \<le> length (free_list p)")
  case True
  let ?bs = "take n (free_list p)"
  obtain p' where p': "get_new_blocks (int n) p = Inr (p', Some ?bs)" "free_list p' = drop n (free_list p)"
    "alloc_effect ?bs p p'"
    using get_new_blocks_ok [OF assms True] by blast
  have "distinct ?bs" using fq.items_distinct [OF pool_invD(1) [OF assms]] by simp
  moreover have "b \<noteq> 0 \<and> ref_cnt p b = 0" if "b \<in> set ?bs" for b
    using in_set_takeD [OF that] pool_invD(3) [OF assms, of b] by auto
  moreover have "get_cached_block p' h \<noteq> Some b" if "b \<in> set ?bs" for b h
    using get_cached_block_Some [of p' h b] p'(3) that pool_invD(7) [of p'] by (auto simp: alloc_effect_def)
  ultimately show ?thesis using True p' by (auto simp: alloc_effect_def)
next
  case False
  then show ?thesis using pool_invD(8) [OF assms] by (simp add: get_new_blocks_short)
qed

text \<open>
  Release is checked. Freeing a block nobody references raises \<^verbatim>\<open>ValueError\<close> whatever the rest of the
  list is, and freeing at most as often as a block is referenced never raises: it lowers each count by
  the number of occurrences, keeps every cached hash (the blocks stay reusable), and the blocks that
  reach zero are exactly those that become free.
\<close>

lemma free_blocks_checked:
  assumes "pool_inv p" "\<forall>b. b \<noteq> NULL_BLOCK_ID \<longrightarrow> int (count_list bs b) \<le> ref_cnt p b"
  shows "(c \<noteq> NULL_BLOCK_ID \<and> ref_cnt p c = 0 \<longrightarrow> free_blocks (c # cs) p = Inl ValueError) \<and>
    (\<exists>p'. free_blocks bs p = Inr p' \<and> pool_inv p' \<and> get_cached_block p' = get_cached_block p \<and>
       (\<forall>b. b \<noteq> NULL_BLOCK_ID \<longrightarrow> ref_cnt p' b = ref_cnt p b - int (count_list bs b)) \<and>
       (\<forall>b. b \<in> set (free_list p') \<longleftrightarrow>
          b \<noteq> NULL_BLOCK_ID \<and> b < num_blocks p \<and> ref_cnt p b = int (count_list bs b)))"
proof -
  obtain p' where p': "free_blocks bs p = Inr p'" "ref_effect (\<lambda>b. - int (count_list bs b)) p p'"
    using free_blocks_ok [OF assms] by blast
  note re = ref_effectD [OF p'(2)]
  have "b \<in> set (free_list p') \<longleftrightarrow> b \<noteq> 0 \<and> b < num_blocks p \<and> ref_cnt p b = int (count_list bs b)" for b
    using pool_invD(3) [OF re(1), of b] re(4) [of b] re(5) by auto
  then show ?thesis using p'(1) re by (auto simp: free_blocks_def free_block_def)
qed

text \<open>
  Publishing and looking up. After a full block of the pool is published under a hash it did not
  carry, that hash is found, and whatever block the lookup returns really carries the hash; when caching
  is off nothing is ever found; and a reset succeeds exactly when nobody references a block, after which
  no hash is found at all.
\<close>

lemma publish_lookup_reset:
  assumes "pool_inv p" "b \<noteq> NULL_BLOCK_ID" "b < num_blocks p" "block_hash p b = None"
  shows "(\<exists>p'. cache_full_blocks [b] [h] p = Inr p' \<and> pool_inv p' \<and>
      (if enable_caching p then \<exists>c. get_cached_block p' h = Some c \<and> block_hash p' c = Some h
       else get_cached_block p' h = None)) \<and>
    (\<exists>p' ok. reset_prefix_cache p = (p', ok) \<and> pool_inv p' \<and>
      (ok \<longleftrightarrow> (\<forall>c. 0 < c \<and> c < num_blocks p \<longrightarrow> ref_cnt p c = 0)) \<and>
      (if ok then \<forall>g. get_cached_block p' g = None else p' = p))"
proof -
  have "\<exists>p'. cache_full_blocks [b] [h] p = Inr p' \<and> pool_inv p' \<and>
      (if enable_caching p then \<exists>c. get_cached_block p' h = Some c \<and> block_hash p' c = Some h
       else get_cached_block p' h = None)"
  proof (cases "enable_caching p")
    case True
    obtain p' where p': "cache_full_blocks [b] [h] p = Inr p'" "hash_effect (gained_hash [b] [h]) p p'"
      using cache_full_blocks_ok [OF assms(1) True, of "[b]" "[h]"] assms(3) by auto
    have "block_hash p' b = Some h" using hash_effectD(8) [OF p'(2) assms(4)] assms(2) by (simp add: gained_hash_def)
    then obtain c where "get_cached_block p' h = Some c"
      using get_cached_block_None [OF pool_invD(7) [OF hash_effectD(1) [OF p'(2)]], of h]
      by (cases "get_cached_block p' h") auto
    then show ?thesis
      using True p'(1) hash_effectD(1) [OF p'(2)] get_cached_block_Some pool_invD(7) by auto
  next
    case False
    then have "get_cached_block p h = None"
      using assms(1) get_cached_block_None [OF pool_invD(7) [OF assms(1)]] by (simp add: pool_inv_def)
    then show ?thesis using False assms(1) by (simp add: cache_full_blocks_off)
  qed
  moreover obtain p' ok where r: "reset_prefix_cache p = (p', ok)" by fastforce
  moreover have "\<forall>g. get_cached_block p' g = None" if ok
    using reset_prefix_cache_ok(3) [OF assms(1) r that]
      get_cached_block_None [OF pool_invD(7) [OF reset_prefix_cache_ok(1) [OF assms(1) r]]] by simp
  ultimately show ?thesis
    using reset_prefix_cache_ok(1,2,4) [OF assms(1) r] by auto
qed

end
