(* ===== verification/KV_Cache_Spec.thy ===== *)
theory KV_Cache_Spec
  imports Block_Pool
begin

text \<open>
  KV cache groups (\<^verbatim>\<open>src/rapid_llm/engine/kv_cache_spec.py\<close>, its first half): the layout of one
  group of layers, how a prompt's hash chain is projected onto a group's block granularity, and how
  many leading blocks of a prompt each kind of attention may reuse. Full attention and MLA reuse the
  longest unbroken run from block 0; a sliding window reuses the blocks of one window and leaves the
  positions before it to the null block.
\<close>

section \<open>Specifications\<close>

definition cdiv :: "int \<Rightarrow> int \<Rightarrow> int" where
  "cdiv a b = - ((- a) div b)"

datatype kv_spec =
    FullAttentionSpec (spec_block_size: nat) (kv_row: "nat \<times> nat")
  | MLASpec (spec_block_size: nat) (kv_row: "nat \<times> nat")
  | SlidingWindowSpec (spec_block_size: nat) (kv_row: "nat \<times> nat") (sliding_window: nat)

definition spec_post_init :: "kv_spec \<Rightarrow> kv_spec res" where
  "spec_post_init spec =
     (if spec_block_size spec < 1 then Inl ValueError
      else case spec of
        SlidingWindowSpec _ _ w \<Rightarrow> if w < 1 then Inl ValueError else Inr spec
      | _ \<Rightarrow> Inr spec)"

fun spec_kind :: "kv_spec \<Rightarrow> string" where
  "spec_kind (FullAttentionSpec _ _) = ''fullattention''"
| "spec_kind (MLASpec _ _) = ''mla''"
| "spec_kind (SlidingWindowSpec _ _ _) = ''slidingwindow''"

fun spec_window :: "kv_spec \<Rightarrow> nat" where
  "spec_window (SlidingWindowSpec _ _ w) = w"
| "spec_window _ = 0"

definition page_size_bytes :: "kv_spec \<Rightarrow> nat \<Rightarrow> nat \<Rightarrow> nat" where
  "page_size_bytes spec num_layers dtype_size =
     (case kv_row spec of (slots, dim) \<Rightarrow>
        spec_block_size spec * slots * dim * num_layers * dtype_size)"

definition num_blocks_for :: "kv_spec \<Rightarrow> nat \<Rightarrow> nat" where
  "num_blocks_for spec num_tokens = nat (cdiv (int num_tokens) (int (spec_block_size spec)))"

definition num_window_blocks :: "nat \<Rightarrow> nat \<Rightarrow> nat" where
  "num_window_blocks bs w = nat (cdiv (int w - 1) (int bs) + 1)"

text \<open>The slice \<^verbatim>\<open>xs[r - 1 :: r]\<close>: every \<open>r\<close>-th element, starting with the \<open>r\<close>-th.\<close>

function every_nth :: "nat \<Rightarrow> 'a list \<Rightarrow> 'a list" where
  "every_nth r xs =
     (if r = 0 \<or> length xs < r then [] else xs ! (r - 1) # every_nth r (drop r xs))"
  by pat_completeness auto
termination
  by (relation "measure (\<lambda>(r, xs). length xs)") auto

declare every_nth.simps [simp del]

definition group_block_hashes :: "kv_spec \<Rightarrow> bhash list \<Rightarrow> nat \<Rightarrow> bhash list res" where
  "group_block_hashes spec hashes hash_block_size =
     (if hash_block_size = 0 then Inl ZeroDivisionError
      else if spec_block_size spec mod hash_block_size \<noteq> 0 then Inl ValueError
      else let ratio = spec_block_size spec div hash_block_size
           in Inr (if ratio = 1 then hashes else every_nth ratio hashes))"

section \<open>Cache-hit policies\<close>

primrec prefix_run :: "block_pool \<Rightarrow> bhash list \<Rightarrow> nat list" where
  "prefix_run p [] = []"
| "prefix_run p (h # hs) =
     (case get_cached_block p h of None \<Rightarrow> [] | Some b \<Rightarrow> b # prefix_run p hs)"

definition prefix_run_hit :: "kv_spec \<Rightarrow> bhash list \<Rightarrow> nat \<Rightarrow> block_pool \<Rightarrow> nat \<Rightarrow> nat list res" where
  "prefix_run_hit spec hashes max_length p hash_block_size =
     rbind (group_block_hashes spec hashes hash_block_size) (\<lambda>hs.
       let num = min (max_length div spec_block_size spec) (length hs)
       in Inr (prefix_run p (take num hs)))"

text \<open>
  The right-to-left scan of a sliding window. The third argument counts the positions not yet visited,
  so the loop body handles index \<open>i\<close> in the equation for \<open>Suc i\<close>.
\<close>

primrec window_scan ::
  "block_pool \<Rightarrow> bhash list \<Rightarrow> nat \<Rightarrow> nat \<Rightarrow> nat list \<Rightarrow> nat \<Rightarrow> nat list" where
  "window_scan p hs needed 0 hit run = take run hit"
| "window_scan p hs needed (Suc i) hit run =
     (case get_cached_block p (hs ! i) of
        None \<Rightarrow> window_scan p hs needed i hit 0
      | Some b \<Rightarrow>
          (let hit' = hit[i := b]; run' = run + 1
           in if run' \<ge> needed then take (i + run') hit'
              else window_scan p hs needed i hit' run'))"

definition window_hit :: "kv_spec \<Rightarrow> bhash list \<Rightarrow> nat \<Rightarrow> block_pool \<Rightarrow> nat \<Rightarrow> nat list res" where
  "window_hit spec hashes max_length p hash_block_size =
     rbind (group_block_hashes spec hashes hash_block_size) (\<lambda>hs.
       let num = min (max_length div spec_block_size spec) (length hs)
       in Inr (window_scan p hs (num_window_blocks (spec_block_size spec) (spec_window spec)) num
                 (replicate num NULL_BLOCK_ID) 0))"

fun spec_find_longest_cache_hit ::
  "kv_spec \<Rightarrow> bhash list \<Rightarrow> nat \<Rightarrow> block_pool \<Rightarrow> nat \<Rightarrow> nat list res" where
  "spec_find_longest_cache_hit (FullAttentionSpec bs row) hashes n p hbs =
     prefix_run_hit (FullAttentionSpec bs row) hashes n p hbs"
| "spec_find_longest_cache_hit (MLASpec bs row) hashes n p hbs =
     prefix_run_hit (MLASpec bs row) hashes n p hbs"
| "spec_find_longest_cache_hit (SlidingWindowSpec bs row w) hashes n p hbs =
     window_hit (SlidingWindowSpec bs row w) hashes n p hbs"

section \<open>Groups and configurations\<close>

record kv_group =
  group_id :: nat
  group_spec :: kv_spec
  layer_ids :: "nat list"

record kv_config =
  config_groups :: "kv_group list"
  hash_block_size :: nat

definition config_post_init :: "kv_config \<Rightarrow> kv_config res" where
  "config_post_init config =
     (if config_groups config = [] then Inl ValueError
      else rbind (rfold (\<lambda>g _. rbind (group_block_hashes (group_spec g) [] (hash_block_size config))
                                     (\<lambda>_. Inr ()))
                        (config_groups config) ())
             (\<lambda>_. Inr config))"

definition num_groups :: "kv_config \<Rightarrow> nat" where
  "num_groups config = length (config_groups config)"

definition is_homogeneous :: "kv_config \<Rightarrow> bool" where
  "is_homogeneous config \<longleftrightarrow> length (config_groups config) = 1"

fun group_of_layer_in :: "kv_group list \<Rightarrow> nat \<Rightarrow> nat res" where
  "group_of_layer_in [] layer = Inl KeyError"
| "group_of_layer_in (g # gs) layer =
     (if layer \<in> set (layer_ids g) then Inr (group_id g) else group_of_layer_in gs layer)"

definition group_of_layer :: "kv_config \<Rightarrow> nat \<Rightarrow> nat res" where
  "group_of_layer config layer = group_of_layer_in (config_groups config) layer"

text \<open>A falsy \<^verbatim>\<open>hash_block_size\<close> argument (\<^verbatim>\<open>None\<close> or 0) defaults to the block size.\<close>

definition or_default :: "nat option \<Rightarrow> nat \<Rightarrow> nat" where
  "or_default x d = (case x of None \<Rightarrow> d | Some v \<Rightarrow> if v = 0 then d else v)"

definition homogeneous :: "nat \<Rightarrow> nat \<Rightarrow> nat \<times> nat \<Rightarrow> nat option \<Rightarrow> kv_config res" where
  "homogeneous bs num_layers row hbs =
     rbind (spec_post_init (FullAttentionSpec bs row)) (\<lambda>spec.
       config_post_init \<lparr>config_groups = [\<lparr>group_id = 0, group_spec = spec, layer_ids = [0..<num_layers]\<rparr>],
                         hash_block_size = or_default hbs bs\<rparr>)"

record model_config =
  mc_num_layers :: nat
  is_mla :: bool
  kv_lora_rank :: nat
  qk_rope_head_dim :: nat
  num_kv_heads :: nat
  head_dim :: nat
  mc_sliding_window :: "nat option"
  sliding_window_layers :: "nat list"

definition from_model_config :: "model_config \<Rightarrow> nat \<Rightarrow> nat \<Rightarrow> nat option \<Rightarrow> kv_config res" where
  "from_model_config config tp_size bs hbs =
     (let hbs' = or_default hbs bs;
          all_layers = [0..<mc_num_layers config]
      in if is_mla config then
           rbind (spec_post_init (MLASpec bs (1, kv_lora_rank config + qk_rope_head_dim config)))
             (\<lambda>spec. config_post_init
                \<lparr>config_groups = [\<lparr>group_id = 0, group_spec = spec, layer_ids = all_layers\<rparr>],
                 hash_block_size = hbs'\<rparr>)
         else if tp_size = 0 then Inl ZeroDivisionError
         else let kv_heads = num_kv_heads config div tp_size;
                  remainder = num_kv_heads config mod tp_size
              in if remainder \<noteq> 0 \<or> kv_heads = 0 then Inl ValueError
                 else let full_row = (2 * kv_heads, head_dim config);
                          window = or_default (mc_sliding_window config) 0;
                          windowed = sliding_window_layers config
                      in if window = 0 \<or> windowed = [] then
                           rbind (spec_post_init (FullAttentionSpec bs full_row))
                             (\<lambda>spec. config_post_init
                                \<lparr>config_groups = [\<lparr>group_id = 0, group_spec = spec, layer_ids = all_layers\<rparr>],
                                 hash_block_size = hbs'\<rparr>)
                         else let dense = filter (\<lambda>i. i \<notin> set windowed) all_layers
                              in rbind (spec_post_init (SlidingWindowSpec bs full_row window)) (\<lambda>ws.
                                 rbind (if dense = [] then Inr []
                                        else rbind (spec_post_init (FullAttentionSpec bs full_row))
                                               (\<lambda>fs. Inr [\<lparr>group_id = 1, group_spec = fs, layer_ids = dense\<rparr>]))
                                   (\<lambda>rest. config_post_init
                                      \<lparr>config_groups =
                                         \<lparr>group_id = 0, group_spec = ws, layer_ids = windowed\<rparr> # rest,
                                       hash_block_size = hbs'\<rparr>)))"

section \<open>Block arithmetic\<close>

lemma cdiv_eq: "0 < b \<Longrightarrow> cdiv a b = (a + b - 1) div b"
proof -
  assume b: "0 < b"
  let ?k = "a div b" and ?r = "a mod b"
  have a: "a = b * ?k + ?r" and r: "0 \<le> ?r" "?r < b" using b by simp_all
  show ?thesis
  proof (cases "?r = 0")
    case True
    have "(- a) div b = - ?k"
      by (rule int_div_pos_eq [where r = 0]) (use a True b in \<open>auto simp: algebra_simps\<close>)
    moreover have "(a + b - 1) div b = ?k"
      by (rule int_div_pos_eq [where r = "b - 1"]) (use a True b in \<open>auto simp: algebra_simps\<close>)
    ultimately show ?thesis by (simp add: cdiv_def)
  next
    case False
    have "(- a) div b = - ?k - 1"
      by (rule int_div_pos_eq [where r = "b - ?r"]) (use a False r in \<open>auto simp: algebra_simps\<close>)
    moreover have "(a + b - 1) div b = ?k + 1"
      by (rule int_div_pos_eq [where r = "?r - 1"]) (use a False r in \<open>auto simp: algebra_simps\<close>)
    ultimately show ?thesis by (simp add: cdiv_def)
  qed
qed

lemma cdiv_nat:
  assumes "0 < b"
  shows "cdiv (int a) (int b) = int ((a + b - 1) div b)"
proof -
  have "int a + int b - 1 = int (a + b - 1)" using assms by simp
  with assms show ?thesis by (simp add: cdiv_eq zdiv_int)
qed

lemma num_blocks_for_eq:
  "0 < spec_block_size spec \<Longrightarrow>
     num_blocks_for spec n = (n + spec_block_size spec - 1) div spec_block_size spec"
  by (simp add: num_blocks_for_def cdiv_nat)

lemma num_blocks_for_covers:
  assumes "0 < spec_block_size spec"
  shows "n \<le> num_blocks_for spec n * spec_block_size spec"
    and "num_blocks_for spec n * spec_block_size spec < n + spec_block_size spec"
proof -
  let ?b = "spec_block_size spec"
  let ?q = "(n + ?b - 1) div ?b"
  have "?q * ?b + (n + ?b - 1) mod ?b = n + ?b - 1" by (rule div_mult_mod_eq)
  moreover have "(n + ?b - 1) mod ?b < ?b" using assms by simp
  ultimately have "n \<le> ?q * ?b \<and> ?q * ?b < n + ?b" using assms by linarith
  then show "n \<le> num_blocks_for spec n * ?b" "num_blocks_for spec n * ?b < n + ?b"
    using assms by (simp_all only: num_blocks_for_eq)
qed

lemma num_blocks_for_mono:
  "0 < spec_block_size spec \<Longrightarrow> m \<le> n \<Longrightarrow> num_blocks_for spec m \<le> num_blocks_for spec n"
  by (simp add: num_blocks_for_eq div_le_mono)

lemma num_blocks_for_mult [simp]:
  assumes "0 < spec_block_size spec"
  shows "num_blocks_for spec (k * spec_block_size spec) = k"
proof -
  have "num_blocks_for spec (k * spec_block_size spec) * spec_block_size spec < Suc k * spec_block_size spec"
    and "k * spec_block_size spec \<le> num_blocks_for spec (k * spec_block_size spec) * spec_block_size spec"
    using num_blocks_for_covers [OF assms, of "k * spec_block_size spec"] by (simp_all add: add.commute)
  with assms show ?thesis by (simp only: mult_less_cancel2 mult_le_cancel2) simp
qed

lemma num_window_blocks_eq:
  "0 < bs \<Longrightarrow> 1 \<le> w \<Longrightarrow> num_window_blocks bs w = (w - 1 + bs - 1) div bs + 1"
  using cdiv_nat [of bs "w - 1"] by (simp add: num_window_blocks_def of_nat_diff nat_add_distrib)

section \<open>Projection of the hash chain\<close>

lemma every_nth_length: "0 < r \<Longrightarrow> length (every_nth r xs) = length xs div r"
proof (induction r xs rule: every_nth.induct)
  case (1 r xs)
  show ?case
  proof (cases "length xs < r")
    case True
    then show ?thesis by (subst every_nth.simps) simp
  next
    case False
    with 1 have "length (every_nth r (drop r xs)) = (length xs - r) div r" by simp
    with False 1(2) show ?thesis
      by (subst every_nth.simps) (simp add: le_div_geq)
  qed
qed

lemma every_nth_nth: "0 < r \<Longrightarrow> i < length xs div r \<Longrightarrow> every_nth r xs ! i = xs ! (i * r + (r - 1))"
proof (induction r xs arbitrary: i rule: every_nth.induct)
  case (1 r xs)
  then have nl: "\<not> length xs < r" by (metis div_less not_less_zero)
  show ?case
  proof (cases i)
    case 0
    with nl 1(2) show ?thesis by (subst every_nth.simps) simp
  next
    case (Suc j)
    have "j < length (drop r xs) div r"
      using 1(2,3) nl Suc by (simp add: le_div_geq)
    with 1(1) [of j] nl 1(2) have "every_nth r (drop r xs) ! j = drop r xs ! (j * r + (r - 1))" by simp
    moreover have "drop r xs ! (j * r + (r - 1)) = xs ! (Suc j * r + (r - 1))"
      using nl by (simp add: algebra_simps)
    ultimately show ?thesis
      using Suc nl 1(2) by (subst every_nth.simps) simp
  qed
qed

definition spec_ok :: "nat \<Rightarrow> kv_spec \<Rightarrow> bool" where
  "spec_ok hbs spec \<longleftrightarrow> 0 < hbs \<and> 0 < spec_block_size spec \<and> hbs dvd spec_block_size spec \<and>
     (case spec of SlidingWindowSpec _ _ w \<Rightarrow> 1 \<le> w | _ \<Rightarrow> True)"

lemma group_block_hashes_ok:
  assumes "spec_ok hbs spec"
  obtains hs where "group_block_hashes spec hashes hbs = Inr hs"
    "length hs = length hashes div (spec_block_size spec div hbs)"
    "\<And>i. i < length hs \<Longrightarrow>
       hs ! i = hashes ! (i * (spec_block_size spec div hbs) + (spec_block_size spec div hbs - 1))"
proof -
  let ?r = "spec_block_size spec div hbs"
  have r: "0 < ?r" "\<not> 0 < spec_block_size spec mod hbs"
    using assms by (auto simp: spec_ok_def dvd_imp_le div_greater_zero_iff)
  show ?thesis
  proof (rule that)
    show "group_block_hashes spec hashes hbs = Inr (if ?r = 1 then hashes else every_nth ?r hashes)"
      using assms r by (simp add: group_block_hashes_def spec_ok_def Let_def)
    show "length (if ?r = 1 then hashes else every_nth ?r hashes) = length hashes div ?r"
      using r by (simp add: every_nth_length)
    fix i assume "i < length (if ?r = 1 then hashes else every_nth ?r hashes)"
    then show "(if ?r = 1 then hashes else every_nth ?r hashes) ! i = hashes ! (i * ?r + (?r - 1))"
      using r every_nth_nth [of ?r i hashes] by (cases "?r = 1") (simp_all add: every_nth_length)
  qed
qed

section \<open>What a hit is\<close>

lemma prefix_run_takeWhile:
  "prefix_run p hs = map (\<lambda>h. the (get_cached_block p h)) (takeWhile (\<lambda>h. get_cached_block p h \<noteq> None) hs)"
  by (induction hs) (auto split: option.splits)

lemma prefix_run_nth:
  "i < length (prefix_run p hs) \<Longrightarrow> get_cached_block p (hs ! i) = Some (prefix_run p hs ! i)"
  by (induction hs arbitrary: i) (auto simp: nth_Cons split: option.splits nat.splits)

lemma prefix_run_length: "length (prefix_run p hs) \<le> length hs"
  by (induction hs) (auto split: option.splits)

lemma prefix_run_maximal:
  "length (prefix_run p hs) < length hs \<Longrightarrow> get_cached_block p (hs ! length (prefix_run p hs)) = None"
  by (induction hs) (auto split: option.splits)

text \<open>
  The state of the right-to-left scan when positions \<open>i, i + 1, \<dots>\<close> have been visited: \<open>run\<close> cached blocks
  start at \<open>i\<close>, everything before is still null, and no prefix longer than \<open>i + run\<close> ends in a full
  window of cached blocks.
\<close>

definition window_scan_inv ::
  "block_pool \<Rightarrow> bhash list \<Rightarrow> nat \<Rightarrow> nat \<Rightarrow> nat \<Rightarrow> nat list \<Rightarrow> nat \<Rightarrow> bool" where
  "window_scan_inv p hs needed n i hit run \<longleftrightarrow>
     length hit = n \<and> i + run \<le> n \<and> run < needed \<and>
     (\<forall>j < i. hit ! j = 0) \<and>
     (\<forall>j. i \<le> j \<and> j < i + run \<longrightarrow> get_cached_block p (hs ! j) = Some (hit ! j)) \<and>
     (\<forall>L. i + run < L \<and> L \<le> n \<longrightarrow>
        (\<exists>m. L - needed \<le> m \<and> m < L \<and> get_cached_block p (hs ! m) = None))"

definition window_hit_spec ::
  "block_pool \<Rightarrow> bhash list \<Rightarrow> nat \<Rightarrow> nat \<Rightarrow> nat list \<Rightarrow> bool" where
  "window_hit_spec p hs needed n r \<longleftrightarrow>
     length r \<le> n \<and>
     (\<forall>j < length r. r ! j = 0 \<or> get_cached_block p (hs ! j) = Some (r ! j)) \<and>
     (\<forall>j < length r. length r - needed \<le> j \<longrightarrow> get_cached_block p (hs ! j) = Some (r ! j)) \<and>
     (\<forall>L. length r < L \<and> L \<le> n \<longrightarrow>
        (\<exists>m. L - needed \<le> m \<and> m < L \<and> get_cached_block p (hs ! m) = None))"

lemma window_scan_ok:
  "window_scan_inv p hs needed n i hit run \<Longrightarrow>
     window_hit_spec p hs needed n (window_scan p hs needed i hit run)"
proof (induction i arbitrary: hit run)
  case 0
  then show ?case by (auto simp: window_scan_inv_def window_hit_spec_def)
next
  case (Suc i)
  note inv = Suc.prems [unfolded window_scan_inv_def]
  show ?case
  proof (cases "get_cached_block p (hs ! i)")
    case None
    have "\<exists>m. L - needed \<le> m \<and> m < L \<and> get_cached_block p (hs ! m) = None" if L: "i < L" "L \<le> n" for L
    proof (cases "Suc i + run < L")
      case True
      then show ?thesis using inv L by blast
    next
      case False
      then have "L - needed \<le> i" using inv by linarith
      with None L show ?thesis by blast
    qed
    then have "window_scan_inv p hs needed n i hit 0"
      using inv by (simp add: window_scan_inv_def)
    from Suc.IH [OF this] None show ?thesis by simp
  next
    case (Some b)
    have new: "get_cached_block p (hs ! j) = Some (hit[i := b] ! j)" if "i \<le> j" "j < i + (run + 1)" for j
      using that inv Some by (cases "j = i") (auto simp: nth_list_update)
    have old: "hit[i := b] ! j = 0" if "j < i" for j
      using that inv by simp
    have entry: "hit[i := b] ! j = 0 \<or> get_cached_block p (hs ! j) = Some (hit[i := b] ! j)"
      if "j < i + (run + 1)" for j
      using new old that by (cases "j < i") simp_all
    have out: "\<forall>L. i + (run + 1) < L \<and> L \<le> n \<longrightarrow>
        (\<exists>m. L - needed \<le> m \<and> m < L \<and> get_cached_block p (hs ! m) = None)"
      using inv by simp
    show ?thesis
    proof (cases "needed \<le> run + 1")
      case True
      have "run + 1 = needed" "i + (run + 1) \<le> n" using True inv by auto
      then have "window_hit_spec p hs needed n (take (i + (run + 1)) (hit[i := b]))"
        unfolding window_hit_spec_def using inv new out entry by simp
      with True Some show ?thesis by (simp add: Let_def)
    next
      case False
      have "window_scan_inv p hs needed n i (hit[i := b]) (run + 1)"
        unfolding window_scan_inv_def using inv new old out False by simp
      from Suc.IH [OF this] False Some show ?thesis by (simp add: Let_def)
    qed
  qed
qed

lemma window_scan_start: "0 < needed \<Longrightarrow> window_scan_inv p hs needed n n (replicate n 0) 0"
  by (auto simp: window_scan_inv_def)

text \<open>
  The interface the coordinator relies on: a hit policy names, for a list of block hashes, one block per
  leading position, each either the null block or a block cached under that position's hash.
\<close>

locale hit_policy =
  fixes hit :: "block_pool \<Rightarrow> bhash list \<Rightarrow> nat list"
  assumes hit_length: "length (hit p hs) \<le> length hs"
    and hit_sound: "j < length (hit p hs) \<Longrightarrow>
          hit p hs ! j = 0 \<or> get_cached_block p (hs ! j) = Some (hit p hs ! j)"
begin

lemma hit_hash:
  assumes "pool_inv p" "j < length (hit p hs)" "hit p hs ! j \<noteq> 0"
  shows "block_hash p (hit p hs ! j) = Some (hs ! j)"
  using get_cached_block_Some [OF pool_invD(7) [OF assms(1)], of "hs ! j" "hit p hs ! j"]
    hit_sound [OF assms(2)] assms(3) by simp

lemma hit_valid:
  assumes "pool_inv p" "b \<in> set (hit p hs)"
  shows "b < num_blocks p"
proof (rule ccontr)
  assume "\<not> b < num_blocks p"
  then have "block_hash p b = None" "b \<noteq> 0" using assms(1) by (auto simp: pool_inv_def)
  moreover obtain j where "j < length (hit p hs)" "hit p hs ! j = b"
    using assms(2) by (auto simp: in_set_conv_nth)
  ultimately show False using hit_hash [OF assms(1)] by fastforce
qed

lemma hit_touch:
  assumes "pool_inv p"
  shows "\<exists>p'. touch (hit p hs) p = Inr p' \<and> ref_effect (\<lambda>b. int (count_list (hit p hs) b)) p p'"
  using touch_ok [OF assms] hit_valid [OF assms] by blast

end

interpretation full: hit_policy prefix_run
proof
  fix p hs j
  show "length (prefix_run p hs) \<le> length hs" by (rule prefix_run_length)
  show "prefix_run p hs ! j = 0 \<or> get_cached_block p (hs ! j) = Some (prefix_run p hs ! j)"
    if "j < length (prefix_run p hs)" using prefix_run_nth [OF that] by blast
qed

definition window_run :: "nat \<Rightarrow> block_pool \<Rightarrow> bhash list \<Rightarrow> nat list" where
  "window_run needed p hs =
     (if needed = 0 then [] else window_scan p hs needed (length hs) (replicate (length hs) 0) 0)"

lemma window_run_spec: "0 < needed \<Longrightarrow> window_hit_spec p hs needed (length hs) (window_run needed p hs)"
  using window_scan_ok [OF window_scan_start] by (simp add: window_run_def)

interpretation window: hit_policy "window_run needed" for needed
proof
  fix p hs j
  show "length (window_run needed p hs) \<le> length hs"
    using window_run_spec [of needed p hs]
    by (cases "needed = 0") (auto simp: window_hit_spec_def window_run_def)
  show "window_run needed p hs ! j = 0 \<or> get_cached_block p (hs ! j) = Some (window_run needed p hs ! j)"
    if "j < length (window_run needed p hs)"
    using window_run_spec [of needed p hs] that
    by (cases "needed = 0") (auto simp: window_hit_spec_def window_run_def)
qed

lemma window_scan_take:
  "i \<le> n \<Longrightarrow> window_scan p (take n hs) needed i hit run = window_scan p hs needed i hit run"
  by (induction i arbitrary: hit run) (auto simp: Let_def split: option.splits)

text \<open>The policy of each kind of group, applied to the hashes below the length cap.\<close>

fun spec_run :: "kv_spec \<Rightarrow> block_pool \<Rightarrow> bhash list \<Rightarrow> nat list" where
  "spec_run (SlidingWindowSpec bs row w) = window_run (num_window_blocks bs w)"
| "spec_run _ = prefix_run"

interpretation sr: hit_policy "spec_run spec" for spec
proof
  fix p hs j
  show "length (spec_run spec p hs) \<le> length hs"
    by (cases spec) (simp_all add: full.hit_length window.hit_length)
  show "spec_run spec p hs ! j = 0 \<or> get_cached_block p (hs ! j) = Some (spec_run spec p hs ! j)"
    if "j < length (spec_run spec p hs)"
    using that by (cases spec) (simp_all add: full.hit_sound window.hit_sound)
qed

lemma spec_find_eq:
  assumes "spec_ok hbs spec" "group_block_hashes spec hashes hbs = Inr hs"
  shows "spec_find_longest_cache_hit spec hashes n p hbs =
           Inr (spec_run spec p (take (n div spec_block_size spec) hs))"
proof (cases spec)
  case (SlidingWindowSpec bs row w)
  have "0 < num_window_blocks bs w"
    using assms(1) SlidingWindowSpec by (simp add: spec_ok_def num_window_blocks_eq)
  moreover have "length (take (n div bs) hs) = min (n div bs) (length hs)" by (simp add: min.commute)
  ultimately show ?thesis
    using assms(2) SlidingWindowSpec
    by (simp add: window_hit_def window_run_def Let_def window_scan_take min.commute)
qed (use assms(2) in \<open>simp_all add: prefix_run_hit_def Let_def min_def\<close>)

section \<open>Properties\<close>

text \<open>Block arithmetic is exact. For a validated spec the number of blocks computed for a token count
  covers the tokens with less than one block to spare, and one block fewer would not.\<close>

lemma num_blocks_for_tight:
  assumes "spec_post_init spec = Inr spec"
  shows "n \<le> num_blocks_for spec n * spec_block_size spec \<and>
    num_blocks_for spec n * spec_block_size spec < n + spec_block_size spec \<and>
    (\<forall>k. n \<le> k * spec_block_size spec \<longrightarrow> num_blocks_for spec n \<le> k)"
proof -
  have b: "0 < spec_block_size spec" using assms by (auto simp: spec_post_init_def split: if_splits)
  have "num_blocks_for spec n \<le> k" if "n \<le> k * spec_block_size spec" for k
    using num_blocks_for_mono [OF b that] num_blocks_for_mult [OF b] by simp
  then show ?thesis using num_blocks_for_covers [OF b, of n] by blast
qed

text \<open>What a sliding-window group may reuse. The hit never exceeds the token ceiling; every position of it
  is either the null block or the cached block of that position's hash; the last window of it is cached
  without a gap; and it is the longest such hit, since every longer candidate misses a block of its window.\<close>

lemma window_hit_correct:
  assumes "spec_ok hbs (SlidingWindowSpec bs row w)"
  shows "\<exists>hs r. group_block_hashes (SlidingWindowSpec bs row w) hashes hbs = Inr hs \<and>
    spec_find_longest_cache_hit (SlidingWindowSpec bs row w) hashes n p hbs = Inr r \<and>
    length r * bs \<le> n \<and> window_hit_spec p hs (num_window_blocks bs w) (min (n div bs) (length hs)) r"
proof -
  obtain hs where hs: "group_block_hashes (SlidingWindowSpec bs row w) hashes hbs = Inr hs"
    by (rule group_block_hashes_ok [OF assms, of hashes]) (rule that)
  let ?m = "min (n div bs) (length hs)"
  let ?r = "window_scan p hs (num_window_blocks bs w) ?m (replicate ?m 0) 0"
  have b: "0 < bs" using assms by (auto simp: spec_ok_def)
  have "0 < num_window_blocks bs w"
    using num_window_blocks_eq [OF b, of w] assms by (auto simp: spec_ok_def)
  then have ok: "window_hit_spec p hs (num_window_blocks bs w) ?m ?r" by (intro window_scan_ok window_scan_start)
  then have "length ?r \<le> n div bs" by (simp add: window_hit_spec_def)
  then have "length ?r * bs \<le> n" using b by (metis less_eq_div_iff_mult_less_eq)
  then show ?thesis using hs ok by (simp add: window_hit_def Let_def)
qed

lemma group_of_layer_in_ok:
  "if \<exists>g \<in> set gs. i \<in> set (layer_ids g) then \<exists>g \<in> set gs. i \<in> set (layer_ids g) \<and> group_of_layer_in gs i = Inr (group_id g)
   else group_of_layer_in gs i = Inl KeyError"
  by (induction gs) auto

lemma config_post_init_same: "config_post_init cf = Inr cf' \<Longrightarrow> cf' = cf"
  by (auto simp: config_post_init_def split: if_splits)

text \<open>A derived configuration owns every layer. When \<^verbatim>\<open>from_model_config\<close> returns, and the windowed layers
  it was given are layers of the model, the groups are numbered in order, every layer of the model is found
  in a group that lists it, and every other layer index raises \<^verbatim>\<open>KeyError\<close>.\<close>

lemma from_model_config_layers:
  assumes "from_model_config mc tp bs hbs = Inr cf" "set (sliding_window_layers mc) \<subseteq> {..<mc_num_layers mc}"
  shows "map group_id (config_groups cf) = [0..<num_groups cf] \<and>
    (\<forall>i. if i < mc_num_layers mc
         then \<exists>g \<in> set (config_groups cf). i \<in> set (layer_ids g) \<and> group_of_layer cf i = Inr (group_id g)
         else group_of_layer cf i = Inl KeyError)"
proof -
  have sub: "\<forall>i \<in> set (sliding_window_layers mc). i < mc_num_layers mc" using assms(2) by auto
  have g: "map group_id (config_groups cf) = [0..<num_groups cf] \<and>
      (\<Union>g \<in> set (config_groups cf). set (layer_ids g)) = {..<mc_num_layers mc}"
    using assms(1) sub
    by (auto simp: from_model_config_def Let_def num_groups_def filter_empty_conv dest!: config_post_init_same
        split: if_splits)
  have "(\<exists>g \<in> set (config_groups cf). i \<in> set (layer_ids g)) \<longleftrightarrow> i < mc_num_layers mc" for i
    using g by blast
  then show ?thesis using g group_of_layer_in_ok [of "config_groups cf"] by (auto simp: group_of_layer_def)
qed

definition sample_model :: model_config where
  "sample_model = \<lparr>mc_num_layers = 3, is_mla = False, kv_lora_rank = 0, qk_rope_head_dim = 0, num_kv_heads = 4,
     head_dim = 64, mc_sliding_window = Some 8, sliding_window_layers = [0, 2]\<rparr>"

end
