(* ===== verification/KV_Coordinator.thy ===== *)
theory KV_Coordinator
  imports KV_Cache_Spec
begin

text \<open>
  The coordinator (class \<^verbatim>\<open>KVCacheCoordinator\<close> of \<^verbatim>\<open>src/rapid_llm/engine/kv_cache_spec.py\<close>): several
  KV cache groups over one block pool, and the ledger of which request holds which blocks.

  \<open>coord_inv\<close> is the conservation law of the whole allocator: the reference count of every block is
  the number of places it occurs in the ledger. From it follow that no operation of the coordinator
  raises, that a refused allocation leaves nothing behind, and that a freshly drawn block is nobody
  else's.
\<close>

section \<open>State and operations\<close>

type_synonym rid = string

record request_blocks =
  per_group :: "nat list list"
  num_cached :: "nat list"

record coordinator =
  pool :: block_pool
  groups :: "kv_group list"
  coord_hash_block_size :: nat
  requests :: "(rid, request_blocks) dict"

definition coord_init :: "block_pool \<Rightarrow> kv_group list \<Rightarrow> nat \<Rightarrow> coordinator" where
  "coord_init p gs hbs = \<lparr>pool = p, groups = gs, coord_hash_block_size = hbs, requests = []\<rparr>"

primrec group_hits ::
  "block_pool \<Rightarrow> nat \<Rightarrow> bhash list \<Rightarrow> nat \<Rightarrow> kv_group list \<Rightarrow> nat list list res" where
  "group_hits p hbs hashes n [] = Inr []"
| "group_hits p hbs hashes n (g # gs) =
     rbind (spec_find_longest_cache_hit (group_spec g) hashes n p hbs) (\<lambda>hit.
     rbind (group_hits p hbs hashes n gs) (\<lambda>hits. Inr (hit # hits)))"

definition find_longest_cache_hit ::
  "coordinator \<Rightarrow> bhash list \<Rightarrow> nat \<Rightarrow> (nat list list \<times> nat) res" where
  "find_longest_cache_hit c hashes max_length =
     rbind (group_hits (pool c) (coord_hash_block_size c) hashes max_length (groups c)) (\<lambda>hits.
       if groups c = [] then Inl ValueError
       else let sizes = map (\<lambda>g. spec_block_size (group_spec g)) (groups c);
                shortest = min_list (map2 (\<lambda>hit bs. length hit * bs) hits sizes);
                len = (if length (groups c) > 1 then shortest - shortest mod (foldr max sizes 0)
                       else shortest)
            in if len = 0 then Inr (map (\<lambda>_. []) (groups c), 0)
               else Inr (map2 (\<lambda>hit bs. take (len div bs) hit) hits sizes, len))"

text \<open>One iteration of the adoption loop of \<^verbatim>\<open>allocate\<close>: reference a group's hit blocks and record them.\<close>

definition adopt_group ::
  "nat \<times> nat list \<Rightarrow> block_pool \<times> request_blocks \<Rightarrow> (block_pool \<times> request_blocks) res" where
  "adopt_group gb s =
     (case s of (p, st) \<Rightarrow> case gb of (g, bs) \<Rightarrow>
        if per_group st ! g \<noteq> [] then Inl ValueError
        else rbind (touch bs p) (\<lambda>p'.
          Inr (p', st\<lparr>per_group := (per_group st)[g := bs],
                      num_cached := (num_cached st)[g := length bs]\<rparr>)))"

fun distribute :: "nat list list \<Rightarrow> nat list \<Rightarrow> nat list \<Rightarrow> nat list list" where
  "distribute (bs # bss) (k # ks) fresh = (bs @ take k fresh) # distribute bss ks (drop k fresh)"
| "distribute _ _ _ = []"

definition coord_free :: "rid \<Rightarrow> coordinator \<Rightarrow> coordinator res" where
  "coord_free rid c =
     (case map_of (requests c) rid of
        None \<Rightarrow> Inr c
      | Some st \<Rightarrow>
          rbind (rfold (\<lambda>bs. free_blocks (rev bs)) (per_group st) (pool c)) (\<lambda>p.
            Inr (c\<lparr>pool := p, requests := AList.delete rid (requests c)\<rparr>)))"

definition blocks_needed :: "kv_group list \<Rightarrow> nat list list \<Rightarrow> nat \<Rightarrow> nat list" where
  "blocks_needed gs bss num_tokens =
     map2 (\<lambda>g bs. num_blocks_for (group_spec g) num_tokens - length bs) gs bss"

definition request_state :: "rid \<Rightarrow> coordinator \<Rightarrow> request_blocks" where
  "request_state rid c =
     (let st = (case map_of (requests c) rid of
                  None \<Rightarrow> \<lparr>per_group = [], num_cached = []\<rparr> | Some st \<Rightarrow> st)
      in if per_group st = []
         then \<lparr>per_group = map (\<lambda>_. []) (groups c), num_cached = map (\<lambda>_. 0) (groups c)\<rparr>
         else st)"

text \<open>
  The second half of \<^verbatim>\<open>allocate\<close>: size the whole request, draw the missing blocks in one go and hand
  them to the groups, or give the adopted references back. \<open>st\<close> is the request's entry in \<open>c\<close>.
\<close>

definition grow_request ::
  "rid \<Rightarrow> nat \<Rightarrow> bool \<Rightarrow> request_blocks \<Rightarrow> coordinator \<Rightarrow> (coordinator \<times> bool) res" where
  "grow_request rid num_tokens adopted st c =
     (let needed = blocks_needed (groups c) (per_group st) num_tokens;
          total = sum_list needed
      in if total = 0 then Inr (c, True)
         else rbind (get_new_blocks (int total) (pool c)) (\<lambda>(p, fresh).
           case fresh of
             None \<Rightarrow>
               if adopted then rbind (coord_free rid (c\<lparr>pool := p\<rparr>)) (\<lambda>c'. Inr (c', False))
               else Inr (c\<lparr>pool := p\<rparr>, False)
           | Some bs \<Rightarrow>
               Inr (c\<lparr>pool := p,
                      requests := AList.update rid
                        (st\<lparr>per_group := distribute (per_group st) needed bs\<rparr>) (requests c)\<rparr>, True)))"

definition coord_allocate ::
  "rid \<Rightarrow> nat \<Rightarrow> nat list list option \<Rightarrow> coordinator \<Rightarrow> (coordinator \<times> bool) res" where
  "coord_allocate rid num_tokens new_computed_blocks c =
     (let st = request_state rid c;
          adopted = (case new_computed_blocks of None \<Rightarrow> [] | Some bss \<Rightarrow> bss)
      in rbind (if adopted = [] then Inr (pool c, st)
                else if length adopted \<noteq> length (groups c) then Inl ValueError
                else rfold adopt_group (enumerate 0 adopted) (pool c, st)) (\<lambda>(p, st1).
           grow_request rid num_tokens (adopted \<noteq> []) st1
             (c\<lparr>pool := p, requests := AList.update rid st1 (requests c)\<rparr>)))"

text \<open>One group of \<^verbatim>\<open>cache_blocks\<close>: index the blocks that became full, and report which gained a hash.\<close>

definition cache_group ::
  "nat \<Rightarrow> bhash list \<Rightarrow> nat \<Rightarrow> nat \<times> kv_group \<Rightarrow>
     block_pool \<times> request_blocks \<times> (nat \<times> nat \<times> bhash) list \<Rightarrow>
     (block_pool \<times> request_blocks \<times> (nat \<times> nat \<times> bhash) list) res" where
  "cache_group hbs hashes num_computed ig s =
     (case ig of (index, g) \<Rightarrow> case s of (p, st, fresh) \<Rightarrow>
        rbind (group_block_hashes (group_spec g) hashes hbs) (\<lambda>hs.
          let full = min (num_computed div spec_block_size (group_spec g)) (length hs);
              start = num_cached st ! index;
              blocks = take (full - start) (drop start (per_group st ! index));
              keys = take (full - start) (drop start hs)
          in if full \<le> start then Inr (p, st, fresh)
             else if length blocks < full - start then Inr (p, st, fresh)
             else let gained = filter (\<lambda>(b, h). block_hash p b = None) (zip blocks keys)
                  in rbind (cache_full_blocks blocks keys p) (\<lambda>p'.
                       Inr (p', st\<lparr>num_cached := (num_cached st)[index := full]\<rparr>,
                            fresh @ map (\<lambda>(b, h). (index, b, h)) gained))))"

definition cache_blocks ::
  "rid \<Rightarrow> bhash list \<Rightarrow> nat \<Rightarrow> coordinator \<Rightarrow> (coordinator \<times> (nat \<times> nat \<times> bhash) list) res" where
  "cache_blocks rid hashes num_computed c =
     (case map_of (requests c) rid of
        None \<Rightarrow> Inr (c, [])
      | Some st \<Rightarrow>
          if per_group st = [] then Inr (c, [])
          else rbind (rfold (cache_group (coord_hash_block_size c) hashes num_computed)
                        (enumerate 0 (groups c)) (pool c, st, [])) (\<lambda>(p, st', fresh).
                 Inr (c\<lparr>pool := p, requests := AList.update rid st' (requests c)\<rparr>, fresh)))"

text \<open>One group of \<^verbatim>\<open>remove_skipped_blocks\<close>; the result is the group's new block list.\<close>

definition skip_group ::
  "nat \<Rightarrow> kv_group \<times> nat list \<Rightarrow> block_pool \<times> nat list list \<Rightarrow> (block_pool \<times> nat list list) res" where
  "skip_group num_computed gb s =
     (case gb of (g, bs) \<Rightarrow> case s of (p, pre) \<Rightarrow>
        let window = spec_window (group_spec g);
            keep_from = min ((num_computed - window) div spec_block_size (group_spec g)) (length bs);
            dead = filter (\<lambda>b. b \<noteq> NULL_BLOCK_ID) (take keep_from bs)
        in if window = 0 then Inr (p, pre @ [bs])
           else if dead = [] then Inr (p, pre @ [bs])
           else rbind (free_blocks (rev dead) p) (\<lambda>p'.
                  Inr (p', pre @ [replicate keep_from NULL_BLOCK_ID @ drop keep_from bs])))"

definition remove_skipped_blocks :: "rid \<Rightarrow> nat \<Rightarrow> coordinator \<Rightarrow> coordinator res" where
  "remove_skipped_blocks rid num_computed c =
     (case map_of (requests c) rid of
        None \<Rightarrow> Inr c
      | Some st \<Rightarrow>
          if length (groups c) \<noteq> length (per_group st) then Inl ValueError
          else rbind (rfold (skip_group num_computed) (zip (groups c) (per_group st)) (pool c, []))
                 (\<lambda>(p, bss). Inr (c\<lparr>pool := p,
                    requests := AList.update rid (st\<lparr>per_group := bss\<rparr>) (requests c)\<rparr>)))"

definition held_blocks :: "rid \<Rightarrow> coordinator \<Rightarrow> nat list list" where
  "held_blocks rid c =
     (case map_of (requests c) rid of None \<Rightarrow> map (\<lambda>_. []) (groups c) | Some st \<Rightarrow> per_group st)"

definition coord_block_ids :: "rid \<Rightarrow> coordinator \<Rightarrow> nat list list" where
  "coord_block_ids rid c = held_blocks rid c"

definition num_tracked_requests :: "coordinator \<Rightarrow> nat" where
  "num_tracked_requests c = length (requests c)"

section \<open>The conservation invariant\<close>

definition held_in :: "request_blocks \<Rightarrow> nat \<Rightarrow> nat" where
  "held_in st b = count_list (concat (per_group st)) b"

definition held :: "(rid, request_blocks) dict \<Rightarrow> nat \<Rightarrow> nat" where
  "held rs b = dsum (\<lambda>st. held_in st b) rs"

definition state_ok :: "coordinator \<Rightarrow> request_blocks \<Rightarrow> bool" where
  "state_ok c st \<longleftrightarrow>
     length (per_group st) = length (groups c) \<and> length (num_cached st) = length (groups c) \<and>
     (\<forall>g < length (groups c). num_cached st ! g \<le> length (per_group st ! g)) \<and>
     (\<forall>b \<in> set (concat (per_group st)). b < num_blocks (pool c))"

definition coord_inv :: "coordinator \<Rightarrow> bool" where
  "coord_inv c \<longleftrightarrow>
     pool_inv (pool c) \<and> groups c \<noteq> [] \<and>
     (\<forall>g \<in> set (groups c). spec_ok (coord_hash_block_size c) (group_spec g)) \<and>
     dict_ok (requests c) \<and> (\<forall>rst \<in> set (requests c). state_ok c (snd rst)) \<and>
     (\<forall>b. b \<noteq> 0 \<longrightarrow> ref_cnt (pool c) b = int (held (requests c) b))"

lemma coord_invD:
  assumes "coord_inv c"
  shows "pool_inv (pool c)" "groups c \<noteq> []" "dict_ok (requests c)"
    "g \<in> set (groups c) \<Longrightarrow> spec_ok (coord_hash_block_size c) (group_spec g)"
    "map_of (requests c) r = Some st \<Longrightarrow> state_ok c st"
    "b \<noteq> 0 \<Longrightarrow> ref_cnt (pool c) b = int (held (requests c) b)"
  using assms by (auto simp: coord_inv_def dest!: map_of_SomeD split: prod.splits)

lemma held_update:
  "dict_ok rs \<Longrightarrow>
     held (AList.update r st rs) b + osum (\<lambda>st. held_in st b) (map_of rs r) = held rs b + held_in st b"
  unfolding held_def by (rule dsum_update)

lemma held_delete:
  "dict_ok rs \<Longrightarrow> held (AList.delete r rs) b + osum (\<lambda>st. held_in st b) (map_of rs r) = held rs b"
  unfolding held_def by (rule dsum_delete)

lemma held_ge: "map_of rs r = Some st \<Longrightarrow> held_in st b \<le> held rs b"
  unfolding held_def by (rule dsum_ge)

lemma set_update: "dict_ok rs \<Longrightarrow> set (AList.update r st rs) \<subseteq> insert (r, st) (set rs)"
  by (induction rs) auto

lemma set_delete: "set (AList.delete r rs) \<subseteq> set rs"
  by (auto simp: AList.delete_eq)

text \<open>
  Every operation of the coordinator replaces one request's entry and changes the pool by the
  difference. This lemma carries the invariant across all of them.
\<close>

lemma coord_inv_update:
  assumes inv: "coord_inv c" and p: "pool_inv p" "same_geometry (pool c) p"
    and st: "state_ok c st"
    and refs: "\<And>b. b \<noteq> 0 \<Longrightarrow>
      ref_cnt p b + int (osum (\<lambda>st. held_in st b) (map_of (requests c) r)) =
        ref_cnt (pool c) b + int (held_in st b)"
  shows "coord_inv (c\<lparr>pool := p, requests := AList.update r st (requests c)\<rparr>)"
proof -
  note d = coord_invD(3) [OF inv]
  have "ref_cnt p b = int (held (AList.update r st (requests c)) b)" if "b \<noteq> 0" for b
    using refs [OF that] coord_invD(6) [OF inv that] held_update [OF d, of r st b] by linarith
  moreover have "state_ok (c\<lparr>pool := p, requests := rs\<rparr>) s = state_ok c s" for rs s
    using p(2) by (simp add: state_ok_def same_geometry_def)
  ultimately show ?thesis
    using inv p st set_update [OF d, of r st] unfolding coord_inv_def
    by (fastforce simp: dict_simps)
qed

lemma coord_inv_delete:
  assumes inv: "coord_inv c" and p: "pool_inv p" "same_geometry (pool c) p"
    and refs: "\<And>b. b \<noteq> 0 \<Longrightarrow>
      ref_cnt p b + int (osum (\<lambda>st. held_in st b) (map_of (requests c) r)) = ref_cnt (pool c) b"
  shows "coord_inv (c\<lparr>pool := p, requests := AList.delete r (requests c)\<rparr>)"
proof -
  note d = coord_invD(3) [OF inv]
  have "ref_cnt p b = int (held (AList.delete r (requests c)) b)" if "b \<noteq> 0" for b
    using refs [OF that] coord_invD(6) [OF inv that] held_delete [OF d, of r b] by linarith
  moreover have "state_ok (c\<lparr>pool := p, requests := rs\<rparr>) s = state_ok c s" for rs s
    using p(2) by (simp add: state_ok_def same_geometry_def)
  ultimately show ?thesis
    using inv p set_delete [of r "requests c"] unfolding coord_inv_def
    by (fastforce simp: dict_simps)
qed

section \<open>Release\<close>

lemma free_groups_ok:
  assumes "pool_inv p" "\<forall>b. b \<noteq> 0 \<longrightarrow> int (count_list (concat bss) b) \<le> ref_cnt p b"
  shows "\<exists>p'. rfold (\<lambda>bs. free_blocks (rev bs)) bss p = Inr p' \<and>
           ref_effect (\<lambda>b. - int (count_list (concat bss) b)) p p'"
  using assms
proof (induction bss arbitrary: p)
  case Nil
  then show ?case by (simp add: ref_effect_refl)
next
  case (Cons bs bss)
  have "\<forall>b. b \<noteq> 0 \<longrightarrow> int (count_list (rev bs) b) \<le> ref_cnt p b"
    using Cons.prems(2) by (metis (no_types, lifting) concat.simps(2) count_list_append count_list_rev
        le_add1 of_nat_mono order_trans)
  then obtain p1 where p1: "free_blocks (rev bs) p = Inr p1"
    "ref_effect (\<lambda>b. - int (count_list (rev bs) b)) p p1"
    using free_blocks_ok [OF Cons.prems(1)] by blast
  have "int (count_list (concat bss) b) \<le> ref_cnt p1 b" if "b \<noteq> 0" for b
    using that ref_effectD(4) [OF p1(2) that] Cons.prems(2) [rule_format, OF that] by simp
  then obtain p2 where p2: "rfold (\<lambda>bs. free_blocks (rev bs)) bss p1 = Inr p2"
    "ref_effect (\<lambda>b. - int (count_list (concat bss) b)) p1 p2"
    using Cons.IH ref_effectD(1) [OF p1(2)] by blast
  have "ref_effect (\<lambda>b. - int (count_list (concat (bs # bss)) b)) p p2"
    by (rule ref_effect_cong [OF ref_effect_trans [OF p1(2) p2(2)]]) simp
  with p1 p2 show ?case by auto
qed

lemma coord_free_ok:
  assumes "coord_inv c"
  shows "\<exists>p. coord_free rid c = Inr (c\<lparr>pool := p, requests := AList.delete rid (requests c)\<rparr>) \<and>
           coord_inv (c\<lparr>pool := p, requests := AList.delete rid (requests c)\<rparr>) \<and>
           ref_effect (\<lambda>b. - int (osum (\<lambda>st. held_in st b) (map_of (requests c) rid))) (pool c) p"
proof (cases "map_of (requests c) rid")
  case None
  then have "AList.delete rid (requests c) = requests c"
    by (intro delete_notin) (simp add: map_of_eq_None_iff)
  with None assms show ?thesis
    using ref_effect_refl [OF coord_invD(1) [OF assms]] by (intro exI [of _ "pool c"]) (simp add: coord_free_def)
next
  case (Some st)
  have "\<forall>b. b \<noteq> 0 \<longrightarrow> int (count_list (concat (per_group st)) b) \<le> ref_cnt (pool c) b"
    using held_ge [OF Some] coord_invD(6) [OF assms] by (simp add: held_in_def)
  then obtain p where p: "rfold (\<lambda>bs. free_blocks (rev bs)) (per_group st) (pool c) = Inr p"
    "ref_effect (\<lambda>b. - int (count_list (concat (per_group st)) b)) (pool c) p"
    using free_groups_ok [OF coord_invD(1) [OF assms]] by blast
  have "coord_inv (c\<lparr>pool := p, requests := AList.delete rid (requests c)\<rparr>)"
    by (rule coord_inv_delete [OF assms ref_effectD(1,2) [OF p(2)]])
      (use ref_effectD(4) [OF p(2)] Some in \<open>simp add: held_in_def\<close>)
  with p Some show ?thesis by (auto simp: coord_free_def held_in_def)
qed

section \<open>Allocation\<close>

lemma request_state_ok:
  assumes "coord_inv c"
  shows "state_ok c (request_state rid c)"
    and "held_in (request_state rid c) b = osum (\<lambda>st. held_in st b) (map_of (requests c) rid)"
    and "map_of (requests c) rid = Some st \<Longrightarrow> request_state rid c = st"
proof -
  have new: "state_ok c \<lparr>per_group = map (\<lambda>_. []) (groups c), num_cached = map (\<lambda>_. 0) (groups c)\<rparr>"
    by (auto simp: state_ok_def)
  have some: "request_state rid c = st" if "map_of (requests c) rid = Some st" for st
    using coord_invD(5) [OF assms that] coord_invD(2) [OF assms] that
    by (auto simp: request_state_def state_ok_def)
  then show "map_of (requests c) rid = Some st \<Longrightarrow> request_state rid c = st" .
  show "state_ok c (request_state rid c)"
    using new some coord_invD(5) [OF assms]
    by (cases "map_of (requests c) rid") (auto simp: request_state_def)
  have "concat (map (\<lambda>_. []) (groups c)) = []" by simp
  then show "held_in (request_state rid c) b = osum (\<lambda>st. held_in st b) (map_of (requests c) rid)"
    using some by (cases "map_of (requests c) rid") (auto simp: request_state_def held_in_def)
qed

lemma adopt_groups_ok:
  assumes "pool_inv p" "\<forall>b \<in> set (concat bss). b < num_blocks p"
    and "per_group st = pre @ replicate (length bss) []"
    and "length (num_cached st) = length pre + length bss"
  shows "\<exists>p' st'. rfold adopt_group (enumerate (length pre) bss) (p, st) = Inr (p', st') \<and>
           ref_effect (\<lambda>b. int (count_list (concat bss) b)) p p' \<and>
           per_group st' = pre @ bss \<and>
           num_cached st' = take (length pre) (num_cached st) @ map length bss"
  using assms
proof (induction bss arbitrary: p st pre)
  case Nil
  then show ?case by (simp add: ref_effect_refl)
next
  case (Cons bs bss)
  obtain p1 where p1: "touch bs p = Inr p1" "ref_effect (\<lambda>b. int (count_list bs b)) p p1"
    using touch_ok [OF Cons.prems(1), of bs] Cons.prems(2) by auto
  define st1 where "st1 = st\<lparr>per_group := (per_group st)[length pre := bs],
    num_cached := (num_cached st)[length pre := length bs]\<rparr>"
  have step: "adopt_group (length pre, bs) (p, st) = Inr (p1, st1)"
    using p1(1) Cons.prems(3) by (simp add: adopt_group_def st1_def nth_append)
  have st1: "per_group st1 = (pre @ [bs]) @ replicate (length bss) []"
    "length (num_cached st1) = length (pre @ [bs]) + length bss"
    "take (length (pre @ [bs])) (num_cached st1) = take (length pre) (num_cached st) @ [length bs]"
    using Cons.prems(3,4) by (simp_all add: st1_def list_update_append take_Suc_conv_app_nth)
  have "\<exists>p' st'. rfold adopt_group (enumerate (length (pre @ [bs])) bss) (p1, st1) = Inr (p', st') \<and>
           ref_effect (\<lambda>b. int (count_list (concat bss) b)) p1 p' \<and>
           per_group st' = (pre @ [bs]) @ bss \<and>
           num_cached st' = take (length (pre @ [bs])) (num_cached st1) @ map length bss"
    by (rule Cons.IH [OF ref_effectD(1) [OF p1(2)] _ st1(1,2)])
      (use Cons.prems(2) ref_effectD(5) [OF p1(2)] in auto)
  then obtain p2 st2 where p2: "rfold adopt_group (enumerate (Suc (length pre)) bss) (p1, st1) = Inr (p2, st2)"
    "ref_effect (\<lambda>b. int (count_list (concat bss) b)) p1 p2" "per_group st2 = pre @ bs # bss"
    "num_cached st2 = take (length pre) (num_cached st) @ length bs # map length bss"
    using st1(3) by auto
  have "ref_effect (\<lambda>b. int (count_list (concat (bs # bss)) b)) p p2"
    by (rule ref_effect_cong [OF ref_effect_trans [OF p1(2) p2(2)]]) simp
  with step p2 show ?case by auto
qed

lemma distribute_length: "length bss = length ks \<Longrightarrow> length (distribute bss ks fresh) = length bss"
  by (induction bss ks fresh rule: distribute.induct) auto

lemma distribute_nth:
  "length bss = length ks \<Longrightarrow> g < length bss \<Longrightarrow>
     distribute bss ks fresh ! g = bss ! g @ take (ks ! g) (drop (sum_list (take g ks)) fresh)"
proof (induction bss ks fresh arbitrary: g rule: distribute.induct)
  case (1 bs bss k ks fresh)
  then show ?case by (cases g) (auto simp: add.commute)
qed auto

lemma distribute_count:
  "length bss = length ks \<Longrightarrow> length fresh = sum_list ks \<Longrightarrow>
     count_list (concat (distribute bss ks fresh)) b = count_list (concat bss) b + count_list fresh b"
proof (induction bss ks fresh rule: distribute.induct)
  case (1 bs bss k ks fresh)
  have "count_list fresh b = count_list (take k fresh) b + count_list (drop k fresh) b"
    by (metis append_take_drop_id count_list_append)
  with 1 show ?case by simp
qed auto

lemma distribute_length_nth:
  assumes "length bss = length ks" "length fresh = sum_list ks" "g < length bss"
  shows "length (distribute bss ks fresh ! g) = length (bss ! g) + ks ! g"
proof -
  have "sum_list (take g ks) + ks ! g + sum_list (drop (Suc g) ks) = sum_list ks"
    using assms by (metis append_take_drop_id Cons_nth_drop_Suc add.assoc sum_list.Cons sum_list_append)
  then show ?thesis
    using assms by (simp add: distribute_nth)
qed

text \<open>
  The outcome of a successful call, relative to the request's block lists \<open>base\<close> before fresh blocks are
  appended (its own lists, or the ones it adopted): every group is extended by blocks that were free,
  are now held exactly once, and carry no hash.
\<close>

definition extends_by :: "nat list list \<Rightarrow> nat list list \<Rightarrow> nat list \<Rightarrow> bool" where
  "extends_by base bss fresh \<longleftrightarrow>
     length bss = length base \<and>
     (\<forall>g < length base. \<exists>xs. bss ! g = base ! g @ xs \<and> set xs \<subseteq> set fresh)"

definition covers :: "coordinator \<Rightarrow> request_blocks \<Rightarrow> nat \<Rightarrow> bool" where
  "covers c st n \<longleftrightarrow>
     (\<forall>g < length (groups c). num_blocks_for (group_spec (groups c ! g)) n \<le> length (per_group st ! g))"

definition alloc_result ::
  "rid \<Rightarrow> nat \<Rightarrow> nat list list \<Rightarrow> nat list \<Rightarrow> coordinator \<Rightarrow> coordinator \<Rightarrow> bool" where
  "alloc_result rid n base nc c c' \<longleftrightarrow>
     (\<exists>p st fresh.
        c' = c\<lparr>pool := p, requests := AList.update rid st (requests c)\<rparr> \<and>
        same_geometry (pool c) p \<and> evictions (pool c) \<le> evictions p \<and>
        extends_by base (per_group st) fresh \<and> num_cached st = nc \<and> covers c st n \<and>
        distinct fresh \<and> set fresh \<subseteq> {b. b \<noteq> 0 \<and> ref_cnt (pool c) b = 0 \<and> b \<notin> set (concat base)} \<and>
        (\<forall>b. held_in st b = count_list (concat base) b + count_list fresh b) \<and>
        block_hash p = (\<lambda>b. if b \<in> set fresh then None else block_hash (pool c) b))"

lemma update_update [simp]: "AList.update k v (AList.update k w d) = AList.update k v d"
  by (induction d) auto

lemma update_same: "map_of d k = Some v \<Longrightarrow> AList.update k v d = d"
  by (induction d) (auto split: if_splits)

lemma delete_update: "AList.delete k (AList.update k v d) = AList.delete k d"
  by (induction d) (auto simp: AList.delete_eq)

lemma set_distribute:
  "set (concat (distribute bss ks fresh)) \<subseteq> set (concat bss) \<union> set fresh"
  by (induction bss ks fresh rule: distribute.induct) (auto dest: in_set_takeD in_set_dropD)

lemma blocks_needed_zero:
  assumes "sum_list (blocks_needed (groups c) (per_group st) n) = 0" "state_ok c st"
  shows "covers c st n"
  unfolding covers_def
proof (intro allI impI)
  fix g assume g: "g < length (groups c)"
  let ?xs = "blocks_needed (groups c) (per_group st) n"
  have "length ?xs = length (groups c)" using assms(2) by (simp add: blocks_needed_def state_ok_def)
  then have "?xs ! g = 0" using assms(1) g by (metis nth_mem sum_list_eq_0_iff)
  then show "num_blocks_for (group_spec (groups c ! g)) n \<le> length (per_group st ! g)"
    using g assms(2) by (simp add: blocks_needed_def state_ok_def)
qed

lemma grow_request_ok:
  assumes inv: "coord_inv c" and st: "map_of (requests c) rid = Some st"
    and tot_def: "tot = sum_list (blocks_needed (groups c) (per_group st) n)"
  shows "tot \<le> length (free_list (pool c)) \<Longrightarrow>
     \<exists>c'. grow_request rid n ad st c = Inr (c', True) \<and> coord_inv c' \<and>
          alloc_result rid n (per_group st) (num_cached st) c c'"
    and "length (free_list (pool c)) < tot \<Longrightarrow>
     grow_request rid n ad st c =
       (if ad then rbind (coord_free rid c) (\<lambda>c'. Inr (c', False)) else Inr (c, False))"
proof -
  let ?ks = "blocks_needed (groups c) (per_group st) n"
  note ok = coord_invD(5) [OF inv st]
  have upd: "AList.update rid st (requests c) = requests c"
    by (rule update_same [OF st])
  show "grow_request rid n ad st c =
      (if ad then rbind (coord_free rid c) (\<lambda>c'. Inr (c', False)) else Inr (c, False))"
    if "length (free_list (pool c)) < tot"
    using that pool_invD(8) [OF coord_invD(1) [OF inv]]
    unfolding grow_request_def Let_def tot_def [symmetric] by (simp add: get_new_blocks_short)
  assume enough: "tot \<le> length (free_list (pool c))"
  show "\<exists>c'. grow_request rid n ad st c = Inr (c', True) \<and> coord_inv c' \<and>
          alloc_result rid n (per_group st) (num_cached st) c c'"
  proof (cases "tot = 0")
    case True
    then have "covers c st n" using blocks_needed_zero ok by (simp add: tot_def)
    then have "alloc_result rid n (per_group st) (num_cached st) c c"
      unfolding alloc_result_def extends_by_def
      by (intro exI [of _ "pool c"] exI [of _ st] exI [of _ "[]"]) (auto simp: upd held_in_def)
    with True inv show ?thesis unfolding grow_request_def Let_def tot_def [symmetric] by simp
  next
    case False
    let ?fresh = "take tot (free_list (pool c))"
    obtain p where p: "get_new_blocks (int tot) (pool c) = Inr (p, Some ?fresh)"
      "alloc_effect ?fresh (pool c) p"
      using get_new_blocks_ok [OF coord_invD(1) [OF inv] enough] by blast
    let ?st = "st\<lparr>per_group := distribute (per_group st) ?ks ?fresh\<rparr>"
    let ?c = "c\<lparr>pool := p, requests := AList.update rid ?st (requests c)\<rparr>"
    have len: "length (per_group st) = length ?ks" "length ?fresh = sum_list ?ks"
      using ok enough by (simp_all add: state_ok_def blocks_needed_def tot_def)
    have fr: "0 < b \<and> b < num_blocks (pool c) \<and> ref_cnt (pool c) b = 0" if "b \<in> set ?fresh" for b
      using pool_invD(3) [OF coord_invD(1) [OF inv]] that by (meson in_set_takeD)
    have dist: "distinct ?fresh"
      using pool_invD(2) [OF coord_invD(1) [OF inv]] by simp
    have cnt: "held_in ?st b = held_in st b + count_list ?fresh b" for b
      using distribute_count [OF len] by (simp add: held_in_def)
    have lens: "length (distribute (per_group st) ?ks ?fresh ! g) = length (per_group st ! g) + ?ks ! g"
      if "g < length (groups c)" for g
      using distribute_length_nth [OF len] that ok by (simp add: state_ok_def)
    have cov: "covers c ?st n"
      unfolding covers_def using lens ok by (auto simp: blocks_needed_def state_ok_def)
    have "state_ok c ?st"
      using ok lens set_distribute [of "per_group st" ?ks ?fresh] fr distribute_length [OF len(1)]
      unfolding state_ok_def by fastforce
    moreover have "ref_cnt p b = ref_cnt (pool c) b + int (count_list ?fresh b)" if "b \<noteq> 0" for b
      using p(2) fr [of b] count_list_distinct [OF dist, of b] by (auto simp: alloc_effect_def)
    ultimately have inv': "coord_inv ?c"
      using p(2) st cnt by (intro coord_inv_update [OF inv]) (auto simp: alloc_effect_def)
    have zero: "b \<notin> set (concat (per_group st))" if "b \<in> set ?fresh" for b
    proof -
      have "held_in st b = 0"
        using held_ge [OF st, of b] coord_invD(6) [OF inv, of b] fr [OF that] by simp
      then show ?thesis unfolding held_in_def count_list_0_iff .
    qed
    have "extends_by (per_group st) (distribute (per_group st) ?ks ?fresh) ?fresh"
      unfolding extends_by_def using len
      by (auto simp: distribute_length distribute_nth dest: in_set_takeD in_set_dropD)
    then have "alloc_result rid n (per_group st) (num_cached st) c ?c"
      unfolding alloc_result_def using dist fr zero cnt cov p(2)
      by (intro exI [of _ p] exI [of _ ?st] exI [of _ ?fresh]) (auto simp: alloc_effect_def held_in_def)
    with inv' p(1) False show ?thesis unfolding grow_request_def Let_def tot_def [symmetric] by simp
  qed
qed


text \<open>The blocks a call may still draw once the adopted ones are taken off the free queue.\<close>

definition available :: "coordinator \<Rightarrow> nat list list \<Rightarrow> nat list" where
  "available c bss = filter (\<lambda>b. b \<notin> set (concat bss)) (free_list (pool c))"

lemma free_list_ref_effect:
  assumes "pool_inv p" "ref_effect d p p'"
    and "\<And>b. 0 < b \<Longrightarrow> b < num_blocks p \<Longrightarrow> ref_cnt p b + d b = 0 \<longleftrightarrow> ref_cnt p b = 0 \<and> P b"
  shows "length (free_list p') = length (filter P (free_list p))"
proof -
  note p' = ref_effectD(1) [OF assms(2)]
  have "b \<in> set (free_list p') \<longleftrightarrow> b \<in> set (filter P (free_list p))" for b
    using pool_invD(3) [OF assms(1), of b] pool_invD(3) [OF p', of b] ref_effectD(4) [OF assms(2), of b]
      ref_effectD(5) [OF assms(2)] assms(3) [of b] by (cases "b = 0") auto
  then have "set (free_list p') = set (filter P (free_list p))" by blast
  then show ?thesis
    using pool_invD(2) [OF assms(1)] pool_invD(2) [OF p'] by (metis distinct_card distinct_filter)
qed

lemma coord_inv_request_state:
  assumes "coord_inv c"
  shows "coord_inv (c\<lparr>requests := AList.update rid (request_state rid c) (requests c)\<rparr>)"
  using coord_inv_update [OF assms coord_invD(1) [OF assms] same_geometry_refl, of "request_state rid c" rid]
    request_state_ok [OF assms] by simp

lemma alloc_result_rebase:
  assumes "alloc_result rid n base nc (c\<lparr>pool := p, requests := AList.update rid st (requests c)\<rparr>) c'"
    and "block_hash p = block_hash (pool c)" "same_geometry (pool c) p" "evictions (pool c) \<le> evictions p"
    and "\<And>b. b \<noteq> 0 \<Longrightarrow> ref_cnt p b = 0 \<Longrightarrow> ref_cnt (pool c) b = 0"
  shows "alloc_result rid n base nc c c'"
proof -
  let ?c = "c\<lparr>pool := p, requests := AList.update rid st (requests c)\<rparr>"
  obtain q st' fresh where r: "c' = ?c\<lparr>pool := q, requests := AList.update rid st' (requests ?c)\<rparr>"
    "extends_by base (per_group st') fresh" "num_cached st' = nc" "covers ?c st' n" "distinct fresh"
    "set fresh \<subseteq> {b. b \<noteq> 0 \<and> ref_cnt (pool ?c) b = 0 \<and> b \<notin> set (concat base)}"
    "\<forall>b. held_in st' b = count_list (concat base) b + count_list fresh b"
    "block_hash q = (\<lambda>b. if b \<in> set fresh then None else block_hash (pool ?c) b)"
    "same_geometry (pool ?c) q" "evictions (pool ?c) \<le> evictions q"
    using assms(1) unfolding alloc_result_def by blast
  moreover have "c' = c\<lparr>pool := q, requests := AList.update rid st' (requests c)\<rparr>" "covers c st' n"
    using r(1,4) by (simp_all add: covers_def)
  moreover have "set fresh \<subseteq> {b. b \<noteq> 0 \<and> ref_cnt (pool c) b = 0 \<and> b \<notin> set (concat base)}"
    using r(6) assms(5) by auto
  moreover have "same_geometry (pool c) q" "evictions (pool c) \<le> evictions q"
    using r(9,10) assms(3,4) by (auto elim: same_geometry_trans)
  moreover have "block_hash q = (\<lambda>b. if b \<in> set fresh then None else block_hash (pool c) b)"
    using r(8) assms(2) by (simp add: fun_eq_iff)
  ultimately show ?thesis
    unfolding alloc_result_def by blast
qed

lemma coord_allocate_plain:
  assumes inv: "coord_inv c" and nb: "new_computed = None"
    and st: "st = request_state rid c"
    and tot: "tot = sum_list (blocks_needed (groups c) (per_group st) n)"
  shows "tot \<le> length (free_list (pool c)) \<Longrightarrow>
      \<exists>c'. coord_allocate rid n new_computed c = Inr (c', True) \<and> coord_inv c' \<and>
           alloc_result rid n (per_group st) (num_cached st) c c'"
    and "length (free_list (pool c)) < tot \<Longrightarrow>
      coord_allocate rid n new_computed c =
        Inr (c\<lparr>requests := AList.update rid st (requests c)\<rparr>, False)"
proof -
  let ?c = "c\<lparr>requests := AList.update rid st (requests c)\<rparr>"
  have c: "coord_inv ?c" "map_of (requests ?c) rid = Some st"
    using coord_inv_request_state [OF inv] st by (simp_all add: dict_simps)
  have step: "coord_allocate rid n new_computed c = grow_request rid n False st ?c"
    by (simp add: coord_allocate_def nb st Let_def)
  have tot': "tot = sum_list (blocks_needed (groups ?c) (per_group st) n)" using tot by simp
  have "alloc_result rid n base nc ?c c' \<Longrightarrow> alloc_result rid n base nc c c'" for base nc c'
    using alloc_result_rebase [where c = c and p = "pool c" and st = st] by simp
  then show "\<exists>c'. coord_allocate rid n new_computed c = Inr (c', True) \<and> coord_inv c' \<and>
      alloc_result rid n (per_group st) (num_cached st) c c'" if "tot \<le> length (free_list (pool c))"
    using grow_request_ok(1) [OF c tot', of False] that step by auto
  show "coord_allocate rid n new_computed c = Inr (?c, False)" if "length (free_list (pool c)) < tot"
    using grow_request_ok(2) [OF c tot', of False] that step by simp
qed

lemma adopt_ok:
  assumes inv: "coord_inv c" and len: "length bss = length (groups c)"
    and rng: "\<forall>b \<in> set (concat bss). b < num_blocks (pool c)"
    and empty: "per_group (request_state rid c) = map (\<lambda>_. []) (groups c)"
  obtains p st where "rfold adopt_group (enumerate 0 bss) (pool c, request_state rid c) = Inr (p, st)"
    "ref_effect (\<lambda>b. int (count_list (concat bss) b)) (pool c) p"
    "per_group st = bss" "num_cached st = map length bss"
    "coord_inv (c\<lparr>pool := p, requests := AList.update rid st (requests c)\<rparr>)"
    "\<And>b. osum (\<lambda>st. held_in st b) (map_of (requests c) rid) = 0"
proof -
  let ?st = "request_state rid c"
  have zero: "osum (\<lambda>st. held_in st b) (map_of (requests c) rid) = 0" for b
    using request_state_ok(2) [OF inv, of rid b] empty by (simp add: held_in_def)
  have pre: "per_group ?st = [] @ replicate (length bss) []" "length (num_cached ?st) = length [] + length bss"
    using empty len request_state_ok(1) [OF inv, of rid] by (auto simp: map_replicate_const state_ok_def)
  obtain p st where st: "rfold adopt_group (enumerate 0 bss) (pool c, ?st) = Inr (p, st)"
    "ref_effect (\<lambda>b. int (count_list (concat bss) b)) (pool c) p"
    "per_group st = bss" "num_cached st = map length bss"
    using adopt_groups_ok [OF coord_invD(1) [OF inv] rng pre] by auto
  have "state_ok c st" using st(3,4) len rng by (simp add: state_ok_def)
  then have "coord_inv (c\<lparr>pool := p, requests := AList.update rid st (requests c)\<rparr>)"
    using ref_effectD [OF st(2)] zero st(3)
    by (intro coord_inv_update [OF inv]) (auto simp: held_in_def)
  with st zero show ?thesis by (intro that)
qed

lemma coord_allocate_adopt:
  assumes inv: "coord_inv c" and len: "length bss = length (groups c)"
    and rng: "\<forall>b \<in> set (concat bss). b < num_blocks (pool c)"
    and empty: "per_group (request_state rid c) = map (\<lambda>_. []) (groups c)"
    and tot: "tot = sum_list (blocks_needed (groups c) bss n)"
  shows "tot \<le> length (available c bss) \<Longrightarrow>
      \<exists>c'. coord_allocate rid n (Some bss) c = Inr (c', True) \<and> coord_inv c' \<and>
           alloc_result rid n bss (map length bss) c c'"
    and "length (available c bss) < tot \<Longrightarrow>
      \<exists>p. coord_allocate rid n (Some bss) c =
            Inr (c\<lparr>pool := p, requests := AList.delete rid (requests c)\<rparr>, False) \<and>
          coord_inv (c\<lparr>pool := p, requests := AList.delete rid (requests c)\<rparr>) \<and>
          ref_effect (\<lambda>_. 0) (pool c) p"
proof -
  obtain p st where st: "rfold adopt_group (enumerate 0 bss) (pool c, request_state rid c) = Inr (p, st)"
    "ref_effect (\<lambda>b. int (count_list (concat bss) b)) (pool c) p"
    "per_group st = bss" "num_cached st = map length bss"
    "coord_inv (c\<lparr>pool := p, requests := AList.update rid st (requests c)\<rparr>)"
    using adopt_ok [OF inv len rng empty] by metis
  let ?c = "c\<lparr>pool := p, requests := AList.update rid st (requests c)\<rparr>"
  have ne: "bss \<noteq> []" using len coord_invD(2) [OF inv] by auto
  have step: "coord_allocate rid n (Some bss) c = grow_request rid n True st ?c"
    using ne len st(1) by (simp add: coord_allocate_def Let_def)
  have m: "map_of (requests ?c) rid = Some st" by (simp add: dict_simps)
  have tot': "tot = sum_list (blocks_needed (groups ?c) (per_group st) n)" using tot st(3) by simp
  have eq: "ref_cnt (pool c) b + int (count_list (concat bss) b) = 0 \<longleftrightarrow>
      ref_cnt (pool c) b = 0 \<and> b \<notin> set (concat bss)" for b
  proof -
    have "ref_cnt (pool c) b + int k = 0 \<longleftrightarrow> ref_cnt (pool c) b = 0 \<and> k = 0" for k
      using pool_invD(4) [OF coord_invD(1) [OF inv], of b] by linarith
    then show ?thesis by (simp only: count_list_0_iff)
  qed
  have free: "length (free_list (pool ?c)) = length (available c bss)"
    using free_list_ref_effect [OF coord_invD(1) [OF inv] st(2) eq] by (simp add: available_def)
  have res: "alloc_result rid n bss (map length bss) c c'"
    if r: "alloc_result rid n (per_group st) (num_cached st) ?c c'" for c'
  proof -
    have "ref_cnt (pool c) b = 0" if "b \<noteq> 0" "ref_cnt p b = 0" for b
      using eq [of b] that ref_effectD(4) [OF st(2)] by simp
    then show ?thesis
      using alloc_result_rebase [OF r] ref_effectD(2,3,7) [OF st(2)] st(3,4) by simp
  qed
  show "\<exists>c'. coord_allocate rid n (Some bss) c = Inr (c', True) \<and> coord_inv c' \<and>
      alloc_result rid n bss (map length bss) c c'" if "tot \<le> length (available c bss)"
    using grow_request_ok(1) [OF st(5) m tot', of True] that free step res by auto
  show "\<exists>p. coord_allocate rid n (Some bss) c =
            Inr (c\<lparr>pool := p, requests := AList.delete rid (requests c)\<rparr>, False) \<and>
          coord_inv (c\<lparr>pool := p, requests := AList.delete rid (requests c)\<rparr>) \<and>
          ref_effect (\<lambda>_. 0) (pool c) p" if short: "length (available c bss) < tot"
  proof -
    obtain p' where p': "coord_free rid ?c =
        Inr (?c\<lparr>pool := p', requests := AList.delete rid (requests ?c)\<rparr>)"
      "coord_inv (?c\<lparr>pool := p', requests := AList.delete rid (requests ?c)\<rparr>)"
      "ref_effect (\<lambda>b. - int (osum (\<lambda>st. held_in st b) (map_of (requests ?c) rid))) (pool ?c) p'"
      using coord_free_ok [OF st(5), of rid] by blast
    have "ref_effect (\<lambda>_. 0) (pool c) p'"
      by (rule ref_effect_cong [OF ref_effect_trans [OF st(2)]])
        (use p'(3) m st(3) in \<open>auto simp: held_in_def\<close>)
    then show ?thesis
      using grow_request_ok(2) [OF st(5) m tot', of True] short free step p'(1,2) by (auto simp: delete_update)
  qed
qed


section \<open>Indexing computed blocks\<close>

definition group_keys :: "nat \<Rightarrow> bhash list \<Rightarrow> kv_spec \<Rightarrow> bhash list" where
  "group_keys hbs hashes spec =
     (if spec_block_size spec div hbs = 1 then hashes else every_nth (spec_block_size spec div hbs) hashes)"

lemma group_block_hashes_keys:
  "spec_ok hbs spec \<Longrightarrow> group_block_hashes spec hashes hbs = Inr (group_keys hbs hashes spec)"
  by (auto simp: group_block_hashes_def group_keys_def spec_ok_def Let_def)

text \<open>
  Block \<open>j\<close> of group \<open>g\<close> may gain the key \<open>h\<close>: the block lies below the computed tokens, was not yet
  indexed, and \<open>h\<close> is the key of that very position.
\<close>

definition may_gain ::
  "coordinator \<Rightarrow> bhash list \<Rightarrow> nat \<Rightarrow> request_blocks \<Rightarrow> nat \<Rightarrow> nat \<Rightarrow> bhash \<Rightarrow> bool" where
  "may_gain c hashes n st g b h \<longleftrightarrow>
     (\<exists>j. num_cached st ! g \<le> j \<and> j < n div spec_block_size (group_spec (groups c ! g)) \<and>
          j < length (per_group st ! g) \<and> per_group st ! g ! j = b \<and>
          j < length (group_keys (coord_hash_block_size c) hashes (group_spec (groups c ! g))) \<and>
          group_keys (coord_hash_block_size c) hashes (group_spec (groups c ! g)) ! j = h)"

definition new_num_cached :: "coordinator \<Rightarrow> bhash list \<Rightarrow> nat \<Rightarrow> request_blocks \<Rightarrow> nat \<Rightarrow> nat" where
  "new_num_cached c hashes n st g =
     (let full = min (n div spec_block_size (group_spec (groups c ! g)))
                   (length (group_keys (coord_hash_block_size c) hashes (group_spec (groups c ! g))))
      in if num_cached st ! g < full \<and> full \<le> length (per_group st ! g) then full else num_cached st ! g)"

lemma map_of_zip_nth:
  "map_of (zip xs ys) x = Some y \<Longrightarrow> \<exists>j. j < length xs \<and> j < length ys \<and> xs ! j = x \<and> ys ! j = y"
  by (metis in_set_zip map_of_SomeD prod.sel)

lemma cache_full_blocks_any:
  assumes "pool_inv p" "length bs = length hs" "\<forall>b \<in> set bs. b < num_blocks p"
  shows "\<exists>p'. cache_full_blocks bs hs p = Inr p' \<and>
           hash_effect (if enable_caching p then gained_hash bs hs else (\<lambda>_. None)) p p'"
proof (cases "enable_caching p")
  case True
  then show ?thesis using cache_full_blocks_ok [OF assms(1) _ assms(2,3)] by simp
next
  case False
  then show ?thesis
    using cache_full_blocks_off assms(1) by (simp add: hash_effect_def fun_eq_iff split: option.splits)
qed

lemma cache_group_ok:
  assumes p: "pool_inv p" and st: "state_ok c st" and g: "g < length (groups c)"
    and geo: "num_blocks p = num_blocks (pool c)"
    and sp: "spec_ok (coord_hash_block_size c) (group_spec (groups c ! g))"
  shows "\<exists>p' fr G. cache_group (coord_hash_block_size c) hashes n (g, groups c ! g) (p, st, fresh) =
             Inr (p', st\<lparr>num_cached := (num_cached st)[g := new_num_cached c hashes n st g]\<rparr>, fresh @ fr) \<and>
           hash_effect G p p' \<and> (\<forall>b h. G b = Some h \<longrightarrow> may_gain c hashes n st g b h) \<and>
           (\<forall>(i, b, h) \<in> set fr. i = g \<and> may_gain c hashes n st g b h \<and> block_hash p b = None) \<and>
           (enable_caching p \<longrightarrow>
             (\<forall>j. num_cached st ! g \<le> j \<and> j < new_num_cached c hashes n st g \<and> per_group st ! g ! j \<noteq> 0
               \<longrightarrow> block_hash p' (per_group st ! g ! j) \<noteq> None))"
proof -
  define bl s ks where "bl = per_group st ! g" and "s = num_cached st ! g"
    and "ks = group_keys (coord_hash_block_size c) hashes (group_spec (groups c ! g))"
  define full where "full = min (n div spec_block_size (group_spec (groups c ! g))) (length ks)"
  define bs hs where "bs = take (full - s) (drop s bl)" and "hs = take (full - s) (drop s ks)"
  define fr where "fr = map (\<lambda>(b, h). (g, b, h)) (filter (\<lambda>(b, h). block_hash p b = None) (zip bs hs))"
  note vars = bl_def s_def ks_def full_def
  note gbh = group_block_hashes_keys [OF sp, of hashes]
  have noop: "hash_effect (\<lambda>_. None) p p"
    using p by (auto simp: hash_effect_def fun_eq_iff split: option.splits)
  have eq: "cache_group (coord_hash_block_size c) hashes n (g, groups c ! g) (p, st, fresh) =
      (if full \<le> s \<or> length bs < full - s then Inr (p, st, fresh)
       else rbind (cache_full_blocks bs hs p) (\<lambda>p'.
         Inr (p', st\<lparr>num_cached := (num_cached st)[g := full]\<rparr>, fresh @ fr)))"
    unfolding cache_group_def prod.case gbh rbind_simps Let_def fr_def bs_def hs_def vars by simp
  have new: "new_num_cached c hashes n st g = (if s < full \<and> full \<le> length bl then full else s)"
    by (simp add: new_num_cached_def Let_def vars)
  show ?thesis
  proof (cases "s < full \<and> full \<le> length bl")
    case False
    have "full \<le> s \<or> length bs < full - s" using False by (auto simp: bs_def)
    then have "cache_group (coord_hash_block_size c) hashes n (g, groups c ! g) (p, st, fresh) =
        Inr (p, st, fresh @ [])"
      unfolding eq by simp
    moreover have "new_num_cached c hashes n st g = num_cached st ! g"
      using False new by (auto simp: s_def)
    ultimately show ?thesis
      using noop by (intro exI [of _ p] exI [of _ "[]"] exI [of _ "\<lambda>_. None"]) auto
  next
    case True
    have len: "length bs = full - s" "length hs = full - s"
      using True by (auto simp: bs_def hs_def full_def)
    have gain: "may_gain c hashes n st g (bs ! j) (hs ! j)" if "j < full - s" for j
      unfolding may_gain_def using that True
      by (intro exI [of _ "s + j"]) (auto simp: bs_def hs_def vars)
    have "b < num_blocks p" if "b \<in> set bs" for b
    proof -
      have "b \<in> set bl" using that unfolding bs_def by (meson in_set_takeD in_set_dropD)
      then show ?thesis using st g geo by (auto simp: state_ok_def bl_def)
    qed
    then obtain p' G where p': "cache_full_blocks bs hs p = Inr p'" "hash_effect G p p'"
      "G = (if enable_caching p then gained_hash bs hs else (\<lambda>_. None))"
      using cache_full_blocks_any [OF p, of bs hs] len by auto
    have step: "cache_group (coord_hash_block_size c) hashes n (g, groups c ! g) (p, st, fresh) =
        Inr (p', st\<lparr>num_cached := (num_cached st)[g := new_num_cached c hashes n st g]\<rparr>, fresh @ fr)"
      using True len p'(1) new unfolding eq by simp
    have G: "may_gain c hashes n st g b h" if "G b = Some h" for b h
      using that gain map_of_zip_nth [of bs hs b h] len p'(3)
      by (auto simp: gained_hash_def split: if_splits)
    have fr: "\<forall>(i, b, h) \<in> set fr. i = g \<and> may_gain c hashes n st g b h \<and> block_hash p b = None"
      unfolding fr_def using gain len by (fastforce simp: in_set_zip)
    have "block_hash p' (bl ! j) \<noteq> None"
      if "enable_caching p" "s \<le> j" "j < full" "bl ! j \<noteq> 0" for j
    proof -
      have "bs ! (j - s) = bl ! j" "j - s < length bs" using that True by (auto simp: bs_def)
      then have "bl ! j \<in> set bs" by (metis nth_mem)
      then have "gained_hash bs hs (bl ! j) \<noteq> None"
        using that(4) len unfolding gained_hash_def by (simp add: map_of_zip_is_None)
      then show ?thesis
        using hash_effectD(7,8) [OF p'(2)] p'(3) that(1) by (cases "block_hash p (bl ! j)") auto
    qed
    then have "enable_caching p \<longrightarrow> (\<forall>j. num_cached st ! g \<le> j \<and> j < new_num_cached c hashes n st g \<and>
        per_group st ! g ! j \<noteq> 0 \<longrightarrow> block_hash p' (per_group st ! g ! j) \<noteq> None)"
      using new True unfolding bl_def s_def by simp
    with step G fr p'(2) show ?thesis by blast
  qed
qed


lemma hash_effect_trans:
  "hash_effect G p q \<Longrightarrow> hash_effect H q r \<Longrightarrow>
     hash_effect (\<lambda>b. case G b of Some h \<Rightarrow> Some h | None \<Rightarrow> H b) p r"
  unfolding hash_effect_def by (auto simp: fun_eq_iff elim: same_geometry_trans split: option.splits)

definition indexed :: "block_pool \<Rightarrow> request_blocks \<Rightarrow> nat \<Rightarrow> nat \<Rightarrow> nat \<Rightarrow> bool" where
  "indexed p st g i j \<longleftrightarrow>
     (\<forall>k. i \<le> k \<and> k < j \<and> per_group st ! g ! k \<noteq> 0 \<longrightarrow> block_hash p (per_group st ! g ! k) \<noteq> None)"

lemma cache_groups_ok:
  assumes "pool_inv p" "state_ok c st" "num_blocks p = num_blocks (pool c)"
    and "\<forall>g \<in> set (groups c). spec_ok (coord_hash_block_size c) (group_spec g)"
    and "i + length gs = length (groups c)" "gs = drop i (groups c)"
    and "per_group st1 = per_group st" "length (num_cached st1) = length (num_cached st)"
    and "\<forall>g. i \<le> g \<longrightarrow> g < length (groups c) \<longrightarrow> num_cached st1 ! g = num_cached st ! g"
    and "state_ok c st1"
  shows "\<exists>p' nc fr G.
    rfold (cache_group (coord_hash_block_size c) hashes n) (enumerate i gs) (p, st1, fresh) =
      Inr (p', st1\<lparr>num_cached := nc\<rparr>, fresh @ fr) \<and>
    hash_effect G p p' \<and> length nc = length (num_cached st) \<and>
    (\<forall>g < length (groups c). nc ! g =
       (if i \<le> g then new_num_cached c hashes n st g else num_cached st1 ! g)) \<and>
    (\<forall>b h. G b = Some h \<longrightarrow> (\<exists>g < length (groups c). may_gain c hashes n st g b h)) \<and>
    (\<forall>(g, b, h) \<in> set fr. g < length (groups c) \<and> may_gain c hashes n st g b h \<and> block_hash p b = None) \<and>
    (enable_caching p \<longrightarrow> (\<forall>g < length (groups c). i \<le> g \<longrightarrow>
       indexed p' st g (num_cached st ! g) (new_num_cached c hashes n st g)))"
  using assms
proof (induction gs arbitrary: i p st1 fresh)
  case Nil
  have "hash_effect (\<lambda>_. None) p p"
    using Nil.prems(1) by (auto simp: hash_effect_def fun_eq_iff split: option.splits)
  with Nil show ?case
    by (intro exI [of _ p] exI [of _ "num_cached st1"] exI [of _ "[]"] exI [of _ "\<lambda>_. None"]) auto
next
  case (Cons g0 gs)
  have i: "i < length (groups c)" using Cons.prems(5) by simp
  then have g0: "g0 = groups c ! i" and gs: "gs = drop (Suc i) (groups c)"
    using Cons.prems(6) Cons_nth_drop_Suc [OF i] by (metis list.inject)+
  have sp: "spec_ok (coord_hash_block_size c) (group_spec (groups c ! i))"
    using Cons.prems(4) i by simp
  have same: "num_cached st1 ! i = num_cached st ! i" using Cons.prems(9) i by simp
  have mg: "may_gain c hashes n st1 i = may_gain c hashes n st i"
    and nn: "new_num_cached c hashes n st1 i = new_num_cached c hashes n st i"
    using Cons.prems(7) same by (simp_all add: may_gain_def new_num_cached_def fun_eq_iff Let_def)
  let ?st2 = "st1\<lparr>num_cached := (num_cached st1)[i := new_num_cached c hashes n st i]\<rparr>"
  obtain p1 fr1 G1 where s1: "cache_group (coord_hash_block_size c) hashes n (i, g0) (p, st1, fresh) =
      Inr (p1, ?st2, fresh @ fr1)"
    "hash_effect G1 p p1" "\<forall>b h. G1 b = Some h \<longrightarrow> may_gain c hashes n st i b h"
    "\<forall>(k, b, h) \<in> set fr1. k = i \<and> may_gain c hashes n st i b h \<and> block_hash p b = None"
    "enable_caching p \<Longrightarrow> indexed p1 st i (num_cached st ! i) (new_num_cached c hashes n st i)"
    using cache_group_ok [OF Cons.prems(1) Cons.prems(10) i Cons.prems(3) sp, of hashes n fresh]
    unfolding mg nn same Cons.prems(7) g0 indexed_def by (elim exE conjE) blast
  have bnd: "new_num_cached c hashes n st i \<le> length (per_group st ! i)"
    using Cons.prems(2) i by (auto simp: new_num_cached_def Let_def state_ok_def)
  have ok2: "state_ok c ?st2"
    using Cons.prems(7,10) bnd i by (auto simp: state_ok_def nth_list_update)
  have "\<exists>p' nc fr G.
    rfold (cache_group (coord_hash_block_size c) hashes n) (enumerate (Suc i) gs) (p1, ?st2, fresh @ fr1) =
      Inr (p', ?st2\<lparr>num_cached := nc\<rparr>, (fresh @ fr1) @ fr) \<and>
    hash_effect G p1 p' \<and> length nc = length (num_cached st) \<and>
    (\<forall>g < length (groups c). nc ! g =
       (if Suc i \<le> g then new_num_cached c hashes n st g else num_cached ?st2 ! g)) \<and>
    (\<forall>b h. G b = Some h \<longrightarrow> (\<exists>g < length (groups c). may_gain c hashes n st g b h)) \<and>
    (\<forall>(g, b, h) \<in> set fr. g < length (groups c) \<and> may_gain c hashes n st g b h \<and> block_hash p1 b = None) \<and>
    (enable_caching p1 \<longrightarrow> (\<forall>g < length (groups c). Suc i \<le> g \<longrightarrow>
       indexed p' st g (num_cached st ! g) (new_num_cached c hashes n st g)))"
    by (rule Cons.IH)
      (use Cons.prems ok2 gs hash_effectD(1,5) [OF s1(2)] in \<open>simp_all\<close>)
  then obtain p2 nc fr2 G2 where s2:
    "rfold (cache_group (coord_hash_block_size c) hashes n) (enumerate (Suc i) gs) (p1, ?st2, fresh @ fr1) =
      Inr (p2, ?st2\<lparr>num_cached := nc\<rparr>, (fresh @ fr1) @ fr2)"
    "hash_effect G2 p1 p2" "length nc = length (num_cached st)"
    "\<forall>g < length (groups c). nc ! g =
       (if Suc i \<le> g then new_num_cached c hashes n st g else num_cached ?st2 ! g)"
    "\<forall>b h. G2 b = Some h \<longrightarrow> (\<exists>g < length (groups c). may_gain c hashes n st g b h)"
    "\<forall>(g, b, h) \<in> set fr2. g < length (groups c) \<and> may_gain c hashes n st g b h \<and> block_hash p1 b = None"
    "enable_caching p1 \<longrightarrow> (\<forall>g < length (groups c). Suc i \<le> g \<longrightarrow>
       indexed p2 st g (num_cached st ! g) (new_num_cached c hashes n st g))"
    by (elim exE conjE) blast
  have later: "block_hash p2 b \<noteq> None" if "block_hash p1 b \<noteq> None" for b
    using that hash_effectD(7) [OF s2(2), of b] by (cases "block_hash p1 b") auto
  have earlier: "block_hash p b = None" if "block_hash p1 b = None" for b
    using that hash_effectD(7) [OF s1(2), of b] by (cases "block_hash p b") auto
  let ?G = "\<lambda>b. case G1 b of Some h \<Rightarrow> Some h | None \<Rightarrow> G2 b"
  show ?case
  proof (intro exI [of _ p2] exI [of _ nc] exI [of _ "fr1 @ fr2"] exI [of _ ?G] conjI)
    show "rfold (cache_group (coord_hash_block_size c) hashes n) (enumerate i (g0 # gs)) (p, st1, fresh) =
        Inr (p2, st1\<lparr>num_cached := nc\<rparr>, fresh @ (fr1 @ fr2))"
      using s1(1) s2(1) by simp
    show "hash_effect ?G p p2" by (rule hash_effect_trans [OF s1(2) s2(2)])
    show "length nc = length (num_cached st)" by (rule s2(3))
    show "\<forall>g < length (groups c). nc ! g =
        (if i \<le> g then new_num_cached c hashes n st g else num_cached st1 ! g)"
      using s2(4) Cons.prems(10) i by (auto simp: state_ok_def nth_list_update not_less_eq_eq)
    show "\<forall>b h. ?G b = Some h \<longrightarrow> (\<exists>g < length (groups c). may_gain c hashes n st g b h)"
      using s1(3) s2(5) i by (auto split: option.splits)
    show "\<forall>(g, b, h) \<in> set (fr1 @ fr2).
        g < length (groups c) \<and> may_gain c hashes n st g b h \<and> block_hash p b = None"
      using s1(4) s2(6) i earlier by fastforce
    show "enable_caching p \<longrightarrow> (\<forall>g < length (groups c). i \<le> g \<longrightarrow>
        indexed p2 st g (num_cached st ! g) (new_num_cached c hashes n st g))"
      using s1(5) s2(7) later hash_effectD(6) [OF s1(2)] unfolding indexed_def
      by (metis Suc_leI le_neq_implies_less)
  qed
qed


lemma cache_blocks_untracked: "map_of (requests c) rid = None \<Longrightarrow> cache_blocks rid hashes n c = Inr (c, [])"
  by (simp add: cache_blocks_def)

lemma cache_blocks_ok:
  assumes inv: "coord_inv c" and st: "map_of (requests c) rid = Some st"
  obtains p nc fr G where
    "cache_blocks rid hashes n c =
       Inr (c\<lparr>pool := p, requests := AList.update rid (st\<lparr>num_cached := nc\<rparr>) (requests c)\<rparr>, fr)"
    "coord_inv (c\<lparr>pool := p, requests := AList.update rid (st\<lparr>num_cached := nc\<rparr>) (requests c)\<rparr>)"
    "hash_effect G (pool c) p" "length nc = length (groups c)"
    "\<And>g. g < length (groups c) \<Longrightarrow> nc ! g = new_num_cached c hashes n st g"
    "\<And>b h. G b = Some h \<Longrightarrow> \<exists>g < length (groups c). may_gain c hashes n st g b h"
    "\<And>g b h. (g, b, h) \<in> set fr \<Longrightarrow> g < length (groups c) \<and> may_gain c hashes n st g b h \<and>
       block_hash (pool c) b = None"
    "\<And>g. enable_caching (pool c) \<Longrightarrow> g < length (groups c) \<Longrightarrow>
       indexed p st g (num_cached st ! g) (new_num_cached c hashes n st g)"
proof -
  note ok = coord_invD(5) [OF inv st]
  have sp: "\<forall>g \<in> set (groups c). spec_ok (coord_hash_block_size c) (group_spec g)"
    using coord_invD(4) [OF inv] by blast
  have len: "length (num_cached st) = length (groups c)" "per_group st \<noteq> []"
    using ok coord_invD(2) [OF inv] by (auto simp: state_ok_def)
  obtain p nc fr G where r:
    "rfold (cache_group (coord_hash_block_size c) hashes n) (enumerate 0 (groups c)) (pool c, st, []) =
      Inr (p, st\<lparr>num_cached := nc\<rparr>, [] @ fr)"
    "hash_effect G (pool c) p" "length nc = length (num_cached st)"
    "\<forall>g < length (groups c). nc ! g =
       (if 0 \<le> g then new_num_cached c hashes n st g else num_cached st ! g)"
    "\<forall>b h. G b = Some h \<longrightarrow> (\<exists>g < length (groups c). may_gain c hashes n st g b h)"
    "\<forall>(g, b, h) \<in> set fr. g < length (groups c) \<and> may_gain c hashes n st g b h \<and>
       block_hash (pool c) b = None"
    "enable_caching (pool c) \<longrightarrow> (\<forall>g < length (groups c). 0 \<le> g \<longrightarrow>
       indexed p st g (num_cached st ! g) (new_num_cached c hashes n st g))"
    using cache_groups_ok [OF coord_invD(1) [OF inv] ok refl sp, of 0 "groups c" st hashes n "[]"] ok by auto
  have "state_ok c (st\<lparr>num_cached := nc\<rparr>)"
    using ok r(3,4) len by (auto simp: state_ok_def new_num_cached_def Let_def)
  then have "coord_inv (c\<lparr>pool := p, requests := AList.update rid (st\<lparr>num_cached := nc\<rparr>) (requests c)\<rparr>)"
    using hash_effectD(1,2,3) [OF r(2)] st
    by (intro coord_inv_update [OF inv]) (auto simp: held_in_def)
  moreover have "cache_blocks rid hashes n c =
      Inr (c\<lparr>pool := p, requests := AList.update rid (st\<lparr>num_cached := nc\<rparr>) (requests c)\<rparr>, fr)"
    using st len(2) r(1) by (simp add: cache_blocks_def)
  ultimately show ?thesis
    using r len(1) by (intro that) (auto split: prod.splits)
qed

section \<open>Releasing blocks that left a window\<close>

text \<open>The number of leading blocks a group of the request no longer reads.\<close>

definition keep_from :: "nat \<Rightarrow> kv_group \<Rightarrow> nat list \<Rightarrow> nat" where
  "keep_from n g bs =
     (if spec_window (group_spec g) = 0 then 0
      else min ((n - spec_window (group_spec g)) div spec_block_size (group_spec g)) (length bs))"

definition nulled :: "nat \<Rightarrow> kv_group \<Rightarrow> nat list \<Rightarrow> nat list" where
  "nulled n g bs = replicate (keep_from n g bs) 0 @ drop (keep_from n g bs) bs"

lemma length_nulled [simp]: "length (nulled n g bs) = length bs"
  by (simp add: nulled_def keep_from_def)

lemma skip_group_ok:
  assumes "pool_inv p" "\<forall>b. b \<noteq> 0 \<longrightarrow> int (count_list bs b) \<le> ref_cnt p b"
  shows "\<exists>p'. skip_group n (g, bs) (p, pre) = Inr (p', pre @ [nulled n g bs]) \<and>
           ref_effect (\<lambda>b. int (count_list (nulled n g bs) b) - int (count_list bs b)) p p'"
proof -
  define k where "k = keep_from n g bs"
  define dead where "dead = filter (\<lambda>b. b \<noteq> 0) (take k bs)"
  have cnt: "count_list bs b = count_list (take k bs) b + count_list (drop k bs) b" for b
    by (metis append_take_drop_id count_list_append)
  have diff: "int (count_list (nulled n g bs) b) - int (count_list bs b) = - int (count_list dead b)"
    if "b \<noteq> 0" for b
    using that cnt [of b] by (simp add: nulled_def k_def dead_def count_list_filter count_list_replicate)
  have step: "skip_group n (g, bs) (p, pre) =
      (if dead = [] then Inr (p, pre @ [bs])
       else rbind (free_blocks (rev dead) p) (\<lambda>p'. Inr (p', pre @ [nulled n g bs])))"
    by (auto simp: skip_group_def Let_def dead_def k_def keep_from_def nulled_def)
  show ?thesis
  proof (cases "dead = []")
    case True
    have "k \<le> length bs" by (simp add: k_def keep_from_def)
    moreover have "\<forall>b \<in> set (take k bs). b = 0"
      using True by (simp add: dead_def filter_empty_conv)
    ultimately have "take k bs = replicate k 0"
      using replicate_length_same [of "take k bs" 0] by simp
    then have "nulled n g bs = bs"
      unfolding nulled_def k_def [symmetric] by (metis append_take_drop_id)
    with True step show ?thesis using ref_effect_refl [OF assms(1)] by auto
  next
    case False
    have "int (count_list (rev dead) b) \<le> ref_cnt p b" if "b \<noteq> 0" for b
      using assms(2) [rule_format, OF that] cnt [of b] that by (simp add: dead_def count_list_filter)
    then obtain p' where "free_blocks (rev dead) p = Inr p'"
      "ref_effect (\<lambda>b. - int (count_list (rev dead) b)) p p'"
      using free_blocks_ok [OF assms(1)] by blast
    moreover from this(2) have
      "ref_effect (\<lambda>b. int (count_list (nulled n g bs) b) - int (count_list bs b)) p p'"
      by (rule ref_effect_cong) (simp add: diff)
    ultimately show ?thesis using step False by auto
  qed
qed


lemma skip_groups_ok:
  assumes "length gs = length bss" "pool_inv p" "\<forall>b. b \<noteq> 0 \<longrightarrow> int (count_list (concat bss) b) \<le> ref_cnt p b"
  shows "\<exists>p'. rfold (skip_group n) (zip gs bss) (p, pre) = Inr (p', pre @ map2 (nulled n) gs bss) \<and>
           ref_effect (\<lambda>b. int (count_list (concat (map2 (nulled n) gs bss)) b) - int (count_list (concat bss) b)) p p'"
  using assms
proof (induction gs bss arbitrary: p pre rule: list_induct2)
  case Nil
  then show ?case by (simp add: ref_effect_refl)
next
  case (Cons g gs bs bss)
  have le: "int (count_list bs b) + int (count_list (concat bss) b) \<le> ref_cnt p b" if "b \<noteq> 0" for b
    using Cons.prems(2) [rule_format, OF that] by simp
  have "\<forall>b. b \<noteq> 0 \<longrightarrow> int (count_list bs b) \<le> ref_cnt p b"
    using le by (meson add_increasing2 le_add_same_cancel1 of_nat_0_le_iff order_trans)
  then obtain p1 where p1: "skip_group n (g, bs) (p, pre) = Inr (p1, pre @ [nulled n g bs])"
    "ref_effect (\<lambda>b. int (count_list (nulled n g bs) b) - int (count_list bs b)) p p1"
    using skip_group_ok [OF Cons.prems(1)] by blast
  have "int (count_list (concat bss) b) \<le> ref_cnt p1 b" if "b \<noteq> 0" for b
    using ref_effectD(4) [OF p1(2) that] le [OF that] by simp
  then obtain p2 where p2: "rfold (skip_group n) (zip gs bss) (p1, pre @ [nulled n g bs]) =
      Inr (p2, (pre @ [nulled n g bs]) @ map2 (nulled n) gs bss)"
    "ref_effect (\<lambda>b. int (count_list (concat (map2 (nulled n) gs bss)) b) - int (count_list (concat bss) b)) p1 p2"
    using Cons.IH [of p1 "pre @ [nulled n g bs]"] ref_effectD(1) [OF p1(2)] by blast
  have "ref_effect (\<lambda>b. int (count_list (concat (map2 (nulled n) (g # gs) (bs # bss))) b) -
      int (count_list (concat (bs # bss)) b)) p p2"
    by (rule ref_effect_cong [OF ref_effect_trans [OF p1(2) p2(2)]]) simp
  with p1(1) p2(1) show ?case by auto
qed

lemma remove_skipped_blocks_ok:
  assumes inv: "coord_inv c" and st: "map_of (requests c) rid = Some st"
    and bss_def: "bss = map2 (nulled n) (groups c) (per_group st)"
  shows "\<exists>p. remove_skipped_blocks rid n c =
           Inr (c\<lparr>pool := p, requests := AList.update rid (st\<lparr>per_group := bss\<rparr>) (requests c)\<rparr>) \<and>
         coord_inv (c\<lparr>pool := p, requests := AList.update rid (st\<lparr>per_group := bss\<rparr>) (requests c)\<rparr>) \<and>
         block_hash p = block_hash (pool c)"
proof -
  note ok = coord_invD(5) [OF inv st]
  have len: "length (groups c) = length (per_group st)" using ok by (simp add: state_ok_def)
  have "\<forall>b. b \<noteq> 0 \<longrightarrow> int (count_list (concat (per_group st)) b) \<le> ref_cnt (pool c) b"
    using held_ge [OF st] coord_invD(6) [OF inv] by (simp add: held_in_def)
  then obtain p where p: "rfold (skip_group n) (zip (groups c) (per_group st)) (pool c, []) = Inr (p, bss)"
    "ref_effect (\<lambda>b. int (count_list (concat bss) b) - int (count_list (concat (per_group st)) b)) (pool c) p"
    using skip_groups_ok [OF len coord_invD(1) [OF inv], of n "[]"] by (auto simp: bss_def)
  have "2 \<le> num_blocks (pool c)" using coord_invD(1) [OF inv] by (simp add: pool_inv_def)
  then have rng: "b < num_blocks (pool c)" if "bs \<in> set bss" "b \<in> set bs" for b bs
    using that ok unfolding state_ok_def bss_def
    by (fastforce simp: nulled_def set_zip dest: in_set_dropD split: if_splits)
  have "state_ok c (st\<lparr>per_group := bss\<rparr>)"
    using ok rng by (auto simp: state_ok_def bss_def)
  then have "coord_inv (c\<lparr>pool := p, requests := AList.update rid (st\<lparr>per_group := bss\<rparr>) (requests c)\<rparr>)"
    using ref_effectD [OF p(2)] st by (intro coord_inv_update [OF inv]) (auto simp: held_in_def)
  then show ?thesis
    using p st len ref_effectD(3) [OF p(2)] by (auto simp: remove_skipped_blocks_def)
qed

section \<open>Lookup over all groups\<close>

text \<open>The hit of one group, and what the coordinator hands back for it.\<close>

definition group_hit :: "coordinator \<Rightarrow> bhash list \<Rightarrow> nat \<Rightarrow> kv_group \<Rightarrow> nat list" where
  "group_hit c hashes n g =
     spec_run (group_spec g) (pool c)
       (take (n div spec_block_size (group_spec g)) (group_keys (coord_hash_block_size c) hashes (group_spec g)))"

lemma group_hits_ok:
  "\<forall>g \<in> set gs. spec_ok (coord_hash_block_size c) (group_spec g) \<Longrightarrow>
     group_hits (pool c) (coord_hash_block_size c) hashes n gs = Inr (map (group_hit c hashes n) gs)"
  by (induction gs) (auto simp: spec_find_eq group_block_hashes_keys group_hit_def)

lemma min_list_le: "x \<in> set xs \<Longrightarrow> min_list xs \<le> x"
  for x :: "'a :: linorder"
proof (induction xs)
  case (Cons y ys)
  then show ?case by (cases ys) (auto simp: min_le_iff_disj)
qed simp

lemma foldr_max_ge: "x \<in> set xs \<Longrightarrow> x \<le> foldr max xs (0 :: nat)"
  by (induction xs) auto

text \<open>
  The answer covers at most \<open>n\<close> tokens, names \<open>len div block_size\<close> blocks in every group, and every
  block is either null or cached under the key of its own position.
\<close>

lemma find_longest_cache_hit_ok:
  assumes inv: "coord_inv c"
  obtains bss len where "find_longest_cache_hit c hashes n = Inr (bss, len)" "len \<le> n"
    "length bss = length (groups c)"
    "\<And>g. g < length (groups c) \<Longrightarrow>
       length (bss ! g) = len div spec_block_size (group_spec (groups c ! g)) \<and>
       bss ! g = take (len div spec_block_size (group_spec (groups c ! g))) (group_hit c hashes n (groups c ! g))"
    "\<And>g j. g < length (groups c) \<Longrightarrow> j < length (bss ! g) \<Longrightarrow> bss ! g ! j \<noteq> 0 \<Longrightarrow>
       block_hash (pool c) (bss ! g ! j) =
         Some (group_keys (coord_hash_block_size c) hashes (group_spec (groups c ! g)) ! j)"
    "\<forall>b \<in> set (concat bss). b < num_blocks (pool c)"
    "\<And>g. groups c = [g] \<Longrightarrow> len = length (group_hit c hashes n g) * spec_block_size (group_spec g)"
proof -
  note p = coord_invD(1) [OF inv]
  have sp: "\<forall>g \<in> set (groups c). spec_ok (coord_hash_block_size c) (group_spec g)"
    using coord_invD(4) [OF inv] by blast
  let ?bs = "\<lambda>g. spec_block_size (group_spec g)" and ?hit = "group_hit c hashes n"
  define sizes where "sizes = map ?bs (groups c)"
  define shortest where "shortest = min_list (map2 (\<lambda>h b. length h * b) (map ?hit (groups c)) sizes)"
  define len where "len = (if length (groups c) > 1 then shortest - shortest mod foldr max sizes 0 else shortest)"
  have m2: "map2 (\<lambda>h b. length h * b) (map ?hit (groups c)) sizes = map (\<lambda>g. length (?hit g) * ?bs g) (groups c)"
    by (simp add: sizes_def zip_map1 zip_map2 zip_same_conv_map comp_def)
  have short: "len \<le> length (?hit g) * ?bs g" if "g \<in> set (groups c)" for g
  proof -
    have "shortest \<le> length (?hit g) * ?bs g"
      unfolding shortest_def m2 using that by (intro min_list_le) auto
    moreover have "len \<le> shortest" by (simp add: len_def)
    ultimately show ?thesis by linarith
  qed
  have hl: "length (?hit g) \<le> n div ?bs g" for g
    unfolding group_hit_def using sr.hit_length by (rule order_trans) simp
  have bnd: "len div ?bs g \<le> length (?hit g)" if "g \<in> set (groups c)" for g
    using div_le_mono [OF short [OF that], of "?bs g"] by (cases "?bs g = 0") auto
  define bss where "bss = map (\<lambda>g. take (len div ?bs g) (?hit g)) (groups c)"
  have m3: "map2 (\<lambda>h b. take (len div b) h) (map ?hit (groups c)) sizes = bss"
    by (simp add: bss_def sizes_def zip_map1 zip_map2 zip_same_conv_map comp_def)
  have "find_longest_cache_hit c hashes n =
      Inr (if len = 0 then (map (\<lambda>_. []) (groups c), 0) else (bss, len))"
    unfolding find_longest_cache_hit_def group_hits_ok [OF sp] rbind_simps Let_def
      sizes_def [symmetric] shortest_def [symmetric] len_def [symmetric] m3
    using coord_invD(2) [OF inv] by simp
  moreover have "len = 0 \<Longrightarrow> map (\<lambda>_. []) (groups c) = bss" by (simp add: bss_def)
  ultimately have res: "find_longest_cache_hit c hashes n = Inr (bss, len)" by (cases "len = 0") auto
  show ?thesis
  proof (rule that [OF res])
    obtain g where g: "g \<in> set (groups c)" using coord_invD(2) [OF inv] by (cases "groups c") auto
    have "length (?hit g) * ?bs g \<le> n"
      using hl [of g] by (metis div_times_less_eq_dividend mult_le_mono1 order_trans)
    then show "len \<le> n" using short [OF g] by linarith
    show "length bss = length (groups c)" by (simp add: bss_def)
    show "length (bss ! g) = len div ?bs (groups c ! g) \<and>
        bss ! g = take (len div ?bs (groups c ! g)) (?hit (groups c ! g))" if "g < length (groups c)" for g
      using that bnd [of "groups c ! g"] by (simp add: bss_def)
    show "block_hash (pool c) (bss ! g ! j) =
        Some (group_keys (coord_hash_block_size c) hashes (group_spec (groups c ! g)) ! j)"
      if "g < length (groups c)" "j < length (bss ! g)" "bss ! g ! j \<noteq> 0" for g j
      using that sr.hit_hash [OF p, of j] hl [of "groups c ! g"] unfolding bss_def group_hit_def
      by simp
    show "\<forall>b \<in> set (concat bss). b < num_blocks (pool c)"
      unfolding bss_def group_hit_def using sr.hit_valid [OF p] by (auto dest: in_set_takeD)
    show "len = length (?hit g) * ?bs g" if "groups c = [g]" for g
      using that by (simp add: len_def shortest_def sizes_def)
  qed
qed

section \<open>Properties\<close>

lemma held_blocks_update:
  "dict_ok (requests c) \<Longrightarrow> held_blocks r (c\<lparr>pool := p, requests := AList.update rid st (requests c)\<rparr>) =
     (if r = rid then per_group st else held_blocks r c)"
  by (auto simp: held_blocks_def update_conv split: option.split)

lemma held_blocks_state:
  assumes "coord_inv c"
  shows "per_group (request_state rid c) = held_blocks rid c"
proof (cases "map_of (requests c) rid")
  case None
  then show ?thesis by (simp add: request_state_def held_blocks_def)
next
  case (Some st)
  then show ?thesis using request_state_ok(3) [OF assms Some] by (simp add: held_blocks_def)
qed

text \<open>C18: growing a request is all or nothing. If the free blocks cover what the groups of the request still
  miss, the call succeeds: each group keeps its blocks and gains blocks nobody referenced, until it covers
  the tokens, and no other request is touched. Otherwise the call reports failure and no block, reference
  count or hash has changed.\<close>

theorem coord_allocate_all_or_nothing:
  assumes "coord_inv c"
  shows "if sum_list (blocks_needed (groups c) (held_blocks rid c) n) \<le> length (free_list (pool c))
    then \<exists>c'. coord_allocate rid n None c = Inr (c', True) \<and> coord_inv c' \<and>
      (\<forall>g < length (groups c).
         num_blocks_for (group_spec (groups c ! g)) n \<le> length (held_blocks rid c' ! g) \<and>
         (\<exists>fresh. held_blocks rid c' ! g = held_blocks rid c ! g @ fresh \<and>
            (\<forall>b \<in> set fresh. b \<noteq> 0 \<and> ref_cnt (pool c) b = 0))) \<and>
      (\<forall>r. r \<noteq> rid \<longrightarrow> held_blocks r c' = held_blocks r c)
    else \<exists>c'. coord_allocate rid n None c = Inr (c', False) \<and> pool c' = pool c \<and>
      (\<forall>r. held_blocks r c' = held_blocks r c)"
proof -
  note d = coord_invD(3) [OF assms]
  note ca = coord_allocate_plain [OF assms refl refl refl, of rid n, unfolded held_blocks_state [OF assms]]
  show ?thesis
  proof (cases "sum_list (blocks_needed (groups c) (held_blocks rid c) n) \<le> length (free_list (pool c))")
    case True
    obtain c' where c': "coord_allocate rid n None c = Inr (c', True)" "coord_inv c'"
      "alloc_result rid n (held_blocks rid c) (num_cached (request_state rid c)) c c'"
      using ca(1) [OF True] by blast
    obtain p st fresh where r: "c' = c\<lparr>pool := p, requests := AList.update rid st (requests c)\<rparr>"
      "extends_by (held_blocks rid c) (per_group st) fresh" "covers c st n"
      "set fresh \<subseteq> {b. b \<noteq> 0 \<and> ref_cnt (pool c) b = 0 \<and> b \<notin> set (concat (held_blocks rid c))}"
      using c'(3) unfolding alloc_result_def by blast
    have "length (held_blocks rid c) = length (groups c)"
      using request_state_ok(1) [OF assms, of rid] by (simp add: state_ok_def held_blocks_state [OF assms])
    then have "\<exists>xs. per_group st ! g = held_blocks rid c ! g @ xs \<and> (\<forall>b \<in> set xs. b \<noteq> 0 \<and> ref_cnt (pool c) b = 0)"
      if "g < length (groups c)" for g
      using r(2,4) that unfolding extends_by_def by (metis (mono_tags, lifting) mem_Collect_eq subsetD)
    then show ?thesis
      using True c'(1,2) r(1,3) held_blocks_update [OF d, where p = p and rid = rid and st = st] by (simp add: covers_def)
  next
    case False
    then show ?thesis using ca(2) held_blocks_update [OF d, where p = "pool c" and rid = rid and st = "request_state rid c"]
      by (simp add: held_blocks_state [OF assms])
  qed
qed

definition sample_groups :: "kv_group list" where
  "sample_groups = [\<lparr>group_id = 0, group_spec = SlidingWindowSpec 2 (4, 64) 3, layer_ids = [0]\<rparr>,
     \<lparr>group_id = 1, group_spec = FullAttentionSpec 4 (4, 64), layer_ids = [1]\<rparr>]"

lemma coord_init_inv:
  assumes "2 \<le> n" "1 \<le> bs" "gs \<noteq> []" "\<forall>g \<in> set gs. spec_ok hbs (group_spec g)"
  obtains p where "pool_init n bs caching = Inr p" "coord_inv (coord_init p gs hbs)" "free_list p = [1..<nat n]"
    "\<And>r. held_blocks r (coord_init p gs hbs) = map (\<lambda>_. []) gs" "block_hash p = (\<lambda>_. None)"
proof -
  obtain p where p: "pool_init n bs caching = Inr p" "pool_inv p" "free_list p = [1..<nat n]"
    "ref_cnt p = (\<lambda>_. 0)(0 := 1)" "block_hash p = (\<lambda>_. None)"
    by (rule pool_init_ok [OF assms(1,2), of caching]) (rule that)
  have "coord_inv (coord_init p gs hbs)" using p assms(3,4) by (simp add: coord_inv_def coord_init_def held_def)
  then show ?thesis using that p by (simp add: held_blocks_def coord_init_def)
qed

lemma sample_groups_ok: "sample_groups \<noteq> []" "\<forall>g \<in> set sample_groups. spec_ok 2 (group_spec g)"
  by (simp_all add: sample_groups_def spec_ok_def)

theorem coord_allocate_all_or_nothing_witness:
  "\<exists>p. pool_init 5 2 True = Inr p \<and>
     (\<exists>c'. coord_allocate ''a'' 4 None (coord_init p sample_groups 2) = Inr (c', True)) \<and>
     (\<exists>c'. coord_allocate ''a'' 9 None (coord_init p sample_groups 2) = Inr (c', False) \<and> pool c' = p)"
proof -
  obtain p where p: "pool_init 5 2 True = Inr p" "coord_inv (coord_init p sample_groups 2)" "free_list p = [1..<nat 5]"
    "\<And>r. held_blocks r (coord_init p sample_groups 2) = map (\<lambda>_. []) sample_groups"
    by (rule coord_init_inv [OF _ _ sample_groups_ok, of 5 2 True]) (simp_all add: that)
  show ?thesis
    using p coord_allocate_all_or_nothing [OF p(2), of "''a''" 4] coord_allocate_all_or_nothing [OF p(2), of "''a''" 9]
    by (auto simp: coord_init_def sample_groups_def blocks_needed_def num_blocks_for_def cdiv_def)
qed

text \<open>Freeing a request. It always returns: the request holds nothing afterwards, every other request
  keeps its blocks, each block's count drops by the number of times the request held it, no hash is lost,
  and freeing a second time changes nothing.\<close>

lemma coord_free_releases:
  assumes "coord_inv c"
  shows "\<exists>c'. coord_free rid c = Inr c' \<and> coord_inv c' \<and> concat (held_blocks rid c') = [] \<and>
    (\<forall>r. r \<noteq> rid \<longrightarrow> held_blocks r c' = held_blocks r c) \<and>
    (\<forall>b. b \<noteq> 0 \<longrightarrow> ref_cnt (pool c') b = ref_cnt (pool c) b - int (count_list (concat (held_blocks rid c)) b)) \<and>
    block_hash (pool c') = block_hash (pool c) \<and> coord_free rid c' = Inr c'"
proof -
  let ?d = "AList.delete rid (requests c)"
  obtain p where p: "coord_free rid c = Inr (c\<lparr>pool := p, requests := ?d\<rparr>)" "coord_inv (c\<lparr>pool := p, requests := ?d\<rparr>)"
    "ref_effect (\<lambda>b. - int (osum (\<lambda>st. held_in st b) (map_of (requests c) rid))) (pool c) p"
    using coord_free_ok [OF assms, of rid] by blast
  have "osum (\<lambda>st. held_in st b) (map_of (requests c) rid) = count_list (concat (held_blocks rid c)) b" for b
    using request_state_ok(2) [OF assms, of rid b] by (simp add: held_in_def held_blocks_state [OF assms])
  then have "ref_cnt p b = ref_cnt (pool c) b - int (count_list (concat (held_blocks rid c)) b)" if "b \<noteq> 0" for b
    using ref_effectD(4) [OF p(3) that] by simp
  moreover have "map_of ?d r = (if r = rid then None else map_of (requests c) r)" for r by (simp add: delete_conv)
  then have "concat (held_blocks rid (c\<lparr>pool := p, requests := ?d\<rparr>)) = []"
    "\<And>r. r \<noteq> rid \<Longrightarrow> held_blocks r (c\<lparr>pool := p, requests := ?d\<rparr>) = held_blocks r c"
    "coord_free rid (c\<lparr>pool := p, requests := ?d\<rparr>) = Inr (c\<lparr>pool := p, requests := ?d\<rparr>)"
    by (auto simp: held_blocks_def coord_free_def split: option.split)
  ultimately show ?thesis using p ref_effectD(3) [OF p(3)] by auto
qed

end
