(* ===== verification/Block_Hash.thy ===== *)
theory Block_Hash
  imports RL_Prelude "HOL-Library.Word"
begin

text \<open>
  The chained block hash of \<^verbatim>\<open>src/rapid_llm/engine/prefix_cache.py\<close> (\<^verbatim>\<open>iter_block_hashes\<close>,
  \<^verbatim>\<open>extend_block_hashes\<close>): each full block of tokens is packed, together with the hash of the block
  before it, into a little-endian byte string whose 8-byte digest is the block's hash.

  The byte layout (\<^verbatim>\<open>struct.pack\<close> with \<^verbatim>\<open><Q{n}I\<close>, \<^verbatim>\<open>int.from_bytes(..., "little")\<close>) is
  modelled down to the bytes. The digest itself (\<^verbatim>\<open>hashlib.blake2b\<close>) is a parameter \<open>D\<close>; what the code
  relies on is that it yields 8 bytes (\<open>digest8\<close>) and, for the statements about shared prefixes, that it
  does not collide on the messages actually hashed (\<open>no_collision\<close>).
\<close>

type_synonym bytes = "8 word list"

section \<open>Byte layout\<close>

primrec le_bytes :: "nat \<Rightarrow> nat \<Rightarrow> bytes" where
  "le_bytes 0 x = []"
| "le_bytes (Suc n) x = of_nat x # le_bytes n (x div 256)"

primrec from_le_bytes :: "bytes \<Rightarrow> nat" where
  "from_le_bytes [] = 0"
| "from_le_bytes (b # bs) = unat b + 256 * from_le_bytes bs"

text \<open>\<^verbatim>\<open>struct.pack(f"<Q{block_size}I", parent, *block)\<close>, with its range and arity checks.\<close>

definition struct_pack :: "nat \<Rightarrow> nat \<Rightarrow> int list \<Rightarrow> bytes res" where
  "struct_pack bs parent block =
     (if length block \<noteq> bs \<or> 2 ^ 64 \<le> parent \<or> (\<exists>t \<in> set block. t < 0 \<or> 2 ^ 32 \<le> t) then Inl StructError
      else Inr (le_bytes 8 parent @ concat (map (\<lambda>t. le_bytes 4 (nat t)) block)))"

section \<open>The chain\<close>

definition hash_block :: "(bytes \<Rightarrow> bytes) \<Rightarrow> nat \<Rightarrow> nat \<Rightarrow> int list \<Rightarrow> nat res" where
  "hash_block D bs parent block =
     rbind (struct_pack bs parent block) (\<lambda>m. Inr (from_le_bytes (D m)))"

definition block_at :: "nat \<Rightarrow> int list \<Rightarrow> nat \<Rightarrow> int list" where
  "block_at bs token_ids b = take bs (drop (b * bs) token_ids)"

text \<open>The loop body of both functions, over the block numbers still to be hashed.\<close>

primrec hash_from :: "(bytes \<Rightarrow> bytes) \<Rightarrow> nat \<Rightarrow> int list \<Rightarrow> nat \<Rightarrow> nat list \<Rightarrow> nat list res" where
  "hash_from D bs token_ids parent [] = Inr []"
| "hash_from D bs token_ids parent (b # bl) =
     rbind (hash_block D bs parent (block_at bs token_ids b)) (\<lambda>h.
     rbind (hash_from D bs token_ids h bl) (\<lambda>hs. Inr (h # hs)))"

definition seed_parent :: "int \<Rightarrow> nat" where
  "seed_parent seed = nat (seed mod 2 ^ 64)"

definition iter_block_hashes :: "(bytes \<Rightarrow> bytes) \<Rightarrow> int list \<Rightarrow> nat \<Rightarrow> int \<Rightarrow> nat list res" where
  "iter_block_hashes D token_ids bs seed =
     (if bs = 0 then Inl ZeroDivisionError
      else hash_from D bs token_ids (seed_parent seed) [0..<length token_ids div bs])"

definition extend_block_hashes ::
  "(bytes \<Rightarrow> bytes) \<Rightarrow> nat list \<Rightarrow> int list \<Rightarrow> nat \<Rightarrow> int \<Rightarrow> nat list res" where
  "extend_block_hashes D hashes token_ids bs seed =
     (if bs = 0 then Inl ZeroDivisionError
      else rbind (hash_from D bs token_ids (if hashes = [] then seed_parent seed else last hashes)
                    [length hashes..<length token_ids div bs])
             (\<lambda>hs. Inr (hashes @ hs)))"

section \<open>Round trip of the layout\<close>

text \<open>For evaluation the bounds are compared as integers.\<close>

lemma struct_pack_code [code]:
  "struct_pack bs parent block =
     (if length block \<noteq> bs \<or> 18446744073709551616 \<le> int parent \<or> list_ex (\<lambda>t. t < 0 \<or> 4294967296 \<le> t) block
      then Inl StructError else Inr (le_bytes 8 parent @ concat (map (\<lambda>t. le_bytes 4 (nat t)) block)))"
proof -
  have "18446744073709551616 \<le> int parent \<longleftrightarrow> 2 ^ 64 \<le> parent" by simp
  then show ?thesis by (simp add: struct_pack_def list_ex_iff)
qed


lemma length_le_bytes [simp]: "length (le_bytes n x) = n"
  by (induction n arbitrary: x) auto

lemma from_le_bytes_le_bytes: "x < 256 ^ n \<Longrightarrow> from_le_bytes (le_bytes n x) = x"
proof (induction n arbitrary: x)
  case (Suc n)
  then have "x div 256 < 256 ^ n" by (simp add: less_mult_imp_div_less mult.commute)
  with Suc.IH show ?case by (simp add: unat_of_nat)
qed simp

lemma from_le_bytes_less: "from_le_bytes bs < 256 ^ length bs"
proof (induction bs)
  case (Cons b bs)
  have "unat b < 256" using unsigned_less [of b, where 'a = nat] by simp
  with Cons show ?case by simp
qed simp

lemma le_bytes_inj: "x < 256 ^ n \<Longrightarrow> y < 256 ^ n \<Longrightarrow> le_bytes n x = le_bytes n y \<Longrightarrow> x = y"
  by (metis from_le_bytes_le_bytes)

definition tokens_ok :: "int list \<Rightarrow> bool" where
  "tokens_ok ts \<longleftrightarrow> (\<forall>t \<in> set ts. 0 \<le> t \<and> t < 2 ^ 32)"

lemma struct_pack_ok:
  "length block = bs \<Longrightarrow> parent < 2 ^ 64 \<Longrightarrow> tokens_ok block \<Longrightarrow>
     struct_pack bs parent block = Inr (le_bytes 8 parent @ concat (map (\<lambda>t. le_bytes 4 (nat t)) block))"
  by (auto simp: struct_pack_def tokens_ok_def)

lemma concat_le_bytes_inj:
  "tokens_ok xs \<Longrightarrow> tokens_ok ys \<Longrightarrow> length xs = length ys \<Longrightarrow>
     concat (map (\<lambda>t. le_bytes 4 (nat t)) xs) = concat (map (\<lambda>t. le_bytes 4 (nat t)) ys) \<Longrightarrow> xs = ys"
proof (induction xs arbitrary: ys)
  case (Cons x xs)
  then obtain y zs where ys: "ys = y # zs" by (cases ys) auto
  with Cons.prems have b: "le_bytes 4 (nat x) = le_bytes 4 (nat y)"
    "concat (map (\<lambda>t. le_bytes 4 (nat t)) xs) = concat (map (\<lambda>t. le_bytes 4 (nat t)) zs)" by auto
  have "nat x < 256 ^ 4" "nat y < 256 ^ 4" "0 \<le> x" "0 \<le> y"
    using Cons.prems(1,2) ys by (auto simp: tokens_ok_def nat_less_iff)
  then have "x = y" using le_bytes_inj [OF _ _ b(1)] by (simp add: nat_eq_iff)
  moreover have "xs = zs"
    by (rule Cons.IH) (use Cons.prems ys b(2) in \<open>auto simp: tokens_ok_def\<close>)
  ultimately show ?case using ys by simp
qed simp

text \<open>Packing is injective: the byte string determines the parent hash and the tokens.\<close>

lemma struct_pack_inj:
  assumes "struct_pack bs p xs = Inr m" "struct_pack bs q ys = Inr m"
  shows "p = q \<and> xs = ys"
proof -
  have r: "p < 256 ^ 8" "q < 256 ^ 8" "tokens_ok xs" "tokens_ok ys" "length xs = length ys"
    "le_bytes 8 p @ concat (map (\<lambda>t. le_bytes 4 (nat t)) xs) =
     le_bytes 8 q @ concat (map (\<lambda>t. le_bytes 4 (nat t)) ys)"
    using assms by (auto simp: struct_pack_def tokens_ok_def not_le not_less split: if_splits)
  then have "le_bytes 8 p = le_bytes 8 q" by (simp add: append_eq_append_conv)
  then show ?thesis
    using r le_bytes_inj [of p 8 q] concat_le_bytes_inj [of xs ys] by (simp add: append_eq_append_conv)
qed

section \<open>The chain as a function of the prefix\<close>

definition digest8 :: "(bytes \<Rightarrow> bytes) \<Rightarrow> bool" where
  "digest8 D \<longleftrightarrow> (\<forall>m. length (D m) = 8)"

lemma digest8_less: "digest8 D \<Longrightarrow> from_le_bytes (D m) < 2 ^ 64"
  using from_le_bytes_less [of "D m"] by (simp add: digest8_def)

lemma seed_parent_less: "seed_parent seed < 2 ^ 64"
  by (simp add: seed_parent_def nat_less_iff)

lemma hash_from_length: "hash_from D bs ts parent bl = Inr hs \<Longrightarrow> length hs = length bl"
  by (induction bl arbitrary: parent hs) auto

lemma hash_from_append:
  "hash_from D bs ts parent (bl @ bl') =
     rbind (hash_from D bs ts parent bl) (\<lambda>hs.
     rbind (hash_from D bs ts (if hs = [] then parent else last hs) bl') (\<lambda>hs'. Inr (hs @ hs')))"
proof (induction bl arbitrary: parent)
  case Nil
  then show ?case by (cases "hash_from D bs ts parent bl'") simp_all
next
  case (Cons b bl)
  show ?case
  proof (cases "hash_block D bs parent (block_at bs ts b)")
    case (Inr h)
    then show ?thesis
      using Cons.IH [of h] by (cases "hash_from D bs ts h bl") (auto simp: rbind_assoc)
  qed simp
qed

lemma hash_from_cong:
  "(\<And>b. b \<in> set bl \<Longrightarrow> block_at bs ts b = block_at bs us b) \<Longrightarrow>
     hash_from D bs ts parent bl = hash_from D bs us parent bl"
  by (induction bl arbitrary: parent) auto

lemma block_at_append:
  "b < length ts div bs \<Longrightarrow> block_at bs (ts @ us) b = block_at bs ts b"
proof -
  assume "b < length ts div bs"
  then have "Suc b * bs \<le> length ts"
    by (metis Suc_leI div_times_less_eq_dividend le_trans mult_le_mono1)
  then show ?thesis by (simp add: block_at_def)
qed

lemma length_block_at:
  "b < length ts div bs \<Longrightarrow> length (block_at bs ts b) = bs"
proof -
  assume "b < length ts div bs"
  then have "Suc b * bs \<le> length ts"
    by (metis Suc_leI div_times_less_eq_dividend le_trans mult_le_mono1)
  then show ?thesis by (simp add: block_at_def)
qed

lemma iter_block_hashes_length:
  "iter_block_hashes D ts bs seed = Inr hs \<Longrightarrow> length hs = length ts div bs"
  by (auto simp: iter_block_hashes_def dest!: hash_from_length split: if_splits)

text \<open>Extending the chain of a sequence over its growth gives the chain of the grown sequence.\<close>

lemma extend_block_hashes_append:
  assumes "iter_block_hashes D ts bs seed = Inr hs"
  shows "extend_block_hashes D hs (ts @ us) bs seed = iter_block_hashes D (ts @ us) bs seed"
proof -
  have bs: "bs \<noteq> 0" using assms by (auto simp: iter_block_hashes_def split: if_splits)
  note len = iter_block_hashes_length [OF assms]
  have "hash_from D bs (ts @ us) (seed_parent seed) [0..<length ts div bs] = Inr hs"
    using assms hash_from_cong [of "[0..<length ts div bs]" bs "ts @ us" ts] block_at_append [of _ ts bs us]
    by (simp add: iter_block_hashes_def split: if_splits)
  moreover have "length ts div bs \<le> length (ts @ us) div bs" by (simp add: div_le_mono)
  then have "[0..<length (ts @ us) div bs] =
      [0..<length ts div bs] @ [length ts div bs..<length (ts @ us) div bs]"
    using upt_add_eq_append [of 0 "length ts div bs" "length (ts @ us) div bs - length ts div bs"] by simp
  ultimately show ?thesis
    using bs len by (simp add: extend_block_hashes_def iter_block_hashes_def hash_from_append)
qed

lemma iter_block_hashes_prefix:
  assumes "iter_block_hashes D ts bs seed = Inr hs" "iter_block_hashes D (ts @ us) bs seed = Inr hs'"
  shows "hs = take (length hs) hs'"
proof -
  have "extend_block_hashes D hs (ts @ us) bs seed = Inr hs'"
    using extend_block_hashes_append [OF assms(1)] assms(2) by simp
  then show ?thesis by (auto simp: extend_block_hashes_def split: if_splits)
qed

section \<open>When hashing raises\<close>

lemma hash_from_ok:
  assumes "digest8 D" "parent < 2 ^ 64" "\<And>b. b \<in> set bl \<Longrightarrow> b < length ts div bs"
    and "\<And>b. b \<in> set bl \<Longrightarrow> tokens_ok (block_at bs ts b)"
  shows "\<exists>hs. hash_from D bs ts parent bl = Inr hs \<and> (\<forall>h \<in> set hs. h < 2 ^ 64)"
  using assms
proof (induction bl arbitrary: parent)
  case (Cons b bl)
  obtain h where h: "hash_block D bs parent (block_at bs ts b) = Inr h" "h < 2 ^ 64"
    using Cons.prems digest8_less [OF Cons.prems(1)]
    by (auto simp: hash_block_def struct_pack_ok length_block_at)
  have "\<exists>hs. hash_from D bs ts h bl = Inr hs \<and> (\<forall>h \<in> set hs. h < 2 ^ 64)"
    by (rule Cons.IH) (use Cons.prems h in auto)
  with h show ?case by auto
qed simp

lemma in_block_at: "t \<in> set (block_at bs ts b) \<Longrightarrow> t \<in> set ts"
  unfolding block_at_def by (meson in_set_dropD in_set_takeD)

lemma iter_block_hashes_ok:
  assumes "digest8 D" "0 < bs" "tokens_ok ts"
  obtains hs where "iter_block_hashes D ts bs seed = Inr hs" "length hs = length ts div bs"
    "\<forall>h \<in> set hs. h < 2 ^ 64"
proof -
  have "\<exists>hs. hash_from D bs ts (seed_parent seed) [0..<length ts div bs] = Inr hs \<and>
      (\<forall>h \<in> set hs. h < 2 ^ 64)"
    by (rule hash_from_ok [OF assms(1) seed_parent_less])
      (use assms(3) in_block_at in \<open>fastforce simp: tokens_ok_def\<close>)+
  then show ?thesis
    using that assms(2) by (auto simp: iter_block_hashes_def hash_from_length)
qed

lemma hash_from_error:
  assumes "hash_from D bs ts parent bl = Inl e"
  shows "e = StructError"
  using assms
proof (induction bl arbitrary: parent)
  case (Cons b bl)
  then show ?case
    by (cases "hash_block D bs parent (block_at bs ts b)")
      (auto simp: rbind_def hash_block_def struct_pack_def split: sum.splits if_splits)
qed simp

text \<open>A token that does not fit in 32 bits raises exactly when it lies in a complete block.\<close>

lemma hash_from_bad_token:
  assumes "b \<in> set bl" "\<not> tokens_ok (block_at bs ts b)"
  shows "hash_from D bs ts parent bl = Inl StructError"
  using assms
proof (induction bl arbitrary: parent)
  case (Cons c bl)
  show ?case
  proof (cases "c = b")
    case True
    have "\<exists>t \<in> set (block_at bs ts b). t < 0 \<or> 2 ^ 32 \<le> t"
      using Cons.prems(2) unfolding tokens_ok_def by (metis not_le)
    with True show ?thesis by (simp add: hash_block_def struct_pack_def)
  next
    case False
    then have "hash_from D bs ts h bl = Inl StructError" for h using Cons by auto
    then show ?thesis
      by (cases "hash_block D bs parent (block_at bs ts c)")
        (auto simp: hash_block_def struct_pack_def split: if_splits)
  qed
qed simp

lemma block_at_cover:
  assumes "0 < bs" "i < (length ts div bs) * bs"
  shows "i div bs < length ts div bs \<and> ts ! i \<in> set (block_at bs ts (i div bs))"
proof -
  have b: "i div bs < length ts div bs" using assms by (simp add: less_mult_imp_div_less)
  have "length (block_at bs ts (i div bs)) = bs" by (rule length_block_at [OF b])
  moreover have "i mod bs < bs" using assms(1) by simp
  moreover have "i < length ts" using assms(2) by (meson div_times_less_eq_dividend less_le_trans)
  moreover have "block_at bs ts (i div bs) ! (i mod bs) = ts ! i"
    using calculation assms(1) by (simp add: block_at_def)
  ultimately show ?thesis using b by (metis nth_mem)
qed

section \<open>Equal hashes mean equal prefixes\<close>

text \<open>The messages digested for a sequence.\<close>

definition chain_messages :: "(bytes \<Rightarrow> bytes) \<Rightarrow> int list \<Rightarrow> nat \<Rightarrow> int \<Rightarrow> bytes set" where
  "chain_messages D ts bs seed =
     {m. \<exists>hs b. iter_block_hashes D ts bs seed = Inr hs \<and> b < length hs \<and>
           struct_pack bs (if b = 0 then seed_parent seed else hs ! (b - 1)) (block_at bs ts b) = Inr m}"

text \<open>
  The digest does not collide on the messages of the two sequences, and yields the seed on none of them.
\<close>

definition no_collision :: "(bytes \<Rightarrow> bytes) \<Rightarrow> nat \<Rightarrow> int \<Rightarrow> int list \<Rightarrow> int list \<Rightarrow> bool" where
  "no_collision D bs seed ts us \<longleftrightarrow>
     (\<forall>m \<in> chain_messages D ts bs seed \<union> chain_messages D us bs seed.
        from_le_bytes (D m) \<noteq> seed_parent seed \<and>
        (\<forall>m' \<in> chain_messages D ts bs seed \<union> chain_messages D us bs seed.
           from_le_bytes (D m) = from_le_bytes (D m') \<longrightarrow> m = m'))"

lemma hash_from_nth:
  assumes "hash_from D bs ts parent bl = Inr hs" "i < length bl"
  shows "\<exists>m. struct_pack bs (if i = 0 then parent else hs ! (i - 1)) (block_at bs ts (bl ! i)) = Inr m \<and>
             hs ! i = from_le_bytes (D m)"
  using assms
proof (induction bl arbitrary: parent hs i)
  case (Cons b bl)
  then obtain h hs' where h: "hash_block D bs parent (block_at bs ts b) = Inr h"
    "hash_from D bs ts h bl = Inr hs'" "hs = h # hs'" by auto
  show ?case
  proof (cases i)
    case 0
    with h show ?thesis by (auto simp: hash_block_def)
  next
    case (Suc j)
    with Cons.IH [OF h(2), of j] Cons.prems(2) h(3) show ?thesis
      by (cases j) auto
  qed
qed simp

lemma chain_nth:
  assumes "iter_block_hashes D ts bs seed = Inr hs" "b < length hs"
  shows "\<exists>m \<in> chain_messages D ts bs seed.
    struct_pack bs (if b = 0 then seed_parent seed else hs ! (b - 1)) (block_at bs ts b) = Inr m \<and>
    hs ! b = from_le_bytes (D m)"
proof -
  have "hash_from D bs ts (seed_parent seed) [0..<length ts div bs] = Inr hs"
    using assms(1) by (simp add: iter_block_hashes_def split: if_splits)
  then obtain m where
    "struct_pack bs (if b = 0 then seed_parent seed else hs ! (b - 1)) (block_at bs ts b) = Inr m"
    "hs ! b = from_le_bytes (D m)"
    using hash_from_nth [of D bs ts "seed_parent seed" "[0..<length ts div bs]" hs b]
      iter_block_hashes_length [OF assms(1)] assms(2) by auto
  with assms show ?thesis unfolding chain_messages_def by blast
qed

lemma take_Suc_block: "take (Suc b * bs) ts = take (b * bs) ts @ block_at bs ts b"
  using take_add [of "b * bs" bs ts] by (simp add: block_at_def add.commute)

lemma equal_hash_equal_prefix:
  assumes nc: "no_collision D bs seed ts us"
    and ts: "iter_block_hashes D ts bs seed = Inr hs" and us: "iter_block_hashes D us bs seed = Inr ks"
  shows "i < length hs \<Longrightarrow> j < length ks \<Longrightarrow> hs ! i = ks ! j \<Longrightarrow>
    i = j \<and> take (Suc i * bs) ts = take (Suc j * bs) us"
proof (induction i arbitrary: j)
  case (0 j)
  obtain m where m: "m \<in> chain_messages D ts bs seed" "struct_pack bs (seed_parent seed) (block_at bs ts 0) = Inr m"
    "hs ! 0 = from_le_bytes (D m)" using chain_nth [OF ts 0(1)] by auto
  obtain m' where m': "m' \<in> chain_messages D us bs seed"
    "struct_pack bs (if j = 0 then seed_parent seed else ks ! (j - 1)) (block_at bs us j) = Inr m'"
    "ks ! j = from_le_bytes (D m')" using chain_nth [OF us 0(2)] by auto
  have "m = m'" using nc m m' 0(3) unfolding no_collision_def by (metis UnCI)
  then have eq: "seed_parent seed = (if j = 0 then seed_parent seed else ks ! (j - 1))"
    "block_at bs ts 0 = block_at bs us j"
    using struct_pack_inj m(2) m'(2) by blast+
  have "j = 0"
  proof (rule ccontr)
    assume "j \<noteq> 0"
    then obtain m'' where "m'' \<in> chain_messages D us bs seed" "ks ! (j - 1) = from_le_bytes (D m'')"
      using chain_nth [OF us, of "j - 1"] 0(2) by (meson less_imp_diff_less)
    then show False using nc eq(1) \<open>j \<noteq> 0\<close> unfolding no_collision_def by auto
  qed
  with eq(2) show ?case by (simp add: block_at_def)
next
  case (Suc i j)
  obtain m where m: "m \<in> chain_messages D ts bs seed" "struct_pack bs (hs ! i) (block_at bs ts (Suc i)) = Inr m"
    "hs ! Suc i = from_le_bytes (D m)" using chain_nth [OF ts Suc.prems(1)] by auto
  obtain m' where m': "m' \<in> chain_messages D us bs seed"
    "struct_pack bs (if j = 0 then seed_parent seed else ks ! (j - 1)) (block_at bs us j) = Inr m'"
    "ks ! j = from_le_bytes (D m')" using chain_nth [OF us Suc.prems(2)] by auto
  have "m = m'" using nc m m' Suc.prems(3) unfolding no_collision_def by (metis UnCI)
  then have eq: "hs ! i = (if j = 0 then seed_parent seed else ks ! (j - 1))"
    "block_at bs ts (Suc i) = block_at bs us j"
    using struct_pack_inj m(2) m'(2) by blast+
  have "j \<noteq> 0"
  proof
    assume "j = 0"
    obtain m'' where "m'' \<in> chain_messages D ts bs seed" "hs ! i = from_le_bytes (D m'')"
      using chain_nth [OF ts, of i] Suc.prems(1) by auto
    then show False using nc eq(1) \<open>j = 0\<close> unfolding no_collision_def by auto
  qed
  then obtain k where k: "j = Suc k" by (cases j) auto
  with Suc.IH [of k] Suc.prems eq(1) have "i = k" "take (Suc i * bs) ts = take (Suc k * bs) us" by auto
  with eq(2) k show ?case using take_Suc_block [of "Suc i" bs ts] take_Suc_block [of "Suc k" bs us] by simp
qed

section \<open>Properties\<close>

text \<open>Hashing is incremental. Extending the chain of a sequence after it has grown gives the chain that
  hashing the grown sequence from scratch gives, error cases included, and leaves the old hashes as they
  were.\<close>

lemma hash_chain_incremental:
  assumes "iter_block_hashes D ts bs seed = Inr hs"
  shows "extend_block_hashes D hs (ts @ us) bs seed = iter_block_hashes D (ts @ us) bs seed \<and>
    (\<forall>hs'. extend_block_hashes D hs (ts @ us) bs seed = Inr hs' \<longrightarrow> take (length hs) hs' = hs)"
  using extend_block_hashes_append [OF assms, of us] iter_block_hashes_prefix [OF assms, of us] by auto

definition sample_digest :: "bytes \<Rightarrow> bytes" where
  "sample_digest m = [1, 1, 1, 1, 1, 1, 1, 1]"

lemma drop_le_bytes:
  "i < length xs \<Longrightarrow> take 4 (drop (4 * i) (concat (map (\<lambda>t. le_bytes 4 (nat t)) xs))) = le_bytes 4 (nat (xs ! i))"
proof (induction xs arbitrary: i)
  case (Cons x xs)
  then show ?case
  proof (cases i)
    case (Suc j)
    have "drop (4 * Suc j) (le_bytes 4 (nat x) @ ys) = drop (4 * j) ys" for ys by simp
    then show ?thesis using Cons Suc by (simp del: le_bytes.simps)
  qed (simp del: le_bytes.simps)
qed simp

lemma length_packed: "length (concat (map (\<lambda>t. le_bytes 4 (nat t)) xs)) = 4 * length xs"
  by (induction xs) (simp_all del: le_bytes.simps)

text \<open>The packed message determines what was packed. The first eight bytes of the message of a block read
  back, little-endian, as the parent hash, and each following group of four as one token, so no two
  different (parent, block) pairs share a message.\<close>

lemma struct_pack_recovers:
  assumes "struct_pack bs parent block = Inr m"
  shows "length m = 8 + 4 * bs \<and> from_le_bytes (take 8 m) = parent \<and>
    (\<forall>i < bs. int (from_le_bytes (take 4 (drop (8 + 4 * i) m))) = block ! i)"
proof -
  have b: "length block = bs" "parent < 2 ^ 64" "\<forall>t \<in> set block. 0 \<le> t \<and> t < 2 ^ 32"
    and m: "m = le_bytes 8 parent @ concat (map (\<lambda>t. le_bytes 4 (nat t)) block)"
    using assms by (auto simp: struct_pack_def not_le not_less split: if_splits)
  have "int (from_le_bytes (take 4 (drop (8 + 4 * i) m))) = block ! i" if i: "i < bs" for i
  proof -
    have t: "0 \<le> block ! i" "block ! i < 2 ^ 32" using b(1,3) i nth_mem by blast+
    have "drop (8 + 4 * i) m = drop (4 * i) (concat (map (\<lambda>t. le_bytes 4 (nat t)) block))"
      by (simp add: m del: le_bytes.simps)
    then have "take 4 (drop (8 + 4 * i) m) = le_bytes 4 (nat (block ! i))" using drop_le_bytes [of i block] i b(1) by simp
    moreover have "nat (block ! i) < 256 ^ 4" using t by simp
    ultimately show ?thesis using from_le_bytes_le_bytes t(1) by simp
  qed
  moreover have "from_le_bytes (take 8 m) = parent" using from_le_bytes_le_bytes [of parent 8] b(2) by (simp add: m del: le_bytes.simps)
  ultimately show ?thesis using b(1) length_packed [of block] by (simp add: m del: le_bytes.simps)
qed

text \<open>When hashing raises. With a digest of eight bytes, hashing returns exactly when the block size is
  positive and every token of every full block fits an unsigned 32-bit field; otherwise it raises
  \<^verbatim>\<open>struct.error\<close>, or \<^verbatim>\<open>ZeroDivisionError\<close> for a block size of zero. Tokens of the partial last block
  are never looked at.\<close>

lemma iter_block_hashes_errors:
  assumes "digest8 D"
  shows "iter_block_hashes D ts 0 seed = Inl ZeroDivisionError \<and>
    (0 < bs \<longrightarrow>
      (if tokens_ok (take (length ts div bs * bs) ts)
       then \<exists>hs. iter_block_hashes D ts bs seed = Inr hs \<and> length hs = length ts div bs \<and> (\<forall>h \<in> set hs. h < 2 ^ 64)
       else iter_block_hashes D ts bs seed = Inl StructError))"
proof (intro conjI impI)
  show "iter_block_hashes D ts 0 seed = Inl ZeroDivisionError" by (simp add: iter_block_hashes_def)
  assume bs: "0 < bs"
  let ?n = "length ts div bs"
  have len: "?n * bs \<le> length ts" by simp
  show "if tokens_ok (take (?n * bs) ts)
      then \<exists>hs. iter_block_hashes D ts bs seed = Inr hs \<and> length hs = ?n \<and> (\<forall>h \<in> set hs. h < 2 ^ 64)
      else iter_block_hashes D ts bs seed = Inl StructError"
  proof (cases "tokens_ok (take (?n * bs) ts)")
    case True
    have "tokens_ok (block_at bs ts b)" if "b < ?n" for b
    proof -
      have "block_at bs (take (?n * bs) ts @ drop (?n * bs) ts) b = block_at bs (take (?n * bs) ts) b"
        by (rule block_at_append) (use that bs len in \<open>simp add: min_absorb2\<close>)
      then have "block_at bs ts b = block_at bs (take (?n * bs) ts) b" by simp
      then show ?thesis using True in_block_at unfolding tokens_ok_def by metis
    qed
    then obtain hs where "hash_from D bs ts (seed_parent seed) [0..<?n] = Inr hs" "\<forall>h \<in> set hs. h < 2 ^ 64"
      using hash_from_ok [OF assms seed_parent_less [of seed], of "[0..<?n]" ts bs] by auto
    then show ?thesis using True bs hash_from_length by (fastforce simp: iter_block_hashes_def)
  next
    case False
    then obtain i where i: "i < ?n * bs" "\<not> (0 \<le> ts ! i \<and> ts ! i < 2 ^ 32)"
      using len by (auto simp: tokens_ok_def in_set_conv_nth)
    have "i div bs < ?n \<and> ts ! i \<in> set (block_at bs ts (i div bs))" by (rule block_at_cover [OF bs i(1)])
    then have "hash_from D bs ts (seed_parent seed) [0..<?n] = Inl StructError"
      using i(2) by (intro hash_from_bad_token [of "i div bs"]) (auto simp: tokens_ok_def)
    then show ?thesis using False bs by (simp add: iter_block_hashes_def)
  qed
qed

end
