(* ===== verification/Prefix_Cache.thy ===== *)
theory Prefix_Cache
  imports KV_Coordinator Block_Hash Complex_Main
begin

text \<open>
  The prefix cache (\<^verbatim>\<open>src/rapid_llm/engine/prefix_cache.py\<close>): the scheduler's view of the KV cache. It
  keeps each live sequence's hash chain, asks the coordinator for the longest reusable prefix, and
  indexes blocks once their K/V has been computed.

  The central invariant, \<open>cache_inv\<close>, is what makes sharing sound: a block held by a request either
  carries no hash, and then nobody else holds it, or carries the hash of exactly the position of the
  request's own chain at which it is held. With \<open>equal_hash_equal_prefix\<close> it follows that two requests
  share a physical block only where their token prefixes are equal.
\<close>

section \<open>State\<close>

record prefix_stats =
  num_requests :: nat
  queried_tokens :: nat
  hit_tokens :: nat
  stat_evictions :: int

definition new_stats :: prefix_stats where
  "new_stats = \<lparr>num_requests = 0, queried_tokens = 0, hit_tokens = 0, stat_evictions = 0\<rparr>"

definition stats_hit_rate :: "prefix_stats \<Rightarrow> rat" where
  "stats_hit_rate s =
     (if queried_tokens s = 0 then 0 else of_nat (hit_tokens s) / of_nat (queried_tokens s))"

record prefix_match =
  match_tokens :: nat
  match_blocks :: "nat list list"

record seq_state =
  seq_hashes :: "bhash list"
  num_cached_tokens :: nat
  num_mapped_blocks :: "nat list"

record prefix_cache =
  pc_block_size :: nat
  hash_seed :: int
  pc_enable_caching :: bool
  config :: kv_config
  coord :: coordinator
  pc_stats :: prefix_stats
  eviction_base :: nat
  sequences :: "(rid, seq_state) dict"

section \<open>Operations\<close>

definition cache_init :: "int \<Rightarrow> int \<Rightarrow> kv_config option \<Rightarrow> int \<Rightarrow> bool \<Rightarrow> prefix_cache res" where
  "cache_init num bs kv_config seed caching =
     (if bs < 1 then Inl ValueError
      else rbind (case kv_config of Some cf \<Rightarrow> Inr cf | None \<Rightarrow> homogeneous (nat bs) 1 (0, 0) None) (\<lambda>cf.
           rbind (pool_init num bs caching) (\<lambda>p.
             Inr \<lparr>pc_block_size = nat bs, hash_seed = seed, pc_enable_caching = caching, config = cf,
                  coord = coord_init p (config_groups cf) (hash_block_size cf),
                  pc_stats = new_stats, eviction_base = 0, sequences = []\<rparr>)))"

definition stats :: "prefix_cache \<Rightarrow> prefix_cache \<times> prefix_stats" where
  "stats pc =
     (let s = (pc_stats pc)\<lparr>stat_evictions := int (evictions (pool (coord pc))) - int (eviction_base pc)\<rparr>
      in (pc\<lparr>pc_stats := s\<rparr>, s))"

definition hash_tokens :: "(bytes \<Rightarrow> bytes) \<Rightarrow> prefix_cache \<Rightarrow> int list \<Rightarrow> bhash list res" where
  "hash_tokens D pc ts = iter_block_hashes D ts (pc_block_size pc) (hash_seed pc)"

definition track ::
  "(bytes \<Rightarrow> bytes) \<Rightarrow> rid \<Rightarrow> int list \<Rightarrow> prefix_cache \<Rightarrow> (prefix_cache \<times> bhash list) res" where
  "track D rid ts pc =
     (case map_of (sequences pc) rid of
        None \<Rightarrow> rbind (hash_tokens D pc ts) (\<lambda>hs.
          Inr (pc\<lparr>sequences := AList.update rid
                 \<lparr>seq_hashes = hs, num_cached_tokens = 0, num_mapped_blocks = []\<rparr> (sequences pc)\<rparr>, hs))
      | Some st \<Rightarrow> rbind (extend_block_hashes D (seq_hashes st) ts (pc_block_size pc) (hash_seed pc)) (\<lambda>hs.
          Inr (pc\<lparr>sequences := AList.update rid (st\<lparr>seq_hashes := hs\<rparr>) (sequences pc)\<rparr>, hs)))"

definition observe ::
  "(bytes \<Rightarrow> bytes) \<Rightarrow> rid \<Rightarrow> int list \<Rightarrow> prefix_cache \<Rightarrow> (prefix_cache \<times> bhash list) res" where
  "observe D rid ts pc =
     (case map_of (sequences pc) rid of
        None \<Rightarrow> Inr (pc, [])
      | Some st \<Rightarrow> rbind (extend_block_hashes D (seq_hashes st) ts (pc_block_size pc) (hash_seed pc)) (\<lambda>hs.
          Inr (pc\<lparr>sequences := AList.update rid (st\<lparr>seq_hashes := hs\<rparr>) (sequences pc)\<rparr>, hs)))"

definition block_hashes :: "rid \<Rightarrow> prefix_cache \<Rightarrow> bhash list" where
  "block_hashes rid pc = (case map_of (sequences pc) rid of None \<Rightarrow> [] | Some st \<Rightarrow> seq_hashes st)"

definition lookup :: "bhash list \<Rightarrow> nat \<Rightarrow> prefix_cache \<Rightarrow> (prefix_cache \<times> prefix_match) res" where
  "lookup hashes num_tokens pc =
     (let s = (pc_stats pc)\<lparr>num_requests := num_requests (pc_stats pc) + 1,
                             queried_tokens := queried_tokens (pc_stats pc) + num_tokens\<rparr>;
          pc1 = pc\<lparr>pc_stats := s\<rparr>
      in if \<not> pc_enable_caching pc \<or> num_tokens < 1
         then Inr (pc1, \<lparr>match_tokens = 0, match_blocks = map (\<lambda>_. []) (config_groups (config pc))\<rparr>)
         else rbind (find_longest_cache_hit (coord pc) hashes (num_tokens - 1)) (\<lambda>(blocks, hit).
                Inr (pc1\<lparr>pc_stats := s\<lparr>hit_tokens := hit_tokens s + hit\<rparr>\<rparr>,
                     \<lparr>match_tokens = hit, match_blocks = blocks\<rparr>)))"

definition allocate ::
  "rid \<Rightarrow> nat \<Rightarrow> prefix_match option \<Rightarrow> prefix_cache \<Rightarrow> (prefix_cache \<times> bool) res" where
  "allocate rid num_tokens match pc =
     (let adopted = (case match of None \<Rightarrow> None
                     | Some m \<Rightarrow> if match_tokens m = 0 then None else Some (match_blocks m))
      in rbind (coord_allocate rid num_tokens adopted (coord pc)) (\<lambda>(c, ok). Inr (pc\<lparr>coord := c\<rparr>, ok)))"

definition offloadable_group :: "prefix_cache \<Rightarrow> nat option" where
  "offloadable_group pc =
     (case config_groups (config pc) of
        [g] \<Rightarrow> (case group_spec g of SlidingWindowSpec _ _ _ \<Rightarrow> None | _ \<Rightarrow> Some 0)
      | _ \<Rightarrow> None)"

definition commit :: "rid \<Rightarrow> nat \<Rightarrow> prefix_cache \<Rightarrow> (prefix_cache \<times> (nat \<times> bhash) list) res" where
  "commit rid num_computed pc =
     (case map_of (sequences pc) rid of
        None \<Rightarrow> Inr (pc, [])
      | Some st \<Rightarrow>
          if num_computed \<le> num_cached_tokens st then Inr (pc, [])
          else rbind (cache_blocks rid (seq_hashes st) num_computed (coord pc)) (\<lambda>(c, fresh).
            let pc1 = pc\<lparr>coord := c, sequences :=
                           AList.update rid (st\<lparr>num_cached_tokens := num_computed\<rparr>) (sequences pc)\<rparr>
            in case offloadable_group pc of
                 None \<Rightarrow> Inr (pc1, [])
               | Some g \<Rightarrow> Inr (pc1, map (\<lambda>(i, b, k). (b, k)) (filter (\<lambda>(i, b, k). i = g) fresh))))"

definition cache_free :: "rid \<Rightarrow> prefix_cache \<Rightarrow> prefix_cache res" where
  "cache_free rid pc =
     rbind (coord_free rid (coord pc)) (\<lambda>c.
       Inr (pc\<lparr>coord := c, sequences := AList.delete rid (sequences pc)\<rparr>))"

definition cache_reset :: "prefix_cache \<Rightarrow> prefix_cache \<times> bool" where
  "cache_reset pc =
     (case reset_prefix_cache (pool (coord pc)) of (p, ok) \<Rightarrow>
        if \<not> ok then (pc\<lparr>coord := (coord pc)\<lparr>pool := p\<rparr>\<rparr>, False)
        else (pc\<lparr>coord := (coord pc)\<lparr>pool := p\<rparr>, sequences := [], pc_stats := new_stats,
                 eviction_base := evictions p\<rparr>, True))"

section \<open>Views\<close>

definition block_ids :: "rid \<Rightarrow> prefix_cache \<Rightarrow> nat list list" where
  "block_ids rid pc = coord_block_ids rid (coord pc)"

text \<open>The loop of \<^verbatim>\<open>take_table_writes\<close> over (group, blocks, cursor) triples; it returns the new cursors too.\<close>

fun table_writes ::
  "kv_group list \<Rightarrow> nat list list \<Rightarrow> nat list \<Rightarrow> ((nat \<times> nat \<times> nat list) list \<times> nat list) res" where
  "table_writes [] [] mapped = Inr ([], mapped)"
| "table_writes (g # gs) (bs # bss) (m # mapped) =
     rbind (table_writes gs bss mapped) (\<lambda>(ws, ms).
       Inr (if m < length bs then ((group_id g, m, drop m bs) # ws, length bs # ms) else (ws, m # ms)))"
| "table_writes (g # gs) (bs # bss) [] = Inl IndexError"
| "table_writes _ _ _ = Inl ValueError"

definition take_table_writes :: "rid \<Rightarrow> prefix_cache \<Rightarrow> (prefix_cache \<times> (nat \<times> nat \<times> nat list) list) res" where
  "take_table_writes rid pc =
     (case map_of (sequences pc) rid of
        None \<Rightarrow> Inr (pc, [])
      | Some st \<Rightarrow>
          let gs = config_groups (config pc);
              mapped = (if num_mapped_blocks st = [] then replicate (length gs) 0 else num_mapped_blocks st)
          in rbind (table_writes gs (held_blocks rid (coord pc)) mapped) (\<lambda>(ws, ms).
               Inr (pc\<lparr>sequences := AList.update rid (st\<lparr>num_mapped_blocks := ms\<rparr>) (sequences pc)\<rparr>, ws)))"

definition num_committed_tokens :: "rid \<Rightarrow> prefix_cache \<Rightarrow> nat" where
  "num_committed_tokens rid pc =
     (case map_of (sequences pc) rid of None \<Rightarrow> 0 | Some st \<Rightarrow> num_cached_tokens st)"

definition hit_rate :: "prefix_cache \<Rightarrow> rat" where
  "hit_rate pc = stats_hit_rate (pc_stats pc)"

definition cache_num_free_blocks :: "prefix_cache \<Rightarrow> int" where
  "cache_num_free_blocks pc = num_free_blocks (pool (coord pc))"

definition cache_num_cached_blocks :: "prefix_cache \<Rightarrow> nat" where
  "cache_num_cached_blocks pc = num_cached_blocks (pool (coord pc))"

definition num_referenced_blocks :: "prefix_cache \<Rightarrow> int" where
  "num_referenced_blocks pc =
     int (length (filter (\<lambda>b. ref_cnt (pool (coord pc)) b > 0) [0..<num_blocks (pool (coord pc))])) - 1"

definition num_evictable_blocks :: "prefix_cache \<Rightarrow> nat" where
  "num_evictable_blocks pc =
     length (filter (\<lambda>b. ref_cnt (pool (coord pc)) b = 0 \<and> block_hash (pool (coord pc)) b \<noteq> None)
               [0..<num_blocks (pool (coord pc))])"

definition utilization :: "prefix_cache \<Rightarrow> rat" where
  "utilization pc = 1 - of_int (cache_num_free_blocks pc) / of_nat (num_blocks (pool (coord pc)))"


section \<open>The sharing invariant\<close>

text \<open>
  The configuration the batch planner runs: one group whose every block stays live, hashed at its own
  block size. This is the case prefix sharing and offloading are defined for.
\<close>

definition full_spec :: "kv_spec \<Rightarrow> bool" where
  "full_spec spec = (case spec of SlidingWindowSpec _ _ _ \<Rightarrow> False | _ \<Rightarrow> True)"

definition simple_cache :: "prefix_cache \<Rightarrow> bool" where
  "simple_cache pc \<longleftrightarrow>
     (\<exists>g. config_groups (config pc) = [g] \<and> groups (coord pc) = [g] \<and> full_spec (group_spec g) \<and>
          spec_block_size (group_spec g) = pc_block_size pc) \<and>
     coord_hash_block_size (coord pc) = pc_block_size pc \<and> 0 < pc_block_size pc"

definition chain_ok :: "block_pool \<Rightarrow> bhash list \<Rightarrow> nat list \<Rightarrow> bool" where
  "chain_ok p hs bl \<longleftrightarrow>
     0 \<notin> set bl \<and>
     (\<forall>j < length bl. \<forall>h. block_hash p (bl ! j) = Some h \<longrightarrow> j < length hs \<and> hs ! j = h)"

definition head_indexed :: "block_pool \<Rightarrow> nat list \<Rightarrow> nat \<Rightarrow> bool" where
  "head_indexed p bl n \<longleftrightarrow> (enable_caching p \<longrightarrow> (\<forall>j < n. j < length bl \<longrightarrow> block_hash p (bl ! j) \<noteq> None))"

definition request_ok :: "prefix_cache \<Rightarrow> rid \<Rightarrow> request_blocks \<Rightarrow> bool" where
  "request_ok pc rid st \<longleftrightarrow>
     chain_ok (pool (coord pc)) (block_hashes rid pc) (per_group st ! 0) \<and>
     head_indexed (pool (coord pc)) (per_group st ! 0) (num_cached st ! 0)"

definition private_ok :: "coordinator \<Rightarrow> bool" where
  "private_ok c \<longleftrightarrow> (\<forall>b. b \<noteq> 0 \<and> block_hash (pool c) b = None \<longrightarrow> held (requests c) b \<le> 1)"

definition cache_inv :: "prefix_cache \<Rightarrow> bool" where
  "cache_inv pc \<longleftrightarrow>
     coord_inv (coord pc) \<and> simple_cache pc \<and> enable_caching (pool (coord pc)) = pc_enable_caching pc \<and>
     dict_ok (sequences pc) \<and> eviction_base pc \<le> evictions (pool (coord pc)) \<and>
     (\<forall>rid sq. map_of (sequences pc) rid = Some sq \<longrightarrow> length (num_mapped_blocks sq) \<le> 1) \<and>
     (\<forall>rid st. map_of (requests (coord pc)) rid = Some st \<longrightarrow> request_ok pc rid st) \<and>
     private_ok (coord pc)"

lemma cache_invD:
  assumes "cache_inv pc"
  shows "coord_inv (coord pc)" "simple_cache pc" "enable_caching (pool (coord pc)) = pc_enable_caching pc"
    "dict_ok (sequences pc)" "eviction_base pc \<le> evictions (pool (coord pc))"
    "map_of (requests (coord pc)) rid = Some st \<Longrightarrow> request_ok pc rid st" "private_ok (coord pc)"
    "map_of (sequences pc) rid = Some sq \<Longrightarrow> length (num_mapped_blocks sq) \<le> 1"
  using assms unfolding cache_inv_def by blast+

lemma simple_cacheD:
  assumes "simple_cache pc"
  obtains g where "config_groups (config pc) = [g]" "groups (coord pc) = [g]" "full_spec (group_spec g)"
    "spec_block_size (group_spec g) = pc_block_size pc" "coord_hash_block_size (coord pc) = pc_block_size pc"
    "0 < pc_block_size pc" "\<And>hs. group_keys (coord_hash_block_size (coord pc)) hs (group_spec g) = hs"
    "num_blocks_for (group_spec g) n = (n + pc_block_size pc - 1) div pc_block_size pc"
proof -
  obtain g where g: "config_groups (config pc) = [g]" "groups (coord pc) = [g]" "full_spec (group_spec g)"
    "spec_block_size (group_spec g) = pc_block_size pc" "coord_hash_block_size (coord pc) = pc_block_size pc"
    "0 < pc_block_size pc"
    using assms unfolding simple_cache_def by blast
  then have "group_keys (coord_hash_block_size (coord pc)) hs (group_spec g) = hs" for hs
    by (simp add: group_keys_def)
  with g show ?thesis
    using that num_blocks_for_eq [of "group_spec g" n] by simp
qed

lemma homogeneous_ok:
  "0 < bs \<Longrightarrow> homogeneous bs nl row None =
     Inr \<lparr>config_groups = [\<lparr>group_id = 0, group_spec = FullAttentionSpec bs row, layer_ids = [0..<nl]\<rparr>],
          hash_block_size = bs\<rparr>"
  by (simp add: homogeneous_def spec_post_init_def config_post_init_def or_default_def group_block_hashes_def)

lemma cache_init_ok:
  assumes "2 \<le> n" "1 \<le> bs"
  shows "\<exists>pc. cache_init n bs None seed caching = Inr pc \<and> cache_inv pc \<and> requests (coord pc) = [] \<and>
    sequences pc = [] \<and> pc_block_size pc = nat bs \<and> hash_seed pc = seed \<and> pc_enable_caching pc = caching \<and>
    num_blocks (pool (coord pc)) = nat n \<and> free_list (pool (coord pc)) = [1..<nat n]"
proof -
  obtain p where p: "pool_init n bs caching = Inr p" "pool_inv p" "free_list p = [1..<nat n]"
    "num_blocks p = nat n" "block_size p = nat bs" "enable_caching p = caching"
    "ref_cnt p = (\<lambda>_. 0)(0 := 1)" "block_hash p = (\<lambda>_. None)"
    using pool_init_ok [OF assms] by blast
  have "coord_inv (coord_init p [\<lparr>group_id = 0, group_spec = FullAttentionSpec (nat bs) (0, 0),
      layer_ids = [0]\<rparr>] (nat bs))"
    using p assms by (simp add: coord_inv_def coord_init_def held_def spec_ok_def)
  then show ?thesis
    using p assms
    by (simp add: cache_init_def homogeneous_ok cache_inv_def simple_cache_def full_spec_def coord_init_def
        private_ok_def held_def)
qed

section \<open>Hash chains grow\<close>

lemma chain_ok_extend:
  "chain_ok p hs bl \<Longrightarrow> hs = take (length hs) hs' \<Longrightarrow> chain_ok p hs' bl"
  unfolding chain_ok_def by (metis length_take min_less_iff_conj nth_take)

lemma extend_take:
  "extend_block_hashes D hs ts bs seed = Inr hs' \<Longrightarrow> hs = take (length hs) hs'"
  by (auto simp: extend_block_hashes_def split: if_splits)

lemma cache_inv_sequence:
  assumes inv: "cache_inv pc"
    and hs: "block_hashes rid pc = take (length (block_hashes rid pc)) (seq_hashes sq)"
    and m: "length (num_mapped_blocks sq) \<le> 1"
  shows "cache_inv (pc\<lparr>sequences := AList.update rid sq (sequences pc)\<rparr>)"
proof -
  let ?pc = "pc\<lparr>sequences := AList.update rid sq (sequences pc)\<rparr>"
  have bh: "block_hashes r ?pc = (if r = rid then seq_hashes sq else block_hashes r pc)" for r
    by (simp add: block_hashes_def dict_simps)
  have "request_ok ?pc r st" if "request_ok pc r st" for r st
    using that chain_ok_extend [OF _ hs] by (auto simp: request_ok_def bh)
  then show ?thesis
    using inv m unfolding cache_inv_def simple_cache_def by (auto simp: dict_simps)
qed

lemma track_ok:
  assumes "cache_inv pc" "track D rid ts pc = Inr (pc', hs)"
  shows "cache_inv pc'" "block_hashes rid pc' = hs"
    "\<And>r. r \<noteq> rid \<Longrightarrow> map_of (sequences pc') r = map_of (sequences pc) r" "coord pc' = coord pc"
    "\<exists>sq. map_of (sequences pc') rid = Some sq"
  using assms cache_inv_sequence [OF assms(1), of rid] cache_invD(8) [OF assms(1)]
  by (auto simp: track_def block_hashes_def dict_simps split: option.splits dest: extend_take)

lemma observe_ok:
  assumes "cache_inv pc" "observe D rid ts pc = Inr (pc', hs)"
  shows "cache_inv pc'" "coord pc' = coord pc"
    "\<And>r. r \<noteq> rid \<Longrightarrow> map_of (sequences pc') r = map_of (sequences pc) r"
    "dom (map_of (sequences pc')) = dom (map_of (sequences pc))" "hs = block_hashes rid pc'"
  using assms cache_inv_sequence [OF assms(1), of rid] cache_invD(8) [OF assms(1)]
  by (auto simp: observe_def block_hashes_def dict_simps split: option.splits if_splits dest: extend_take)

text \<open>A tracked sequence's chain is the chain of its tokens, and stays so as the sequence grows.\<close>

definition tracks :: "(bytes \<Rightarrow> bytes) \<Rightarrow> rid \<Rightarrow> int list \<Rightarrow> prefix_cache \<Rightarrow> bool" where
  "tracks D rid ts pc \<longleftrightarrow>
     map_of (sequences pc) rid \<noteq> None \<and> hash_tokens D pc ts = Inr (block_hashes rid pc)"

lemma track_tracks:
  assumes "track D rid ts pc = Inr (pc', hs)" "map_of (sequences pc) rid = None"
  shows "tracks D rid ts pc'"
  using assms by (auto simp: track_def tracks_def block_hashes_def hash_tokens_def dict_simps)

lemma observe_tracks:
  assumes "tracks D rid ts pc" "digest8 D" "0 < pc_block_size pc" "tokens_ok (ts @ us)"
  shows "\<exists>pc' hs. observe D rid (ts @ us) pc = Inr (pc', hs) \<and> tracks D rid (ts @ us) pc'"
proof -
  obtain sq where sq: "map_of (sequences pc) rid = Some sq"
    using assms(1) by (auto simp: tracks_def)
  with assms(1) have "iter_block_hashes D ts (pc_block_size pc) (hash_seed pc) = Inr (seq_hashes sq)"
    by (simp add: tracks_def block_hashes_def hash_tokens_def)
  then have "extend_block_hashes D (seq_hashes sq) (ts @ us) (pc_block_size pc) (hash_seed pc) =
      iter_block_hashes D (ts @ us) (pc_block_size pc) (hash_seed pc)"
    by (rule extend_block_hashes_append)
  moreover obtain hs where "iter_block_hashes D (ts @ us) (pc_block_size pc) (hash_seed pc) = Inr hs"
    using iter_block_hashes_ok [OF assms(2-4)] by blast
  ultimately show ?thesis
    using sq by (simp add: observe_def tracks_def block_hashes_def hash_tokens_def dict_simps)
qed


section \<open>Allocation keeps the sharing invariant\<close>

lemma held_chain:
  assumes "coord_inv c" "map_of (requests c) r = Some st" "b \<in> set (concat (per_group st))" "b \<noteq> 0"
  shows "ref_cnt (pool c) b \<noteq> 0"
proof -
  have "0 < held_in st b" using assms(3) unfolding held_in_def by (simp only: count_list_pos_iff)
  then show ?thesis using held_ge [OF assms(2), of b] coord_invD(6) [OF assms(1,4)] by simp
qed

lemma chain_ok_cong:
  "chain_ok p hs bl \<Longrightarrow> (\<And>b. b \<in> set bl \<Longrightarrow> block_hash p' b = block_hash p b) \<Longrightarrow> chain_ok p' hs bl"
  unfolding chain_ok_def by (metis nth_mem)

lemma chain_ok_append:
  assumes "chain_ok p hs bl" "\<And>b. b \<in> set xs \<Longrightarrow> b \<noteq> 0 \<and> block_hash p b = None"
  shows "chain_ok p hs (bl @ xs)"
proof -
  have "block_hash p (xs ! i) = None" if "i < length xs" for i using assms(2) that by simp
  then show ?thesis using assms unfolding chain_ok_def by (auto simp: nth_append)
qed

lemma head_indexed_cong:
  "head_indexed p bl n \<Longrightarrow> (\<And>b. b \<in> set bl \<Longrightarrow> block_hash p' b = block_hash p b) \<Longrightarrow>
     enable_caching p' = enable_caching p \<Longrightarrow> head_indexed p' bl n"
  unfolding head_indexed_def by (metis nth_mem)

lemma one_group:
  assumes "cache_inv pc" "state_ok (coord pc) st"
  shows "\<exists>bl k. per_group st = [bl] \<and> num_cached st = [k] \<and> k \<le> length bl"
proof -
  obtain g where "groups (coord pc) = [g]" using simple_cacheD [OF cache_invD(2) [OF assms(1)]] by blast
  with assms(2) show ?thesis
    by (auto simp: state_ok_def length_Suc_conv)
qed

lemma request_ok_cong:
  assumes inv: "cache_inv pc" and r: "map_of (requests (coord pc)) r = Some st"
    and bh: "\<And>b. b \<noteq> 0 \<Longrightarrow> ref_cnt (pool (coord pc)) b \<noteq> 0 \<Longrightarrow>
      block_hash (pool (coord pc')) b = block_hash (pool (coord pc)) b"
    and en: "enable_caching (pool (coord pc')) = enable_caching (pool (coord pc))"
    and ch: "block_hashes r pc' = block_hashes r pc"
  shows "request_ok pc' r st"
proof -
  obtain bl k where st: "per_group st = [bl]" "num_cached st = [k]"
    using one_group [OF inv] coord_invD(5) [OF cache_invD(1) [OF inv] r] by blast
  have ok: "chain_ok (pool (coord pc)) (block_hashes r pc) bl" "head_indexed (pool (coord pc)) bl k"
    using cache_invD(6) [OF inv r] st by (simp_all add: request_ok_def)
  have "block_hash (pool (coord pc')) b = block_hash (pool (coord pc)) b" if "b \<in> set bl" for b
    using that ok(1) held_chain [OF cache_invD(1) [OF inv] r, of b] bh [of b] st(1)
    by (auto simp: chain_ok_def)
  then show ?thesis
    using ok chain_ok_cong head_indexed_cong [OF _ _ en] st ch by (simp add: request_ok_def)
qed

lemma alloc_result_cache_inv:
  assumes inv: "cache_inv pc" and c': "coord_inv c'"
    and res: "alloc_result rid n [bl] [k] (coord pc) c'"
    and chain: "chain_ok (pool (coord pc)) (block_hashes rid pc) bl"
    and head: "head_indexed (pool (coord pc)) bl k" "k \<le> length bl"
    and cnt: "\<And>b. b \<noteq> 0 \<Longrightarrow> block_hash (pool (coord pc)) b = None \<Longrightarrow>
      count_list bl b \<le> osum (\<lambda>st. held_in st b) (map_of (requests (coord pc)) rid)"
  shows "cache_inv (pc\<lparr>coord := c'\<rparr>)"
proof -
  let ?c = "coord pc" and ?pc = "pc\<lparr>coord := c'\<rparr>"
  note ci = cache_invD(1) [OF inv]
  obtain p st fresh where r: "c' = ?c\<lparr>pool := p, requests := AList.update rid st (requests ?c)\<rparr>"
    "same_geometry (pool ?c) p" "evictions (pool ?c) \<le> evictions p"
    "extends_by [bl] (per_group st) fresh" "num_cached st = [k]" "distinct fresh"
    "set fresh \<subseteq> {b. b \<noteq> 0 \<and> ref_cnt (pool ?c) b = 0 \<and> b \<notin> set (concat [bl])}"
    "\<forall>b. held_in st b = count_list (concat [bl]) b + count_list fresh b"
    "block_hash p = (\<lambda>b. if b \<in> set fresh then None else block_hash (pool ?c) b)"
    using res unfolding alloc_result_def by blast
  obtain xs where st: "per_group st = [bl @ xs]" "set xs \<subseteq> set fresh"
    using r(4) by (auto simp: extends_by_def length_Suc_conv)
  have en: "enable_caching p = enable_caching (pool ?c)" using r(2) by (simp add: same_geometry_def)
  have old: "block_hash p b = block_hash (pool ?c) b" if "b \<in> set bl" for b
    using that r(7,9) by auto
  have "chain_ok p (block_hashes rid pc) (bl @ xs)"
    by (rule chain_ok_append [OF chain_ok_cong [OF chain old]]) (use st(2) r(7,9) in auto)
  moreover have "head_indexed p (bl @ xs) k"
    using head_indexed_cong [OF head(1) old en] head(2) by (simp add: head_indexed_def nth_append)
  ultimately have own: "request_ok ?pc rid st"
    using st(1) r(1,5) by (simp add: request_ok_def block_hashes_def)
  have "request_ok ?pc r' st'" if "map_of (requests c') r' = Some st'" for r' st'
  proof (cases "r' = rid")
    case True
    with that own r(1) show ?thesis by (simp add: dict_simps)
  next
    case False
    then have "map_of (requests ?c) r' = Some st'" using that r(1) by (simp add: dict_simps)
    then show ?thesis
      by (rule request_ok_cong [OF inv]) (use r en in \<open>auto simp: block_hashes_def\<close>)
  qed
  moreover have "private_ok c'"
    unfolding private_ok_def
  proof (intro allI impI)
    fix b assume b: "b \<noteq> 0 \<and> block_hash (pool c') b = None"
    have sum: "held (requests c') b + osum (\<lambda>st. held_in st b) (map_of (requests ?c) rid) =
        held (requests ?c) b + count_list bl b + count_list fresh b"
      using held_update [OF coord_invD(3) [OF ci], of rid st b] r(1,8) by simp
    show "held (requests c') b \<le> 1"
    proof (cases "b \<in> set fresh")
      case True
      then have "held (requests ?c) b = 0" "count_list bl b = 0" "count_list fresh b = 1"
        using r(6,7) b coord_invD(6) [OF ci, of b] by (auto simp: count_list_distinct)
      with sum show ?thesis by linarith
    next
      case False
      then have "block_hash (pool ?c) b = None" "count_list fresh b = 0" using b r(1,9) by auto
      with sum cnt [of b] cache_invD(7) [OF inv] b show ?thesis unfolding private_ok_def by fastforce
    qed
  qed
  ultimately show ?thesis
    using inv r(1,3) en c' unfolding cache_inv_def simple_cache_def by auto
qed


text \<open>The blocks a request holds, as one list.\<close>

definition rows_held :: "rid \<Rightarrow> prefix_cache \<Rightarrow> nat list" where
  "rows_held rid pc = concat (block_ids rid pc)"

lemma rows_held_eq:
  "cache_inv pc \<Longrightarrow> block_ids rid pc = [rows_held rid pc]"
  "rows_held rid pc = (case map_of (requests (coord pc)) rid of None \<Rightarrow> [] | Some st \<Rightarrow> concat (per_group st))"
proof -
  show "rows_held rid pc = (case map_of (requests (coord pc)) rid of None \<Rightarrow> [] | Some st \<Rightarrow> concat (per_group st))"
    by (simp add: rows_held_def block_ids_def coord_block_ids_def held_blocks_def split: option.splits)
  assume inv: "cache_inv pc"
  obtain g where "groups (coord pc) = [g]" using simple_cacheD [OF cache_invD(2) [OF inv]] by blast
  then show "block_ids rid pc = [rows_held rid pc]"
    using one_group [OF inv] coord_invD(5) [OF cache_invD(1) [OF inv], of rid]
    by (fastforce simp: rows_held_def block_ids_def coord_block_ids_def held_blocks_def split: option.splits)
qed

lemma request_state_rows:
  assumes inv: "cache_inv pc"
  obtains k where "per_group (request_state rid (coord pc)) = [rows_held rid pc]"
    "num_cached (request_state rid (coord pc)) = [k]" "k \<le> length (rows_held rid pc)"
    "chain_ok (pool (coord pc)) (block_hashes rid pc) (rows_held rid pc)"
    "head_indexed (pool (coord pc)) (rows_held rid pc) k"
proof (cases "map_of (requests (coord pc)) rid")
  case None
  obtain g where "groups (coord pc) = [g]" using simple_cacheD [OF cache_invD(2) [OF inv]] by blast
  with None show ?thesis
    by (intro that [of 0]) (simp_all add: request_state_def rows_held_eq(2) chain_ok_def head_indexed_def)
next
  case (Some st)
  note ok = coord_invD(5) [OF cache_invD(1) [OF inv] Some]
  obtain bl k where st: "per_group st = [bl]" "num_cached st = [k]" "k \<le> length bl"
    using one_group [OF inv ok] by blast
  have "request_state rid (coord pc) = st"
    by (rule request_state_ok(3) [OF cache_invD(1) [OF inv] Some])
  with st Some cache_invD(6) [OF inv Some] show ?thesis
    by (intro that [of k]) (simp_all add: rows_held_eq(2) request_ok_def)
qed

text \<open>
  What an allocation does to the ledger: \<open>rid\<close> goes from \<open>base\<close> to an extension of it by blocks nobody
  held, which covers \<open>n\<close> tokens; nobody else is affected.
\<close>

definition grown :: "rid \<Rightarrow> nat \<Rightarrow> nat list \<Rightarrow> prefix_cache \<Rightarrow> prefix_cache \<Rightarrow> bool" where
  "grown rid n base pc pc' \<longleftrightarrow>
     cache_inv pc' \<and> pc' = pc\<lparr>coord := coord pc'\<rparr> \<and>
     (\<exists>fresh. rows_held rid pc' = base @ fresh \<and> distinct fresh \<and>
        (\<forall>b \<in> set fresh. b \<noteq> 0 \<and> b \<notin> set base \<and> (\<forall>r. b \<notin> set (rows_held r pc)))) \<and>
     n \<le> length (rows_held rid pc') * pc_block_size pc \<and>
     (\<forall>r. r \<noteq> rid \<longrightarrow> rows_held r pc' = rows_held r pc)"

definition unchanged_ledger :: "prefix_cache \<Rightarrow> prefix_cache \<Rightarrow> bool" where
  "unchanged_ledger pc pc' \<longleftrightarrow>
     cache_inv pc' \<and> pc' = pc\<lparr>coord := coord pc'\<rparr> \<and> (\<forall>r. rows_held r pc' = rows_held r pc) \<and>
     ref_cnt (pool (coord pc')) = ref_cnt (pool (coord pc)) \<and>
     block_hash (pool (coord pc')) = block_hash (pool (coord pc))"

definition missing_blocks :: "prefix_cache \<Rightarrow> nat \<Rightarrow> nat list \<Rightarrow> nat" where
  "missing_blocks pc n bl = (n + pc_block_size pc - 1) div pc_block_size pc - length bl"

lemma blocks_needed_one:
  assumes "simple_cache pc"
  shows "sum_list (blocks_needed (groups (coord pc)) [bl] n) = missing_blocks pc n bl"
proof -
  obtain g where g: "groups (coord pc) = [g]"
    "num_blocks_for (group_spec g) n = (n + pc_block_size pc - 1) div pc_block_size pc"
    using simple_cacheD [OF assms, of n] by metis
  then show ?thesis by (simp add: blocks_needed_def missing_blocks_def)
qed

lemma covers_one:
  assumes "simple_cache pc" "covers (coord pc) st n" "per_group st = [bl]"
  shows "n \<le> length bl * pc_block_size pc"
proof -
  obtain g where g: "groups (coord pc) = [g]" "0 < pc_block_size pc"
    "num_blocks_for (group_spec g) n = (n + pc_block_size pc - 1) div pc_block_size pc"
    using simple_cacheD [OF assms(1), of n] by metis
  have "(n + pc_block_size pc - 1) div pc_block_size pc \<le> length bl"
    using assms(2,3) g by (simp add: covers_def)
  then have "(n + pc_block_size pc - 1) div pc_block_size pc * pc_block_size pc \<le> length bl * pc_block_size pc"
    by (rule mult_le_mono1)
  moreover have "n + pc_block_size pc - 1 <
      (n + pc_block_size pc - 1) div pc_block_size pc * pc_block_size pc + pc_block_size pc"
    using g(2) by (metis add.commute dividend_less_div_times)
  ultimately show ?thesis by linarith
qed

lemma grownI:
  assumes inv: "cache_inv pc" and c': "coord_inv c'"
    and res: "alloc_result rid n [bl] [k] (coord pc) c'"
    and own: "chain_ok (pool (coord pc)) (block_hashes rid pc) bl"
      "head_indexed (pool (coord pc)) bl k" "k \<le> length bl"
      "\<And>b. b \<noteq> 0 \<Longrightarrow> block_hash (pool (coord pc)) b = None \<Longrightarrow>
         count_list bl b \<le> osum (\<lambda>st. held_in st b) (map_of (requests (coord pc)) rid)"
  shows "grown rid n bl pc (pc\<lparr>coord := c'\<rparr>)"
proof -
  let ?c = "coord pc" and ?pc = "pc\<lparr>coord := c'\<rparr>"
  obtain p st fresh where r: "c' = ?c\<lparr>pool := p, requests := AList.update rid st (requests ?c)\<rparr>"
    "extends_by [bl] (per_group st) fresh" "covers ?c st n" "distinct fresh"
    "set fresh \<subseteq> {b. b \<noteq> 0 \<and> ref_cnt (pool ?c) b = 0 \<and> b \<notin> set (concat [bl])}"
    "\<forall>b. held_in st b = count_list (concat [bl]) b + count_list fresh b"
    using res unfolding alloc_result_def by blast
  obtain xs where st: "per_group st = [bl @ xs]" "set xs \<subseteq> set fresh"
    using r(2) by (auto simp: extends_by_def length_Suc_conv)
  have rows: "rows_held r ?pc = (if r = rid then bl @ xs else rows_held r pc)" for r
    using r(1) st(1) by (simp add: rows_held_eq(2) dict_simps)
  have "count_list xs b = count_list fresh b" for b
    using r(6) st(1) by (simp add: held_in_def)
  then have "mset xs = mset fresh" by (intro multiset_eqI) (simp add: count_mset)
  then have "distinct xs" using r(4) mset_eq_imp_distinct_iff by blast
  moreover have "b \<notin> set (rows_held r pc)" if "b \<in> set xs" for b r
  proof (cases "map_of (requests ?c) r")
    case (Some s)
    have "ref_cnt (pool ?c) b = 0" "b \<noteq> 0" using that st(2) r(5) by auto
    then show ?thesis
      using held_chain [OF cache_invD(1) [OF inv] Some, of b] Some unfolding rows_held_eq(2) by auto
  qed (simp add: rows_held_eq(2))
  ultimately show ?thesis
    unfolding grown_def
    using alloc_result_cache_inv [OF inv c' res own] rows covers_one [OF cache_invD(2) [OF inv] r(3) st(1)]
      st(2) r(5) by (auto intro!: exI [of _ xs])
qed


lemma allocate_plain:
  assumes inv: "cache_inv pc"
  shows "missing_blocks pc n (rows_held rid pc) \<le> length (free_list (pool (coord pc))) \<Longrightarrow>
      \<exists>pc'. allocate rid n None pc = Inr (pc', True) \<and> grown rid n (rows_held rid pc) pc pc'"
    and "length (free_list (pool (coord pc))) < missing_blocks pc n (rows_held rid pc) \<Longrightarrow>
      \<exists>pc'. allocate rid n None pc = Inr (pc', False) \<and> unchanged_ledger pc pc'"
proof -
  let ?c = "coord pc" and ?st = "request_state rid (coord pc)"
  note ci = cache_invD(1) [OF inv]
  obtain k where st: "per_group ?st = [rows_held rid pc]" "num_cached ?st = [k]"
    "k \<le> length (rows_held rid pc)" "chain_ok (pool ?c) (block_hashes rid pc) (rows_held rid pc)"
    "head_indexed (pool ?c) (rows_held rid pc) k"
    using request_state_rows [OF inv] by blast
  have tot: "missing_blocks pc n (rows_held rid pc) = sum_list (blocks_needed (groups ?c) (per_group ?st) n)"
    using blocks_needed_one [OF cache_invD(2) [OF inv]] st(1) by simp
  have cnt: "count_list (rows_held rid pc) b \<le> osum (\<lambda>st. held_in st b) (map_of (requests ?c) rid)" for b
    using request_state_ok(2) [OF ci, of rid b] st(1) by (simp add: held_in_def)
  show "\<exists>pc'. allocate rid n None pc = Inr (pc', True) \<and> grown rid n (rows_held rid pc) pc pc'"
    if enough: "missing_blocks pc n (rows_held rid pc) \<le> length (free_list (pool ?c))"
  proof -
    obtain c' where "coord_allocate rid n None ?c = Inr (c', True)" "coord_inv c'"
      "alloc_result rid n [rows_held rid pc] [k] ?c c'"
      using coord_allocate_plain(1) [OF ci refl refl tot enough] st(1,2) by auto
    then show ?thesis
      using grownI [OF inv _ _ st(4,5,3) cnt] by (auto simp: allocate_def Let_def)
  qed
  show "\<exists>pc'. allocate rid n None pc = Inr (pc', False) \<and> unchanged_ledger pc pc'"
    if short: "length (free_list (pool ?c)) < missing_blocks pc n (rows_held rid pc)"
  proof -
    let ?c' = "?c\<lparr>requests := AList.update rid ?st (requests ?c)\<rparr>" and ?pc = "pc\<lparr>coord :=
      ?c\<lparr>requests := AList.update rid ?st (requests ?c)\<rparr>\<rparr>"
    have "request_ok ?pc r s" if "map_of (requests ?c') r = Some s" for r s
      using that cache_invD(6) [OF inv, of r s] st
      by (cases "r = rid") (simp_all add: request_ok_def block_hashes_def dict_simps)
    moreover have "held (requests ?c') b = held (requests ?c) b" for b
      using held_update [OF coord_invD(3) [OF ci], of rid ?st b] request_state_ok(2) [OF ci, of rid b] by simp
    ultimately have "cache_inv ?pc"
      using inv coord_inv_request_state [OF ci, of rid]
      unfolding cache_inv_def simple_cache_def private_ok_def by auto
    moreover have "rows_held r ?pc = rows_held r pc" for r
      using st(1) by (simp add: rows_held_eq(2) dict_simps)
    ultimately show ?thesis
      using coord_allocate_plain(2) [OF ci refl refl tot short]
      by (auto simp: allocate_def Let_def unchanged_ledger_def)
  qed
qed

section \<open>Lookup and adoption\<close>

text \<open>A match the request may adopt: block \<open>j\<close> is cached under position \<open>j\<close> of the request's chain.\<close>

definition match_ok :: "prefix_cache \<Rightarrow> bhash list \<Rightarrow> prefix_match \<Rightarrow> bool" where
  "match_ok pc hs m \<longleftrightarrow>
     (\<exists>bl. match_blocks m = [bl] \<and> match_tokens m = length bl * pc_block_size pc \<and>
        length bl \<le> length hs \<and>
        (\<forall>j < length bl. block_hash (pool (coord pc)) (bl ! j) = Some (hs ! j)))"

lemma lookup_ok:
  assumes inv: "cache_inv pc"
  obtains pc' m where "lookup hs n pc = Inr (pc', m)" "coord pc' = coord pc" "sequences pc' = sequences pc"
    "pc_block_size pc' = pc_block_size pc" "hash_seed pc' = hash_seed pc"
    "cache_inv pc'" "match_ok pc' hs m" "match_tokens m \<le> n - 1"
    "\<lbrakk>pc_enable_caching pc; match_tokens m div pc_block_size pc < length hs;
      match_tokens m + pc_block_size pc \<le> n - 1\<rbrakk> \<Longrightarrow>
      (\<forall>b. block_hash (pool (coord pc)) b \<noteq> Some (hs ! (match_tokens m div pc_block_size pc)))"
proof -
  obtain g where g: "config_groups (config pc) = [g]" "groups (coord pc) = [g]" "full_spec (group_spec g)"
    "spec_block_size (group_spec g) = pc_block_size pc" "0 < pc_block_size pc"
    "\<And>hs. group_keys (coord_hash_block_size (coord pc)) hs (group_spec g) = hs"
    using simple_cacheD [OF cache_invD(2) [OF inv]] by metis
  let ?p = "pool (coord pc)" and ?bs = "pc_block_size pc"
  have upd: "cache_inv (pc\<lparr>pc_stats := s\<rparr>)" for s
    using inv by (simp add: cache_inv_def simple_cache_def request_ok_def block_hashes_def)
  show ?thesis
  proof (cases "\<not> pc_enable_caching pc \<or> n < 1")
    case True
    then have eq: "lookup hs n pc = Inr (pc\<lparr>pc_stats := (pc_stats pc)\<lparr>num_requests := num_requests (pc_stats pc) + 1,
        queried_tokens := queried_tokens (pc_stats pc) + n\<rparr>\<rparr>, \<lparr>match_tokens = 0, match_blocks = [[]]\<rparr>)"
      by (auto simp: lookup_def Let_def g)
    show ?thesis
      by (rule that [OF eq]) (use True upd g(5) in \<open>auto simp: match_ok_def\<close>)
  next
    case False
    obtain bss len where f: "find_longest_cache_hit (coord pc) hs (n - 1) = Inr (bss, len)" "len \<le> n - 1"
      "length bss = length (groups (coord pc))"
      "\<And>i. i < length (groups (coord pc)) \<Longrightarrow>
         length (bss ! i) = len div spec_block_size (group_spec (groups (coord pc) ! i)) \<and>
         bss ! i = take (len div spec_block_size (group_spec (groups (coord pc) ! i)))
           (group_hit (coord pc) hs (n - 1) (groups (coord pc) ! i))"
      "\<And>g. groups (coord pc) = [g] \<Longrightarrow>
         len = length (group_hit (coord pc) hs (n - 1) g) * spec_block_size (group_spec g)"
      by (rule find_longest_cache_hit_ok [OF cache_invD(1) [OF inv], of hs "n - 1"]) blast
    define hit where "hit = prefix_run ?p (take ((n - 1) div ?bs) hs)"
    have "spec_run (group_spec g) = prefix_run" using g(3) by (cases "group_spec g") (auto simp: full_spec_def)
    then have gh: "group_hit (coord pc) hs (n - 1) g = hit" by (simp add: group_hit_def g hit_def)
    have len: "len = length hit * ?bs" using f(5) [OF g(2)] gh g(4) by simp
    have bss: "bss = [hit]"
      using f(3,4) g(2,4,5) gh len by (auto simp: length_Suc_conv)
    have hl: "length hit \<le> length hs" "length hit \<le> (n - 1) div ?bs"
      using prefix_run_length [of ?p "take ((n - 1) div ?bs) hs"] by (auto simp: hit_def)
    have "block_hash ?p (hit ! j) = Some (hs ! j)" if "j < length hit" for j
      using prefix_run_nth [of j ?p "take ((n - 1) div ?bs) hs"] that hl
        get_cached_block_Some [OF pool_invD(7) [OF coord_invD(1) [OF cache_invD(1) [OF inv]]]]
      by (simp add: hit_def)
    then have "match_ok (pc\<lparr>pc_stats := s\<rparr>) hs \<lparr>match_tokens = len, match_blocks = bss\<rparr>" for s
      using hl(1) by (simp add: match_ok_def bss len)
    moreover have "block_hash ?p b \<noteq> Some (hs ! (len div ?bs))"
      if "len div ?bs < length hs" "len + ?bs \<le> n - 1" for b
    proof -
      have "length hit < (n - 1) div ?bs"
        using that(2) len g(5) by (metis add.commute less_eq_div_iff_mult_less_eq less_eq_Suc_le mult_Suc)
      then have "get_cached_block ?p (hs ! length hit) = None"
        using prefix_run_maximal [of ?p "take ((n - 1) div ?bs) hs"] that(1) len g(5) by (simp add: hit_def)
      then show ?thesis
        using get_cached_block_None [OF pool_invD(7) [OF coord_invD(1) [OF cache_invD(1) [OF inv]]]] len g(5)
        by simp
    qed
    moreover obtain st where eq: "lookup hs n pc = Inr (pc\<lparr>pc_stats := st\<rparr>, \<lparr>match_tokens = len, match_blocks = bss\<rparr>)"
      using False f(1) by (auto simp: lookup_def Let_def)
    ultimately show ?thesis
      using f(2) upd by (intro that [OF eq]) simp_all
  qed
qed


lemma match_okD:
  assumes inv: "cache_inv pc" and m: "match_ok pc (block_hashes rid pc) m" "match_blocks m = [bl]"
  shows "chain_ok (pool (coord pc)) (block_hashes rid pc) bl"
    "head_indexed (pool (coord pc)) bl (length bl)"
    "\<forall>b \<in> set (concat [bl]). b < num_blocks (pool (coord pc))"
    "block_hash (pool (coord pc)) b = None \<Longrightarrow> count_list bl b = 0"
    "match_tokens m = 0 \<longleftrightarrow> bl = []" "match_tokens m = length bl * pc_block_size pc"
proof -
  let ?p = "pool (coord pc)"
  note p = coord_invD(1) [OF cache_invD(1) [OF inv]]
  have bh: "\<forall>j < length bl. block_hash ?p (bl ! j) = Some (block_hashes rid pc ! j)"
    "length bl \<le> length (block_hashes rid pc)"
    and tk: "match_tokens m = length bl * pc_block_size pc"
    using m by (auto simp: match_ok_def)
  have some: "block_hash ?p b \<noteq> None" if "b \<in> set bl" for b
    using that bh(1) by (auto simp: in_set_conv_nth)
  then show "block_hash ?p b = None \<Longrightarrow> count_list bl b = 0" using count_list_0_iff by metis
  have z: "0 \<notin> set bl" using some pool_invD(6) [OF p] by blast
  with bh show "chain_ok ?p (block_hashes rid pc) bl" by (auto simp: chain_ok_def)
  show "head_indexed ?p bl (length bl)" using bh by (auto simp: head_indexed_def)
  have out: "block_hash ?p b = None" if "\<not> b < num_blocks ?p" for b
    using p that by (simp add: pool_inv_def)
  have "b < num_blocks ?p" if "b \<in> set bl" for b
    using some [OF that] out [of b] by argo
  then show "\<forall>b \<in> set (concat [bl]). b < num_blocks ?p" by simp
  show "match_tokens m = length bl * pc_block_size pc" by (rule tk)
  show "match_tokens m = 0 \<longleftrightarrow> bl = []"
    using tk cache_invD(2) [OF inv] by (simp add: simple_cache_def)
qed

lemma allocate_adopt:
  assumes inv: "cache_inv pc" and m: "match_ok pc (block_hashes rid pc) m" "match_blocks m = [bl]"
    and none: "rows_held rid pc = []"
  shows "missing_blocks pc n bl \<le> length (available (coord pc) [bl]) \<Longrightarrow>
      \<exists>pc'. allocate rid n (Some m) pc = Inr (pc', True) \<and> grown rid n bl pc pc'"
    and "length (available (coord pc) [bl]) < missing_blocks pc n bl \<Longrightarrow>
      \<exists>pc'. allocate rid n (Some m) pc = Inr (pc', False) \<and> unchanged_ledger pc pc'"
proof -
  let ?c = "coord pc"
  note ci = cache_invD(1) [OF inv] and md = match_okD [OF inv m]
  have av: "available ?c [[]] = free_list (pool ?c)" by (simp add: available_def)
  have nil: "allocate rid n (Some m) pc = allocate rid n None pc" if "bl = []"
    using that md(5) by (simp add: allocate_def)
  obtain g where g: "groups ?c = [g]" using simple_cacheD [OF cache_invD(2) [OF inv]] by blast
  have len: "length [bl] = length (groups ?c)" using g by simp
  have empty: "per_group (request_state rid ?c) = map (\<lambda>_. []) (groups ?c)"
    using request_state_rows [OF inv, of rid] none g by auto
  have tot: "missing_blocks pc n bl = sum_list (blocks_needed (groups ?c) [bl] n)"
    using blocks_needed_one [OF cache_invD(2) [OF inv]] by simp
  have some: "allocate rid n (Some m) pc =
      rbind (coord_allocate rid n (Some [bl]) ?c) (\<lambda>(c, ok). Inr (pc\<lparr>coord := c\<rparr>, ok))" if "bl \<noteq> []"
    using that md(5) m(2) by (simp add: allocate_def)
  show "\<exists>pc'. allocate rid n (Some m) pc = Inr (pc', True) \<and> grown rid n bl pc pc'"
    if enough: "missing_blocks pc n bl \<le> length (available ?c [bl])"
  proof (cases "bl = []")
    case True
    then show ?thesis using allocate_plain(1) [OF inv, of n rid] none nil enough av by simp
  next
    case False
    obtain c' where c': "coord_allocate rid n (Some [bl]) ?c = Inr (c', True)" "coord_inv c'"
      "alloc_result rid n [bl] [length bl] ?c c'"
      using coord_allocate_adopt(1) [OF ci len md(3) empty tot enough] by auto
    have "grown rid n bl pc (pc\<lparr>coord := c'\<rparr>)"
      by (rule grownI [OF inv c'(2,3) md(1,2)]) (use md(4) in auto)
    then show ?thesis using some [OF False] c'(1) by simp
  qed
  show "\<exists>pc'. allocate rid n (Some m) pc = Inr (pc', False) \<and> unchanged_ledger pc pc'"
    if short: "length (available ?c [bl]) < missing_blocks pc n bl"
  proof (cases "bl = []")
    case True
    then show ?thesis using allocate_plain(2) [OF inv, where n = n and rid = rid] none nil short av by simp
  next
    case False
    obtain p where p: "coord_allocate rid n (Some [bl]) ?c =
        Inr (?c\<lparr>pool := p, requests := AList.delete rid (requests ?c)\<rparr>, False)"
      "coord_inv (?c\<lparr>pool := p, requests := AList.delete rid (requests ?c)\<rparr>)"
      "ref_effect (\<lambda>_. 0) (pool ?c) p"
      using coord_allocate_adopt(2) [OF ci len md(3) empty tot short] by blast
    let ?c' = "?c\<lparr>pool := p, requests := AList.delete rid (requests ?c)\<rparr>"
    have rc: "ref_cnt p = ref_cnt (pool ?c)" "block_hash p = block_hash (pool ?c)"
      "enable_caching p = enable_caching (pool ?c)" "evictions p = evictions (pool ?c)"
      using p(3) by (auto simp: ref_effect_def same_geometry_def fun_eq_iff)
    have "request_ok (pc\<lparr>coord := ?c'\<rparr>) r s" if "map_of (requests ?c') r = Some s" for r s
    proof -
      have "map_of (requests ?c) r = Some s" using that by (simp add: dict_simps split: if_splits)
      then show ?thesis
        by (rule request_ok_cong [OF inv]) (simp_all add: rc block_hashes_def)
    qed
    moreover have "held (requests ?c') b \<le> held (requests ?c) b" for b
      using held_delete [OF coord_invD(3) [OF ci], of rid b] by simp
    then have "private_ok ?c'"
      using cache_invD(7) [OF inv] unfolding private_ok_def by (auto simp: rc intro: order_trans)
    ultimately have "cache_inv (pc\<lparr>coord := ?c'\<rparr>)"
      using inv p(2) unfolding cache_inv_def simple_cache_def by (auto simp: rc)
    moreover have "rows_held r (pc\<lparr>coord := ?c'\<rparr>) = rows_held r pc" for r
      using none by (simp add: rows_held_eq(2) dict_simps)
    ultimately have "unchanged_ledger pc (pc\<lparr>coord := ?c'\<rparr>)"
      by (simp add: unchanged_ledger_def rc)
    then show ?thesis using some [OF False] p(1) by auto
  qed
qed

section \<open>Committing and releasing\<close>

lemma held_two:
  assumes "dict_ok rs" "map_of rs r = Some st" "map_of rs r' = Some st'" "r \<noteq> r'"
  shows "held_in st b + held_in st' b \<le> held rs b"
  using held_delete [OF assms(1), of r b] assms(2-) held_ge [of "AList.delete r rs" r' st' b]
  by (simp add: dict_simps)

lemma count_list_two:
  "i < length xs \<Longrightarrow> j < length xs \<Longrightarrow> xs ! i = xs ! j \<Longrightarrow> count_list xs (xs ! i) \<le> 1 \<Longrightarrow> i = j"
proof (induction xs arbitrary: i j)
  case (Cons x xs)
  have "x \<in> set xs \<Longrightarrow> 0 < count_list xs x" by (simp add: count_list_pos_iff)
  then show ?case
    using Cons by (cases i; cases j) (auto split: if_splits)
qed simp


text \<open>
  \<open>hashes_added\<close>: the ledger is untouched and hashes were only added, each to a block of \<open>rid\<close> at the
  position of its chain the hash belongs to, below the computed tokens.
\<close>

definition hashes_added :: "rid \<Rightarrow> nat \<Rightarrow> prefix_cache \<Rightarrow> prefix_cache \<Rightarrow> bool" where
  "hashes_added rid n pc pc' \<longleftrightarrow>
     (\<forall>r. rows_held r pc' = rows_held r pc) \<and> (\<forall>r. block_hashes r pc' = block_hashes r pc) \<and>
     ref_cnt (pool (coord pc')) = ref_cnt (pool (coord pc)) \<and>
     free_list (pool (coord pc')) = free_list (pool (coord pc)) \<and>
     (\<forall>b h. block_hash (pool (coord pc)) b = Some h \<longrightarrow> block_hash (pool (coord pc')) b = Some h) \<and>
     (\<forall>b h. block_hash (pool (coord pc)) b = None \<longrightarrow> block_hash (pool (coord pc')) b = Some h \<longrightarrow>
        (\<exists>j < n div pc_block_size pc. j < length (rows_held rid pc) \<and> j < length (block_hashes rid pc) \<and>
           rows_held rid pc ! j = b \<and> block_hashes rid pc ! j = h))"

lemma may_gain_one:
  assumes inv: "cache_inv pc" and st: "map_of (requests (coord pc)) rid = Some st"
    and g: "may_gain (coord pc) hs n st i b h" "i < length (groups (coord pc))"
  shows "\<exists>j < n div pc_block_size pc. j < length (rows_held rid pc) \<and> j < length hs \<and>
           rows_held rid pc ! j = b \<and> hs ! j = h"
proof -
  obtain grp where grp: "groups (coord pc) = [grp]" "spec_block_size (group_spec grp) = pc_block_size pc"
    "\<And>hs. group_keys (coord_hash_block_size (coord pc)) hs (group_spec grp) = hs"
    using simple_cacheD [OF cache_invD(2) [OF inv]] by metis
  obtain bl where "per_group st = [bl]"
    using one_group [OF inv coord_invD(5) [OF cache_invD(1) [OF inv] st]] by blast
  with g grp st show ?thesis
    by (auto simp: may_gain_def rows_held_eq(2))
qed

lemma cache_blocks_cache_inv:
  assumes inv: "cache_inv pc" and st: "map_of (requests (coord pc)) rid = Some st"
    and hs: "hs = block_hashes rid pc"
  obtains c' fr where "cache_blocks rid hs n (coord pc) = Inr (c', fr)" "cache_inv (pc\<lparr>coord := c'\<rparr>)"
    "hashes_added rid n pc (pc\<lparr>coord := c'\<rparr>)"
    "\<And>i b h. (i, b, h) \<in> set fr \<Longrightarrow> block_hash (pool (coord pc)) b = None \<and>
       (\<exists>j < n div pc_block_size pc. j < length (rows_held rid pc) \<and> j < length hs \<and>
           rows_held rid pc ! j = b \<and> hs ! j = h)"
    "\<And>j. \<lbrakk>pc_enable_caching pc; n \<le> length (rows_held rid pc) * pc_block_size pc;
          j < n div pc_block_size pc; j < length hs\<rbrakk> \<Longrightarrow>
        block_hash (pool c') (rows_held rid pc ! j) = Some (hs ! j)"
proof -
  let ?c = "coord pc" and ?p = "pool (coord pc)"
  note ci = cache_invD(1) [OF inv]
  obtain grp where grp: "groups ?c = [grp]" "spec_block_size (group_spec grp) = pc_block_size pc"
    "\<And>hs. group_keys (coord_hash_block_size ?c) hs (group_spec grp) = hs" "0 < pc_block_size pc"
    using simple_cacheD [OF cache_invD(2) [OF inv]] by metis
  obtain bl k where bl: "per_group st = [bl]" "num_cached st = [k]" "k \<le> length bl"
    using one_group [OF inv coord_invD(5) [OF ci st]] by blast
  have rows: "rows_held rid pc = bl" using st bl by (simp add: rows_held_eq(2))
  have ok: "chain_ok ?p hs bl" "head_indexed ?p bl k"
    using cache_invD(6) [OF inv st] bl hs by (simp_all add: request_ok_def)
  obtain p nc fr G where r: "cache_blocks rid hs n ?c =
      Inr (?c\<lparr>pool := p, requests := AList.update rid (st\<lparr>num_cached := nc\<rparr>) (requests ?c)\<rparr>, fr)"
    "coord_inv (?c\<lparr>pool := p, requests := AList.update rid (st\<lparr>num_cached := nc\<rparr>) (requests ?c)\<rparr>)"
    "hash_effect G ?p p" "length nc = length (groups ?c)"
    "\<And>g. g < length (groups ?c) \<Longrightarrow> nc ! g = new_num_cached ?c hs n st g"
    "\<And>b h. G b = Some h \<Longrightarrow> \<exists>g < length (groups ?c). may_gain ?c hs n st g b h"
    "\<And>g b h. (g, b, h) \<in> set fr \<Longrightarrow> g < length (groups ?c) \<and> may_gain ?c hs n st g b h \<and> block_hash ?p b = None"
    "\<And>g. enable_caching ?p \<Longrightarrow> g < length (groups ?c) \<Longrightarrow>
       indexed p st g (num_cached st ! g) (new_num_cached ?c hs n st g)"
    by (rule cache_blocks_ok [OF ci st, of hs n]) (rule that)
  let ?c' = "?c\<lparr>pool := p, requests := AList.update rid (st\<lparr>num_cached := nc\<rparr>) (requests ?c)\<rparr>"
  let ?pc = "pc\<lparr>coord := ?c'\<rparr>"
  note he = hash_effectD [OF r(3)]
  have gain: "\<exists>j < n div pc_block_size pc. j < length bl \<and> j < length hs \<and> bl ! j = b \<and> hs ! j = h"
    if "block_hash ?p b = None" "block_hash p b = Some h" for b h
    using that he(8) r(6) [of b h] may_gain_one [OF inv st, of hs n _ b h] rows by auto
  have held: "held (requests ?c') b = held (requests ?c) b" for b
    using held_update [OF coord_invD(3) [OF ci], of rid "st\<lparr>num_cached := nc\<rparr>" b] st by (simp add: held_in_def)
  have priv: "held (requests ?c) b \<le> 1" if "b \<in> set bl" "block_hash ?p b = None" for b
    using cache_invD(7) [OF inv] that ok(1) unfolding private_ok_def chain_ok_def by metis
  have chain: "chain_ok p hs bl"
    unfolding chain_ok_def
  proof (intro conjI allI impI)
    show "0 \<notin> set bl" using ok(1) by (simp add: chain_ok_def)
    fix i h assume i: "i < length bl" "block_hash p (bl ! i) = Some h"
    have "i < length hs \<and> hs ! i = h"
    proof (cases "block_hash ?p (bl ! i)")
      case None
      then obtain j where j: "j < length bl" "j < length hs" "bl ! j = bl ! i" "hs ! j = h"
        using gain i(2) by blast
      have "count_list bl (bl ! i) \<le> 1"
        using priv [of "bl ! i"] None i(1) held_ge [OF st, of "bl ! i"] bl(1) by (simp add: held_in_def)
      then have "j = i" using count_list_two [OF i(1) j(1)] j(3) by simp
      with j show ?thesis by simp
    next
      case (Some h')
      then show ?thesis using he(7) i ok(1) by (auto simp: chain_ok_def)
    qed
    then show "i < length hs" "hs ! i = h" by auto
  qed
  let ?full = "min (n div pc_block_size pc) (length hs)"
  have new: "nc = [new_num_cached ?c hs n st 0]"
    "new_num_cached ?c hs n st 0 = (if k < ?full \<and> ?full \<le> length bl then ?full else k)"
    using r(4) r(5) [of 0] grp bl by (auto simp: length_Suc_conv new_num_cached_def Let_def)
  have keep: "block_hash p b \<noteq> None" if "block_hash ?p b \<noteq> None" for b
    using that he(7) [of b] by (cases "block_hash ?p b") auto
  have head: "head_indexed p bl (new_num_cached ?c hs n st 0)"
    unfolding head_indexed_def
  proof (intro impI allI)
    fix j assume j: "enable_caching p" "j < new_num_cached ?c hs n st 0" "j < length bl"
    show "block_hash p (bl ! j) \<noteq> None"
    proof (cases "j < k")
      case True
      then show ?thesis using ok(2) j he(6) keep by (simp add: head_indexed_def)
    next
      case False
      have "bl ! j \<noteq> 0" using ok(1) j(3) by (metis chain_ok_def nth_mem)
      then show ?thesis
        using r(8) [of 0] j he(6) False grp(1) bl by (simp add: indexed_def)
    qed
  qed
  have others: "request_ok ?pc r' st'" if m': "map_of (requests ?c) r' = Some st'" and ne: "r' \<noteq> rid" for r' st'
  proof -
    obtain bl' k' where bl': "per_group st' = [bl']" "num_cached st' = [k']"
      using one_group [OF inv coord_invD(5) [OF ci m']] by blast
    have ok': "chain_ok ?p (block_hashes r' pc) bl'" "head_indexed ?p bl' k'"
      using cache_invD(6) [OF inv m'] bl' by (simp_all add: request_ok_def)
    have "block_hash p b = block_hash ?p b" if b: "b \<in> set bl'" for b
    proof (rule ccontr)
      assume d: "block_hash p b \<noteq> block_hash ?p b"
      then have none: "block_hash ?p b = None" using he(7) by (cases "block_hash ?p b") auto
      then obtain j where "j < length bl" "bl ! j = b" using gain d by (cases "block_hash p b") auto
      then have "0 < held_in st b" "0 < held_in st' b" "b \<in> set bl"
        using b bl(1) bl'(1) by (auto simp: held_in_def count_list_pos_iff)
      then show False
        using held_two [OF coord_invD(3) [OF ci] st m', of b]
          priv none ne by fastforce
    qed
    then show ?thesis
      using chain_ok_cong [OF ok'(1)] head_indexed_cong [OF ok'(2) _ he(6)] bl'
      by (simp add: request_ok_def block_hashes_def)
  qed
  have own: "request_ok ?pc rid (st\<lparr>num_cached := nc\<rparr>)"
    using chain head new bl(1) hs by (simp add: request_ok_def block_hashes_def)
  have "cache_inv ?pc"
    unfolding cache_inv_def
  proof (intro conjI allI impI)
    show "request_ok ?pc r' s" if "map_of (requests (coord ?pc)) r' = Some s" for r' s
      using that own others by (auto simp: dict_simps split: if_splits)
    have "block_hash p b = None \<Longrightarrow> block_hash ?p b = None" for b using keep by blast
    then show "private_ok (coord ?pc)"
      using cache_invD(7) [OF inv] held by (simp add: private_ok_def)
  qed (use inv r(2,3) in \<open>auto simp: cache_inv_def simple_cache_def hash_effect_def same_geometry_def\<close>)
  moreover have "hashes_added rid n pc ?pc"
    unfolding hashes_added_def using gain he(3,4,7) rows hs st bl
    by (auto simp: rows_held_eq(2) dict_simps block_hashes_def)
  moreover have "block_hash p (bl ! j) = Some (hs ! j)"
    if "pc_enable_caching pc" "n \<le> length bl * pc_block_size pc" "j < n div pc_block_size pc" "j < length hs" for j
  proof -
    have "n div pc_block_size pc \<le> length bl" using that(2) grp(4) by (metis div_le_mono div_mult_self_is_m)
    moreover from this have "j < new_num_cached ?c hs n st 0" using that new(2) by auto
    ultimately have "block_hash p (bl ! j) \<noteq> None"
      using head that cache_invD(3) [OF inv] he(6) by (simp add: head_indexed_def)
    then show ?thesis
      using chain that \<open>n div pc_block_size pc \<le> length bl\<close> unfolding chain_ok_def by fastforce
  qed
  moreover have "block_hash ?p b = None \<and> (\<exists>j < n div pc_block_size pc. j < length (rows_held rid pc) \<and>
      j < length hs \<and> rows_held rid pc ! j = b \<and> hs ! j = h)" if "(i, b, h) \<in> set fr" for i b h
    using r(7) [OF that] may_gain_one [OF inv st] by blast
  ultimately show ?thesis using that [OF r(1)] rows by auto
qed


lemma offloadable_simple:
  assumes "simple_cache pc"
  shows "offloadable_group pc = Some 0"
proof -
  obtain g where "config_groups (config pc) = [g]" "full_spec (group_spec g)"
    using assms by (auto simp: simple_cache_def)
  then show ?thesis
    by (cases "group_spec g") (simp_all add: offloadable_group_def full_spec_def)
qed

lemma hashes_added_refl: "hashes_added rid n pc pc"
  by (simp add: hashes_added_def)

lemma commit_ok:
  assumes inv: "cache_inv pc"
  obtains pc' out where "commit rid n pc = Inr (pc', out)" "cache_inv pc'" "hashes_added rid n pc pc'"
    "\<And>b h. (b, h) \<in> set out \<Longrightarrow> block_hash (pool (coord pc)) b = None \<and>
       (\<exists>j < n div pc_block_size pc. j < length (rows_held rid pc) \<and> j < length (block_hashes rid pc) \<and>
           rows_held rid pc ! j = b \<and> block_hashes rid pc ! j = h)"
    "\<And>j. \<lbrakk>pc_enable_caching pc; num_committed_tokens rid pc < n;
          n \<le> length (rows_held rid pc) * pc_block_size pc;
          j < n div pc_block_size pc; j < length (block_hashes rid pc)\<rbrakk> \<Longrightarrow>
        block_hash (pool (coord pc')) (rows_held rid pc ! j) = Some (block_hashes rid pc ! j)"
    "dom (map_of (sequences pc')) = dom (map_of (sequences pc))"
    "pc_block_size pc' = pc_block_size pc" "hash_seed pc' = hash_seed pc"
    "pc_enable_caching pc' = pc_enable_caching pc"
proof (cases "map_of (sequences pc) rid")
  case None
  then have eq: "commit rid n pc = Inr (pc, [])" by (simp add: commit_def)
  show ?thesis
    by (rule that [OF eq inv hashes_added_refl]) (use None in \<open>auto simp: block_hashes_def\<close>)
next
  case (Some sq)
  have bh: "block_hashes rid pc = seq_hashes sq" using Some by (simp add: block_hashes_def)
  show ?thesis
  proof (cases "n \<le> num_cached_tokens sq")
    case True
    then have eq: "commit rid n pc = Inr (pc, [])" using Some by (simp add: commit_def)
    show ?thesis
      by (rule that [OF eq inv hashes_added_refl])
        (use True Some in \<open>auto simp: num_committed_tokens_def\<close>)
  next
    case False
    define sqs where "sqs = AList.update rid (sq\<lparr>num_cached_tokens := n\<rparr>) (sequences pc)"
    have seqs: "cache_inv (pc1\<lparr>sequences := sqs\<rparr>)" if "cache_inv pc1" "sequences pc1 = sequences pc" for pc1
      using cache_inv_sequence [OF that(1), of rid "sq\<lparr>num_cached_tokens := n\<rparr>"] Some that(2)
        cache_invD(8) [OF inv Some] by (simp add: sqs_def block_hashes_def)
    have bh': "block_hashes r (pc\<lparr>coord := c, sequences := sqs\<rparr>) = block_hashes r pc" for r c
      using Some by (simp add: block_hashes_def sqs_def dict_simps)
    have d: "dom (map_of sqs) = dom (map_of (sequences pc))"
      using Some by (auto simp: sqs_def dict_simps split: if_splits)
    show ?thesis
    proof (cases "map_of (requests (coord pc)) rid")
      case None
      then have eq: "commit rid n pc = Inr (pc\<lparr>coord := coord pc, sequences := sqs\<rparr>, [])"
        using False Some offloadable_simple [OF cache_invD(2) [OF inv]]
        by (simp add: commit_def cache_blocks_untracked sqs_def)
      have "n = 0" if "n \<le> length (rows_held rid pc) * pc_block_size pc"
        using that None by (simp add: rows_held_eq(2))
      moreover have "hashes_added rid n pc (pc\<lparr>coord := coord pc, sequences := sqs\<rparr>)"
        using bh' [of _ "coord pc"] by (simp add: hashes_added_def rows_held_eq(2))
      ultimately show ?thesis
        using seqs [OF inv refl] d by (intro that [OF eq]) auto
    next
      case st: (Some st)
      obtain c' fr where r: "cache_blocks rid (seq_hashes sq) n (coord pc) = Inr (c', fr)"
        "cache_inv (pc\<lparr>coord := c'\<rparr>)" "hashes_added rid n pc (pc\<lparr>coord := c'\<rparr>)"
        "\<And>i b h. (i, b, h) \<in> set fr \<Longrightarrow> block_hash (pool (coord pc)) b = None \<and>
           (\<exists>j < n div pc_block_size pc. j < length (rows_held rid pc) \<and> j < length (seq_hashes sq) \<and>
               rows_held rid pc ! j = b \<and> seq_hashes sq ! j = h)"
        "\<And>j. \<lbrakk>pc_enable_caching pc; n \<le> length (rows_held rid pc) * pc_block_size pc;
              j < n div pc_block_size pc; j < length (seq_hashes sq)\<rbrakk> \<Longrightarrow>
            block_hash (pool c') (rows_held rid pc ! j) = Some (seq_hashes sq ! j)"
        by (rule cache_blocks_cache_inv [OF inv st bh [symmetric], of n]) (rule that)
      have eq: "commit rid n pc = Inr (pc\<lparr>coord := c', sequences := sqs\<rparr>,
          map (\<lambda>(i, b, k). (b, k)) (filter (\<lambda>(i, b, k). i = 0) fr))"
        using False Some r(1) offloadable_simple [OF cache_invD(2) [OF inv]] by (simp add: commit_def sqs_def)
      have "hashes_added rid n pc (pc\<lparr>coord := c', sequences := sqs\<rparr>)"
        using r(3) bh' by (simp add: hashes_added_def rows_held_eq(2))
      then show ?thesis
        using seqs [OF r(2)] d r(4,5) by (intro that [OF eq]) (auto simp: bh)
    qed
  qed
qed

lemma cache_free_ok:
  assumes inv: "cache_inv pc"
  obtains pc' where "cache_free rid pc = Inr pc'" "cache_inv pc'" "rows_held rid pc' = []"
    "map_of (sequences pc') rid = None"
    "\<And>r. r \<noteq> rid \<Longrightarrow> rows_held r pc' = rows_held r pc \<and> map_of (sequences pc') r = map_of (sequences pc) r"
    "block_hash (pool (coord pc')) = block_hash (pool (coord pc))"
    "\<And>b. b \<noteq> 0 \<Longrightarrow> ref_cnt (pool (coord pc')) b =
       ref_cnt (pool (coord pc)) b - int (count_list (rows_held rid pc) b)"
    "pc_block_size pc' = pc_block_size pc" "hash_seed pc' = hash_seed pc"
    "pc_enable_caching pc' = pc_enable_caching pc"
    "num_blocks (pool (coord pc')) = num_blocks (pool (coord pc))"
proof -
  let ?c = "coord pc"
  note ci = cache_invD(1) [OF inv]
  obtain p where p: "coord_free rid ?c = Inr (?c\<lparr>pool := p, requests := AList.delete rid (requests ?c)\<rparr>)"
    "coord_inv (?c\<lparr>pool := p, requests := AList.delete rid (requests ?c)\<rparr>)"
    "ref_effect (\<lambda>b. - int (osum (\<lambda>st. held_in st b) (map_of (requests ?c) rid))) (pool ?c) p"
    using coord_free_ok [OF ci] by blast
  let ?c' = "?c\<lparr>pool := p, requests := AList.delete rid (requests ?c)\<rparr>"
  let ?pc = "pc\<lparr>coord := ?c', sequences := AList.delete rid (sequences pc)\<rparr>"
  note re = ref_effectD [OF p(3)]
  have en: "enable_caching p = enable_caching (pool ?c)" using re(2) by (simp add: same_geometry_def)
  have "request_ok ?pc r s" if "map_of (requests ?c') r = Some s" for r s
  proof -
    have "map_of (requests ?c) r = Some s" "r \<noteq> rid" using that by (auto simp: dict_simps split: if_splits)
    then show ?thesis
      by (intro request_ok_cong [OF inv]) (simp_all add: re(3) en block_hashes_def dict_simps)
  qed
  moreover have "held (requests ?c') b \<le> held (requests ?c) b" for b
    using held_delete [OF coord_invD(3) [OF ci], of rid b] by simp
  then have "private_ok ?c'"
    using cache_invD(7) [OF inv] unfolding private_ok_def by (auto simp: re(3) intro: order_trans)
  ultimately have "cache_inv ?pc"
    using inv p(2) en re(7) unfolding cache_inv_def simple_cache_def by (auto simp: dict_simps split: if_splits)
  moreover have "osum (\<lambda>st. held_in st b) (map_of (requests ?c) rid) = count_list (rows_held rid pc) b" for b
    by (cases "map_of (requests ?c) rid") (simp_all add: rows_held_eq(2) held_in_def)
  moreover have eq: "cache_free rid pc = Inr ?pc" using p(1) by (simp add: cache_free_def)
  ultimately show ?thesis
    using re(3,4,5) by (intro that [OF eq]) (auto simp: rows_held_eq(2) dict_simps)
qed

lemma cache_reset_ok:
  assumes inv: "cache_inv pc" and r: "cache_reset pc = (pc', ok)"
  shows "cache_inv pc'" "ok \<longleftrightarrow> (\<forall>r. rows_held r pc = [])" "\<not> ok \<Longrightarrow> pc' = pc"
    "ok \<Longrightarrow> block_hash (pool (coord pc')) = (\<lambda>_. None) \<and> sequences pc' = [] \<and> pc_stats pc' = new_stats"
    "\<And>r. rows_held r pc' = rows_held r pc"
proof -
  let ?c = "coord pc" and ?p = "pool (coord pc)"
  note ci = cache_invD(1) [OF inv] and p = coord_invD(1) [OF cache_invD(1) [OF inv]]
  obtain q where q: "reset_prefix_cache ?p = (q, ok)"
    using r by (auto simp: cache_reset_def split: prod.splits if_splits)
  note rs = reset_prefix_cache_ok [OF p q]
  have used: "ok \<longleftrightarrow> (\<forall>r. rows_held r pc = [])"
  proof
    assume ok
    show "\<forall>r. rows_held r pc = []"
    proof (rule allI, rule ccontr)
      fix r assume "rows_held r pc \<noteq> []"
      moreover from this obtain b where "b \<in> set (rows_held r pc)" by (cases "rows_held r pc") auto
      ultimately obtain b st where b: "b \<in> set (rows_held r pc)" "map_of (requests ?c) r = Some st"
        by (cases "map_of (requests ?c) r") (auto simp: rows_held_eq(2))
      then have bs: "b \<in> set (concat (per_group st))" by (simp add: rows_held_eq(2))
      obtain bl where "per_group st = [bl]" using one_group [OF inv coord_invD(5) [OF ci b(2)]] by blast
      then have "b \<noteq> 0" using cache_invD(6) [OF inv b(2)] bs
        by (cases "b = 0") (auto simp: request_ok_def chain_ok_def)
      moreover have "b < num_blocks ?p" using coord_invD(5) [OF ci b(2)] bs by (auto simp: state_ok_def)
      ultimately show False using held_chain [OF ci b(2) bs] rs(2) \<open>ok\<close> by simp
    qed
  next
    assume none: "\<forall>r. rows_held r pc = []"
    have "held_in st b = 0" if "(r, st) \<in> set (requests ?c)" for r st b
      using that none [rule_format, of r] map_of_is_SomeI [OF coord_invD(3) [OF ci] that]
      unfolding rows_held_eq(2) held_in_def by (simp del: concat_eq_Nil_conv)
    then have "held (requests ?c) b = 0" for b
      using dsum_pos [of "\<lambda>st. held_in st b" "requests ?c"] by (force simp: held_def)
    then show ok using rs(2) coord_invD(6) [OF ci] by simp
  qed
  then show "ok \<longleftrightarrow> (\<forall>r. rows_held r pc = [])" .
  show same: "\<not> ok \<Longrightarrow> pc' = pc"
    using r q rs(4) by (auto simp: cache_reset_def)
  have pc': "pc' = pc\<lparr>coord := ?c\<lparr>pool := q\<rparr>, sequences := [], pc_stats := new_stats,
      eviction_base := evictions q\<rparr>" if ok
    using that r q by (simp add: cache_reset_def)
  then show "ok \<Longrightarrow> block_hash (pool (coord pc')) = (\<lambda>_. None) \<and> sequences pc' = [] \<and> pc_stats pc' = new_stats"
    using rs(3) by simp
  show rows: "rows_held r pc' = rows_held r pc" for r
    using pc' same by (cases ok) (simp_all add: rows_held_eq(2))
  show "cache_inv pc'"
  proof (cases ok)
    case True
    have c': "coord_inv (?c\<lparr>pool := q\<rparr>)"
      using ci rs(1,3,5) True unfolding coord_inv_def state_ok_def by (simp add: same_geometry_def)
    have "ref_cnt ?p b = 0" if "b \<noteq> 0" for b
      using rs(2) True p that by (cases "b < num_blocks ?p") (simp_all add: pool_inv_def)
    then have "held (requests ?c) b = 0" if "b \<noteq> 0" for b
      using coord_invD(6) [OF ci that] that by simp
    then have "private_ok (?c\<lparr>pool := q\<rparr>)" by (simp add: private_ok_def)
    moreover have "request_ok pc' r' st" if m: "map_of (requests ?c) r' = Some st" for r' st
    proof -
      obtain bl k where bl: "per_group st = [bl]" "num_cached st = [k]" "k \<le> length bl"
        using one_group [OF inv coord_invD(5) [OF ci m]] by blast
      then have "bl = []" using used True m by (auto simp: rows_held_eq(2) split: option.splits)
      with bl show ?thesis by (simp add: request_ok_def chain_ok_def head_indexed_def)
    qed
    ultimately show ?thesis
      using inv c' rs(5,6) pc' [OF True] unfolding cache_inv_def simple_cache_def
      by (simp add: same_geometry_def)
  qed (use same inv in simp)
qed


section \<open>Block-table writes\<close>

lemma take_table_writes_ok:
  assumes inv: "cache_inv pc"
  obtains pc' ws where "take_table_writes rid pc = Inr (pc', ws)" "cache_inv pc'" "coord pc' = coord pc"
    "\<And>r. block_hashes r pc' = block_hashes r pc" "dom (map_of (sequences pc')) = dom (map_of (sequences pc))"
    "pc_block_size pc' = pc_block_size pc" "hash_seed pc' = hash_seed pc"
    "pc_enable_caching pc' = pc_enable_caching pc"
proof (cases "map_of (sequences pc) rid")
  case None
  then show ?thesis using inv by (intro that [of pc "[]"]) (simp_all add: take_table_writes_def)
next
  case (Some sq)
  obtain g where g: "config_groups (config pc) = [g]"
    using simple_cacheD [OF cache_invD(2) [OF inv]] by metis
  obtain m where m: "(if num_mapped_blocks sq = [] then replicate (length [g]) 0 else num_mapped_blocks sq) = [m]"
    using cache_invD(8) [OF inv Some] by (cases "num_mapped_blocks sq") auto
  have held: "held_blocks rid (coord pc) = [rows_held rid pc]"
    using rows_held_eq(1) [OF inv, of rid] by (simp add: block_ids_def coord_block_ids_def)
  let ?n = "max m (length (rows_held rid pc))"
  let ?sq = "sq\<lparr>num_mapped_blocks := [?n]\<rparr>"
  obtain ws where eq: "take_table_writes rid pc =
      Inr (pc\<lparr>sequences := AList.update rid ?sq (sequences pc)\<rparr>, ws)"
    using Some m by (cases "m < length (rows_held rid pc)")
      (auto simp: take_table_writes_def g held Let_def max_def)
  show ?thesis
    using cache_inv_sequence [OF inv, of rid ?sq] Some
    by (intro that [OF eq]) (auto simp: block_hashes_def dict_simps split: if_splits)
qed

section \<open>Consequences\<close>

lemma shared_block_position:
  assumes inv: "cache_inv pc" and ne: "r \<noteq> r'"
    and i: "i < length (rows_held r pc)" and j: "j < length (rows_held r' pc)"
    and eq: "rows_held r pc ! i = rows_held r' pc ! j"
  shows "i < length (block_hashes r pc) \<and> j < length (block_hashes r' pc) \<and>
    block_hashes r pc ! i = block_hashes r' pc ! j"
proof -
  let ?b = "rows_held r pc ! i" and ?c = "coord pc"
  note ci = cache_invD(1) [OF inv]
  obtain st st' where m: "map_of (requests ?c) r = Some st" "map_of (requests ?c) r' = Some st'"
    using i j unfolding rows_held_eq(2) by (auto split: option.splits)
  then have rows: "rows_held r pc = concat (per_group st)" "rows_held r' pc = concat (per_group st')"
    by (simp_all add: rows_held_eq(2))
  have "0 < held_in st ?b" "0 < held_in st' ?b"
    unfolding held_in_def count_list_pos_iff rows [symmetric] using i j eq by (metis nth_mem)+
  then have "\<not> held (requests ?c) ?b \<le> 1"
    using held_two [OF coord_invD(3) [OF ci] m ne, of ?b] by linarith
  moreover obtain bl bl' where bl: "per_group st = [bl]" "per_group st' = [bl']"
    using one_group [OF inv coord_invD(5) [OF ci m(1)]] one_group [OF inv coord_invD(5) [OF ci m(2)]] by blast
  moreover have chain: "chain_ok (pool ?c) (block_hashes r pc) (rows_held r pc)"
    "chain_ok (pool ?c) (block_hashes r' pc) (rows_held r' pc)"
    using cache_invD(6) [OF inv m(1)] cache_invD(6) [OF inv m(2)] bl rows by (simp_all add: request_ok_def)
  moreover have "?b \<noteq> 0" using chain(1) i by (metis chain_ok_def nth_mem)
  ultimately obtain h where "block_hash (pool ?c) ?b = Some h"
    using cache_invD(7) [OF inv] unfolding private_ok_def by (cases "block_hash (pool ?c) ?b") auto
  then show ?thesis
    using chain i j eq unfolding chain_ok_def by metis
qed

section \<open>Properties\<close>

text \<open>A cache in use, for the concrete instances: one request of five tokens, hashed and given its blocks.\<close>

lemma sample_cache:
  obtains pc where "cache_inv pc" "pc_block_size pc = 2" "pc_enable_caching pc" "3 \<le> length (rows_held ''a'' pc)"
    "length (block_hashes ''a'' pc) = 2" "num_committed_tokens ''a'' pc = 0" "rows_held ''b'' pc = []"
proof -
  let ?ts = "[5, 6, 7, 8, 9] :: int list"
  obtain pc where pc: "cache_init 6 2 None 0 True = Inr pc" "cache_inv pc" "requests (coord pc) = []" "sequences pc = []"
    "pc_block_size pc = 2" "hash_seed pc = 0" "pc_enable_caching pc" "free_list (pool (coord pc)) = [1..<6]"
    using cache_init_ok [of 6 2 0 True] by auto
  have D: "digest8 sample_digest" "tokens_ok ?ts" by (simp_all add: digest8_def sample_digest_def tokens_ok_def)
  obtain hs where hs: "hash_tokens sample_digest pc ?ts = Inr hs" "length hs = 2"
    by (rule iter_block_hashes_ok [OF D(1) _ D(2), of 2 0]) (simp_all add: hash_tokens_def pc)
  let ?sq = "\<lparr>seq_hashes = hs, num_cached_tokens = 0, num_mapped_blocks = []\<rparr>"
  let ?pc1 = "pc\<lparr>sequences := AList.update ''a'' ?sq (sequences pc)\<rparr>"
  have t: "track sample_digest ''a'' ?ts pc = Inr (?pc1, hs)" using hs pc(4) by (simp add: track_def)
  have inv: "cache_inv ?pc1" by (rule track_ok(1) [OF pc(2) t])
  have none: "rows_held r ?pc1 = []" for r using pc(3) by (simp add: rows_held_eq(2))
  have "missing_blocks ?pc1 5 [] = 3" using pc(5) by (simp add: missing_blocks_def)
  then obtain pc2 where a: "allocate ''a'' 5 None ?pc1 = Inr (pc2, True)" "grown ''a'' 5 [] ?pc1 pc2"
    using allocate_plain(1) [OF inv, of 5 "''a''"] none pc(8) by auto
  have p2: "pc2 = ?pc1\<lparr>coord := coord pc2\<rparr>" "cache_inv pc2" "5 \<le> length (rows_held ''a'' pc2) * 2" "rows_held ''b'' pc2 = []"
    using a(2) none [of "''b''"] pc(5) unfolding grown_def by auto
  have f: "pc_block_size pc2 = 2" "pc_enable_caching pc2" "sequences pc2 = [(''a'', ?sq)]"
    using pc(4,5,7) by (subst p2(1), simp)+
  show ?thesis
    by (rule that [OF p2(2) f(1,2)])
      (use p2(3,4) f(3) hs(2) in \<open>simp_all add: block_hashes_def num_committed_tokens_def\<close>)
qed

text \<open>A cache that two requests share: the computed blocks of the first are committed, and the second, whose first four
  tokens are the same, is hashed and looks its prefix up.\<close>

definition spread_digest :: "bytes \<Rightarrow> bytes" where
  "spread_digest m = [foldl (\<lambda>a b. (3 * a + b) mod 251) 0 m, 1, 0, 0, 0, 0, 0, 0]"

definition shared_cache :: "(prefix_cache \<times> bhash list) res" where
  "shared_cache =
     rbind (cache_init 8 2 None 0 True) (\<lambda>pc0.
     rbind (track spread_digest ''a'' [5, 6, 7, 8, 9] pc0) (\<lambda>(pc1, _).
     rbind (allocate ''a'' 5 None pc1) (\<lambda>(pc2, _).
     rbind (commit ''a'' 4 pc2) (\<lambda>(pc3, _). track spread_digest ''b'' [5, 6, 7, 8, 3, 4] pc3))))"

lemma allocate_plain_inv:
  assumes "cache_inv pc" "allocate rid n None pc = Inr (pc', ok)"
  shows "cache_inv pc'"
proof (cases "missing_blocks pc n (rows_held rid pc) \<le> length (free_list (pool (coord pc)))")
  case True
  then show ?thesis using allocate_plain(1) [OF assms(1) True] assms(2) by (auto simp: grown_def)
next
  case False
  then show ?thesis using allocate_plain(2) [OF assms(1), of n rid] assms(2) by (auto simp: unchanged_ledger_def not_le)
qed

lemma shared_state:
  obtains pc hs where "shared_cache = Inr (pc, hs)" "cache_inv pc" "block_hashes ''b'' pc = hs" "length hs = 3"
    "rows_held ''a'' pc = [1, 2, 3]" "rows_held ''b'' pc = []"
proof -
  have r: "case shared_cache of Inl e \<Rightarrow> False | Inr (pc, hs) \<Rightarrow>
      length hs = 3 \<and> rows_held ''a'' pc = [1, 2, 3] \<and> rows_held ''b'' pc = []" by code_simp
  then obtain pc hs where p: "shared_cache = Inr (pc, hs)" "length hs = 3" "rows_held ''a'' pc = [1, 2, 3]" "rows_held ''b'' pc = []"
    by (cases shared_cache) (auto split: sum.splits prod.splits)
  obtain pc0 pc1 hs1 pc2 ok pc3 out where s: "cache_init 8 2 None 0 True = Inr pc0"
    "track spread_digest ''a'' [5, 6, 7, 8, 9] pc0 = Inr (pc1, hs1)" "allocate ''a'' 5 None pc1 = Inr (pc2, ok)"
    "commit ''a'' 4 pc2 = Inr (pc3, out)" "track spread_digest ''b'' [5, 6, 7, 8, 3, 4] pc3 = Inr (pc, hs)"
    using p(1) unfolding shared_cache_def by auto
  have "cache_inv pc0" using cache_init_ok [of 8 2 0 True] s(1) by auto
  then have "cache_inv pc2" using allocate_plain_inv [OF track_ok(1) [OF _ s(2)] s(3)] by blast
  moreover obtain pc3' out' where "commit ''a'' 4 pc2 = Inr (pc3', out')" "cache_inv pc3'"
    by (rule commit_ok [OF \<open>cache_inv pc2\<close>, of "''a''" 4]) (rule that)
  ultimately have "cache_inv pc3" using s(4) by simp
  then show ?thesis using that p track_ok(1,2) [OF _ s(5)] by blast
qed

text \<open>C16: a lookup is sound and maximal. It returns a whole number of blocks and never the last token; every
  returned block carries the hash of its position; and when it stops short of both the hashes and the token
  ceiling, no block of the pool carries the next hash.\<close>

theorem lookup_sound_maximal:
  assumes "cache_inv pc"
  shows "\<exists>pc' m bl. lookup hs n pc = Inr (pc', m) \<and> cache_inv pc' \<and> coord pc' = coord pc \<and>
    match_blocks m = [bl] \<and> match_tokens m = length bl * pc_block_size pc \<and> match_tokens m \<le> n - 1 \<and>
    length bl \<le> length hs \<and> (\<forall>j < length bl. block_hash (pool (coord pc)) (bl ! j) = Some (hs ! j)) \<and>
    (pc_enable_caching pc \<and> length bl < length hs \<and> match_tokens m + pc_block_size pc \<le> n - 1 \<longrightarrow>
       (\<forall>b. block_hash (pool (coord pc)) b \<noteq> Some (hs ! length bl)))"
proof -
  obtain pc' m where l: "lookup hs n pc = Inr (pc', m)" "coord pc' = coord pc" "pc_block_size pc' = pc_block_size pc"
    "cache_inv pc'" "match_ok pc' hs m" "match_tokens m \<le> n - 1"
    "\<lbrakk>pc_enable_caching pc; match_tokens m div pc_block_size pc < length hs;
      match_tokens m + pc_block_size pc \<le> n - 1\<rbrakk> \<Longrightarrow>
      (\<forall>b. block_hash (pool (coord pc)) b \<noteq> Some (hs ! (match_tokens m div pc_block_size pc)))"
    by (rule lookup_ok [OF assms, of hs n]) (rule that)
  obtain bl where bl: "match_blocks m = [bl]" "match_tokens m = length bl * pc_block_size pc" "length bl \<le> length hs"
    "\<forall>j < length bl. block_hash (pool (coord pc)) (bl ! j) = Some (hs ! j)"
    using l(2,3,5) unfolding match_ok_def by auto
  have "match_tokens m div pc_block_size pc = length bl" using bl(2) assms by (simp add: cache_inv_def simple_cache_def)
  then show ?thesis using l bl by auto
qed

theorem lookup_sound_maximal_witness:
  "\<exists>pc hs pc' m. shared_cache = Inr (pc, hs) \<and> lookup hs 6 pc = Inr (pc', m) \<and> match_blocks m = [[1, 2]] \<and>
     match_tokens m = 4 \<and> block_hash (pool (coord pc)) 2 = Some (hs ! 1)"
proof -
  obtain pc hs where pc: "shared_cache = Inr (pc, hs)" "cache_inv pc" by (rule shared_state)
  have "case shared_cache of Inl e \<Rightarrow> False | Inr (pc, hs) \<Rightarrow>
      (case lookup hs 6 pc of Inl e \<Rightarrow> False | Inr (_, m) \<Rightarrow> m = \<lparr>match_tokens = 4, match_blocks = [[1, 2]]\<rparr>)" by code_simp
  then have v: "case lookup hs 6 pc of Inl e \<Rightarrow> False | Inr (_, m) \<Rightarrow> m = \<lparr>match_tokens = 4, match_blocks = [[1, 2]]\<rparr>"
    unfolding pc(1) by simp
  obtain pc' m bl where l: "lookup hs 6 pc = Inr (pc', m)" "match_blocks m = [bl]"
    "\<forall>j < length bl. block_hash (pool (coord pc)) (bl ! j) = Some (hs ! j)"
    using lookup_sound_maximal [OF pc(2), of hs 6] by blast
  have m: "m = \<lparr>match_tokens = 4, match_blocks = [[1, 2]]\<rparr>" using v unfolding l(1) by simp
  then have "block_hash (pool (coord pc)) 2 = Some (hs ! 1)" using l(2,3) by auto
  then show ?thesis using pc(1) l(1) m by (intro exI [of _ pc] exI [of _ hs] exI [of _ pc'] exI [of _ m]) simp
qed

text \<open>C15: what is committed is found again. After the computed tokens of a request are committed, a lookup of
  its hash chain, by any later request with at least as many tokens, hits at least every committed full
  block that lies before that request's last token.\<close>

theorem commit_then_lookup:
  assumes "cache_inv pc" "pc_enable_caching pc" "num_committed_tokens rid pc < n"
    "n \<le> length (rows_held rid pc) * pc_block_size pc" "n div pc_block_size pc \<le> length (block_hashes rid pc)"
  shows "\<exists>pc1 out pc2 m. commit rid n pc = Inr (pc1, out) \<and> cache_inv pc1 \<and>
    lookup (block_hashes rid pc) k pc1 = Inr (pc2, m) \<and>
    min (n div pc_block_size pc) ((k - 1) div pc_block_size pc) * pc_block_size pc \<le> match_tokens m"
proof -
  let ?bs = "pc_block_size pc" and ?hs = "block_hashes rid pc"
  have b: "0 < ?bs" using assms(1) by (simp add: cache_inv_def simple_cache_def)
  obtain pc1 out where c: "commit rid n pc = Inr (pc1, out)" "cache_inv pc1" "pc_block_size pc1 = ?bs"
    "pc_enable_caching pc1 = pc_enable_caching pc"
    "\<And>j. \<lbrakk>pc_enable_caching pc; num_committed_tokens rid pc < n; n \<le> length (rows_held rid pc) * ?bs;
        j < n div ?bs; j < length ?hs\<rbrakk> \<Longrightarrow> block_hash (pool (coord pc1)) (rows_held rid pc ! j) = Some (?hs ! j)"
    by (rule commit_ok [OF assms(1), of rid n]) (rule that)
  have found: "\<exists>x. block_hash (pool (coord pc1)) x = Some (?hs ! j)" if "j < n div ?bs" for j
    using c(5) [of j] assms(2-5) that by auto
  obtain pc2 m where l: "lookup ?hs k pc1 = Inr (pc2, m)" "coord pc2 = coord pc1" "pc_block_size pc2 = pc_block_size pc1"
    "match_ok pc2 ?hs m"
    "\<lbrakk>pc_enable_caching pc1; match_tokens m div pc_block_size pc1 < length ?hs;
      match_tokens m + pc_block_size pc1 \<le> k - 1\<rbrakk> \<Longrightarrow>
      (\<forall>x. block_hash (pool (coord pc1)) x \<noteq> Some (?hs ! (match_tokens m div pc_block_size pc1)))"
    by (rule lookup_ok [OF c(2), of ?hs k]) (rule that)
  obtain t where t: "match_tokens m = t * ?bs" using l(3,4) c(3) unfolding match_ok_def by auto
  have "min (n div ?bs) ((k - 1) div ?bs) \<le> t"
  proof (rule ccontr)
    assume "\<not> ?thesis"
    then have t1: "t < n div ?bs" "Suc t \<le> (k - 1) div ?bs" by simp_all
    then have "Suc t * ?bs \<le> k - 1" using b by (metis less_eq_div_iff_mult_less_eq)
    then show False using l(5) found [OF t1(1)] t t1(1) b assms(2,5) c(3,4) by auto
  qed
  then show ?thesis using c(1,2) l(1) t by (metis mult_le_mono1)
qed

theorem commit_then_lookup_witness:
  "\<exists>pc pc1 out pc2 m. cache_inv pc \<and> commit ''a'' 4 pc = Inr (pc1, out) \<and>
     lookup (block_hashes ''a'' pc) 5 pc1 = Inr (pc2, m) \<and> 4 \<le> match_tokens m"
proof -
  obtain pc where pc: "cache_inv pc" "pc_block_size pc = 2" "pc_enable_caching pc" "3 \<le> length (rows_held ''a'' pc)"
    "length (block_hashes ''a'' pc) = 2" "num_committed_tokens ''a'' pc = 0" by (rule sample_cache)
  then show ?thesis using commit_then_lookup [OF pc(1,3), of "''a''" 4 5] by auto
qed

text \<open>C17: admission with a prefix hit is all or nothing. For a request that holds nothing and a match of its own
  chain, if the free blocks that are not part of the match suffice, the request holds exactly the matched
  blocks followed by fresh ones that nobody held, enough for its tokens. Otherwise the call reports failure,
  and no holding, reference count or hash has changed: the touched prefix is given back.\<close>

theorem allocate_with_match:
  assumes "cache_inv pc" "match_ok pc (block_hashes rid pc) m" "match_blocks m = [bl]" "rows_held rid pc = []"
  shows "if missing_blocks pc n bl \<le> length (available (coord pc) [bl])
    then \<exists>pc'. allocate rid n (Some m) pc = Inr (pc', True) \<and> grown rid n bl pc pc'
    else \<exists>pc'. allocate rid n (Some m) pc = Inr (pc', False) \<and> unchanged_ledger pc pc'"
  using allocate_adopt [OF assms, of n] by (simp add: not_le)

theorem allocate_with_match_witness:
  "\<exists>pc hs pc1 m pc2. shared_cache = Inr (pc, hs) \<and> lookup hs 6 pc = Inr (pc1, m) \<and> match_blocks m = [[1, 2]] \<and>
     rows_held ''a'' pc1 = [1, 2, 3] \<and> allocate ''b'' 6 (Some m) pc1 = Inr (pc2, True) \<and> grown ''b'' 6 [1, 2] pc1 pc2 \<and>
     rows_held ''b'' pc2 = [1, 2, 4]"
proof -
  obtain pc hs where pc: "shared_cache = Inr (pc, hs)" "cache_inv pc" "block_hashes ''b'' pc = hs" "rows_held ''a'' pc = [1, 2, 3]"
    "rows_held ''b'' pc = []" by (rule shared_state)
  obtain pc1 m where l: "lookup hs 6 pc = Inr (pc1, m)" "coord pc1 = coord pc" "sequences pc1 = sequences pc" "cache_inv pc1"
    "match_ok pc1 hs m" by (rule lookup_ok [OF pc(2), of hs 6]) (rule that)
  have h: "block_hashes ''b'' pc1 = hs" "rows_held ''a'' pc1 = [1, 2, 3]" "rows_held ''b'' pc1 = []"
    using pc(3-5) l(2,3) by (simp_all add: block_hashes_def rows_held_eq(2))
  have "case shared_cache of Inl e \<Rightarrow> False | Inr (pc, hs) \<Rightarrow> (case lookup hs 6 pc of Inl e \<Rightarrow> False | Inr (pc1, m) \<Rightarrow>
      match_blocks m = [[1, 2]] \<and> (case allocate ''b'' 6 (Some m) pc1 of Inl e \<Rightarrow> False | Inr (pc2, ok) \<Rightarrow>
        ok \<and> rows_held ''b'' pc2 = [1, 2, 4]))" by code_simp
  then have v: "match_blocks m = [[1, 2]] \<and> (case allocate ''b'' 6 (Some m) pc1 of Inl e \<Rightarrow> False | Inr (pc2, ok) \<Rightarrow>
        ok \<and> rows_held ''b'' pc2 = [1, 2, 4])"
    unfolding pc(1) sum.case prod.case l(1) .
  then obtain pc2 where a: "match_blocks m = [[1, 2]]" "allocate ''b'' 6 (Some m) pc1 = Inr (pc2, True)" "rows_held ''b'' pc2 = [1, 2, 4]"
    by (cases "allocate ''b'' 6 (Some m) pc1") (auto split: prod.splits)
  have "grown ''b'' 6 [1, 2] pc1 pc2"
    using allocate_with_match [of pc1 "''b''" m "[1, 2]" 6] l(4,5) h a(1,2) by (simp split: if_splits)
  then show ?thesis using pc(1) l(1) h(2) a by blast
qed

text \<open>A reset of the cache succeeds exactly when no request holds a block. Then no block carries a hash, no
  sequence is tracked and the statistics are new; otherwise nothing changes.\<close>

lemma cache_reset_exact:
  assumes "cache_inv pc"
  shows "\<exists>pc' ok. cache_reset pc = (pc', ok) \<and> cache_inv pc' \<and> (ok \<longleftrightarrow> (\<forall>r. rows_held r pc = [])) \<and>
    (if ok then (\<forall>b. block_hash (pool (coord pc')) b = None) \<and> sequences pc' = [] \<and> pc_stats pc' = new_stats
     else pc' = pc)"
proof -
  obtain pc' ok where r: "cache_reset pc = (pc', ok)" by fastforce
  then show ?thesis using cache_reset_ok [OF assms r] by auto
qed

end
