(* ===== verification/KV_Offload.thy ===== *)
theory KV_Offload
  imports Block_Pool "HOL-Library.Multiset"
begin

text \<open>
  The CPU primary tier (\<^verbatim>\<open>src/rapid_llm/engine/kv_offload/cpu.py\<close>) and the vocabulary of
  \<^verbatim>\<open>kv_offload/base.py\<close>: KV blocks mirrored into a second block pool on the host, moved by an
  asynchronous copier.

  The copier is code outside the engine package; it is a parameter of the operations that use it:
  \<open>submit moves is_store\<close> is the event handle \<^verbatim>\<open>copier.submit\<close> returns (\<open>None\<close> for an already finished
  move), and \<open>query\<close> answers \<^verbatim>\<open>event.query()\<close>. Both are arbitrary functions and may differ from call to
  call. \<^verbatim>\<open>TieringOffloadingManager\<close> (\<^verbatim>\<open>kv_offload/tiering.py\<close>) forwards every call to this tier.

  \<open>tier_inv\<close> ties the reference counts of the CPU pool to the transfers in flight: a block is referenced
  exactly by the pending transfers that move it, a block being stored carries no hash yet, a block being
  loaded is pinned under its key, and a key is resident at most once.
\<close>

section \<open>Vocabulary\<close>

datatype lookup_result = MISS | HIT | HIT_PENDING | RETRY

datatype transfer_kind = Store | Load

record copy_run =
  gpu_block :: nat
  cpu_block :: nat

record load_spec =
  ls_cpu_blocks :: "nat list"
  ls_gpu_blocks :: "nat list"
  ls_keys :: "bhash list"

definition load_moves :: "load_spec \<Rightarrow> copy_run list res" where
  "load_moves s =
     (if length (ls_gpu_blocks s) \<noteq> length (ls_cpu_blocks s) then Inl ValueError
      else Inr (map2 (\<lambda>g c. \<lparr>gpu_block = g, cpu_block = c\<rparr>) (ls_gpu_blocks s) (ls_cpu_blocks s)))"

record store_spec =
  ss_moves :: "copy_run list"
  ss_keys :: "bhash list"
  ss_evicted :: "bhash list"

definition no_store :: store_spec where
  "no_store = \<lparr>ss_moves = [], ss_keys = [], ss_evicted = []\<rparr>"

record offload_event =
  ev_kind :: transfer_kind
  ev_keys :: "bhash list"
  ev_cpu_blocks :: "nat list"
  ev_gpu_blocks :: "nat list"

record offload_stats =
  os_lookups :: nat
  os_hits :: nat
  os_stores :: nat
  os_loads :: nat
  os_store_bytes :: nat
  os_load_bytes :: nat
  os_evictions :: nat

definition misses :: "offload_stats \<Rightarrow> int" where
  "misses s = int (os_lookups s) - int (os_hits s)"

type_synonym event = nat

record transfer =
  t_kind :: transfer_kind
  t_keys :: "bhash list"
  t_cpu_blocks :: "nat list"
  t_gpu_blocks :: "nat list"
  t_event :: "event option"
  t_moves :: "copy_run list"

record tier =
  tpool :: block_pool
  tier_block_size :: nat
  bytes_per_block :: nat
  pending :: "transfer list"
  inflight_stores :: "(bhash, transfer) dict"
  pinned_cached :: int
  tstats :: offload_stats

section \<open>Operations of the CPU tier\<close>

definition tier_init :: "int \<Rightarrow> int \<Rightarrow> nat \<Rightarrow> tier res" where
  "tier_init num bs bpb =
     (if num < 2 then Inl ValueError
      else rbind (pool_init num bs True) (\<lambda>p.
        Inr \<lparr>tpool = p, tier_block_size = nat bs, bytes_per_block = bpb, pending = [], inflight_stores = [],
             pinned_cached = 0,
             tstats = \<lparr>os_lookups = 0, os_hits = 0, os_stores = 0, os_loads = 0, os_store_bytes = 0,
                       os_load_bytes = 0, os_evictions = 0\<rparr>\<rparr>))"

definition tier_lookup :: "bhash \<Rightarrow> tier \<Rightarrow> tier \<times> lookup_result" where
  "tier_lookup key t =
     (let s = (tstats t)\<lparr>os_lookups := os_lookups (tstats t) + 1\<rparr>
      in case get_cached_block (tpool t) key of
           None \<Rightarrow> (t\<lparr>tstats := s\<rparr>, MISS)
         | Some b \<Rightarrow> (t\<lparr>tstats := s\<lparr>os_hits := os_hits s + 1\<rparr>\<rparr>, HIT))"

definition touch_key :: "bhash \<Rightarrow> block_pool \<Rightarrow> block_pool res" where
  "touch_key key p =
     (case get_cached_block p key of
        None \<Rightarrow> Inr p
      | Some b \<Rightarrow>
          if 0 < ref_cnt p b then Inr p
          else rbind (fq_remove b (free_block_queue p)) (\<lambda>q.
               rbind (fq_append b q) (\<lambda>q'. Inr (p\<lparr>free_block_queue := q'\<rparr>))))"

definition tier_touch :: "bhash list \<Rightarrow> tier \<Rightarrow> tier res" where
  "tier_touch keys t = rbind (rfold touch_key keys (tpool t)) (\<lambda>p. Inr (t\<lparr>tpool := p\<rparr>))"

text \<open>The loop that looks every key up, giving up at the first that is gone.\<close>

primrec resident_blocks :: "block_pool \<Rightarrow> bhash list \<Rightarrow> nat list option" where
  "resident_blocks p [] = Some []"
| "resident_blocks p (k # ks) =
     (case get_cached_block p k of None \<Rightarrow> None
      | Some b \<Rightarrow> map_option (\<lambda>bs. b # bs) (resident_blocks p ks))"

definition prepare_load ::
  "(copy_run list \<Rightarrow> bool \<Rightarrow> event option) \<Rightarrow> bhash list \<Rightarrow> nat list \<Rightarrow> tier \<Rightarrow>
     (tier \<times> load_spec option) res" where
  "prepare_load submit keys gpu_blocks t =
     (if length keys \<noteq> length gpu_blocks then Inl ValueError
      else case resident_blocks (tpool t) keys of
             None \<Rightarrow> Inr (t, None)
           | Some blocks \<Rightarrow>
               rbind (touch blocks (tpool t)) (\<lambda>p.
                 let moves = map2 (\<lambda>b g. \<lparr>gpu_block = g, cpu_block = b\<rparr>) blocks gpu_blocks;
                     tr = \<lparr>t_kind = Load, t_keys = keys, t_cpu_blocks = map cpu_block moves,
                           t_gpu_blocks = gpu_blocks, t_event = submit moves False, t_moves = moves\<rparr>
                 in Inr (t\<lparr>tpool := p, pinned_cached := pinned_cached t + int (length blocks),
                           pending := pending t @ [tr]\<rparr>,
                         Some \<lparr>ls_cpu_blocks = map cpu_block moves, ls_gpu_blocks = gpu_blocks,
                               ls_keys = keys\<rparr>)))"

text \<open>\<^verbatim>\<open>_pop_pending\<close>: the first pending transfer of that kind and those keys, and the rest.\<close>

primrec pop_pending ::
  "transfer_kind \<Rightarrow> bhash list \<Rightarrow> transfer list \<Rightarrow> (transfer \<times> transfer list) option" where
  "pop_pending kind keys [] = None"
| "pop_pending kind keys (tr # trs) =
     (if t_kind tr = kind \<and> t_keys tr = keys then Some (tr, trs)
      else map_option (\<lambda>(x, rest). (x, tr # rest)) (pop_pending kind keys trs))"

definition complete_load :: "bhash list \<Rightarrow> tier \<Rightarrow> tier res" where
  "complete_load keys t =
     (case pop_pending Load keys (pending t) of
        None \<Rightarrow> Inr t
      | Some (tr, rest) \<Rightarrow>
          rbind (free_blocks (t_cpu_blocks tr) (tpool t)) (\<lambda>p.
            Inr (t\<lparr>tpool := p, pending := rest,
                   pinned_cached := pinned_cached t - int (length (t_cpu_blocks tr)),
                   tstats := (tstats t)\<lparr>os_loads := os_loads (tstats t) + length (t_keys tr),
                     os_load_bytes := os_load_bytes (tstats t) + length (t_keys tr) * bytes_per_block t\<rparr>\<rparr>)))"

definition prepare_store ::
  "(copy_run list \<Rightarrow> bool \<Rightarrow> event option) \<Rightarrow> (nat \<times> bhash) list \<Rightarrow> tier \<Rightarrow> (tier \<times> store_spec) res" where
  "prepare_store submit entries t =
     (let fresh = filter (\<lambda>(g, k). \<not> (map_of (inflight_stores t) k \<noteq> None \<or>
                                      get_cached_block (tpool t) k \<noteq> None)) entries
      in if fresh = [] then Inr (t, no_store)
         else let cached_free = int (num_cached_blocks (tpool t)) - pinned_cached t;
                  hash_less_free = num_free_blocks (tpool t) - cached_free;
                  snapshot = (if int (length fresh) > hash_less_free
                              then Some (map fst (cached_blocks (tpool t))) else None)
              in rbind (get_new_blocks (int (length fresh)) (tpool t)) (\<lambda>(p, blocks).
                   case blocks of
                     None \<Rightarrow> Inr (t\<lparr>tpool := p\<rparr>, no_store)
                   | Some bs \<Rightarrow>
                       let evicted = (case snapshot of None \<Rightarrow> []
                                      | Some ks \<Rightarrow> filter (\<lambda>k. k \<notin> set (map fst (cached_blocks p))) ks);
                           moves = map2 (\<lambda>(g, k) b. \<lparr>gpu_block = g, cpu_block = b\<rparr>) fresh bs;
                           keys = map snd fresh;
                           tr = \<lparr>t_kind = Store, t_keys = keys, t_cpu_blocks = map cpu_block moves,
                                 t_gpu_blocks = map fst fresh, t_event = submit moves True, t_moves = moves\<rparr>
                       in Inr (t\<lparr>tpool := p, pending := pending t @ [tr],
                                 inflight_stores := fold (\<lambda>k. AList.update k tr) keys (inflight_stores t)\<rparr>,
                               \<lparr>ss_moves = moves, ss_keys = keys, ss_evicted = evicted\<rparr>)))"

definition store_landed ::
  "bhash \<times> nat \<Rightarrow> block_pool \<times> (bhash, transfer) dict \<Rightarrow> (block_pool \<times> (bhash, transfer) dict) res" where
  "store_landed kb s =
     (case kb of (k, b) \<Rightarrow> case s of (p, infl) \<Rightarrow>
        rbind (cache_full_blocks [b] [k] p) (\<lambda>p1.
        rbind (free_blocks [b] p1) (\<lambda>p2. Inr (p2, AList.delete k infl))))"

definition complete_store :: "bhash list \<Rightarrow> tier \<Rightarrow> tier res" where
  "complete_store keys t =
     (case pop_pending Store keys (pending t) of
        None \<Rightarrow> Inr t
      | Some (tr, rest) \<Rightarrow>
          if length (t_keys tr) \<noteq> length (t_cpu_blocks tr) then Inl ValueError
          else rbind (rfold store_landed (zip (t_keys tr) (t_cpu_blocks tr)) (tpool t, inflight_stores t))
            (\<lambda>(p, infl).
              Inr (t\<lparr>tpool := p, inflight_stores := infl, pending := rest,
                     tstats := (tstats t)\<lparr>os_stores := os_stores (tstats t) + length (t_keys tr),
                       os_store_bytes := os_store_bytes (tstats t) + length (t_keys tr) * bytes_per_block t\<rparr>\<rparr>)))"

definition is_done :: "(event \<Rightarrow> bool) \<Rightarrow> transfer \<Rightarrow> bool" where
  "is_done query tr = (case t_event tr of None \<Rightarrow> True | Some e \<Rightarrow> query e)"

definition event_of :: "transfer \<Rightarrow> offload_event" where
  "event_of tr = \<lparr>ev_kind = t_kind tr, ev_keys = t_keys tr, ev_cpu_blocks = t_cpu_blocks tr,
                  ev_gpu_blocks = t_gpu_blocks tr\<rparr>"

text \<open>The drain loop over a snapshot of the pending list: the tier, the events and the transfers kept.\<close>

primrec drain ::
  "(event \<Rightarrow> bool) \<Rightarrow> transfer list \<Rightarrow> tier \<Rightarrow> (tier \<times> offload_event list \<times> transfer list) res" where
  "drain query [] t = Inr (t, [], [])"
| "drain query (tr # trs) t =
     (if \<not> is_done query tr
      then rbind (drain query trs t) (\<lambda>(t', evs, kept). Inr (t', evs, tr # kept))
      else rbind (case t_kind tr of Store \<Rightarrow> complete_store (t_keys tr) t | Load \<Rightarrow> complete_load (t_keys tr) t)
             (\<lambda>t1. rbind (drain query trs t1) (\<lambda>(t', evs, kept). Inr (t', event_of tr # evs, kept))))"

definition take_events :: "(event \<Rightarrow> bool) \<Rightarrow> tier \<Rightarrow> (tier \<times> offload_event list) res" where
  "take_events query t =
     rbind (drain query (pending t) t) (\<lambda>(t', evs, kept). Inr (t'\<lparr>pending := kept\<rparr>, evs))"

definition pending_store_events :: "tier \<Rightarrow> event list" where
  "pending_store_events t =
     map (\<lambda>tr. the (t_event tr)) (filter (\<lambda>tr. t_kind tr = Store \<and> t_event tr \<noteq> None) (pending t))"

definition has_pending_work :: "tier \<Rightarrow> bool" where
  "has_pending_work t \<longleftrightarrow> pending t \<noteq> []"

definition reset_cache :: "(event \<Rightarrow> bool) \<Rightarrow> tier \<Rightarrow> (tier \<times> bool) res" where
  "reset_cache query t =
     rbind (take_events query t) (\<lambda>(t1, evs).
       if pending t1 \<noteq> [] then Inr (t1, False)
       else case reset_prefix_cache (tpool t1) of (p, ok) \<Rightarrow> Inr (t1\<lparr>tpool := p\<rparr>, ok))"

definition get_stats :: "tier \<Rightarrow> tier \<times> offload_stats" where
  "get_stats t =
     (let s = (tstats t)\<lparr>os_evictions := evictions (tpool t)\<rparr> in (t\<lparr>tstats := s\<rparr>, s))"

section \<open>Invariant\<close>

text \<open>
  What a transfer contributes to the ledger is its kind, keys and CPU blocks. Two loads of the same keys
  are interchangeable in this respect, which is why \<^verbatim>\<open>_pop_pending\<close> may pick either.
\<close>

definition tkey :: "transfer \<Rightarrow> transfer_kind \<times> bhash list \<times> nat list" where
  "tkey tr = (t_kind tr, t_keys tr, t_cpu_blocks tr)"

definition refs_of :: "transfer list \<Rightarrow> nat \<Rightarrow> nat" where
  "refs_of trs b = count_list (concat (map t_cpu_blocks trs)) b"

definition store_keys :: "transfer list \<Rightarrow> bhash list" where
  "store_keys trs = concat (map t_keys (filter (\<lambda>tr. t_kind tr = Store) trs))"

definition load_blocks :: "transfer list \<Rightarrow> nat" where
  "load_blocks trs = sum_list (map (\<lambda>tr. length (t_cpu_blocks tr)) (filter (\<lambda>tr. t_kind tr = Load) trs))"

definition transfer_ok :: "block_pool \<Rightarrow> transfer \<Rightarrow> bool" where
  "transfer_ok p tr \<longleftrightarrow>
     length (t_keys tr) = length (t_cpu_blocks tr) \<and>
     (\<forall>b \<in> set (t_cpu_blocks tr). 0 < b \<and> b < num_blocks p) \<and>
     (case t_kind tr of
        Store \<Rightarrow> \<forall>b \<in> set (t_cpu_blocks tr). block_hash p b = None
      | Load \<Rightarrow> \<forall>i < length (t_keys tr). block_hash p (t_cpu_blocks tr ! i) = Some (t_keys tr ! i))"

definition ledger :: "block_pool \<Rightarrow> transfer list \<Rightarrow> (bhash, transfer) dict \<Rightarrow> int \<Rightarrow> bool" where
  "ledger p trs infl pinned \<longleftrightarrow>
     pool_inv p \<and> enable_caching p \<and>
     (\<forall>b. b \<noteq> 0 \<longrightarrow> ref_cnt p b = int (refs_of trs b)) \<and>
     (\<forall>tr \<in> set trs. transfer_ok p tr) \<and>
     (\<forall>b c k. block_hash p b = Some k \<longrightarrow> block_hash p c = Some k \<longrightarrow> b = c) \<and>
     distinct (store_keys trs) \<and>
     (\<forall>k \<in> set (store_keys trs). \<forall>b. block_hash p b \<noteq> Some k) \<and>
     (\<forall>b. block_hash p b = None \<longrightarrow> refs_of trs b \<le> 1) \<and>
     dict_ok infl \<and> fst ` set infl = set (store_keys trs) \<and>
     pinned = int (load_blocks trs)"

definition tier_inv :: "tier \<Rightarrow> bool" where
  "tier_inv t \<longleftrightarrow> ledger (tpool t) (pending t) (inflight_stores t) (pinned_cached t)"

lemma ledgerD:
  assumes "ledger p trs infl pinned"
  shows "pool_inv p" "enable_caching p" "b \<noteq> 0 \<Longrightarrow> ref_cnt p b = int (refs_of trs b)"
    "tr \<in> set trs \<Longrightarrow> transfer_ok p tr"
    "block_hash p b = Some k \<Longrightarrow> block_hash p c = Some k \<Longrightarrow> b = c"
    "distinct (store_keys trs)" "k \<in> set (store_keys trs) \<Longrightarrow> block_hash p b \<noteq> Some k"
    "block_hash p b = None \<Longrightarrow> refs_of trs b \<le> 1"
    "dict_ok infl" "fst ` set infl = set (store_keys trs)" "pinned = int (load_blocks trs)"
proof -
  note l = assms [unfolded ledger_def]
  from l have "\<forall>b c k. block_hash p b = Some k \<longrightarrow> block_hash p c = Some k \<longrightarrow> b = c" by (elim conjE)
  then show "block_hash p b = Some k \<Longrightarrow> block_hash p c = Some k \<Longrightarrow> b = c" by blast
  show "b \<noteq> 0 \<Longrightarrow> ref_cnt p b = int (refs_of trs b)" "tr \<in> set trs \<Longrightarrow> transfer_ok p tr"
    "k \<in> set (store_keys trs) \<Longrightarrow> block_hash p b \<noteq> Some k" "block_hash p b = None \<Longrightarrow> refs_of trs b \<le> 1"
    using l by simp_all
qed (use assms in \<open>simp_all add: ledger_def\<close>)

subsection \<open>The ledger sees a transfer only through its key\<close>

lemma mset_concat_map:
  "mset (map f xs) = mset (map f ys) \<Longrightarrow> (\<And>x y. f x = f y \<Longrightarrow> g x = g y) \<Longrightarrow>
     mset (concat (map g xs)) = mset (concat (map g ys))"
proof (induction xs arbitrary: ys)
  case (Cons x xs)
  have "f x \<in> set (map f ys)" using mset_eq_setD [OF Cons.prems(1)] by auto
  then obtain y where y: "y \<in> set ys" "f x = f y" by auto
  then obtain us vs where ys: "ys = us @ y # vs" by (meson split_list)
  have "mset (map f xs) = mset (map f (us @ vs))" using Cons.prems(1) ys y by simp
  then have "mset (concat (map g xs)) = mset (concat (map g (us @ vs)))" using Cons by blast
  with ys y Cons.prems(2) [of x y] show ?case by simp
qed simp

lemma refs_of_simps [simp]:
  "refs_of [] b = 0" "refs_of (tr # trs) b = count_list (t_cpu_blocks tr) b + refs_of trs b"
  "refs_of (trs @ trs') b = refs_of trs b + refs_of trs' b"
  by (simp_all add: refs_of_def)

lemma store_keys_simps [simp]:
  "store_keys [] = []" "store_keys (trs @ trs') = store_keys trs @ store_keys trs'"
  "store_keys (tr # trs) = (if t_kind tr = Store then t_keys tr @ store_keys trs else store_keys trs)"
  by (simp_all add: store_keys_def)

lemma load_blocks_simps [simp]:
  "load_blocks [] = 0" "load_blocks (trs @ trs') = load_blocks trs + load_blocks trs'"
  "load_blocks (tr # trs) = (if t_kind tr = Load then length (t_cpu_blocks tr) + load_blocks trs else load_blocks trs)"
  by (simp_all add: load_blocks_def)

lemma ledger_cong:
  assumes "ledger p trs infl pinned" "mset (map tkey trs) = mset (map tkey trs')"
  shows "ledger p trs' infl pinned"
proof -
  have eq: "tkey x = tkey y \<longleftrightarrow> t_kind x = t_kind y \<and> t_keys x = t_keys y \<and> t_cpu_blocks x = t_cpu_blocks y" for x y
    by (simp add: tkey_def)
  have "mset (concat (map t_cpu_blocks trs)) = mset (concat (map t_cpu_blocks trs'))"
    by (rule mset_concat_map [OF assms(2)]) (simp add: eq)
  then have refs: "refs_of trs' b = refs_of trs b" for b
    unfolding refs_of_def by (simp add: count_mset [symmetric])
  have sk: "store_keys ts = concat (map (\<lambda>tr. if t_kind tr = Store then t_keys tr else []) ts)" for ts
    by (induction ts) simp_all
  have ms: "mset (store_keys trs') = mset (store_keys trs)"
    unfolding sk by (rule mset_concat_map [OF assms(2) [symmetric]]) (simp add: eq)
  have lb: "load_blocks ts = length (concat (map (\<lambda>tr. if t_kind tr = Load then t_cpu_blocks tr else []) ts))" for ts
    by (induction ts) simp_all
  have "mset (concat (map (\<lambda>tr. if t_kind tr = Load then t_cpu_blocks tr else []) trs')) =
      mset (concat (map (\<lambda>tr. if t_kind tr = Load then t_cpu_blocks tr else []) trs))"
    by (rule mset_concat_map [OF assms(2) [symmetric]]) (simp add: eq)
  then have lb': "load_blocks trs' = load_blocks trs" unfolding lb by (rule mset_eq_length)
  have ok: "transfer_ok p tr" if "tr \<in> set trs'" for tr
  proof -
    have "tkey tr \<in> set (map tkey trs)" using that mset_eq_setD [OF assms(2)] by auto
    then obtain tr' where "tr' \<in> set trs" "tkey tr = tkey tr'" by auto
    then show ?thesis using ledgerD(4) [OF assms(1), of tr'] unfolding transfer_ok_def eq
      by (cases "t_kind tr'") simp_all
  qed
  show ?thesis
    using assms(1) ok unfolding ledger_def refs lb' mset_eq_setD [OF ms] mset_eq_imp_distinct_iff [OF ms]
    by simp
qed

lemma pop_pending_Some:
  "pop_pending kind keys trs = Some (tr, rest) \<Longrightarrow>
     \<exists>us vs. trs = us @ tr # vs \<and> rest = us @ vs \<and> t_kind tr = kind \<and> t_keys tr = keys"
proof (induction trs arbitrary: tr rest)
  case (Cons x xs)
  show ?case
  proof (cases "t_kind x = kind \<and> t_keys x = keys")
    case True
    with Cons.prems show ?thesis by (intro exI [of _ "[]"] exI [of _ xs]) auto
  next
    case False
    then obtain rest' where "pop_pending kind keys xs = Some (tr, rest')" "rest = x # rest'"
      using Cons.prems by (auto split: if_splits)
    with Cons.IH [of tr rest'] show ?thesis by (metis append_Cons)
  qed
qed simp

lemma pop_pending_found:
  "tr \<in> set trs \<Longrightarrow> pop_pending (t_kind tr) (t_keys tr) trs \<noteq> None"
  by (induction trs) auto

text \<open>The transfer that is popped contributes the same as the one that landed.\<close>

lemma pop_pending_same:
  assumes led: "ledger p trs infl pinned" and mem: "tkey tr \<in> set (map tkey trs)"
  obtains x us vs where "pop_pending (t_kind tr) (t_keys tr) trs = Some (x, us @ vs)"
    "trs = us @ x # vs" "tkey x = tkey tr"
proof -
  obtain y where y: "y \<in> set trs" "tkey y = tkey tr" using mem by auto
  then have yk: "t_kind y = t_kind tr" "t_keys y = t_keys tr" "t_cpu_blocks y = t_cpu_blocks tr"
    by (simp_all add: tkey_def)
  obtain x us vs where x: "pop_pending (t_kind tr) (t_keys tr) trs = Some (x, us @ vs)"
    "trs = us @ x # vs" "t_kind x = t_kind tr" "t_keys x = t_keys tr"
  proof -
    obtain x rest where p: "pop_pending (t_kind tr) (t_keys tr) trs = Some (x, rest)"
      using pop_pending_found [OF y(1)] unfolding yk by auto
    with pop_pending_Some [OF p] that show thesis by blast
  qed
  have ok: "transfer_ok p x" "transfer_ok p y" using ledgerD(4) [OF led] x(2) y(1) by auto
  have len: "length (t_cpu_blocks x) = length (t_cpu_blocks y)"
    using ok x(4) yk by (simp add: transfer_ok_def)
  have "t_cpu_blocks x = t_cpu_blocks y"
  proof (cases "t_kind tr")
    case Load
    have "t_cpu_blocks x ! i = t_cpu_blocks y ! i" if i: "i < length (t_cpu_blocks x)" for i
    proof -
      have "block_hash p (t_cpu_blocks x ! i) = Some (t_keys tr ! i)"
        "block_hash p (t_cpu_blocks y ! i) = Some (t_keys tr ! i)"
        using ok i Load x(3,4) yk by (simp_all add: transfer_ok_def)
      then show ?thesis by (rule ledgerD(5) [OF led])
    qed
    with len show ?thesis by (simp add: nth_equalityI)
  next
    case Store
    show ?thesis
    proof (cases "t_keys tr = []")
      case True
      then show ?thesis using ok x(4) yk by (simp add: transfer_ok_def)
    next
      case False
      then obtain k where k: "k \<in> set (t_keys tr)" by (cases "t_keys tr") auto
      have "y = x"
      proof (rule ccontr)
        assume "y \<noteq> x"
        then have "k \<in> set (store_keys (us @ vs))"
          using y(1) x(2) yk Store k by (auto simp: store_keys_def)
        then show False
          using ledgerD(6) [OF led] x k Store by auto
      qed
      then show ?thesis by simp
    qed
  qed
  then have "tkey x = tkey tr" using x yk by (simp add: tkey_def)
  with x show ?thesis by (intro that)
qed


subsection \<open>Transfers that land\<close>

lemma transfer_ok_cong:
  assumes "transfer_ok p tr" "num_blocks p' = num_blocks p"
    and "\<And>b. b \<in> set (t_cpu_blocks tr) \<Longrightarrow> block_hash p' b = block_hash p b"
  shows "transfer_ok p' tr"
  using assms by (cases "t_kind tr") (simp_all add: transfer_ok_def)

lemma complete_load_ok:
  assumes inv: "tier_inv t" and mem: "tkey tr \<in> set (map tkey (pending t))" and kind: "t_kind tr = Load"
  obtains t' where "complete_load (t_keys tr) t = Inr t'" "tier_inv t'"
    "mset (map tkey (pending t)) = add_mset (tkey tr) (mset (map tkey (pending t')))"
    "block_hash (tpool t') = block_hash (tpool t)" "num_blocks (tpool t') = num_blocks (tpool t)"
proof -
  note led = inv [unfolded tier_inv_def]
  obtain x us vs where x: "pop_pending Load (t_keys tr) (pending t) = Some (x, us @ vs)"
    "pending t = us @ x # vs" "tkey x = tkey tr"
    using pop_pending_same [OF led mem] kind by metis
  have xl: "t_kind x = Load" using x(3) kind by (simp add: tkey_def)
  have "\<forall>b. b \<noteq> 0 \<longrightarrow> int (count_list (t_cpu_blocks x) b) \<le> ref_cnt (tpool t) b"
    using ledgerD(3) [OF led] x(2) by simp
  then obtain p where p: "free_blocks (t_cpu_blocks x) (tpool t) = Inr p"
    "ref_effect (\<lambda>b. - int (count_list (t_cpu_blocks x) b)) (tpool t) p"
    using free_blocks_ok [OF ledgerD(1) [OF led]] by blast
  note re = ref_effectD [OF p(2)]
  have "refs_of (us @ vs) b \<le> 1" if "block_hash (tpool t) b = None" for b
    using ledgerD(8) [OF led that] x(2) by simp
  moreover have "transfer_ok p y" if "y \<in> set (us @ vs)" for y
    by (rule transfer_ok_cong [OF ledgerD(4) [OF led]]) (use that x(2) re(3,5) in auto)
  moreover have "store_keys (pending t) = store_keys (us @ vs)" using x(2) xl by simp
  moreover have "load_blocks (pending t) = load_blocks (us @ vs) + length (t_cpu_blocks x)"
    using x(2) xl by simp
  moreover have "enable_caching p" using re(2) ledgerD(2) [OF led] by (simp add: same_geometry_def)
  ultimately have "ledger p (us @ vs) (inflight_stores t) (pinned_cached t - int (length (t_cpu_blocks x)))"
    using led re(1,3,4) x(2) unfolding ledger_def by simp
  moreover obtain st where eq: "complete_load (t_keys tr) t = Inr (t\<lparr>tpool := p, pending := us @ vs,
      pinned_cached := pinned_cached t - int (length (t_cpu_blocks x)), tstats := st\<rparr>)"
    using x(1) p(1) by (simp add: complete_load_def)
  ultimately show ?thesis
    using x(2,3) re(3,5) by (intro that [OF eq]) (simp_all add: tier_inv_def)
qed

lemma delete_all: "map_of (fold AList.delete ks d) k = (if k \<in> set ks then None else map_of d k)"
  "dict_ok d \<Longrightarrow> dict_ok (fold AList.delete ks d)"
  by (induction ks arbitrary: d) (auto simp: dict_simps)

lemma stores_landed_ok:
  assumes "pool_inv p" "enable_caching p" "length ks = length bs" "distinct bs"
    and "\<And>b. b \<in> set bs \<Longrightarrow> 0 < b \<and> b < num_blocks p \<and> ref_cnt p b = 1 \<and> block_hash p b = None"
  shows "\<exists>p'. rfold store_landed (zip ks bs) (p, infl) = Inr (p', fold AList.delete ks infl) \<and>
    pool_inv p' \<and> same_geometry p p' \<and>
    ref_cnt p' = (\<lambda>b. if b \<in> set bs then 0 else ref_cnt p b) \<and>
    block_hash p' = (\<lambda>b. case map_of (zip bs ks) b of Some k \<Rightarrow> Some k | None \<Rightarrow> block_hash p b)"
  using assms(3,1,2,4,5)
proof (induction ks bs arbitrary: p infl rule: list_induct2)
  case Nil
  then show ?case by simp
next
  case (Cons k ks b bs)
  have b: "0 < b" "b < num_blocks p" "ref_cnt p b = 1" "block_hash p b = None" using Cons.prems(4) by auto
  obtain p1 where p1: "cache_full_blocks [b] [k] p = Inr p1" "hash_effect (gained_hash [b] [k]) p p1"
    using cache_full_blocks_ok [OF Cons.prems(1,2), of "[b]" "[k]"] b by auto
  note he = hash_effectD [OF p1(2)]
  have "int (count_list [b] c) \<le> ref_cnt p1 c" if "c \<noteq> 0" for c
    using b he(1,3) pool_invD(4) [OF he(1), of c] by auto
  then obtain p2 where p2: "free_blocks [b] p1 = Inr p2" "ref_effect (\<lambda>c. - int (count_list [b] c)) p1 p2"
    using free_blocks_ok [OF he(1)] by blast
  note re = ref_effectD [OF p2(2)]
  have ref2: "ref_cnt p2 = (\<lambda>c. if c = b then 0 else ref_cnt p c)"
    using p2(2) he(3) b by (auto simp: ref_effect_def fun_eq_iff)
  have bh2: "block_hash p2 = (block_hash p)(b := Some k)"
    using p1(2) b re(3) unfolding hash_effect_def gained_hash_def by (auto split: option.splits)
  have geo: "same_geometry p p2" using he(2) re(2) by (rule same_geometry_trans)
  have "\<exists>p'. rfold store_landed (zip ks bs) (p2, AList.delete k infl) =
      Inr (p', fold AList.delete ks (AList.delete k infl)) \<and> pool_inv p' \<and> same_geometry p2 p' \<and>
    ref_cnt p' = (\<lambda>b. if b \<in> set bs then 0 else ref_cnt p2 b) \<and>
    block_hash p' = (\<lambda>b. case map_of (zip bs ks) b of Some k \<Rightarrow> Some k | None \<Rightarrow> block_hash p2 b)"
    by (rule Cons.IH) (use Cons.prems re(1) geo ref2 bh2 in \<open>auto simp: same_geometry_def\<close>)
  then obtain p' where p': "rfold store_landed (zip ks bs) (p2, AList.delete k infl) =
      Inr (p', fold AList.delete ks (AList.delete k infl))" "pool_inv p'" "same_geometry p2 p'"
    "ref_cnt p' = (\<lambda>b. if b \<in> set bs then 0 else ref_cnt p2 b)"
    "block_hash p' = (\<lambda>b. case map_of (zip bs ks) b of Some k \<Rightarrow> Some k | None \<Rightarrow> block_hash p2 b)"
    by blast
  have "map_of (zip bs ks) b = None"
    using Cons.prems(3) Cons.hyps by (simp add: map_of_zip_is_None)
  then have "block_hash p' = (\<lambda>c. case map_of (zip (b # bs) (k # ks)) c of Some k \<Rightarrow> Some k | None \<Rightarrow> block_hash p c)"
    using p'(5) bh2 by (auto simp: fun_eq_iff split: option.splits)
  moreover have "rfold store_landed (zip (k # ks) (b # bs)) (p, infl) = Inr (p', fold AList.delete (k # ks) infl)"
    using p1(1) p2(1) p'(1) by (simp add: store_landed_def)
  moreover have "ref_cnt p' = (\<lambda>c. if c \<in> set (b # bs) then 0 else ref_cnt p c)"
    using p'(4) ref2 by auto
  ultimately show ?case using p'(2) same_geometry_trans [OF geo p'(3)] by blast
qed


lemma count_list_le_1_distinct: "(\<And>x. x \<in> set xs \<Longrightarrow> count_list xs x \<le> 1) \<Longrightarrow> distinct xs"
proof (induction xs)
  case (Cons y ys)
  have "count_list ys y = 0" using Cons.prems [of y] by simp
  then have "y \<notin> set ys" by (simp add: count_list_0_iff)
  moreover have "distinct ys"
  proof (rule Cons.IH)
    show "count_list ys x \<le> 1" if "x \<in> set ys" for x
      using Cons.prems [of x] that by (simp split: if_splits)
  qed
  ultimately show ?case by simp
qed simp

lemma complete_store_ok:
  assumes inv: "tier_inv t" and mem: "tkey tr \<in> set (map tkey (pending t))" and kind: "t_kind tr = Store"
  obtains t' where "complete_store (t_keys tr) t = Inr t'" "tier_inv t'"
    "mset (map tkey (pending t)) = add_mset (tkey tr) (mset (map tkey (pending t')))"
    "num_blocks (tpool t') = num_blocks (tpool t)"
    "\<And>b k. block_hash (tpool t) b = Some k \<Longrightarrow> block_hash (tpool t') b = Some k"
    "\<And>k. k \<in> set (t_keys tr) \<Longrightarrow> \<exists>b. block_hash (tpool t') b = Some k"
proof -
  let ?p = "tpool t"
  note led = inv [unfolded tier_inv_def]
  obtain x us vs where x: "pop_pending Store (t_keys tr) (pending t) = Some (x, us @ vs)"
    "pending t = us @ x # vs" "tkey x = tkey tr"
    using pop_pending_same [OF led mem] kind by metis
  have xs: "t_kind x = Store" "t_keys x = t_keys tr" using x(3) kind by (simp_all add: tkey_def)
  let ?ks = "t_keys x" and ?bs = "t_cpu_blocks x"
  have ok: "transfer_ok ?p x" using ledgerD(4) [OF led] x(2) by simp
  then have len: "length ?ks = length ?bs" and
    bs: "\<And>b. b \<in> set ?bs \<Longrightarrow> 0 < b \<and> b < num_blocks ?p \<and> block_hash ?p b = None"
    using xs by (simp_all add: transfer_ok_def)
  have one: "count_list ?bs b = 1 \<and> refs_of (us @ vs) b = 0" if "b \<in> set ?bs" for b
  proof -
    have "0 < count_list ?bs b" using that by (simp add: count_list_pos_iff)
    moreover have "refs_of (us @ vs) b + count_list ?bs b \<le> 1"
      using ledgerD(8) [OF led, of b] bs [OF that] x(2) by simp
    ultimately show ?thesis by linarith
  qed
  then have dist: "distinct ?bs" by (intro count_list_le_1_distinct) simp
  have ref1: "ref_cnt ?p b = 1" if "b \<in> set ?bs" for b
    using one [OF that] bs [OF that] ledgerD(3) [OF led, of b] x(2) by simp
  obtain p' where p': "rfold store_landed (zip ?ks ?bs) (?p, inflight_stores t) =
      Inr (p', fold AList.delete ?ks (inflight_stores t))"
    "pool_inv p'" "same_geometry ?p p'" "ref_cnt p' = (\<lambda>b. if b \<in> set ?bs then 0 else ref_cnt ?p b)"
    "block_hash p' = (\<lambda>b. case map_of (zip ?bs ?ks) b of Some k \<Rightarrow> Some k | None \<Rightarrow> block_hash ?p b)"
    using stores_landed_ok [OF ledgerD(1,2) [OF led] len dist, of "inflight_stores t"] bs ref1 by auto
  have keys: "distinct ?ks" "set ?ks \<inter> set (store_keys (us @ vs)) = {}"
    using ledgerD(6) [OF led] x(2) xs by auto
  have new: "block_hash p' b = Some k \<longleftrightarrow> block_hash ?p b = Some k \<or> (\<exists>i < length ?bs. ?bs ! i = b \<and> ?ks ! i = k)" for b k
  proof (cases "map_of (zip ?bs ?ks) b")
    case None
    then have "b \<notin> set ?bs" using len by (simp add: map_of_zip_is_None)
    with None p'(5) show ?thesis by auto
  next
    case (Some k')
    then obtain i where i: "i < length ?bs" "?bs ! i = b" "?ks ! i = k'"
      by (metis in_set_zip map_of_SomeD prod.sel)
    have "block_hash ?p b = None" "block_hash p' b = Some k'" using bs i Some p'(5) by force+
    moreover have "j = i" if "j < length ?bs" "?bs ! j = b" for j
      using that i nth_eq_iff_index_eq [OF dist, of j i] by simp
    ultimately show ?thesis using i by (metis option.distinct(1) option.inject)
  qed
  have "ledger p' (us @ vs) (fold AList.delete ?ks (inflight_stores t)) (pinned_cached t)"
    unfolding ledger_def
  proof (intro conjI allI ballI impI)
    show "pool_inv p'" "enable_caching p'" using p'(2,3) ledgerD(2) [OF led] by (simp_all add: same_geometry_def)
    show "ref_cnt p' b = int (refs_of (us @ vs) b)" if "b \<noteq> 0" for b
      using one [of b] ledgerD(3) [OF led that] x(2) p'(4) count_list_0_iff [of ?bs b] by auto
    show "transfer_ok p' y" if "y \<in> set (us @ vs)" for y
    proof (rule transfer_ok_cong [OF ledgerD(4) [OF led]])
      show "y \<in> set (pending t)" using that x(2) by auto
      show "num_blocks p' = num_blocks ?p" using p'(3) by (simp add: same_geometry_def)
      show "block_hash p' b = block_hash ?p b" if "b \<in> set (t_cpu_blocks y)" for b
      proof -
        have "0 < refs_of (us @ vs) b"
          unfolding refs_of_def count_list_pos_iff using that \<open>y \<in> set (us @ vs)\<close> by auto
        then have "b \<notin> set ?bs" using one by auto
        then show ?thesis using p'(5) len by (simp add: map_of_zip_is_None [THEN iffD2])
      qed
    qed
    show "b = c" if "block_hash p' b = Some k" "block_hash p' c = Some k" for b c k
    proof -
      have ks: "?ks ! i \<in> set (store_keys (pending t))" if "i < length ?bs" for i
        using that len x(2) xs by auto
      show ?thesis
        using that ledgerD(5) [OF led] ledgerD(7) [OF led ks] keys(1) len unfolding new
        by (metis nth_eq_iff_index_eq)
    qed
    show "distinct (store_keys (us @ vs))" using ledgerD(6) [OF led] x(2) by (auto split: if_splits)
    show "block_hash p' b \<noteq> Some k" if "k \<in> set (store_keys (us @ vs))" for k b
    proof -
      have "k \<in> set (store_keys (pending t))" "k \<notin> set ?ks" using that x(2) keys(2) xs by auto
      then show ?thesis using ledgerD(7) [OF led, of k b] len unfolding new by (metis nth_mem)
    qed
    show "refs_of (us @ vs) b \<le> 1" if "block_hash p' b = None" for b
    proof -
      have "block_hash ?p b = None" using that new [of b] by (metis option.exhaust option.distinct(1))
      then show ?thesis using ledgerD(8) [OF led, of b] x(2) by simp
    qed
    show "dict_ok (fold AList.delete ?ks (inflight_stores t))"
      by (rule delete_all(2) [OF ledgerD(9) [OF led]])
    have "fst ` set (fold AList.delete ?ks (inflight_stores t)) = fst ` set (inflight_stores t) - set ?ks"
      using delete_all(1) [of ?ks "inflight_stores t"] by (auto simp: dom_map_of_conv_image_fst [symmetric] dom_def)
    then show "fst ` set (fold AList.delete ?ks (inflight_stores t)) = set (store_keys (us @ vs))"
      using ledgerD(10) [OF led] x(2) xs keys(2) by auto
    show "pinned_cached t = int (load_blocks (us @ vs))" using ledgerD(11) [OF led] x(2) xs by simp
  qed
  moreover have "\<exists>b. block_hash p' b = Some k" if "k \<in> set ?ks" for k
    using that len unfolding new by (metis in_set_conv_nth)
  moreover obtain st where eq: "complete_store (t_keys tr) t = Inr (t\<lparr>tpool := p',
      inflight_stores := fold AList.delete ?ks (inflight_stores t), pending := us @ vs, tstats := st\<rparr>)"
    using x(1) p'(1) len by (simp add: complete_store_def)
  ultimately show ?thesis
    using x(2,3) p'(3) xs new by (intro that [OF eq]) (simp_all add: tier_inv_def same_geometry_def)
qed


section \<open>The drain\<close>

lemma tier_hit:
  assumes "tier_inv t"
  shows "snd (tier_lookup k t) = HIT \<longleftrightarrow> (\<exists>b. block_hash (tpool t) b = Some k)"
  using get_cached_block_None [OF pool_invD(7) [OF ledgerD(1) [OF assms [unfolded tier_inv_def]]], of k]
  by (cases "get_cached_block (tpool t) k") (auto simp: tier_lookup_def Let_def)

lemma drain_ok:
  assumes "tier_inv t" "mset (map tkey (pending t)) = mset (map tkey (kept @ trs))"
  shows "\<exists>t'. drain query trs t =
      Inr (t', map event_of (filter (is_done query) trs), filter (\<lambda>tr. \<not> is_done query tr) trs) \<and>
    tier_inv t' \<and> mset (map tkey (pending t')) = mset (map tkey (kept @ filter (\<lambda>tr. \<not> is_done query tr) trs)) \<and>
    num_blocks (tpool t') = num_blocks (tpool t) \<and>
    (\<forall>b k. block_hash (tpool t) b = Some k \<longrightarrow> block_hash (tpool t') b = Some k) \<and>
    (\<forall>tr \<in> set trs. is_done query tr \<longrightarrow> t_kind tr = Store \<longrightarrow>
       (\<forall>k \<in> set (t_keys tr). \<exists>b. block_hash (tpool t') b = Some k))"
  using assms
proof (induction trs arbitrary: t kept)
  case Nil
  then show ?case by simp
next
  case (Cons tr trs)
  show ?case
  proof (cases "is_done query tr")
    case False
    with Cons.IH [of t "kept @ [tr]"] Cons.prems show ?thesis by auto
  next
    case True
    have mem: "tkey tr \<in> set (map tkey (pending t))"
      using mset_eq_setD [OF Cons.prems(2)] by auto
    obtain t1 where t1: "(case t_kind tr of Store \<Rightarrow> complete_store (t_keys tr) t
        | Load \<Rightarrow> complete_load (t_keys tr) t) = Inr t1" "tier_inv t1"
      "mset (map tkey (pending t)) = add_mset (tkey tr) (mset (map tkey (pending t1)))"
      "num_blocks (tpool t1) = num_blocks (tpool t)"
      "\<forall>b k. block_hash (tpool t) b = Some k \<longrightarrow> block_hash (tpool t1) b = Some k"
      "t_kind tr = Store \<longrightarrow> (\<forall>k \<in> set (t_keys tr). \<exists>b. block_hash (tpool t1) b = Some k)"
    proof (cases "t_kind tr")
      case Store
      obtain t' where "complete_store (t_keys tr) t = Inr t'" "tier_inv t'"
        "mset (map tkey (pending t)) = add_mset (tkey tr) (mset (map tkey (pending t')))"
        "num_blocks (tpool t') = num_blocks (tpool t)"
        "\<And>b k. block_hash (tpool t) b = Some k \<Longrightarrow> block_hash (tpool t') b = Some k"
        "\<And>k. k \<in> set (t_keys tr) \<Longrightarrow> \<exists>b. block_hash (tpool t') b = Some k"
        by (rule complete_store_ok [OF Cons.prems(1) mem Store]) (rule that)
      then show ?thesis using Store by (intro that [of t']) simp_all
    next
      case Load
      obtain t' where "complete_load (t_keys tr) t = Inr t'" "tier_inv t'"
        "mset (map tkey (pending t)) = add_mset (tkey tr) (mset (map tkey (pending t')))"
        "block_hash (tpool t') = block_hash (tpool t)" "num_blocks (tpool t') = num_blocks (tpool t)"
        by (rule complete_load_ok [OF Cons.prems(1) mem Load]) (rule that)
      then show ?thesis using Load by (intro that [of t']) simp_all
    qed
    have m: "mset (map tkey (pending t1)) = mset (map tkey (kept @ trs))"
      using t1(3) Cons.prems(2) by simp
    obtain t2 where t2: "drain query trs t1 =
        Inr (t2, map event_of (filter (is_done query) trs), filter (\<lambda>tr. \<not> is_done query tr) trs)"
      "tier_inv t2" "mset (map tkey (pending t2)) = mset (map tkey (kept @ filter (\<lambda>tr. \<not> is_done query tr) trs))"
      "num_blocks (tpool t2) = num_blocks (tpool t1)"
      "\<forall>b k. block_hash (tpool t1) b = Some k \<longrightarrow> block_hash (tpool t2) b = Some k"
      "\<forall>tr \<in> set trs. is_done query tr \<longrightarrow> t_kind tr = Store \<longrightarrow>
         (\<forall>k \<in> set (t_keys tr). \<exists>b. block_hash (tpool t2) b = Some k)"
      using Cons.IH [OF t1(2) m] by blast
    have "t_kind tr = Store \<longrightarrow> (\<forall>k \<in> set (t_keys tr). \<exists>b. block_hash (tpool t2) b = Some k)"
      using t1(6) t2(5) by metis
    moreover have "drain query (tr # trs) t = Inr (t2, map event_of (filter (is_done query) (tr # trs)),
        filter (\<lambda>tr. \<not> is_done query tr) (tr # trs))"
      using True t1(1) t2(1) by simp
    ultimately show ?thesis
      using True t1(4,5) t2(2-6) by (intro exI [of _ t2] conjI) auto
  qed
qed

lemma take_events_ok:
  assumes inv: "tier_inv t"
  obtains t' where "take_events query t = Inr (t', map event_of (filter (is_done query) (pending t)))"
    "tier_inv t'" "pending t' = filter (\<lambda>tr. \<not> is_done query tr) (pending t)"
    "\<And>b k. block_hash (tpool t) b = Some k \<Longrightarrow> block_hash (tpool t') b = Some k"
    "\<And>tr k. \<lbrakk>tr \<in> set (pending t); is_done query tr; t_kind tr = Store; k \<in> set (t_keys tr)\<rbrakk> \<Longrightarrow>
       snd (tier_lookup k t') = HIT"
proof -
  let ?kept = "filter (\<lambda>tr. \<not> is_done query tr) (pending t)"
  obtain t1 where t1: "drain query (pending t) t =
      Inr (t1, map event_of (filter (is_done query) (pending t)), ?kept)"
    "tier_inv t1" "mset (map tkey (pending t1)) = mset (map tkey ?kept)"
    "\<forall>b k. block_hash (tpool t) b = Some k \<longrightarrow> block_hash (tpool t1) b = Some k"
    "\<forall>tr \<in> set (pending t). is_done query tr \<longrightarrow> t_kind tr = Store \<longrightarrow>
       (\<forall>k \<in> set (t_keys tr). \<exists>b. block_hash (tpool t1) b = Some k)"
    using drain_ok [OF inv, of "[]" "pending t" query] by auto
  have eq: "take_events query t =
      Inr (t1\<lparr>pending := ?kept\<rparr>, map event_of (filter (is_done query) (pending t)))"
    using t1(1) by (simp add: take_events_def)
  moreover have "tier_inv (t1\<lparr>pending := ?kept\<rparr>)"
    using ledger_cong [OF t1(2) [unfolded tier_inv_def] t1(3)] by (simp add: tier_inv_def)
  ultimately show ?thesis
    using t1(4,5) tier_hit [of "t1\<lparr>pending := ?kept\<rparr>"] by (intro that [OF eq]) auto
qed


section \<open>Starting transfers\<close>

lemma tier_init_ok:
  assumes "2 \<le> n" "1 \<le> bs"
  shows "\<exists>t. tier_init n bs bpb = Inr t \<and> tier_inv t \<and> pending t = []"
proof -
  obtain p where p: "pool_init n bs True = Inr p" "pool_inv p" "enable_caching p = True"
    "ref_cnt p = (\<lambda>_. 0)(0 := 1)" "block_hash p = (\<lambda>_. None)"
    using pool_init_ok [OF assms] by metis
  then show ?thesis
    using assms by (simp add: tier_init_def tier_inv_def ledger_def)
qed

lemma resident_blocks_Some:
  "resident_blocks p ks = Some bs \<Longrightarrow>
     length bs = length ks \<and> (\<forall>i < length ks. get_cached_block p (ks ! i) = Some (bs ! i))"
proof (induction ks arbitrary: bs)
  case (Cons k ks)
  then obtain b bs' where "get_cached_block p k = Some b" "resident_blocks p ks = Some bs'" "bs = b # bs'"
    by (auto split: option.splits)
  with Cons.IH [of bs'] show ?case by (auto simp: nth_Cons split: nat.splits)
qed simp

lemma resident_blocks_None:
  "resident_blocks p ks = None \<longleftrightarrow> (\<exists>k \<in> set ks. get_cached_block p k = None)"
  by (induction ks) (auto split: option.splits)

text \<open>
  A load pins exactly the blocks of its keys and is refused, with nothing pinned, when a key is gone.
\<close>

lemma prepare_load_ok:
  assumes inv: "tier_inv t" and len: "length keys = length gpu_blocks"
  obtains (gone) "prepare_load submit keys gpu_blocks t = Inr (t, None)"
      "\<exists>k \<in> set keys. \<forall>b. block_hash (tpool t) b \<noteq> Some k"
  | (pinned) t' tr where "prepare_load submit keys gpu_blocks t =
      Inr (t', Some \<lparr>ls_cpu_blocks = t_cpu_blocks tr, ls_gpu_blocks = gpu_blocks, ls_keys = keys\<rparr>)"
      "tier_inv t'" "pending t' = pending t @ [tr]" "t_kind tr = Load" "t_keys tr = keys"
      "t_gpu_blocks tr = gpu_blocks" "block_hash (tpool t') = block_hash (tpool t)"
      "\<And>k. k \<in> set keys \<Longrightarrow> \<exists>b. block_hash (tpool t) b = Some k"
proof -
  note led = inv [unfolded tier_inv_def]
  let ?p = "tpool t"
  note ix = pool_invD(7) [OF ledgerD(1) [OF led]]
  show thesis
  proof (cases "resident_blocks ?p keys")
    case None
    then have "prepare_load submit keys gpu_blocks t = Inr (t, None)" using len by (simp add: prepare_load_def)
    moreover have "\<exists>k \<in> set keys. \<forall>b. block_hash ?p b \<noteq> Some k"
      using None get_cached_block_None [OF ix] by (auto simp: resident_blocks_None)
    ultimately show ?thesis by (rule gone)
  next
    case (Some bs)
    note rb = resident_blocks_Some [OF Some]
    have bh: "block_hash ?p (bs ! i) = Some (keys ! i)" if "i < length keys" for i
      using rb that get_cached_block_Some [OF ix] by blast
    have ran: "0 < b \<and> b < num_blocks ?p" if "b \<in> set bs" for b
    proof -
      have "block_hash ?p b \<noteq> None" using that bh rb by (auto simp: in_set_conv_nth)
      then show ?thesis using ledgerD(1) [OF led]
        by (cases "b = 0"; cases "b < num_blocks ?p") (simp_all add: pool_inv_def)
    qed
    then obtain p where p: "touch bs ?p = Inr p" "ref_effect (\<lambda>b. int (count_list bs b)) ?p p"
      using touch_ok [OF ledgerD(1) [OF led], of bs] by blast
    note re = ref_effectD [OF p(2)]
    let ?mv = "map2 (\<lambda>b g. \<lparr>gpu_block = g, cpu_block = b\<rparr>) bs gpu_blocks"
    let ?tr = "\<lparr>t_kind = Load, t_keys = keys, t_cpu_blocks = bs, t_gpu_blocks = gpu_blocks,
      t_event = submit ?mv False, t_moves = ?mv\<rparr>"
    have cb: "map cpu_block ?mv = bs"
      using rb len by (intro nth_equalityI) simp_all
    let ?t = "t\<lparr>tpool := p, pinned_cached := pinned_cached t + int (length bs), pending := pending t @ [?tr]\<rparr>"
    have eq: "prepare_load submit keys gpu_blocks t =
        Inr (?t, Some \<lparr>ls_cpu_blocks = t_cpu_blocks ?tr, ls_gpu_blocks = gpu_blocks, ls_keys = keys\<rparr>)"
      using Some len p(1) by (simp add: prepare_load_def Let_def cb del: map_map)
    have zero: "count_list bs b = 0" if "block_hash ?p b = None" for b
    proof -
      have "b \<notin> set bs" using that bh rb by (auto simp: in_set_conv_nth)
      then show ?thesis by simp
    qed
    have "transfer_ok p ?tr" using rb bh ran re(3,5) by (simp add: transfer_ok_def)
    moreover have "transfer_ok p tr" if "tr \<in> set (pending t)" for tr
      by (rule transfer_ok_cong [OF ledgerD(4) [OF led that]]) (simp_all add: re)
    moreover have "ref_cnt p b = int (refs_of (pending t @ [?tr]) b)" if "b \<noteq> 0" for b
      using re(4) [OF that] ledgerD(3) [OF led that] by simp
    moreover have "refs_of (pending t @ [?tr]) b \<le> 1" if "block_hash ?p b = None" for b
      using ledgerD(8) [OF led that] zero [OF that] by simp
    moreover have "enable_caching p" using re(2) ledgerD(2) [OF led] by (simp add: same_geometry_def)
    ultimately have "ledger p (pending t @ [?tr]) (inflight_stores t) (pinned_cached t + int (length bs))"
      using led re(1,3) unfolding ledger_def by simp
    then have "tier_inv ?t" by (simp add: tier_inv_def)
    then show ?thesis
      using bh re(3) by (intro pinned [OF eq]) (auto simp: in_set_conv_nth)
  qed
qed


lemma update_all:
  "map_of (fold (\<lambda>k. AList.update k v) ks d) k = (if k \<in> set ks then Some v else map_of d k)"
  "dict_ok d \<Longrightarrow> dict_ok (fold (\<lambda>k. AList.update k v) ks d)"
  by (induction ks arbitrary: d) (auto simp: dict_simps)

text \<open>
  A store draws unreferenced blocks only, so no block pinned by a load in flight loses its key; it copies
  each entry whose key is neither resident nor already on its way down, once.
\<close>

lemma prepare_store_ok:
  assumes inv: "tier_inv t" and dist: "distinct (map snd entries)"
  obtains t' spec where "prepare_store submit entries t = Inr (t', spec)" "tier_inv t'"
    "\<And>b. ref_cnt (tpool t) b \<noteq> 0 \<Longrightarrow> block_hash (tpool t') b = block_hash (tpool t) b"
    "pending t' = pending t \<or>
     (\<exists>tr. pending t' = pending t @ [tr] \<and> t_kind tr = Store \<and> set (t_keys tr) \<subseteq> snd ` set entries \<and>
        ss_keys spec = t_keys tr)"
proof -
  note led = inv [unfolded tier_inv_def]
  let ?p = "tpool t" and ?P = "\<lambda>(g :: nat, k). \<not> (map_of (inflight_stores t) k \<noteq> None \<or> get_cached_block (tpool t) k \<noteq> None)"
  define fresh where "fresh = filter ?P entries"
  define ks where "ks = map snd fresh"
  have ks: "distinct ks" using dist unfolding ks_def fresh_def by (rule distinct_map_filter)
  have kn: "k \<notin> set (store_keys (pending t)) \<and> block_hash ?p b \<noteq> Some k" if "k \<in> set ks" for k b
    using that get_cached_block_None [OF pool_invD(7) [OF ledgerD(1) [OF led]], of k] ledgerD(10) [OF led]
    by (auto simp: ks_def fresh_def map_of_eq_None_iff)
  show thesis
  proof (cases "fresh = [] \<or> num_free_blocks ?p < int (length fresh)")
    case True
    then have eq: "prepare_store submit entries t = Inr (t, no_store)"
      unfolding prepare_store_def Let_def fresh_def [symmetric] by (auto simp: get_new_blocks_short)
    show ?thesis by (rule that [OF eq inv]) simp_all
  next
    case False
    then have enough: "length fresh \<le> length (free_list ?p)"
      using pool_invD(8) [OF ledgerD(1) [OF led]] by simp
    define bs where "bs = take (length fresh) (free_list ?p)"
    obtain p where p: "get_new_blocks (int (length fresh)) ?p = Inr (p, Some bs)" "alloc_effect bs ?p p"
      using get_new_blocks_ok [OF ledgerD(1) [OF led] enough] by (auto simp: bs_def)
    have len: "length bs = length fresh" "length ks = length bs" using enough by (auto simp: bs_def ks_def)
    have bs: "0 < b \<and> b < num_blocks ?p \<and> ref_cnt ?p b = 0" if "b \<in> set bs" for b
      using pool_invD(3) [OF ledgerD(1) [OF led]] that unfolding bs_def by (meson in_set_takeD)
    have db: "distinct bs" using pool_invD(2) [OF ledgerD(1) [OF led]] by (simp add: bs_def)
    let ?mv = "map2 (\<lambda>(g, k) b. \<lparr>gpu_block = g, cpu_block = b\<rparr>) fresh bs"
    have cb: "map cpu_block ?mv = bs"
      using len by (intro nth_equalityI) (simp_all add: case_prod_beta)
    define tr where "tr = \<lparr>t_kind = Store, t_keys = ks, t_cpu_blocks = bs, t_gpu_blocks = map fst fresh,
      t_event = submit ?mv True, t_moves = ?mv\<rparr>"
    let ?infl = "fold (\<lambda>k. AList.update k tr) ks (inflight_stores t)"
    let ?t = "t\<lparr>tpool := p, pending := pending t @ [tr], inflight_stores := ?infl\<rparr>"
    obtain ev where eq: "prepare_store submit entries t =
        Inr (?t, \<lparr>ss_moves = ?mv, ss_keys = ks, ss_evicted = ev\<rparr>)"
      using False p(1)
      unfolding prepare_store_def Let_def fresh_def [symmetric] ks_def [symmetric]
      by (simp add: cb tr_def del: map_map)
    have refs: "refs_of (pending t) b = 0" if "b \<in> set bs" for b
      using bs [OF that] ledgerD(3) [OF led, of b] by simp
    have bh: "block_hash p = (\<lambda>b. if b \<in> set bs then None else block_hash ?p b)"
      and rc: "ref_cnt p = (\<lambda>b. if b \<in> set bs then 1 else ref_cnt ?p b)"
      and geo: "same_geometry ?p p" and pi: "pool_inv p"
      using p(2) by (simp_all add: alloc_effect_def)
    have "ledger p (pending t @ [tr]) ?infl (pinned_cached t)"
      unfolding ledger_def
    proof (intro conjI allI ballI impI)
      show "pool_inv p" "enable_caching p" using pi geo ledgerD(2) [OF led] by (simp_all add: same_geometry_def)
      show "ref_cnt p b = int (refs_of (pending t @ [tr]) b)" if "b \<noteq> 0" for b
        using that refs [of b] rc ledgerD(3) [OF led that] by (simp add: tr_def count_list_distinct [OF db])
      show "transfer_ok p x" if "x \<in> set (pending t @ [tr])" for x
      proof (cases "x = tr")
        case True
        then show ?thesis
          using len bs bh geo by (auto simp: transfer_ok_def tr_def same_geometry_def)
      next
        case F: False
        then have x: "x \<in> set (pending t)" using that by simp
        have "b \<notin> set bs" if "b \<in> set (t_cpu_blocks x)" for b
        proof
          assume "b \<in> set bs"
          moreover have "0 < refs_of (pending t) b"
            unfolding refs_of_def count_list_pos_iff using that x by auto
          ultimately show False using refs by simp
        qed
        then show ?thesis
          using geo bh by (intro transfer_ok_cong [OF ledgerD(4) [OF led x]]) (auto simp: same_geometry_def)
      qed
      show "b = c" if "block_hash p b = Some k" "block_hash p c = Some k" for b c k
        using that ledgerD(5) [OF led, of b k c] by (simp add: bh split: if_splits)
      show "distinct (store_keys (pending t @ [tr]))"
        using ledgerD(6) [OF led] ks kn by (auto simp: tr_def)
      show "block_hash p b \<noteq> Some k" if "k \<in> set (store_keys (pending t @ [tr]))" for k b
        using that kn [of k b] ledgerD(7) [OF led, of k b] by (auto simp: tr_def bh)
      show "refs_of (pending t @ [tr]) b \<le> 1" if "block_hash p b = None" for b
        using that refs [of b] ledgerD(8) [OF led, of b]
        by (auto simp: tr_def bh count_list_distinct [OF db] split: if_splits)
      show "dict_ok ?infl" by (rule update_all(2) [OF ledgerD(9) [OF led]])
      have "fst ` set ?infl = set ks \<union> fst ` set (inflight_stores t)"
        using update_all(1) [of tr ks "inflight_stores t"]
        by (auto simp: dom_map_of_conv_image_fst [symmetric] dom_def split: if_splits)
      then show "fst ` set ?infl = set (store_keys (pending t @ [tr]))"
        using ledgerD(10) [OF led] by (auto simp: tr_def)
      show "pinned_cached t = int (load_blocks (pending t @ [tr]))"
        using ledgerD(11) [OF led] by (simp add: tr_def)
    qed
    then have "tier_inv ?t" by (simp add: tier_inv_def)
    moreover have "block_hash p b = block_hash ?p b" if "ref_cnt ?p b \<noteq> 0" for b
      using that bs [of b] bh by auto
    moreover have "set ks \<subseteq> snd ` set entries" by (auto simp: ks_def fresh_def)
    ultimately show ?thesis by (intro that [OF eq]) (auto simp: tr_def)
  qed
qed


section \<open>Recency\<close>

text \<open>Touching a key moves its block to the back of the eviction order and changes nothing else.\<close>

lemma touch_key_ok:
  assumes p: "pool_inv p"
  shows "\<exists>q. touch_key k p = Inr (p\<lparr>free_block_queue := q\<rparr>) \<and> pool_inv (p\<lparr>free_block_queue := q\<rparr>) \<and>
    fq_iter q = (case get_cached_block p k of
       Some b \<Rightarrow> if ref_cnt p b = 0 then remove1 b (free_list p) @ [b] else free_list p | None \<Rightarrow> free_list p)"
proof -
  consider "get_cached_block p k = None"
    | b where "get_cached_block p k = Some b" "0 < ref_cnt p b"
    | b where "get_cached_block p k = Some b" "ref_cnt p b = 0"
    using pool_invD(4) [OF p] by (metis option.exhaust order_le_less)
  then show ?thesis
  proof cases
    case (3 b)
    have "block_hash p b = Some k" by (rule get_cached_block_Some [OF pool_invD(7) [OF p] 3(1)])
    then have "0 < b \<and> b < num_blocks p"
      using p by (cases "b = 0"; cases "b < num_blocks p") (simp_all add: pool_inv_def)
    then have mem: "b \<in> set (free_list p)" using 3(2) pool_invD(3) [OF p] by simp
    obtain q where q: "rbind (fq_remove b (free_block_queue p)) (fq_append b) = Inr q" "fq_ok q"
      "fq_iter q = remove1 b (free_list p) @ [b]"
      using fq.move_to_back [OF pool_invD(1) [OF p] mem] by blast
    then have "set (fq_iter q) = set (free_list p)"
      using mem pool_invD(2) [OF p] by auto
    then have "pool_inv (p\<lparr>free_block_queue := q\<rparr>)" using p q(2) by (simp add: pool_inv_def)
    moreover have "touch_key k p = Inr (p\<lparr>free_block_queue := q\<rparr>)"
      using 3 q(1) by (auto simp: touch_key_def)
    ultimately show ?thesis using 3 q(3) by auto
  qed (use p in \<open>auto simp: touch_key_def intro!: exI [of _ "free_block_queue p"]\<close>)
qed

lemma tier_touch_ok:
  assumes inv: "tier_inv t"
  shows "\<exists>t'. tier_touch keys t = Inr t' \<and> tier_inv t' \<and> block_hash (tpool t') = block_hash (tpool t) \<and>
    pending t' = pending t"
proof -
  let ?I = "\<lambda>p. \<exists>q. p = (tpool t)\<lparr>free_block_queue := q\<rparr> \<and> pool_inv p"
  note led = inv [unfolded tier_inv_def]
  have "\<exists>p. rfold touch_key keys (tpool t) = Inr p \<and> ?I p"
  proof (rule rfold_invariant [of ?I])
    show "?I (tpool t)" using ledgerD(1) [OF led] by (intro exI [of _ "free_block_queue (tpool t)"]) simp
    show "\<exists>p'. touch_key k p = Inr p' \<and> ?I p'" if "?I p" for k p
      using touch_key_ok [of p k] that by auto
  qed
  then obtain q where q: "rfold touch_key keys (tpool t) = Inr ((tpool t)\<lparr>free_block_queue := q\<rparr>)"
    "pool_inv ((tpool t)\<lparr>free_block_queue := q\<rparr>)" by blast
  have "transfer_ok ((tpool t)\<lparr>free_block_queue := q\<rparr>) tr = transfer_ok (tpool t) tr" for tr
    by (cases "t_kind tr") (simp_all add: transfer_ok_def)
  then have "ledger ((tpool t)\<lparr>free_block_queue := q\<rparr>) (pending t) (inflight_stores t) (pinned_cached t)"
    using led q(2) unfolding ledger_def by simp
  then show ?thesis using q(1) by (simp add: tier_touch_def tier_inv_def)
qed

section \<open>Properties\<close>

text \<open>Draining the tier. From a well-formed tier \<^verbatim>\<open>take_events\<close> never raises; it reports exactly the transfers
  that have landed, in order, keeps exactly the others pending, and leaves the tier well formed; every key of
  a landed store is a hit afterwards, and no key that was a hit is lost.\<close>

lemma take_events_exact:
  assumes "tier_inv t"
  shows "\<exists>t'. take_events query t = Inr (t', map event_of (filter (is_done query) (pending t))) \<and> tier_inv t' \<and>
    pending t' = filter (\<lambda>tr. \<not> is_done query tr) (pending t) \<and>
    (\<forall>tr \<in> set (pending t). is_done query tr \<and> t_kind tr = Store \<longrightarrow>
       (\<forall>k \<in> set (t_keys tr). snd (tier_lookup k t') = HIT)) \<and>
    (\<forall>k. snd (tier_lookup k t) = HIT \<longrightarrow> snd (tier_lookup k t') = HIT)"
proof -
  obtain t' where t': "take_events query t = Inr (t', map event_of (filter (is_done query) (pending t)))"
    "tier_inv t'" "pending t' = filter (\<lambda>tr. \<not> is_done query tr) (pending t)"
    "\<And>b k. block_hash (tpool t) b = Some k \<Longrightarrow> block_hash (tpool t') b = Some k"
    "\<And>tr k. \<lbrakk>tr \<in> set (pending t); is_done query tr; t_kind tr = Store; k \<in> set (t_keys tr)\<rbrakk> \<Longrightarrow>
       snd (tier_lookup k t') = HIT"
    by (rule take_events_ok [OF assms, of query]) (rule that)
  have "snd (tier_lookup k t') = HIT" if "snd (tier_lookup k t) = HIT" for k
    using that t'(4) by (auto simp: tier_hit [OF assms] tier_hit [OF t'(2)])
  then show ?thesis using t' by blast
qed

text \<open>Loading is all or nothing and pins its source. Keys and target blocks of different number raise
  \<^verbatim>\<open>ValueError\<close>. Otherwise, if a key is gone the call answers \<^verbatim>\<open>None\<close> and changes nothing; else it queues one
  load of exactly these keys into exactly these blocks, whose source blocks carry the keys, stay indexed and
  are referenced, so that no store can evict them while the copy runs.\<close>

lemma prepare_load_pins:
  assumes "tier_inv t"
  shows "if length keys \<noteq> length gpu_blocks then prepare_load submit keys gpu_blocks t = Inl ValueError
    else if \<exists>k \<in> set keys. snd (tier_lookup k t) \<noteq> HIT then prepare_load submit keys gpu_blocks t = Inr (t, None)
    else \<exists>t' tr spec. prepare_load submit keys gpu_blocks t = Inr (t', Some spec) \<and> tier_inv t' \<and>
      pending t' = pending t @ [tr] \<and> t_kind tr = Load \<and> t_keys tr = keys \<and> t_gpu_blocks tr = gpu_blocks \<and>
      ls_cpu_blocks spec = t_cpu_blocks tr \<and>
      (\<forall>b \<in> set (t_cpu_blocks tr). b \<noteq> 0 \<longrightarrow> 0 < ref_cnt (tpool t') b) \<and>
      (\<forall>k \<in> set keys. snd (tier_lookup k t') = HIT)"
proof (cases "length keys = length gpu_blocks")
  case False
  then show ?thesis by (simp add: prepare_load_def)
next
  case True
  show ?thesis
  proof (rule prepare_load_ok [OF assms True, of submit])
    assume "prepare_load submit keys gpu_blocks t = Inr (t, None)" "\<exists>k \<in> set keys. \<forall>b. block_hash (tpool t) b \<noteq> Some k"
    then show ?thesis using True tier_hit [OF assms] by auto
  next
    fix t' tr
    assume l: "prepare_load submit keys gpu_blocks t =
        Inr (t', Some \<lparr>ls_cpu_blocks = t_cpu_blocks tr, ls_gpu_blocks = gpu_blocks, ls_keys = keys\<rparr>)"
      and inv: "tier_inv t'" and tr: "pending t' = pending t @ [tr]" "t_kind tr = Load" "t_keys tr = keys"
        "t_gpu_blocks tr = gpu_blocks" "block_hash (tpool t') = block_hash (tpool t)"
      and res: "\<And>k. k \<in> set keys \<Longrightarrow> \<exists>b. block_hash (tpool t) b = Some k"
    have "0 < ref_cnt (tpool t') b" if "b \<in> set (t_cpu_blocks tr)" "b \<noteq> 0" for b
    proof -
      have "ref_cnt (tpool t') b = int (refs_of (pending t') b)"
        using inv that(2) ledgerD(3) unfolding tier_inv_def by blast
      moreover have "0 < count_list (t_cpu_blocks tr) b" using that(1) by (simp add: count_list_0_iff[symmetric] gr0_conv_Suc) (metis count_list_0_iff not0_implies_Suc)
      ultimately show ?thesis using tr(1) by simp
    qed
    moreover have "\<forall>k \<in> set keys. snd (tier_lookup k t) = HIT \<and> snd (tier_lookup k t') = HIT"
      using res tr(5) by (simp add: tier_hit [OF assms] tier_hit [OF inv])
    ultimately show ?thesis using True l inv tr by auto
  qed
qed

definition pins_run :: "(tier \<times> tier \<times> store_spec) res" where
  "pins_run =
     rbind (tier_init 3 16 0) (\<lambda>t0.
     rbind (prepare_store (\<lambda>_ _. None) [(5, 11), (6, 22)] t0) (\<lambda>(t1, _).
     rbind (take_events (\<lambda>_. True) t1) (\<lambda>(t2, _).
     rbind (prepare_load (\<lambda>_ _. Some 1) [11] [7] t2) (\<lambda>(t3, _).
     rbind (prepare_load (\<lambda>_ _. Some 2) [11] [8] t3) (\<lambda>(t4, _).
     rbind (prepare_store (\<lambda>_ _. None) [(9, 33)] t4) (\<lambda>(t5, spec). Inr (t4, t5, spec)))))))"

text \<open>The eviction report of a store can be wrong. The tier counts pins, not pinned blocks, so a block
  loaded twice at once makes the prediction think that more free blocks are unused than there are. Here two
  keys fill the tier, the first is loaded twice, and a third key is stored: the second key was a hit before
  and is gone after, but the reported list of evicted keys is empty.\<close>

lemma evicted_report_incomplete:
  "case pins_run of
     Inr (before, after, spec) \<Rightarrow>
       snd (tier_lookup 22 before) = HIT \<and> snd (tier_lookup 22 after) = MISS \<and> ss_keys spec = [33] \<and> ss_evicted spec = []
   | Inl e \<Rightarrow> False"
  by code_simp

end
