(* ===== verification/Batch_Planner.thy ===== *)
theory Batch_Planner
  imports Prefix_Cache KV_Offload
begin

text \<open>
  The batch planner (\<^verbatim>\<open>src/rapid_llm/engine/batch_planner.py\<close>): queueing, chunked prefill, admission,
  preemption and retirement of requests, on top of the prefix cache and an optional CPU tier.

  Requests are objects the engine shares with the planner, so they live in an object store \<open>objs\<close>,
  indexed by object identities; the queues hold identities, which is what \<^verbatim>\<open>is\<close> and \<^verbatim>\<open>id(...)\<close>
  compare. Dictionaries are keyed by the request id, as in the code.

  What the planner takes from outside is collected in the record \<open>env\<close>: the digest behind the block
  hashes, the clock (the value of each successive \<^verbatim>\<open>time.monotonic()\<close> call), and the copier of the CPU tier.

  Python's \<^verbatim>\<open>for request in self._running\<close> walks the live list by index while \<^verbatim>\<open>_reserve\<close> may delete from
  it; \<open>resume_all\<close> models it by the indices of the list as it was, each looked up in the list as it is (the
  list never grows in that loop). The \<^verbatim>\<open>while\<close> loops carry explicit bounds, the number of entries they can
  consume; \<open>OutOfFuel\<close> marks a bound that is too small.
\<close>

section \<open>Requests\<close>

datatype status = WAITING | RUNNING | FINISHED

type_synonym oid = nat
type_synonym lp = nat
type_synonym time = rat
type_synonym table_write = "nat \<times> nat \<times> nat list"

record request =
  request_id :: rid
  prompt_token_ids :: "int list"
  max_gen_len :: "nat option"
  max_new_tokens :: int
  num_computed_tokens :: nat
  arrival_time :: time
  scheduled_time :: "time option"
  status :: status
  slot :: "nat option"
  output_token_ids :: "int list"
  finish_reason :: "string option"
  finish_time :: "time option"
  req_cached_tokens :: nat
  block_plan :: "table_write list"
  prompt_logprobs :: "lp option list option"
  output_logprobs :: "lp list option"
  delta_logprobs :: "lp option"
  pending_tokens :: int

definition prompt_len :: "request \<Rightarrow> nat" where
  "prompt_len r = length (prompt_token_ids r)"

definition seq_len :: "request \<Rightarrow> nat" where
  "seq_len r = length (prompt_token_ids r) + length (output_token_ids r)"

definition is_finished :: "request \<Rightarrow> bool" where
  "is_finished r \<longleftrightarrow> status r = FINISHED"

definition has_room :: "request \<Rightarrow> bool" where
  "has_room r \<longleftrightarrow> int (length (output_token_ids r)) < max_new_tokens r"

definition prefill_done :: "request \<Rightarrow> bool" where
  "prefill_done r \<longleftrightarrow> prompt_len r \<le> num_computed_tokens r"

section \<open>Configuration\<close>

record scheduler_config =
  max_seq_len :: nat
  max_num_seqs :: nat
  max_num_batched_tokens :: nat
  enable_chunked_prefill :: bool
  max_chunk_size :: nat
  enable_prefix_cache :: bool
  prefix_cache_blocks :: "nat option"
  enable_preemption :: bool
  decode_window_steps :: nat

text \<open>\<^verbatim>\<open>__post_init__\<close>; negative values of the count fields are excluded by their type.\<close>

definition config_check :: "scheduler_config \<Rightarrow> scheduler_config res" where
  "config_check c =
     (if max_seq_len c < 2 then Inl ValueError
      else if max_num_seqs c < 1 then Inl ValueError
      else if max_num_batched_tokens c < 1 then Inl ValueError
      else let c' = (if max_chunk_size c = 0 then c\<lparr>enable_chunked_prefill := False\<rparr> else c)
           in if \<not> enable_chunked_prefill c' \<and> max_num_batched_tokens c' < max_seq_len c' then Inl ValueError
              else case prefix_cache_blocks c' of
                     Some n \<Rightarrow> if n < 2 then Inl ValueError else Inr c'
                   | None \<Rightarrow> Inr c')"

record step_plan =
  sp_prefill :: "oid list"
  sp_decode :: "oid list"
  sp_chunk_lens :: "nat list"
  sp_preempted :: "oid list"

definition plan_is_empty :: "step_plan \<Rightarrow> bool" where
  "plan_is_empty s \<longleftrightarrow> sp_prefill s = [] \<and> sp_decode s = []"

record promotion =
  pr_request :: oid
  pr_gpu_blocks :: "nat list"
  pr_num_tokens :: nat

section \<open>Planner state\<close>

record planner =
  pconfig :: scheduler_config
  num_slots :: nat
  pmax_num_seqs :: nat
  objs :: "oid \<Rightarrow> request"
  waiting :: "(rid, oid) dict"
  running :: "oid list"
  live :: "(rid, oid) dict"
  free_slots :: "nat list"
  kv :: prefix_cache
  pending_blocks :: "(oid \<times> nat) list"
  num_preemptions :: nat
  deferred_steps :: nat
  offloading :: "tier option"
  pending_promotes :: "(rid, promotion) dict"
  ready_promotes :: "oid list"
  dying_promotes :: "(rid, promotion) dict"
  promotion_by_blocks :: "(nat list, rid) dict"
  ticks :: nat

record env =
  digest :: "bytes \<Rightarrow> bytes"
  clock :: "nat \<Rightarrow> time"
  submit :: "copy_run list \<Rightarrow> bool \<Rightarrow> event option"
  query :: "event \<Rightarrow> bool"

definition BLOCK_SIZE :: nat where
  "BLOCK_SIZE = 16"

abbreviation upd_obj :: "oid \<Rightarrow> (request \<Rightarrow> request) \<Rightarrow> planner \<Rightarrow> planner" where
  "upd_obj o' f P \<equiv> P\<lparr>objs := (objs P)(o' := f (objs P o'))\<rparr>"

definition monotonic :: "env \<Rightarrow> planner \<Rightarrow> planner \<times> time" where
  "monotonic E P = (P\<lparr>ticks := ticks P + 1\<rparr>, clock E (ticks P))"

definition default_num_blocks :: "scheduler_config \<Rightarrow> nat \<Rightarrow> nat" where
  "default_num_blocks c slots = max 2 (slots * max_seq_len c div BLOCK_SIZE + 1)"

text \<open>\<^verbatim>\<open>a or b or c\<close> over optional counts: \<^verbatim>\<open>None\<close> and 0 fall through.\<close>

definition pool_size :: "scheduler_config \<Rightarrow> nat \<Rightarrow> nat option \<Rightarrow> nat" where
  "pool_size c slots num = or_default (prefix_cache_blocks c) (or_default num (default_num_blocks c slots))"

definition planner_init ::
  "(oid \<Rightarrow> request) \<Rightarrow> scheduler_config \<Rightarrow> nat \<Rightarrow> nat option \<Rightarrow> tier option \<Rightarrow> planner res" where
  "planner_init store c slots num tr =
     (if slots < 1 then Inl ValueError
      else rbind (cache_init (int (pool_size c slots num)) (int BLOCK_SIZE) None 0 (enable_prefix_cache c)) (\<lambda>pc.
        if tr \<noteq> None \<and> offloadable_group pc = None then Inl ValueError
        else if tr \<noteq> None \<and> \<not> enable_prefix_cache c then Inl ValueError
        else Inr \<lparr>pconfig = c, num_slots = slots,
                  pmax_num_seqs = (if enable_preemption c then max_num_seqs c else min (max_num_seqs c) slots),
                  objs = store, waiting = [], running = [], live = [], free_slots = rev [0..<slots], kv = pc,
                  pending_blocks = [], num_preemptions = 0, deferred_steps = 0, offloading = tr,
                  pending_promotes = [], ready_promotes = [], dying_promotes = [],
                  promotion_by_blocks = [], ticks = 0\<rparr>))"

section \<open>Queue\<close>

definition add_request :: "oid \<Rightarrow> planner \<Rightarrow> planner res" where
  "add_request x P =
     (let r = objs P x; limit = max_seq_len (pconfig P)
      in if map_of (live P) (request_id r) \<noteq> None then Inl ValueError
         else if status r \<noteq> WAITING \<or> slot r \<noteq> None then Inl ValueError
         else if prompt_len r = 0 then Inl ValueError
         else if prompt_len r \<ge> limit then Inl ValueError
         else let room = limit - prompt_len r;
                  cap = (case max_gen_len r of None \<Rightarrow> room
                         | Some n \<Rightarrow> if n = 0 then room else min n room)
              in Inr ((upd_obj x (\<lambda>r. r\<lparr>max_new_tokens := int cap\<rparr>) P)
                        \<lparr>live := AList.update (request_id r) x (live P),
                         waiting := AList.update (request_id r) x (waiting P)\<rparr>))"

definition has_request_id :: "rid \<Rightarrow> planner \<Rightarrow> bool" where
  "has_request_id r P \<longleftrightarrow> map_of (live P) r \<noteq> None"

section \<open>Registration of computed blocks\<close>

definition commit_upto :: "env \<Rightarrow> oid \<Rightarrow> nat \<Rightarrow> planner \<Rightarrow> planner res" where
  "commit_upto E x up P =
     (let r = objs P x; rid = request_id r
      in rbind (if length (block_hashes rid (kv P)) < up div BLOCK_SIZE
                then rbind (observe (digest E) rid (prompt_token_ids r @ output_token_ids r) (kv P))
                       (\<lambda>(pc, _). Inr pc)
                else Inr (kv P)) (\<lambda>pc.
         rbind (commit rid up pc) (\<lambda>(pc', fresh).
           let P1 = P\<lparr>kv := pc'\<rparr>
           in case offloading P of
                None \<Rightarrow> Inr P1
              | Some t \<Rightarrow> if fresh = [] then Inr P1
                          else rbind (prepare_store (submit E) fresh t) (\<lambda>(t', _).
                                 Inr (P1\<lparr>offloading := Some t'\<rparr>)))))"

definition commit_entry :: "env \<Rightarrow> oid \<times> nat \<Rightarrow> planner \<Rightarrow> planner res" where
  "commit_entry E xu P =
     (if status (objs P (fst xu)) = RUNNING then commit_upto E (fst xu) (snd xu) P else Inr P)"

definition commit_pending_blocks :: "env \<Rightarrow> planner \<Rightarrow> planner res" where
  "commit_pending_blocks E P =
     rbind (rfold (commit_entry E) (pending_blocks P) P) (\<lambda>P1. Inr (P1\<lparr>pending_blocks := []\<rparr>))"

definition track_pending :: "oid \<Rightarrow> nat \<Rightarrow> planner \<Rightarrow> planner" where
  "track_pending x up P = P\<lparr>pending_blocks := pending_blocks P @ [(x, up)]\<rparr>"

definition settle_pending_blocks :: "env \<Rightarrow> oid \<Rightarrow> planner \<Rightarrow> planner res" where
  "settle_pending_blocks E x P =
     rbind (rfold (\<lambda>xu P. if fst xu = x then commit_upto E x (snd xu) P else Inr P) (pending_blocks P) P)
       (\<lambda>P1. Inr (P1\<lparr>pending_blocks := filter (\<lambda>xu. fst xu \<noteq> x) (pending_blocks P)\<rparr>))"

definition drop_pending_blocks :: "oid \<Rightarrow> planner \<Rightarrow> planner" where
  "drop_pending_blocks x P = P\<lparr>pending_blocks := filter (\<lambda>xu. fst xu \<noteq> x) (pending_blocks P)\<rparr>"

definition map_blocks :: "oid \<Rightarrow> planner \<Rightarrow> planner res" where
  "map_blocks x P =
     rbind (take_table_writes (request_id (objs P x)) (kv P)) (\<lambda>(pc, ws).
       Inr (upd_obj x (\<lambda>r. r\<lparr>block_plan := ws\<rparr>) (P\<lparr>kv := pc\<rparr>)))"

section \<open>Preemption\<close>

text \<open>\<^verbatim>\<open>_discard_running\<close>: delete the first entry that is this very object.\<close>

definition discard_running :: "oid \<Rightarrow> planner \<Rightarrow> planner" where
  "discard_running x P = P\<lparr>running := remove1 x (running P)\<rparr>"

definition release_slot :: "oid \<Rightarrow> planner \<Rightarrow> planner" where
  "release_slot x P =
     (case slot (objs P x) of
        None \<Rightarrow> P
      | Some s \<Rightarrow> upd_obj x (\<lambda>r. r\<lparr>slot := None\<rparr>) (P\<lparr>free_slots := free_slots P @ [s]\<rparr>))"

definition preempt :: "oid \<Rightarrow> planner \<Rightarrow> planner res" where
  "preempt x P =
     (let P1 = release_slot x P;
          P2 = upd_obj x (\<lambda>r. r\<lparr>status := WAITING, num_computed_tokens := 0, req_cached_tokens := 0,
                 block_plan := [], pending_tokens := 0, prompt_logprobs := None, output_logprobs := None,
                 delta_logprobs := None\<rparr>) P1;
          P3 = drop_pending_blocks x P2;
          rid = request_id (objs P x)
      in rbind (cache_free rid (kv P3)) (\<lambda>pc.
           let P4 = upd_obj x (\<lambda>r. r\<lparr>prompt_token_ids := prompt_token_ids r @ output_token_ids r,
                      output_token_ids := [],
                      max_new_tokens := max_new_tokens r - int (length (output_token_ids r))\<rparr>) (P3\<lparr>kv := pc\<rparr>);
               P5 = discard_running x P4
           in Inr (P5\<lparr>waiting := (rid, x) # AList.delete rid (waiting P5),
                      num_preemptions := num_preemptions P5 + 1\<rparr>)))"

text \<open>The first eligible request of \<^verbatim>\<open>reversed(self._running)\<close>.\<close>

fun find_victim :: "(oid \<Rightarrow> request) \<Rightarrow> oid list \<Rightarrow> oid list \<Rightarrow> oid option" where
  "find_victim store protect [] = None"
| "find_victim store protect (x # xs) =
     (if \<not> prefill_done (store x) \<or> x \<in> set protect then find_victim store protect xs
      else if output_token_ids (store x) \<noteq> [] then Some x else find_victim store protect xs)"

definition preempt_victim :: "oid list \<Rightarrow> planner \<Rightarrow> (planner \<times> oid option) res" where
  "preempt_victim protect P =
     (case find_victim (objs P) protect (rev (running P)) of
        None \<Rightarrow> Inr (P, None)
      | Some x \<Rightarrow> rbind (preempt x P) (\<lambda>P'. Inr (P', Some x)))"

definition maybe_preempt :: "oid list \<Rightarrow> planner \<Rightarrow> (planner \<times> oid option) res" where
  "maybe_preempt prefill P =
     (if \<not> enable_preemption (pconfig P) then Inr (P, None) else preempt_victim prefill P)"

definition kv_allocate :: "rid \<Rightarrow> nat \<Rightarrow> prefix_match option \<Rightarrow> planner \<Rightarrow> (planner \<times> bool) res" where
  "kv_allocate rid n m P = rbind (allocate rid n m (kv P)) (\<lambda>(pc, ok). Inr (P\<lparr>kv := pc\<rparr>, ok))"

text \<open>The \<^verbatim>\<open>while True\<close> loop of \<^verbatim>\<open>_reserve\<close>: every round that goes on has evicted a running request.\<close>

fun reserve_loop ::
  "nat \<Rightarrow> oid \<Rightarrow> nat \<Rightarrow> oid list \<Rightarrow> oid list \<Rightarrow> planner \<Rightarrow> (planner \<times> oid list \<times> bool) res" where
  "reserve_loop 0 x n protect victims P = Inl OutOfFuel"
| "reserve_loop (Suc fuel) x n protect victims P =
     rbind (preempt_victim protect P) (\<lambda>(P1, v).
       case v of
         None \<Rightarrow> Inr (P1, victims, False)
       | Some y \<Rightarrow>
           rbind (kv_allocate (request_id (objs P1 x)) n None P1) (\<lambda>(P2, ok).
             if ok then Inr (P2, victims @ [y], True)
             else reserve_loop fuel x n protect (victims @ [y]) P2))"

definition reserve ::
  "oid \<Rightarrow> nat \<Rightarrow> oid list \<Rightarrow> oid list \<Rightarrow> planner \<Rightarrow> (planner \<times> oid list \<times> bool) res" where
  "reserve x n protect victims P =
     rbind (kv_allocate (request_id (objs P x)) n None P) (\<lambda>(P1, ok).
       if ok then Inr (P1, victims, True)
       else reserve_loop (length (running P1) + 1) x n (protect @ [x]) victims P1)"


section \<open>Offloading\<close>

text \<open>The probe of the tier over the block numbers past the GPU hit: the run of keys that are resident.\<close>

primrec probe_tier :: "bhash list \<Rightarrow> nat list \<Rightarrow> tier \<Rightarrow> (tier \<times> bhash list) res" where
  "probe_tier hashes [] t = Inr (t, [])"
| "probe_tier hashes (i # is) t =
     (if length hashes \<le> i then Inl IndexError
      else case tier_lookup (hashes ! i) t of (t1, r) \<Rightarrow>
        if r \<noteq> HIT then Inr (t1, [])
        else rbind (probe_tier hashes is t1) (\<lambda>(t2, keys). Inr (t2, hashes ! i # keys)))"

definition try_start_promotion ::
  "env \<Rightarrow> oid \<Rightarrow> bhash list \<Rightarrow> prefix_match \<Rightarrow> planner \<Rightarrow> (planner \<times> bool) res" where
  "try_start_promotion E x hashes m P =
     (case offloading P of
        None \<Rightarrow> Inr (P, False)
      | Some t \<Rightarrow>
          let r = objs P x; rid = request_id r;
              start = match_tokens m div BLOCK_SIZE;
              limit = (prompt_len r - 1) div BLOCK_SIZE
          in rbind (probe_tier hashes [start..<limit] t) (\<lambda>(t1, keys).
               let P1 = P\<lparr>offloading := Some t1\<rparr>;
                   num_tokens = (start + length keys) * BLOCK_SIZE
               in if keys = [] then Inr (P1, False)
                  else rbind (kv_allocate rid num_tokens (Some m) P1) (\<lambda>(P2, ok).
                    if \<not> ok then Inr (P2, False)
                    else let gpu = take (length keys) (drop start (block_ids rid (kv P2) ! 0))
                         in rbind (prepare_load (submit E) keys gpu t1) (\<lambda>(t2, spec).
                              case spec of
                                None \<Rightarrow>
                                  rbind (cache_free rid (kv P2)) (\<lambda>pc.
                                  rbind (track (digest E) rid (prompt_token_ids r) pc) (\<lambda>(pc', _).
                                    Inr (P2\<lparr>kv := pc', offloading := Some t2\<rparr>, False)))
                              | Some _ \<Rightarrow>
                                  Inr (P2\<lparr>offloading := Some t2,
                                          pending_promotes := AList.update rid
                                            \<lparr>pr_request = x, pr_gpu_blocks = gpu, pr_num_tokens = num_tokens\<rparr>
                                            (pending_promotes P2),
                                          promotion_by_blocks := AList.update gpu rid (promotion_by_blocks P2)\<rparr>,
                                       True)))))"

definition take_promotion :: "nat list \<Rightarrow> planner \<Rightarrow> planner \<times> promotion option" where
  "take_promotion gpu P =
     (if gpu = [] then (P, None)
      else case map_of (promotion_by_blocks P) gpu of
             None \<Rightarrow> (P, None)
           | Some rid \<Rightarrow>
               let P1 = P\<lparr>promotion_by_blocks := AList.delete gpu (promotion_by_blocks P)\<rparr>
               in case map_of (pending_promotes P) rid of
                    Some pr \<Rightarrow> (P1\<lparr>pending_promotes := AList.delete rid (pending_promotes P)\<rparr>, Some pr)
                  | None \<Rightarrow> (P1\<lparr>dying_promotes := AList.delete rid (dying_promotes P)\<rparr>,
                              map_of (dying_promotes P) rid))"

definition land_event :: "offload_event \<Rightarrow> planner \<Rightarrow> planner res" where
  "land_event ev P =
     (if ev_kind ev \<noteq> Load then Inr P
      else case take_promotion (ev_gpu_blocks ev) P of (P1, pr) \<Rightarrow>
        case pr of
          None \<Rightarrow> Inr P1
        | Some q \<Rightarrow>
            let x = pr_request q; rid = request_id (objs P1 x)
            in if status (objs P1 x) = FINISHED
               then rbind (cache_free rid (kv P1)) (\<lambda>pc. Inr (P1\<lparr>kv := pc\<rparr>))
               else rbind (commit rid (pr_num_tokens q) (kv P1)) (\<lambda>(pc, _).
                      Inr ((upd_obj x (\<lambda>r. r\<lparr>num_computed_tokens := pr_num_tokens q,
                                             req_cached_tokens := pr_num_tokens q\<rparr>) (P1\<lparr>kv := pc\<rparr>))
                             \<lparr>ready_promotes := ready_promotes P1 @ [x]\<rparr>)))"

definition drain_offload_events :: "env \<Rightarrow> planner \<Rightarrow> planner res" where
  "drain_offload_events E P =
     (case offloading P of
        None \<Rightarrow> Inr P
      | Some t \<Rightarrow> rbind (take_events (query E) t) (\<lambda>(t', evs).
                    rfold land_event evs (P\<lparr>offloading := Some t'\<rparr>)))"

text \<open>Giving a request its slot; the caller has checked that one is free.\<close>

definition seat :: "env \<Rightarrow> oid \<Rightarrow> planner \<Rightarrow> planner res" where
  "seat E x P =
     (if free_slots P = [] then Inl IndexError
      else case monotonic E (P\<lparr>free_slots := butlast (free_slots P)\<rparr>) of (P1, now) \<Rightarrow>
        Inr ((upd_obj x (\<lambda>r. r\<lparr>slot := Some (last (free_slots P)), status := RUNNING,
                               scheduled_time := Some now\<rparr>) P1)
               \<lparr>running := running P @ [x]\<rparr>))"

fun promote_loop :: "nat \<Rightarrow> env \<Rightarrow> planner \<Rightarrow> planner res" where
  "promote_loop fuel E P =
     (case ready_promotes P of
        [] \<Rightarrow> Inr P
      | x # xs \<Rightarrow>
          if free_slots P = [] \<or> length (running P) \<ge> pmax_num_seqs P then Inr P
          else case fuel of 0 \<Rightarrow> Inl OutOfFuel
               | Suc n \<Rightarrow> rbind (seat E x (P\<lparr>ready_promotes := xs\<rparr>)) (promote_loop n E))"

declare promote_loop.simps [simp del]

definition promote_ready :: "env \<Rightarrow> planner \<Rightarrow> planner res" where
  "promote_ready E P = promote_loop (length (ready_promotes P)) E P"

definition retire_promotion :: "oid \<Rightarrow> planner \<Rightarrow> planner \<times> bool" where
  "retire_promotion x P =
     (let rid = request_id (objs P x)
      in case map_of (pending_promotes P) rid of
           Some q \<Rightarrow> (P\<lparr>pending_promotes := AList.delete rid (pending_promotes P),
                        dying_promotes := AList.update rid q (dying_promotes P),
                        promotion_by_blocks := AList.update (pr_gpu_blocks q) rid (promotion_by_blocks P)\<rparr>, True)
         | None \<Rightarrow> (P\<lparr>ready_promotes := filter (\<lambda>y. y \<noteq> x) (ready_promotes P)\<rparr>, False))"

section \<open>Retirement\<close>

definition free_unless :: "bool \<Rightarrow> rid \<Rightarrow> planner \<Rightarrow> planner res" where
  "free_unless deferred rid P =
     (if deferred then Inr P else rbind (cache_free rid (kv P)) (\<lambda>pc. Inr (P\<lparr>kv := pc\<rparr>)))"

definition finish :: "env \<Rightarrow> oid \<Rightarrow> string \<Rightarrow> planner \<Rightarrow> planner res" where
  "finish E x reason P =
     (let r = objs P x; rid = request_id r
      in if status r = FINISHED then Inr P
         else case monotonic E P of (P0, now) \<Rightarrow>
           let P1 = upd_obj x (\<lambda>r. r\<lparr>status := FINISHED, finish_reason := Some reason,
                                     finish_time := Some now\<rparr>) P0;
               P2 = release_slot x P1
           in rbind (if status r = RUNNING then settle_pending_blocks E x (discard_running x P2)
                     else Inr (P2\<lparr>waiting := AList.delete rid (waiting P2)\<rparr>)) (\<lambda>P3.
                case retire_promotion x P3 of (P4, deferred) \<Rightarrow>
                  rbind (free_unless deferred rid P4) (\<lambda>P5.
                    Inr (if map_of (live P5) rid = Some x
                         then P5\<lparr>live := AList.delete rid (live P5)\<rparr> else P5))))"

definition abort :: "env \<Rightarrow> rid \<Rightarrow> planner \<Rightarrow> (planner \<times> oid option) res" where
  "abort E rid P =
     (case map_of (live P) rid of
        None \<Rightarrow> Inr (P, None)
      | Some x \<Rightarrow>
          if status (objs P x) = WAITING
          then case monotonic E (P\<lparr>waiting := AList.delete rid (waiting P)\<rparr>) of (P1, now) \<Rightarrow>
            case retire_promotion x (upd_obj x (\<lambda>r. r\<lparr>status := FINISHED, finish_reason := Some ''abort'',
                                                    finish_time := Some now\<rparr>) P1) of (P2, deferred) \<Rightarrow>
              rbind (free_unless deferred rid P2) (\<lambda>P3.
                Inr (P3\<lparr>live := AList.delete rid (live P3)\<rparr>, Some x))
          else rbind (finish E x ''abort'' P) (\<lambda>P1. Inr (P1, Some x)))"

section \<open>Planning a step\<close>

definition chunk_size :: "scheduler_config \<Rightarrow> nat \<Rightarrow> nat" where
  "chunk_size c remaining =
     (if \<not> enable_chunked_prefill c then remaining
      else min (min remaining (max_chunk_size c)) (max_num_batched_tokens c))"

text \<open>\<^verbatim>\<open>_chunk_of\<close>, with the progress made explicit (the request's own, or the one passed in).\<close>

definition chunk_of :: "planner \<Rightarrow> oid \<Rightarrow> nat \<Rightarrow> nat" where
  "chunk_of P x progress = chunk_size (pconfig P) (prompt_len (objs P x) - progress)"

record work =
  wk_prefill :: "oid list"
  wk_lens :: "nat list"
  wk_preempted :: "oid list"

definition resume_one :: "nat \<Rightarrow> planner \<times> work \<Rightarrow> (planner \<times> work) res" where
  "resume_one i s =
     (case s of (P, w) \<Rightarrow>
        if length (running P) \<le> i then Inr (P, w)
        else let x = running P ! i
             in if prefill_done (objs P x) then Inr (P, w)
                else let P1 = upd_obj x (\<lambda>r. r\<lparr>block_plan := []\<rparr>) P;
                         chunk = chunk_of P1 x (num_computed_tokens (objs P1 x));
                         reach = num_computed_tokens (objs P1 x) + chunk
                     in rbind (reserve x reach (wk_prefill w) (wk_preempted w) P1) (\<lambda>(P2, victims, ok).
                          if \<not> ok then Inr (P2, w\<lparr>wk_preempted := victims\<rparr>)
                          else rbind (map_blocks x (upd_obj x (\<lambda>r. r\<lparr>num_computed_tokens := reach\<rparr>) P2)) (\<lambda>P3.
                            Inr (track_pending x reach P3,
                                 \<lparr>wk_prefill = wk_prefill w @ [x], wk_lens = wk_lens w @ [chunk],
                                  wk_preempted = victims\<rparr>))))"

definition resume_all :: "planner \<times> work \<Rightarrow> (planner \<times> work) res" where
  "resume_all s = rfold resume_one [0..<length (running (fst s))] s"

definition defer_admission :: "oid list \<Rightarrow> planner \<Rightarrow> bool" where
  "defer_admission resumed P \<longleftrightarrow>
     \<not> (decode_window_steps (pconfig P) = 0 \<or> waiting P = [] \<or> resumed \<noteq> []) \<and>
     \<not> decode_window_steps (pconfig P) \<le> deferred_steps P \<and>
     (\<exists>x \<in> set (running P). prefill_done (objs P x))"

datatype outcome = Continue | Break

text \<open>
  The part of an admission after the victim search: price the uncached remainder, allocate, and seat.
\<close>

definition admit_seat ::
  "env \<Rightarrow> oid \<Rightarrow> prefix_match \<Rightarrow> nat \<Rightarrow> planner \<times> work \<Rightarrow> (planner \<times> work \<times> nat \<times> outcome) res" where
  "admit_seat E x m longest s =
     (case s of (P, w) \<Rightarrow>
        let rid = request_id (objs P x);
            chunk = chunk_of P x (match_tokens m);
            reach = match_tokens m + chunk
        in rbind (kv_allocate rid reach (Some m) P) (\<lambda>(P1, ok).
             if \<not> ok then
               rbind (cache_free rid (kv P1)) (\<lambda>pc.
               rbind (maybe_preempt (wk_prefill w) (P1\<lparr>kv := pc\<rparr>)) (\<lambda>(P2, v).
                 Inr (P2, w\<lparr>wk_preempted := wk_preempted w @ (case v of None \<Rightarrow> [] | Some y \<Rightarrow> [y])\<rparr>,
                      longest, Break)))
             else
               rbind (seat E x (P1\<lparr>waiting := AList.delete rid (waiting P1)\<rparr>)) (\<lambda>P2.
               rbind (map_blocks x (upd_obj x (\<lambda>r. r\<lparr>req_cached_tokens := match_tokens m,
                                                     num_computed_tokens := reach\<rparr>) P2)) (\<lambda>P3.
                 Inr (track_pending x reach P3,
                      w\<lparr>wk_prefill := wk_prefill w @ [x], wk_lens := wk_lens w @ [chunk]\<rparr>,
                      max longest chunk,
                      if wk_preempted w \<noteq> [] then Break else Continue)))))"

text \<open>One round of the admission loop, for the request at the head of the queue.\<close>

definition admit_one ::
  "env \<Rightarrow> oid \<Rightarrow> nat \<Rightarrow> planner \<times> work \<Rightarrow> (planner \<times> work \<times> nat \<times> outcome) res" where
  "admit_one E x longest s =
     (case s of (P, w) \<Rightarrow>
        let rid = request_id (objs P x)
        in rbind (track (digest E) rid (prompt_token_ids (objs P x)) (kv P)) (\<lambda>(pc1, hashes).
           rbind (lookup hashes (prompt_len (objs P x)) pc1) (\<lambda>(pc2, m).
           rbind (case offloading P of
                    None \<Rightarrow> Inr (P\<lparr>kv := pc2\<rparr>)
                  | Some t \<Rightarrow> if match_tokens m = 0 then Inr (P\<lparr>kv := pc2\<rparr>)
                              else rbind (tier_touch (take (match_tokens m div BLOCK_SIZE) hashes) t) (\<lambda>t'.
                                     Inr (P\<lparr>kv := pc2, offloading := Some t'\<rparr>))) (\<lambda>P1.
           rbind (try_start_promotion E x hashes m P1) (\<lambda>(P2, started).
             if started then
               Inr (P2\<lparr>waiting := AList.delete rid (waiting P2)\<rparr>, w, longest,
                    if wk_preempted w \<noteq> [] then Break else Continue)
             else if length (running P2) \<ge> pmax_num_seqs P2 then Inr (P2, w, longest, Break)
             else let chunk = chunk_of P2 x 0;
                      padded = max longest chunk * (length (wk_prefill w) + 1)
                  in if wk_prefill w \<noteq> [] \<and> padded > max_num_batched_tokens (pconfig P2)
                     then Inr (P2, w, longest, Break)
                     else if free_slots P2 = [] then
                       rbind (maybe_preempt (wk_prefill w) P2) (\<lambda>(P3, v).
                         case v of
                           None \<Rightarrow> Inr (P3, w, longest, Break)
                         | Some y \<Rightarrow> admit_seat E x m longest (P3, w\<lparr>wk_preempted := wk_preempted w @ [y]\<rparr>))
                     else admit_seat E x m longest (P2, w))))))"

fun admit_loop :: "nat \<Rightarrow> env \<Rightarrow> nat \<Rightarrow> planner \<times> work \<Rightarrow> (planner \<times> work) res" where
  "admit_loop fuel E longest (P, w) =
     (case waiting P of
        [] \<Rightarrow> Inr (P, w)
      | (rid, x) # rest \<Rightarrow>
          case fuel of
            0 \<Rightarrow> Inl OutOfFuel
          | Suc n \<Rightarrow> rbind (admit_one E x longest (P, w)) (\<lambda>(P1, w1, longest1, out).
                       case out of Break \<Rightarrow> Inr (P1, w1) | Continue \<Rightarrow> admit_loop n E longest1 (P1, w1)))"

declare admit_loop.simps [simp del]

definition admit :: "env \<Rightarrow> planner \<times> work \<Rightarrow> (planner \<times> work) res" where
  "admit E s =
     (case s of (P, w) \<Rightarrow>
        if defer_admission (wk_prefill w) P then Inr (P\<lparr>deferred_steps := deferred_steps P + 1\<rparr>, w)
        else admit_loop (length (waiting P)) E (foldr max (wk_lens w) 0) (P\<lparr>deferred_steps := 0\<rparr>, w))"

text \<open>One decode request: \<open>granted\<close> are the requests that already have work this step.\<close>

definition grow_one ::
  "oid \<Rightarrow> planner \<times> oid list \<times> oid list \<Rightarrow> (planner \<times> oid list \<times> oid list) res" where
  "grow_one x s =
     (case s of (P, granted, preempted) \<Rightarrow>
        if status (objs P x) \<noteq> RUNNING then Inr (P, granted, preempted)
        else let P1 = upd_obj x (\<lambda>r. r\<lparr>block_plan := []\<rparr>) P;
                 limit = max_seq_len (pconfig P);
                 reach = nat (min (int (seq_len (objs P1 x)) + pending_tokens (objs P1 x) + 1) (int limit))
             in rbind (reserve x reach granted preempted P1) (\<lambda>(P2, victims, ok).
                  if ok then rbind (map_blocks x P2) (\<lambda>P3.
                    Inr (track_pending x (min (seq_len (objs P3 x)) limit) P3, granted @ [x], victims))
                  else rbind (preempt x P2) (\<lambda>P3. Inr (P3, granted, victims @ [x]))))"

definition grow_decode ::
  "oid list \<Rightarrow> planner \<times> work \<Rightarrow> (planner \<times> work \<times> oid list) res" where
  "grow_decode decode s =
     (case s of (P, w) \<Rightarrow>
        rbind (rfold grow_one decode (P, wk_prefill w, wk_preempted w)) (\<lambda>(P1, granted, preempted).
          Inr (P1, w\<lparr>wk_preempted := preempted\<rparr>,
               if preempted \<noteq> [] then filter (\<lambda>x. status (objs P1 x) = RUNNING) decode else decode)))"

definition decode_set :: "planner \<Rightarrow> oid list \<Rightarrow> oid list" where
  "decode_set P prefill =
     (let just = filter (\<lambda>x. prefill_done (objs P x)) prefill
      in filter (\<lambda>x. prefill_done (objs P x) \<and> x \<notin> set just) (running P))"

definition plan :: "env \<Rightarrow> planner \<Rightarrow> (planner \<times> step_plan) res" where
  "plan E P =
     rbind (drain_offload_events E P) (\<lambda>P1.
     rbind (promote_ready E P1) (\<lambda>P2.
     rbind (commit_pending_blocks E P2) (\<lambda>P3.
     rbind (resume_all (P3, \<lparr>wk_prefill = [], wk_lens = [], wk_preempted = []\<rparr>)) (\<lambda>s4.
     rbind (admit E s4) (\<lambda>(P5, w5).
     rbind (grow_decode (decode_set P5 (wk_prefill w5)) (P5, w5)) (\<lambda>(P6, w6, decode).
       Inr (P6, \<lparr>sp_prefill = wk_prefill w6, sp_decode = decode, sp_chunk_lens = wk_lens w6,
                 sp_preempted = wk_preempted w6\<rparr>)))))))"

text \<open>The \<^verbatim>\<open>while fit > 0\<close> loop of \<^verbatim>\<open>reserve_speculative\<close>.\<close>

primrec speculative_loop :: "nat \<Rightarrow> oid \<Rightarrow> planner \<Rightarrow> (planner \<times> nat) res" where
  "speculative_loop 0 x P = Inr (P, 0)"
| "speculative_loop (Suc fit) x P =
     rbind (kv_allocate (request_id (objs P x)) (seq_len (objs P x) + Suc fit) None P) (\<lambda>(P1, ok).
       if ok then rbind (take_table_writes (request_id (objs P x)) (kv P1)) (\<lambda>(pc, ws).
         Inr (upd_obj x (\<lambda>r. r\<lparr>block_plan := block_plan r @ ws\<rparr>) (P1\<lparr>kv := pc\<rparr>), Suc fit))
       else speculative_loop fit x P1)"

definition reserve_speculative :: "oid \<Rightarrow> nat \<Rightarrow> planner \<Rightarrow> (planner \<times> nat) res" where
  "reserve_speculative x draft_rows P =
     speculative_loop (min draft_rows (max_seq_len (pconfig P) - seq_len (objs P x))) x P"

section \<open>Views\<close>

definition num_running :: "planner \<Rightarrow> nat" where
  "num_running P = length (running P)"

definition num_waiting :: "planner \<Rightarrow> nat" where
  "num_waiting P = length (waiting P)"

definition num_promoting :: "planner \<Rightarrow> nat" where
  "num_promoting P = length (pending_promotes P) + length (ready_promotes P)"

definition has_unfinished_requests :: "planner \<Rightarrow> bool" where
  "has_unfinished_requests P \<longleftrightarrow>
     waiting P \<noteq> [] \<or> running P \<noteq> [] \<or> pending_promotes P \<noteq> [] \<or> ready_promotes P \<noteq> [] \<or>
     dying_promotes P \<noteq> []"

end
