(* ===== verification/Planner_Invariant.thy ===== *)
theory Planner_Invariant
  imports Batch_Planner
begin

text \<open>
  The invariant of the batch planner and its preservation by every operation, for a planner without a CPU
  tier. \<open>planner_inv\<close> says that the slots are partitioned between the free list and the running requests,
  that a live request is in exactly one of the two queues, that only running requests hold KV blocks and
  hold enough of them for what they have computed, and that every tracked hash chain is the chain of a
  prefix of the request's own tokens. It follows that no operation raises and that every loop ends.
\<close>

declare map_of_eq_Some_iff [simp del]

section \<open>The invariant\<close>

definition no_offload :: "planner \<Rightarrow> bool" where
  "no_offload P \<longleftrightarrow>
     offloading P = None \<and> pending_promotes P = [] \<and> ready_promotes P = [] \<and> dying_promotes P = []"

definition slots_ok :: "planner \<Rightarrow> bool" where
  "slots_ok P \<longleftrightarrow>
     (\<forall>x \<in> set (running P). slot (objs P x) \<noteq> None) \<and>
     mset (map (\<lambda>x. the (slot (objs P x))) (running P)) + mset (free_slots P) = mset [0..<num_slots P]"

definition wf_req :: "scheduler_config \<Rightarrow> request \<Rightarrow> bool" where
  "wf_req c r \<longleftrightarrow>
     0 < prompt_len r \<and> tokens_ok (prompt_token_ids r @ output_token_ids r) \<and>
     int (prompt_len r) + max_new_tokens r \<le> int (max_seq_len c) \<and>
     int (length (output_token_ids r)) \<le> max_new_tokens r"

definition queues_ok :: "planner \<Rightarrow> bool" where
  "queues_ok P \<longleftrightarrow>
     distinct (running P) \<and> dict_ok (waiting P) \<and> dict_ok (live P) \<and>
     (\<forall>x \<in> set (running P). status (objs P x) = RUNNING \<and> map_of (live P) (request_id (objs P x)) = Some x \<and>
        num_computed_tokens (objs P x) \<le> prompt_len (objs P x)) \<and>
     (\<forall>rid x. map_of (waiting P) rid = Some x \<longrightarrow>
        status (objs P x) = WAITING \<and> slot (objs P x) = None \<and> output_token_ids (objs P x) = [] \<and>
        map_of (live P) rid = Some x) \<and>
     (\<forall>rid x. map_of (live P) rid = Some x \<longrightarrow>
        request_id (objs P x) = rid \<and> wf_req (pconfig P) (objs P x) \<and>
        (x \<in> set (running P) \<or> map_of (waiting P) rid = Some x)) \<and>
     length (running P) \<le> pmax_num_seqs P \<and>
     (\<forall>xu \<in> set (pending_blocks P). fst xu \<in> set (running P))"

definition tokens :: "request \<Rightarrow> int list" where
  "tokens r = prompt_token_ids r @ output_token_ids r"

definition chain_of_live :: "(bytes \<Rightarrow> bytes) \<Rightarrow> planner \<Rightarrow> rid \<Rightarrow> prefix_cache \<Rightarrow> bool" where
  "chain_of_live D P rid pc \<longleftrightarrow>
     (map_of (sequences pc) rid \<noteq> None \<longrightarrow>
       (\<exists>x k. map_of (live P) rid = Some x \<and> tracks D rid (take k (tokens (objs P x))) pc))"

definition kv_ok :: "(bytes \<Rightarrow> bytes) \<Rightarrow> planner \<Rightarrow> bool" where
  "kv_ok D P \<longleftrightarrow>
     cache_inv (kv P) \<and> pc_block_size (kv P) = BLOCK_SIZE \<and>
     (\<forall>rid. rows_held rid (kv P) \<noteq> [] \<longrightarrow> (\<exists>x \<in> set (running P). request_id (objs P x) = rid)) \<and>
     (\<forall>x \<in> set (running P).
        num_computed_tokens (objs P x) \<le> length (rows_held (request_id (objs P x)) (kv P)) * BLOCK_SIZE \<and>
        map_of (sequences (kv P)) (request_id (objs P x)) \<noteq> None) \<and>
     (\<forall>rid. chain_of_live D P rid (kv P))"

definition planner_inv :: "(bytes \<Rightarrow> bytes) \<Rightarrow> planner \<Rightarrow> bool" where
  "planner_inv D P \<longleftrightarrow>
     config_check (pconfig P) = Inr (pconfig P) \<and> no_offload P \<and> slots_ok P \<and> queues_ok P \<and> kv_ok D P"

lemma queues_okD:
  assumes "queues_ok P"
  shows "distinct (running P)" "dict_ok (waiting P)" "dict_ok (live P)"
    "x \<in> set (running P) \<Longrightarrow> status (objs P x) = RUNNING"
    "x \<in> set (running P) \<Longrightarrow> map_of (live P) (request_id (objs P x)) = Some x"
    "x \<in> set (running P) \<Longrightarrow> num_computed_tokens (objs P x) \<le> prompt_len (objs P x)"
    "map_of (waiting P) rid = Some x \<Longrightarrow> status (objs P x) = WAITING \<and> slot (objs P x) = None \<and>
        output_token_ids (objs P x) = [] \<and> map_of (live P) rid = Some x"
    "map_of (live P) rid = Some x \<Longrightarrow> request_id (objs P x) = rid"
    "map_of (live P) rid = Some x \<Longrightarrow> wf_req (pconfig P) (objs P x)"
    "map_of (live P) rid = Some x \<Longrightarrow> x \<in> set (running P) \<or> map_of (waiting P) rid = Some x"
    "length (running P) \<le> pmax_num_seqs P"
    "(x, u) \<in> set (pending_blocks P) \<Longrightarrow> x \<in> set (running P)"
  using assms unfolding queues_ok_def by (simp_all, metis fst_conv)

lemma kv_okD:
  assumes "kv_ok D P"
  shows "cache_inv (kv P)" "pc_block_size (kv P) = BLOCK_SIZE"
    "rows_held rid (kv P) \<noteq> [] \<Longrightarrow> \<exists>x \<in> set (running P). request_id (objs P x) = rid"
    "x \<in> set (running P) \<Longrightarrow>
       num_computed_tokens (objs P x) \<le> length (rows_held (request_id (objs P x)) (kv P)) * BLOCK_SIZE"
    "x \<in> set (running P) \<Longrightarrow> map_of (sequences (kv P)) (request_id (objs P x)) \<noteq> None"
    "chain_of_live D P rid (kv P)"
  using assms unfolding kv_ok_def by blast+

lemma planner_invD:
  assumes "planner_inv D P"
  shows "no_offload P" "slots_ok P" "queues_ok P" "kv_ok D P" "cache_inv (kv P)" "offloading P = None"
    "config_check (pconfig P) = Inr (pconfig P)"
  using assms unfolding planner_inv_def by (auto simp: kv_ok_def no_offload_def)

section \<open>Changing the cache\<close>

definition same_chain :: "rid \<Rightarrow> prefix_cache \<Rightarrow> prefix_cache \<Rightarrow> bool" where
  "same_chain r pc pc' \<longleftrightarrow>
     block_hashes r pc' = block_hashes r pc \<and>
     (map_of (sequences pc') r = None \<longleftrightarrow> map_of (sequences pc) r = None)"

text \<open>A change to the cache that concerns at most one request.\<close>

definition kv_frame :: "rid \<Rightarrow> prefix_cache \<Rightarrow> prefix_cache \<Rightarrow> bool" where
  "kv_frame rid pc pc' \<longleftrightarrow>
     cache_inv pc' \<and> pc_block_size pc' = pc_block_size pc \<and> hash_seed pc' = hash_seed pc \<and>
     (\<forall>r. r \<noteq> rid \<longrightarrow> rows_held r pc' = rows_held r pc \<and> same_chain r pc pc')"

lemma tracks_cong:
  assumes "same_chain r pc pc'" "pc_block_size pc' = pc_block_size pc" "hash_seed pc' = hash_seed pc"
  shows "tracks D r ts pc' = tracks D r ts pc"
  using assms by (simp add: same_chain_def tracks_def hash_tokens_def)

lemma chain_of_live_cong:
  assumes "same_chain r pc pc'" "pc_block_size pc' = pc_block_size pc" "hash_seed pc' = hash_seed pc"
  shows "chain_of_live D P r pc' = chain_of_live D P r pc"
  using assms tracks_cong [OF assms] by (simp add: chain_of_live_def same_chain_def)

lemma kv_ok_frame:
  assumes ok: "kv_ok D P" and fr: "kv_frame rid (kv P) pc'"
    and rows: "rows_held rid pc' \<noteq> [] \<Longrightarrow> \<exists>x \<in> set (running P). request_id (objs P x) = rid"
    and cover: "\<And>x. x \<in> set (running P) \<Longrightarrow> request_id (objs P x) = rid \<Longrightarrow>
      num_computed_tokens (objs P x) \<le> length (rows_held rid pc') * BLOCK_SIZE \<and>
      map_of (sequences pc') rid \<noteq> None"
    and chain: "chain_of_live D P rid pc'"
  shows "kv_ok D (P\<lparr>kv := pc'\<rparr>)"
  unfolding kv_ok_def
proof (intro conjI allI ballI impI)
  have fr': "cache_inv pc'" "pc_block_size pc' = pc_block_size (kv P)" "hash_seed pc' = hash_seed (kv P)"
    "\<And>r. r \<noteq> rid \<Longrightarrow> rows_held r pc' = rows_held r (kv P) \<and> same_chain r (kv P) pc'"
    using fr by (auto simp: kv_frame_def)
  show "cache_inv (kv (P\<lparr>kv := pc'\<rparr>))" "pc_block_size (kv (P\<lparr>kv := pc'\<rparr>)) = BLOCK_SIZE"
    using fr' kv_okD(2) [OF ok] by simp_all
  show "\<exists>x \<in> set (running (P\<lparr>kv := pc'\<rparr>)). request_id (objs (P\<lparr>kv := pc'\<rparr>) x) = r"
    if "rows_held r (kv (P\<lparr>kv := pc'\<rparr>)) \<noteq> []" for r
    using that rows fr'(4) kv_okD(3) [OF ok, of r] by (cases "r = rid") auto
  fix x assume x: "x \<in> set (running (P\<lparr>kv := pc'\<rparr>))"
  let ?r = "request_id (objs P x)"
  have "num_computed_tokens (objs P x) \<le> length (rows_held ?r pc') * BLOCK_SIZE \<and>
      map_of (sequences pc') ?r \<noteq> None"
    using x cover kv_okD(4,5) [OF ok, of x] fr'(4) [of ?r]
    by (cases "?r = rid") (auto simp: same_chain_def)
  then show "num_computed_tokens (objs (P\<lparr>kv := pc'\<rparr>) x) \<le>
      length (rows_held (request_id (objs (P\<lparr>kv := pc'\<rparr>) x)) (kv (P\<lparr>kv := pc'\<rparr>))) * BLOCK_SIZE"
    "map_of (sequences (kv (P\<lparr>kv := pc'\<rparr>))) (request_id (objs (P\<lparr>kv := pc'\<rparr>) x)) \<noteq> None" by simp_all
next
  fix r
  have "chain_of_live D P r pc'"
    using chain fr kv_okD(6) [OF ok, of r] chain_of_live_cong [of r "kv P" pc' D P]
    by (cases "r = rid") (auto simp: kv_frame_def)
  then show "chain_of_live D (P\<lparr>kv := pc'\<rparr>) r (kv (P\<lparr>kv := pc'\<rparr>))" by (simp add: chain_of_live_def)
qed

lemma planner_inv_kv:
  assumes inv: "planner_inv D P" and ok: "kv_ok D (P\<lparr>kv := pc'\<rparr>)"
  shows "planner_inv D (P\<lparr>kv := pc'\<rparr>)"
  using inv ok unfolding planner_inv_def no_offload_def slots_ok_def queues_ok_def by simp

text \<open>The cache operations as frames.\<close>

lemma frame_coord:
  assumes "cache_inv pc'" "pc' = pc\<lparr>coord := coord pc'\<rparr>" "\<And>r. r \<noteq> rid \<Longrightarrow> rows_held r pc' = rows_held r pc"
  shows "kv_frame rid pc pc'" "same_chain r pc pc'"
proof -
  have "pc_block_size pc' = pc_block_size pc" "hash_seed pc' = hash_seed pc" "sequences pc' = sequences pc"
    by (subst assms(2), simp)+
  then show "kv_frame rid pc pc'" "same_chain r pc pc'"
    using assms(1,3) by (auto simp: kv_frame_def same_chain_def block_hashes_def)
qed

lemma same_chain_running:
  assumes "kv_ok D P" "same_chain rid (kv P) pc'" "pc_block_size pc' = pc_block_size (kv P)"
    "hash_seed pc' = hash_seed (kv P)"
  shows "chain_of_live D P rid pc'"
  using chain_of_live_cong [OF assms(2-4)] kv_okD(6) [OF assms(1)] by blast


section \<open>Cache operations on behalf of a running request\<close>

lemma kv_allocate_ok:
  assumes inv: "planner_inv D P" and x: "x \<in> set (running P)"
  shows "\<exists>pc' ok. kv_allocate (request_id (objs P x)) n None P = Inr (P\<lparr>kv := pc'\<rparr>, ok) \<and>
    planner_inv D (P\<lparr>kv := pc'\<rparr>) \<and> (\<forall>r. length (rows_held r (kv P)) \<le> length (rows_held r pc')) \<and>
    (ok \<longrightarrow> n \<le> length (rows_held (request_id (objs P x)) pc') * BLOCK_SIZE)"
proof -
  let ?r = "request_id (objs P x)"
  note ki = planner_invD(5) [OF inv] and ko = planner_invD(4) [OF inv]
  obtain pc' ok where a: "allocate ?r n None (kv P) = Inr (pc', ok)"
    "cache_inv pc'" "pc' = (kv P)\<lparr>coord := coord pc'\<rparr>" "\<And>r. r \<noteq> ?r \<Longrightarrow> rows_held r pc' = rows_held r (kv P)"
    "length (rows_held ?r (kv P)) \<le> length (rows_held ?r pc')"
    "ok \<Longrightarrow> n \<le> length (rows_held ?r pc') * pc_block_size (kv P)"
    using allocate_plain [OF ki, where n = n and rid = ?r]
    by (cases "missing_blocks (kv P) n (rows_held ?r (kv P)) \<le> length (free_list (pool (coord (kv P))))")
      (fastforce simp: grown_def unchanged_ledger_def not_le)+
  note fr = frame_coord [OF a(2,3,4)]
  have geo: "pc_block_size pc' = pc_block_size (kv P)" "hash_seed pc' = hash_seed (kv P)"
    using fr(1) by (auto simp: kv_frame_def)
  have "num_computed_tokens (objs P x) \<le> length (rows_held ?r pc') * BLOCK_SIZE"
    using kv_okD(4) [OF ko x] a(5) by (meson le_trans mult_le_mono1)
  moreover have "map_of (sequences pc') ?r \<noteq> None"
    using fr(2) [of ?r] kv_okD(5) [OF ko x] by (simp add: same_chain_def)
  moreover have "y = x" if "y \<in> set (running P)" "request_id (objs P y) = ?r" for y
    using that queues_okD(5) [OF planner_invD(3) [OF inv]] x by (metis option.inject)
  ultimately have "kv_ok D (P\<lparr>kv := pc'\<rparr>)"
    using x by (intro kv_ok_frame [OF ko fr(1)] same_chain_running [OF ko fr(2) geo]) auto
  moreover have "length (rows_held r (kv P)) \<le> length (rows_held r pc')" for r
    using a(4) [of r] a(5) by (cases "r = ?r") auto
  ultimately show ?thesis
    using a(1,6) planner_inv_kv [OF inv] kv_okD(2) [OF ko] by (auto simp: kv_allocate_def)
qed

text \<open>Fields of a running request that the invariant does not read, or reads only through a bound.\<close>

definition core :: "request \<Rightarrow> rid \<times> int list \<times> int list \<times> int \<times> status \<times> nat option" where
  "core r = (request_id r, prompt_token_ids r, output_token_ids r, max_new_tokens r, status r, slot r)"

lemma core_eq:
  assumes "core r = core r'"
  shows "request_id r = request_id r'" "prompt_token_ids r = prompt_token_ids r'"
    "output_token_ids r = output_token_ids r'" "max_new_tokens r = max_new_tokens r'" "status r = status r'"
    "slot r = slot r'" "prompt_len r = prompt_len r'" "tokens r = tokens r'" "wf_req c r = wf_req c r'"
  using assms by (simp_all add: core_def prompt_len_def tokens_def wf_req_def)

lemma planner_inv_upd_obj:
  assumes inv: "planner_inv D P" and c: "core (f (objs P x)) = core (objs P x)"
    and b: "x \<in> set (running P) \<Longrightarrow> num_computed_tokens (f (objs P x)) \<le> prompt_len (objs P x) \<and>
      num_computed_tokens (f (objs P x)) \<le> length (rows_held (request_id (objs P x)) (kv P)) * BLOCK_SIZE"
  shows "planner_inv D (upd_obj x f P)"
proof -
  define ob where "ob = (objs P)(x := f (objs P x))"
  have co: "core (ob y) = core (objs P y)" for y using c by (simp add: ob_def)
  note ce = core_eq [OF co]
  have nc: "num_computed_tokens (ob y) \<le> prompt_len (objs P y) \<and>
      num_computed_tokens (ob y) \<le> length (rows_held (request_id (objs P y)) (kv P)) * BLOCK_SIZE"
    if "y \<in> set (running P)" for y
    using that b queues_okD(6) [OF planner_invD(3) [OF inv] that] kv_okD(4) [OF planner_invD(4) [OF inv] that]
    by (cases "y = x") (simp_all add: ob_def)
  have "slots_ok (P\<lparr>objs := ob\<rparr>)" using planner_invD(2) [OF inv] by (simp add: slots_ok_def ce)
  moreover have "queues_ok (P\<lparr>objs := ob\<rparr>)"
    using planner_invD(3) [OF inv] nc unfolding queues_ok_def by (simp add: ce)
  moreover have "kv_ok D (P\<lparr>objs := ob\<rparr>)"
    using planner_invD(4) [OF inv] nc unfolding kv_ok_def chain_of_live_def by (simp add: ce)
  ultimately show ?thesis using inv by (simp add: planner_inv_def no_offload_def ob_def)
qed

lemma map_blocks_ok:
  assumes inv: "planner_inv D P" and x: "x \<in> set (running P)"
  shows "\<exists>pc' ws. map_blocks x P = Inr (upd_obj x (\<lambda>r. r\<lparr>block_plan := ws\<rparr>) (P\<lparr>kv := pc'\<rparr>)) \<and>
    planner_inv D (upd_obj x (\<lambda>r. r\<lparr>block_plan := ws\<rparr>) (P\<lparr>kv := pc'\<rparr>)) \<and>
    (\<forall>r. rows_held r pc' = rows_held r (kv P))"
proof -
  let ?r = "request_id (objs P x)"
  note ki = planner_invD(5) [OF inv] and ko = planner_invD(4) [OF inv]
  obtain pc' ws where w: "take_table_writes ?r (kv P) = Inr (pc', ws)" "cache_inv pc'" "coord pc' = coord (kv P)"
    "\<And>r. block_hashes r pc' = block_hashes r (kv P)" "dom (map_of (sequences pc')) = dom (map_of (sequences (kv P)))"
    "pc_block_size pc' = pc_block_size (kv P)" "hash_seed pc' = hash_seed (kv P)"
    using take_table_writes_ok [OF ki] by metis
  have rows: "rows_held r pc' = rows_held r (kv P)" for r using w(3) by (simp add: rows_held_eq(2))
  have sc: "same_chain r (kv P) pc'" for r
    unfolding same_chain_def using w(4,5) by (metis domIff)
  have fr: "kv_frame ?r (kv P) pc'" using w rows sc by (simp add: kv_frame_def)
  have "kv_ok D (P\<lparr>kv := pc'\<rparr>)"
  proof (rule kv_ok_frame [OF ko fr _ _ same_chain_running [OF ko sc w(6,7)]])
    show "\<exists>y \<in> set (running P). request_id (objs P y) = ?r" using x by blast
    show "num_computed_tokens (objs P y) \<le> length (rows_held ?r pc') * BLOCK_SIZE \<and>
        map_of (sequences pc') ?r \<noteq> None" if "y \<in> set (running P)" "request_id (objs P y) = ?r" for y
      using kv_okD(4,5) [OF ko that(1)] that(2) rows sc [of ?r] by (simp add: same_chain_def)
  qed
  then have inv': "planner_inv D (P\<lparr>kv := pc'\<rparr>)" by (rule planner_inv_kv [OF inv])
  have "planner_inv D (upd_obj x (\<lambda>r. r\<lparr>block_plan := ws\<rparr>) (P\<lparr>kv := pc'\<rparr>))"
    by (rule planner_inv_upd_obj [OF inv'])
      (use planner_invD(3) [OF inv] kv_okD(4) [OF ko] rows in \<open>simp_all add: core_def queues_okD(6)\<close>)
  with w(1) rows show ?thesis by (auto simp: map_blocks_def)
qed


section \<open>Registration\<close>

lemma observe_live:
  assumes inv: "planner_inv D P" and D: "digest8 D" and x: "x \<in> set (running P)"
  shows "\<exists>pc' hs. observe D (request_id (objs P x)) (tokens (objs P x)) (kv P) = Inr (pc', hs) \<and>
    planner_inv D (P\<lparr>kv := pc'\<rparr>) \<and> (\<forall>r. rows_held r pc' = rows_held r (kv P))"
proof -
  let ?r = "request_id (objs P x)" and ?T = "tokens (objs P x)"
  note ki = planner_invD(5) [OF inv] and ko = planner_invD(4) [OF inv] and qo = planner_invD(3) [OF inv]
  have lv: "map_of (live P) ?r = Some x" by (rule queues_okD(5) [OF qo x])
  obtain k where k: "tracks D ?r (take k ?T) (kv P)"
    using kv_okD(6) [OF ko, of ?r] kv_okD(5) [OF ko x] lv by (auto simp: chain_of_live_def)
  have "tokens_ok (take k ?T @ drop k ?T)"
    using queues_okD(9) [OF qo lv] unfolding wf_req_def tokens_def append_take_drop_id by blast
  then obtain pc' hs where o: "observe D ?r (take k ?T @ drop k ?T) (kv P) = Inr (pc', hs)"
    "tracks D ?r (take k ?T @ drop k ?T) pc'"
    using observe_tracks [OF k D, of "drop k ?T"] kv_okD(2) [OF ko] by (auto simp: BLOCK_SIZE_def)
  then have o': "observe D ?r ?T (kv P) = Inr (pc', hs)" "tracks D ?r ?T pc'" by simp_all
  note oo = observe_ok [OF ki o'(1)]
  have bs: "pc_block_size pc' = pc_block_size (kv P)" "hash_seed pc' = hash_seed (kv P)"
    using o'(1) by (auto simp: observe_def split: option.splits)
  have rows: "rows_held r pc' = rows_held r (kv P)" for r using oo(2) by (simp add: rows_held_eq(2))
  have fr: "kv_frame ?r (kv P) pc'"
    using oo(1,3) bs rows by (simp add: kv_frame_def same_chain_def block_hashes_def)
  have "kv_ok D (P\<lparr>kv := pc'\<rparr>)"
  proof (rule kv_ok_frame [OF ko fr])
    show "\<exists>y \<in> set (running P). request_id (objs P y) = ?r" using x by blast
    show "num_computed_tokens (objs P y) \<le> length (rows_held ?r pc') * BLOCK_SIZE \<and>
        map_of (sequences pc') ?r \<noteq> None" if "y \<in> set (running P)" "request_id (objs P y) = ?r" for y
      using kv_okD(4) [OF ko that(1)] that(2) rows o'(2) by (simp add: tracks_def)
    show "chain_of_live D P ?r pc'"
      using lv o'(2) unfolding chain_of_live_def by (metis order_refl take_all)
  qed
  then show ?thesis using planner_inv_kv [OF inv] o'(1) rows by blast
qed

lemma commit_live:
  assumes inv: "planner_inv D P" and x: "x \<in> set (running P)"
  shows "\<exists>pc' out. commit (request_id (objs P x)) up (kv P) = Inr (pc', out) \<and>
    planner_inv D (P\<lparr>kv := pc'\<rparr>) \<and> (\<forall>r. rows_held r pc' = rows_held r (kv P))"
proof -
  let ?r = "request_id (objs P x)"
  note ki = planner_invD(5) [OF inv] and ko = planner_invD(4) [OF inv]
  obtain pc' out where c: "commit ?r up (kv P) = Inr (pc', out)" "cache_inv pc'" "hashes_added ?r up (kv P) pc'"
    "dom (map_of (sequences pc')) = dom (map_of (sequences (kv P)))"
    "pc_block_size pc' = pc_block_size (kv P)" "hash_seed pc' = hash_seed (kv P)"
    by (rule commit_ok [OF ki, of ?r up]) (rule that)
  have rows: "rows_held r pc' = rows_held r (kv P)" for r using c(3) by (simp add: hashes_added_def)
  have sc: "same_chain r (kv P) pc'" for r
    unfolding same_chain_def using c(3,4) unfolding hashes_added_def by (metis domIff)
  have fr: "kv_frame ?r (kv P) pc'" using c rows sc by (simp add: kv_frame_def)
  have "kv_ok D (P\<lparr>kv := pc'\<rparr>)"
  proof (rule kv_ok_frame [OF ko fr _ _ same_chain_running [OF ko sc c(5,6)]])
    show "\<exists>y \<in> set (running P). request_id (objs P y) = ?r" using x by blast
    show "num_computed_tokens (objs P y) \<le> length (rows_held ?r pc') * BLOCK_SIZE \<and>
        map_of (sequences pc') ?r \<noteq> None" if "y \<in> set (running P)" "request_id (objs P y) = ?r" for y
      using kv_okD(4,5) [OF ko that(1)] that(2) rows sc [of ?r] by (simp add: same_chain_def)
  qed
  then show ?thesis using planner_inv_kv [OF inv] c(1) rows by blast
qed

lemma commit_upto_ok:
  assumes inv: "planner_inv (digest E) P" and D: "digest8 (digest E)" and x: "x \<in> set (running P)"
  shows "\<exists>pc'. commit_upto E x up P = Inr (P\<lparr>kv := pc'\<rparr>) \<and> planner_inv (digest E) (P\<lparr>kv := pc'\<rparr>) \<and>
    (\<forall>r. rows_held r pc' = rows_held r (kv P))"
proof -
  let ?r = "request_id (objs P x)"
  obtain pc1 where p1: "(if length (block_hashes ?r (kv P)) < up div BLOCK_SIZE
      then rbind (observe (digest E) ?r (prompt_token_ids (objs P x) @ output_token_ids (objs P x)) (kv P))
             (\<lambda>(pc, _). Inr pc) else Inr (kv P)) = Inr pc1"
    "planner_inv (digest E) (P\<lparr>kv := pc1\<rparr>)" "\<forall>r. rows_held r pc1 = rows_held r (kv P)"
  proof (cases "length (block_hashes ?r (kv P)) < up div BLOCK_SIZE")
    case True
    obtain pc' hs where "observe (digest E) ?r (tokens (objs P x)) (kv P) = Inr (pc', hs)"
      "planner_inv (digest E) (P\<lparr>kv := pc'\<rparr>)" "\<forall>r. rows_held r pc' = rows_held r (kv P)"
      using observe_live [OF inv D x] by blast
    with True show ?thesis by (intro that [of pc']) (simp_all add: tokens_def)
  next
    case False
    with inv show ?thesis by (intro that [of "kv P"]) simp_all
  qed
  obtain pc2 out where p2: "commit ?r up pc1 = Inr (pc2, out)" "planner_inv (digest E) (P\<lparr>kv := pc2\<rparr>)"
    "\<forall>r. rows_held r pc2 = rows_held r pc1"
    using commit_live [OF p1(2), of x up] x by auto
  have "commit_upto E x up P = Inr (P\<lparr>kv := pc2\<rparr>)"
    unfolding commit_upto_def Let_def p1(1) using p2(1) planner_invD(6) [OF inv] by simp
  with p1(3) p2 show ?thesis by auto
qed

text \<open>A pass over registrations changes the cache only, and not who holds what.\<close>

definition kv_only :: "planner \<Rightarrow> planner \<Rightarrow> bool" where
  "kv_only P P' \<longleftrightarrow> (\<exists>pc. P' = P\<lparr>kv := pc\<rparr> \<and> (\<forall>r. rows_held r pc = rows_held r (kv P)))"

lemma kv_onlyD:
  assumes "kv_only P P'"
  shows "objs P' = objs P" "running P' = running P" "waiting P' = waiting P" "live P' = live P"
    "free_slots P' = free_slots P" "pending_blocks P' = pending_blocks P" "pconfig P' = pconfig P"
    "pmax_num_seqs P' = pmax_num_seqs P" "num_slots P' = num_slots P"
  using assms by (auto simp: kv_only_def)

lemma planner_inv_pending:
  "planner_inv D P \<Longrightarrow> (\<And>xu. xu \<in> set pb \<Longrightarrow> fst xu \<in> set (running P)) \<Longrightarrow>
     planner_inv D (P\<lparr>pending_blocks := pb\<rparr>)"
  unfolding planner_inv_def queues_ok_def slots_ok_def kv_ok_def chain_of_live_def no_offload_def by simp


lemma kv_only_trans: "kv_only P Q \<Longrightarrow> kv_only Q R \<Longrightarrow> kv_only P R"
  by (auto simp: kv_only_def)

lemma kv_only_refl [simp]: "kv_only P P"
  by (auto simp: kv_only_def intro: exI [of _ "kv P"])

lemma kv_only_intro: "(\<forall>r. rows_held r pc' = rows_held r (kv P)) \<Longrightarrow> kv_only P (P\<lparr>kv := pc'\<rparr>)"
  by (auto simp: kv_only_def)

lemma commit_fold_ok:
  assumes inv: "planner_inv (digest E) P" and D: "digest8 (digest E)"
    and body: "\<And>xu Q. xu \<in> set xs \<Longrightarrow> kv_only P Q \<Longrightarrow>
      body xu Q = Inr Q \<or> (fst xu \<in> set (running Q) \<and> body xu Q = commit_upto E (fst xu) (snd xu) Q)"
  shows "\<exists>P'. rfold body xs P = Inr P' \<and> planner_inv (digest E) P' \<and> kv_only P P'"
proof (rule rfold_invariant [of "\<lambda>Q. planner_inv (digest E) Q \<and> kv_only P Q"])
  show "planner_inv (digest E) P \<and> kv_only P P" using inv by simp
  fix xu Q assume xu: "xu \<in> set xs" and Q: "planner_inv (digest E) Q \<and> kv_only P Q"
  consider "body xu Q = Inr Q"
    | "fst xu \<in> set (running Q)" "body xu Q = commit_upto E (fst xu) (snd xu) Q"
    using body [OF xu] Q by blast
  then show "\<exists>Q'. body xu Q = Inr Q' \<and> planner_inv (digest E) Q' \<and> kv_only P Q'"
  proof cases
    case 2
    obtain pc' where "commit_upto E (fst xu) (snd xu) Q = Inr (Q\<lparr>kv := pc'\<rparr>)"
      "planner_inv (digest E) (Q\<lparr>kv := pc'\<rparr>)" "\<forall>r. rows_held r pc' = rows_held r (kv Q)"
      using commit_upto_ok [OF _ D 2(1)] Q by blast
    with 2 Q show ?thesis using kv_only_trans kv_only_intro by metis
  qed (use Q in auto)
qed

lemma commit_pending_blocks_ok:
  assumes inv: "planner_inv (digest E) P" and D: "digest8 (digest E)"
  shows "\<exists>P'. commit_pending_blocks E P = Inr (P'\<lparr>pending_blocks := []\<rparr>) \<and>
    planner_inv (digest E) (P'\<lparr>pending_blocks := []\<rparr>) \<and> kv_only P P'"
proof -
  have "\<exists>P'. rfold (commit_entry E) (pending_blocks P) P = Inr P' \<and> planner_inv (digest E) P' \<and> kv_only P P'"
  proof (rule commit_fold_ok [OF inv D])
    fix xu Q assume xu: "xu \<in> set (pending_blocks P)" and Q: "kv_only P Q"
    have "fst xu \<in> set (running Q)"
      using queues_okD(12) [OF planner_invD(3) [OF inv], of "fst xu" "snd xu"] xu kv_onlyD(2) [OF Q] by simp
    then show "commit_entry E xu Q = Inr Q \<or>
        (fst xu \<in> set (running Q) \<and> commit_entry E xu Q = commit_upto E (fst xu) (snd xu) Q)"
      by (simp add: commit_entry_def)
  qed
  then show ?thesis using planner_inv_pending [of "digest E" _ "[]"] by (auto simp: commit_pending_blocks_def)
qed

section \<open>Preemption\<close>

definition recomputed :: "request \<Rightarrow> request" where
  "recomputed r = r\<lparr>slot := None, status := WAITING, num_computed_tokens := 0, req_cached_tokens := 0,
     block_plan := [], pending_tokens := 0, prompt_logprobs := None, output_logprobs := None,
     delta_logprobs := None, prompt_token_ids := tokens r, output_token_ids := [],
     max_new_tokens := max_new_tokens r - int (length (output_token_ids r))\<rparr>"

definition preempted :: "oid \<Rightarrow> nat \<Rightarrow> prefix_cache \<Rightarrow> planner \<Rightarrow> planner" where
  "preempted x s pc P =
     P\<lparr>objs := (objs P)(x := recomputed (objs P x)), free_slots := free_slots P @ [s],
       kv := pc, pending_blocks := filter (\<lambda>xu. fst xu \<noteq> x) (pending_blocks P), running := remove1 x (running P),
       waiting := (request_id (objs P x), x) # AList.delete (request_id (objs P x)) (waiting P),
       num_preemptions := num_preemptions P + 1\<rparr>"

lemma preempt_eq:
  assumes "slot (objs P x) = Some s" "cache_free (request_id (objs P x)) (kv P) = Inr pc"
  shows "preempt x P = Inr (preempted x s pc P)"
  using assms
  by (simp add: preempt_def preempted_def Let_def release_slot_def drop_pending_blocks_def discard_running_def
      recomputed_def tokens_def)

lemma wf_req_recomputed: "wf_req c r \<Longrightarrow> wf_req c (recomputed r)"
  by (simp add: wf_req_def recomputed_def tokens_def prompt_len_def)

text \<open>What a request has and may still generate; planning changes neither.\<close>

definition generation :: "request \<Rightarrow> int list \<times> int" where
  "generation r = (tokens r, max_new_tokens r - int (length (output_token_ids r)))"

lemma generation_eq:
  assumes "generation r' = generation r"
  shows "tokens r' = tokens r" "seq_len r' = seq_len r" "has_room r' = has_room r"
proof -
  show "tokens r' = tokens r" using assms by (simp add: generation_def)
  then have "length (tokens r') = length (tokens r)" by simp
  then show "seq_len r' = seq_len r" by (simp add: tokens_def seq_len_def)
  have "max_new_tokens r' - int (length (output_token_ids r')) = max_new_tokens r - int (length (output_token_ids r))"
    using assms by (simp add: generation_def)
  then show "has_room r' = has_room r" unfolding has_room_def by linarith
qed

lemma generation_recomputed [simp]: "generation (recomputed r) = generation r"
  by (simp add: generation_def recomputed_def tokens_def)

lemma generation_update [simp]:
  "generation (r\<lparr>slot := v0\<rparr>) = generation r"
  "generation (r\<lparr>status := v1\<rparr>) = generation r"
  "generation (r\<lparr>scheduled_time := v2\<rparr>) = generation r"
  "generation (r\<lparr>req_cached_tokens := v3\<rparr>) = generation r"
  "generation (r\<lparr>num_computed_tokens := v4\<rparr>) = generation r"
  "generation (r\<lparr>block_plan := v5\<rparr>) = generation r"
  "generation (r\<lparr>pending_tokens := v6\<rparr>) = generation r"
  "generation (r\<lparr>finish_reason := v7\<rparr>) = generation r"
  "generation (r\<lparr>finish_time := v8\<rparr>) = generation r"
  "generation (r\<lparr>prompt_logprobs := v9\<rparr>) = generation r"
  "generation (r\<lparr>output_logprobs := v10\<rparr>) = generation r"
  "generation (r\<lparr>delta_logprobs := v11\<rparr>) = generation r"
  by (simp_all add: generation_def tokens_def)

lemma core_generation: "core r' = core r \<Longrightarrow> generation r' = generation r"
  by (simp add: core_def generation_def tokens_def)

text \<open>Planning keeps what a request generates, and moves outputs only into the prompt.\<close>

definition kept :: "request \<Rightarrow> request \<Rightarrow> bool" where
  "kept r r' \<longleftrightarrow>
     request_id r' = request_id r \<and> generation r' = generation r \<and>
     length (output_token_ids r') \<le> length (output_token_ids r) \<and> (0 \<le> pending_tokens r \<longrightarrow> 0 \<le> pending_tokens r')"

declare kept_def [simp]

lemma core_outputs: "core r' = core r \<Longrightarrow> output_token_ids r' = output_token_ids r"
  by (simp add: core_def)

text \<open>
  \<open>evicts\<close>: running requests outside \<open>protect\<close> may have gone back to the queue; nothing else about the
  running requests changed.
\<close>

definition evicts :: "oid set \<Rightarrow> planner \<Rightarrow> planner \<Rightarrow> bool" where
  "evicts protect P P' \<longleftrightarrow>
     pconfig P' = pconfig P \<and> pmax_num_seqs P' = pmax_num_seqs P \<and> num_slots P' = num_slots P \<and>
     live P' = live P \<and> (\<exists>Q. running P' = filter Q (running P)) \<and>
     (\<forall>y \<in> protect. y \<in> set (running P) \<longrightarrow> y \<in> set (running P')) \<and>
     (\<forall>y. kept (objs P y) (objs P' y)) \<and>
     (\<forall>y. y \<in> set (running P') \<or> y \<notin> set (running P) \<longrightarrow> objs P' y = objs P y) \<and>
     (\<forall>y \<in> set (running P'). length (rows_held (request_id (objs P y)) (kv P)) \<le>
        length (rows_held (request_id (objs P y)) (kv P')))"

lemma evictsD:
  assumes "evicts A P P'"
  shows "pconfig P' = pconfig P" "pmax_num_seqs P' = pmax_num_seqs P" "num_slots P' = num_slots P"
    "live P' = live P" "set (running P') \<subseteq> set (running P)" "length (running P') \<le> length (running P)"
    "y \<in> A \<Longrightarrow> y \<in> set (running P) \<Longrightarrow> y \<in> set (running P')"
    "y \<in> set (running P') \<or> y \<notin> set (running P) \<Longrightarrow> objs P' y = objs P y"
    "request_id (objs P' y) = request_id (objs P y)"
    "y \<in> set (running P') \<Longrightarrow> length (rows_held (request_id (objs P y)) (kv P)) \<le>
       length (rows_held (request_id (objs P y)) (kv P'))"
    "generation (objs P' y) = generation (objs P y)" "kept (objs P y) (objs P' y)"
  using assms unfolding evicts_def by (auto simp: length_filter_le)

lemma evicts_refl [simp]: "evicts A P P"
  unfolding evicts_def by (auto intro: exI [of _ "\<lambda>_. True"])

lemma evicts_trans:
  assumes "evicts A P Q" "evicts A Q R"
  shows "evicts A P R"
  unfolding evicts_def
proof (intro conjI ballI allI impI)
  note p = evictsD [OF assms(1)] and q = evictsD [OF assms(2)]
  show "pconfig R = pconfig P" "pmax_num_seqs R = pmax_num_seqs P" "num_slots R = num_slots P" "live R = live P"
    using p(1-4) q(1-4) by simp_all
  obtain F G where "running Q = filter F (running P)" "running R = filter G (running Q)"
    using assms unfolding evicts_def by blast
  then have "running R = filter (\<lambda>x. G x \<and> F x) (running P)" by (simp add: conj_commute)
  then show "\<exists>H. running R = filter H (running P)" by blast
  fix y
  show "y \<in> set (running R)" if "y \<in> A" "y \<in> set (running P)" using q(7) [OF that(1) p(7) [OF that]] .
  show "kept (objs P y) (objs R y)" using p(12) [of y] q(12) [of y] by simp
  show "objs R y = objs P y" if "y \<in> set (running R) \<or> y \<notin> set (running P)"
    using that p(5,8) q(5,8) by (metis subsetD)
  show "length (rows_held (request_id (objs P y)) (kv P)) \<le> length (rows_held (request_id (objs P y)) (kv R))"
    if y: "y \<in> set (running R)"
    using p(10) [OF subsetD [OF q(5) y]] q(10) [OF y] unfolding p(9) by (rule order_trans)
qed

lemma evicts_kv:
  "(\<And>r. length (rows_held r (kv P)) \<le> length (rows_held r pc)) \<Longrightarrow> evicts A P (P\<lparr>kv := pc\<rparr>)"
  unfolding evicts_def by (auto intro: exI [of _ "\<lambda>_. True"])

lemma evicts_mono: "evicts A P Q \<Longrightarrow> B \<subseteq> A \<Longrightarrow> evicts B P Q"
  unfolding evicts_def by blast


lemma notin_delete: "k \<notin> fst ` set (AList.delete k d)"
  by (auto simp: AList.delete_eq)

lemma mset_map_remove1: "x \<in> set xs \<Longrightarrow> mset (map f xs) = add_mset (f x) (mset (map f (remove1 x xs)))"
  by (induction xs) auto

lemma preempt_ok:
  assumes inv: "planner_inv D P" and x: "x \<in> set (running P)"
  obtains pc s where
    "preempt x P = Inr (preempted x s pc P)"
    "planner_inv D (preempted x s pc P)" "slot (objs P x) = Some s"
    "block_hash (pool (coord pc)) = block_hash (pool (coord (kv P)))"
    "\<And>r. r \<noteq> request_id (objs P x) \<Longrightarrow> block_hashes r pc = block_hashes r (kv P) \<and> rows_held r pc = rows_held r (kv P)"
    "pc_block_size pc = pc_block_size (kv P)"
    "\<And>r. r \<noteq> request_id (objs P x) \<Longrightarrow> map_of (sequences pc) r = map_of (sequences (kv P)) r"
proof -
  let ?r = "request_id (objs P x)"
  note ki = planner_invD(5) [OF inv] and ko = planner_invD(4) [OF inv] and qo = planner_invD(3) [OF inv]
    and so = planner_invD(2) [OF inv]
  obtain s where s: "slot (objs P x) = Some s" using so x by (auto simp: slots_ok_def)
  obtain pc where pc: "cache_free ?r (kv P) = Inr pc" "cache_inv pc" "rows_held ?r pc = []"
    "map_of (sequences pc) ?r = None"
    "\<And>r. r \<noteq> ?r \<Longrightarrow> rows_held r pc = rows_held r (kv P) \<and> map_of (sequences pc) r = map_of (sequences (kv P)) r"
    "block_hash (pool (coord pc)) = block_hash (pool (coord (kv P)))"
    "pc_block_size pc = pc_block_size (kv P)" "hash_seed pc = hash_seed (kv P)"
    by (rule cache_free_ok [OF ki, of ?r]) (rule that)
  define ob where "ob = (objs P)(x := recomputed (objs P x))"
  let ?P = "P\<lparr>objs := ob, free_slots := free_slots P @ [s],
     kv := pc, pending_blocks := filter (\<lambda>xu. fst xu \<noteq> x) (pending_blocks P), running := remove1 x (running P),
     waiting := (?r, x) # AList.delete ?r (waiting P), num_preemptions := num_preemptions P + 1\<rparr>"
  have oth: "ob y = objs P y" if "y \<noteq> x" for y using that by (simp add: ob_def)
  have rid: "request_id (ob y) = request_id (objs P y)" for y by (simp add: ob_def recomputed_def)
  have run: "y \<in> set (remove1 x (running P)) \<longleftrightarrow> y \<in> set (running P) \<and> y \<noteq> x" for y
    using queues_okD(1) [OF qo] by auto
  have lv: "map_of (live P) ?r = Some x" by (rule queues_okD(5) [OF qo x])
  have uniq: "y = x" if "map_of (live P) r = Some y" "r = ?r" for y r using that lv by simp
  have w: "map_of ((?r, x) # AList.delete ?r (waiting P)) r = (if r = ?r then Some x else map_of (waiting P) r)" for r
    by (simp add: dict_simps)
  have wx: "map_of (waiting P) r = Some y \<Longrightarrow> y \<noteq> x" for r y
    using queues_okD(7) [OF qo, of r y] queues_okD(4) [OF qo x] by auto
  have "slots_ok ?P"
  proof -
    have "mset (map (\<lambda>y. the (slot (ob y))) (remove1 x (running P))) =
        mset (map (\<lambda>y. the (slot (objs P y))) (remove1 x (running P)))"
      using run oth by (intro arg_cong [of _ _ mset] map_cong) auto
    moreover have "mset (map (\<lambda>y. the (slot (objs P y))) (running P)) =
        add_mset s (mset (map (\<lambda>y. the (slot (objs P y))) (remove1 x (running P))))"
      using mset_map_remove1 [OF x, of "\<lambda>y. the (slot (objs P y))"] s by simp
    ultimately show ?thesis
      using so oth run by (simp add: slots_ok_def)
  qed
  moreover have "queues_ok ?P"
    unfolding queues_ok_def
  proof (intro conjI allI ballI impI)
    show "distinct (running ?P)" using queues_okD(1) [OF qo] by simp
    show "dict_ok (waiting ?P)"
      using queues_okD(2) [OF qo] by (simp add: dict_simps notin_delete)
    show "dict_ok (live ?P)" using queues_okD(3) [OF qo] by simp
    show "length (running ?P) \<le> pmax_num_seqs ?P"
      using queues_okD(11) [OF qo] by (auto simp: length_remove1)
    show "fst xu \<in> set (running ?P)" if "xu \<in> set (pending_blocks ?P)" for xu
      using that queues_okD(12) [OF qo, of "fst xu" "snd xu"] run by simp
    fix y assume "y \<in> set (running ?P)"
    then show "status (objs ?P y) = RUNNING" "map_of (live ?P) (request_id (objs ?P y)) = Some y"
      "num_computed_tokens (objs ?P y) \<le> prompt_len (objs ?P y)"
      using run oth queues_okD(4,5,6) [OF qo, of y] by simp_all
  next
    fix r y assume "map_of (waiting ?P) r = Some y"
    then consider "r = ?r" "y = x" | "r \<noteq> ?r" "map_of (waiting P) r = Some y"
      using w by (auto split: if_splits)
    then show "status (objs ?P y) = WAITING" "slot (objs ?P y) = None" "output_token_ids (objs ?P y) = []"
      "map_of (live ?P) r = Some y"
      using lv queues_okD(7) [OF qo, of r y] oth wx by (auto simp: ob_def recomputed_def)
  next
    fix r y assume l: "map_of (live ?P) r = Some y"
    then show "request_id (objs ?P y) = r" using queues_okD(8) [OF qo, of r y] rid by simp
    show "wf_req (pconfig ?P) (objs ?P y)"
      using queues_okD(9) [OF qo, of r y] l wf_req_recomputed by (auto simp: ob_def)
    show "y \<in> set (running ?P) \<or> map_of (waiting ?P) r = Some y"
      using queues_okD(8,10) [OF qo, of r y] l lv w run by (cases "y = x") auto
  qed
  moreover have "kv_ok D ?P"
    unfolding kv_ok_def
  proof (intro conjI allI ballI impI)
    show "cache_inv (kv ?P)" "pc_block_size (kv ?P) = BLOCK_SIZE" using pc kv_okD(2) [OF ko] by simp_all
    fix r
    show "\<exists>y \<in> set (running ?P). request_id (objs ?P y) = r" if ne: "rows_held r (kv ?P) \<noteq> []"
    proof -
      have "r \<noteq> ?r" using ne pc(3) by auto
      then obtain y where "y \<in> set (running P)" "request_id (objs P y) = r"
        using ne pc(5) kv_okD(3) [OF ko, of r] by auto
      then show ?thesis using \<open>r \<noteq> ?r\<close> run rid by (intro bexI [of _ y]) auto
    qed
    show "chain_of_live D ?P r (kv ?P)"
    proof (cases "r = ?r")
      case True
      then show ?thesis using pc(4) by (simp add: chain_of_live_def)
    next
      case False
      have "same_chain r (kv P) pc" using pc(5) [OF False] by (simp add: same_chain_def block_hashes_def)
      then have "chain_of_live D P r pc"
        using chain_of_live_cong [OF _ pc(7,8)] kv_okD(6) [OF ko] by blast
      moreover have "tokens (ob y) = tokens (objs P y)" if "map_of (live P) r = Some y" for y
        using that False queues_okD(8) [OF qo, of r y] oth by (cases "y = x") auto
      ultimately show ?thesis unfolding chain_of_live_def by auto
    qed
  next
    fix y assume "y \<in> set (running ?P)"
    then have y: "y \<in> set (running P)" "y \<noteq> x" using run by auto
    then have "request_id (objs P y) \<noteq> ?r" using queues_okD(5) [OF qo] lv by (metis option.inject)
    then show "num_computed_tokens (objs ?P y) \<le>
        length (rows_held (request_id (objs ?P y)) (kv ?P)) * BLOCK_SIZE"
      "map_of (sequences (kv ?P)) (request_id (objs ?P y)) \<noteq> None"
      using y kv_okD(4,5) [OF ko, of y] oth pc(5) by auto
  qed
  ultimately have "planner_inv D ?P" using inv by (simp add: planner_inv_def no_offload_def)
  moreover have "block_hashes r pc = block_hashes r (kv P)" if "r \<noteq> ?r" for r
    using pc(5) [OF that] by (simp add: block_hashes_def)
  moreover have "?P = preempted x s pc P" by (simp add: preempted_def ob_def)
  ultimately show ?thesis
    using pc s by (intro that [OF preempt_eq [OF s pc(1)]]) simp_all
qed


lemma preempted_evicts:
  assumes "planner_inv D P" "x \<in> set (running P)" "x \<notin> A"
    "\<And>r. r \<noteq> request_id (objs P x) \<Longrightarrow> rows_held r pc = rows_held r (kv P)"
  shows "evicts A P (preempted x s pc P)" "length (running (preempted x s pc P)) < length (running P)"
proof -
  have d: "distinct (running P)" by (rule queues_okD(1) [OF planner_invD(3) [OF assms(1)]])
  have "0 < length (running P)" using assms(2) by (cases "running P") auto
  then show "length (running (preempted x s pc P)) < length (running P)"
    using assms(2) by (simp add: preempted_def length_remove1)
  have "remove1 x (running P) = filter (\<lambda>y. x \<noteq> y) (running P)"
    using d by (simp add: distinct_remove1_removeAll removeAll_filter_not_eq)
  moreover have "request_id (objs P y) \<noteq> request_id (objs P x)" if "y \<in> set (running P)" "y \<noteq> x" for y
    using that assms(2) queues_okD(5) [OF planner_invD(3) [OF assms(1)]] by (metis option.inject)
  ultimately show "evicts A P (preempted x s pc P)"
    using assms(2,3,4) d by (auto simp: evicts_def preempted_def recomputed_def generation_def tokens_def)
qed

lemma find_victim_Some:
  "find_victim ob A xs = Some x \<Longrightarrow> x \<in> set xs \<and> x \<notin> set A \<and> prefill_done (ob x) \<and> output_token_ids (ob x) \<noteq> []"
  by (induction xs) (auto split: if_splits)

lemma preempt_victim_ok:
  assumes inv: "planner_inv D P"
  obtains (none) "preempt_victim A P = Inr (P, None)"
  | (some) y s pc where "preempt_victim A P = Inr (preempted y s pc P, Some y)" "y \<in> set (running P)" "y \<notin> set A"
      "planner_inv D (preempted y s pc P)"
      "block_hash (pool (coord pc)) = block_hash (pool (coord (kv P)))"
      "\<And>r. r \<noteq> request_id (objs P y) \<Longrightarrow> block_hashes r pc = block_hashes r (kv P) \<and> rows_held r pc = rows_held r (kv P)"
      "pc_block_size pc = pc_block_size (kv P)"
      "\<And>r. r \<noteq> request_id (objs P y) \<Longrightarrow> map_of (sequences pc) r = map_of (sequences (kv P)) r"
proof (cases "find_victim (objs P) A (rev (running P))")
  case None
  then show ?thesis using none by (simp add: preempt_victim_def)
next
  case (Some y)
  then have y: "y \<in> set (running P)" "y \<notin> set A" using find_victim_Some by fastforce+
  obtain pc s where p: "preempt y P = Inr (preempted y s pc P)"
    "planner_inv D (preempted y s pc P)" "slot (objs P y) = Some s"
    "block_hash (pool (coord pc)) = block_hash (pool (coord (kv P)))"
    "\<And>r. r \<noteq> request_id (objs P y) \<Longrightarrow> block_hashes r pc = block_hashes r (kv P) \<and> rows_held r pc = rows_held r (kv P)"
    "pc_block_size pc = pc_block_size (kv P)"
    "\<And>r. r \<noteq> request_id (objs P y) \<Longrightarrow> map_of (sequences pc) r = map_of (sequences (kv P)) r"
    by (rule preempt_ok [OF inv y(1)]) (rule that)
  have eq: "preempt_victim A P = Inr (preempted y s pc P, Some y)"
    using Some p(1) by (simp add: preempt_victim_def)
  show ?thesis by (rule some [OF eq y p(2,4-7)])
qed

section \<open>Reserving blocks\<close>

lemma reserve_loop_ok:
  assumes "planner_inv D P" "x \<in> set (running P)" "x \<in> set A" "length (running P) < fuel"
  shows "\<exists>P' vs ok. reserve_loop fuel x n A victims P = Inr (P', victims @ vs, ok) \<and> planner_inv D P' \<and>
    evicts (set A) P P' \<and> (vs = [] \<longrightarrow> running P' = running P) \<and>
    (ok \<longrightarrow> n \<le> length (rows_held (request_id (objs P' x)) (kv P')) * BLOCK_SIZE)"
  using assms
proof (induction fuel arbitrary: P victims)
  case (Suc fuel)
  show ?case
  proof (cases rule: preempt_victim_ok [OF Suc.prems(1), of A, case_names none some])
    case none
    then show ?thesis using Suc.prems(1) by (intro exI [of _ P] exI [of _ "[]"] exI [of _ False]) simp
  next
    case (some y s pc)
    let ?P1 = "preempted y s pc P"
    have rows: "rows_held r pc = rows_held r (kv P)" if "r \<noteq> request_id (objs P y)" for r
      using some(6) [OF that] by simp
    note e1 = preempted_evicts [OF Suc.prems(1) some(2,3) rows, of s]
    have x1: "x \<in> set (running ?P1)" using evictsD(7) [OF e1(1)] Suc.prems(2,3) by blast
    obtain pc' ok where al: "kv_allocate (request_id (objs ?P1 x)) n None ?P1 = Inr (?P1\<lparr>kv := pc'\<rparr>, ok)"
      "planner_inv D (?P1\<lparr>kv := pc'\<rparr>)" "\<And>r. length (rows_held r (kv ?P1)) \<le> length (rows_held r pc')"
      "ok \<longrightarrow> n \<le> length (rows_held (request_id (objs ?P1 x)) pc') * BLOCK_SIZE"
      using kv_allocate_ok [OF some(4) x1] by blast
    let ?P2 = "?P1\<lparr>kv := pc'\<rparr>"
    have e2: "evicts (set A) P ?P2" using evicts_trans [OF e1(1) evicts_kv [OF al(3)]] .
    show ?thesis
    proof (cases ok)
      case True
      then show ?thesis using some(1) al e2 by (intro exI [of _ ?P2] exI [of _ "[y]"] exI [of _ True]) simp
    next
      case False
      have "\<exists>P' vs ok. reserve_loop fuel x n A (victims @ [y]) ?P2 = Inr (P', (victims @ [y]) @ vs, ok) \<and>
        planner_inv D P' \<and> evicts (set A) ?P2 P' \<and> (vs = [] \<longrightarrow> running P' = running ?P2) \<and>
        (ok \<longrightarrow> n \<le> length (rows_held (request_id (objs P' x)) (kv P')) * BLOCK_SIZE)"
        by (rule Suc.IH) (use al(2) x1 Suc.prems(3,4) e1(2) in simp_all)
      then show ?thesis using some(1) al(1) False evicts_trans [OF e2] by fastforce
    qed
  qed
qed simp

text \<open>
  \<^verbatim>\<open>_reserve\<close> always returns: it ends because every further round evicts somebody, it never evicts the
  request it serves nor a protected one, and on success the request's blocks cover what was asked.
\<close>

lemma reserve_ok:
  assumes inv: "planner_inv D P" and x: "x \<in> set (running P)"
  shows "\<exists>P' vs ok. reserve x n A victims P = Inr (P', victims @ vs, ok) \<and> planner_inv D P' \<and>
    evicts (insert x (set A)) P P' \<and> (vs = [] \<longrightarrow> running P' = running P) \<and>
    (ok \<longrightarrow> n \<le> length (rows_held (request_id (objs P' x)) (kv P')) * BLOCK_SIZE)"
proof -
  obtain pc' ok where al: "kv_allocate (request_id (objs P x)) n None P = Inr (P\<lparr>kv := pc'\<rparr>, ok)"
    "planner_inv D (P\<lparr>kv := pc'\<rparr>)" "\<And>r. length (rows_held r (kv P)) \<le> length (rows_held r pc')"
    "ok \<longrightarrow> n \<le> length (rows_held (request_id (objs P x)) pc') * BLOCK_SIZE"
    using kv_allocate_ok [OF inv x] by blast
  show ?thesis
  proof (cases ok)
    case True
    then show ?thesis
      using al evicts_kv [OF al(3)] by (intro exI [of _ "P\<lparr>kv := pc'\<rparr>"] exI [of _ "[]"] exI [of _ True]) (simp add: reserve_def)
  next
    case False
    have "\<exists>P' vs ok. reserve_loop (length (running (P\<lparr>kv := pc'\<rparr>)) + 1) x n (A @ [x]) victims (P\<lparr>kv := pc'\<rparr>) =
        Inr (P', victims @ vs, ok) \<and> planner_inv D P' \<and> evicts (set (A @ [x])) (P\<lparr>kv := pc'\<rparr>) P' \<and>
      (vs = [] \<longrightarrow> running P' = running (P\<lparr>kv := pc'\<rparr>)) \<and> (ok \<longrightarrow> n \<le> length (rows_held (request_id (objs P' x)) (kv P')) * BLOCK_SIZE)"
      by (rule reserve_loop_ok [OF al(2)]) (use x in simp_all)
    then obtain P' vs ok' where r: "reserve_loop (length (running (P\<lparr>kv := pc'\<rparr>)) + 1) x n (A @ [x]) victims
        (P\<lparr>kv := pc'\<rparr>) = Inr (P', victims @ vs, ok')" "planner_inv D P'"
      "evicts (set (A @ [x])) (P\<lparr>kv := pc'\<rparr>) P'" "vs = [] \<longrightarrow> running P' = running (P\<lparr>kv := pc'\<rparr>)"
      "ok' \<longrightarrow> n \<le> length (rows_held (request_id (objs P' x)) (kv P')) * BLOCK_SIZE" by blast
    have "evicts (insert x (set A)) P P'"
      using evicts_trans [OF evicts_kv [OF al(3)]] r(3) by (metis insert_is_Un list.set(1) list.set(2) set_append sup.commute)
    with r al(1) False show ?thesis by (auto simp: reserve_def)
  qed
qed


section \<open>Resuming prefills\<close>

definition work_ok :: "planner \<Rightarrow> work \<Rightarrow> bool" where
  "work_ok P w \<longleftrightarrow>
     set (wk_prefill w) \<subseteq> set (running P) \<and> distinct (wk_prefill w) \<and>
     list_all2 (\<lambda>x n. n \<le> num_computed_tokens (objs P x)) (wk_prefill w) (wk_lens w) \<and>
     (\<forall>n \<in> set (wk_lens w). 0 < n \<and> n \<le> max_num_batched_tokens (pconfig P))"

text \<open>What planning does to the running requests: each is planned for prefill, or was running and kept its progress.\<close>

definition step_frame :: "planner \<Rightarrow> oid list \<Rightarrow> planner \<Rightarrow> oid list \<Rightarrow> bool" where
  "step_frame P pre P' pre' \<longleftrightarrow>
     set pre \<subseteq> set pre' \<and>
     (\<forall>x \<in> set (running P'). x \<in> set pre' \<or>
        x \<in> set (running P) \<and> core (objs P' x) = core (objs P x) \<and>
        num_computed_tokens (objs P' x) = num_computed_tokens (objs P x) \<and>
        pending_tokens (objs P' x) = pending_tokens (objs P x))"

lemma step_frame_refl [simp]: "step_frame P pre P pre"
  by (simp add: step_frame_def)

lemma step_frame_trans: "step_frame P a Q b \<Longrightarrow> step_frame Q b R c \<Longrightarrow> step_frame P a R c"
  unfolding step_frame_def by (metis subset_iff)

lemma evicts_step_frame: "evicts A P P' \<Longrightarrow> set pre \<subseteq> set pre' \<Longrightarrow> step_frame P pre P' pre'"
  unfolding step_frame_def by (auto dest: evictsD(5,8))

definition same_frame :: "planner \<Rightarrow> planner \<Rightarrow> bool" where
  "same_frame P P' \<longleftrightarrow>
     pconfig P' = pconfig P \<and> pmax_num_seqs P' = pmax_num_seqs P \<and> num_slots P' = num_slots P \<and>
     live P' = live P \<and>
     (\<forall>y. kept (objs P y) (objs P' y))"

lemma same_frame_refl [simp]: "same_frame P P"
  and same_frame_trans: "same_frame P Q \<Longrightarrow> same_frame Q R \<Longrightarrow> same_frame P R"
  by (auto simp: same_frame_def intro: order_trans)

lemma evicts_frame: "evicts A P P' \<Longrightarrow> same_frame P P'"
  by (simp add: evicts_def same_frame_def)

lemma chunk_size_bounds:
  assumes "config_check c = Inr c" "0 < rem" "rem \<le> max_seq_len c"
  shows "0 < chunk_size c rem" "chunk_size c rem \<le> rem" "chunk_size c rem \<le> max_num_batched_tokens c"
proof -
  have "1 \<le> max_num_batched_tokens c" "enable_chunked_prefill c \<or> max_seq_len c \<le> max_num_batched_tokens c"
    "enable_chunked_prefill c \<Longrightarrow> 0 < max_chunk_size c"
    using assms(1)
    by (auto simp: config_check_def Let_def split: if_splits option.splits
        dest: arg_cong [of _ _ enable_chunked_prefill])
  then show "0 < chunk_size c rem" "chunk_size c rem \<le> rem" "chunk_size c rem \<le> max_num_batched_tokens c"
    using assms(2,3) by (auto simp: chunk_size_def)
qed

lemma wf_req_len: "wf_req c r \<Longrightarrow> seq_len r \<le> max_seq_len c \<and> prompt_len r \<le> max_seq_len c"
  by (auto simp: wf_req_def seq_len_def prompt_len_def)

lemma take_filter: "y \<in> set (take n xs) \<Longrightarrow> Q y \<Longrightarrow> y \<in> set (take n (filter Q xs))"
proof (induction xs arbitrary: n)
  case (Cons x xs)
  have "set (take m (filter Q xs)) \<subseteq> set (take (Suc m) (filter Q xs))" for m
    by (rule set_take_subset_set_take) simp
  then show ?case using Cons by (cases n) auto
qed simp


lemma planner_inv_track:
  "planner_inv D P \<Longrightarrow> x \<in> set (running P) \<Longrightarrow> planner_inv D (track_pending x n P)"
  unfolding track_pending_def
  by (rule planner_inv_pending) (use queues_okD(12) [OF planner_invD(3)] in auto)

end
