(* ===== verification/Planner_Steps.thy ===== *)
theory Planner_Steps
  imports Planner_Invariant
begin

text \<open>
  The stages of a scheduling step (resuming prefills, admission, growing the decode batch) and the whole
  \<open>plan\<close>: each returns without raising, keeps \<open>planner_inv\<close>, and leaves every request it grants work with
  the KV rows its pass writes.
\<close>

section \<open>Resuming prefills\<close>

text \<open>
  Committing a chunk for a running request whose blocks already cover it: record the progress, emit the
  table writes, and queue the registration.
\<close>

lemma commit_chunk_ok:
  assumes inv: "planner_inv D P" and x: "x \<in> set (running P)"
    and reach: "reach \<le> prompt_len (objs P x)" "reach \<le> length (rows_held (request_id (objs P x)) (kv P)) * BLOCK_SIZE"
    and c: "\<And>r. core (f r) = core r" "\<And>r. num_computed_tokens (f r) = reach" "\<And>r. pending_tokens (f r) = pending_tokens r"
  obtains P' where "map_blocks x (upd_obj x f P) = Inr P'" "planner_inv D (track_pending x n P')"
    "running P' = running P" "same_frame P P'" "waiting P' = waiting P"
    "\<And>y. y \<noteq> x \<Longrightarrow> objs P' y = objs P y" "\<And>r. rows_held r (kv P') = rows_held r (kv P)"
    "core (objs P' x) = core (objs P x)" "num_computed_tokens (objs P' x) = reach"
proof -
  let ?P1 = "upd_obj x f P"
  have i1: "planner_inv D ?P1" by (rule planner_inv_upd_obj [OF inv]) (use reach c in simp_all)
  have rid: "request_id (f r) = request_id r" for r using core_eq(1) [OF c(1)] .
  have x1: "x \<in> set (running ?P1)" using x by simp
  obtain pc' ws where m: "map_blocks x ?P1 = Inr (upd_obj x (\<lambda>r. r\<lparr>block_plan := ws\<rparr>) (?P1\<lparr>kv := pc'\<rparr>))"
    "planner_inv D (upd_obj x (\<lambda>r. r\<lparr>block_plan := ws\<rparr>) (?P1\<lparr>kv := pc'\<rparr>))"
    "\<forall>r. rows_held r pc' = rows_held r (kv ?P1)"
    using map_blocks_ok [OF i1 x1] by blast
  have t: "planner_inv D (track_pending x n (upd_obj x (\<lambda>r. r\<lparr>block_plan := ws\<rparr>) (?P1\<lparr>kv := pc'\<rparr>)))"
    by (rule planner_inv_track [OF m(2)]) (use x in simp)
  have co: "core ((f r)\<lparr>block_plan := ws\<rparr>) = core r" for r using c(1) [of r] by (simp add: core_def)
  show ?thesis
    by (rule that [OF m(1) t]) (use m(3) rid c(2) co core_generation [OF co] core_outputs [OF c(1)] c(3) in \<open>simp_all add: same_frame_def\<close>)
qed

lemma list_all2_progress:
  assumes "list_all2 (\<lambda>x n. n \<le> num_computed_tokens (objs P x)) xs ns"
    "\<And>x. x \<in> set xs \<Longrightarrow> num_computed_tokens (objs P' x) = num_computed_tokens (objs P x)"
  shows "list_all2 (\<lambda>x n. n \<le> num_computed_tokens (objs P' x)) xs ns"
  using assms by (auto simp: list_all2_conv_all_nth)

lemma work_ok_evicts:
  assumes "work_ok P w" "evicts A P P'" "set (wk_prefill w) \<subseteq> A"
  shows "work_ok P' (w\<lparr>wk_preempted := vs\<rparr>)"
proof -
  have "set (wk_prefill w) \<subseteq> set (running P')"
  proof
    fix y assume y: "y \<in> set (wk_prefill w)"
    then have "y \<in> A" "y \<in> set (running P)" using assms(1,3) by (auto simp: work_ok_def)
    then show "y \<in> set (running P')" by (rule evictsD(7) [OF assms(2)])
  qed
  moreover have "objs P' y = objs P y" if "y \<in> set (wk_prefill w)" for y
    using evictsD(8) [OF assms(2)] calculation that by blast
  then have "list_all2 (\<lambda>x n. n \<le> num_computed_tokens (objs P' x)) (wk_prefill w) (wk_lens w)"
    using list_all2_progress [of P] assms(1) unfolding work_ok_def by metis
  ultimately show ?thesis using assms(1) by (simp add: work_ok_def evictsD(1) [OF assms(2)])
qed

lemma in_take_evicts:
  assumes "evicts A P P'" "B \<subseteq> set (take i (running P))" "B \<subseteq> A"
  shows "B \<subseteq> set (take i (running P'))"
proof
  fix y assume y: "y \<in> B"
  obtain Q where Q: "running P' = filter Q (running P)" using assms(1) by (auto simp: evicts_def)
  have "y \<in> set (running P)" by (rule in_set_takeD) (use y assms(2) in blast)
  then have "y \<in> set (running P')" using evictsD(7) [OF assms(1) subsetD [OF assms(3) y]] by simp
  with y assms(2) Q show "y \<in> set (take i (running P'))" by (auto intro: take_filter)
qed

text \<open>A chunk of a request that still has prompt to compute: positive, within budget, within the prompt.\<close>

lemma chunk_of_bounds:
  assumes inv: "planner_inv D P" and l: "map_of (live P) r = Some x" and p: "progress < prompt_len (objs P x)"
  shows "0 < chunk_of P x progress" "chunk_of P x progress \<le> max_num_batched_tokens (pconfig P)"
    "progress + chunk_of P x progress \<le> prompt_len (objs P x)"
proof -
  have "prompt_len (objs P x) \<le> max_seq_len (pconfig P)"
    using wf_req_len queues_okD(9) [OF planner_invD(3) [OF inv] l] by blast
  then have "0 < prompt_len (objs P x) - progress" "prompt_len (objs P x) - progress \<le> max_seq_len (pconfig P)"
    using p by simp_all
  note b = chunk_size_bounds [OF planner_invD(7) [OF inv] this]
  show "0 < chunk_of P x progress" "chunk_of P x progress \<le> max_num_batched_tokens (pconfig P)"
    "progress + chunk_of P x progress \<le> prompt_len (objs P x)"
    using b p by (simp_all add: chunk_of_def)
qed

lemma planner_inv_block_plan:
  assumes inv: "planner_inv D P"
  shows "planner_inv D (upd_obj x (\<lambda>r. r\<lparr>block_plan := ws\<rparr>) P)"
  by (rule planner_inv_upd_obj [OF inv])
    (use queues_okD(6) [OF planner_invD(3) [OF inv]] kv_okD(4) [OF planner_invD(4) [OF inv]] in
      \<open>simp_all add: core_def\<close>)

lemma resume_one_ok:
  assumes inv: "planner_inv D P" and w: "work_ok P w" and pre: "set (wk_prefill w) \<subseteq> set (take i (running P))"
  shows "\<exists>P' w'. resume_one i (P, w) = Inr (P', w') \<and> planner_inv D P' \<and> work_ok P' w' \<and>
    set (wk_prefill w') \<subseteq> set (take (Suc i) (running P')) \<and> same_frame P P' \<and>
    step_frame P (wk_prefill w) P' (wk_prefill w')"
proof (cases "i < length (running P) \<and> \<not> prefill_done (objs P (running P ! i))")
  case False
  have "set (wk_prefill w) \<subseteq> set (take (Suc i) (running P))"
    using pre set_take_subset_set_take [of i "Suc i" "running P"] by auto
  then show ?thesis using False inv w by (auto simp: resume_one_def Let_def)
next
  case True
  define x where "x = running P ! i"
  define P1 where "P1 = upd_obj x (\<lambda>r. r\<lparr>block_plan := []\<rparr>) P"
  have x: "x \<in> set (running P)" using True by (simp add: x_def)
  note qo = planner_invD(3) [OF inv]
  have i1: "planner_inv D P1" unfolding P1_def by (rule planner_inv_block_plan [OF inv])
  have o1: "running P1 = running P" "prompt_len (objs P1 x) = prompt_len (objs P x)" "pconfig P1 = pconfig P"
    "num_computed_tokens (objs P1 x) = num_computed_tokens (objs P x)" "same_frame P P1" "live P1 = live P"
    by (simp_all add: P1_def prompt_len_def same_frame_def)
  define chunk where "chunk = chunk_of P1 x (num_computed_tokens (objs P1 x))"
  define reach where "reach = num_computed_tokens (objs P1 x) + chunk"
  have lt: "num_computed_tokens (objs P1 x) < prompt_len (objs P1 x)"
    using True unfolding o1 by (simp add: prefill_done_def x_def)
  have lv1: "map_of (live P1) (request_id (objs P x)) = Some x" using queues_okD(5) [OF qo x] o1(6) by simp
  note ch = chunk_of_bounds [OF i1 lv1 lt, folded chunk_def, folded reach_def]
  have x1: "x \<in> set (running P1)" using x o1(1) by simp
  obtain P2 vs ok where r: "reserve x reach (wk_prefill w) (wk_preempted w) P1 = Inr (P2, wk_preempted w @ vs, ok)"
    "planner_inv D P2" "evicts (insert x (set (wk_prefill w))) P1 P2"
    "ok \<longrightarrow> reach \<le> length (rows_held (request_id (objs P2 x)) (kv P2)) * BLOCK_SIZE"
    using reserve_ok [OF i1 x1, of reach "wk_prefill w" "wk_preempted w"] by blast
  have x2: "x \<in> set (running P2)" using evictsD(7) [OF r(3) insertI1 x1] .
  have ob2: "objs P2 x = objs P1 x" using evictsD(8) [OF r(3)] x2 by blast
  have n1: "num_computed_tokens (objs P1 y) = num_computed_tokens (objs P y)" for y by (simp add: P1_def)
  have s1: "step_frame P (wk_prefill w) P1 (wk_prefill w)" by (simp add: step_frame_def P1_def core_def)
  have s2: "step_frame P (wk_prefill w) P2 (wk_prefill w)"
    by (rule step_frame_trans [OF s1 evicts_step_frame [OF r(3)]]) simp
  have w1: "work_ok P1 w" using w by (simp add: work_ok_def o1 n1)
  have w2: "work_ok P2 (w\<lparr>wk_preempted := wk_preempted w @ vs\<rparr>)"
    by (rule work_ok_evicts [OF w1 r(3)]) auto
  have "insert x (set (wk_prefill w)) \<subseteq> set (take (Suc i) (running P1))"
    using pre True x_def o1(1) by (auto simp: take_Suc_conv_app_nth)
  then have t2: "insert x (set (wk_prefill w)) \<subseteq> set (take (Suc i) (running P2))"
    using in_take_evicts [OF r(3)] by blast
  have f2: "same_frame P P2"
    by (rule same_frame_trans [OF o1(5) evicts_frame [OF r(3)]])
  have step: "resume_one i (P, w) =
      (if \<not> ok then Inr (P2, w\<lparr>wk_preempted := wk_preempted w @ vs\<rparr>)
       else rbind (map_blocks x (upd_obj x (\<lambda>r. r\<lparr>num_computed_tokens := reach\<rparr>) P2)) (\<lambda>P3.
         Inr (track_pending x reach P3, \<lparr>wk_prefill = wk_prefill w @ [x], wk_lens = wk_lens w @ [chunk],
              wk_preempted = wk_preempted w @ vs\<rparr>)))"
    using True r(1) unfolding resume_one_def prod.case Let_def x_def [symmetric] P1_def [symmetric]
      chunk_def [symmetric] reach_def [symmetric] by simp
  show ?thesis
  proof (cases ok)
    case False
    then show ?thesis using step r(2) w2 t2 f2 s2 by auto
  next
    case ok: True
    obtain P3 where m: "map_blocks x (upd_obj x (\<lambda>r. r\<lparr>num_computed_tokens := reach\<rparr>) P2) = Inr P3"
      "planner_inv D (track_pending x reach P3)" "running P3 = running P2" "same_frame P2 P3"
      "\<And>y. y \<noteq> x \<Longrightarrow> objs P3 y = objs P2 y" "num_computed_tokens (objs P3 x) = reach"
    proof (rule commit_chunk_ok [OF r(2) x2, where reach = reach and n = reach and
          f = "\<lambda>r. r\<lparr>num_computed_tokens := reach\<rparr>"])
      show "reach \<le> prompt_len (objs P2 x)" using ch(3) ob2 by simp
      show "reach \<le> length (rows_held (request_id (objs P2 x)) (kv P2)) * BLOCK_SIZE" using r(4) ok by simp
    qed (simp_all add: core_def that)
    have nx: "x \<notin> set (wk_prefill w)"
      using pre True queues_okD(1) [OF qo] x_def by (metis distinct_take id_take_nth_drop not_distinct_conv_prefix subsetD)
    have "list_all2 (\<lambda>y n. n \<le> num_computed_tokens (objs P3 y)) (wk_prefill w) (wk_lens w)"
      by (rule list_all2_progress [of P2]) (use w2 nx in \<open>auto simp: work_ok_def intro: arg_cong [OF m(5)]\<close>)
    moreover have "chunk \<le> num_computed_tokens (objs P3 x)" using m(6) by (simp add: reach_def)
    ultimately have l3: "list_all2 (\<lambda>y n. n \<le> num_computed_tokens (objs P3 y)) (wk_prefill w @ [x]) (wk_lens w @ [chunk])"
      by (simp add: list_all2_appendI)
    have "work_ok (track_pending x reach P3) \<lparr>wk_prefill = wk_prefill w @ [x], wk_lens = wk_lens w @ [chunk],
        wk_preempted = wk_preempted w @ vs\<rparr>"
      using l3 nx w2 x2 m(3,4) ch(1,2) f2 o1(3)
      by (auto simp: work_ok_def track_pending_def same_frame_def)
    moreover have "step_frame P (wk_prefill w) (track_pending x reach P3) (wk_prefill w @ [x])"
      by (rule step_frame_trans [OF s2]) (use m(3,5) in \<open>auto simp: step_frame_def track_pending_def\<close>)
    moreover have "same_frame P (track_pending x reach P3)"
      using same_frame_trans [OF f2 m(4)] by (simp add: same_frame_def track_pending_def)
    ultimately show ?thesis
      using step ok m(1-3) t2 by (auto simp: track_pending_def)
  qed
qed

lemma resume_all_ok:
  assumes inv: "planner_inv D P" and w: "work_ok P w" "wk_prefill w = []"
  shows "\<exists>P' w'. resume_all (P, w) = Inr (P', w') \<and> planner_inv D P' \<and> work_ok P' w' \<and> same_frame P P' \<and>
    step_frame P (wk_prefill w) P' (wk_prefill w')"
proof -
  have "\<exists>P' w'. rfold resume_one [0..<n] (P, w) = Inr (P', w') \<and> planner_inv D P' \<and> work_ok P' w' \<and>
      set (wk_prefill w') \<subseteq> set (take n (running P')) \<and> same_frame P P' \<and>
      step_frame P (wk_prefill w) P' (wk_prefill w')" for n
  proof (induction n)
    case 0
    then show ?case using inv w by simp
  next
    case (Suc n)
    then obtain P1 w1 where s: "rfold resume_one [0..<n] (P, w) = Inr (P1, w1)" "planner_inv D P1" "work_ok P1 w1"
      "set (wk_prefill w1) \<subseteq> set (take n (running P1))" "same_frame P P1"
      "step_frame P (wk_prefill w) P1 (wk_prefill w1)" by blast
    obtain P2 w2 where "resume_one n (P1, w1) = Inr (P2, w2)" "planner_inv D P2" "work_ok P2 w2"
      "set (wk_prefill w2) \<subseteq> set (take (Suc n) (running P2))" "same_frame P1 P2"
      "step_frame P1 (wk_prefill w1) P2 (wk_prefill w2)"
      using resume_one_ok [OF s(2-4)] by blast
    with s(1,5,6) show ?case using same_frame_trans step_frame_trans by (auto simp: rfold_append)
  qed
  then show ?thesis by (fastforce simp: resume_all_def)
qed


section \<open>Admission\<close>

text \<open>A queued request: its id, that it is not running, and that it holds no blocks.\<close>

lemma waiting_facts:
  assumes inv: "planner_inv D P" and w: "map_of (waiting P) rid = Some x"
  shows "request_id (objs P x) = rid" "x \<notin> set (running P)" "rows_held rid (kv P) = []"
    "map_of (live P) rid = Some x" "tokens (objs P x) = prompt_token_ids (objs P x)"
    "tokens_ok (prompt_token_ids (objs P x))" "0 < prompt_len (objs P x)"
    "y \<in> set (running P) \<Longrightarrow> request_id (objs P y) \<noteq> rid"
proof -
  note qo = planner_invD(3) [OF inv]
  note q7 = queues_okD(7) [OF qo w]
  show l: "map_of (live P) rid = Some x" and r: "request_id (objs P x) = rid"
    using q7 queues_okD(8) [OF qo, of rid x] by simp_all
  show n: "x \<notin> set (running P)" using q7 queues_okD(4) [OF qo, of x] by auto
  have d: "request_id (objs P y) \<noteq> rid" if "y \<in> set (running P)" for y
    using queues_okD(5) [OF qo that] l n that by auto
  then show "y \<in> set (running P) \<Longrightarrow> request_id (objs P y) \<noteq> rid" .
  show "rows_held rid (kv P) = []" using kv_okD(3) [OF planner_invD(4) [OF inv], of rid] d by blast
  have wf: "wf_req (pconfig P) (objs P x)" by (rule queues_okD(9) [OF qo l])
  show "tokens (objs P x) = prompt_token_ids (objs P x)" using q7 by (simp add: tokens_def)
  show "tokens_ok (prompt_token_ids (objs P x))" "0 < prompt_len (objs P x)"
    using wf by (auto simp: wf_req_def tokens_ok_def)
qed

text \<open>A change to the cache on behalf of a queued request that leaves it without blocks.\<close>

lemma planner_inv_kv_waiting:
  assumes inv: "planner_inv D P" and w: "map_of (waiting P) rid = Some x" and fr: "kv_frame rid (kv P) pc"
    and rows: "rows_held rid pc = []" and ch: "chain_of_live D P rid pc"
  shows "planner_inv D (P\<lparr>kv := pc\<rparr>)"
proof (rule planner_inv_kv [OF inv], rule kv_ok_frame [OF planner_invD(4) [OF inv] fr])
  show "chain_of_live D P rid pc" by (rule ch)
qed (use rows waiting_facts(8) [OF inv w] in auto)

lemma track_some: "map_of (sequences pc) rid \<noteq> None \<Longrightarrow> track D rid ts pc = observe D rid ts pc"
  by (auto simp: track_def observe_def)

lemma track_waiting:
  assumes inv: "planner_inv D P" and D: "digest8 D" and w: "map_of (waiting P) rid = Some x"
  obtains pc where "track D rid (prompt_token_ids (objs P x)) (kv P) = Inr (pc, block_hashes rid pc)"
    "planner_inv D (P\<lparr>kv := pc\<rparr>)" "map_of (sequences pc) rid \<noteq> None"
proof -
  let ?ts = "prompt_token_ids (objs P x)"
  note ki = planner_invD(5) [OF inv] and ko = planner_invD(4) [OF inv] and wf = waiting_facts [OF inv w]
  have bs: "0 < pc_block_size (kv P)" using kv_okD(2) [OF ko] by (simp add: BLOCK_SIZE_def)
  obtain pc hs where t: "track D rid ?ts (kv P) = Inr (pc, hs)" "tracks D rid ?ts pc"
  proof (cases "map_of (sequences (kv P)) rid")
    case None
    obtain hs where "iter_block_hashes D ?ts (pc_block_size (kv P)) (hash_seed (kv P)) = Inr hs"
      using iter_block_hashes_ok [OF D bs wf(6)] by blast
    then obtain pc where p: "track D rid ?ts (kv P) = Inr (pc, hs)" using None by (simp add: track_def hash_tokens_def)
    show ?thesis by (rule that [OF p track_tracks [OF p None]])
  next
    case (Some sq)
    then obtain k where k: "tracks D rid (take k ?ts) (kv P)"
      using kv_okD(6) [OF ko, of rid] wf(4,5) by (auto simp: chain_of_live_def)
    have "tokens_ok (take k ?ts @ drop k ?ts)" using wf(6) by simp
    then obtain pc hs where "observe D rid (take k ?ts @ drop k ?ts) (kv P) = Inr (pc, hs)"
      "tracks D rid (take k ?ts @ drop k ?ts) pc"
      using observe_tracks [OF k D bs] by blast
    then show ?thesis using that [of pc hs] Some track_some [of "kv P" rid] by simp
  qed
  note to = track_ok [OF ki t(1)]
  have geo: "pc_block_size pc = pc_block_size (kv P)" "hash_seed pc = hash_seed (kv P)"
    using t(1) by (auto simp: track_def split: option.splits)
  have rows: "rows_held r pc = rows_held r (kv P)" for r using to(4) by (simp add: rows_held_eq(2))
  have fr: "kv_frame rid (kv P) pc"
    using to(1,3) geo rows by (simp add: kv_frame_def same_chain_def block_hashes_def)
  have "chain_of_live D P rid pc"
    unfolding chain_of_live_def
  proof
    have "tracks D rid (take (length ?ts) (tokens (objs P x))) pc" using t(2) wf(5) by simp
    then show "\<exists>x k. map_of (live P) rid = Some x \<and> tracks D rid (take k (tokens (objs P x))) pc"
      using wf(4) by blast
  qed
  then have "planner_inv D (P\<lparr>kv := pc\<rparr>)"
    by (intro planner_inv_kv_waiting [OF inv w fr]) (use rows wf(3) in simp_all)
  then show ?thesis using that [of pc] t(1) to(2,5) by simp
qed

lemma lookup_waiting:
  assumes inv: "planner_inv D P" and w: "map_of (waiting P) rid = Some x"
  obtains pc m where "lookup hs n (kv P) = Inr (pc, m)" "planner_inv D (P\<lparr>kv := pc\<rparr>)"
    "match_ok pc hs m" "match_tokens m \<le> n - 1" "sequences pc = sequences (kv P)" "coord pc = coord (kv P)"
proof -
  note ki = planner_invD(5) [OF inv] and ko = planner_invD(4) [OF inv] and wf = waiting_facts [OF inv w]
  obtain pc m where l: "lookup hs n (kv P) = Inr (pc, m)" "coord pc = coord (kv P)" "sequences pc = sequences (kv P)"
    "pc_block_size pc = pc_block_size (kv P)" "hash_seed pc = hash_seed (kv P)"
    "cache_inv pc" "match_ok pc hs m" "match_tokens m \<le> n - 1"
    by (rule lookup_ok [OF ki, of hs n]) (rule that)
  have rows: "rows_held r pc = rows_held r (kv P)" for r using l(2) by (simp add: rows_held_eq(2))
  have sc: "same_chain r (kv P) pc" for r using l(3) by (simp add: same_chain_def block_hashes_def)
  have fr: "kv_frame rid (kv P) pc" using l(4-6) rows sc by (simp add: kv_frame_def)
  have "planner_inv D (P\<lparr>kv := pc\<rparr>)"
    by (rule planner_inv_kv_waiting [OF inv w fr]) (use rows wf(3) same_chain_running [OF ko sc l(4,5)] in simp_all)
  then show ?thesis using that l by blast
qed

definition seated :: "oid \<Rightarrow> time \<Rightarrow> nat \<Rightarrow> nat \<Rightarrow> prefix_cache \<Rightarrow> planner \<Rightarrow> planner" where
  "seated x now cached reach pc P =
     P\<lparr>objs := (objs P)(x := (objs P x)\<lparr>slot := Some (last (free_slots P)), status := RUNNING,
         scheduled_time := Some now, req_cached_tokens := cached, num_computed_tokens := reach\<rparr>),
       waiting := AList.delete (request_id (objs P x)) (waiting P), running := running P @ [x],
       free_slots := butlast (free_slots P), kv := pc, ticks := ticks P + 1\<rparr>"

lemma seat_seated:
  assumes "free_slots P \<noteq> []" "request_id (objs P x) = rid"
  shows "rbind (seat E x (P\<lparr>kv := pc, waiting := AList.delete rid (waiting P)\<rparr>)) (\<lambda>P2.
      map_blocks x (upd_obj x (\<lambda>r. r\<lparr>req_cached_tokens := cached, num_computed_tokens := reach\<rparr>) P2)) =
    map_blocks x (seated x (clock E (ticks P)) cached reach pc P)"
  using assms by (cases P) (simp add: seat_def monotonic_def seated_def)

lemma seated_ok:
  assumes inv: "planner_inv D P" and w: "map_of (waiting P) rid = Some x"
    and room: "free_slots P \<noteq> []" "length (running P) < pmax_num_seqs P"
    and reach: "reach \<le> prompt_len (objs P x)" "reach \<le> length (rows_held rid pc) * BLOCK_SIZE"
    and fr: "kv_frame rid (kv P) pc" "same_chain rid (kv P) pc"
    and sq: "map_of (sequences (kv P)) rid \<noteq> None"
  shows "planner_inv D (seated x now cached reach pc P)"
proof -
  note wf = waiting_facts [OF inv w] and qo = planner_invD(3) [OF inv] and ko = planner_invD(4) [OF inv]
    and so = planner_invD(2) [OF inv]
  define ob where "ob = (objs P)(x := (objs P x)\<lparr>slot := Some (last (free_slots P)), status := RUNNING,
         scheduled_time := Some now, req_cached_tokens := cached, num_computed_tokens := reach\<rparr>)"
  let ?P = "seated x now cached reach pc P"
  have f [simp]: "objs ?P = ob" "waiting ?P = AList.delete rid (waiting P)" "running ?P = running P @ [x]"
    "free_slots ?P = butlast (free_slots P)" "kv ?P = pc" "live ?P = live P" "pconfig ?P = pconfig P"
    "num_slots ?P = num_slots P" "pmax_num_seqs ?P = pmax_num_seqs P" "pending_blocks ?P = pending_blocks P"
    "no_offload ?P = no_offload P"
    by (simp_all add: seated_def ob_def wf(1) no_offload_def)
  have oth: "ob y = objs P y" if "y \<noteq> x" for y using that by (simp add: ob_def)
  have same: "request_id (ob y) = request_id (objs P y)" "tokens (ob y) = tokens (objs P y)"
    "wf_req c (ob y) = wf_req c (objs P y)" "prompt_len (ob y) = prompt_len (objs P y)" for y c
    by (simp_all add: ob_def tokens_def wf_req_def prompt_len_def)
  have new: "status (ob x) = RUNNING" "slot (ob x) = Some (last (free_slots P))" "num_computed_tokens (ob x) = reach"
    by (simp_all add: ob_def)
  have run: "ob y = objs P y" if "y \<in> set (running P)" for y using that wf(2) oth by metis
  have "slots_ok ?P"
  proof -
    have "image_mset (\<lambda>y. the (slot (ob y))) (mset (running P)) =
        image_mset (\<lambda>y. the (slot (objs P y))) (mset (running P))"
      using run by (intro image_mset_cong) simp
    moreover have "mset (free_slots P) = add_mset (last (free_slots P)) (mset (butlast (free_slots P)))"
      using room(1) by (metis add_mset_add_single append_butlast_last_id mset_append mset_single_iff_right)
    ultimately show ?thesis using so run new by (simp add: slots_ok_def)
  qed
  moreover have "queues_ok ?P"
    unfolding queues_ok_def
  proof (intro conjI allI ballI impI)
    show "distinct (running ?P)" using queues_okD(1) [OF qo] wf(2) by simp
    show "dict_ok (waiting ?P)" using queues_okD(2) [OF qo] by (simp add: dict_simps)
    show "dict_ok (live ?P)" using queues_okD(3) [OF qo] by simp
    show "length (running ?P) \<le> pmax_num_seqs ?P" using room(2) by simp
    show "fst xu \<in> set (running ?P)" if "xu \<in> set (pending_blocks ?P)" for xu
      using that queues_okD(12) [OF qo, of "fst xu" "snd xu"] by simp
    fix y assume "y \<in> set (running ?P)"
    then consider "y = x" | "y \<in> set (running P)" by auto
    then have "status (ob y) = RUNNING \<and> map_of (live P) (request_id (objs P y)) = Some y \<and>
        num_computed_tokens (ob y) \<le> prompt_len (objs P y)"
    proof cases
      case 1
      then show ?thesis using new reach(1) wf(1,4) by simp
    next
      case 2
      then show ?thesis using queues_okD(4,5,6) [OF qo 2] run [OF 2] by simp
    qed
    then show "status (objs ?P y) = RUNNING" "map_of (live ?P) (request_id (objs ?P y)) = Some y"
      "num_computed_tokens (objs ?P y) \<le> prompt_len (objs ?P y)" by (simp_all add: same)
  next
    fix r y assume "map_of (waiting ?P) r = Some y"
    then have m: "r \<noteq> rid" "map_of (waiting P) r = Some y" by (auto simp: dict_simps split: if_splits)
    note q7 = queues_okD(7) [OF qo m(2)]
    have "y \<noteq> x" using queues_okD(8) [OF qo, of r y] q7 m(1) wf(1) by auto
    then show "status (objs ?P y) = WAITING" "slot (objs ?P y) = None" "output_token_ids (objs ?P y) = []"
      "map_of (live ?P) r = Some y"
      using q7 oth by simp_all
  next
    fix r y assume l: "map_of (live ?P) r = Some y"
    then have l': "map_of (live P) r = Some y" by simp
    show "request_id (objs ?P y) = r" using queues_okD(8) [OF qo l'] by (simp add: same)
    show "wf_req (pconfig ?P) (objs ?P y)" using queues_okD(9) [OF qo l'] by (simp add: same)
    show "y \<in> set (running ?P) \<or> map_of (waiting ?P) r = Some y"
    proof (cases "r = rid")
      case True
      then have "y = x" using l' wf(4) by simp
      then show ?thesis by simp
    next
      case False
      then show ?thesis using queues_okD(10) [OF qo l'] by (simp add: dict_simps)
    qed
  qed
  moreover have "kv_ok D ?P"
    unfolding kv_ok_def
  proof (intro conjI allI ballI impI)
    have geo: "pc_block_size pc = pc_block_size (kv P)" "hash_seed pc = hash_seed (kv P)" and ci: "cache_inv pc"
      using fr(1) by (auto simp: kv_frame_def)
    show "cache_inv (kv ?P)" "pc_block_size (kv ?P) = BLOCK_SIZE" using ci geo kv_okD(2) [OF ko] by simp_all
    have oth_rows: "rows_held r pc = rows_held r (kv P) \<and> same_chain r (kv P) pc" if "r \<noteq> rid" for r
      using fr(1) that by (auto simp: kv_frame_def)
    fix r
    show "\<exists>y \<in> set (running ?P). request_id (objs ?P y) = r" if ne: "rows_held r (kv ?P) \<noteq> []"
      using ne oth_rows [of r] kv_okD(3) [OF ko, of r] wf(1) by (cases "r = rid") (auto simp: same)
    have "same_chain r (kv P) pc" using oth_rows fr(2) by (cases "r = rid") auto
    then have "chain_of_live D P r pc"
      using chain_of_live_cong [OF _ geo] kv_okD(6) [OF ko] by blast
    then show "chain_of_live D ?P r (kv ?P)" by (simp add: chain_of_live_def same)
  next
    fix y assume "y \<in> set (running ?P)"
    then consider "y = x" | "y \<in> set (running P)" by auto
    then have "num_computed_tokens (ob y) \<le> length (rows_held (request_id (objs P y)) pc) * BLOCK_SIZE \<and>
        map_of (sequences pc) (request_id (objs P y)) \<noteq> None"
    proof cases
      case 1
      then show ?thesis using new(3) reach(2) wf(1) sq fr(2) by (simp add: same_chain_def)
    next
      case 2
      then show ?thesis
        using kv_okD(4,5) [OF ko 2] wf(8) [OF 2] fr(1) run [OF 2] by (auto simp: kv_frame_def same_chain_def)
    qed
    then show "num_computed_tokens (objs ?P y) \<le>
        length (rows_held (request_id (objs ?P y)) (kv ?P)) * BLOCK_SIZE"
      "map_of (sequences (kv ?P)) (request_id (objs ?P y)) \<noteq> None" by (simp_all add: same)
  qed
  ultimately show ?thesis using inv by (simp add: planner_inv_def)
qed

lemma maybe_preempt_ok:
  assumes inv: "planner_inv D P"
  obtains (none) "maybe_preempt A P = Inr (P, None)"
  | (some) y s pc where "maybe_preempt A P = Inr (preempted y s pc P, Some y)" "y \<in> set (running P)" "y \<notin> set A"
      "planner_inv D (preempted y s pc P)" "evicts (set A) P (preempted y s pc P)"
      "block_hash (pool (coord pc)) = block_hash (pool (coord (kv P)))"
      "\<And>r. r \<noteq> request_id (objs P y) \<Longrightarrow> block_hashes r pc = block_hashes r (kv P)"
      "pc_block_size pc = pc_block_size (kv P)"
      "\<And>r. r \<noteq> request_id (objs P y) \<Longrightarrow> map_of (sequences pc) r = map_of (sequences (kv P)) r"
proof (cases "enable_preemption (pconfig P)")
  case False
  then show ?thesis using none by (simp add: maybe_preempt_def)
next
  case True
  show ?thesis
  proof (cases rule: preempt_victim_ok [OF inv, of A, case_names none some])
    case none
    then show ?thesis using that(1) True by (simp add: maybe_preempt_def)
  next
    case (some y s pc)
    have eq: "maybe_preempt A P = Inr (preempted y s pc P, Some y)" using True some(1) by (simp add: maybe_preempt_def)
    have rows: "rows_held r pc = rows_held r (kv P)" "block_hashes r pc = block_hashes r (kv P)"
      if "r \<noteq> request_id (objs P y)" for r
      using some(6) [OF that] by simp_all
    note ev = preempted_evicts(1) [OF inv some(2,3) rows(1)]
    show ?thesis by (rule that(2) [OF eq some(2-4) ev some(5) rows(2) some(7,8)])
  qed
qed

lemma allocate_waiting:
  assumes inv: "planner_inv D P" and w: "map_of (waiting P) rid = Some x"
    and m: "match_ok (kv P) (block_hashes rid (kv P)) m"
  obtains (no) pc where "kv_allocate rid n (Some m) P = Inr (P\<lparr>kv := pc\<rparr>, False)" "planner_inv D (P\<lparr>kv := pc\<rparr>)"
  | (yes) pc where "kv_allocate rid n (Some m) P = Inr (P\<lparr>kv := pc\<rparr>, True)" "kv_frame rid (kv P) pc"
      "same_chain rid (kv P) pc" "n \<le> length (rows_held rid pc) * BLOCK_SIZE"
proof -
  note ki = planner_invD(5) [OF inv] and ko = planner_invD(4) [OF inv] and wf = waiting_facts [OF inv w]
  obtain bl where bl: "match_blocks m = [bl]" using m by (auto simp: match_ok_def)
  note al = allocate_adopt [OF ki m bl wf(3), of n]
  show ?thesis
  proof (cases "missing_blocks (kv P) n bl \<le> length (available (coord (kv P)) [bl])")
    case True
    then obtain pc where p: "allocate rid n (Some m) (kv P) = Inr (pc, True)" "grown rid n bl (kv P) pc"
      using al(1) by blast
    then have g: "cache_inv pc" "pc = (kv P)\<lparr>coord := coord pc\<rparr>" "\<And>r. r \<noteq> rid \<Longrightarrow> rows_held r pc = rows_held r (kv P)"
      "n \<le> length (rows_held rid pc) * pc_block_size (kv P)"
      by (auto simp: grown_def)
    note fc = frame_coord [OF g(1-3)]
    show ?thesis using yes [OF _ fc] p(1) g(4) kv_okD(2) [OF ko] by (simp add: kv_allocate_def)
  next
    case False
    then obtain pc where p: "allocate rid n (Some m) (kv P) = Inr (pc, False)" "unchanged_ledger (kv P) pc"
      using al(2) by fastforce
    then have g: "cache_inv pc" "pc = (kv P)\<lparr>coord := coord pc\<rparr>" "\<And>r. rows_held r pc = rows_held r (kv P)"
      by (auto simp: unchanged_ledger_def)
    note fc = frame_coord [OF g(1-3)]
    have geo: "pc_block_size pc = pc_block_size (kv P)" "hash_seed pc = hash_seed (kv P)"
      using fc(1) by (auto simp: kv_frame_def)
    have "planner_inv D (P\<lparr>kv := pc\<rparr>)"
      by (rule planner_inv_kv_waiting [OF inv w fc(1)])
        (use g(3) wf(3) same_chain_running [OF ko fc(2) geo] in simp_all)
    then show ?thesis using no p(1) by (simp add: kv_allocate_def)
  qed
qed

lemma free_waiting:
  assumes inv: "planner_inv D P" and w: "map_of (waiting P) rid = Some x"
  obtains pc where "cache_free rid (kv P) = Inr pc" "planner_inv D (P\<lparr>kv := pc\<rparr>)"
proof -
  obtain pc where pc: "cache_free rid (kv P) = Inr pc" "cache_inv pc" "rows_held rid pc = []"
    "map_of (sequences pc) rid = None"
    "\<And>r. r \<noteq> rid \<Longrightarrow> rows_held r pc = rows_held r (kv P) \<and> map_of (sequences pc) r = map_of (sequences (kv P)) r"
    "pc_block_size pc = pc_block_size (kv P)" "hash_seed pc = hash_seed (kv P)"
    by (rule cache_free_ok [OF planner_invD(5) [OF inv], of rid]) (rule that)
  have fr: "kv_frame rid (kv P) pc"
    using pc(2,5-7) by (simp add: kv_frame_def same_chain_def block_hashes_def)
  have "planner_inv D (P\<lparr>kv := pc\<rparr>)"
    by (rule planner_inv_kv_waiting [OF inv w fr pc(3)]) (simp add: chain_of_live_def pc(4))
  then show ?thesis using that pc(1) by blast
qed

definition admit_post :: "(bytes \<Rightarrow> bytes) \<Rightarrow> planner \<Rightarrow> oid list \<Rightarrow> planner \<times> work \<times> nat \<times> outcome \<Rightarrow> bool" where
  "admit_post D P pre t \<longleftrightarrow>
     (case t of (P', w', _, out) \<Rightarrow>
        planner_inv D P' \<and> work_ok P' w' \<and> same_frame P P' \<and> step_frame P pre P' (wk_prefill w') \<and>
        (out = Continue \<longrightarrow> length (waiting P') < length (waiting P)))"

lemma length_delete_less: "k \<in> fst ` set d \<Longrightarrow> length (AList.delete k d) < length d"
  by (induction d) (auto simp: AList.delete_eq le_imp_less_Suc)

lemma admit_seat_ok:
  assumes inv: "planner_inv D P" and w: "map_of (waiting P) rid = Some x" and wk: "work_ok P w"
    and room: "free_slots P \<noteq> []" "length (running P) < pmax_num_seqs P"
    and m: "match_ok (kv P) (block_hashes rid (kv P)) m" "match_tokens m \<le> prompt_len (objs P x) - 1"
    and sq: "map_of (sequences (kv P)) rid \<noteq> None"
  shows "\<exists>t. admit_seat E x m longest (P, w) = Inr t \<and> admit_post D P (wk_prefill w) t \<and>
    (wk_preempted w \<noteq> [] \<longrightarrow> snd (snd (snd t)) = Break)"
proof -
  note wf = waiting_facts [OF inv w]
  define chunk where "chunk = chunk_of P x (match_tokens m)"
  define reach where "reach = match_tokens m + chunk"
  have "match_tokens m < prompt_len (objs P x)" using m(2) wf(7) by linarith
  note ch = chunk_of_bounds [OF inv wf(4) this, folded chunk_def, folded reach_def]
  have step: "admit_seat E x m longest (P, w) =
     rbind (kv_allocate rid reach (Some m) P) (\<lambda>(P1, ok).
       if \<not> ok then
         rbind (cache_free rid (kv P1)) (\<lambda>pc.
         rbind (maybe_preempt (wk_prefill w) (P1\<lparr>kv := pc\<rparr>)) (\<lambda>(P2, v).
           Inr (P2, w\<lparr>wk_preempted := wk_preempted w @ (case v of None \<Rightarrow> [] | Some y \<Rightarrow> [y])\<rparr>, longest, Break)))
       else
         rbind (seat E x (P1\<lparr>waiting := AList.delete rid (waiting P1)\<rparr>)) (\<lambda>P2.
         rbind (map_blocks x (upd_obj x (\<lambda>r. r\<lparr>req_cached_tokens := match_tokens m, num_computed_tokens := reach\<rparr>) P2))
           (\<lambda>P3. Inr (track_pending x reach P3,
              w\<lparr>wk_prefill := wk_prefill w @ [x], wk_lens := wk_lens w @ [chunk]\<rparr>, max longest chunk,
              if wk_preempted w \<noteq> [] then Break else Continue))))"
    unfolding admit_seat_def prod.case Let_def wf(1) chunk_def [symmetric] reach_def [symmetric] ..
  show ?thesis
  proof (cases rule: allocate_waiting [OF inv w m(1), of reach, case_names no yes])
    case (no pc)
    let ?P1 = "P\<lparr>kv := pc\<rparr>"
    have w1: "map_of (waiting ?P1) rid = Some x" using w by simp
    obtain pc2 where p2: "cache_free rid (kv ?P1) = Inr pc2" "planner_inv D (?P1\<lparr>kv := pc2\<rparr>)"
      by (rule free_waiting [OF no(2) w1]) (rule that)
    let ?P2 = "?P1\<lparr>kv := pc2\<rparr>"
    have k2: "work_ok ?P2 w" using wk by (simp add: work_ok_def)
    have f2: "same_frame P ?P2" by (simp add: same_frame_def)
    have s2: "step_frame P (wk_prefill w) ?P2 (wk_prefill w)" by (simp add: step_frame_def)
    show ?thesis
    proof (cases rule: maybe_preempt_ok [OF p2(2), of "wk_prefill w", case_names none some])
      case none
      then show ?thesis unfolding step using no(1) p2 k2 f2 s2 by (simp add: admit_post_def)
    next
      case (some y s pc3)
      have k3: "work_ok (preempted y s pc3 ?P2) (w\<lparr>wk_preempted := wk_preempted w @ [y]\<rparr>)"
        by (rule work_ok_evicts [OF k2 some(5)]) simp
      have f3: "same_frame P (preempted y s pc3 ?P2)" by (rule same_frame_trans [OF f2 evicts_frame [OF some(5)]])
      have s3: "step_frame P (wk_prefill w) (preempted y s pc3 ?P2) (wk_prefill w)"
        by (rule step_frame_trans [OF s2 evicts_step_frame [OF some(5)]]) simp
      show ?thesis unfolding step using no(1) p2(1) some(1) some(4) k3 f3 s3 by (simp add: admit_post_def)
    qed
  next
    case (yes pc)
    let ?P2 = "seated x (clock E (ticks P)) (match_tokens m) reach pc P"
    have i2: "planner_inv D ?P2" by (rule seated_ok [OF inv w room ch(3) yes(4,2,3) sq])
    have x2: "x \<in> set (running ?P2)" by (simp add: seated_def)
    obtain pc' ws where mb: "map_blocks x ?P2 = Inr (upd_obj x (\<lambda>r. r\<lparr>block_plan := ws\<rparr>) (?P2\<lparr>kv := pc'\<rparr>))"
      "planner_inv D (upd_obj x (\<lambda>r. r\<lparr>block_plan := ws\<rparr>) (?P2\<lparr>kv := pc'\<rparr>))"
      using map_blocks_ok [OF i2 x2] by blast
    define P3 where "P3 = track_pending x reach (upd_obj x (\<lambda>r. r\<lparr>block_plan := ws\<rparr>) (?P2\<lparr>kv := pc'\<rparr>))"
    have i3: "planner_inv D P3"
      unfolding P3_def by (rule planner_inv_track [OF mb(2)]) (use x2 in simp)
    have f3: "running P3 = running P @ [x]" "same_frame P P3" "waiting P3 = AList.delete rid (waiting P)"
      by (simp_all add: P3_def track_pending_def seated_def same_frame_def wf(1))
    have "rid \<in> fst ` set (waiting P)" using w by (metis map_of_eq_None_iff option.distinct(1))
    then have lt: "length (waiting P3) < length (waiting P)" using length_delete_less f3(3) by metis
    let ?w = "w\<lparr>wk_prefill := wk_prefill w @ [x], wk_lens := wk_lens w @ [chunk]\<rparr>"
    have nx: "x \<notin> set (wk_prefill w)" using wf(2) wk by (auto simp: work_ok_def)
    have o3: "y \<noteq> x \<Longrightarrow> objs P3 y = objs P y" "num_computed_tokens (objs P3 x) = reach" for y
      by (simp_all add: P3_def track_pending_def seated_def)
    have "list_all2 (\<lambda>y n. n \<le> num_computed_tokens (objs P3 y)) (wk_prefill w) (wk_lens w)"
      using list_all2_progress [of P "wk_prefill w" "wk_lens w" P3] wk nx o3(1) unfolding work_ok_def by metis
    moreover have "chunk \<le> num_computed_tokens (objs P3 x)" using o3(2) by (simp add: reach_def)
    ultimately have "list_all2 (\<lambda>y n. n \<le> num_computed_tokens (objs P3 y)) (wk_prefill w @ [x]) (wk_lens w @ [chunk])"
      by (simp add: list_all2_appendI)
    then have k3: "work_ok P3 ?w"
      using nx wk f3(1,2) ch(1,2) by (auto simp: work_ok_def same_frame_def)
    have s3: "step_frame P (wk_prefill w) P3 (wk_prefill ?w)"
      using o3(1) f3(1) by (auto simp: step_frame_def)
    have "rbind (seat E x (P\<lparr>kv := pc, waiting := AList.delete rid (waiting P)\<rparr>)) (\<lambda>P2.
        map_blocks x (upd_obj x (\<lambda>r. r\<lparr>req_cached_tokens := match_tokens m, num_computed_tokens := reach\<rparr>) P2)) =
        Inr (upd_obj x (\<lambda>r. r\<lparr>block_plan := ws\<rparr>) (?P2\<lparr>kv := pc'\<rparr>))"
      using seat_seated [OF room(1) wf(1)] mb(1) by simp
    then have "admit_seat E x m longest (P, w) =
        Inr (P3, ?w, max longest chunk, if wk_preempted w \<noteq> [] then Break else Continue)"
      unfolding step yes(1) P3_def by (auto simp: rbind_assoc [symmetric])
    then show ?thesis using i3 k3 f3(2) s3 lt by (auto simp: admit_post_def)
  qed
qed

lemma match_ok_cong:
  "match_ok pc hs m \<Longrightarrow> block_hash (pool (coord pc')) = block_hash (pool (coord pc)) \<Longrightarrow>
     pc_block_size pc' = pc_block_size pc \<Longrightarrow> match_ok pc' hs m"
  by (auto simp: match_ok_def)

lemma admit_one_ok:
  assumes inv: "planner_inv (digest E) P" and D: "digest8 (digest E)" and wk: "work_ok P w"
    and hd: "waiting P = (rid, x) # rest"
  shows "\<exists>t. admit_one E x longest (P, w) = Inr t \<and> admit_post (digest E) P (wk_prefill w) t"
proof -
  let ?D = "digest E"
  have w: "map_of (waiting P) rid = Some x" using hd by simp
  note wf = waiting_facts [OF inv w]
  obtain pc1 where t: "track ?D rid (prompt_token_ids (objs P x)) (kv P) = Inr (pc1, block_hashes rid pc1)"
    "planner_inv ?D (P\<lparr>kv := pc1\<rparr>)" "map_of (sequences pc1) rid \<noteq> None"
    by (rule track_waiting [OF inv D w]) (rule that)
  have w1: "map_of (waiting (P\<lparr>kv := pc1\<rparr>)) rid = Some x" using w by simp
  obtain pc2 m where "lookup (block_hashes rid pc1) (prompt_len (objs P x)) (kv (P\<lparr>kv := pc1\<rparr>)) = Inr (pc2, m)"
    "planner_inv ?D (P\<lparr>kv := pc1\<rparr>\<lparr>kv := pc2\<rparr>)" "match_ok pc2 (block_hashes rid pc1) m"
    "match_tokens m \<le> prompt_len (objs P x) - 1" "sequences pc2 = sequences (kv (P\<lparr>kv := pc1\<rparr>))"
    by (rule lookup_waiting [OF t(2) w1]) (rule that)
  then have l: "lookup (block_hashes rid pc1) (prompt_len (objs P x)) pc1 = Inr (pc2, m)"
    "planner_inv ?D (P\<lparr>kv := pc2\<rparr>)" "match_ok pc2 (block_hashes rid pc1) m"
    "match_tokens m \<le> prompt_len (objs P x) - 1" "sequences pc2 = sequences pc1"
    by simp_all
  define P2 where "P2 = P\<lparr>kv := pc2\<rparr>"
  have P2 [simp]: "objs P2 = objs P" "waiting P2 = waiting P" "running P2 = running P" "kv P2 = pc2"
    "free_slots P2 = free_slots P" "same_frame P P2"
    by (simp_all add: P2_def same_frame_def)
  have i2: "planner_inv ?D P2" using l(2) by (simp add: P2_def)
  have w2: "map_of (waiting P2) rid = Some x" using w by simp
  have k2: "work_ok P2 w" using wk by (simp add: work_ok_def P2_def)
  have mo: "match_ok (kv P2) (block_hashes rid (kv P2)) m" using l(3,5) by (simp add: block_hashes_def)
  have sq: "map_of (sequences (kv P2)) rid \<noteq> None" using t(3) l(5) by simp
  have off: "offloading P = None" "offloading P2 = None" using planner_invD(6) inv i2 by auto
  have step: "admit_one E x longest (P, w) =
     (if length (running P2) \<ge> pmax_num_seqs P2 then Inr (P2, w, longest, Break)
      else if wk_prefill w \<noteq> [] \<and> max longest (chunk_of P2 x 0) * (length (wk_prefill w) + 1) >
                max_num_batched_tokens (pconfig P2)
      then Inr (P2, w, longest, Break)
      else if free_slots P2 = [] then
        rbind (maybe_preempt (wk_prefill w) P2) (\<lambda>(P3, v).
          case v of
            None \<Rightarrow> Inr (P3, w, longest, Break)
          | Some y \<Rightarrow> admit_seat E x m longest (P3, w\<lparr>wk_preempted := wk_preempted w @ [y]\<rparr>))
      else admit_seat E x m longest (P2, w))"
    unfolding admit_one_def prod.case Let_def wf(1)
    using t(1) l(1) off by (simp add: try_start_promotion_def P2_def)
  have s2: "step_frame P (wk_prefill w) P2 (wk_prefill w)" by (simp add: step_frame_def)
  have stop: "admit_post ?D P (wk_prefill w) (P2, w, longest, Break)" using i2 k2 s2 by (simp add: admit_post_def)
  show ?thesis
  proof (cases "length (running P2) \<ge> pmax_num_seqs P2 \<or> wk_prefill w \<noteq> [] \<and>
      max longest (chunk_of P2 x 0) * (length (wk_prefill w) + 1) > max_num_batched_tokens (pconfig P2)")
    case True
    then show ?thesis unfolding step using stop by auto
  next
    case gates: False
    show ?thesis
    proof (cases "free_slots P2 = []")
      case False
      have "\<exists>t. admit_seat E x m longest (P2, w) = Inr t \<and> admit_post ?D P2 (wk_prefill w) t \<and>
          (wk_preempted w \<noteq> [] \<longrightarrow> snd (snd (snd t)) = Break)"
        by (rule admit_seat_ok [OF i2 w2 k2 False _ mo _ sq]) (use gates l(4) in simp_all)
      moreover have "admit_post ?D P (wk_prefill w) t" if "admit_post ?D P2 (wk_prefill w) t" for t
        using that same_frame_trans [OF P2(6)] step_frame_trans [OF s2] by (auto simp: admit_post_def)
      ultimately show ?thesis unfolding step using gates False by auto
    next
      case full: True
      show ?thesis
      proof (cases rule: maybe_preempt_ok [OF i2, of "wk_prefill w", case_names none some])
        case none
        then show ?thesis unfolding step using gates full stop by auto
      next
        case (some y s pc)
        let ?P3 = "preempted y s pc P2" and ?w = "w\<lparr>wk_preempted := wk_preempted w @ [y]\<rparr>"
        have ny: "request_id (objs P2 y) \<noteq> rid" using wf(8) [of y] some(2) by simp
        have xy: "objs ?P3 x = objs P2 x" using evictsD(8) [OF some(5), of x] wf(2) by simp
        have w3: "map_of (waiting ?P3) rid = Some x" using w2 ny by (simp add: preempted_def dict_simps)
        have k3: "work_ok ?P3 ?w" by (rule work_ok_evicts [OF k2 some(5)]) simp
        have r3: "free_slots ?P3 \<noteq> []" by (simp add: preempted_def)
        have n3: "length (running ?P3) < pmax_num_seqs ?P3"
          using gates evictsD(2,6) [OF some(5)] by simp
        have m3: "match_ok (kv ?P3) (block_hashes rid (kv ?P3)) m"
          using match_ok_cong [OF mo] some(6,8) some(7) [of rid] ny by (simp add: preempted_def)
        have s3: "step_frame P (wk_prefill w) ?P3 (wk_prefill ?w)"
          by (rule step_frame_trans [OF s2 evicts_step_frame [OF some(5)]]) simp
        have "\<exists>t. admit_seat E x m longest (?P3, ?w) = Inr t \<and> admit_post ?D ?P3 (wk_prefill ?w) t \<and>
            (wk_preempted ?w \<noteq> [] \<longrightarrow> snd (snd (snd t)) = Break)"
          by (rule admit_seat_ok [OF some(4) w3 k3 r3 n3 m3])
            (use l(4) xy sq some(9) [of rid] ny in \<open>simp_all add: preempted_def\<close>)
        moreover have "admit_post ?D P (wk_prefill w) t" if "admit_post ?D ?P3 (wk_prefill ?w) t" "snd (snd (snd t)) = Break" for t
          using that same_frame_trans [OF P2(6) same_frame_trans [OF evicts_frame [OF some(5)]]] step_frame_trans [OF s3]
          by (auto simp: admit_post_def)
        ultimately show ?thesis unfolding step using gates full some(1) by auto
      qed
    qed
  qed
qed

lemma admit_loop_ok:
  assumes "planner_inv (digest E) P" "digest8 (digest E)" "work_ok P w" "length (waiting P) \<le> fuel"
  shows "\<exists>P' w'. admit_loop fuel E longest (P, w) = Inr (P', w') \<and> planner_inv (digest E) P' \<and>
    work_ok P' w' \<and> same_frame P P' \<and> step_frame P (wk_prefill w) P' (wk_prefill w')"
  using assms
proof (induction fuel arbitrary: P w longest)
  case 0
  then show ?case by (simp add: admit_loop.simps)
next
  case (Suc n)
  show ?case
  proof (cases "waiting P")
    case Nil
    then show ?thesis using Suc.prems by (simp add: admit_loop.simps)
  next
    case (Cons rx rest)
    obtain rid x where rx: "waiting P = (rid, x) # rest" using Cons by (cases rx) auto
    obtain P1 w1 l1 out where a: "admit_one E x longest (P, w) = Inr (P1, w1, l1, out)"
      "planner_inv (digest E) P1" "work_ok P1 w1" "same_frame P P1"
      "step_frame P (wk_prefill w) P1 (wk_prefill w1)" "out = Continue \<longrightarrow> length (waiting P1) < length (waiting P)"
      using admit_one_ok [OF Suc.prems(1-3) rx] by (fastforce simp: admit_post_def)
    show ?thesis
    proof (cases out)
      case Break
      then show ?thesis using a rx by (simp add: admit_loop.simps [of "Suc n"])
    next
      case Continue
      then have "length (waiting P1) \<le> n" using a(6) Suc.prems(4) by simp
      then have "\<exists>P' w'. admit_loop n E l1 (P1, w1) = Inr (P', w') \<and> planner_inv (digest E) P' \<and>
          work_ok P' w' \<and> same_frame P1 P' \<and> step_frame P1 (wk_prefill w1) P' (wk_prefill w')"
        by (rule Suc.IH [OF a(2) Suc.prems(2) a(3)])
      then show ?thesis
        using Continue a(1,4,5) rx same_frame_trans step_frame_trans by (fastforce simp: admit_loop.simps [of "Suc n"])
    qed
  qed
qed

lemma planner_inv_deferred: "planner_inv D P \<Longrightarrow> planner_inv D (P\<lparr>deferred_steps := n\<rparr>)"
  unfolding planner_inv_def queues_ok_def slots_ok_def kv_ok_def chain_of_live_def no_offload_def by simp

lemma admit_ok:
  assumes inv: "planner_inv (digest E) P" and D: "digest8 (digest E)" and wk: "work_ok P w"
  shows "\<exists>P' w'. admit E (P, w) = Inr (P', w') \<and> planner_inv (digest E) P' \<and> work_ok P' w' \<and> same_frame P P' \<and>
    step_frame P (wk_prefill w) P' (wk_prefill w')"
proof (cases "defer_admission (wk_prefill w) P")
  case True
  then show ?thesis
    using planner_inv_deferred [OF inv] wk by (simp add: admit_def work_ok_def same_frame_def step_frame_def)
next
  case False
  let ?P = "P\<lparr>deferred_steps := 0\<rparr>"
  have "\<exists>P' w'. admit_loop (length (waiting P)) E (foldr max (wk_lens w) 0) (?P, w) = Inr (P', w') \<and>
      planner_inv (digest E) P' \<and> work_ok P' w' \<and> same_frame ?P P' \<and> step_frame ?P (wk_prefill w) P' (wk_prefill w')"
    by (rule admit_loop_ok [OF planner_inv_deferred [OF inv] D]) (use wk in \<open>simp_all add: work_ok_def\<close>)
  then show ?thesis using False by (auto simp: admit_def same_frame_def step_frame_def)
qed

section \<open>Growing the decode batch\<close>

text \<open>The rows the next decode token of a request is written to are covered by its blocks.\<close>

definition decode_covered :: "planner \<Rightarrow> oid \<Rightarrow> bool" where
  "decode_covered P y \<longleftrightarrow>
     nat (min (int (seq_len (objs P y)) + pending_tokens (objs P y) + 1) (int (max_seq_len (pconfig P))))
       \<le> length (rows_held (request_id (objs P y)) (kv P)) * BLOCK_SIZE"

text \<open>What growing one request may do to the others: evict them, or leave them as they are.\<close>

definition decode_frame :: "planner \<Rightarrow> planner \<Rightarrow> bool" where
  "decode_frame P P' \<longleftrightarrow>
     same_frame P P' \<and> set (running P') \<subseteq> set (running P) \<and>
     (\<forall>y \<in> set (running P').
        core (objs P' y) = core (objs P y) \<and> num_computed_tokens (objs P' y) = num_computed_tokens (objs P y) \<and>
        pending_tokens (objs P' y) = pending_tokens (objs P y) \<and>
        length (rows_held (request_id (objs P y)) (kv P)) \<le> length (rows_held (request_id (objs P y)) (kv P')))"

lemma decode_frameD:
  assumes "decode_frame P P'"
  shows "same_frame P P'" "set (running P') \<subseteq> set (running P)"
    "y \<in> set (running P') \<Longrightarrow> core (objs P' y) = core (objs P y)"
    "y \<in> set (running P') \<Longrightarrow> num_computed_tokens (objs P' y) = num_computed_tokens (objs P y)"
    "y \<in> set (running P') \<Longrightarrow> pending_tokens (objs P' y) = pending_tokens (objs P y)"
    "y \<in> set (running P') \<Longrightarrow> length (rows_held (request_id (objs P y)) (kv P)) \<le>
       length (rows_held (request_id (objs P y)) (kv P'))"
  using assms unfolding decode_frame_def by blast+

lemma decode_frame_refl [simp]: "decode_frame P P"
  by (simp add: decode_frame_def)

lemma decode_frame_trans:
  assumes "decode_frame P Q" "decode_frame Q R"
  shows "decode_frame P R"
  unfolding decode_frame_def
proof (intro conjI ballI)
  note p = decode_frameD [OF assms(1)] and q = decode_frameD [OF assms(2)]
  show "same_frame P R" by (rule same_frame_trans [OF p(1) q(1)])
  show "set (running R) \<subseteq> set (running P)" using p(2) q(2) by (rule order_trans [rotated])
  fix y assume y: "y \<in> set (running R)"
  have yQ: "y \<in> set (running Q)" by (rule subsetD [OF q(2) y])
  show "core (objs R y) = core (objs P y)" "num_computed_tokens (objs R y) = num_computed_tokens (objs P y)"
    "pending_tokens (objs R y) = pending_tokens (objs P y)"
    using p(3-5) [OF yQ] q(3-5) [OF y] by simp_all
  have "request_id (objs Q y) = request_id (objs P y)" using p(1) by (simp add: same_frame_def)
  then show "length (rows_held (request_id (objs P y)) (kv P)) \<le> length (rows_held (request_id (objs P y)) (kv R))"
    using p(6) [OF yQ] q(6) [OF y] by simp
qed

lemma evicts_decode_frame:
  assumes "evicts A P P'"
  shows "decode_frame P P'"
  unfolding decode_frame_def
proof (intro conjI ballI)
  show "same_frame P P'" by (rule evicts_frame [OF assms])
  show "set (running P') \<subseteq> set (running P)" by (rule evictsD(5) [OF assms])
  fix y assume y: "y \<in> set (running P')"
  have "objs P' y = objs P y" using evictsD(8) [OF assms] y by blast
  then show "core (objs P' y) = core (objs P y)" "num_computed_tokens (objs P' y) = num_computed_tokens (objs P y)"
    "pending_tokens (objs P' y) = pending_tokens (objs P y)" by simp_all
  show "length (rows_held (request_id (objs P y)) (kv P)) \<le> length (rows_held (request_id (objs P y)) (kv P'))"
    by (rule evictsD(10) [OF assms y])
qed

lemma decode_frame_block_plan: "decode_frame P (upd_obj x (\<lambda>r. r\<lparr>block_plan := ws\<rparr>) P)"
  by (simp add: decode_frame_def same_frame_def core_def)

lemma decode_covered_frame:
  assumes "decode_frame P P'" "y \<in> set (running P')" "decode_covered P y"
  shows "decode_covered P' y"
proof -
  note p = decode_frameD [OF assms(1)]
  have len: "seq_len (objs P' y) = seq_len (objs P y)" and rid: "request_id (objs P' y) = request_id (objs P y)"
    using core_eq(1,2,3) [OF p(3) [OF assms(2)]] by (simp_all add: seq_len_def)
  have c: "pconfig P' = pconfig P" using p(1) by (simp add: same_frame_def)
  have "length (rows_held (request_id (objs P y)) (kv P)) * BLOCK_SIZE \<le>
      length (rows_held (request_id (objs P y)) (kv P')) * BLOCK_SIZE"
    by (rule mult_le_mono1) (rule p(6) [OF assms(2)])
  with assms(3) show ?thesis
    unfolding decode_covered_def len rid c p(5) [OF assms(2)] by (rule order_trans)
qed

lemma running_iff:
  assumes "planner_inv D P" "map_of (live P) (request_id (objs P x)) = Some x"
  shows "status (objs P x) = RUNNING \<longleftrightarrow> x \<in> set (running P)"
  using queues_okD(4,10) [OF planner_invD(3) [OF assms(1)]] queues_okD(7) [OF planner_invD(3) [OF assms(1)]] assms(2)
  by (metis status.distinct(1))

lemma grow_one_ok:
  assumes inv: "planner_inv D P" and l: "map_of (live P) (request_id (objs P x)) = Some x"
    and g: "set granted \<subseteq> set (running P)" "x \<notin> set granted"
  shows "\<exists>P' gr vs. grow_one x (P, granted, pre) = Inr (P', gr, pre @ vs) \<and> planner_inv D P' \<and> decode_frame P P' \<and>
    set granted \<subseteq> set (running P') \<and> (vs = [] \<longrightarrow> running P' = running P) \<and>
    (gr = granted \<and> x \<notin> set (running P') \<or> gr = granted @ [x] \<and> x \<in> set (running P') \<and> decode_covered P' x)"
proof (cases "status (objs P x) = RUNNING")
  case False
  then have "x \<notin> set (running P)" using running_iff [OF inv l] by simp
  then show ?thesis using False inv g by (intro exI [of _ P] exI [of _ granted] exI [of _ "[]"]) (simp add: grow_one_def)
next
  case True
  then have x: "x \<in> set (running P)" using running_iff [OF inv l] by simp
  define P1 where "P1 = upd_obj x (\<lambda>r. r\<lparr>block_plan := []\<rparr>) P"
  define reach where "reach = nat (min (int (seq_len (objs P1 x)) + pending_tokens (objs P1 x) + 1) (int (max_seq_len (pconfig P))))"
  have i1: "planner_inv D P1" unfolding P1_def by (rule planner_inv_block_plan [OF inv])
  have r1: "running P1 = running P" "pconfig P1 = pconfig P" by (simp_all add: P1_def)
  have d1: "decode_frame P P1" unfolding P1_def by (rule decode_frame_block_plan)
  have x1: "x \<in> set (running P1)" using x r1 by simp
  obtain P2 vs ok where r: "reserve x reach granted pre P1 = Inr (P2, pre @ vs, ok)" "planner_inv D P2"
    "evicts (insert x (set granted)) P1 P2" "vs = [] \<longrightarrow> running P2 = running P1"
    "ok \<longrightarrow> reach \<le> length (rows_held (request_id (objs P2 x)) (kv P2)) * BLOCK_SIZE"
    using reserve_ok [OF i1 x1, of reach granted pre] by blast
  have x2: "x \<in> set (running P2)" using evictsD(7) [OF r(3) insertI1 x1] .
  have g2: "set granted \<subseteq> set (running P2)"
    using evictsD(7) [OF r(3) insertI2] g(1) [folded r1(1)] by blast
  have d2: "decode_frame P P2" by (rule decode_frame_trans [OF d1 evicts_decode_frame [OF r(3)]])
  have ob: "objs P2 x = objs P1 x" using evictsD(8) [OF r(3)] x2 by blast
  have step: "grow_one x (P, granted, pre) =
      (if ok then rbind (map_blocks x P2) (\<lambda>P3.
         Inr (track_pending x (min (seq_len (objs P3 x)) (max_seq_len (pconfig P))) P3, granted @ [x], pre @ vs))
       else rbind (preempt x P2) (\<lambda>P3. Inr (P3, granted, (pre @ vs) @ [x])))"
    using True r(1) unfolding grow_one_def prod.case Let_def P1_def [symmetric] reach_def [symmetric] by simp
  show ?thesis
  proof (cases ok)
    case ok: True
    obtain pc' ws where m: "map_blocks x P2 = Inr (upd_obj x (\<lambda>r. r\<lparr>block_plan := ws\<rparr>) (P2\<lparr>kv := pc'\<rparr>))"
      "planner_inv D (upd_obj x (\<lambda>r. r\<lparr>block_plan := ws\<rparr>) (P2\<lparr>kv := pc'\<rparr>))"
      "\<forall>r. rows_held r pc' = rows_held r (kv P2)"
      using map_blocks_ok [OF r(2) x2] by blast
    define P3 where "P3 = upd_obj x (\<lambda>r. r\<lparr>block_plan := ws\<rparr>) (P2\<lparr>kv := pc'\<rparr>)"
    define P4 where "P4 = track_pending x (min (seq_len (objs P3 x)) (max_seq_len (pconfig P))) P3"
    have r4: "running P4 = running P2" by (simp add: P4_def P3_def track_pending_def)
    have i4: "planner_inv D P4"
      unfolding P4_def by (rule planner_inv_track) (use m(2) x2 in \<open>simp_all add: P3_def\<close>)
    have "decode_frame P2 P4"
      using m(3) by (simp add: decode_frame_def P4_def P3_def track_pending_def same_frame_def core_def)
    then have d4: "decode_frame P P4" by (rule decode_frame_trans [OF d2])
    have "pconfig P2 = pconfig P" using evictsD(1) [OF r(3)] r1(2) by simp
    then have cov: "decode_covered P4 x"
      using r(5) ok m(3) ob
      by (simp add: decode_covered_def P4_def P3_def track_pending_def reach_def seq_len_def)
    have eq: "grow_one x (P, granted, pre) = Inr (P4, granted @ [x], pre @ vs)"
      using step ok m(1) by (simp add: P4_def P3_def)
    show ?thesis
      by (rule exI [of _ P4], rule exI [of _ "granted @ [x]"], rule exI [of _ vs])
        (use eq i4 d4 g2 r4 r(4) r1 cov x2 in simp)
  next
    case False
    obtain pc s where p: "preempt x P2 = Inr (preempted x s pc P2)" "planner_inv D (preempted x s pc P2)"
      "\<And>r. r \<noteq> request_id (objs P2 x) \<Longrightarrow> block_hashes r pc = block_hashes r (kv P2) \<and> rows_held r pc = rows_held r (kv P2)"
      by (rule preempt_ok [OF r(2) x2]) (rule that)
    have rows: "rows_held r pc = rows_held r (kv P2)" if "r \<noteq> request_id (objs P2 x)" for r using p(3) [OF that] by simp
    let ?P3 = "preempted x s pc P2"
    have ev: "evicts (set granted) P2 ?P3" by (rule preempted_evicts(1) [OF r(2) x2 g(2) rows])
    have d3: "decode_frame P ?P3" by (rule decode_frame_trans [OF d2 evicts_decode_frame [OF ev]])
    have g3: "set granted \<subseteq> set (running ?P3)" using evictsD(7) [OF ev] g2 by blast
    have nx: "x \<notin> set (running ?P3)" using queues_okD(1) [OF planner_invD(3) [OF r(2)]] by (simp add: preempted_def)
    have eq: "grow_one x (P, granted, pre) = Inr (?P3, granted, pre @ (vs @ [x]))"
      using step False p(1) by simp
    show ?thesis
      by (rule exI [of _ ?P3], rule exI [of _ granted], rule exI [of _ "vs @ [x]"])
        (use eq p(2) d3 g3 nx in simp)
  qed
qed

lemma grow_fold_ok:
  assumes "planner_inv D P" "\<forall>x \<in> set xs. map_of (live P) (request_id (objs P x)) = Some x"
    "set granted \<subseteq> set (running P)" "distinct xs" "set xs \<inter> set granted = {}"
  shows "\<exists>P' gr vs. rfold grow_one xs (P, granted, pre) = Inr (P', gr, pre @ vs) \<and> planner_inv D P' \<and>
    decode_frame P P' \<and> set granted \<subseteq> set (running P') \<and> (vs = [] \<longrightarrow> running P' = running P) \<and>
    (\<forall>x \<in> set xs. x \<in> set (running P') \<longrightarrow> decode_covered P' x)"
  using assms
proof (induction xs arbitrary: P granted pre)
  case Nil
  then show ?case by (intro exI [of _ P] exI [of _ granted] exI [of _ "[]"]) simp
next
  case (Cons x xs)
  obtain P1 gr vs where s: "grow_one x (P, granted, pre) = Inr (P1, gr, pre @ vs)" "planner_inv D P1"
    "decode_frame P P1" "set granted \<subseteq> set (running P1)" "vs = [] \<longrightarrow> running P1 = running P"
    "gr = granted \<and> x \<notin> set (running P1) \<or> gr = granted @ [x] \<and> x \<in> set (running P1) \<and> decode_covered P1 x"
    using grow_one_ok [OF Cons.prems(1) _ Cons.prems(3), of x pre] Cons.prems(2,5) by auto
  have fr: "live P1 = live P" "request_id (objs P1 y) = request_id (objs P y)" for y
    using decode_frameD(1) [OF s(3)] by (simp_all add: same_frame_def)
  have g1: "set gr \<subseteq> set (running P1)" using s(4,6) by auto
  have "\<exists>P' gr' vs'. rfold grow_one xs (P1, gr, pre @ vs) = Inr (P', gr', (pre @ vs) @ vs') \<and> planner_inv D P' \<and>
      decode_frame P1 P' \<and> set gr \<subseteq> set (running P') \<and> (vs' = [] \<longrightarrow> running P' = running P1) \<and>
      (\<forall>x \<in> set xs. x \<in> set (running P') \<longrightarrow> decode_covered P' x)"
    by (rule Cons.IH [OF s(2) _ g1]) (use Cons.prems(2,4,5) fr s(6) in auto)
  then obtain P2 gr' vs' where t: "rfold grow_one xs (P1, gr, pre @ vs) = Inr (P2, gr', (pre @ vs) @ vs')"
    "planner_inv D P2" "decode_frame P1 P2" "set gr \<subseteq> set (running P2)" "vs' = [] \<longrightarrow> running P2 = running P1"
    "\<forall>x \<in> set xs. x \<in> set (running P2) \<longrightarrow> decode_covered P2 x" by blast
  have "decode_covered P2 x" if "x \<in> set (running P2)"
    using that s(6) decode_frameD(2) [OF t(3)] decode_covered_frame [OF t(3) that] by blast
  moreover have "set granted \<subseteq> set (running P2)" using s(6) t(4) by auto
  ultimately show ?case
    using s(1,5) t decode_frame_trans [OF s(3) t(3)]
    by (intro exI [of _ P2] exI [of _ gr'] exI [of _ "vs @ vs'"]) simp
qed

section \<open>The whole step\<close>

text \<open>What a step plan promises about the planner state it is returned with.\<close>

definition plan_ok :: "planner \<Rightarrow> step_plan \<Rightarrow> bool" where
  "plan_ok P s \<longleftrightarrow>
     distinct (sp_prefill s @ sp_decode s) \<and> set (sp_prefill s @ sp_decode s) \<subseteq> set (running P) \<and>
     list_all2 (\<lambda>x n. n \<le> num_computed_tokens (objs P x)) (sp_prefill s) (sp_chunk_lens s) \<and>
     (\<forall>n \<in> set (sp_chunk_lens s). 0 < n \<and> n \<le> max_num_batched_tokens (pconfig P)) \<and>
     (\<forall>x \<in> set (sp_prefill s). num_computed_tokens (objs P x) \<le> prompt_len (objs P x) \<and>
        num_computed_tokens (objs P x) \<le> length (rows_held (request_id (objs P x)) (kv P)) * BLOCK_SIZE) \<and>
     (\<forall>x \<in> set (sp_decode s). prefill_done (objs P x) \<and> decode_covered P x)"

lemma drain_no_offload: "no_offload P \<Longrightarrow> drain_offload_events E P = Inr P"
  by (simp add: drain_offload_events_def no_offload_def)

lemma promote_no_offload: "no_offload P \<Longrightarrow> promote_ready E P = Inr P"
  by (simp add: promote_ready_def no_offload_def promote_loop.simps)

lemma decode_set_facts:
  assumes "planner_inv D P"
  shows "distinct (decode_set P pre)" "set (decode_set P pre) \<subseteq> set (running P)"
    "set (decode_set P pre) \<inter> set pre = {}" "x \<in> set (decode_set P pre) \<Longrightarrow> prefill_done (objs P x)"
  using queues_okD(1) [OF planner_invD(3) [OF assms]] by (auto simp: decode_set_def Let_def)

lemma grow_decode_ok:
  assumes inv: "planner_inv D P" and wk: "work_ok P w"
  shows "\<exists>P' w' decode. grow_decode (decode_set P (wk_prefill w)) (P, w) = Inr (P', w', decode) \<and>
    planner_inv D P' \<and> same_frame P P' \<and> step_frame P (wk_prefill w) P' (wk_prefill w') \<and>
    plan_ok P' \<lparr>sp_prefill = wk_prefill w', sp_decode = decode, sp_chunk_lens = wk_lens w', sp_preempted = wk_preempted w'\<rparr>"
proof -
  let ?ds = "decode_set P (wk_prefill w)"
  note ds = decode_set_facts [OF inv, where pre = "wk_prefill w"] and qo = planner_invD(3) [OF inv]
  have lv: "\<forall>x \<in> set ?ds. map_of (live P) (request_id (objs P x)) = Some x"
    using queues_okD(5) [OF qo] ds(2) by blast
  have sub: "set (wk_prefill w) \<subseteq> set (running P)" using wk by (simp add: work_ok_def)
  obtain P1 gr vs where g: "rfold grow_one ?ds (P, wk_prefill w, wk_preempted w) = Inr (P1, gr, wk_preempted w @ vs)"
    "planner_inv D P1" "decode_frame P P1" "set (wk_prefill w) \<subseteq> set (running P1)"
    "vs = [] \<longrightarrow> running P1 = running P" "\<forall>x \<in> set ?ds. x \<in> set (running P1) \<longrightarrow> decode_covered P1 x"
    using grow_fold_ok [OF inv lv sub ds(1,3), of "wk_preempted w"] by blast
  define pre where "pre = wk_preempted w @ vs"
  define decode where "decode = (if pre \<noteq> [] then filter (\<lambda>x. status (objs P1 x) = RUNNING) ?ds else ?ds)"
  have eq: "grow_decode ?ds (P, w) = Inr (P1, w\<lparr>wk_preempted := pre\<rparr>, decode)"
    unfolding grow_decode_def prod.case g(1) by (simp add: pre_def decode_def)
  note fr = decode_frameD [OF g(3)]
  have lv1: "map_of (live P1) (request_id (objs P1 x)) = Some x" if "x \<in> set ?ds" for x
    using lv fr(1) that by (simp add: same_frame_def)
  have dec: "x \<in> set ?ds \<and> x \<in> set (running P1)" if x: "x \<in> set decode" for x
  proof (cases "pre = []")
    case True
    then show ?thesis using x g(5) ds(2) by (auto simp: decode_def pre_def)
  next
    case False
    then show ?thesis using x running_iff [OF g(2) lv1] by (auto simp: decode_def)
  qed
  have dist: "distinct decode" using ds(1) by (simp add: decode_def)
  have done_: "prefill_done (objs P1 x)" if "x \<in> set ?ds" "x \<in> set (running P1)" for x
    using ds(4) [OF that(1)] fr(4) [OF that(2)] core_eq(7) [OF fr(3) [OF that(2)]] by (simp add: prefill_done_def)
  have "plan_ok P1 \<lparr>sp_prefill = wk_prefill w, sp_decode = decode, sp_chunk_lens = wk_lens w, sp_preempted = pre\<rparr>"
    unfolding plan_ok_def step_plan.simps
  proof (intro conjI ballI)
    show "distinct (wk_prefill w @ decode)" using wk dist dec ds(3) by (auto simp: work_ok_def)
    show "set (wk_prefill w @ decode) \<subseteq> set (running P1)" using g(4) dec by auto
    show "list_all2 (\<lambda>x n. n \<le> num_computed_tokens (objs P1 x)) (wk_prefill w) (wk_lens w)"
      using list_all2_progress [of P "wk_prefill w" "wk_lens w" P1] wk g(4) fr(4) unfolding work_ok_def by blast
    have "pconfig P1 = pconfig P" using fr(1) by (simp add: same_frame_def)
    then show "0 < n" "n \<le> max_num_batched_tokens (pconfig P1)" if "n \<in> set (wk_lens w)" for n
      using wk that by (simp_all add: work_ok_def)
    fix x
    show "num_computed_tokens (objs P1 x) \<le> prompt_len (objs P1 x)"
      "num_computed_tokens (objs P1 x) \<le> length (rows_held (request_id (objs P1 x)) (kv P1)) * BLOCK_SIZE"
      if "x \<in> set (wk_prefill w)"
      using queues_okD(6) [OF planner_invD(3) [OF g(2)]] kv_okD(4) [OF planner_invD(4) [OF g(2)]] g(4) that by blast+
    show "prefill_done (objs P1 x)" "decode_covered P1 x" if "x \<in> set decode"
      using done_ dec [OF that] g(6) by blast+
  qed
  moreover have "step_frame P (wk_prefill w) P1 (wk_prefill w)" using fr(2-5) by (auto simp: step_frame_def)
  ultimately show ?thesis using eq g(2) fr(1) by auto
qed

lemma plan_total:
  assumes inv: "planner_inv (digest E) P" and D: "digest8 (digest E)"
  shows "\<exists>P' s. plan E P = Inr (P', s) \<and> planner_inv (digest E) P' \<and> plan_ok P' s \<and> same_frame P P' \<and>
    step_frame P [] P' (sp_prefill s)"
proof -
  note no = planner_invD(1) [OF inv]
  obtain Q where c: "commit_pending_blocks E P = Inr (Q\<lparr>pending_blocks := []\<rparr>)"
    "planner_inv (digest E) (Q\<lparr>pending_blocks := []\<rparr>)" "kv_only P Q"
    using commit_pending_blocks_ok [OF inv D] by blast
  let ?P3 = "Q\<lparr>pending_blocks := []\<rparr>" and ?w = "\<lparr>wk_prefill = [], wk_lens = [], wk_preempted = []\<rparr>"
  have f3: "same_frame P ?P3" using kv_onlyD [OF c(3)] by (simp add: same_frame_def)
  have s3: "step_frame P [] ?P3 []" using kv_onlyD [OF c(3)] by (simp add: step_frame_def)
  obtain P4 w4 where r: "resume_all (?P3, ?w) = Inr (P4, w4)" "planner_inv (digest E) P4" "work_ok P4 w4"
    "same_frame ?P3 P4" "step_frame ?P3 [] P4 (wk_prefill w4)"
    using resume_all_ok [OF c(2), of ?w] by (auto simp: work_ok_def)
  obtain P5 w5 where a: "admit E (P4, w4) = Inr (P5, w5)" "planner_inv (digest E) P5" "work_ok P5 w5" "same_frame P4 P5"
    "step_frame P4 (wk_prefill w4) P5 (wk_prefill w5)"
    using admit_ok [OF r(2) D r(3)] by blast
  obtain P6 w6 decode where g: "grow_decode (decode_set P5 (wk_prefill w5)) (P5, w5) = Inr (P6, w6, decode)"
    "planner_inv (digest E) P6" "same_frame P5 P6" "step_frame P5 (wk_prefill w5) P6 (wk_prefill w6)"
    "plan_ok P6 \<lparr>sp_prefill = wk_prefill w6, sp_decode = decode, sp_chunk_lens = wk_lens w6, sp_preempted = wk_preempted w6\<rparr>"
    using grow_decode_ok [OF a(2,3)] by blast
  have "plan E P = Inr (P6, \<lparr>sp_prefill = wk_prefill w6, sp_decode = decode, sp_chunk_lens = wk_lens w6,
      sp_preempted = wk_preempted w6\<rparr>)"
    using c(1) r(1) a(1) g(1) by (simp add: plan_def drain_no_offload [OF no] promote_no_offload [OF no])
  moreover have "same_frame P P6"
    using same_frame_trans [OF f3 same_frame_trans [OF r(4) same_frame_trans [OF a(4) g(3)]]] .
  moreover have "step_frame P [] P6 (wk_prefill w6)"
    by (rule step_frame_trans [OF s3 step_frame_trans [OF r(5) step_frame_trans [OF a(5) g(4)]]])
  ultimately show ?thesis using g(2,5) by auto
qed

end
