(* ===== verification/Planner_Lifecycle.thy ===== *)
theory Planner_Lifecycle
  imports Planner_Steps
begin

text \<open>
  The life of the planner: construction, submission, retirement and abort, the tokens the engine appends,
  and the transition system they form together with \<open>plan\<close>. Every reachable state satisfies
  \<open>planner_inv\<close>, so every operation returns normally in every reachable state.
\<close>

section \<open>Construction\<close>

lemma config_check_blocks: "config_check c = Inr c' \<Longrightarrow> prefix_cache_blocks c' = Some n \<Longrightarrow> 2 \<le> n"
  by (auto simp: config_check_def Let_def split: if_splits option.splits)

lemma planner_init_ok:
  assumes c: "config_check c = Inr c" and s: "1 \<le> slots" and n: "2 \<le> pool_size c slots num"
  obtains P where "planner_init store c slots num None = Inr P" "planner_inv D P" "live P = []" "running P = []"
    "waiting P = []" "num_slots P = slots" "pconfig P = c" "objs P = store"
    "num_blocks (pool (coord (kv P))) = pool_size c slots num"
proof -
  have "2 \<le> int (pool_size c slots num)" "1 \<le> int BLOCK_SIZE" using n by (simp_all add: BLOCK_SIZE_def)
  then obtain pc where pc: "cache_init (int (pool_size c slots num)) (int BLOCK_SIZE) None 0 (enable_prefix_cache c) = Inr pc"
    "cache_inv pc" "requests (coord pc) = []" "sequences pc = []" "pc_block_size pc = nat (int BLOCK_SIZE)"
    "num_blocks (pool (coord pc)) = nat (int (pool_size c slots num))"
    using cache_init_ok [of "int (pool_size c slots num)" "int BLOCK_SIZE" 0 "enable_prefix_cache c"] by blast
  define P where "P = \<lparr>pconfig = c, num_slots = slots,
     pmax_num_seqs = (if enable_preemption c then max_num_seqs c else min (max_num_seqs c) slots),
     objs = store, waiting = [], running = [], live = [], free_slots = rev [0..<slots], kv = pc,
     pending_blocks = [], num_preemptions = 0, deferred_steps = 0, offloading = None,
     pending_promotes = [], ready_promotes = [], dying_promotes = [], promotion_by_blocks = [], ticks = 0\<rparr>"
  have eq: "planner_init store c slots num None = Inr P"
    using s pc(1) by (simp add: planner_init_def P_def)
  have "planner_inv D P"
    using c pc unfolding planner_inv_def P_def no_offload_def slots_ok_def queues_ok_def kv_ok_def chain_of_live_def
    by (simp add: rows_held_eq(2) BLOCK_SIZE_def)
  then show ?thesis using eq pc(6) by (intro that [OF eq]) (simp_all add: P_def)
qed

lemma planner_init_raises:
  assumes "slots < 1 \<or> pool_size c slots num < 2"
  shows "planner_init store c slots num None = Inl ValueError"
  using assms by (auto simp: planner_init_def cache_init_def homogeneous_ok pool_init_def BLOCK_SIZE_def)

section \<open>Submission\<close>

text \<open>An object that is not live may be replaced without any effect on the planner.\<close>

lemma live_object:
  assumes "planner_inv D P" "map_of (live P) r = Some x"
  shows "request_id (objs P x) = r"
  by (rule queues_okD(8) [OF planner_invD(3) [OF assms(1)] assms(2)])

lemma planner_inv_store:
  assumes inv: "planner_inv D P" and same: "\<And>r y. map_of (live P) r = Some y \<Longrightarrow> ob y = objs P y"
  shows "planner_inv D (P\<lparr>objs := ob\<rparr>)"
proof -
  note qo = planner_invD(3) [OF inv] and ko = planner_invD(4) [OF inv] and so = planner_invD(2) [OF inv]
  have run: "ob y = objs P y" if "y \<in> set (running P)" for y using same queues_okD(5) [OF qo that] by blast
  have wait: "ob y = objs P y" if "map_of (waiting P) r = Some y" for r y using same queues_okD(7) [OF qo that] by blast
  have "image_mset (\<lambda>y. the (slot (ob y))) (mset (running P)) = image_mset (\<lambda>y. the (slot (objs P y))) (mset (running P))"
    using run by (intro image_mset_cong) simp
  then have "slots_ok (P\<lparr>objs := ob\<rparr>)" using so run by (simp add: slots_ok_def)
  moreover have "queues_ok (P\<lparr>objs := ob\<rparr>)"
    unfolding queues_ok_def
  proof (intro conjI allI ballI impI)
    show "distinct (running (P\<lparr>objs := ob\<rparr>))" "dict_ok (waiting (P\<lparr>objs := ob\<rparr>))" "dict_ok (live (P\<lparr>objs := ob\<rparr>))"
      "length (running (P\<lparr>objs := ob\<rparr>)) \<le> pmax_num_seqs (P\<lparr>objs := ob\<rparr>)"
      using queues_okD(1,2,3,11) [OF qo] by simp_all
    show "fst xu \<in> set (running (P\<lparr>objs := ob\<rparr>))" if "xu \<in> set (pending_blocks (P\<lparr>objs := ob\<rparr>))" for xu
      using that queues_okD(12) [OF qo, of "fst xu" "snd xu"] by simp
  qed (use run wait same queues_okD(4-6) [OF qo] queues_okD(7-10) [OF qo] in simp_all)
  moreover have "kv_ok D (P\<lparr>objs := ob\<rparr>)"
    unfolding kv_ok_def
  proof (intro conjI allI ballI impI)
    show "\<exists>x \<in> set (running (P\<lparr>objs := ob\<rparr>)). request_id (objs (P\<lparr>objs := ob\<rparr>) x) = r"
      if "rows_held r (kv (P\<lparr>objs := ob\<rparr>)) \<noteq> []" for r
      using that kv_okD(3) [OF ko, of r] run by auto
    show "chain_of_live D (P\<lparr>objs := ob\<rparr>) r (kv (P\<lparr>objs := ob\<rparr>))" for r
      using kv_okD(6) [OF ko, of r] same [of r] by (auto simp: chain_of_live_def)
  qed (use kv_okD(1,2,4,5) [OF ko] run in simp_all)
  ultimately show ?thesis using inv by (simp add: planner_inv_def no_offload_def)
qed

definition refuses :: "planner \<Rightarrow> request \<Rightarrow> bool" where
  "refuses P r \<longleftrightarrow>
     map_of (live P) (request_id r) \<noteq> None \<or> status r \<noteq> WAITING \<or> slot r \<noteq> None \<or>
     prompt_len r = 0 \<or> max_seq_len (pconfig P) \<le> prompt_len r"

text \<open>The generation cap: what the caller asked for, or all the room there is, never more than the room.\<close>

definition generation_cap :: "planner \<Rightarrow> request \<Rightarrow> nat" where
  "generation_cap P r =
     (let room = max_seq_len (pconfig P) - prompt_len r
      in case max_gen_len r of None \<Rightarrow> room | Some n \<Rightarrow> if n = 0 then room else min n room)"

lemma add_request_eq:
  "add_request x P =
     (if refuses P (objs P x) then Inl ValueError
      else Inr ((upd_obj x (\<lambda>r. r\<lparr>max_new_tokens := int (generation_cap P (objs P x))\<rparr>) P)
             \<lparr>live := AList.update (request_id (objs P x)) x (live P),
              waiting := AList.update (request_id (objs P x)) x (waiting P)\<rparr>))"
  by (auto simp: add_request_def refuses_def generation_cap_def Let_def not_le)

lemma add_request_ok:
  assumes inv: "planner_inv D P" and ok: "\<not> refuses P (objs P x)"
    and new: "output_token_ids (objs P x) = []" "tokens_ok (prompt_token_ids (objs P x))"
  shows "\<exists>P'. add_request x P = Inr P' \<and> planner_inv D P' \<and> map_of (live P') (request_id (objs P x)) = Some x"
proof -
  note qo = planner_invD(3) [OF inv] and ko = planner_invD(4) [OF inv]
  define rid where "rid = request_id (objs P x)"
  define ob where "ob = (objs P)(x := (objs P x)\<lparr>max_new_tokens := int (generation_cap P (objs P x))\<rparr>)"
  have nl: "map_of (live P) rid = None" using ok by (simp add: refuses_def rid_def)
  have ne: "y \<noteq> x" if "map_of (live P) r = Some y" for r y
    using that nl live_object [OF inv that] rid_def by auto
  have i1: "planner_inv D (P\<lparr>objs := ob\<rparr>)"
    by (rule planner_inv_store [OF inv]) (use ne in \<open>auto simp: ob_def\<close>)
  have nw: "map_of (waiting P) rid = None"
    using queues_okD(7) [OF qo, of rid] nl by (cases "map_of (waiting P) rid") auto
  have nr: "y \<in> set (running P) \<Longrightarrow> request_id (objs P y) \<noteq> rid" for y using queues_okD(5) [OF qo, of y] nl by auto
  have xr: "x \<notin> set (running P)" using nr rid_def by blast
  have oth: "y \<noteq> x \<Longrightarrow> ob y = objs P y" for y by (simp add: ob_def)
  have sq: "map_of (sequences (kv P)) rid = None"
    using kv_okD(6) [OF ko, of rid] nl by (auto simp: chain_of_live_def)
  have cap: "generation_cap P (objs P x) \<le> max_seq_len (pconfig P) - prompt_len (objs P x)"
    by (auto simp: generation_cap_def Let_def split: option.splits)
  have "prompt_len (objs P x) + generation_cap P (objs P x) \<le> max_seq_len (pconfig P)"
    using cap ok unfolding refuses_def by linarith
  then have "int (prompt_len (objs P x)) + int (generation_cap P (objs P x)) \<le> int (max_seq_len (pconfig P))"
    by linarith
  then have wf: "wf_req (pconfig P) (ob x)"
    using new ok unfolding refuses_def wf_req_def ob_def prompt_len_def by simp
  let ?P = "P\<lparr>objs := ob, live := AList.update rid x (live P), waiting := AList.update rid x (waiting P)\<rparr>"
  have q1: "queues_ok (P\<lparr>objs := ob\<rparr>)" and k1: "kv_ok D (P\<lparr>objs := ob\<rparr>)" using planner_invD(3,4) [OF i1] .
  have "queues_ok ?P"
    unfolding queues_ok_def
  proof (intro conjI allI ballI impI)
    show "distinct (running ?P)" "dict_ok (waiting ?P)" "dict_ok (live ?P)" "length (running ?P) \<le> pmax_num_seqs ?P"
      using queues_okD(1,2,3,11) [OF qo] by (simp_all add: dict_simps)
    show "fst xu \<in> set (running ?P)" if "xu \<in> set (pending_blocks ?P)" for xu
      using that queues_okD(12) [OF qo, of "fst xu" "snd xu"] by simp
    fix y assume y: "y \<in> set (running ?P)"
    then have "y \<noteq> x" using xr by auto
    then show "status (objs ?P y) = RUNNING" "map_of (live ?P) (request_id (objs ?P y)) = Some y"
      "num_computed_tokens (objs ?P y) \<le> prompt_len (objs ?P y)"
      using y queues_okD(4,5,6) [OF qo, of y] nr [of y] oth by (simp_all add: dict_simps)
  next
    fix r y assume m: "map_of (waiting ?P) r = Some y"
    show "status (objs ?P y) = WAITING" "slot (objs ?P y) = None" "output_token_ids (objs ?P y) = []"
      "map_of (live ?P) r = Some y"
      using m queues_okD(7) [OF q1, of r y] ok new(1)
      by (auto simp: dict_simps refuses_def ob_def split: if_splits)
  next
    fix r y assume m: "map_of (live ?P) r = Some y"
    show "request_id (objs ?P y) = r" "wf_req (pconfig ?P) (objs ?P y)"
      "y \<in> set (running ?P) \<or> map_of (waiting ?P) r = Some y"
      using m queues_okD(8,9,10) [OF q1, of r y] wf
      by (auto simp: dict_simps rid_def ob_def split: if_splits)
  qed
  moreover have "slots_ok ?P" using planner_invD(2) [OF i1] by (simp add: slots_ok_def)
  moreover have "kv_ok D ?P"
    unfolding kv_ok_def
  proof (intro conjI allI ballI impI)
    show "chain_of_live D ?P r (kv ?P)" for r
      using kv_okD(6) [OF k1, of r] sq by (cases "r = rid") (simp_all add: chain_of_live_def dict_simps)
    show "\<exists>y \<in> set (running ?P). request_id (objs ?P y) = r" if "rows_held r (kv ?P) \<noteq> []" for r
      using that kv_okD(3) [OF k1, of r] by simp
  qed (use kv_okD(1,2,4,5) [OF k1] in simp_all)
  ultimately have "planner_inv D ?P" using inv by (simp add: planner_inv_def no_offload_def)
  moreover have "add_request x P = Inr ?P" using ok by (simp add: add_request_eq ob_def rid_def)
  ultimately show ?thesis by (auto simp: dict_simps rid_def)
qed

section \<open>Retirement\<close>

text \<open>
  Taking a live request out of the planner: out of its queue, its slot and blocks given back, its id free
  again. What becomes of the request object itself does not matter to the planner.
\<close>

lemma retire_ok:
  assumes inv: "planner_inv D P" and lv: "map_of (live P) rid = Some x"
    and ob: "\<And>y. y \<noteq> x \<Longrightarrow> objs P' y = objs P y"
    and q: "running P' = remove1 x (running P)" "waiting P' = AList.delete rid (waiting P)"
      "live P' = AList.delete rid (live P)" "pending_blocks P' = filter (\<lambda>xu. fst xu \<noteq> x) (pending_blocks P)"
    and sl: "free_slots P' = free_slots P @ (case slot (objs P x) of None \<Rightarrow> [] | Some s \<Rightarrow> [s])"
    and geo: "pconfig P' = pconfig P" "num_slots P' = num_slots P" "pmax_num_seqs P' = pmax_num_seqs P" "no_offload P'"
    and kv: "kv_frame rid (kv P) (kv P')" "rows_held rid (kv P') = []" "map_of (sequences (kv P')) rid = None"
  shows "planner_inv D P'"
proof -
  note qo = planner_invD(3) [OF inv] and ko = planner_invD(4) [OF inv] and so = planner_invD(2) [OF inv]
  have run: "y \<in> set (running P') \<longleftrightarrow> y \<in> set (running P) \<and> y \<noteq> x" for y
    using queues_okD(1) [OF qo] q(1) by auto
  have rid: "request_id (objs P x) = rid" by (rule live_object [OF inv lv])
  have other: "y \<noteq> x \<and> r \<noteq> rid" if "map_of (live P') r = Some y" for r y
    using that live_object [OF inv, of r y] rid unfolding q(3) by (auto simp: dict_simps split: if_splits)
  have rne: "request_id (objs P y) \<noteq> rid" if "y \<in> set (running P)" "y \<noteq> x" for y
    using queues_okD(5) [OF qo that(1)] lv that(2) by auto
  have "slots_ok P'"
  proof -
    have "image_mset (\<lambda>y. the (slot (objs P' y))) (mset (running P')) =
        image_mset (\<lambda>y. the (slot (objs P y))) (mset (running P'))"
      using run ob by (intro image_mset_cong) simp
    moreover have "image_mset (\<lambda>y. the (slot (objs P y))) (mset (running P')) + mset (free_slots P') =
        image_mset (\<lambda>y. the (slot (objs P y))) (mset (running P)) + mset (free_slots P)"
    proof (cases "x \<in> set (running P)")
      case True
      then obtain s where "slot (objs P x) = Some s" using so by (auto simp: slots_ok_def)
      then show ?thesis
        using mset_map_remove1 [OF True, of "\<lambda>y. the (slot (objs P y))"] unfolding sl q(1) by simp
    next
      case False
      then have "map_of (waiting P) rid = Some x" using queues_okD(10) [OF qo lv] by blast
      then have "slot (objs P x) = None" using queues_okD(7) [OF qo, of rid x] by blast
      then show ?thesis unfolding sl q(1) using False by (simp add: remove1_idem)
    qed
    ultimately show ?thesis using so run ob geo by (simp add: slots_ok_def)
  qed
  moreover have "queues_ok P'"
    unfolding queues_ok_def
  proof (intro conjI allI ballI impI)
    show "distinct (running P')" "dict_ok (waiting P')" "dict_ok (live P')"
      using queues_okD(1,2,3) [OF qo] q by (simp_all add: dict_simps)
    show "length (running P') \<le> pmax_num_seqs P'"
      using queues_okD(11) [OF qo] q(1) geo(3) by (auto simp: length_remove1)
    show "fst xu \<in> set (running P')" if "xu \<in> set (pending_blocks P')" for xu
      using that queues_okD(12) [OF qo, of "fst xu" "snd xu"] run q(4) by simp
    fix y assume "y \<in> set (running P')"
    then have y: "y \<in> set (running P)" "y \<noteq> x" using run by auto
    then show "status (objs P' y) = RUNNING" "map_of (live P') (request_id (objs P' y)) = Some y"
      "num_computed_tokens (objs P' y) \<le> prompt_len (objs P' y)"
      using queues_okD(4,5,6) [OF qo y(1)] rne [OF y] ob [OF y(2)] q(3) by (simp_all add: dict_simps)
  next
    fix r y assume "map_of (waiting P') r = Some y"
    then have m: "map_of (waiting P) r = Some y" "r \<noteq> rid" by (auto simp: q dict_simps split: if_splits)
    note q7 = queues_okD(7) [OF qo m(1)]
    have l: "map_of (live P') r = Some y" using q7 m(2) by (simp add: q dict_simps)
    then show "status (objs P' y) = WAITING" "slot (objs P' y) = None" "output_token_ids (objs P' y) = []"
      "map_of (live P') r = Some y"
      using q7 ob other [OF l] by simp_all
  next
    fix r y assume l: "map_of (live P') r = Some y"
    note o = other [OF l]
    have l0: "map_of (live P) r = Some y" using l o by (simp add: q dict_simps)
    show "request_id (objs P' y) = r" "wf_req (pconfig P') (objs P' y)"
      using queues_okD(8,9) [OF qo l0] o ob geo by simp_all
    show "y \<in> set (running P') \<or> map_of (waiting P') r = Some y"
      using queues_okD(10) [OF qo l0] o run by (auto simp: q dict_simps)
  qed
  moreover have "kv_ok D P'"
    unfolding kv_ok_def
  proof (intro conjI allI ballI impI)
    have g: "pc_block_size (kv P') = pc_block_size (kv P)" "hash_seed (kv P') = hash_seed (kv P)"
      and fr: "r \<noteq> rid \<Longrightarrow> rows_held r (kv P') = rows_held r (kv P) \<and> same_chain r (kv P) (kv P')" for r
      using kv(1) by (auto simp: kv_frame_def)
    show "cache_inv (kv P')" "pc_block_size (kv P') = BLOCK_SIZE"
      using kv(1) kv_okD(2) [OF ko] by (simp_all add: kv_frame_def)
    fix r
    show "\<exists>y \<in> set (running P'). request_id (objs P' y) = r" if ne: "rows_held r (kv P') \<noteq> []"
    proof -
      have "r \<noteq> rid" using ne kv(2) by auto
      then obtain y where y: "y \<in> set (running P)" "request_id (objs P y) = r"
        using ne fr kv_okD(3) [OF ko, of r] by auto
      have "y \<noteq> x" using y(2) \<open>r \<noteq> rid\<close> rid by auto
      then show ?thesis using y run ob [of y] by (intro bexI [of _ y]) simp_all
    qed
    show "chain_of_live D P' r (kv P')"
    proof (cases "r = rid")
      case True
      then show ?thesis using kv(3) by (simp add: chain_of_live_def)
    next
      case False
      have "chain_of_live D P r (kv P')"
        using chain_of_live_cong [OF _ g] fr [OF False] kv_okD(6) [OF ko] by blast
      moreover have "objs P' y = objs P y" if "map_of (live P) r = Some y" for y
        using that False live_object [OF inv that] rid ob by (cases "y = x") auto
      ultimately show ?thesis using False unfolding chain_of_live_def q(3) by (auto simp: dict_simps)
    qed
  next
    fix y assume "y \<in> set (running P')"
    then have y: "y \<in> set (running P)" "y \<noteq> x" using run by auto
    then show "num_computed_tokens (objs P' y) \<le> length (rows_held (request_id (objs P' y)) (kv P')) * BLOCK_SIZE"
      "map_of (sequences (kv P')) (request_id (objs P' y)) \<noteq> None"
      using kv_okD(4,5) [OF ko y(1)] ob rne [OF y] kv(1) by (auto simp: kv_frame_def same_chain_def)
  qed
  ultimately show ?thesis using inv geo by (simp add: planner_inv_def)
qed

text \<open>
  Settling a retiring request's registrations touches the cache only, and reads nothing of the planner but
  the request's tokens; so it runs on the half-retired planner as it would have run before.
\<close>

definition commit_kv :: "(bytes \<Rightarrow> bytes) \<Rightarrow> rid \<Rightarrow> int list \<Rightarrow> nat \<Rightarrow> prefix_cache \<Rightarrow> prefix_cache res" where
  "commit_kv D rid ts up pc =
     rbind (if length (block_hashes rid pc) < up div BLOCK_SIZE
            then rbind (observe D rid ts pc) (\<lambda>(pc, _). Inr pc) else Inr pc) (\<lambda>pc1.
     rbind (commit rid up pc1) (\<lambda>(pc2, _). Inr pc2))"

lemma commit_upto_kv:
  assumes "offloading P = None"
  shows "commit_upto E x up P =
    rbind (commit_kv (digest E) (request_id (objs P x)) (tokens (objs P x)) up (kv P)) (\<lambda>pc. Inr (P\<lparr>kv := pc\<rparr>))"
  by (simp add: commit_upto_def commit_kv_def Let_def tokens_def assms rbind_assoc case_prod_unfold)

lemma commit_upto_transfer:
  assumes c: "commit_upto E x up P = Inr (P\<lparr>kv := pc\<rparr>)" and "offloading P = None" "offloading Q = None" "kv Q = kv P"
    "request_id (objs Q x) = request_id (objs P x)" "tokens (objs Q x) = tokens (objs P x)"
  shows "commit_upto E x up Q = Inr (Q\<lparr>kv := pc\<rparr>)"
proof -
  obtain pc1 where k: "commit_kv (digest E) (request_id (objs P x)) (tokens (objs P x)) up (kv P) = Inr pc1"
    "P\<lparr>kv := pc1\<rparr> = P\<lparr>kv := pc\<rparr>"
    using c unfolding commit_upto_kv [OF assms(2)] by auto
  have "pc1 = pc" using arg_cong [OF k(2), of kv] by simp
  then show ?thesis unfolding commit_upto_kv [OF assms(3)] using k(1) assms(4-6) by simp
qed

lemma settle_fold_transfer:
  assumes "offloading Q = None" "request_id (objs Q x) = request_id (objs P x)" "tokens (objs Q x) = tokens (objs P x)"
  shows "planner_inv (digest E) P \<Longrightarrow> digest8 (digest E) \<Longrightarrow> x \<in> set (running P) \<Longrightarrow> kv Q = kv P \<Longrightarrow>
    \<exists>pc. rfold (\<lambda>xu P. if fst xu = x then commit_upto E x (snd xu) P else Inr P) xs Q = Inr (Q\<lparr>kv := pc\<rparr>) \<and>
      planner_inv (digest E) (P\<lparr>kv := pc\<rparr>) \<and> (\<forall>r. rows_held r pc = rows_held r (kv P))"
  using assms
proof (induction xs arbitrary: P Q)
  case Nil
  have "Q\<lparr>kv := kv P\<rparr> = Q" using Nil(4) by simp
  then show ?case using Nil(1) by (intro exI [of _ "kv P"]) simp
next
  case (Cons xu xs)
  show ?case
  proof (cases "fst xu = x")
    case True
    obtain pc1 where c: "commit_upto E x (snd xu) P = Inr (P\<lparr>kv := pc1\<rparr>)" "planner_inv (digest E) (P\<lparr>kv := pc1\<rparr>)"
      "\<forall>r. rows_held r pc1 = rows_held r (kv P)"
      using commit_upto_ok [OF Cons.prems(1-3)] by blast
    have q: "commit_upto E x (snd xu) Q = Inr (Q\<lparr>kv := pc1\<rparr>)"
      by (rule commit_upto_transfer [OF c(1) planner_invD(6) [OF Cons.prems(1)] Cons.prems(5,4,6,7)])
    have "\<exists>pc. rfold (\<lambda>xu P. if fst xu = x then commit_upto E x (snd xu) P else Inr P) xs (Q\<lparr>kv := pc1\<rparr>) =
        Inr (Q\<lparr>kv := pc1\<rparr>\<lparr>kv := pc\<rparr>) \<and> planner_inv (digest E) (P\<lparr>kv := pc1\<rparr>\<lparr>kv := pc\<rparr>) \<and>
        (\<forall>r. rows_held r pc = rows_held r (kv (P\<lparr>kv := pc1\<rparr>)))"
      by (rule Cons.IH [OF c(2)]) (use Cons.prems in simp_all)
    then show ?thesis using q True c(3) by simp
  next
    case False
    then show ?thesis using Cons.IH [OF Cons.prems] by simp
  qed
qed

lemma retire_no_offload:
  assumes "no_offload P"
  shows "retire_promotion x P = (P, False)"
proof -
  have "P\<lparr>ready_promotes := []\<rparr> = P" using assms by (simp add: no_offload_def)
  then show ?thesis using assms by (simp add: retire_promotion_def no_offload_def)
qed

lemma waiting_not_running:
  assumes "planner_inv D P" "x \<in> set (running P)"
  shows "AList.delete (request_id (objs P x)) (waiting P) = waiting P"
proof (rule delete_notin, rule notI)
  let ?r = "request_id (objs P x)"
  assume "?r \<in> fst ` set (waiting P)"
  then obtain y where y: "map_of (waiting P) ?r = Some y" by (metis map_of_eq_None_iff not_None_eq)
  then have "map_of (live P) ?r = Some y" "status (objs P y) = WAITING"
    using queues_okD(7) [OF planner_invD(3) [OF assms(1)]] by blast+
  then show False using queues_okD(4,5) [OF planner_invD(3) [OF assms(1)] assms(2)] by simp
qed

text \<open>The request object after retirement.\<close>

definition finished :: "string \<Rightarrow> time \<Rightarrow> request \<Rightarrow> request" where
  "finished reason now r =
     r\<lparr>status := FINISHED, finish_reason := Some reason, finish_time := Some now, slot := None\<rparr>"

lemma finished_slot:
  "slot r = None \<Longrightarrow>
     finished reason now r = r\<lparr>status := FINISHED, finish_reason := Some reason, finish_time := Some now\<rparr>"
  by (cases r) (simp add: finished_def)

text \<open>
  \<open>retired\<close>: the request is finished, nowhere in the planner, holds no slot and no blocks; every other
  request is as before; and the pool lost exactly the references this request held.
\<close>

definition retired :: "oid \<Rightarrow> string \<Rightarrow> planner \<Rightarrow> planner \<Rightarrow> bool" where
  "retired x reason P P' \<longleftrightarrow>
     (\<exists>now. objs P' = (objs P)(x := finished reason now (objs P x))) \<and>
     pconfig P' = pconfig P \<and> running P' = remove1 x (running P) \<and>
     waiting P' = AList.delete (request_id (objs P x)) (waiting P) \<and>
     live P' = AList.delete (request_id (objs P x)) (live P) \<and>
     free_slots P' = free_slots P @ (case slot (objs P x) of None \<Rightarrow> [] | Some s \<Rightarrow> [s]) \<and>
     rows_held (request_id (objs P x)) (kv P') = [] \<and>
     (\<forall>r. r \<noteq> request_id (objs P x) \<longrightarrow> rows_held r (kv P') = rows_held r (kv P))"

lemma finish_running:
  assumes inv: "planner_inv (digest E) P" and D: "digest8 (digest E)" and x: "x \<in> set (running P)"
  shows "\<exists>P'. finish E x reason P = Inr P' \<and> planner_inv (digest E) P' \<and> retired x reason P P'"
proof -
  let ?rid = "request_id (objs P x)" and ?now = "clock E (ticks P)"
  note qo = planner_invD(3) [OF inv] and no = planner_invD(1) [OF inv]
  have lv: "map_of (live P) ?rid = Some x" and st: "status (objs P x) = RUNNING"
    using queues_okD(4,5) [OF qo x] by auto
  obtain s where s: "slot (objs P x) = Some s" using planner_invD(2) [OF inv] x by (auto simp: slots_ok_def)
  define Q where "Q = discard_running x (release_slot x (upd_obj x (\<lambda>r. r\<lparr>status := FINISHED,
      finish_reason := Some reason, finish_time := Some ?now\<rparr>) (P\<lparr>ticks := ticks P + 1\<rparr>)))"
  have Q: "objs Q = (objs P)(x := finished reason ?now (objs P x))" "running Q = remove1 x (running P)"
    "free_slots Q = free_slots P @ [s]" "waiting Q = waiting P" "live Q = live P" "kv Q = kv P"
    "pending_blocks Q = pending_blocks P" "offloading Q = offloading P" "no_offload Q = no_offload P"
    "pconfig Q = pconfig P" "num_slots Q = num_slots P" "pmax_num_seqs Q = pmax_num_seqs P"
    using s by (simp_all add: Q_def discard_running_def release_slot_def finished_def no_offload_def)
  obtain pc where pc: "rfold (\<lambda>xu P. if fst xu = x then commit_upto E x (snd xu) P else Inr P) (pending_blocks P) Q =
      Inr (Q\<lparr>kv := pc\<rparr>)" "planner_inv (digest E) (P\<lparr>kv := pc\<rparr>)" "\<forall>r. rows_held r pc = rows_held r (kv P)"
    using settle_fold_transfer [where Q = Q and P = P and x = x and E = E and xs = "pending_blocks P"] inv D x Q
      planner_invD(6) [OF inv] by (auto simp: finished_def tokens_def)
  have ci: "cache_inv pc" using planner_invD(5) [OF pc(2)] by simp
  obtain pc2 where f: "cache_free ?rid pc = Inr pc2" "cache_inv pc2" "rows_held ?rid pc2 = []"
    "map_of (sequences pc2) ?rid = None"
    "\<And>r. r \<noteq> ?rid \<Longrightarrow> rows_held r pc2 = rows_held r pc \<and> map_of (sequences pc2) r = map_of (sequences pc) r"
    "pc_block_size pc2 = pc_block_size pc" "hash_seed pc2 = hash_seed pc"
    by (rule cache_free_ok [OF ci, of ?rid]) (rule that)
  define P' where "P' = Q\<lparr>kv := pc2, pending_blocks := filter (\<lambda>xu. fst xu \<noteq> x) (pending_blocks P),
      live := AList.delete ?rid (live P)\<rparr>"
  have P': "objs P' = objs Q" "running P' = running Q" "free_slots P' = free_slots Q" "waiting P' = waiting P"
    "live P' = AList.delete ?rid (live P)" "kv P' = pc2" "pconfig P' = pconfig P" "num_slots P' = num_slots P"
    "pmax_num_seqs P' = pmax_num_seqs P" "no_offload P'" "pending_blocks P' = filter (\<lambda>xu. fst xu \<noteq> x) (pending_blocks P)"
    using no Q by (simp_all add: P'_def no_offload_def)
  have nq: "no_offload (Q\<lparr>kv := pc, pending_blocks := filter (\<lambda>xu. fst xu \<noteq> x) (pending_blocks P)\<rparr>)"
    using no Q by (simp add: no_offload_def)
  have eq: "finish E x reason P = Inr P'"
    unfolding finish_def Let_def monotonic_def prod.case Q_def [symmetric]
    using st pc(1) f(1) lv Q(1,5,6,7)
    by (simp add: settle_pending_blocks_def retire_no_offload [OF nq] free_unless_def P'_def finished_def)
  have fr: "kv_frame ?rid (kv (P\<lparr>kv := pc\<rparr>)) pc2"
    using f by (simp add: kv_frame_def same_chain_def block_hashes_def)
  have "planner_inv (digest E) P'"
    by (rule retire_ok [OF pc(2), of ?rid x]) (use lv Q P' s f fr waiting_not_running [OF inv x] in simp_all)
  then show ?thesis
    using eq pc(3) P' Q s f waiting_not_running [OF inv x] by (auto simp: retired_def)
qed

text \<open>A queued request leaves the planner the same way, through \<^verbatim>\<open>finish\<close> or through \<^verbatim>\<open>abort\<close>.\<close>

lemma retire_waiting:
  assumes inv: "planner_inv D P" and w: "map_of (waiting P) rid = Some x"
    and Q: "objs Q = (objs P)(x := finished reason now (objs P x))" "waiting Q = AList.delete rid (waiting P)"
      "running Q = running P" "live Q = live P" "free_slots Q = free_slots P" "kv Q = kv P"
      "pending_blocks Q = pending_blocks P" "pconfig Q = pconfig P" "num_slots Q = num_slots P"
      "pmax_num_seqs Q = pmax_num_seqs P" "no_offload Q"
  obtains pc where "cache_free rid (kv Q) = Inr pc"
    "planner_inv D (Q\<lparr>kv := pc, live := AList.delete rid (live P)\<rparr>)"
    "retired x reason P (Q\<lparr>kv := pc, live := AList.delete rid (live P)\<rparr>)"
proof -
  note wf = waiting_facts [OF inv w]
  have sl: "slot (objs P x) = None" using queues_okD(7) [OF planner_invD(3) [OF inv] w] by blast
  obtain pc where f: "cache_free rid (kv P) = Inr pc" "cache_inv pc" "rows_held rid pc = []"
    "map_of (sequences pc) rid = None"
    "\<And>r. r \<noteq> rid \<Longrightarrow> rows_held r pc = rows_held r (kv P) \<and> map_of (sequences pc) r = map_of (sequences (kv P)) r"
    "pc_block_size pc = pc_block_size (kv P)" "hash_seed pc = hash_seed (kv P)"
    by (rule cache_free_ok [OF planner_invD(5) [OF inv], of rid]) (rule that)
  have fr: "kv_frame rid (kv P) pc"
    using f by (simp add: kv_frame_def same_chain_def block_hashes_def)
  have run: "remove1 x (running P) = running P" using wf(2) by (simp add: remove1_idem)
  have pend: "filter (\<lambda>xu. fst xu \<noteq> x) (pending_blocks P) = pending_blocks P"
  proof (rule filter_True, rule ballI)
    fix xu assume "xu \<in> set (pending_blocks P)"
    then show "fst xu \<noteq> x" using queues_okD(12) [OF planner_invD(3) [OF inv], of "fst xu" "snd xu"] wf(2) by auto
  qed
  let ?P = "Q\<lparr>kv := pc, live := AList.delete rid (live P)\<rparr>"
  have "planner_inv D ?P"
    by (rule retire_ok [OF inv wf(4)]) (use Q f fr run pend sl in \<open>simp_all add: no_offload_def\<close>)
  moreover have "retired x reason P ?P"
    using Q f run sl wf(1) by (auto simp: retired_def)
  ultimately show ?thesis using that f(1) Q(6) by simp
qed

lemma finish_waiting:
  assumes inv: "planner_inv (digest E) P" and w: "map_of (waiting P) rid = Some x"
  shows "\<exists>P'. finish E x reason P = Inr P' \<and> planner_inv (digest E) P' \<and> retired x reason P P'"
proof -
  note wf = waiting_facts [OF inv w] and q7 = queues_okD(7) [OF planner_invD(3) [OF inv] w]
  let ?now = "clock E (ticks P)"
  define Q where "Q = P\<lparr>ticks := ticks P + 1, objs := (objs P)(x := (objs P x)\<lparr>status := FINISHED,
      finish_reason := Some reason, finish_time := Some ?now\<rparr>), waiting := AList.delete rid (waiting P)\<rparr>"
  have Q: "objs Q = (objs P)(x := finished reason ?now (objs P x))" "waiting Q = AList.delete rid (waiting P)"
      "running Q = running P" "live Q = live P" "free_slots Q = free_slots P" "kv Q = kv P"
      "pending_blocks Q = pending_blocks P" "pconfig Q = pconfig P" "num_slots Q = num_slots P"
      "pmax_num_seqs Q = pmax_num_seqs P" "no_offload Q"
    using q7 planner_invD(1) [OF inv] by (simp_all add: Q_def finished_slot no_offload_def)
  obtain pc where pc: "cache_free rid (kv Q) = Inr pc"
    "planner_inv (digest E) (Q\<lparr>kv := pc, live := AList.delete rid (live P)\<rparr>)"
    "retired x reason P (Q\<lparr>kv := pc, live := AList.delete rid (live P)\<rparr>)"
    by (rule retire_waiting [OF inv w Q]) (rule that)
  have "finish E x reason P =
      (case retire_promotion x Q of (P4, deferred) \<Rightarrow>
         rbind (free_unless deferred rid P4) (\<lambda>P5.
           Inr (if map_of (live P5) rid = Some x then P5\<lparr>live := AList.delete rid (live P5)\<rparr> else P5)))"
    using q7 by (simp add: finish_def Let_def monotonic_def release_slot_def Q_def wf(1) cong: if_cong)
  then have "finish E x reason P = Inr (Q\<lparr>kv := pc, live := AList.delete rid (live P)\<rparr>)"
    using retire_no_offload [OF Q(11)] pc(1) wf(4) Q(4) by (simp add: free_unless_def)
  then show ?thesis using pc(2,3) by blast
qed

lemma finish_ok:
  assumes inv: "planner_inv (digest E) P" and D: "digest8 (digest E)" and l: "map_of (live P) rid = Some x"
  shows "\<exists>P'. finish E x reason P = Inr P' \<and> planner_inv (digest E) P' \<and> retired x reason P P'"
  using queues_okD(10) [OF planner_invD(3) [OF inv] l] finish_running [OF inv D] finish_waiting [OF inv] by blast

lemma abort_ok:
  assumes inv: "planner_inv (digest E) P" and D: "digest8 (digest E)"
  shows "case map_of (live P) rid of
      None \<Rightarrow> abort E rid P = Inr (P, None)
    | Some x \<Rightarrow> \<exists>P'. abort E rid P = Inr (P', Some x) \<and> planner_inv (digest E) P' \<and> retired x ''abort'' P P'"
proof (cases "map_of (live P) rid")
  case None
  then show ?thesis by (simp add: abort_def)
next
  case (Some x)
  note qo = planner_invD(3) [OF inv]
  have "\<exists>P'. abort E rid P = Inr (P', Some x) \<and> planner_inv (digest E) P' \<and> retired x ''abort'' P P'"
  proof (cases "status (objs P x) = WAITING")
    case False
    obtain P' where "finish E x ''abort'' P = Inr P'" "planner_inv (digest E) P'" "retired x ''abort'' P P'"
      using finish_ok [OF inv D Some] by blast
    then show ?thesis using False Some by (simp add: abort_def)
  next
    case True
    then have w: "map_of (waiting P) rid = Some x"
      using queues_okD(10) [OF qo Some] queues_okD(4) [OF qo, of x] by auto
    let ?now = "clock E (ticks P)"
    define Q where "Q = P\<lparr>waiting := AList.delete rid (waiting P), ticks := ticks P + 1,
        objs := (objs P)(x := (objs P x)\<lparr>status := FINISHED, finish_reason := Some ''abort'', finish_time := Some ?now\<rparr>)\<rparr>"
    have Q: "objs Q = (objs P)(x := finished ''abort'' ?now (objs P x))" "waiting Q = AList.delete rid (waiting P)"
        "running Q = running P" "live Q = live P" "free_slots Q = free_slots P" "kv Q = kv P"
        "pending_blocks Q = pending_blocks P" "pconfig Q = pconfig P" "num_slots Q = num_slots P"
        "pmax_num_seqs Q = pmax_num_seqs P" "no_offload Q"
      using queues_okD(7) [OF qo w] planner_invD(1) [OF inv] by (simp_all add: Q_def finished_slot no_offload_def)
    obtain pc where pc: "cache_free rid (kv Q) = Inr pc"
      "planner_inv (digest E) (Q\<lparr>kv := pc, live := AList.delete rid (live P)\<rparr>)"
      "retired x ''abort'' P (Q\<lparr>kv := pc, live := AList.delete rid (live P)\<rparr>)"
      by (rule retire_waiting [OF inv w Q]) (rule that)
    have "abort E rid P =
        (case retire_promotion x Q of (P2, deferred) \<Rightarrow>
           rbind (free_unless deferred rid P2) (\<lambda>P3. Inr (P3\<lparr>live := AList.delete rid (live P3)\<rparr>, Some x)))"
      using True Some by (simp add: abort_def monotonic_def Q_def)
    then have "abort E rid P = Inr (Q\<lparr>kv := pc, live := AList.delete rid (live P)\<rparr>, Some x)"
      using retire_no_offload [OF Q(11)] pc(1) Q(4) by (simp add: free_unless_def)
    then show ?thesis using pc(2,3) by blast
  qed
  then show ?thesis using Some by simp
qed

section \<open>Tokens the engine appends\<close>

definition emit :: "oid \<Rightarrow> int \<Rightarrow> planner \<Rightarrow> planner" where
  "emit x t P = upd_obj x (\<lambda>r. r\<lparr>output_token_ids := output_token_ids r @ [t]\<rparr>) P"

lemma emit_ok:
  assumes inv: "planner_inv D P" and x: "x \<in> set (running P)" and room: "has_room (objs P x)"
    and t: "0 \<le> t" "t < 2 ^ 32"
  shows "planner_inv D (emit x t P)"
proof -
  define ob where "ob = (objs P)(x := (objs P x)\<lparr>output_token_ids := output_token_ids (objs P x) @ [t]\<rparr>)"
  note qo = planner_invD(3) [OF inv] and ko = planner_invD(4) [OF inv]
  have same: "request_id (ob y) = request_id (objs P y)" "status (ob y) = status (objs P y)" "slot (ob y) = slot (objs P y)"
    "num_computed_tokens (ob y) = num_computed_tokens (objs P y)" "prompt_len (ob y) = prompt_len (objs P y)" for y
    by (simp_all add: ob_def prompt_len_def)
  have wx: "y \<noteq> x" if "map_of (waiting P) r = Some y" for r y
    using queues_okD(7) [OF qo that] queues_okD(4) [OF qo x] by auto
  have oth: "y \<noteq> x \<Longrightarrow> ob y = objs P y" for y by (simp add: ob_def)
  have wf: "wf_req c (ob y)" if "wf_req c (objs P y)" for c y
    using that room t by (cases "y = x") (auto simp: ob_def wf_req_def prompt_len_def tokens_ok_def has_room_def)
  have "slots_ok (P\<lparr>objs := ob\<rparr>)" using planner_invD(2) [OF inv] by (simp add: slots_ok_def same)
  moreover have "queues_ok (P\<lparr>objs := ob\<rparr>)"
    using qo wf wx oth unfolding queues_ok_def by (simp add: same)
  moreover have "kv_ok D (P\<lparr>objs := ob\<rparr>)"
  proof -
    have "chain_of_live D (P\<lparr>objs := ob\<rparr>) r (kv P)" for r
      unfolding chain_of_live_def
    proof
      assume "map_of (sequences (kv P)) r \<noteq> None"
      then obtain y k where y: "map_of (live P) r = Some y" "tracks D r (take k (tokens (objs P y))) (kv P)"
        using kv_okD(6) [OF ko, of r] by (auto simp: chain_of_live_def)
      have "take (min k (length (tokens (objs P y)))) (tokens (ob y)) = take k (tokens (objs P y))"
        by (cases "y = x") (auto simp: ob_def tokens_def min_def)
      then show "\<exists>y k. map_of (live (P\<lparr>objs := ob\<rparr>)) r = Some y \<and>
          tracks D r (take k (tokens (objs (P\<lparr>objs := ob\<rparr>) y))) (kv P)"
        using y by (intro exI [of _ y] exI [of _ "min k (length (tokens (objs P y)))"]) simp
    qed
    then show ?thesis using ko unfolding kv_ok_def by (simp add: same)
  qed
  ultimately show ?thesis using inv by (simp add: planner_inv_def no_offload_def emit_def ob_def)
qed

section \<open>The transition system\<close>

text \<open>Growing a decode request over draft rows: the longest stretch that fits, without evicting anybody.\<close>

text \<open>Reserving draft rows only adds blocks and table writes for the request.\<close>

definition spec_frame :: "oid \<Rightarrow> planner \<Rightarrow> planner \<Rightarrow> bool" where
  "spec_frame x P P' \<longleftrightarrow>
     pconfig P' = pconfig P \<and> live P' = live P \<and> waiting P' = waiting P \<and> core (objs P' x) = core (objs P x) \<and>
     num_computed_tokens (objs P' x) = num_computed_tokens (objs P x) \<and>
     pending_tokens (objs P' x) = pending_tokens (objs P x) \<and>
     (\<forall>r. length (rows_held r (kv P)) \<le> length (rows_held r (kv P')))"

lemma spec_frame_refl [simp]: "spec_frame x P P"
  by (simp add: spec_frame_def)

lemma spec_frame_trans: "spec_frame x P Q \<Longrightarrow> spec_frame x Q R \<Longrightarrow> spec_frame x P R"
  by (auto simp: spec_frame_def intro: order_trans)

lemma spec_frame_kv: "(\<And>r. length (rows_held r (kv P)) \<le> length (rows_held r pc)) \<Longrightarrow> spec_frame x P (P\<lparr>kv := pc\<rparr>)"
  by (simp add: spec_frame_def)

lemma speculative_loop_ok:
  assumes inv: "planner_inv D P" and x: "x \<in> set (running P)"
  shows "\<exists>P' k. speculative_loop fit x P = Inr (P', k) \<and> planner_inv D P' \<and> k \<le> fit \<and> running P' = running P \<and>
    (0 < k \<longrightarrow> seq_len (objs P x) + k \<le> length (rows_held (request_id (objs P x)) (kv P')) * BLOCK_SIZE) \<and>
    (\<forall>y. y \<noteq> x \<longrightarrow> objs P' y = objs P y) \<and> spec_frame x P P'"
  using inv x
proof (induction fit arbitrary: P)
  case 0
  then show ?case by simp
next
  case (Suc fit)
  let ?r = "request_id (objs P x)"
  obtain pc ok where a: "kv_allocate ?r (seq_len (objs P x) + Suc fit) None P = Inr (P\<lparr>kv := pc\<rparr>, ok)"
    "planner_inv D (P\<lparr>kv := pc\<rparr>)" "\<And>r. length (rows_held r (kv P)) \<le> length (rows_held r pc)" "ok \<longrightarrow> seq_len (objs P x) + Suc fit \<le> length (rows_held ?r pc) * BLOCK_SIZE"
    using kv_allocate_ok [OF Suc.prems, of "seq_len (objs P x) + Suc fit"] by blast
  show ?case
  proof (cases ok)
    case False
    obtain P' k where "speculative_loop fit x (P\<lparr>kv := pc\<rparr>) = Inr (P', k)" "planner_inv D P'" "k \<le> fit" "running P' = running P"
      "0 < k \<longrightarrow> seq_len (objs P x) + k \<le> length (rows_held ?r (kv P')) * BLOCK_SIZE"
      "\<forall>y. y \<noteq> x \<longrightarrow> objs P' y = objs P y" "spec_frame x (P\<lparr>kv := pc\<rparr>) P'"
      using Suc.IH [OF a(2)] Suc.prems(2) by auto
    moreover have "spec_frame x P P'" using spec_frame_kv [OF a(3)] calculation(7) by (rule spec_frame_trans)
    ultimately show ?thesis using a(1) False by (simp add: le_SucI)
  next
    case True
    obtain pc' ws where w: "map_blocks x (P\<lparr>kv := pc\<rparr>) = Inr (upd_obj x (\<lambda>r. r\<lparr>block_plan := ws\<rparr>) (P\<lparr>kv := pc'\<rparr>))"
      "planner_inv D (upd_obj x (\<lambda>r. r\<lparr>block_plan := ws\<rparr>) (P\<lparr>kv := pc'\<rparr>))"
      "\<forall>r. rows_held r pc' = rows_held r pc"
      using map_blocks_ok [OF a(2), of x] Suc.prems(2) by auto
    obtain ws' where t: "take_table_writes ?r pc = Inr (pc', ws')"
    proof -
      obtain pc2 ws2 where "take_table_writes ?r pc = Inr (pc2, ws2)"
        using take_table_writes_ok [OF planner_invD(5) [OF a(2)]] by (metis planner.select_convs(9) planner.surjective planner.update_convs(9))
      then show ?thesis using that w(1) by (auto simp: map_blocks_def planner.defs dest: arg_cong [where f = kv])
    qed
    let ?P' = "upd_obj x (\<lambda>r. r\<lparr>block_plan := block_plan r @ ws'\<rparr>) (P\<lparr>kv := pc'\<rparr>)"
    have "planner_inv D (upd_obj x (\<lambda>r. r\<lparr>block_plan := block_plan (objs P x) @ ws'\<rparr>)
        (upd_obj x (\<lambda>r. r\<lparr>block_plan := ws\<rparr>) (P\<lparr>kv := pc'\<rparr>)))"
      by (rule planner_inv_upd_obj [OF w(2)])
        (use Suc.prems(2) planner_invD(3,4) [OF w(2)] in \<open>auto simp: core_def dest: queues_okD(6) kv_okD(4)\<close>)
    then have "planner_inv D ?P'" by simp
    moreover have "spec_frame x P ?P'" using a(3) w(3) by (simp add: spec_frame_def core_def)
    ultimately show ?thesis using a(1,4) True t w(3) by simp
  qed
qed

lemma reserve_speculative_ok:
  assumes inv: "planner_inv D P" and x: "x \<in> set (running P)"
  shows "\<exists>P' k. reserve_speculative x n P = Inr (P', k) \<and> planner_inv D P' \<and> k \<le> n \<and>
    k \<le> max_seq_len (pconfig P) - seq_len (objs P x) \<and> running P' = running P \<and>
    (0 < k \<longrightarrow> seq_len (objs P x) + k \<le> length (rows_held (request_id (objs P x)) (kv P')) * BLOCK_SIZE) \<and>
    (\<forall>y. y \<noteq> x \<longrightarrow> objs P' y = objs P y) \<and> spec_frame x P P'"
  using speculative_loop_ok [OF assms, of "min n (max_seq_len (pconfig P) - seq_len (objs P x))"]
  by (auto simp: reserve_speculative_def)

text \<open>
  One interaction with the planner: the engine submits a fresh request object, plans a step, reserves draft
  rows for a running request, appends a sampled token to a request that has room for it, records its
  launched tokens, retires a live request, or aborts one by id.
\<close>

inductive pstep :: "env \<Rightarrow> planner \<Rightarrow> planner \<Rightarrow> bool" for E where
  submit: "\<lbrakk>\<forall>r. map_of (live P) r \<noteq> Some x; output_token_ids req = []; tokens_ok (prompt_token_ids req);
     add_request x (P\<lparr>objs := (objs P)(x := req)\<rparr>) = Inr P'\<rbrakk> \<Longrightarrow> pstep E P P'"
| plan: "plan E P = Inr (P', s) \<Longrightarrow> pstep E P P'"
| emit: "\<lbrakk>x \<in> set (running P); prefill_done (objs P x); has_room (objs P x); 0 \<le> t; t < 2 ^ 32\<rbrakk> \<Longrightarrow>
     pstep E P (emit x t P)"
| speculate: "\<lbrakk>x \<in> set (running P); reserve_speculative x n P = Inr (P', k)\<rbrakk> \<Longrightarrow> pstep E P P'"
| launch: "x \<in> set (running P) \<Longrightarrow> pstep E P (upd_obj x (\<lambda>r. r\<lparr>pending_tokens := n\<rparr>) P)"
| finish: "\<lbrakk>map_of (live P) rid = Some x; finish E x reason P = Inr P'\<rbrakk> \<Longrightarrow> pstep E P P'"
| abort: "abort E rid P = Inr (P', y) \<Longrightarrow> pstep E P P'"

inductive reachable :: "env \<Rightarrow> planner \<Rightarrow> bool" for E where
  init: "\<lbrakk>config_check c0 = Inr c; planner_init store c slots num None = Inr P\<rbrakk> \<Longrightarrow> reachable E P"
| step: "\<lbrakk>reachable E P; pstep E P P'\<rbrakk> \<Longrightarrow> reachable E P'"

inductive_cases pstepE: "pstep E P P'"

lemma config_check_idem: "config_check c = Inr c' \<Longrightarrow> config_check c' = Inr c'"
  by (auto simp: config_check_def Let_def split: if_splits option.splits)

lemma pstep_inv:
  assumes "pstep E P P'" and inv: "planner_inv (digest E) P" and D: "digest8 (digest E)"
  shows "planner_inv (digest E) P'"
  using assms(1)
proof cases
  case (submit x req)
  let ?P = "P\<lparr>objs := (objs P)(x := req)\<rparr>"
  have i: "planner_inv (digest E) ?P"
    by (rule planner_inv_store [OF inv]) (use submit(1) in auto)
  have "\<not> refuses ?P (objs ?P x)" using submit(4) by (auto simp: add_request_eq split: if_splits)
  then show ?thesis using add_request_ok [OF i, of x] submit by auto
next
  case (plan s)
  then show ?thesis using plan_total [OF inv D] by auto
next
  case (emit x t)
  then show ?thesis using emit_ok [OF inv] by simp
next
  case (speculate x n k)
  then show ?thesis using reserve_speculative_ok [OF inv speculate(1), of n] by auto
next
  case (launch x n)
  have "planner_inv (digest E) (upd_obj x (\<lambda>r. r\<lparr>pending_tokens := n\<rparr>) P)"
    by (rule planner_inv_upd_obj [OF inv])
      (use planner_invD(3,4) [OF inv] in \<open>auto simp: core_def dest: queues_okD(6) kv_okD(4)\<close>)
  then show ?thesis using launch by simp
next
  case (finish rid x reason)
  then show ?thesis using finish_ok [OF inv D finish(1), of reason] by auto
next
  case (abort rid y)
  then show ?thesis using abort_ok [OF inv D, of rid] inv by (auto split: option.splits)
qed

lemma reachable_inv:
  assumes "reachable E P" and D: "digest8 (digest E)"
  shows "planner_inv (digest E) P"
  using assms(1)
proof induction
  case (init c0 c store slots num P)
  have n: "1 \<le> slots" "2 \<le> pool_size c slots num"
    using init(2) planner_init_raises [of slots c num store] by (metis Inl_Inr_False not_le)+
  obtain P0 where "planner_init store c slots num None = Inr P0" "planner_inv (digest E) P0"
    by (rule planner_init_ok [OF config_check_idem [OF init(1)] n]) (rule that)
  then show ?case using init(2) by simp
next
  case (step P P')
  then show ?case using pstep_inv D by blast
qed

end
