(* ===== verification/Planner_Properties.thy ===== *)
theory Planner_Properties
  imports Planner_Lifecycle
begin

text \<open>
  What the batch planner (\<^verbatim>\<open>src/rapid_llm/engine/batch_planner.py\<close>) guarantees in every state its operations
  can reach: a step plan is always produced and executable, slots and blocks are conserved, requests are
  queued, evicted and retired without losing tokens. A small run of the planner, evaluated, gives the
  concrete instances.
\<close>

section \<open>A concrete run\<close>

definition demo_config :: scheduler_config where
  "demo_config = \<lparr>max_seq_len = 32, max_num_seqs = 2, max_num_batched_tokens = 16, enable_chunked_prefill = True,
     max_chunk_size = 16, enable_prefix_cache = True, prefix_cache_blocks = None, enable_preemption = False,
     decode_window_steps = 1\<rparr>"

definition demo_env :: env where
  "demo_env = \<lparr>digest = (\<lambda>m. [1, 1, 1, 1, 1, 1, 1, 1]), clock = (\<lambda>n. 0), submit = (\<lambda>_ _. None), query = (\<lambda>_. False)\<rparr>"

definition demo_request :: request where
  "demo_request = \<lparr>request_id = ''a'', prompt_token_ids = [5, 6, 7], max_gen_len = Some 4, max_new_tokens = 0,
     num_computed_tokens = 0, arrival_time = 0, scheduled_time = None, status = WAITING, slot = None,
     output_token_ids = [], finish_reason = None, finish_time = None, req_cached_tokens = 0, block_plan = [],
     prompt_logprobs = None, output_logprobs = None, delta_logprobs = None, pending_tokens = 0\<rparr>"

definition demo_start :: "planner res" where
  "demo_start = planner_init (\<lambda>_. demo_request) demo_config 2 None None"

definition demo_run :: "planner res" where
  "demo_run = rbind demo_start (\<lambda>P. rbind (add_request 0 P) (\<lambda>P. rbind (plan demo_env P) (\<lambda>(P, s). Inr P)))"

lemma demo_initial:
  obtains P where "demo_start = Inr P" "reachable demo_env P" "live P = []" "running P = []" "objs P = (\<lambda>_. demo_request)"
proof -
  have c: "config_check demo_config = Inr demo_config" by code_simp
  obtain P where P: "demo_start = Inr P" "live P = []" "running P = []" "objs P = (\<lambda>_. demo_request)"
    by (rule planner_init_ok [OF c, of 2 None "\<lambda>_. demo_request"]) (simp_all add: demo_start_def pool_size_def
        or_default_def demo_config_def default_num_blocks_def)
  moreover have "reachable demo_env P" using P(1) c by (auto simp: demo_start_def intro: reachable.init)
  ultimately show ?thesis using that by blast
qed

lemma demo_digest: "digest8 (digest demo_env)"
  by (simp add: digest8_def demo_env_def)

text \<open>The state after one request has been submitted and planned: the request runs.\<close>

lemma demo_state:
  obtains P where "demo_run = Inr P" "reachable demo_env P" "running P = [0]" "map_of (live P) ''a'' = Some 0"
    "request_id (objs P 0) = ''a''" "pconfig P = demo_config" "seq_len (objs P 0) = 3"
proof -
  have r: "case demo_run of Inr P \<Rightarrow> running P = [0] \<and> map_of (live P) ''a'' = Some 0 \<and> request_id (objs P 0) = ''a'' \<and>
      pconfig P = demo_config \<and> seq_len (objs P 0) = 3 | Inl e \<Rightarrow> False" by code_simp
  obtain P0 where P0: "demo_start = Inr P0" "live P0 = []" "objs P0 = (\<lambda>_. demo_request)" "reachable demo_env P0"
    by (rule demo_initial) (rule that)
  note r0 = P0(4)
  obtain P2 where run: "demo_run = Inr P2" "running P2 = [0]" "map_of (live P2) ''a'' = Some 0"
    "request_id (objs P2 0) = ''a''" "pconfig P2 = demo_config" "seq_len (objs P2 0) = 3"
    using r by (cases demo_run) (auto split: sum.splits)
  then obtain P1 s where P1: "add_request 0 P0 = Inr P1" and P2: "plan demo_env P1 = Inr (P2, s)"
    unfolding demo_run_def P0(1) by auto
  have "(P0\<lparr>objs := (objs P0)(0 := demo_request)\<rparr>) = P0" using P0(3) by (simp add: fun_upd_idem)
  then have r1: "reachable demo_env P1"
    using reachable.step [OF r0 pstep.submit [of P0 0 demo_request P1 demo_env]] P0(2) P1
    by (simp add: demo_request_def tokens_ok_def)
  have "reachable demo_env P2" by (rule reachable.step [OF r1 pstep.plan [OF P2]])
  then show ?thesis using that run by blast
qed

section \<open>Planning\<close>

text \<open>C10: planning a step never raises and keeps the planner well formed. In every reachable state, with a
  digest of eight bytes, \<^verbatim>\<open>plan\<close> returns a plan whose rows are distinct running requests, with one positive
  chunk length within the token budget per prefill row; every prefill row holds the blocks its computed
  tokens fill, and every decode row has finished prefill and holds the block its next token is written to.\<close>

theorem plan_always_executable:
  assumes "reachable E P" "digest8 (digest E)"
  shows "\<exists>P' s. plan E P = Inr (P', s) \<and> planner_inv (digest E) P' \<and> plan_ok P' s"
  using plan_total [OF reachable_inv [OF assms] assms(2)] by blast

theorem plan_always_executable_witness:
  "\<exists>P P' s. demo_run = Inr P \<and> running P = [0] \<and> plan demo_env P = Inr (P', s) \<and> plan_ok P' s"
proof -
  obtain P where P: "demo_run = Inr P" "reachable demo_env P" "running P = [0]" by (rule demo_state)
  then show ?thesis using plan_always_executable [OF P(2) demo_digest] by blast
qed

text \<open>C12: slots are conserved. In every reachable state each slot number is either in the free list, once, or
  held by exactly one running request, and no request waits with a slot.\<close>

theorem slots_conserved:
  assumes "reachable E P" "digest8 (digest E)"
  shows "distinct (map (\<lambda>x. slot (objs P x)) (running P)) \<and> distinct (free_slots P) \<and>
    (\<forall>s. s < num_slots P \<longleftrightarrow> s \<in> set (free_slots P) \<or> (\<exists>x \<in> set (running P). slot (objs P x) = Some s)) \<and>
    (\<forall>x \<in> set (running P). \<forall>s. slot (objs P x) = Some s \<longrightarrow> s \<notin> set (free_slots P)) \<and>
    (\<forall>rid x. map_of (waiting P) rid = Some x \<longrightarrow> slot (objs P x) = None)"
proof -
  note inv = reachable_inv [OF assms]
  note q = planner_invD(3) [OF inv]
  let ?ss = "map (\<lambda>x. the (slot (objs P x))) (running P)"
  have ne: "\<And>x. x \<in> set (running P) \<Longrightarrow> slot (objs P x) = Some (the (slot (objs P x)))"
    and ms: "mset (?ss @ free_slots P) = mset [0..<num_slots P]"
    using planner_invD(2) [OF inv] by (auto simp: slots_ok_def)
  have d: "distinct (?ss @ free_slots P)" using ms by (metis distinct_upt mset_eq_imp_distinct_iff)
  have s: "set (?ss @ free_slots P) = {..<num_slots P}" using mset_eq_setD [OF ms] by auto
  have m: "map (\<lambda>x. slot (objs P x)) (running P) = map Some ?ss" using ne by simp
  have "distinct (map (\<lambda>x. slot (objs P x)) (running P))" 
    unfolding m using d by (auto simp: distinct_map inj_on_def)
  moreover have "s < num_slots P \<longleftrightarrow> s \<in> set (free_slots P) \<or> (\<exists>x \<in> set (running P). slot (objs P x) = Some s)" for s
  proof -
    have "s < num_slots P \<longleftrightarrow> s \<in> set (?ss @ free_slots P)" unfolding s by simp
    also have "\<dots> \<longleftrightarrow> s \<in> set (free_slots P) \<or> (\<exists>x \<in> set (running P). the (slot (objs P x)) = s)" by auto
    finally show ?thesis using ne by (metis option.sel)
  qed
  moreover have "s \<notin> set (free_slots P)" if "x \<in> set (running P)" "slot (objs P x) = Some s" for x s
    using d that by (force simp: image_iff)
  ultimately show ?thesis using d q by (auto dest: queues_okD(7))
qed

theorem slots_conserved_witness:
  "\<exists>P. demo_run = Inr P \<and> distinct (map (\<lambda>x. slot (objs P x)) (running P)) \<and> distinct (free_slots P)"
proof -
  obtain P where P: "demo_run = Inr P" "reachable demo_env P" by (rule demo_state)
  then show ?thesis using slots_conserved [OF P(2) demo_digest] by blast
qed

text \<open>C11: no block leaks. In every reachable state a block is referenced exactly as often as running requests
  hold it; when nothing runs, every block but the null block is free.\<close>

theorem no_block_leak:
  assumes "reachable E P" "digest8 (digest E)" "running P = []"
  shows "set (free_list (pool (coord (kv P)))) = {b. b \<noteq> NULL_BLOCK_ID \<and> b < num_blocks (pool (coord (kv P)))} \<and>
    (\<forall>b. b \<noteq> NULL_BLOCK_ID \<longrightarrow> ref_cnt (pool (coord (kv P))) b = 0)"
proof -
  note inv = reachable_inv [OF assms(1,2)]
  note ci = planner_invD(5) [OF inv]
  have co: "coord_inv (coord (kv P))" using ci by (simp add: cache_inv_def)
  have none: "rows_held r (kv P) = []" for r using kv_okD(3) [OF planner_invD(4) [OF inv]] assms(3) by fastforce
  have "held_in st b = 0" if "(r, st) \<in> set (requests (coord (kv P)))" for r st b
  proof -
    have "map_of (requests (coord (kv P))) r = Some st" using that coord_invD(3) [OF co] by simp
    then have "concat (per_group st) = []" using none [of r] by (simp add: rows_held_eq(2) del: concat_eq_Nil_conv)
    then show ?thesis by (simp only: held_in_def) simp
  qed
  then have "held (requests (coord (kv P))) b = 0" for b
    unfolding held_def dsum_def by (auto simp: sum_list_eq_0_iff)
  then have r: "ref_cnt (pool (coord (kv P))) b = 0" if "b \<noteq> 0" for b using coord_invD(6) [OF co that] by simp
  then show ?thesis using pool_invD(3) [OF coord_invD(1) [OF co]] by auto
qed

theorem no_block_leak_witness:
  "\<exists>P P'. demo_run = Inr P \<and> rows_held ''a'' (kv P) \<noteq> [] \<and> abort demo_env ''a'' P = Inr (P', Some 0) \<and> running P' = [] \<and>
     set (free_list (pool (coord (kv P')))) = {b. b \<noteq> NULL_BLOCK_ID \<and> b < num_blocks (pool (coord (kv P')))}"
proof -
  obtain P where P: "demo_run = Inr P" "reachable demo_env P" by (rule demo_state)
  have "case demo_run of Inl e \<Rightarrow> False | Inr P \<Rightarrow> rows_held ''a'' (kv P) \<noteq> [] \<and>
      (case abort demo_env ''a'' P of Inl e \<Rightarrow> False | Inr (P', y) \<Rightarrow> y = Some 0 \<and> running P' = [])" by code_simp
  then have v: "rows_held ''a'' (kv P) \<noteq> [] \<and>
      (case abort demo_env ''a'' P of Inl e \<Rightarrow> False | Inr (P', y) \<Rightarrow> y = Some 0 \<and> running P' = [])"
    unfolding P(1) sum.case .
  then obtain P' where P': "abort demo_env ''a'' P = Inr (P', Some 0)" "running P' = []"
    by (cases "abort demo_env ''a'' P") auto
  have "reachable demo_env P'" by (rule reachable.step [OF P(2) pstep.abort [OF P'(1)]])
  from no_block_leak [OF this demo_digest P'(2)] show ?thesis using P(1) P' v by blast
qed

text \<open>Queueing a request. It is refused with \<^verbatim>\<open>ValueError\<close> exactly when its id is live, it is not a fresh
  waiting request, its prompt is empty, or its prompt leaves no room in the context window. Otherwise it is
  queued last, under its id, with a generation cap of at least one token that keeps prompt and generation
  inside the window and within what the caller asked for.\<close>

lemma add_request_exact:
  assumes "planner_inv D P"
  shows "let r = objs P x; limit = max_seq_len (pconfig P)
    in if map_of (live P) (request_id r) \<noteq> None \<or> status r \<noteq> WAITING \<or> slot r \<noteq> None \<or> prompt_len r = 0 \<or>
          limit \<le> prompt_len r
       then add_request x P = Inl ValueError
       else \<exists>P' cap. add_request x P = Inr P' \<and> waiting P' = waiting P @ [(request_id r, x)] \<and>
         live P' = live P @ [(request_id r, x)] \<and> running P' = running P \<and> kv P' = kv P \<and>
         objs P' = (objs P)(x := r\<lparr>max_new_tokens := int cap\<rparr>) \<and> 1 \<le> cap \<and> prompt_len r + cap \<le> limit \<and>
         (\<forall>n. max_gen_len r = Some n \<and> n \<noteq> 0 \<longrightarrow> cap \<le> n)"
proof -
  let ?r = "objs P x"
  note q = planner_invD(3) [OF assms]
  have new: "AList.update k v d = d @ [(k, v)]" if "map_of d k = None" for k v and d :: "(rid, oid) dict"
    using that by (induction d) (auto split: if_splits)
  show ?thesis
  proof (cases "refuses P ?r")
    case True
    then show ?thesis by (auto simp: add_request_eq refuses_def Let_def)
  next
    case False
    have w: "map_of (waiting P) (request_id ?r) = None"
      using False queues_okD(7) [OF q, of "request_id ?r"] by (cases "map_of (waiting P) (request_id ?r)") (auto simp: refuses_def)
    have "1 \<le> generation_cap P ?r" "prompt_len ?r + generation_cap P ?r \<le> max_seq_len (pconfig P)"
      "\<forall>n. max_gen_len ?r = Some n \<and> n \<noteq> 0 \<longrightarrow> generation_cap P ?r \<le> n"
      using False by (auto simp: generation_cap_def refuses_def Let_def split: option.splits)
    then show ?thesis using False w by (auto simp: add_request_eq refuses_def Let_def new)
  qed
qed

text \<open>C14: retiring a request. Finishing a live request, and aborting it by id, never raise: the request leaves
  the queues with its reason, its slot and blocks are given back, every other request keeps its blocks and
  the planner stays well formed. Aborting an id that is not live changes nothing.\<close>

theorem retire_exact:
  assumes "reachable E P" "digest8 (digest E)"
  shows "case map_of (live P) rid of
      None \<Rightarrow> abort E rid P = Inr (P, None)
    | Some x \<Rightarrow> (\<exists>P'. abort E rid P = Inr (P', Some x) \<and> planner_inv (digest E) P' \<and> retired x ''abort'' P P') \<and>
        (\<exists>P'. finish E x reason P = Inr P' \<and> planner_inv (digest E) P' \<and> retired x reason P P')"
  using abort_ok [OF reachable_inv [OF assms] assms(2), of rid] finish_ok [OF reachable_inv [OF assms] assms(2), of rid]
  by (auto split: option.splits)

theorem retire_exact_witness:
  "\<exists>P P'. demo_run = Inr P \<and> running P = [0] \<and> finish demo_env 0 ''stop'' P = Inr P' \<and> retired 0 ''stop'' P P'"
proof -
  obtain P where P: "demo_run = Inr P" "reachable demo_env P" "running P = [0]" "map_of (live P) ''a'' = Some 0"
    by (rule demo_state)
  then show ?thesis using retire_exact [OF P(2) demo_digest, of "''a''" "''stop''"] by auto
qed

text \<open>C13: eviction loses no token. Preempting a running request moves it to the head of the waiting queue with
  its generated tokens appended to the prompt, so that tokens and remaining budget are what they were;
  its blocks and slot are given back and nobody else is touched.\<close>

theorem preempt_keeps_tokens:
  assumes "reachable E P" "digest8 (digest E)" "x \<in> set (running P)"
  shows "\<exists>P'. preempt x P = Inr P' \<and> planner_inv (digest E) P' \<and>
    hd (waiting P') = (request_id (objs P x), x) \<and> running P' = remove1 x (running P) \<and>
    tokens (objs P' x) = tokens (objs P x) \<and> output_token_ids (objs P' x) = [] \<and>
    int (prompt_len (objs P' x)) + max_new_tokens (objs P' x) = int (prompt_len (objs P x)) + max_new_tokens (objs P x) \<and>
    slot (objs P' x) = None \<and> rows_held (request_id (objs P x)) (kv P') = [] \<and>
    (\<forall>y. y \<noteq> x \<longrightarrow> objs P' y = objs P y) \<and>
    (\<forall>r. r \<noteq> request_id (objs P x) \<longrightarrow> rows_held r (kv P') = rows_held r (kv P))"
proof -
  note inv = reachable_inv [OF assms(1,2)]
  let ?r = "request_id (objs P x)"
  obtain pc s where p: "preempt x P = Inr (preempted x s pc P)" "planner_inv (digest E) (preempted x s pc P)"
    "\<And>r. r \<noteq> ?r \<Longrightarrow> block_hashes r pc = block_hashes r (kv P) \<and> rows_held r pc = rows_held r (kv P)"
    by (rule preempt_ok [OF inv assms(3)]) (rule that)
  have "rows_held ?r pc = []"
  proof (rule ccontr)
    assume "rows_held ?r pc \<noteq> []"
    then obtain y where y: "y \<in> set (running (preempted x s pc P))" "request_id (objs (preempted x s pc P) y) = ?r"
      using kv_okD(3) [OF planner_invD(4) [OF p(2)], of ?r] by (auto simp: preempted_def)
    have q: "distinct (running P)" using queues_okD(1) planner_invD(3) [OF inv] by blast
    then have "y \<in> set (running P)" "y \<noteq> x" using y(1) by (auto simp: preempted_def)
    then show False
      using y(2) queues_okD(5) [OF planner_invD(3) [OF inv], of y] queues_okD(5) [OF planner_invD(3) [OF inv] assms(3)]
      by (auto simp: preempted_def)
  qed
  then show ?thesis using p by (auto simp: preempted_def recomputed_def tokens_def prompt_len_def)
qed

theorem preempt_keeps_tokens_witness:
  "\<exists>P P'. demo_run = Inr P \<and> output_token_ids (objs (emit 0 65 P) 0) = [65] \<and> preempt 0 (emit 0 65 P) = Inr P' \<and>
     tokens (objs P' 0) = [5, 6, 7, 65] \<and> output_token_ids (objs P' 0) = [] \<and> hd (waiting P') = (''a'', 0) \<and>
     rows_held ''a'' (kv P') = []"
proof -
  obtain P where P: "demo_run = Inr P" "reachable demo_env P" "running P = [0]" "request_id (objs P 0) = ''a''" by (rule demo_state)
  have "case demo_run of Inl e \<Rightarrow> False | Inr P \<Rightarrow> prefill_done (objs P 0) \<and> has_room (objs P 0) \<and>
      prompt_token_ids (objs P 0) = [5, 6, 7] \<and> output_token_ids (objs P 0) = []" by code_simp
  then have v: "prefill_done (objs P 0)" "has_room (objs P 0)" "prompt_token_ids (objs P 0) = [5, 6, 7]" "output_token_ids (objs P 0) = []"
    unfolding P(1) by simp_all
  have "reachable demo_env (emit 0 65 P)"
    by (rule reachable.step [OF P(2) pstep.emit]) (use P(3) v in simp_all)
  moreover have "0 \<in> set (running (emit 0 65 P))" using P(3) by (simp add: emit_def)
  ultimately show ?thesis
    using preempt_keeps_tokens [OF _ demo_digest, of "emit 0 65 P" 0] P(1,4) v(3,4) by (auto simp: emit_def tokens_def)
qed

text \<open>C27: speculative rows are bounded. For a running request the call returns a row count of at most what was
  asked and of what the context window leaves; a positive count means that the blocks for these rows are
  held; no request is evicted, whatever the pool holds, and only this request's table writes change.\<close>

theorem reserve_speculative_bounds:
  assumes "reachable E P" "digest8 (digest E)" "x \<in> set (running P)"
  shows "\<exists>P' k. reserve_speculative x n P = Inr (P', k) \<and> planner_inv (digest E) P' \<and> k \<le> n \<and>
    k \<le> max_seq_len (pconfig P) - seq_len (objs P x) \<and> running P' = running P \<and>
    (0 < k \<longrightarrow> seq_len (objs P x) + k \<le> length (rows_held (request_id (objs P x)) (kv P')) * BLOCK_SIZE) \<and>
    (\<forall>y. y \<noteq> x \<longrightarrow> objs P' y = objs P y) \<and> spec_frame x P P'"
  by (rule reserve_speculative_ok [OF reachable_inv [OF assms(1,2)] assms(3)])

theorem reserve_speculative_bounds_witness:
  "\<exists>P P' k. demo_run = Inr P \<and> reserve_speculative 0 40 P = Inr (P', k) \<and> k \<le> 29"
proof -
  obtain P where P: "demo_run = Inr P" "reachable demo_env P" "running P = [0]" "pconfig P = demo_config" "seq_len (objs P 0) = 3"
    by (rule demo_state)
  then show ?thesis using reserve_speculative_bounds [OF P(2) demo_digest, of 0 40] P by (auto simp: demo_config_def)
qed

section \<open>Construction\<close>

text \<open>Constructing a planner. With a validated configuration it raises \<^verbatim>\<open>ValueError\<close> exactly when there is no
  slot or the pool would have fewer than two blocks, and otherwise starts well formed, idle, with all slots
  free.\<close>

lemma planner_init_exact:
  assumes "config_check c = Inr c"
  shows "if slots < 1 \<or> pool_size c slots num < 2 then planner_init store c slots num None = Inl ValueError
    else \<exists>P. planner_init store c slots num None = Inr P \<and> planner_inv D P \<and> running P = [] \<and> waiting P = [] \<and>
      set (free_slots P) = {..<slots} \<and> num_blocks (pool (coord (kv P))) = pool_size c slots num"
proof (cases "slots < 1 \<or> pool_size c slots num < 2")
  case True
  then show ?thesis using planner_init_raises [OF True, of store] by simp
next
  case False
  then have n: "1 \<le> slots" "2 \<le> pool_size c slots num" by auto
  obtain P where P: "planner_init store c slots num None = Inr P" "planner_inv D P" "running P = []" "waiting P = []"
    "num_slots P = slots" "num_blocks (pool (coord (kv P))) = pool_size c slots num"
    by (rule planner_init_ok [OF assms n]) (rule that)
  have "mset (free_slots P) = mset [0..<slots]" using planner_invD(2) [OF P(2)] P(3,5) by (simp add: slots_ok_def)
  then have "set (free_slots P) = {..<slots}" using mset_eq_setD by fastforce
  then show ?thesis using P False by auto
qed

text \<open>The default pool does not always hold what its documentation says, enough blocks for every slot to
  hold a full context. It does when the context length is a multiple of the block size; with a context of 31
  tokens and four slots it has seven usable blocks, while four full contexts need eight.\<close>

lemma default_num_blocks_short:
  "slots * nat (cdiv (int (BLOCK_SIZE * k)) (int BLOCK_SIZE)) \<le> default_num_blocks (c\<lparr>max_seq_len := BLOCK_SIZE * k\<rparr>) slots - 1 \<and>
   default_num_blocks (demo_config\<lparr>max_seq_len := 31\<rparr>) 4 - 1 = 7 \<and>
   4 * nat (cdiv (int (max_seq_len (demo_config\<lparr>max_seq_len := 31\<rparr>))) (int BLOCK_SIZE)) = 8"
proof (intro conjI)
  have "- int (16 * k) div 16 = - int k" by simp
  then show "slots * nat (cdiv (int (BLOCK_SIZE * k)) (int BLOCK_SIZE)) \<le>
      default_num_blocks (c\<lparr>max_seq_len := BLOCK_SIZE * k\<rparr>) slots - 1"
    by (simp add: cdiv_def BLOCK_SIZE_def default_num_blocks_def)
qed (simp_all add: default_num_blocks_def demo_config_def BLOCK_SIZE_def cdiv_def)

end
