(* ===== verification/Step_Work.thy ===== *)
theory Step_Work
  imports Planner_Properties
begin

text \<open>
  The passes of one engine step: sampling parameters (\<^verbatim>\<open>SamplingParams\<close> of \<^verbatim>\<open>src/rapid_llm/engine/sampler.py\<close>), the
  immutable plan of a forward pass with its checks (\<^verbatim>\<open>ModelInput\<close> of \<^verbatim>\<open>src/rapid_llm/executor/worker.py\<close>), and how the
  scheduler turns the planner's step into passes (\<^verbatim>\<open>_chunk_work\<close>, \<^verbatim>\<open>_prefill_work\<close> and \<^verbatim>\<open>_decode_work\<close> of
  \<^verbatim>\<open>src/rapid_llm/engine/scheduler.py\<close>). Floats are rationals; the routing threshold \<^verbatim>\<open>math.inf\<close> is \<open>None\<close>.
\<close>

section \<open>Sampling parameters\<close>

record sampling_params =
  temperature :: rat
  top_p :: rat
  par_max_gen_len :: "int option"
  repetition_penalty :: rat
  stop_on_repeat :: bool
  par_logprobs :: "int option"
  par_prompt_logprobs :: "int option"

definition default_params :: sampling_params where
  "default_params =
     \<lparr>temperature = 6 / 10, top_p = 9 / 10, par_max_gen_len = None, repetition_penalty = 11 / 10, stop_on_repeat = True,
      par_logprobs = None, par_prompt_logprobs = None\<rparr>"

text \<open>\<^verbatim>\<open>__post_init__\<close>.\<close>

definition params_check :: "sampling_params \<Rightarrow> sampling_params res" where
  "params_check p =
     (if temperature p < 0 then Inl ValueError
      else if \<not> (0 < top_p p \<and> top_p p \<le> 1) then Inl ValueError
      else if (case par_max_gen_len p of None \<Rightarrow> False | Some n \<Rightarrow> n < 1) then Inl ValueError
      else if repetition_penalty p \<le> 0 then Inl ValueError
      else if \<exists>v \<in> set [par_logprobs p, par_prompt_logprobs p]. case v of None \<Rightarrow> False | Some n \<Rightarrow> n < 0
      then Inl ValueError else Inr p)"

definition is_greedy :: "sampling_params \<Rightarrow> bool" where
  "is_greedy p \<longleftrightarrow> temperature p = 0"

section \<open>The plan of a pass\<close>

datatype pass_kind = PREFILL | EXTEND | DECODE

record model_input =
  mi_kind :: pass_kind
  mi_slots :: "nat option list"
  mi_starts :: "int list"
  mi_lens :: "int list"
  mi_tokens :: "int list"
  mi_sampling :: "sampling_params list"
  mi_sampled :: "nat list"
  mi_gen_counts :: "int list"
  mi_block_writes :: "(nat option \<times> table_write) list"
  mi_prompt_logprobs :: "int option list"
  mi_prompt_targets :: "int list"
  mi_return_logits :: bool

definition chunk_lens :: "model_input \<Rightarrow> int list" where
  "chunk_lens m = map2 (-) (mi_lens m) (mi_starts m)"

definition input_check :: "model_input \<Rightarrow> model_input res" where
  "input_check m =
     (if mi_slots m = [] then Inl ValueError
      else if \<not> (length (mi_slots m) = length (mi_starts m) \<and> length (mi_starts m) = length (mi_lens m)) then Inl ValueError
      else if int (length (mi_tokens m)) \<noteq> sum_list (chunk_lens m) then Inl ValueError
      else if \<not> (length (mi_sampled m) = length (mi_sampling m) \<and> length (mi_sampling m) = length (mi_gen_counts m))
      then Inl ValueError
      else if mi_prompt_logprobs m \<noteq> [] \<and> length (mi_prompt_logprobs m) \<noteq> length (mi_slots m) then Inl ValueError
      else if mi_prompt_targets m \<noteq> [] \<and> length (mi_prompt_targets m) \<noteq> length (mi_tokens m) then Inl ValueError
      else if (\<exists>k \<in> set (mi_prompt_logprobs m). k \<noteq> None) \<and> mi_prompt_targets m = [] then Inl ValueError
      else Inr m)"

section \<open>From the step to its passes\<close>

text \<open>\<^verbatim>\<open>_Work\<close>.\<close>

record step_work =
  sw_plan :: model_input
  sw_requests :: "oid list"
  sw_chunk_requests :: "oid list"

definition chunk_start :: "(oid \<Rightarrow> request) \<Rightarrow> oid \<times> nat \<Rightarrow> int" where
  "chunk_start st c = int (num_computed_tokens (st (fst c))) - int (snd c)"

definition chunk_end :: "(oid \<Rightarrow> request) \<Rightarrow> oid \<times> nat \<Rightarrow> int" where
  "chunk_end st c = int (num_computed_tokens (st (fst c)))"

definition chunk_targets :: "(oid \<Rightarrow> request) \<Rightarrow> oid \<times> nat \<Rightarrow> int list" where
  "chunk_targets st c =
     (let targets = py_slice (prompt_token_ids (st (fst c))) (chunk_start st c + 1) (chunk_end st c + 1)
      in targets @ replicate (snd c - length targets) 0)"

definition row_writes :: "(oid \<Rightarrow> request) \<Rightarrow> oid \<Rightarrow> (nat option \<times> table_write) list" where
  "row_writes st x = map (Pair (slot (st x))) (block_plan (st x))"

definition chunk_work ::
  "(oid \<Rightarrow> request) \<Rightarrow> (oid \<Rightarrow> sampling_params) \<Rightarrow> pass_kind \<Rightarrow> (oid \<times> nat) list \<Rightarrow> step_work res" where
  "chunk_work st par kind chunks =
     (let finishing = filter (\<lambda>(row, c). num_computed_tokens (st (fst c)) = prompt_len (st (fst c))) (enumerate 0 chunks);
          requests = map (\<lambda>(row, c). fst c) finishing;
          prompt_logprobs = map (\<lambda>c. par_prompt_logprobs (par (fst c))) chunks;
          wants_prompt = (\<exists>k \<in> set prompt_logprobs. k \<noteq> None)
      in rbind (input_check
           \<lparr>mi_kind = kind,
            mi_slots = map (\<lambda>c. slot (st (fst c))) chunks,
            mi_starts = map (chunk_start st) chunks,
            mi_lens = map (chunk_end st) chunks,
            mi_tokens = concat (map (\<lambda>c. py_slice (prompt_token_ids (st (fst c))) (chunk_start st c) (chunk_end st c)) chunks),
            mi_sampling = map par requests,
            mi_sampled = map fst finishing,
            mi_gen_counts = replicate (length requests) 0,
            mi_block_writes = concat (map (\<lambda>c. row_writes st (fst c)) chunks),
            mi_prompt_logprobs = (if wants_prompt then prompt_logprobs else []),
            mi_prompt_targets = (if wants_prompt then concat (map (chunk_targets st) chunks) else []),
            mi_return_logits = False\<rparr>)
         (\<lambda>m. Inr \<lparr>sw_plan = m, sw_requests = requests, sw_chunk_requests = map fst chunks\<rparr>))"

definition prefill_work ::
  "(oid \<Rightarrow> request) \<Rightarrow> (oid \<Rightarrow> sampling_params) \<Rightarrow> oid list \<Rightarrow> nat list \<Rightarrow> nat option \<Rightarrow> step_work list res" where
  "prefill_work st par pre lens min_rows =
     (if length pre \<noteq> length lens then Inl ValueError
      else
        let pairs = zip pre lens;
            fresh = filter (\<lambda>(x, n). num_computed_tokens (st x) = n) pairs;
            resumed = filter (\<lambda>(x, n). num_computed_tokens (st x) > n) pairs
        in rbind (if fresh = [] then Inr [] else rbind (chunk_work st par PREFILL fresh) (\<lambda>w. Inr [w])) (\<lambda>works.
           if resumed = [] then Inr works
           else
             let rows = sum_list (map snd resumed);
                 kind = (case min_rows of None \<Rightarrow> EXTEND | Some n \<Rightarrow> if rows \<ge> n then PREFILL else EXTEND)
             in rbind (chunk_work st par kind resumed) (\<lambda>w. Inr (works @ [w]))))"

primrec last_tokens :: "(oid \<Rightarrow> request) \<Rightarrow> oid list \<Rightarrow> int list res" where
  "last_tokens st [] = Inr []"
| "last_tokens st (x # xs) =
     (if output_token_ids (st x) = [] then Inl IndexError
      else rbind (last_tokens st xs) (\<lambda>ts. Inr (last (output_token_ids (st x)) # ts)))"

definition decode_work ::
  "(oid \<Rightarrow> request) \<Rightarrow> (oid \<Rightarrow> sampling_params) \<Rightarrow> oid list \<Rightarrow> bool \<Rightarrow> step_work res" where
  "decode_work st par rows from_device =
     (let ahead = (\<lambda>x. if from_device then pending_tokens (st x) else 0);
          seq_lens = map (\<lambda>x. int (seq_len (st x)) + ahead x) rows
      in rbind (if from_device then Inr (map (\<lambda>_. -1) rows) else last_tokens st rows) (\<lambda>ts.
         rbind (input_check
           \<lparr>mi_kind = DECODE,
            mi_slots = map (\<lambda>x. slot (st x)) rows,
            mi_starts = map (\<lambda>n. n - 1) seq_lens,
            mi_lens = seq_lens,
            mi_tokens = ts,
            mi_sampling = map par rows,
            mi_sampled = [0..<length rows],
            mi_gen_counts = map (\<lambda>x. int (length (output_token_ids (st x))) + ahead x) rows,
            mi_block_writes = concat (map (row_writes st) rows),
            mi_prompt_logprobs = [],
            mi_prompt_targets = [],
            mi_return_logits = False\<rparr>)
         (\<lambda>m. Inr \<lparr>sw_plan = m, sw_requests = rows, sw_chunk_requests = []\<rparr>)))"

text \<open>The passes of a step without speculation: the prompt chunks, then one decode token for each decoding request.\<close>

definition step_passes ::
  "(oid \<Rightarrow> request) \<Rightarrow> (oid \<Rightarrow> sampling_params) \<Rightarrow> nat option \<Rightarrow> bool \<Rightarrow> oid list \<Rightarrow> nat list \<Rightarrow> oid list \<Rightarrow> step_work list res" where
  "step_passes st par min_rows from_device pre lens decode =
     rbind (if pre = [] then Inr [] else prefill_work st par pre lens min_rows) (\<lambda>works.
       if decode = [] then Inr works
       else rbind (decode_work st par decode from_device) (\<lambda>w. Inr (works @ [w])))"

section \<open>What the passes are\<close>

definition pass_rows :: "step_work \<Rightarrow> oid list" where
  "pass_rows w = (if sw_chunk_requests w = [] then sw_requests w else sw_chunk_requests w)"

text \<open>
  A pass over the rows \<open>xs\<close>: row \<open>i\<close> reads and writes the slot of request \<open>xs ! i\<close>, spans cache positions that its blocks
  cover, is fed exactly the tokens of the request at these positions, and is sampled when its prompt is complete.
\<close>

definition pass_ok :: "planner \<Rightarrow> oid list \<Rightarrow> step_work \<Rightarrow> bool" where
  "pass_ok P xs w \<longleftrightarrow>
     (let m = sw_plan w
      in input_check m = Inr m \<and>
         mi_slots m = map (\<lambda>x. slot (objs P x)) xs \<and>
         length (mi_starts m) = length xs \<and> length (mi_lens m) = length xs \<and>
         (\<forall>i < length xs. 0 \<le> mi_starts m ! i \<and> mi_starts m ! i < mi_lens m ! i \<and>
            mi_lens m ! i \<le> int (length (rows_held (request_id (objs P (xs ! i))) (kv P)) * BLOCK_SIZE)) \<and>
         mi_tokens m = concat (map2 (\<lambda>x (a, b). py_slice (tokens (objs P x)) a b) xs (zip (mi_starts m) (mi_lens m))) \<and>
         mi_sampled m = filter (\<lambda>i. prefill_done (objs P (xs ! i))) [0..<length xs] \<and>
         sw_requests w = map ((!) xs) (mi_sampled m))"

lemma prompt_slice:
  assumes "0 \<le> a" "a \<le> b" "b \<le> int (prompt_len r)"
  shows "py_slice (prompt_token_ids r) a b = py_slice (tokens r) a b" "length (py_slice (tokens r) a b) = nat (b - a)"
proof -
  obtain m n where ab: "a = int m" "b = int n" using assms(1,2) nonneg_int_cases by (metis order_trans)
  then have le: "m \<le> n" "n \<le> length (prompt_token_ids r)" using assms by (simp_all add: prompt_len_def)
  then have "n \<le> length (tokens r)" by (simp add: tokens_def)
  with le show "py_slice (prompt_token_ids r) a b = py_slice (tokens r) a b" "length (py_slice (tokens r) a b) = nat (b - a)"
    by (simp_all add: ab py_slice_nat tokens_def)
qed

lemma length_concat_map: "length (concat (map f xs)) = sum_list (map (\<lambda>x. length (f x)) xs)"
  by (induction xs) simp_all

lemma enumerate_filter:
  "filter (\<lambda>(i, c). Q c) (enumerate 0 cs) = map (\<lambda>i. (i, cs ! i)) (filter (\<lambda>i. Q (cs ! i)) [0..<length cs])"
proof -
  have "enumerate 0 cs = map (\<lambda>i. (i, cs ! i)) [0..<length cs]"
    by (rule nth_equalityI) (simp_all add: nth_enumerate_eq)
  then show ?thesis by (simp add: filter_map o_def)
qed

lemma chunk_work_ok:
  assumes ne: "cs \<noteq> []"
    and c: "\<And>x n. (x, n) \<in> set cs \<Longrightarrow> 0 < n \<and> n \<le> num_computed_tokens (objs P x) \<and>
      num_computed_tokens (objs P x) \<le> prompt_len (objs P x) \<and>
      num_computed_tokens (objs P x) \<le> length (rows_held (request_id (objs P x)) (kv P)) * BLOCK_SIZE"
  shows "\<exists>w. chunk_work (objs P) par kind cs = Inr w \<and> pass_ok P (map fst cs) w \<and> pass_rows w = map fst cs"
proof -
  define st where "st = objs P"
  define fin where "fin = filter (\<lambda>i. prefill_done (st (fst (cs ! i)))) [0..<length cs]"
  define reqs where "reqs = map (\<lambda>i. fst (cs ! i)) fin"
  have fin: "filter (\<lambda>(row, c). num_computed_tokens (st (fst c)) = prompt_len (st (fst c))) (enumerate 0 cs) =
      map (\<lambda>i. (i, cs ! i)) fin"
  proof -
    have "num_computed_tokens (st (fst (cs ! i))) = prompt_len (st (fst (cs ! i))) \<longleftrightarrow> prefill_done (st (fst (cs ! i)))"
      if "i < length cs" for i
      using c [of "fst (cs ! i)" "snd (cs ! i)"] nth_mem [OF that] by (auto simp: prefill_done_def st_def)
    then show ?thesis unfolding enumerate_filter fin_def by (intro arg_cong2 [where f = map] filter_cong) auto
  qed
  have sl: "py_slice (prompt_token_ids (st (fst d))) (chunk_start st d) (chunk_end st d) =
      py_slice (tokens (st (fst d))) (chunk_start st d) (chunk_end st d)"
    "length (py_slice (tokens (st (fst d))) (chunk_start st d) (chunk_end st d)) = snd d"
    "length (chunk_targets st d) = snd d" if d: "d \<in> set cs" for d
  proof -
    have b: "0 \<le> chunk_start st d" "chunk_start st d \<le> chunk_end st d" "chunk_end st d \<le> int (prompt_len (st (fst d)))"
      using c [of "fst d" "snd d"] d by (auto simp: chunk_start_def chunk_end_def st_def)
    have n: "nat (chunk_end st d - chunk_start st d) = snd d" by (simp add: chunk_start_def chunk_end_def)
    show "py_slice (prompt_token_ids (st (fst d))) (chunk_start st d) (chunk_end st d) =
        py_slice (tokens (st (fst d))) (chunk_start st d) (chunk_end st d)"
      "length (py_slice (tokens (st (fst d))) (chunk_start st d) (chunk_end st d)) = snd d"
      using prompt_slice [OF b] n by simp_all
    have "length (py_slice (prompt_token_ids (st (fst d))) (chunk_start st d + 1) (chunk_end st d + 1)) \<le> snd d"
      using b n by (auto simp: py_slice_def slice_index_def)
    then show "length (chunk_targets st d) = snd d" by (simp add: chunk_targets_def Let_def)
  qed
  let ?toks = "concat (map (\<lambda>d. py_slice (tokens (st (fst d))) (chunk_start st d) (chunk_end st d)) cs)"
  have toks: "concat (map (\<lambda>d. py_slice (prompt_token_ids (st (fst d))) (chunk_start st d) (chunk_end st d)) cs) = ?toks"
    by (intro arg_cong [where f = concat] map_cong refl sl(1))
  have lens: "length ?toks = sum_list (map snd cs)" "length (concat (map (chunk_targets st) cs)) = sum_list (map snd cs)"
    using sl(2,3) by (simp_all add: length_concat_map cong: map_cong)
  have rows: "sum_list (map2 (-) (map (chunk_end st) cs) (map (chunk_start st) cs)) = int (sum_list (map snd cs))"
    by (induction cs) (simp_all add: chunk_start_def chunk_end_def)
  define pl where "pl = map (\<lambda>d. par_prompt_logprobs (par (fst d))) cs"
  have plen: "length pl = length cs" by (simp add: pl_def)
  define want where "want \<longleftrightarrow> (\<exists>k \<in> set pl. k \<noteq> None)"
  define m where "m = \<lparr>mi_kind = kind, mi_slots = map (\<lambda>d. slot (st (fst d))) cs, mi_starts = map (chunk_start st) cs,
     mi_lens = map (chunk_end st) cs, mi_tokens = ?toks, mi_sampling = map par reqs, mi_sampled = fin,
     mi_gen_counts = replicate (length reqs) 0, mi_block_writes = concat (map (\<lambda>d. row_writes st (fst d)) cs),
     mi_prompt_logprobs = (if want then pl else []),
     mi_prompt_targets = (if want then concat (map (chunk_targets st) cs) else []), mi_return_logits = False\<rparr>"
  have pos: "0 < sum_list (map snd cs)" using ne c [of "fst (hd cs)" "snd (hd cs)"] by (cases cs) auto
  then have tne: "want \<Longrightarrow> concat (map (chunk_targets st) cs) \<noteq> []" using lens(2) by (metis list.size(3) less_numeral_extra(3))
  have chk: "input_check m = Inr m"
    using ne lens rows tne plen unfolding input_check_def chunk_lens_def m_def
    by (cases want) (simp_all add: reqs_def)
  have eq: "chunk_work st par kind cs = Inr \<lparr>sw_plan = m, sw_requests = reqs, sw_chunk_requests = map fst cs\<rparr>"
  proof -
    have r: "map (\<lambda>(row, c). fst c) (map (\<lambda>i. (i, cs ! i)) fin) = reqs" by (simp add: reqs_def)
    have f: "map fst (map (\<lambda>i. (i, cs ! i)) fin) = fin" by (simp add: o_def)
    show ?thesis
      unfolding chunk_work_def fin Let_def r f toks pl_def [symmetric] want_def [symmetric] m_def [symmetric] chk by simp
  qed
  have "pass_ok P (map fst cs) \<lparr>sw_plan = m, sw_requests = reqs, sw_chunk_requests = map fst cs\<rparr>"
  proof -
    have z: "concat (map2 (\<lambda>x (a, b). py_slice (tokens (objs P x)) a b) (map fst cs) (zip (map (chunk_start st) cs) (map (chunk_end st) cs))) = ?toks"
      by (rule arg_cong [where f = concat], rule nth_equalityI) (simp_all add: st_def)
    have b: "0 \<le> chunk_start st (cs ! i) \<and> chunk_start st (cs ! i) < chunk_end st (cs ! i) \<and>
        chunk_end st (cs ! i) \<le> int (length (rows_held (request_id (objs P (fst (cs ! i)))) (kv P)) * BLOCK_SIZE)"
      if "i < length cs" for i
      using c [of "fst (cs ! i)" "snd (cs ! i)"] nth_mem [OF that] unfolding chunk_start_def chunk_end_def st_def
      by (simp del: of_nat_mult)
    have "mi_sampled m = filter (\<lambda>i. prefill_done (objs P (map fst cs ! i))) [0..<length (map fst cs)]"
      unfolding m_def model_input.simps fin_def st_def by (rule filter_cong) simp_all
    moreover have "reqs = map ((!) (map fst cs)) fin" by (simp add: reqs_def fin_def)
    ultimately show ?thesis
      using chk z b unfolding pass_ok_def Let_def by (simp add: m_def st_def)
  qed
  then show ?thesis using eq ne by (simp add: st_def pass_rows_def)
qed

lemma mset_map_split: "mset (map f xs) = mset (map f (filter Q xs)) + mset (map f (filter (\<lambda>x. \<not> Q x) xs))"
  by (induction xs) auto

text \<open>Both chunk passes together plan each prefilling request once.\<close>

lemma prefill_work_ok:
  assumes ne: "pre \<noteq> []" and len: "length lens = length pre"
    and c: "\<And>x n. (x, n) \<in> set (zip pre lens) \<Longrightarrow> 0 < n \<and> n \<le> num_computed_tokens (objs P x) \<and>
      num_computed_tokens (objs P x) \<le> prompt_len (objs P x) \<and>
      num_computed_tokens (objs P x) \<le> length (rows_held (request_id (objs P x)) (kv P)) * BLOCK_SIZE"
  shows "\<exists>ws. prefill_work (objs P) par pre lens min_rows = Inr ws \<and> (\<forall>w \<in> set ws. pass_ok P (pass_rows w) w) \<and>
    mset (concat (map pass_rows ws)) = mset pre"
proof -
  let ?ps = "zip pre lens"
  let ?fresh = "filter (\<lambda>(x, n). num_computed_tokens (objs P x) = n) ?ps"
  let ?rest = "filter (\<lambda>(x, n). num_computed_tokens (objs P x) > n) ?ps"
  have "?rest = filter (\<lambda>c. \<not> (case c of (x, n) \<Rightarrow> num_computed_tokens (objs P x) = n)) ?ps"
    using c by (intro filter_cong) force+
  then have "mset (map fst ?ps) = mset (map fst ?fresh) + mset (map fst ?rest)"
    using mset_map_split [of fst ?ps] by metis
  then have split: "mset pre = mset (map fst ?fresh) + mset (map fst ?rest)" using len by simp
  have w: "\<exists>w. chunk_work (objs P) par kind cs = Inr w \<and> pass_ok P (map fst cs) w \<and> pass_rows w = map fst cs"
    if "cs \<noteq> []" "set cs \<subseteq> set ?ps" for cs kind
    by (rule chunk_work_ok [OF that(1)]) (use c that(2) in blast)
  obtain ws where f: "(if ?fresh = [] then Inr [] else rbind (chunk_work (objs P) par PREFILL ?fresh) (\<lambda>w. Inr [w])) = Inr ws"
    "\<forall>w \<in> set ws. pass_ok P (pass_rows w) w" "mset (concat (map pass_rows ws)) = mset (map fst ?fresh)"
  proof (cases "?fresh = []")
    case True
    then show ?thesis using that [of "[]"] by simp
  next
    case False
    then obtain w where "chunk_work (objs P) par PREFILL ?fresh = Inr w" "pass_ok P (map fst ?fresh) w"
      "pass_rows w = map fst ?fresh" using w [OF False, of PREFILL] by auto
    then show ?thesis using that [of "[w]"] False by simp
  qed
  show ?thesis
  proof (cases "?rest = []")
    case True
    then show ?thesis using f len split unfolding prefill_work_def Let_def by (intro exI [of _ ws]) simp
  next
    case False
    let ?kind = "case min_rows of None \<Rightarrow> EXTEND | Some n \<Rightarrow> if sum_list (map snd ?rest) \<ge> n then PREFILL else EXTEND"
    obtain w where "chunk_work (objs P) par ?kind ?rest = Inr w" "pass_ok P (map fst ?rest) w"
      "pass_rows w = map fst ?rest" using w [OF False, of ?kind] by auto
    then show ?thesis
      using f len split False unfolding prefill_work_def Let_def by (intro exI [of _ "ws @ [w]"]) simp
  qed
qed

lemma last_tokens_ok:
  "(\<And>x. x \<in> set xs \<Longrightarrow> output_token_ids (st x) \<noteq> []) \<Longrightarrow>
     last_tokens st xs = Inr (map (\<lambda>x. last (output_token_ids (st x))) xs)"
  by (induction xs) simp_all

lemma decode_work_ok:
  assumes ne: "xs \<noteq> []"
    and c: "\<And>x. x \<in> set xs \<Longrightarrow> output_token_ids (objs P x) \<noteq> [] \<and> prefill_done (objs P x) \<and>
      seq_len (objs P x) \<le> length (rows_held (request_id (objs P x)) (kv P)) * BLOCK_SIZE"
  shows "\<exists>w. decode_work (objs P) par xs False = Inr w \<and> pass_ok P xs w \<and> pass_rows w = xs"
proof -
  define m where "m = \<lparr>mi_kind = DECODE, mi_slots = map (\<lambda>x. slot (objs P x)) xs,
     mi_starts = map (\<lambda>n. n - 1) (map (\<lambda>x. int (seq_len (objs P x))) xs),
     mi_lens = map (\<lambda>x. int (seq_len (objs P x))) xs,
     mi_tokens = map (\<lambda>x. last (output_token_ids (objs P x))) xs,
     mi_sampling = map par xs, mi_sampled = [0..<length xs], mi_gen_counts = map (\<lambda>x. int (length (output_token_ids (objs P x)))) xs,
     mi_block_writes = concat (map (row_writes (objs P)) xs), mi_prompt_logprobs = [], mi_prompt_targets = [],
     mi_return_logits = False\<rparr>"
  have rows: "sum_list (chunk_lens m) = int (length xs)"
    unfolding m_def chunk_lens_def by (induction xs) simp_all
  have chk: "input_check m = Inr m"
    using ne rows unfolding input_check_def by (simp add: m_def)
  have eq: "decode_work (objs P) par xs False = Inr \<lparr>sw_plan = m, sw_requests = xs, sw_chunk_requests = []\<rparr>"
    using last_tokens_ok [of xs "objs P"] c chk by (simp add: decode_work_def Let_def m_def)
  have sl: "py_slice (tokens (objs P x)) (int (seq_len (objs P x)) - 1) (int (seq_len (objs P x))) =
      [last (output_token_ids (objs P x))]" if x: "x \<in> set xs" for x
  proof -
    have o: "output_token_ids (objs P x) \<noteq> []" using c [OF x] by blast
    then have "tokens (objs P x) \<noteq> []" "last (tokens (objs P x)) = last (output_token_ids (objs P x))"
      by (simp_all add: tokens_def)
    moreover have "seq_len (objs P x) = length (tokens (objs P x))" by (simp add: seq_len_def tokens_def)
    ultimately show ?thesis using py_slice_last by metis
  qed
  have z: "concat (map2 (\<lambda>x (a, b). py_slice (tokens (objs P x)) a b) xs (zip (mi_starts m) (mi_lens m))) = mi_tokens m"
  proof -
    have "map2 (\<lambda>x (a, b). py_slice (tokens (objs P x)) a b) xs (zip (mi_starts m) (mi_lens m)) =
        map (\<lambda>x. [last (output_token_ids (objs P x))]) xs"
      by (rule nth_equalityI) (simp_all add: m_def sl)
    then show ?thesis by (simp add: m_def)
  qed
  have b: "0 < seq_len (objs P x) \<and> seq_len (objs P x) \<le> length (rows_held (request_id (objs P x)) (kv P)) * BLOCK_SIZE \<and>
      prefill_done (objs P x)" if "x \<in> set xs" for x
    using c [OF that] by (simp add: seq_len_def)
  have smp: "filter (\<lambda>i. prefill_done (objs P (xs ! i))) [0..<length xs] = [0..<length xs]"
    by (rule filter_True) (simp add: b)
  have "pass_ok P xs \<lparr>sw_plan = m, sw_requests = xs, sw_chunk_requests = []\<rparr>"
    unfolding pass_ok_def Let_def step_work.simps chk smp z
    using b by (simp add: m_def map_nth int_ops(7) [symmetric] del: of_nat_mult)
  then show ?thesis using eq by (simp add: pass_rows_def)
qed

section \<open>A planned step can run\<close>

text \<open>Every running request that has its whole prompt has a token to feed, and the launched-token ledger is not negative, as it is
  between two synchronous steps.\<close>

definition decode_ready :: "planner \<Rightarrow> bool" where
  "decode_ready P \<longleftrightarrow> (\<forall>x \<in> set (running P). prefill_done (objs P x) \<longrightarrow> output_token_ids (objs P x) \<noteq> [] \<and> 0 \<le> pending_tokens (objs P x))"

lemma running_slots:
  assumes "slots_ok P"
  shows "inj_on (\<lambda>x. slot (objs P x)) (set (running P))"
    "x \<in> set (running P) \<Longrightarrow> \<exists>k < num_slots P. slot (objs P x) = Some k"
proof -
  let ?f = "\<lambda>x. the (slot (objs P x))"
  have m: "mset (map ?f (running P)) + mset (free_slots P) = mset [0..<num_slots P]"
    and ne: "\<And>x. x \<in> set (running P) \<Longrightarrow> slot (objs P x) \<noteq> None"
    using assms by (simp_all add: slots_ok_def)
  then have "mset (map ?f (running P) @ free_slots P) = mset [0..<num_slots P]" by simp
  then have p: "distinct (map ?f (running P) @ free_slots P)" "set (map ?f (running P) @ free_slots P) = set [0..<num_slots P]"
    by (metis distinct_upt mset_eq_imp_distinct_iff, metis mset_eq_setD)
  have "inj_on ?f (set (running P))" using p(1) by (simp add: distinct_map)
  then show "inj_on (\<lambda>x. slot (objs P x)) (set (running P))" by (auto simp: inj_on_def)
  assume x: "x \<in> set (running P)"
  then have "?f x \<in> set [0..<num_slots P]" using p(2) by auto
  then show "\<exists>k < num_slots P. slot (objs P x) = Some k" using ne [OF x] by auto
qed

text \<open>What planning gives for the passes.\<close>

lemma plan_decode_rows:
  assumes inv: "planner_inv D P" and ok: "plan_ok P s" and fr: "step_frame P0 [] P (sp_prefill s)" and rd: "decode_ready P0"
    and x: "x \<in> set (sp_decode s)"
  shows "output_token_ids (objs P x) \<noteq> [] \<and> prefill_done (objs P x) \<and>
    seq_len (objs P x) \<le> length (rows_held (request_id (objs P x)) (kv P)) * BLOCK_SIZE"
proof -
  have r: "x \<in> set (running P)" "x \<notin> set (sp_prefill s)" "prefill_done (objs P x)" "decode_covered P x"
    using ok x by (auto simp: plan_ok_def)
  then have o: "x \<in> set (running P0)" "core (objs P x) = core (objs P0 x)"
    "num_computed_tokens (objs P x) = num_computed_tokens (objs P0 x)" "pending_tokens (objs P x) = pending_tokens (objs P0 x)"
    using fr by (auto simp: step_frame_def)
  then have "prefill_done (objs P0 x)" using r(3) core_eq(7) [OF o(2)] by (simp add: prefill_done_def)
  then have "output_token_ids (objs P x) \<noteq> []" "0 \<le> pending_tokens (objs P x)"
    using rd o(1,4) core_eq(3) [OF o(2)] by (auto simp: decode_ready_def)
  moreover have "seq_len (objs P x) \<le> max_seq_len (pconfig P)"
    using wf_req_len queues_okD(5,9) [OF planner_invD(3) [OF inv]] r(1) by blast
  ultimately show ?thesis using r(3,4) by (simp add: decode_covered_def)
qed

lemma step_passes_ok:
  assumes inv: "planner_inv D P" and ok: "plan_ok P s" and fr: "step_frame P0 [] P (sp_prefill s)" and rd: "decode_ready P0"
    and sub: "distinct decode" "set decode \<subseteq> set (sp_decode s)"
  shows "\<exists>works. step_passes (objs P) par min_rows False (sp_prefill s) (sp_chunk_lens s) decode = Inr works \<and>
    (\<forall>w \<in> set works. pass_ok P (pass_rows w) w) \<and> mset (concat (map pass_rows works)) = mset (sp_prefill s @ decode)"
proof -
  let ?pre = "sp_prefill s" and ?lens = "sp_chunk_lens s"
  have l: "list_all2 (\<lambda>x n. n \<le> num_computed_tokens (objs P x)) ?pre ?lens" using ok by (simp add: plan_ok_def)
  have c: "0 < n \<and> n \<le> num_computed_tokens (objs P x) \<and> num_computed_tokens (objs P x) \<le> prompt_len (objs P x) \<and>
      num_computed_tokens (objs P x) \<le> length (rows_held (request_id (objs P x)) (kv P)) * BLOCK_SIZE"
    if xn: "(x, n) \<in> set (zip ?pre ?lens)" for x n
    using ok l set_zip_leftD [OF xn] set_zip_rightD [OF xn] xn unfolding plan_ok_def list_all2_iff by blast
  obtain ws where p: "(if ?pre = [] then Inr [] else prefill_work (objs P) par ?pre ?lens min_rows) = Inr ws"
    "\<forall>w \<in> set ws. pass_ok P (pass_rows w) w" "mset (concat (map pass_rows ws)) = mset ?pre"
  proof (cases "?pre = []")
    case True
    then show ?thesis using that [of "[]"] by simp
  next
    case False
    then show ?thesis using prefill_work_ok [OF False _ c, of ?lens par min_rows] list_all2_lengthD [OF l] that by auto
  qed
  have dec: "output_token_ids (objs P x) \<noteq> [] \<and> prefill_done (objs P x) \<and>
      seq_len (objs P x) \<le> length (rows_held (request_id (objs P x)) (kv P)) * BLOCK_SIZE" if "x \<in> set decode" for x
    using plan_decode_rows [OF inv ok fr rd] sub(2) that by blast
  show ?thesis
  proof (cases "decode = []")
    case True
    then show ?thesis using p by (simp add: step_passes_def)
  next
    case False
    obtain w where "decode_work (objs P) par decode False = Inr w" "pass_ok P decode w" "pass_rows w = decode"
      using decode_work_ok [OF False dec] by blast
    then show ?thesis using p False by (intro exI [of _ "ws @ [w]"]) (simp add: step_passes_def)
  qed
qed

text \<open>C4: every planned step can run. After planning in a reachable state where each decoding request has a token to
  feed, building the passes raises no error, whatever the sampling parameters and the routing threshold: each pass is
  accepted by the checks of \<^verbatim>\<open>ModelInput\<close>, feeds each of its rows exactly the tokens of that request at the cache
  positions it spans, all covered by blocks the request holds, and samples exactly the rows whose prompt is complete; every
  planned request is in exactly one pass, once; and no two rows of the step share a slot.\<close>

theorem step_passes_exact:
  assumes "reachable E P0" "digest8 (digest E)" "decode_ready P0" "plan E P0 = Inr (P, s)"
  shows "\<exists>works. step_passes (objs P) par min_rows False (sp_prefill s) (sp_chunk_lens s) (sp_decode s) = Inr works \<and>
    (\<forall>w \<in> set works. pass_ok P (pass_rows w) w) \<and>
    mset (concat (map pass_rows works)) = mset (sp_prefill s @ sp_decode s) \<and>
    distinct (concat (map (\<lambda>w. mi_slots (sw_plan w)) works)) \<and>
    (\<forall>w \<in> set works. \<forall>sl \<in> set (mi_slots (sw_plan w)). \<exists>k < num_slots P. sl = Some k)"
proof -
  have inv: "planner_inv (digest E) P" and ok: "plan_ok P s" and fr: "step_frame P0 [] P (sp_prefill s)"
    using plan_total [OF reachable_inv [OF assms(1,2)] assms(2)] assms(4) by auto
  have dp: "distinct (sp_prefill s @ sp_decode s)" "set (sp_prefill s @ sp_decode s) \<subseteq> set (running P)"
    using ok by (simp_all add: plan_ok_def)
  obtain works where w: "step_passes (objs P) par min_rows False (sp_prefill s) (sp_chunk_lens s) (sp_decode s) = Inr works"
    "\<forall>w \<in> set works. pass_ok P (pass_rows w) w" "mset (concat (map pass_rows works)) = mset (sp_prefill s @ sp_decode s)"
    using step_passes_ok [OF inv ok fr assms(3), of "sp_decode s" par min_rows] dp(1) by auto
  let ?xs = "concat (map pass_rows works)"
  have xs: "distinct ?xs" "set ?xs \<subseteq> set (running P)"
    using w(3) dp by (metis mset_eq_imp_distinct_iff, metis mset_eq_setD)
  have sl: "concat (map (\<lambda>w. mi_slots (sw_plan w)) works) = map (\<lambda>x. slot (objs P x)) ?xs"
    using w(2) by (simp add: map_concat o_def pass_ok_def Let_def cong: map_cong)
  note rs = running_slots [OF planner_invD(2) [OF inv]]
  have "distinct (map (\<lambda>x. slot (objs P x)) ?xs)"
    using xs inj_on_subset [OF rs(1) xs(2)] by (simp only: distinct_map)
  moreover have "\<exists>k < num_slots P. sl = Some k" if "w \<in> set works" "sl \<in> set (mi_slots (sw_plan w))" for w sl
    using that w(2) xs(2) rs(2) by (fastforce simp: pass_ok_def Let_def)
  ultimately show ?thesis using w sl by (intro exI [of _ works]) simp
qed

theorem step_passes_exact_witness:
  "\<exists>P0 P s works. demo_run = Inr P0 \<and> plan demo_env (emit 0 9 P0) = Inr (P, s) \<and> sp_decode s = [0] \<and>
     step_passes (objs P) (\<lambda>_. default_params) None False (sp_prefill s) (sp_chunk_lens s) (sp_decode s) = Inr works \<and>
     (\<forall>w \<in> set works. pass_ok P (pass_rows w) w)"
proof -
  obtain P0 where P0: "demo_run = Inr P0" "reachable demo_env P0" "running P0 = [0]" by (rule demo_state)
  have "case demo_run of Inr P \<Rightarrow> prefill_done (objs P 0) \<and> has_room (objs P 0) \<and> pending_tokens (objs P 0) = 0 \<and>
      (case plan demo_env (emit 0 9 P) of Inr (P', s) \<Rightarrow> sp_decode s = [0] | Inl e \<Rightarrow> False) | Inl e \<Rightarrow> False" by code_simp
  then obtain P s where c: "prefill_done (objs P0 0)" "has_room (objs P0 0)" "plan demo_env (emit 0 9 P0) = Inr (P, s)"
    "sp_decode s = [0]" "pending_tokens (objs P0 0) = 0" unfolding P0(1) by (auto split: sum.splits)
  have r: "reachable demo_env (emit 0 9 P0)" by (rule reachable.step [OF P0(2) pstep.emit]) (use P0(3) c in simp_all)
  have "decode_ready (emit 0 9 P0)" using P0(3) c(5) by (simp add: decode_ready_def emit_def)
  from step_passes_exact [OF r demo_digest this c(3)] show ?thesis using P0(1) c(3,4) by blast
qed

end
