(* ===== verification/Ngram_Proposer.thy ===== *)
theory Ngram_Proposer
  imports RL_Prelude
begin

text \<open>
  The draft proposer of speculative decoding (\<^verbatim>\<open>src/rapid_llm/engine/ngram_proposer.py\<close>): it looks for an earlier occurrence
  of the last tokens of the history, longest pattern first and most recent occurrence first, and proposes the tokens
  that followed it. Both loops run over the lists of their indices.
\<close>

section \<open>The proposer\<close>

text \<open>\<^verbatim>\<open>range(hi, lo, -1)\<close>.\<close>

definition down_range :: "int \<Rightarrow> int \<Rightarrow> int list" where
  "down_range hi lo = rev [lo + 1..hi]"

record ngram_proposer =
  max_ngram_size :: int
  max_draft :: int

primrec find_start :: "int list \<Rightarrow> int \<Rightarrow> int list \<Rightarrow> int option" where
  "find_start token_ids gram [] = None"
| "find_start token_ids gram (start # starts) =
     (if py_slice token_ids start (start + gram) = py_slice token_ids (int (length token_ids) - gram) (int (length token_ids))
      then Some start else find_start token_ids gram starts)"

primrec propose_grams :: "int \<Rightarrow> int list \<Rightarrow> int list \<Rightarrow> int list" where
  "propose_grams draft token_ids [] = []"
| "propose_grams draft token_ids (gram # grams) =
     (case find_start token_ids gram (down_range (int (length token_ids) - gram - 1) (-1)) of
        None \<Rightarrow> propose_grams draft token_ids grams
      | Some start \<Rightarrow>
          let remaining = py_slice token_ids (start + gram) (start + gram + draft)
          in if remaining \<noteq> [] then remaining else propose_grams draft token_ids grams)"

definition propose :: "ngram_proposer \<Rightarrow> int list \<Rightarrow> int list" where
  "propose p token_ids =
     (let n = int (length token_ids)
      in if n < 2 then []
         else propose_grams (max_draft p) token_ids (down_range (min (max_ngram_size p) (n - 1)) 1))"

section \<open>What it finds\<close>

text \<open>The last \<open>g\<close> tokens also occur at \<open>s\<close>, before the end.\<close>

definition earlier_match :: "int list \<Rightarrow> nat \<Rightarrow> nat \<Rightarrow> bool" where
  "earlier_match ts g s \<longleftrightarrow> s + g < length ts \<and> take g (drop s ts) = drop (length ts - g) ts"

lemma down_range_simps: "down_range hi lo = (if lo < hi then hi # down_range (hi - 1) lo else [])"
  by (simp add: down_range_def upto_rec2)

lemma set_down_range [simp]: "set (down_range hi lo) = {lo<..hi}"
  by (auto simp: down_range_def)

lemma find_start_none:
  "find_start ts g starts = None \<longleftrightarrow>
   (\<forall>s \<in> set starts. py_slice ts s (s + g) \<noteq> py_slice ts (int (length ts) - g) (int (length ts)))"
  by (induction starts) auto

lemma find_start_some:
  assumes "find_start ts g (down_range hi (-1)) = Some s"
  shows "0 \<le> s \<and> s \<le> hi \<and> py_slice ts s (s + g) = py_slice ts (int (length ts) - g) (int (length ts)) \<and>
    (\<forall>t. s < t \<and> t \<le> hi \<longrightarrow> py_slice ts t (t + g) \<noteq> py_slice ts (int (length ts) - g) (int (length ts)))"
  using assms
proof (induction "nat (hi + 1)" arbitrary: hi)
  case 0
  then show ?case by (simp add: down_range_simps [of hi])
next
  case (Suc n)
  then have hi: "-1 < hi" by simp
  show ?case
  proof (cases "py_slice ts hi (hi + g) = py_slice ts (int (length ts) - g) (int (length ts))")
    case True
    then have "hi = s" using Suc.prems hi by (simp add: down_range_simps [of hi])
    then show ?thesis using True hi by auto
  next
    case False
    then have found: "find_start ts g (down_range (hi - 1) (-1)) = Some s"
      using Suc.prems hi by (simp add: down_range_simps [of hi])
    have "n = nat (hi - 1 + 1)" using Suc.hyps(2) by simp
    from Suc.hyps(1) [OF this found] have IH: "0 \<le> s \<and> s \<le> hi - 1 \<and> py_slice ts s (s + g) = py_slice ts (int (length ts) - g) (int (length ts)) \<and>
      (\<forall>t. s < t \<and> t \<le> hi - 1 \<longrightarrow> py_slice ts t (t + g) \<noteq> py_slice ts (int (length ts) - g) (int (length ts)))" .
    have "t = hi \<or> t \<le> hi - 1" if "t \<le> hi" for t using that by linarith
    then show ?thesis using IH False by auto
  qed
qed

lemma match_slices:
  assumes "g < length ts" "s + g < length ts"
  shows "(py_slice ts (int s) (int s + int g) = py_slice ts (int (length ts) - int g) (int (length ts))) \<longleftrightarrow> earlier_match ts g s"
proof -
  have "py_slice ts (int s) (int s + int g) = take g (drop s ts)"
    using assms(2) by (subst py_slice_window) simp_all
  moreover have "py_slice ts (int (length ts) - int g) (int (length ts)) = drop (length ts - g) ts"
    using py_slice_nat [of "length ts - g" "length ts" ts] assms(1) by (simp add: of_nat_diff)
  ultimately show ?thesis using assms(2) by (simp add: earlier_match_def)
qed

text \<open>One pattern length: the most recent earlier occurrence.\<close>

lemma find_start_match:
  assumes "g < length ts"
  shows "case find_start ts (int g) (down_range (int (length ts) - int g - 1) (-1)) of
      None \<Rightarrow> \<forall>s. \<not> earlier_match ts g s
    | Some i \<Rightarrow> \<exists>s. i = int s \<and> earlier_match ts g s \<and> (\<forall>t. earlier_match ts g t \<longrightarrow> t \<le> s)"
proof (cases "find_start ts (int g) (down_range (int (length ts) - int g - 1) (-1))")
  case None
  have "\<not> earlier_match ts g s" for s
  proof
    assume m: "earlier_match ts g s"
    then have "s + g < length ts" by (simp add: earlier_match_def)
    then have "int s \<in> set (down_range (int (length ts) - int g - 1) (-1))" by simp
    with None have "py_slice ts (int s) (int s + int g) \<noteq> py_slice ts (int (length ts) - int g) (int (length ts))"
      unfolding find_start_none by blast
    then show False using match_slices [OF assms \<open>s + g < length ts\<close>] m by simp
  qed
  then show ?thesis by (simp add: None)
next
  case (Some i)
  note f = find_start_some [OF Some]
  obtain s where s: "i = int s" using f nonneg_int_cases by blast
  have l: "s + g < length ts" using f s by linarith
  have "earlier_match ts g s" using f match_slices [OF assms l] by (simp add: s)
  moreover have "t \<le> s" if "earlier_match ts g t" for t
  proof (rule ccontr)
    assume "\<not> t \<le> s"
    moreover have tl: "t + g < length ts" using that by (simp add: earlier_match_def)
    moreover have "int t \<le> int (length ts) - int g - 1" using tl by linarith
    ultimately have "py_slice ts (int t) (int t + int g) \<noteq> py_slice ts (int (length ts) - int g) (int (length ts))"
      using f by (simp add: s)
    then show False using match_slices [OF assms tl] that by simp
  qed
  ultimately show ?thesis by (auto simp: Some s)
qed

text \<open>All pattern lengths, longest first.\<close>

lemma propose_grams_match:
  assumes "hi < int (length ts)" "1 \<le> d"
  shows "(\<exists>g s. 2 \<le> g \<and> int g \<le> hi \<and> earlier_match ts g s \<and>
      (\<forall>g' s'. 2 \<le> g' \<and> int g' \<le> hi \<and> earlier_match ts g' s' \<longrightarrow> g' < g \<or> g' = g \<and> s' \<le> s) \<and>
      propose_grams d ts (down_range hi 1) = take (nat d) (drop (s + g) ts)) \<or>
    (\<forall>g s. 2 \<le> g \<and> int g \<le> hi \<longrightarrow> \<not> earlier_match ts g s) \<and> propose_grams d ts (down_range hi 1) = []"
  using assms(1)
proof (induction "nat (hi - 1)" arbitrary: hi)
  case 0
  then have "\<not> (2 \<le> g \<and> int g \<le> hi)" for g by linarith
  moreover have "down_range hi 1 = []" using 0 by (simp add: down_range_simps [of hi])
  ultimately show ?case by (intro disjI2) auto
next
  case (Suc n)
  then have hi: "1 < hi" by simp
  then obtain g where "hi = int g" using nonneg_int_cases [of hi] by auto
  with hi have g: "hi = int g" "2 \<le> g" by simp_all
  have len: "g < length ts" using Suc.prems g by simp
  have unfold: "down_range hi 1 = int g # down_range (hi - 1) 1"
    using hi by (subst down_range_simps) (simp add: g(1))
  show ?case
  proof (cases "find_start ts (int g) (down_range (int (length ts) - int g - 1) (-1))")
    case None
    have no: "\<not> earlier_match ts g s" for s using find_start_match [OF len] None by simp
    have split: "int g' \<le> hi \<longleftrightarrow> g' = g \<or> int g' \<le> hi - 1" for g' using g(1) by auto
    have same: "propose_grams d ts (down_range hi 1) = propose_grams d ts (down_range (hi - 1) 1)"
      unfolding unfold by (simp add: None)
    have "n = nat (hi - 1 - 1)" "hi - 1 < int (length ts)" using Suc.hyps(2) Suc.prems by simp_all
    from Suc.hyps(1) [OF this] show ?thesis
      unfolding same split using no by blast
  next
    case (Some i)
    then obtain s where s: "i = int s" "earlier_match ts g s" "\<forall>t. earlier_match ts g t \<longrightarrow> t \<le> s"
      using find_start_match [OF len] by auto
    have l: "s + g < length ts" using s(2) by (simp add: earlier_match_def)
    have r: "py_slice ts (i + int g) (i + int g + d) = take (nat d) (drop (s + g) ts)"
      using py_slice_window [of "s + g" ts d] l assms(2) by (simp add: s(1))
    have "take (nat d) (drop (s + g) ts) \<noteq> []" using l assms(2) by simp
    then have "propose_grams d ts (down_range hi 1) = take (nat d) (drop (s + g) ts)"
      unfolding unfold by (simp add: Some r Let_def)
    moreover have "g' < g \<or> g' = g \<and> s' \<le> s" if "int g' \<le> hi" "earlier_match ts g' s'" for g' s'
      using that s(3) g(1) by (cases "g' = g") auto
    ultimately show ?thesis using s(2) g by blast
  qed
qed

section \<open>Properties\<close>

text \<open>C30: what is proposed. With a positive draft limit the proposer returns the tokens that follow the most recent earlier
  occurrence of the longest suffix, of at least two and at most \<^verbatim>\<open>max_ngram_size\<close> tokens, that occurs earlier, cut to
  the limit and never empty; it returns nothing exactly when no such suffix occurs earlier.\<close>

theorem propose_exact:
  assumes "1 \<le> max_draft p"
  shows "(\<exists>g s. 2 \<le> g \<and> int g \<le> max_ngram_size p \<and> earlier_match ts g s \<and>
      (\<forall>g' s'. 2 \<le> g' \<and> int g' \<le> max_ngram_size p \<and> earlier_match ts g' s' \<longrightarrow> g' < g \<or> g' = g \<and> s' \<le> s) \<and>
      propose p ts = take (nat (max_draft p)) (drop (s + g) ts) \<and> propose p ts \<noteq> []) \<or>
    (\<forall>g s. 2 \<le> g \<and> int g \<le> max_ngram_size p \<longrightarrow> \<not> earlier_match ts g s) \<and> propose p ts = []"
proof (cases "length ts < 2")
  case True
  then have "\<not> earlier_match ts g s" if "2 \<le> g" for g s using that by (simp add: earlier_match_def)
  then show ?thesis using True by (auto simp: propose_def)
next
  case False
  let ?hi = "min (max_ngram_size p) (int (length ts) - 1)"
  have eq: "propose p ts = propose_grams (max_draft p) ts (down_range ?hi 1)"
    using False by (simp add: propose_def)
  have le: "int g \<le> ?hi \<longleftrightarrow> int g \<le> max_ngram_size p" if "earlier_match ts g s" for g s
    using that by (auto simp: earlier_match_def)
  have ne: "take (nat (max_draft p)) (drop (s + g) ts) \<noteq> []" if "earlier_match ts g s" for g s
    using that assms by (simp add: earlier_match_def)
  show ?thesis unfolding eq
    using propose_grams_match [of ?hi ts "max_draft p", OF _ assms] le ne by (metis min_less_iff_disj less_add_one diff_less_eq)
qed

theorem propose_exact_witness:
  "propose \<lparr>max_ngram_size = 5, max_draft = 2\<rparr> [1, 2, 9, 1, 2, 7, 8, 1, 2] = [7, 8] \<and>
   (\<exists>g s. 2 \<le> g \<and> earlier_match [1, 2, 9, 1, 2, 7, 8, 1, 2] g s)"
proof -
  have "propose \<lparr>max_ngram_size = 5, max_draft = 2\<rparr> [1, 2, 9, 1, 2, 7, 8, 1, 2] = [7, 8]" by code_simp
  then show ?thesis
    using propose_exact [of "\<lparr>max_ngram_size = 5, max_draft = 2\<rparr>" "[1, 2, 9, 1, 2, 7, 8, 1, 2]"] by auto
qed

end
