(* ===== verification/Streaming_Text.thy ===== *)
theory Streaming_Text
  imports RL_Prelude "HOL-Library.Sublist"
begin

text \<open>
  Text as the streaming parsers see it: a Python \<^verbatim>\<open>str\<close> is a list of code points (integers, as Python gives them). The theory models the
  string methods the parsers use (\<^verbatim>\<open>find\<close>, \<^verbatim>\<open>startswith\<close>, slicing) and \<^verbatim>\<open>_partial_suffix\<close> of
  \<^verbatim>\<open>src/rapid_llm/engine/reasoning.py\<close>, the suffix window every parser holds text back with. Its
  central fact, \<open>hold_find\<close>, is that searching a tag in the held suffix plus the next chunk finds exactly
  what a search of the whole text would have found.

  The locale \<open>chunked\<close> states the contract of a streaming machine (feeding two chunks is feeding their
  concatenation) and proves once that then any chunking gives the result of a single call.
\<close>

type_synonym utext = "int list"

definition chars :: "string \<Rightarrow> utext" where
  "chars s = map of_char s"

section \<open>Searching\<close>

text \<open>\<^verbatim>\<open>text.find(tag)\<close>: the first position, \<open>None\<close> for -1.\<close>

primrec find_from :: "nat \<Rightarrow> utext \<Rightarrow> utext \<Rightarrow> nat option" where
  "find_from i tag [] = (if tag = [] then Some i else None)"
| "find_from i tag (c # cs) = (if prefix tag (c # cs) then Some i else find_from (Suc i) tag cs)"

definition str_find :: "utext \<Rightarrow> utext \<Rightarrow> nat option" where
  "str_find tag xs = find_from 0 tag xs"

definition occurs_at :: "utext \<Rightarrow> utext \<Rightarrow> nat \<Rightarrow> bool" where
  "occurs_at tag xs i \<longleftrightarrow> i \<le> length xs \<and> prefix tag (drop i xs)"

lemma find_from_shift: "find_from i tag xs = map_option (\<lambda>j. i + j) (find_from 0 tag xs)"
proof (induction xs arbitrary: i)
  case (Cons c cs)
  have "find_from (Suc i) tag cs = map_option (\<lambda>j. i + j) (find_from (Suc 0) tag cs)"
    unfolding Cons.IH [of "Suc i"] Cons.IH [of "Suc 0"] by (cases "find_from 0 tag cs") simp_all
  then show ?case by simp
qed simp

lemma find_Cons:
  "str_find tag (c # cs) = (if prefix tag (c # cs) then Some 0 else map_option Suc (str_find tag cs))"
  using find_from_shift [of "Suc 0" tag cs] by (simp add: str_find_def)

lemma find_Nil: "str_find tag [] = (if tag = [] then Some 0 else None)"
  by (simp add: str_find_def)

text \<open>\<open>find\<close> answers the least occurrence.\<close>

lemma find_Some:
  "str_find tag xs = Some i \<longleftrightarrow> occurs_at tag xs i \<and> (\<forall>j < i. \<not> occurs_at tag xs j)"
proof (induction xs arbitrary: i)
  case Nil
  then show ?case by (auto simp: find_Nil occurs_at_def)
next
  case (Cons c cs)
  have sh: "occurs_at tag (c # cs) (Suc j) = occurs_at tag cs j" for j by (simp add: occurs_at_def)
  have z: "occurs_at tag (c # cs) 0 = prefix tag (c # cs)" by (simp add: occurs_at_def)
  show ?case
  proof (cases i)
    case 0
    then show ?thesis using z by (auto simp: find_Cons)
  next
    case (Suc k)
    have "(\<forall>j < Suc k. \<not> occurs_at tag (c # cs) j) \<longleftrightarrow> \<not> prefix tag (c # cs) \<and> (\<forall>j < k. \<not> occurs_at tag cs j)"
      unfolding less_Suc_eq_0_disj using z sh by auto
    then show ?thesis using Suc sh Cons.IH [of k] by (auto simp: find_Cons)
  qed
qed

lemma find_None: "str_find tag xs = None \<longleftrightarrow> (\<forall>i. \<not> occurs_at tag xs i)"
proof
  assume n: "str_find tag xs = None"
  show "\<forall>i. \<not> occurs_at tag xs i"
  proof (rule ccontr)
    assume "\<not> ?thesis"
    then obtain i where "occurs_at tag xs i" by blast
    then have "occurs_at tag xs (LEAST i. occurs_at tag xs i)" by (rule LeastI)
    moreover have "\<forall>j < (LEAST i. occurs_at tag xs i). \<not> occurs_at tag xs j" using not_less_Least by blast
    ultimately have "str_find tag xs = Some (LEAST i. occurs_at tag xs i)" using find_Some by blast
    then show False using n by simp
  qed
next
  assume "\<forall>i. \<not> occurs_at tag xs i"
  then show "str_find tag xs = None" using find_Some by (metis option.exhaust)
qed

lemma occurs_bound: "occurs_at tag xs i \<Longrightarrow> i + length tag \<le> length xs"
  unfolding occurs_at_def by (metis add.commute le_diff_conv2 length_drop prefix_length_le)

section \<open>The suffix window\<close>

text \<open>\<^verbatim>\<open>_partial_suffix\<close>: try the lengths from the longest candidate down.\<close>

primrec partial_len :: "nat \<Rightarrow> utext \<Rightarrow> utext \<Rightarrow> nat" where
  "partial_len 0 xs tag = 0"
| "partial_len (Suc n) xs tag = (if suffix (take (Suc n) tag) xs then Suc n else partial_len n xs tag)"

definition partial_suffix :: "utext \<Rightarrow> utext \<Rightarrow> utext" where
  "partial_suffix xs tag =
     (let n = partial_len (min (length xs) (length tag - 1)) xs tag in drop (length xs - n) xs)"

lemma partial_len_props:
  "partial_len n xs tag \<le> n"
  "n < length tag \<Longrightarrow> suffix (take (partial_len n xs tag) tag) xs"
  "m \<le> n \<Longrightarrow> suffix (take m tag) xs \<Longrightarrow> m \<le> partial_len n xs tag"
proof (induction n)
  case (Suc n)
  { case 1 then show ?case using Suc.IH(1) by (simp add: le_SucI)
  next
    case 2 then show ?case using Suc.IH(2) by simp
  next
    case 3 then show ?case using Suc.IH(3) by (cases "m = Suc n") auto }
qed simp_all

lemma partial_suffix_facts:
  assumes "tag \<noteq> []"
  shows "suffix (partial_suffix xs tag) xs" "prefix (partial_suffix xs tag) tag"
    "length (partial_suffix xs tag) < length tag"
    "suffix s xs \<Longrightarrow> prefix s tag \<Longrightarrow> length s < length tag \<Longrightarrow> length s \<le> length (partial_suffix xs tag)"
proof -
  let ?N = "min (length xs) (length tag - 1)"
  let ?n = "partial_len ?N xs tag"
  have N: "?N < length tag" using assms by (cases tag) auto
  note p = partial_len_props [where n = ?N and xs = xs and tag = tag]
  have n: "?n \<le> length xs" "?n < length tag" using p(1) N by linarith+
  have len: "length (partial_suffix xs tag) = ?n" using n(1) by (simp add: partial_suffix_def Let_def)
  show "suffix (partial_suffix xs tag) xs" by (simp add: partial_suffix_def Let_def suffix_drop)
  have "suffix (take ?n tag) xs" by (rule p(2) [OF N])
  then obtain zs where zs: "xs = zs @ take ?n tag" by (auto simp: suffix_def)
  have "length xs - ?n = length zs" using arg_cong [OF zs, of length] n(2) by simp
  then have "drop (length xs - ?n) xs = take ?n tag" by (subst (2) zs) simp
  then have "partial_suffix xs tag = take ?n tag" by (simp add: partial_suffix_def Let_def)
  then show "prefix (partial_suffix xs tag) tag" by (simp add: take_is_prefix)
  show "length (partial_suffix xs tag) < length tag" using len n(2) by simp
  assume s: "suffix s xs" "prefix s tag" "length s < length tag"
  then have "s = take (length s) tag" by (auto simp: prefix_def)
  moreover have "length s \<le> ?N" using suffix_length_le [OF s(1)] s(3) by simp
  ultimately show "length s \<le> length (partial_suffix xs tag)"
    unfolding len using p(3) [of "length s"] s(1) by metis
qed

text \<open>
  Holding back is exact. When \<open>a\<close> has no occurrence of the tag, an occurrence in \<open>a @ b\<close> starts inside
  the held suffix or after it, so searching the held suffix plus \<open>b\<close> misses nothing.
\<close>

lemma hold_find:
  assumes tag: "tag \<noteq> []" and none: "str_find tag a = None"
  defines "h \<equiv> partial_suffix a tag"
  shows "str_find tag (a @ b) = map_option (\<lambda>j. (length a - length h) + j) (str_find tag (h @ b))"
proof -
  note pf = partial_suffix_facts [OF tag, where xs = a, folded h_def]
  let ?k = "length a - length h"
  have ah: "a = take ?k a @ h" using pf(1) by (auto simp: suffix_def)
  have lh: "length h \<le> length a" using pf(1) by (rule suffix_length_le)
  have early: "\<not> occurs_at tag (a @ b) i" if i: "i < ?k" for i
  proof
    assume o: "occurs_at tag (a @ b) i"
    have il: "i < length a" using i by linarith
    have pre: "prefix tag (drop i a @ b)" using o il by (simp add: occurs_at_def)
    show False
    proof (cases "length tag \<le> length (drop i a)")
      case True
      then have "prefix tag (drop i a)" using pre by (metis prefix_length_prefix prefixI)
      then have "occurs_at tag a i" using il by (simp add: occurs_at_def)
      then show False using none find_None by blast
    next
      case False
      then have "prefix (drop i a) tag" using pre by (metis linear prefix_length_prefix prefixI)
      then have "length (drop i a) \<le> length h"
        using pf(4) [OF suffix_drop] False by simp
      then show False using i by simp
    qed
  qed
  have shift: "occurs_at tag (a @ b) (?k + j) \<longleftrightarrow> occurs_at tag (h @ b) j" for j
  proof -
    have "drop (?k + j) (a @ b) = drop j (h @ b)"
      by (subst ah) (simp add: add.commute)
    moreover have "?k + j \<le> length (a @ b) \<longleftrightarrow> j \<le> length (h @ b)" using lh by auto
    ultimately show ?thesis by (simp only: occurs_at_def)
  qed
  show ?thesis
  proof (cases "str_find tag (h @ b)")
    case None
    then have "\<not> occurs_at tag (a @ b) i" for i
      using early [of i] shift [of "i - ?k"] find_None [of tag "h @ b"] by (cases "i < ?k") auto
    then show ?thesis using None find_None by (metis option.map_disc_iff)
  next
    case (Some j)
    have "occurs_at tag (a @ b) (?k + j)" using shift Some find_Some by blast
    moreover have "\<not> occurs_at tag (a @ b) i" if "i < ?k + j" for i
      using early [of i] shift [of "i - ?k"] Some find_Some [of tag "h @ b" j] that by (cases "i < ?k") auto
    ultimately have "str_find tag (a @ b) = Some (?k + j)" using find_Some [of tag "a @ b" "?k + j"] by blast
    then show ?thesis using Some by simp
  qed
qed

lemma append_overlap: "a @ b = u @ s \<Longrightarrow> \<not> length s \<le> length b \<Longrightarrow> \<exists>w. s = w @ b \<and> a = u @ w"
  by (auto simp: append_eq_append_conv2)

text \<open>And when nothing is found in the longer text either, the same suffix is held.\<close>

lemma hold_hold:
  assumes tag: "tag \<noteq> []" and none: "str_find tag (a @ b) = None"
  shows "partial_suffix (partial_suffix a tag @ b) tag = partial_suffix (a @ b) tag"
proof -
  let ?h = "partial_suffix a tag"
  note pa = partial_suffix_facts [OF tag] 
  have "str_find tag a = None"
  proof -
    have "\<not> occurs_at tag a i" for i
    proof
      assume "occurs_at tag a i"
      then have "occurs_at tag (a @ b) i" by (auto simp: occurs_at_def intro: prefix_prefix)
      then show False using none find_None by blast
    qed
    then show ?thesis using find_None by blast
  qed
  have suf: "suffix (?h @ b) (a @ b)" using pa(1) [of a] by (auto simp: suffix_def)
  let ?s = "partial_suffix (a @ b) tag" and ?t = "partial_suffix (?h @ b) tag"
  have "suffix ?s (?h @ b)"
  proof (cases "length ?s \<le> length b")
    case True
    then have "suffix ?s b" using pa(1) [of "a @ b"] by (metis suffix_length_suffix suffixI)
    then show ?thesis by (simp add: suffix_append)
  next
    case False
    obtain u where u: "a @ b = u @ ?s" using pa(1) [of "a @ b"] by (auto simp: suffix_def)
    obtain w where w: "?s = w @ b" "a = u @ w" using append_overlap [OF u False] by blast
    have "prefix w tag" using pa(2) [of "a @ b"] w(1) by (metis append_prefixD)
    moreover have "length w < length tag" using pa(3) [of "a @ b"] w(1) by simp
    ultimately have "length w \<le> length ?h" using pa(4) [of w a] w(2) by (simp add: suffixI)
    then have "suffix w ?h" by (rule suffix_length_suffix [OF suffixI [OF w(2)] pa(1)])
    then obtain v where "?h = v @ w" by (auto simp: suffix_def)
    then show ?thesis using w(1) by (simp add: suffix_def)
  qed
  then have "length ?s \<le> length ?t" by (rule pa(4) [OF _ pa(2,3)])
  moreover have "suffix ?t (a @ b)" using pa(1) suf by (rule suffix_order.trans)
  then have "length ?t \<le> length ?s" by (rule pa(4) [OF _ pa(2,3)])
  ultimately have "length ?s = length ?t" by simp
  then have "suffix ?s ?t" using suffix_length_suffix [OF pa(1) [of "a @ b"] \<open>suffix ?t (a @ b)\<close>] by simp
  then show ?thesis using \<open>length ?s = length ?t\<close> by (auto simp: suffix_def)
qed

lemma suffix_all: "suffix t s \<Longrightarrow> length s \<le> length t \<Longrightarrow> t = s"
  by (auto simp: suffix_def)

lemma held_stable:
  assumes "tag \<noteq> []"
  shows "str_find tag (partial_suffix xs tag) = None" "partial_suffix (partial_suffix xs tag) tag = partial_suffix xs tag"
proof -
  note p = partial_suffix_facts [OF assms]
  show "str_find tag (partial_suffix xs tag) = None"
    unfolding find_None using occurs_bound [of tag "partial_suffix xs tag"] p(3) [of xs] by fastforce
  have "length (partial_suffix xs tag) \<le> length (partial_suffix (partial_suffix xs tag) tag)"
    by (rule p(4) [OF _ p(2,3)]) simp
  then show "partial_suffix (partial_suffix xs tag) tag = partial_suffix xs tag"
    by (rule suffix_all [OF p(1)])
qed

text \<open>
  What a parser does with a searched chunk, and how it composes: everything before the tag, or before the
  held suffix, is settled by the first chunk; the rest is decided by the held suffix and what follows.
\<close>

lemma scan_found:
  assumes "str_find tag a = Some i"
  shows "str_find tag (a @ b) = Some i" "take i (a @ b) = take i a"
    "drop (i + length tag) (a @ b) = drop (i + length tag) a @ b"
proof -
  have o: "occurs_at tag a i" "\<forall>j < i. \<not> occurs_at tag a j" using assms find_Some by blast+
  have il: "i + length tag \<le> length a" by (rule occurs_bound [OF o(1)])
  have "occurs_at tag (a @ b) i" using o(1) by (auto simp: occurs_at_def intro: prefix_prefix)
  moreover have "\<not> occurs_at tag (a @ b) j" if j: "j < i" for j
  proof
    assume "occurs_at tag (a @ b) j"
    then have "prefix tag (drop j a @ b)" using j il by (simp add: occurs_at_def)
    moreover have "length tag \<le> length (drop j a)" using j il by simp
    ultimately have "prefix tag (drop j a)" by (metis prefix_length_prefix prefixI)
    then show False using o(2) j il by (simp add: occurs_at_def)
  qed
  ultimately show "str_find tag (a @ b) = Some i" using find_Some by blast
  show "take i (a @ b) = take i a" "drop (i + length tag) (a @ b) = drop (i + length tag) a @ b" using il by simp_all
qed

lemma hold_split:
  assumes "tag \<noteq> []"
  obtains u where "xs = u @ partial_suffix xs tag" "take (length xs - length (partial_suffix xs tag)) xs = u"
proof -
  obtain u where u: "xs = u @ partial_suffix xs tag"
    using partial_suffix_facts(1) [OF assms, of xs] by (auto simp: suffix_def)
  have "take (length xs - length (partial_suffix xs tag)) xs = u"
  proof -
    have "length xs - length (partial_suffix xs tag) = length u" using arg_cong [OF u, of length] by simp
    then show ?thesis by (subst (3) u) simp
  qed
  then show ?thesis using that u by blast
qed

lemma scan_later:
  assumes tag: "tag \<noteq> []" and n: "str_find tag a = None" and f: "str_find tag (partial_suffix a tag @ b) = Some j"
    and u: "a = u @ partial_suffix a tag"
  shows "str_find tag (a @ b) = Some (length u + j)" "take (length u + j) (a @ b) = u @ take j (partial_suffix a tag @ b)"
    "drop (length u + j + length tag) (a @ b) = drop (j + length tag) (partial_suffix a tag @ b)"
proof -
  have k: "length a - length (partial_suffix a tag) = length u" using arg_cong [OF u, of length] by simp
  show "str_find tag (a @ b) = Some (length u + j)" using hold_find [OF tag n, of b] f k by simp
  have ab: "a @ b = u @ (partial_suffix a tag @ b)" using u by (metis append.assoc)
  show "take (length u + j) (a @ b) = u @ take j (partial_suffix a tag @ b)"
    "drop (length u + j + length tag) (a @ b) = drop (j + length tag) (partial_suffix a tag @ b)"
    unfolding ab by simp_all
qed

lemma scan_never:
  assumes tag: "tag \<noteq> []" and n: "str_find tag a = None" and f: "str_find tag (partial_suffix a tag @ b) = None"
    and u: "a = u @ partial_suffix a tag"
  shows "str_find tag (a @ b) = None" "partial_suffix (a @ b) tag = partial_suffix (partial_suffix a tag @ b) tag"
    "take (length (a @ b) - length (partial_suffix (a @ b) tag)) (a @ b) =
       u @ take (length (partial_suffix a tag @ b) - length (partial_suffix (partial_suffix a tag @ b) tag))
             (partial_suffix a tag @ b)"
proof -
  let ?h = "partial_suffix a tag" and ?h' = "partial_suffix (partial_suffix a tag @ b) tag"
  show none: "str_find tag (a @ b) = None" using hold_find [OF tag n, of b] f by simp
  show hh: "partial_suffix (a @ b) tag = ?h'" using hold_hold [OF tag none] by simp
  obtain v where v: "?h @ b = v @ ?h'" "take (length (?h @ b) - length ?h') (?h @ b) = v"
    by (rule hold_split [OF tag, of "?h @ b"]) (rule that)
  have ab: "a @ b = (u @ v) @ ?h'" using u v(1) by (metis append.assoc)
  have "take (length (a @ b) - length ?h') (a @ b) = u @ v"
  proof -
    have "length (a @ b) - length ?h' = length (u @ v)" using arg_cong [OF ab, of length] by simp
    then show ?thesis unfolding ab by simp
  qed
  then show "take (length (a @ b) - length (partial_suffix (a @ b) tag)) (a @ b) =
      u @ take (length (?h @ b) - length ?h') (?h @ b)"
    unfolding hh v(2) .
qed

section \<open>Streaming machines\<close>

text \<open>
  The contract of a streaming machine. Its output of one call is combined with the output of later calls
  by \<open>combine\<close>; what counts is the output up to a view (for tool calls, what the deltas build).
  \<open>clean\<close> says on which texts the machine keeps the contract.
\<close>

primrec run_chunks ::
  "('s \<Rightarrow> utext \<Rightarrow> 's \<times> 'o) \<Rightarrow> 'o \<Rightarrow> ('o \<Rightarrow> 'o \<Rightarrow> 'o) \<Rightarrow> 's \<Rightarrow> utext list \<Rightarrow> 's \<times> 'o" where
  "run_chunks feed none combine s [] = (s, none)"
| "run_chunks feed none combine s (c # cs) =
     (case feed s c of (s1, o1) \<Rightarrow> case run_chunks feed none combine s1 cs of (s2, o2) \<Rightarrow> (s2, combine o1 o2))"

locale chunked =
  fixes feed :: "'s \<Rightarrow> utext \<Rightarrow> 's \<times> 'o"
    and none :: 'o
    and combine :: "'o \<Rightarrow> 'o \<Rightarrow> 'o"
    and ok :: "'s \<Rightarrow> bool"
    and clean :: "'s \<Rightarrow> utext \<Rightarrow> bool"
    and same :: "'o \<Rightarrow> 'o \<Rightarrow> bool"
  assumes feed_ok: "ok s \<Longrightarrow> ok (fst (feed s a))"
    and feed_Nil: "ok s \<Longrightarrow> fst (feed s []) = s \<and> same (snd (feed s [])) none"
    and feed_append: "ok s \<Longrightarrow> clean s (a @ b) \<Longrightarrow>
          fst (feed s (a @ b)) = fst (feed (fst (feed s a)) b) \<and>
          same (snd (feed s (a @ b))) (combine (snd (feed s a)) (snd (feed (fst (feed s a)) b)))"
    and clean_rest: "ok s \<Longrightarrow> clean s (a @ b) \<Longrightarrow> clean (fst (feed s a)) b"
    and same_refl: "same x x"
    and same_sym: "same x y \<Longrightarrow> same y x"
    and same_trans: "same x y \<Longrightarrow> same y z \<Longrightarrow> same x z"
    and same_combine: "same x y \<Longrightarrow> same u v \<Longrightarrow> same (combine x u) (combine y v)"
begin

lemma run_concat:
  "ok s \<Longrightarrow> clean s (concat cs) \<Longrightarrow>
     fst (run_chunks feed none combine s cs) = fst (feed s (concat cs)) \<and>
     same (snd (run_chunks feed none combine s cs)) (snd (feed s (concat cs)))"
proof (induction cs arbitrary: s)
  case Nil
  then show ?case using feed_Nil same_sym by simp
next
  case (Cons c cs)
  have cl: "clean s (c @ concat cs)" using Cons.prems(2) by simp
  note ih = Cons.IH [OF feed_ok [OF Cons.prems(1)] clean_rest [OF Cons.prems(1) cl]]
    and ap = feed_append [OF Cons.prems(1) cl]
  have "same (combine (snd (feed s c)) (snd (run_chunks feed none combine (fst (feed s c)) cs)))
      (combine (snd (feed s c)) (snd (feed (fst (feed s c)) (concat cs))))"
    using same_combine [OF same_refl] ih by blast
  then have "same (combine (snd (feed s c)) (snd (run_chunks feed none combine (fst (feed s c)) cs))) (snd (feed s (c @ concat cs)))"
    using same_trans same_sym ap by blast
  then show ?case using ih ap by (simp add: case_prod_beta)
qed

lemma run_ok: "ok s \<Longrightarrow> ok (fst (run_chunks feed none combine s cs))"
  by (induction cs arbitrary: s) (simp_all add: case_prod_beta feed_ok)

end

end
