(* ===== verification/Detokenizer.thy ===== *)
theory Detokenizer
  imports Streaming_Text
begin

text \<open>
  Incremental detokenization (\<^verbatim>\<open>src/rapid_llm/engine/detokenizer.py\<close>). The tokenizer's \<^verbatim>\<open>decode\<close> (outside the repository)
  is a parameter \<open>D\<close> from token ids to text. What the windowed decoding relies on is stated as \<open>window_law\<close>: a text that
  does not end in the replacement character is final, and decoding the tokens after it together with some tokens
  before it, as context, yields the rest of the text.
\<close>

section \<open>The state of a sequence\<close>

definition REPLACEMENT_CHAR :: int where
  "REPLACEMENT_CHAR = 65533"

record sequence_state =
  dt_tokens :: "int list"
  prefix_offset :: nat
  read_offset :: nat
  prefix_text :: "utext option"

type_synonym detokenizer = "sequence_state list"

definition sequence_init :: sequence_state where
  "sequence_init = \<lparr>dt_tokens = [], prefix_offset = 0, read_offset = 0, prefix_text = None\<rparr>"

definition detok_init :: "nat \<Rightarrow> detokenizer" where
  "detok_init batch_size = replicate batch_size sequence_init"

definition detok_decode :: "(int list \<Rightarrow> utext) \<Rightarrow> int list \<Rightarrow> utext" where
  "detok_decode D ts = (if ts = [] then [] else D ts)"

definition tokens_between :: "nat \<Rightarrow> nat \<Rightarrow> int list \<Rightarrow> int list" where
  "tokens_between a b ts = take (b - a) (drop a ts)"

definition append_token :: "(int list \<Rightarrow> utext) \<Rightarrow> int \<Rightarrow> sequence_state \<Rightarrow> sequence_state \<times> utext" where
  "append_token D t s =
     (let ts = dt_tokens s @ [t];
          prefix = (case prefix_text s of
              None \<Rightarrow> detok_decode D (tokens_between (prefix_offset s) (read_offset s) ts) | Some p \<Rightarrow> p);
          full = detok_decode D (drop (prefix_offset s) ts)
      in if length full \<le> length prefix \<or> (full \<noteq> [] \<and> last full = REPLACEMENT_CHAR)
         then (s\<lparr>dt_tokens := ts, prefix_text := Some prefix\<rparr>, [])
         else (s\<lparr>dt_tokens := ts, prefix_offset := read_offset s, read_offset := length ts, prefix_text := None\<rparr>,
               drop (length prefix) full))"

definition detok_append :: "(int list \<Rightarrow> utext) \<Rightarrow> nat \<Rightarrow> int \<Rightarrow> (detokenizer, utext) call" where
  "detok_append D i t d =
     (if i < length d
      then let (s, delta) = append_token D t (d ! i) in (d[i := s], Inr delta)
      else (d, Inl IndexError))"

definition detok_tokens :: "nat \<Rightarrow> detokenizer \<Rightarrow> int list res" where
  "detok_tokens i d = (if i < length d then Inr (dt_tokens (d ! i)) else Inl IndexError)"

definition detok_text :: "(int list \<Rightarrow> utext) \<Rightarrow> nat \<Rightarrow> detokenizer \<Rightarrow> utext res" where
  "detok_text D i d = (if i < length d then Inr (detok_decode D (dt_tokens (d ! i))) else Inl IndexError)"

section \<open>Many appends\<close>

fun append_tokens :: "(int list \<Rightarrow> utext) \<Rightarrow> int list \<Rightarrow> sequence_state \<Rightarrow> sequence_state \<times> utext" where
  "append_tokens D [] s = (s, [])"
| "append_tokens D (t # ts) s =
     (case append_token D t s of (s1, delta) \<Rightarrow> case append_tokens D ts s1 of (s2, rest) \<Rightarrow> (s2, delta @ rest))"

fun run_appends :: "(int list \<Rightarrow> utext) \<Rightarrow> (nat \<times> int) list \<Rightarrow> detokenizer \<Rightarrow> detokenizer \<times> (nat \<times> utext) list" where
  "run_appends D [] d = (d, [])"
| "run_appends D ((i, t) # ops) d =
     (case detok_append D i t d of (d1, x) \<Rightarrow>
        case run_appends D ops d1 of (d2, out) \<Rightarrow> (d2, (case x of Inl e \<Rightarrow> out | Inr delta \<Rightarrow> (i, delta) # out)))"

text \<open>The tokens of one sequence, and the text emitted for it.\<close>

definition tokens_of :: "nat \<Rightarrow> (nat \<times> int) list \<Rightarrow> int list" where
  "tokens_of i ops = map snd (filter (\<lambda>op. fst op = i) ops)"

definition text_of :: "nat \<Rightarrow> (nat \<times> utext) list \<Rightarrow> utext" where
  "text_of i out = concat (map snd (filter (\<lambda>d. fst d = i) out))"

text \<open>Sequences do not disturb each other.\<close>

lemma run_appends_index: "run_appends D (map (Pair i) ts) d = (d', out) \<Longrightarrow> \<forall>x \<in> set out. fst x = i"
  by (induction ts arbitrary: d out) (fastforce split: prod.splits sum.splits)+

lemma run_appends_project:
  assumes "i < length d" "run_appends D ops d = (d', out)"
  shows "append_tokens D (tokens_of i ops) (d ! i) = (d' ! i, text_of i out) \<and> length d' = length d"
  using assms
proof (induction ops arbitrary: d out)
  case Nil
  then show ?case by (simp add: tokens_of_def text_of_def)
next
  case (Cons op ops)
  obtain j t where op: "op = (j, t)" by (cases op)
  obtain d1 x where one: "detok_append D j t d = (d1, x)" by (cases "detok_append D j t d")
  obtain rest where rest: "run_appends D ops d1 = (d', rest)" and
    out: "out = (case x of Inl e \<Rightarrow> rest | Inr delta \<Rightarrow> (j, delta) # rest)"
    using Cons.prems(2) by (auto simp: op one split: prod.splits)
  have len: "length d1 = length d" using one by (auto simp: detok_append_def split: if_splits prod.splits)
  have IH: "append_tokens D (tokens_of i ops) (d1 ! i) = (d' ! i, text_of i rest) \<and> length d' = length d1"
    using Cons.IH [OF _ rest] Cons.prems(1) len by simp
  show ?case
  proof (cases "j = i")
    case True
    obtain s delta where s: "append_token D t (d ! i) = (s, delta)" by (cases "append_token D t (d ! i)")
    then have "d1 = d[i := s]" "x = Inr delta" using one Cons.prems(1) True by (simp_all add: detok_append_def)
    then show ?thesis using IH len s True Cons.prems(1) by (simp add: op tokens_of_def text_of_def out)
  next
    case False
    have "d1 ! i = d ! i" using one False by (auto simp: detok_append_def split: if_splits prod.splits)
    then show ?thesis using IH len False by (auto simp: op tokens_of_def text_of_def out split: sum.split)
  qed
qed

section \<open>The cache and the window\<close>

definition sequence_ok :: "(int list \<Rightarrow> utext) \<Rightarrow> sequence_state \<Rightarrow> bool" where
  "sequence_ok D s \<longleftrightarrow>
     prefix_offset s \<le> read_offset s \<and> read_offset s \<le> length (dt_tokens s) \<and>
     (prefix_offset s < read_offset s \<or> read_offset s = 0) \<and>
     (\<forall>p. prefix_text s = Some p \<longrightarrow>
        p = detok_decode D (tokens_between (prefix_offset s) (read_offset s) (dt_tokens s)))"

definition complete_text :: "utext \<Rightarrow> bool" where
  "complete_text xs \<longleftrightarrow> xs = [] \<or> last xs \<noteq> REPLACEMENT_CHAR"

definition window_law :: "(int list \<Rightarrow> utext) \<Rightarrow> bool" where
  "window_law D \<longleftrightarrow>
     (\<forall>xs ys zs. (ys \<noteq> [] \<or> xs = []) \<longrightarrow> complete_text (detok_decode D (xs @ ys)) \<longrightarrow>
        complete_text (detok_decode D (ys @ zs)) \<longrightarrow>
        length (detok_decode D ys) < length (detok_decode D (ys @ zs)) \<longrightarrow>
        detok_decode D (xs @ ys @ zs) =
          detok_decode D (xs @ ys) @ drop (length (detok_decode D ys)) (detok_decode D (ys @ zs)))"

text \<open>The same step without the cache.\<close>

definition append_plain :: "(int list \<Rightarrow> utext) \<Rightarrow> int \<Rightarrow> sequence_state \<Rightarrow> sequence_state \<times> utext" where
  "append_plain D t s = append_token D t (s\<lparr>prefix_text := None\<rparr>)"

lemma tokens_between_append:
  "b \<le> length ts \<Longrightarrow> tokens_between a b (ts @ us) = tokens_between a b ts"
  by (simp add: tokens_between_def)

lemma append_token_cases:
  assumes "sequence_ok D s" "append_token D t s = (s', delta)"
  obtains (holds) "s' = s\<lparr>dt_tokens := dt_tokens s @ [t],
        prefix_text := Some (detok_decode D (tokens_between (prefix_offset s) (read_offset s) (dt_tokens s)))\<rparr>" "delta = []"
  | (emits) "s' = s\<lparr>dt_tokens := dt_tokens s @ [t], prefix_offset := read_offset s,
        read_offset := length (dt_tokens s) + 1, prefix_text := None\<rparr>"
      "complete_text (detok_decode D (drop (prefix_offset s) (dt_tokens s @ [t])))"
      "length (detok_decode D (tokens_between (prefix_offset s) (read_offset s) (dt_tokens s)))
         < length (detok_decode D (drop (prefix_offset s) (dt_tokens s @ [t])))"
      "delta = drop (length (detok_decode D (tokens_between (prefix_offset s) (read_offset s) (dt_tokens s))))
         (detok_decode D (drop (prefix_offset s) (dt_tokens s @ [t])))"
proof -
  let ?p = "detok_decode D (tokens_between (prefix_offset s) (read_offset s) (dt_tokens s))"
  have "tokens_between (prefix_offset s) (read_offset s) (dt_tokens s @ [t]) =
      tokens_between (prefix_offset s) (read_offset s) (dt_tokens s)"
    using assms(1) by (simp add: sequence_ok_def tokens_between_append)
  then have p: "(case prefix_text s of
      None \<Rightarrow> detok_decode D (tokens_between (prefix_offset s) (read_offset s) (dt_tokens s @ [t])) | Some p \<Rightarrow> p) = ?p"
    using assms(1) by (auto simp: sequence_ok_def split: option.split)
  show thesis
    using assms(2) holds emits unfolding append_token_def Let_def p complete_text_def
    by (auto split: if_splits)
qed

lemma append_token_ok:
  assumes "sequence_ok D s" "append_token D t s = (s', delta)"
  shows "sequence_ok D s'"
  by (rule append_token_cases [OF assms]) (use assms(1) in \<open>auto simp: sequence_ok_def tokens_between_append\<close>)

lemma append_token_tokens: "append_token D t s = (s', delta) \<Longrightarrow> dt_tokens s' = dt_tokens s @ [t]"
  by (auto simp: append_token_def Let_def split: if_splits)

text \<open>What has been emitted is the decoding of the tokens before \<open>read_offset\<close>.\<close>

definition emitted_ok :: "(int list \<Rightarrow> utext) \<Rightarrow> sequence_state \<Rightarrow> utext \<Rightarrow> bool" where
  "emitted_ok D s out \<longleftrightarrow>
     sequence_ok D s \<and> out = detok_decode D (take (read_offset s) (dt_tokens s)) \<and> complete_text out"

lemma append_token_emitted:
  assumes "window_law D" "emitted_ok D s out" "append_token D t s = (s', delta)"
  shows "emitted_ok D s' (out @ delta) \<and> (delta \<noteq> [] \<longrightarrow> out @ delta = detok_decode D (dt_tokens s @ [t]))"
proof -
  have ok: "sequence_ok D s" using assms(2) by (simp add: emitted_ok_def)
  note ok' = append_token_ok [OF ok assms(3)]
  let ?p = "prefix_offset s" and ?r = "read_offset s" and ?ts = "dt_tokens s"
  from ok assms(3) show ?thesis
  proof (cases rule: append_token_cases)
    case holds
    then show ?thesis using assms(2) ok' ok by (auto simp: emitted_ok_def sequence_ok_def)
  next
    case emits
    let ?xs = "take ?p ?ts" and ?ys = "tokens_between ?p ?r ?ts" and ?zs = "drop ?r (?ts @ [t])"
    have le: "?p \<le> ?r" "?r \<le> length ?ts" "?p < ?r \<or> ?r = 0" using ok by (simp_all add: sequence_ok_def)
    have xy: "?xs @ ?ys = take ?r ?ts"
      using le take_add [of ?p "?r - ?p" ?ts] by (simp add: tokens_between_def)
    have yz: "?ys @ ?zs = drop ?p (?ts @ [t])"
      using le append_take_drop_id [of "?r - ?p" "drop ?p (?ts @ [t])"] by (simp add: tokens_between_def)
    have xyz: "?xs @ ?ys @ ?zs = ?ts @ [t]"
      unfolding yz using le by (simp add: append_take_drop_id)
    have "?ys \<noteq> [] \<or> ?xs = []" using le by (auto simp: tokens_between_def)
    moreover have "out = detok_decode D (?xs @ ?ys)" using assms(2) unfolding xy emitted_ok_def by blast
    moreover have "complete_text out" using assms(2) unfolding emitted_ok_def by blast
    ultimately have "detok_decode D (?ts @ [t]) = out @ delta"
      using assms(1) emits(2-4) xyz yz unfolding window_law_def by metis
    moreover have "complete_text (out @ delta)"
      using emits(2-4) by (auto simp: complete_text_def split: if_splits)
    ultimately show ?thesis using ok' emits(1) by (simp add: emitted_ok_def)
  qed
qed

lemma append_tokens_emitted:
  assumes "window_law D" "emitted_ok D s out" "append_tokens D ts s = (s', text')"
  shows "emitted_ok D s' (out @ text') \<and> dt_tokens s' = dt_tokens s @ ts"
  using assms(2,3)
proof (induction ts arbitrary: s out text')
  case (Cons t ts)
  obtain s1 delta where one: "append_token D t s = (s1, delta)" by (cases "append_token D t s")
  obtain rest where rest: "append_tokens D ts s1 = (s', rest)" and t': "text' = delta @ rest"
    using Cons.prems(2) by (auto simp: one split: prod.splits)
  have "emitted_ok D s1 (out @ delta)" using append_token_emitted [OF assms(1) Cons.prems(1) one] by blast
  from Cons.IH [OF this rest] show ?case by (simp add: t' append_token_tokens [OF one])
qed simp

lemma append_tokens_snoc:
  "append_tokens D (ts @ us) s =
     (case append_tokens D ts s of (s1, a) \<Rightarrow> case append_tokens D us s1 of (s2, b) \<Rightarrow> (s2, a @ b))"
  by (induction ts arbitrary: s) (auto split: prod.splits)

lemma emitted_init: "emitted_ok D sequence_init []"
  by (simp add: emitted_ok_def sequence_ok_def sequence_init_def detok_decode_def complete_text_def)

text \<open>The cached prefix is the one a fresh decode gives, so the cache changes no output.\<close>

lemma append_token_plain:
  assumes "sequence_ok D s"
  shows "snd (append_token D t s) = snd (append_plain D t s)"
proof -
  have "tokens_between (prefix_offset s) (read_offset s) (dt_tokens s @ [t]) =
      tokens_between (prefix_offset s) (read_offset s) (dt_tokens s)"
    using assms by (simp add: sequence_ok_def tokens_between_append)
  then show ?thesis
    using assms by (auto simp: append_plain_def append_token_def Let_def sequence_ok_def split: option.split)
qed

section \<open>A decoder with characters of two bytes\<close>

text \<open>Bytes below 128 are characters; a lead byte and a continuation byte make one; anything else is replaced.\<close>

definition lead :: "int \<Rightarrow> bool" where
  "lead b \<longleftrightarrow> 192 \<le> b \<and> b < 224"

definition continuation :: "int \<Rightarrow> bool" where
  "continuation b \<longleftrightarrow> 128 \<le> b \<and> b < 192"

fun decode2 :: "int list \<Rightarrow> utext" where
  "decode2 [] = []"
| "decode2 [b] = [if lead b \<or> \<not> (0 \<le> b \<and> b < 128) then REPLACEMENT_CHAR else b]"
| "decode2 (b # c # bs) =
     (if lead b \<and> continuation c then ((b - 192) * 64 + (c - 128)) # decode2 bs
      else (if lead b \<or> \<not> (0 \<le> b \<and> b < 128) then REPLACEMENT_CHAR else b) # decode2 (c # bs))"

lemma decode2_pending: "bs \<noteq> [] \<Longrightarrow> lead (last bs) \<Longrightarrow> decode2 bs \<noteq> [] \<and> last (decode2 bs) = REPLACEMENT_CHAR"
proof (induction bs rule: decode2.induct)
  case (3 b c bs)
  show ?case
  proof (cases "lead b \<and> continuation c")
    case True
    then have "bs \<noteq> []" using 3(4) by (auto simp: lead_def continuation_def)
    then show ?thesis using 3(1) 3(4) True by simp
  qed (use 3 in auto)
qed simp_all

lemma decode2_append: "bs = [] \<or> \<not> lead (last bs) \<Longrightarrow> decode2 (bs @ cs) = decode2 bs @ decode2 cs"
proof (induction bs rule: decode2.induct)
  case (2 b)
  then show ?case by (cases cs) auto
next
  case (3 b c bs)
  show ?case
  proof (cases "lead b \<and> continuation c")
    case True
    then have "bs = [] \<or> \<not> lead (last bs)" using 3(3) by auto
    then show ?thesis using 3(1) True by simp
  next
    case False
    then have "\<not> lead (last (c # bs))" using 3(3) by simp
    from 3(2) [OF False] this have "decode2 ((c # bs) @ cs) = decode2 (c # bs) @ decode2 cs" by blast
    then show ?thesis using False by auto
  qed
qed simp

lemma decode2_window: "window_law decode2"
  unfolding window_law_def
proof (intro allI impI)
  fix xs ys zs
  assume a: "ys \<noteq> [] \<or> xs = []" "complete_text (detok_decode decode2 (xs @ ys))"
  have d: "detok_decode decode2 ts = decode2 ts" for ts by (simp add: detok_decode_def)
  have xy: "xs @ ys = [] \<or> \<not> lead (last (xs @ ys))"
    using a(2) decode2_pending [of "xs @ ys"] by (auto simp: complete_text_def d)
  then have y: "ys = [] \<or> \<not> lead (last ys)" by auto
  show "detok_decode decode2 (xs @ ys @ zs) =
      detok_decode decode2 (xs @ ys) @ drop (length (detok_decode decode2 ys)) (detok_decode decode2 (ys @ zs))"
    unfolding d using decode2_append [OF xy, of zs] decode2_append [OF y, of zs] by simp
qed

section \<open>Properties\<close>

text \<open>C29: streamed text is the decoded text. For a tokenizer that satisfies the window law, however appends to the
  sequences of a batch interleave, the text emitted for a sequence is the one-shot decoding of a prefix of its own
  tokens, and it is the full text of the sequence whenever nothing is held back.\<close>

theorem detok_stream_is_decode:
  assumes "window_law D" "i < batch_size" "run_appends D ops (detok_init batch_size) = (d', out)"
  shows "dt_tokens (d' ! i) = tokens_of i ops \<and> read_offset (d' ! i) \<le> length (tokens_of i ops) \<and>
    text_of i out = detok_decode D (take (read_offset (d' ! i)) (tokens_of i ops)) \<and>
    (read_offset (d' ! i) = length (tokens_of i ops) \<longrightarrow> detok_text D i d' = Inr (text_of i out))"
proof -
  have i: "i < length (detok_init batch_size)" "detok_init batch_size ! i = sequence_init"
    using assms(2) by (simp_all add: detok_init_def)
  have p: "append_tokens D (tokens_of i ops) sequence_init = (d' ! i, text_of i out)" "length d' = batch_size"
    using run_appends_project [OF i(1) assms(3)] i(2) by (simp_all add: detok_init_def)
  have "emitted_ok D (d' ! i) (text_of i out) \<and> dt_tokens (d' ! i) = tokens_of i ops"
    using append_tokens_emitted [OF assms(1) emitted_init p(1)] by (simp add: sequence_init_def)
  then show ?thesis using p(2) assms(2) by (auto simp: emitted_ok_def sequence_ok_def detok_text_def)
qed

theorem detok_stream_is_decode_witness:
  "window_law decode2 \<and>
   (\<exists>d' out. run_appends decode2 [(0, 72), (1, 195), (0, 105), (1, 169)] (detok_init 2) = (d', out) \<and>
      text_of 0 out = decode2 [72, 105] \<and> text_of 1 out = decode2 [195, 169])"
proof -
  let ?ops = "[(0, 72), (1, 195), (0, 105), (1, 169)] :: (nat \<times> int) list"
  obtain d' out where r: "run_appends decode2 ?ops (detok_init 2) = (d', out)" by (cases "run_appends decode2 ?ops (detok_init 2)")
  have d: "map read_offset (fst (run_appends decode2 ?ops (detok_init 2))) = [2, 2]" by code_simp
  then have "map read_offset d' = [2, 2]" unfolding r by simp
  then have o: "read_offset (d' ! 0) = 2" "read_offset (d' ! 1) = 2" by (auto simp: map_eq_Cons_conv)
  have t: "tokens_of 0 ?ops = [72, 105]" "tokens_of 1 ?ops = [195, 169]" by (simp_all add: tokens_of_def)
  have two: "0 < (2 :: nat)" "1 < (2 :: nat)" by simp_all
  have "text_of 0 out = detok_decode decode2 (take (read_offset (d' ! 0)) (tokens_of 0 ?ops))"
    using detok_stream_is_decode [OF decode2_window two(1) r] by blast
  then have "text_of 0 out = decode2 [72, 105]" unfolding o t by (simp add: detok_decode_def del: decode2.simps)
  moreover have "text_of 1 out = detok_decode decode2 (take (read_offset (d' ! 1)) (tokens_of 1 ?ops))"
    using detok_stream_is_decode [OF decode2_window two(2) r] by blast
  then have "text_of 1 out = decode2 [195, 169]" unfolding o t by (simp add: detok_decode_def del: decode2.simps)
  ultimately show ?thesis using r decode2_window by blast
qed

end
