(* ===== verification/Stop_Criteria.thy ===== *)
theory Stop_Criteria
  imports Streaming_Text
begin

text \<open>
  Stopping a generation (\<^verbatim>\<open>src/rapid_llm/engine/stop_criteria.py\<close>): the repetition breaker \<^verbatim>\<open>detect_repetition\<close>, and the
  per-batch record of which sequences finished and why. Tensors are lists; a gather with an index out of range raises.
  Which characters the regular expression \<^verbatim>\<open>\d\<close> matches (the Unicode table of the Python version) is the parameter
  \<open>digit\<close>. Reading the stop ids from the model directory is file access and not modelled.
\<close>

section \<open>Repetition\<close>

text \<open>\<^verbatim>\<open>re.sub(r"\d+", "<n>", text)\<close>: each maximal run of digits becomes the placeholder.\<close>

definition digit_placeholder :: utext where
  "digit_placeholder = [60, 110, 62]"

function normalise_digits :: "(int \<Rightarrow> bool) \<Rightarrow> utext \<Rightarrow> utext" where
  "normalise_digits digit [] = []"
| "normalise_digits digit (ch # chs) =
     (if digit ch then digit_placeholder @ normalise_digits digit (dropWhile digit chs)
      else ch # normalise_digits digit chs)"
  by pat_completeness auto
termination by (relation "measure (\<lambda>(digit, s). length s)") (auto simp: length_dropWhile_le le_imp_less_Suc)

text \<open>\<^verbatim>\<open>s.count(sub)\<close>: occurrences from the left that do not overlap; the empty text occurs at every position.\<close>

function count_from :: "utext \<Rightarrow> utext \<Rightarrow> nat" where
  "count_from sub s =
     (if sub = [] \<or> length s < length sub then 0
      else if take (length sub) s = sub then Suc (count_from sub (drop (length sub) s))
      else count_from sub (tl s))"
  by pat_completeness auto
termination
proof (relation "measure (\<lambda>(sub, s). length s)")
  fix sub s :: utext
  assume "\<not> (sub = [] \<or> length s < length sub)"
  then have "0 < length sub" "length sub \<le> length s" by auto
  then have l: "length s - length sub < length s" "length s - 1 < length s" by linarith+
  show "((sub, drop (length sub) s), sub, s) \<in> measure (\<lambda>(sub, s). length s)"
    "((sub, tl s), sub, s) \<in> measure (\<lambda>(sub, s). length s)" using l by auto
qed simp

declare count_from.simps [simp del]

definition str_count :: "utext \<Rightarrow> utext \<Rightarrow> nat" where
  "str_count s sub = (if sub = [] then length s + 1 else count_from sub s)"

definition detect_repetition :: "(int \<Rightarrow> bool) \<Rightarrow> utext \<Rightarrow> int \<Rightarrow> int \<Rightarrow> bool" where
  "detect_repetition digit input window min_reps =
     (if int (length input) < window * (min_reps + 1) then False
      else
        let norm = normalise_digits digit input;
            recent = py_slice norm (- window) (int (length norm))
        in int (str_count (py_slice norm 0 (- window)) recent) \<ge> min_reps)"

section \<open>The finished flags\<close>

definition REASON_EOS :: nat where
  "REASON_EOS = 1"

definition REASON_REPEAT :: nat where
  "REASON_REPEAT = 2"

definition REASON_NAMES :: "string list" where
  "REASON_NAMES = [''length'', ''eos'', ''repeat'']"

record stop_criteria =
  st_batch_size :: nat
  st_finished :: "bool list"
  st_reason :: "nat list"
  st_is_stop :: "bool list"

text \<open>An index into a tensor of \<open>n\<close> entries; a negative one counts from the end.\<close>

definition tensor_index :: "nat \<Rightarrow> int \<Rightarrow> nat res" where
  "tensor_index n i =
     (if 0 \<le> i \<and> i < int n then Inr (nat i)
      else if - int n \<le> i \<and> i < 0 then Inr (nat (i + int n))
      else Inl IndexError)"

primrec tensor_indices :: "nat \<Rightarrow> int list \<Rightarrow> nat list res" where
  "tensor_indices n [] = Inr []"
| "tensor_indices n (i # is) = rbind (tensor_index n i) (\<lambda>k. rbind (tensor_indices n is) (\<lambda>ks. Inr (k # ks)))"

definition stop_init :: "nat \<Rightarrow> int list \<Rightarrow> nat \<Rightarrow> stop_criteria res" where
  "stop_init batch_size stop_token_ids vocab_size =
     rbind (tensor_indices vocab_size stop_token_ids) (\<lambda>ks. Inr
       \<lparr>st_batch_size = batch_size, st_finished = replicate batch_size False, st_reason = replicate batch_size 0,
        st_is_stop = fold (\<lambda>k t. t[k := True]) ks (replicate vocab_size False)\<rparr>)"

definition stop_update :: "int list \<Rightarrow> bool list \<Rightarrow> stop_criteria \<Rightarrow> stop_criteria res" where
  "stop_update next_token writable st =
     rbind (tensor_indices (length (st_is_stop st)) next_token) (\<lambda>ks.
       let hit = map2 (\<lambda>(w, k) f. w \<and> st_is_stop st ! k \<and> \<not> f) (zip writable ks) (st_finished st)
       in Inr (st\<lparr>st_reason := map2 (\<lambda>h r. if h then REASON_EOS else r) hit (st_reason st),
                  st_finished := map2 (\<lambda>f h. f \<or> h) (st_finished st) hit\<rparr>))"

definition mark_repeat :: "int \<Rightarrow> stop_criteria \<Rightarrow> stop_criteria res" where
  "mark_repeat index st =
     rbind (tensor_index (length (st_finished st)) index) (\<lambda>k. Inr
       (st\<lparr>st_finished := (st_finished st)[k := True], st_reason := (st_reason st)[k := REASON_REPEAT]\<rparr>))"

definition all_finished :: "stop_criteria \<Rightarrow> bool" where
  "all_finished st = (\<forall>f \<in> set (st_finished st). f)"

definition stop_reasons :: "stop_criteria \<Rightarrow> string list res" where
  "stop_reasons st =
     (if \<forall>r \<in> set (st_reason st). r < length REASON_NAMES then Inr (map ((!) REASON_NAMES) (st_reason st))
      else Inl IndexError)"

section \<open>Counting without overlap is optimal\<close>

definition sub_at :: "utext \<Rightarrow> utext \<Rightarrow> nat \<Rightarrow> bool" where
  "sub_at sub s p \<longleftrightarrow> p + length sub \<le> length s \<and> take (length sub) (drop p s) = sub"

text \<open>Positions in order, at least the length of the pattern apart.\<close>

fun spaced :: "nat \<Rightarrow> nat list \<Rightarrow> bool" where
  "spaced n [] = True"
| "spaced n [p] = True"
| "spaced n (p # q # ps) = (p + n \<le> q \<and> spaced n (q # ps))"

lemma spaced_tl: "spaced n (p # ps) \<Longrightarrow> spaced n ps"
  by (cases ps) auto

lemma spaced_le: "spaced n (p # ps) \<Longrightarrow> q \<in> set ps \<Longrightarrow> p + n \<le> q"
  by (induction ps arbitrary: p) (auto dest: le_trans [rotated] add_leD1; fastforce)+

lemma spaced_map_add: "spaced n (map (\<lambda>p. p + d) ps) = spaced n ps"
  by (induction n ps rule: spaced.induct) auto

lemma count_from_found: "sub \<noteq> [] \<Longrightarrow> \<exists>ps. length ps = count_from sub s \<and> spaced (length sub) ps \<and> (\<forall>p \<in> set ps. sub_at sub s p)"
proof (induction sub s rule: count_from.induct)
  case (1 sub s)
  show ?case
  proof (cases "length s < length sub")
    case True
    then show ?thesis by (intro exI [of _ "[]"]) (simp add: count_from.simps [of sub s])
  next
    case len: False
    show ?thesis
    proof (cases "take (length sub) s = sub")
      case True
      from 1(1) 1(3) len True obtain ps where ps: "length ps = count_from sub (drop (length sub) s)"
        "spaced (length sub) ps" "\<forall>p \<in> set ps. sub_at sub (drop (length sub) s) p" by auto
      let ?qs = "0 # map (\<lambda>p. p + length sub) ps"
      have "spaced (length sub) ?qs" using ps(2) by (cases ps) (simp_all add: spaced_map_add [of "length sub" "length sub" "_ # _", simplified])
      moreover have "\<forall>p \<in> set ?qs. sub_at sub s p"
        using ps(3) True len by (auto simp: sub_at_def add.commute)
      moreover have "length ?qs = count_from sub s" using ps(1) True len 1(3) by (simp add: count_from.simps [of sub s])
      ultimately show ?thesis by blast
    next
      case False
      from 1(2) 1(3) len False obtain ps where ps: "length ps = count_from sub (tl s)"
        "spaced (length sub) ps" "\<forall>p \<in> set ps. sub_at sub (tl s) p" by auto
      have "s \<noteq> []" using len 1(3) by auto
      then have "\<forall>p \<in> set (map Suc ps). sub_at sub s p"
        using ps(3) by (cases s) (auto simp: sub_at_def)
      moreover have "spaced (length sub) (map Suc ps)" using spaced_map_add [of "length sub" 1 ps] ps(2) by simp
      moreover have "length (map Suc ps) = count_from sub s"
        using ps(1) False len 1(3) by (simp add: count_from.simps [of sub s])
      ultimately show ?thesis by blast
    qed
  qed
qed

lemma spaced_map_diff:
  "spaced n ps \<Longrightarrow> \<forall>p \<in> set ps. d \<le> p \<Longrightarrow> spaced n (map (\<lambda>p. p - d) ps)"
  by (induction n ps rule: spaced.induct) auto

lemma sub_at_shift: "d \<le> p \<Longrightarrow> d \<le> length s \<Longrightarrow> sub_at sub s p \<Longrightarrow> sub_at sub (drop d s) (p - d)"
  by (auto simp: sub_at_def)

lemma count_from_most:
  "sub \<noteq> [] \<Longrightarrow> spaced (length sub) ps \<Longrightarrow> \<forall>p \<in> set ps. sub_at sub s p \<Longrightarrow> length ps \<le> count_from sub s"
proof (induction sub s arbitrary: ps rule: count_from.induct)
  case (1 sub s)
  show ?case
  proof (cases "length s < length sub")
    case True
    then have "ps = []" using 1(5) by (cases ps) (auto simp: sub_at_def)
    then show ?thesis by simp
  next
    case len: False
    show ?thesis
    proof (cases "take (length sub) s = sub")
      case True
      show ?thesis
      proof (cases ps)
        case (Cons p qs)
        have far: "length sub \<le> q" if "q \<in> set qs" for q
          using spaced_le [of "length sub" p qs q] 1(4) Cons that by simp
        have "length (map (\<lambda>q. q - length sub) qs) \<le> count_from sub (drop (length sub) s)"
        proof (rule 1(1))
          show "spaced (length sub) (map (\<lambda>q. q - length sub) qs)"
            using 1(4) Cons far by (intro spaced_map_diff) (auto dest: spaced_tl)
          show "\<forall>q \<in> set (map (\<lambda>q. q - length sub) qs). sub_at sub (drop (length sub) s) q"
            using 1(5) Cons far len by (auto intro: sub_at_shift)
        qed (use 1(3) len True in auto)
        then show ?thesis using 1(3) len True Cons by (simp add: count_from.simps [of sub s])
      qed simp
    next
      case False
      have pos: "1 \<le> p" if "p \<in> set ps" for p
        using 1(5) that False by (cases p) (auto simp: sub_at_def)
      have some: "1 \<le> length s" using 1(3) len by (cases s) auto
      have "length (map (\<lambda>p. p - 1) ps) \<le> count_from sub (tl s)"
      proof (rule 1(2))
        show "spaced (length sub) (map (\<lambda>p. p - 1) ps)" using 1(4) pos by (intro spaced_map_diff) auto
        show "\<forall>p \<in> set (map (\<lambda>p. p - 1) ps). sub_at sub (tl s) p"
          using 1(5) pos sub_at_shift [of 1 _ s sub] some by (auto simp: drop_Suc)
      qed (use 1(3) len False in auto)
      then show ?thesis using 1(3) len False by (simp add: count_from.simps [of sub s])
    qed
  qed
qed

lemma spaced_take: "spaced n ps \<Longrightarrow> spaced n (take k ps)"
proof (induction n ps arbitrary: k rule: spaced.induct)
  case (3 n p q ps)
  show ?case
  proof (cases k)
    case (Suc j)
    then show ?thesis using 3(1) [of j] 3(2) by (cases j) auto
  qed simp
qed (simp_all add: take_Cons')

lemma str_count_iff:
  assumes "sub \<noteq> []"
  shows "k \<le> str_count s sub \<longleftrightarrow>
    (\<exists>ps. length ps = k \<and> spaced (length sub) ps \<and> (\<forall>p \<in> set ps. sub_at sub s p))"
proof
  assume "k \<le> str_count s sub"
  moreover obtain ps where "length ps = count_from sub s" "spaced (length sub) ps" "\<forall>p \<in> set ps. sub_at sub s p"
    using count_from_found [OF assms, of s] by blast
  ultimately have "k \<le> length ps" "spaced (length sub) ps" "\<forall>p \<in> set ps. sub_at sub s p"
    using assms by (simp_all add: str_count_def)
  then show "\<exists>ps. length ps = k \<and> spaced (length sub) ps \<and> (\<forall>p \<in> set ps. sub_at sub s p)"
    using spaced_take by (intro exI [of _ "take k ps"]) (auto dest: in_set_takeD)
next
  assume "\<exists>ps. length ps = k \<and> spaced (length sub) ps \<and> (\<forall>p \<in> set ps. sub_at sub s p)"
  then show "k \<le> str_count s sub" using count_from_most [OF assms] assms by (auto simp: str_count_def)
qed

section \<open>The flags and the reasons\<close>

definition stop_ok :: "stop_criteria \<Rightarrow> bool" where
  "stop_ok st \<longleftrightarrow>
     length (st_finished st) = st_batch_size st \<and> length (st_reason st) = st_batch_size st \<and>
     (\<forall>i < st_batch_size st. st_reason st ! i \<le> 2 \<and> (st_finished st ! i \<longleftrightarrow> st_reason st ! i \<noteq> 0))"

lemma tensor_index_less: "tensor_index n i = Inr k \<Longrightarrow> k < n"
  by (auto simp: tensor_index_def split: if_splits)

lemma tensor_indices_length: "tensor_indices n is = Inr ks \<Longrightarrow> length ks = length is"
  by (induction "is" arbitrary: ks) auto

lemma tensor_indices_nat:
  "\<forall>i \<in> set is. 0 \<le> i \<and> i < int n \<Longrightarrow> tensor_indices n is = Inr (map nat is)"
  by (induction "is") (auto simp: tensor_index_def)

lemma stop_init_ok:
  assumes "stop_init b ids v = Inr st"
  shows "stop_ok st \<and> st_batch_size st = b"
  using assms by (auto simp: stop_init_def stop_ok_def)

lemma fold_table: "length (fold (\<lambda>k t. t[k := True]) ks t) = length t"
  by (induction ks arbitrary: t) simp_all

lemma nth_fold_table:
  "j < length t \<Longrightarrow> fold (\<lambda>k t. t[k := True]) ks t ! j \<longleftrightarrow> j \<in> set ks \<or> t ! j"
proof (induction ks arbitrary: t)
  case (Cons a ks)
  then show ?case by (cases "a = j") auto
qed simp

lemma stop_table:
  assumes "stop_init b ids v = Inr st" "\<forall>i \<in> set ids. 0 \<le> i" "0 \<le> t" "t < int v"
  shows "length (st_is_stop st) = v \<and> (st_is_stop st ! nat t \<longleftrightarrow> t \<in> set ids)"
proof -
  obtain ks where ks: "tensor_indices v ids = Inr ks"
    and st: "st_is_stop st = fold (\<lambda>k t. t[k := True]) ks (replicate v False)"
    using assms(1) by (auto simp: stop_init_def)
  have "ks = map nat ids"
    using ks assms(2)
  proof (induction ids arbitrary: ks)
    case (Cons i ids)
    then show ?case by (auto simp: tensor_index_def split: if_splits)
  qed simp
  moreover have "nat t \<in> nat ` set ids \<longleftrightarrow> t \<in> set ids"
    using assms(2,3) by (force simp: image_iff nat_eq_iff)
  ultimately show ?thesis using assms(3,4) by (simp add: st fold_table nth_fold_table nat_less_iff)
qed

lemma stop_update_nth:
  assumes "stop_update next_token writable st = Inr st'" "stop_ok st"
    "length next_token = st_batch_size st" "length writable = st_batch_size st"
    "\<forall>t \<in> set next_token. 0 \<le> t \<and> t < int (length (st_is_stop st))" "i < st_batch_size st"
  shows "let hit = (writable ! i \<and> st_is_stop st ! nat (next_token ! i) \<and> \<not> st_finished st ! i)
    in st_finished st' ! i = (st_finished st ! i \<or> hit) \<and>
       st_reason st' ! i = (if hit then 1 else st_reason st ! i)"
  using assms
  by (auto simp: stop_update_def tensor_indices_nat [OF assms(5)] Let_def stop_ok_def REASON_EOS_def)

lemma stop_update_ok:
  assumes "stop_update next_token writable st = Inr st'" "stop_ok st"
    "length next_token = st_batch_size st" "length writable = st_batch_size st"
  shows "stop_ok st' \<and> st_batch_size st' = st_batch_size st \<and> st_is_stop st' = st_is_stop st"
proof -
  obtain ks where ks: "tensor_indices (length (st_is_stop st)) next_token = Inr ks" "length ks = st_batch_size st"
    using assms(1,3) tensor_indices_length by (fastforce simp: stop_update_def)
  then show ?thesis
    using assms by (auto simp: stop_update_def Let_def stop_ok_def REASON_EOS_def split: if_splits)
qed

lemma mark_repeat_ok:
  assumes "mark_repeat index st = Inr st'" "stop_ok st"
  shows "stop_ok st' \<and> st_batch_size st' = st_batch_size st \<and> st_is_stop st' = st_is_stop st"
proof -
  obtain k where k: "tensor_index (length (st_finished st)) index = Inr k"
    and st': "st' = st\<lparr>st_finished := (st_finished st)[k := True], st_reason := (st_reason st)[k := REASON_REPEAT]\<rparr>"
    using assms(1) by (auto simp: mark_repeat_def)
  have "k < length (st_finished st)" using k by (rule tensor_index_less)
  then show ?thesis using assms(2) by (auto simp: st' stop_ok_def nth_list_update REASON_REPEAT_def)
qed

inductive stop_run :: "stop_criteria \<Rightarrow> stop_criteria \<Rightarrow> bool" for st0 where
  stop_start: "stop_run st0 st0"
| stop_step: "stop_run st0 st \<Longrightarrow> length next_token = st_batch_size st \<Longrightarrow> length writable = st_batch_size st \<Longrightarrow>
    stop_update next_token writable st = Inr st' \<Longrightarrow> stop_run st0 st'"
| stop_mark: "stop_run st0 st \<Longrightarrow> mark_repeat index st = Inr st' \<Longrightarrow> stop_run st0 st'"

lemma stop_run_ok:
  "stop_run st0 st \<Longrightarrow> stop_ok st0 \<Longrightarrow>
   stop_ok st \<and> st_batch_size st = st_batch_size st0 \<and> st_is_stop st = st_is_stop st0"
  by (induction rule: stop_run.induct) (auto dest: stop_update_ok mark_repeat_ok)

section \<open>The trailing window\<close>

lemma normalise_nonempty: "input \<noteq> [] \<Longrightarrow> normalise_digits digit input \<noteq> []"
  by (cases input) (auto simp: digit_placeholder_def)

lemma last_window:
  assumes "0 < window"
  shows "py_slice xs (- window) (int (length xs)) = drop (length xs - nat window) xs"
    "py_slice xs 0 (- window) = take (length xs - nat window) xs"
proof -
  have "slice_index xs (- window) = length xs - nat window"
    using assms by (auto simp: slice_index_def)
  moreover have "slice_index xs (int (length xs)) = length xs" "slice_index xs 0 = 0"
    by (simp_all add: slice_index_def)
  ultimately show "py_slice xs (- window) (int (length xs)) = drop (length xs - nat window) xs"
    "py_slice xs 0 (- window) = take (length xs - nat window) xs"
    by (simp_all add: py_slice_def)
qed

section \<open>Properties\<close>

text \<open>C32: what the repetition breaker reports. For a positive window and a non-negative threshold it answers yes exactly
  when the text is at least a window longer than the repetitions it asks for and, with runs of digits made equal, the
  block in its last window occurs before that window the required number of times at positions that do not overlap;
  so the left-to-right count never misses a way to place the occurrences.\<close>

theorem detect_repetition_exact:
  assumes "0 < window" "0 \<le> min_reps"
  shows "detect_repetition digit input window min_reps \<longleftrightarrow>
    window * (min_reps + 1) \<le> int (length input) \<and>
    (let norm = normalise_digits digit input;
         block = drop (length norm - nat window) norm
     in \<exists>ps. length ps = nat min_reps \<and> spaced (length block) ps \<and>
          (\<forall>p \<in> set ps. sub_at block (take (length norm - nat window) norm) p))"
proof (cases "window * (min_reps + 1) \<le> int (length input)")
  case True
  let ?norm = "normalise_digits digit input"
  have "0 < window * (min_reps + 1)" using assms by simp
  then have "input \<noteq> []" using True by auto
  then have "?norm \<noteq> []" by (rule normalise_nonempty)
  then have "length ?norm - nat window < length ?norm" using assms(1) by (intro diff_less) auto
  then have b: "drop (length ?norm - nat window) ?norm \<noteq> []" by simp
  have "detect_repetition digit input window min_reps \<longleftrightarrow>
      nat min_reps \<le> str_count (take (length ?norm - nat window) ?norm) (drop (length ?norm - nat window) ?norm)"
    using True assms by (simp add: detect_repetition_def Let_def last_window nat_le_iff)
  then show ?thesis unfolding str_count_iff [OF b] using True by (simp add: Let_def)
qed (simp add: detect_repetition_def)

theorem detect_repetition_exact_witness:
  "detect_repetition (\<lambda>ch. 48 \<le> ch \<and> ch \<le> 57) [97, 49, 98, 97, 50, 51, 98, 97, 52, 98, 97, 53, 98] 5 1 \<and>
   (\<exists>p. sub_at [97, 60, 110, 62, 98] (take 15 [97, 60, 110, 62, 98, 97, 60, 110, 62, 98, 97, 60, 110, 62, 98, 97, 60, 110, 62, 98]) p)"
proof -
  let ?digit = "\<lambda>ch :: int. 48 \<le> ch \<and> ch \<le> 57"
  let ?input = "[97, 49, 98, 97, 50, 51, 98, 97, 52, 98, 97, 53, 98] :: utext"
  have n: "normalise_digits ?digit ?input =
      [97, 60, 110, 62, 98, 97, 60, 110, 62, 98, 97, 60, 110, 62, 98, 97, 60, 110, 62, 98]"
    by (simp add: digit_placeholder_def)
  have d: "detect_repetition ?digit ?input 5 1" unfolding detect_repetition_def n
    by (simp add: py_slice_def slice_index_def str_count_def count_from.simps)
  then show ?thesis
    using detect_repetition_exact [of 5 1 ?digit ?input, unfolded n] by (auto simp: Let_def length_Suc_conv)
qed

text \<open>C31: flags and reasons agree. In every run of the stop bookkeeping over batch-sized steps, every sequence keeps a
  reason with a name, it has finished exactly when its reason is not the length cap, and a step finishes, with reason
  \<^verbatim>\<open>eos\<close>, exactly the unfinished sequences whose position is writable and whose token is a stop id; a sequence that
  has finished keeps its reason.\<close>

theorem stop_reasons_agree:
  assumes "stop_init b ids v = Inr st0" "\<forall>i \<in> set ids. 0 \<le> i" "stop_run st0 st"
  shows "(\<exists>rs. stop_reasons st = Inr rs \<and> length rs = b \<and> (\<forall>i < b. st_finished st ! i \<longleftrightarrow> rs ! i \<noteq> ''length'')) \<and>
    (\<forall>next_token writable st'. length next_token = b \<longrightarrow> length writable = b \<longrightarrow>
       (\<forall>t \<in> set next_token. 0 \<le> t \<and> t < int v) \<longrightarrow> stop_update next_token writable st = Inr st' \<longrightarrow>
       (\<forall>i < b. let hit = writable ! i \<and> next_token ! i \<in> set ids \<and> \<not> st_finished st ! i
          in st_finished st' ! i = (st_finished st ! i \<or> hit) \<and> st_reason st' ! i = (if hit then 1 else st_reason st ! i)))"
proof (intro conjI allI impI)
  note st = stop_run_ok [OF assms(3)] stop_init_ok [OF assms(1)]
  then have ok: "stop_ok st" "st_batch_size st = b" "st_is_stop st = st_is_stop st0" by auto
  have names: "r \<le> 2 \<Longrightarrow> r < length REASON_NAMES \<and> (REASON_NAMES ! r \<noteq> ''length'' \<longleftrightarrow> r \<noteq> 0)" for r
    by (auto simp: REASON_NAMES_def numeral_2_eq_2 le_Suc_eq)
  have "\<forall>r \<in> set (st_reason st). r \<le> 2" using ok by (auto simp: stop_ok_def in_set_conv_nth)
  then have "stop_reasons st = Inr (map ((!) REASON_NAMES) (st_reason st))" using names by (simp add: stop_reasons_def)
  moreover have "\<forall>i < b. st_finished st ! i \<longleftrightarrow> map ((!) REASON_NAMES) (st_reason st) ! i \<noteq> ''length''"
    using ok names by (simp add: stop_ok_def)
  ultimately show "\<exists>rs. stop_reasons st = Inr rs \<and> length rs = b \<and> (\<forall>i < b. st_finished st ! i \<longleftrightarrow> rs ! i \<noteq> ''length'')"
    using ok by (auto simp: stop_ok_def)
  fix next_token writable st' i
  assume a: "length next_token = b" "length writable = b" "\<forall>t \<in> set next_token. 0 \<le> t \<and> t < int v"
    "stop_update next_token writable st = Inr st'" "i < b"
  have t: "length (st_is_stop st) = v \<and> (st_is_stop st ! nat (next_token ! i) \<longleftrightarrow> next_token ! i \<in> set ids)"
    unfolding ok(3) by (rule stop_table [OF assms(1,2)]) (use a in auto)
  show "let hit = writable ! i \<and> next_token ! i \<in> set ids \<and> \<not> st_finished st ! i
    in st_finished st' ! i = (st_finished st ! i \<or> hit) \<and> st_reason st' ! i = (if hit then 1 else st_reason st ! i)"
    using stop_update_nth [OF a(4) ok(1), of i] a ok(2) t by (simp add: Let_def)
qed

theorem stop_reasons_agree_witness:
  "\<exists>st0 st1 rs. stop_init 2 [7] 10 = Inr st0 \<and> stop_update [7, 7] [True, False] st0 = Inr st1 \<and>
     stop_reasons st1 = Inr rs \<and> st_finished st1 ! 0 = (rs ! 0 \<noteq> ''length'')"
proof -
  obtain st0 where i: "stop_init 2 [7] 10 = Inr st0" by (simp add: stop_init_def tensor_index_def)
  have z: "\<forall>i \<in> set [7]. (0 :: int) \<le> i" by simp
  have b: "st_batch_size st0 = 2" using stop_init_ok [OF i] by simp
  have "\<exists>st1. stop_update [7, 7] [True, False] st0 = Inr st1"
    using i by (auto simp: stop_init_def tensor_index_def stop_update_def Let_def)
  then obtain st1 where u: "stop_update [7, 7] [True, False] st0 = Inr st1" ..
  have "stop_run st0 st1" by (rule stop_step [OF stop_start _ _ u]) (simp_all add: b)
  from stop_reasons_agree [OF i z this] obtain rs where
    "stop_reasons st1 = Inr rs" "\<forall>i < 2. st_finished st1 ! i \<longleftrightarrow> rs ! i \<noteq> ''length''" by blast
  then show ?thesis using i u by (intro exI [of _ st0] exI [of _ st1] exI [of _ rs]) auto
qed

end
