(* ===== verification/Load_Policy.thy ===== *)
theory Load_Policy
  imports Block_Hash
begin

text \<open>
  The routing policies of data-parallel serving (the first part of \<^verbatim>\<open>src/rapid_llm/engine/data_parallel.py\<close>): round
  robin, least requests, least tokens, and the cache-aware policy, which charges a replica for the tokens it has
  not cached and remembers the block hashes it routed there. A Python \<^verbatim>\<open>OrderedDict\<close> used as an ordered set is
  the list of its keys, oldest first.

  The locale \<open>charging\<close> is what the policies that track load promise: a selection charges one replica and
  records the charge, a release takes exactly that charge back. From these two laws it follows that the load of
  a replica is always the sum of the charges in flight.
\<close>

section \<open>The policies\<close>

type_synonym rid = string

fun decimal :: "nat \<Rightarrow> string" where
  "decimal n = (if n < 10 then [char_of (48 + n)] else decimal (n div 10) @ [char_of (48 + n mod 10)])"

declare decimal.simps [simp del]

text \<open>\<^verbatim>\<open>_request_id\<close>: a missing or empty id draws the next anonymous one.\<close>

definition policy_request_id :: "rid option \<Rightarrow> nat \<Rightarrow> rid \<times> nat" where
  "policy_request_id r anon =
     (case r of Some i \<Rightarrow> if i = [] then (''policy-'' @ decimal anon, anon + 1) else (i, anon)
      | None \<Rightarrow> (''policy-'' @ decimal anon, anon + 1))"

record round_robin =
  rr_dp_size :: nat
  rr_counter :: nat

definition rr_init :: "int \<Rightarrow> round_robin res" where
  "rr_init dp = (if dp < 1 then Inl ValueError else Inr \<lparr>rr_dp_size = nat dp, rr_counter = 0\<rparr>)"

definition rr_select :: "round_robin \<Rightarrow> round_robin \<times> nat res" where
  "rr_select p = (p\<lparr>rr_counter := rr_counter p + 1\<rparr>, Inr (rr_counter p mod rr_dp_size p))"

text \<open>\<^verbatim>\<open>min(range(n), key=...)\<close>: the first index with the least key.\<close>

fun arg_least :: "(nat \<Rightarrow> int) \<Rightarrow> nat list \<Rightarrow> nat \<Rightarrow> nat" where
  "arg_least key [] best = best"
| "arg_least key (i # is) best = arg_least key is (if key i < key best then i else best)"

definition min_range :: "nat \<Rightarrow> (nat \<Rightarrow> int) \<Rightarrow> nat" where
  "min_range n key = arg_least key [1..<n] 0"

type_synonym charges = "(rid, nat \<times> int) dict"

text \<open>\<^verbatim>\<open>release\<close> of both load-tracking classes.\<close>

definition release_charge :: "rid \<Rightarrow> int list \<Rightarrow> charges \<Rightarrow> int list \<times> charges" where
  "release_charge i ld ch =
     (case map_of ch i of
        None \<Rightarrow> (ld, ch)
      | Some (r, amount) \<Rightarrow> (ld[r := max 0 (ld ! r - amount)], AList.delete i ch))"

record counting_policy =
  cp_dp_size :: nat
  cp_anon :: nat
  cp_load :: "int list"
  cp_charges :: charges

definition counting_init :: "int \<Rightarrow> counting_policy res" where
  "counting_init dp =
     (if dp < 1 then Inl ValueError
      else Inr \<lparr>cp_dp_size = nat dp, cp_anon = 0, cp_load = replicate (nat dp) 0, cp_charges = []\<rparr>)"

definition request_weight :: "int \<Rightarrow> int" where
  "request_weight estimated = 1"

definition token_weight :: "int \<Rightarrow> int" where
  "token_weight estimated = max 1 estimated"

definition counting_select :: "(int \<Rightarrow> int) \<Rightarrow> int \<Rightarrow> rid option \<Rightarrow> counting_policy \<Rightarrow> counting_policy \<times> nat res" where
  "counting_select weight estimated r p =
     (case policy_request_id r (cp_anon p) of (i, anon) \<Rightarrow>
        let replica = min_range (cp_dp_size p) (\<lambda>k. cp_load p ! k);
            charge = weight estimated
        in (p\<lparr>cp_anon := anon, cp_load := (cp_load p)[replica := cp_load p ! replica + charge],
              cp_charges := AList.update i (replica, charge) (cp_charges p)\<rparr>, Inr replica))"

definition counting_release :: "rid \<Rightarrow> counting_policy \<Rightarrow> counting_policy" where
  "counting_release i p =
     (case release_charge i (cp_load p) (cp_charges p) of (ld, ch) \<Rightarrow> p\<lparr>cp_load := ld, cp_charges := ch\<rparr>)"

record cache_policy =
  ca_dp_size :: nat
  ca_anon :: nat
  ca_block_size :: nat
  ca_hash_seed :: int
  ca_capacity :: nat
  ca_resident :: "nat list list"
  ca_load :: "int list"
  ca_charges :: charges

definition cache_policy_init :: "int \<Rightarrow> int \<Rightarrow> int \<Rightarrow> int \<Rightarrow> cache_policy res" where
  "cache_policy_init dp bs seed capacity =
     (if dp < 1 then Inl ValueError
      else if bs < 1 then Inl ValueError
      else if capacity < 1 then Inl ValueError
      else Inr \<lparr>ca_dp_size = nat dp, ca_anon = 0, ca_block_size = nat bs, ca_hash_seed = seed,
                ca_capacity = nat capacity, ca_resident = replicate (nat dp) [],
                ca_load = replicate (nat dp) 0, ca_charges = []\<rparr>)"

definition uncached :: "cache_policy \<Rightarrow> int \<Rightarrow> nat \<Rightarrow> int" where
  "uncached p prompt_tokens cached = max 1 (prompt_tokens - int (cached * ca_block_size p))"

primrec cached_run :: "nat list \<Rightarrow> nat list \<Rightarrow> nat" where
  "cached_run resident [] = 0"
| "cached_run resident (h # hs) = (if h \<in> set resident then Suc (cached_run resident hs) else 0)"

definition policy_cached_blocks :: "cache_policy \<Rightarrow> nat \<Rightarrow> nat list \<Rightarrow> nat" where
  "policy_cached_blocks p replica hs = cached_run (ca_resident p ! replica) hs"

text \<open>\<^verbatim>\<open>_remember\<close>: every hash moves to the end; then the oldest entries leave while the index is too long.\<close>

definition refresh :: "nat \<Rightarrow> nat list \<Rightarrow> nat list" where
  "refresh h resident = remove1 h resident @ [h]"

fun pop_oldest :: "nat \<Rightarrow> nat list \<Rightarrow> nat list" where
  "pop_oldest capacity [] = []"
| "pop_oldest capacity (h # hs) =
     (if length (h # hs) > capacity then pop_oldest capacity hs else h # hs)"

definition remember :: "nat \<Rightarrow> nat list \<Rightarrow> cache_policy \<Rightarrow> cache_policy" where
  "remember replica hs p =
     p\<lparr>ca_resident := (ca_resident p)[replica := pop_oldest (ca_capacity p) (fold refresh hs (ca_resident p ! replica))]\<rparr>"

text \<open>A selection that raises (a token that does not fit the hash layout) has drawn its anonymous id already.\<close>

definition cache_select ::
  "(bytes \<Rightarrow> bytes) \<Rightarrow> int \<Rightarrow> int list option \<Rightarrow> rid option \<Rightarrow> cache_policy \<Rightarrow> cache_policy \<times> nat res" where
  "cache_select D estimated token_ids r p =
     (case policy_request_id r (ca_anon p) of (i, anon) \<Rightarrow>
        let ts = (case token_ids of None \<Rightarrow> [] | Some ts \<Rightarrow> ts)
        in case (if ts = [] then Inr [] else iter_block_hashes D ts (ca_block_size p) (ca_hash_seed p)) of
             Inl e \<Rightarrow> (p\<lparr>ca_anon := anon\<rparr>, Inl e)
           | Inr hs \<Rightarrow>
             let prompt_tokens = (if ts = [] then max 0 estimated else int (length ts));
                 cost = (\<lambda>k. ca_load p ! k + uncached p prompt_tokens (policy_cached_blocks p k hs));
                 replica = min_range (ca_dp_size p) cost;
                 charge = uncached p prompt_tokens (policy_cached_blocks p replica hs)
             in (remember replica hs
                   (p\<lparr>ca_anon := anon, ca_load := (ca_load p)[replica := ca_load p ! replica + charge],
                      ca_charges := AList.update i (replica, charge) (ca_charges p)\<rparr>), Inr replica))"

definition cache_release :: "rid \<Rightarrow> cache_policy \<Rightarrow> cache_policy" where
  "cache_release i p =
     (case release_charge i (ca_load p) (ca_charges p) of (ld, ch) \<Rightarrow> p\<lparr>ca_load := ld, ca_charges := ch\<rparr>)"

definition policy_cached_tokens :: "(bytes \<Rightarrow> bytes) \<Rightarrow> int list \<Rightarrow> nat \<Rightarrow> cache_policy \<Rightarrow> nat res" where
  "policy_cached_tokens D ts replica p =
     rbind (iter_block_hashes D ts (ca_block_size p) (ca_hash_seed p)) (\<lambda>hs.
       Inr (policy_cached_blocks p replica hs * ca_block_size p))"

definition policy_resident_blocks :: "nat \<Rightarrow> cache_policy \<Rightarrow> nat" where
  "policy_resident_blocks replica p = length (ca_resident p ! replica)"

datatype load_policy =
    RoundRobinPolicy round_robin
  | RequestCountPolicy counting_policy
  | TokenCountPolicy counting_policy
  | CacheAwarePolicy cache_policy

definition create_load_policy :: "string \<Rightarrow> int \<Rightarrow> load_policy res" where
  "create_load_policy name dp =
     (if name = ''round_robin'' then rbind (rr_init dp) (\<lambda>p. Inr (RoundRobinPolicy p))
      else if name = ''total_requests'' then rbind (counting_init dp) (\<lambda>p. Inr (RequestCountPolicy p))
      else if name = ''total_tokens'' then rbind (counting_init dp) (\<lambda>p. Inr (TokenCountPolicy p))
      else if name = ''cache_aware'' then rbind (cache_policy_init dp 16 0 65536) (\<lambda>p. Inr (CacheAwarePolicy p))
      else Inl ValueError)"

text \<open>The calls the controller makes, by the class of the policy.\<close>

definition policy_select ::
  "(bytes \<Rightarrow> bytes) \<Rightarrow> int \<Rightarrow> int list option \<Rightarrow> rid option \<Rightarrow> load_policy \<Rightarrow> load_policy \<times> nat res" where
  "policy_select D estimated token_ids r P =
     (case P of
        RoundRobinPolicy p \<Rightarrow> apfst RoundRobinPolicy (rr_select p)
      | RequestCountPolicy p \<Rightarrow> apfst RequestCountPolicy (counting_select request_weight estimated r p)
      | TokenCountPolicy p \<Rightarrow> apfst TokenCountPolicy (counting_select token_weight estimated r p)
      | CacheAwarePolicy p \<Rightarrow> apfst CacheAwarePolicy (cache_select D estimated token_ids r p))"

definition policy_release :: "rid \<Rightarrow> load_policy \<Rightarrow> load_policy" where
  "policy_release i P =
     (case P of
        RoundRobinPolicy p \<Rightarrow> P
      | RequestCountPolicy p \<Rightarrow> RequestCountPolicy (counting_release i p)
      | TokenCountPolicy p \<Rightarrow> TokenCountPolicy (counting_release i p)
      | CacheAwarePolicy p \<Rightarrow> CacheAwarePolicy (cache_release i p))"

section \<open>The first least index\<close>

lemma arg_least_props:
  "arg_least key is b \<in> set (b # is)"
  "\<forall>j \<in> set (b # is). key (arg_least key is b) \<le> key j"
proof (induction "is" arbitrary: b)
  case (Cons i "is")
  { case 1 then show ?case using Cons.IH(1) [of i] Cons.IH(1) [of b] by auto }
  { case 2 then show ?case using Cons.IH(2) [of i] Cons.IH(2) [of b] by fastforce }
qed simp_all

lemma min_range_less: "0 < n \<Longrightarrow> min_range n key < n"
  using arg_least_props(1) [of key "[1..<n]" 0] by (auto simp: min_range_def)

lemma min_range_least: "j < n \<Longrightarrow> key (min_range n key) \<le> key j"
  using arg_least_props(2) [of 0 "[1..<n]" key] by (cases j) (auto simp: min_range_def)

section \<open>Charges in flight\<close>

definition charge_on :: "nat \<Rightarrow> charges \<Rightarrow> int" where
  "charge_on r ch = (\<Sum>(i, k, c) \<leftarrow> ch. if k = r then c else 0)"

lemma charge_on_simps [simp]:
  "charge_on r [] = 0"
  "charge_on r ((i, k, c) # ch) = (if k = r then c else 0) + charge_on r ch"
  by (simp_all add: charge_on_def)

definition loads_ok :: "nat \<Rightarrow> int list \<Rightarrow> charges \<Rightarrow> bool" where
  "loads_ok n ld ch \<longleftrightarrow>
     0 < n \<and> length ld = n \<and> dict_ok ch \<and> (\<forall>(i, k, c) \<in> set ch. k < n \<and> 1 \<le> c) \<and>
     (\<forall>r < n. ld ! r = charge_on r ch)"

lemma charge_on_append [simp]: "charge_on r (ch @ ch') = charge_on r ch + charge_on r ch'"
  by (simp add: charge_on_def)

lemma charge_on_delete:
  "dict_ok ch \<Longrightarrow> map_of ch i = Some (k, c) \<Longrightarrow>
   charge_on r (AList.delete i ch) = charge_on r ch - (if k = r then c else 0)"
  by (induction ch) (auto simp: delete_notin split: if_splits)

lemma charge_on_nonneg: "\<forall>(i, k, c) \<in> set ch. 1 \<le> c \<Longrightarrow> 0 \<le> charge_on r ch"
  by (induction ch) auto

lemma update_fresh_set: "i \<notin> fst ` set ch \<Longrightarrow> AList.update i v ch = ch @ [(i, v)]"
  by (induction ch) auto

lemma loads_ok_charge:
  assumes "loads_ok n ld ch" "i \<notin> fst ` set ch" "r < n" "1 \<le> c"
  shows "loads_ok n (ld[r := ld ! r + c]) (AList.update i (r, c) ch)"
  using assms
  by (auto simp: loads_ok_def update_fresh_set nth_list_update)

lemma loads_ok_release:
  assumes "loads_ok n ld ch"
  shows "loads_ok n (fst (release_charge i ld ch)) (snd (release_charge i ld ch))"
proof (cases "map_of ch i")
  case None
  then show ?thesis using assms by (simp add: release_charge_def)
next
  case (Some v)
  obtain k c where v: "v = (k, c)" by (cases v)
  have ok: "dict_ok ch" "length ld = n" "k < n" "\<forall>r < n. ld ! r = charge_on r ch"
    using assms map_of_SomeD [OF Some] by (auto simp: loads_ok_def v)
  have del: "\<forall>(j, k, c) \<in> set (AList.delete i ch). k < n \<and> 1 \<le> c"
    using assms by (fastforce simp: loads_ok_def AList.delete_eq)
  have "0 \<le> charge_on k (AList.delete i ch)"
    by (rule charge_on_nonneg) (use del in fastforce)
  then have "max 0 (ld ! k - c) = charge_on k (AList.delete i ch)"
    using ok Some by (simp add: charge_on_delete v)
  moreover have "dict_ok (AList.delete i ch)" using ok(1) by (rule distinct_delete)
  ultimately show ?thesis
    using ok del Some assms
    by (auto simp: release_charge_def loads_ok_def v nth_list_update charge_on_delete)
qed

lemma loads_ok_init: "0 < n \<Longrightarrow> loads_ok n (replicate n 0) []"
  by (simp add: loads_ok_def)

lemma loads_ok_idle: "loads_ok n ld [] \<Longrightarrow> ld = replicate n 0"
  by (auto simp: loads_ok_def list_eq_iff_nth_eq)

lemma release_charge_charges: "map_of (snd (release_charge i ld ch)) = (map_of ch)(i := None)"
  by (auto simp: release_charge_def delete_conv' split: option.split)

section \<open>The contract of a policy that tracks load\<close>

locale charging =
  fixes size_of :: "'s \<Rightarrow> nat" and load :: "'s \<Rightarrow> int list" and charges :: "'s \<Rightarrow> charges"
    and ident :: "'q \<Rightarrow> 's \<Rightarrow> rid" and select :: "'q \<Rightarrow> 's \<Rightarrow> 's \<times> nat res" and release :: "rid \<Rightarrow> 's \<Rightarrow> 's"
  assumes select_charges: "0 < size_of s \<Longrightarrow> select q s = (s', Inr r) \<Longrightarrow>
      r < size_of s \<and> size_of s' = size_of s \<and>
      (\<exists>c \<ge> 1. load s' = (load s)[r := load s ! r + c] \<and> charges s' = AList.update (ident q s) (r, c) (charges s))"
    and select_raises: "select q s = (s', Inl e) \<Longrightarrow>
      size_of s' = size_of s \<and> load s' = load s \<and> charges s' = charges s"
    and release_discharges: "size_of (release i s) = size_of s \<and>
      (load (release i s), charges (release i s)) = release_charge i (load s) (charges s)"
begin

definition accounted :: "'s \<Rightarrow> bool" where
  "accounted s \<longleftrightarrow> loads_ok (size_of s) (load s) (charges s)"

lemma accounted_pos: "accounted s \<Longrightarrow> 0 < size_of s"
  by (simp add: accounted_def loads_ok_def)

lemma select_accounted:
  assumes "accounted s" "ident q s \<notin> fst ` set (charges s)" "select q s = (s', x)"
  shows "accounted s' \<and> size_of s' = size_of s"
proof (cases x)
  case (Inl e)
  with select_raises [of q s s' e] assms show ?thesis by (simp add: accounted_def)
next
  case (Inr r)
  with select_charges [of s q s' r] accounted_pos [OF assms(1)] assms loads_ok_charge show ?thesis
    by (auto simp: accounted_def)
qed

lemma select_in_range: "accounted s \<Longrightarrow> select q s = (s', Inr r) \<Longrightarrow> r < size_of s"
  using select_charges accounted_pos by blast

lemma select_records:
  assumes "accounted s" "select q s = (s', Inr r)"
  shows "\<exists>c \<ge> 1. map_of (charges s') = (map_of (charges s))(ident q s \<mapsto> (r, c))"
  using select_charges [OF accounted_pos [OF assms(1)] assms(2)] by (auto simp: update_conv')

lemma release_accounted: "accounted s \<Longrightarrow> accounted (release i s) \<and> size_of (release i s) = size_of s"
  using release_discharges [of i s] loads_ok_release [of "size_of s" "load s" "charges s" i]
  by (metis accounted_def fst_conv snd_conv)

lemma release_forgets: "map_of (charges (release i s)) = (map_of (charges s))(i := None)"
  using release_discharges [of i s] release_charge_charges by (metis snd_conv)

end

lemma weight_pos: "1 \<le> request_weight e" "1 \<le> token_weight e"
  by (simp_all add: request_weight_def token_weight_def)

lemma counting_select_no_raise: "counting_select w e r p \<noteq> (p', Inl x)"
  by (simp add: counting_select_def Let_def split: prod.splits)

lemma counting_select_charges:
  assumes "counting_select w e r p = (p', Inr k)" "1 \<le> w e" "0 < cp_dp_size p"
  shows "k < cp_dp_size p \<and> cp_dp_size p' = cp_dp_size p \<and>
    (\<exists>c \<ge> 1. cp_load p' = (cp_load p)[k := cp_load p ! k + c] \<and>
       cp_charges p' = AList.update (fst (policy_request_id r (cp_anon p))) (k, c) (cp_charges p))"
  using assms by (auto simp: counting_select_def Let_def min_range_less split: prod.splits intro!: exI [of _ "w e"])

lemma counting_select_least:
  assumes "counting_select w e r p = (p', Inr k)" "j < cp_dp_size p"
  shows "cp_load p ! k \<le> cp_load p ! j"
  using assms by (auto simp: counting_select_def Let_def split: prod.splits intro: min_range_least)

lemma counting_release_eq:
  "cp_dp_size (counting_release i p) = cp_dp_size p"
  "(cp_load (counting_release i p), cp_charges (counting_release i p)) = release_charge i (cp_load p) (cp_charges p)"
  by (auto simp: counting_release_def split: prod.splits)

interpretation req: charging cp_dp_size cp_load cp_charges "\<lambda>(e, r) p. fst (policy_request_id r (cp_anon p))"
  "\<lambda>(e, r). counting_select request_weight e r" counting_release
  by unfold_locales
    (auto simp: counting_release_eq weight_pos counting_select_no_raise dest!: counting_select_charges)

interpretation tok: charging cp_dp_size cp_load cp_charges "\<lambda>(e, r) p. fst (policy_request_id r (cp_anon p))"
  "\<lambda>(e, r). counting_select token_weight e r" counting_release
  by unfold_locales
    (auto simp: counting_release_eq weight_pos counting_select_no_raise dest!: counting_select_charges)

section \<open>The cache-aware policy\<close>

definition select_hashes :: "(bytes \<Rightarrow> bytes) \<Rightarrow> int list option \<Rightarrow> cache_policy \<Rightarrow> nat list res" where
  "select_hashes D token_ids p =
     (case token_ids of None \<Rightarrow> Inr []
      | Some ts \<Rightarrow> if ts = [] then Inr [] else iter_block_hashes D ts (ca_block_size p) (ca_hash_seed p))"

definition select_cost :: "int \<Rightarrow> int list option \<Rightarrow> nat list \<Rightarrow> cache_policy \<Rightarrow> nat \<Rightarrow> int" where
  "select_cost estimated token_ids hs p k =
     uncached p (case token_ids of None \<Rightarrow> max 0 estimated
                 | Some ts \<Rightarrow> if ts = [] then max 0 estimated else int (length ts)) (policy_cached_blocks p k hs)"

lemma cache_select_eq:
  "cache_select D est ts r p =
     (case select_hashes D ts p of
        Inl e \<Rightarrow> (p\<lparr>ca_anon := snd (policy_request_id r (ca_anon p))\<rparr>, Inl e)
      | Inr hs \<Rightarrow>
        let k = min_range (ca_dp_size p) (\<lambda>k. ca_load p ! k + select_cost est ts hs p k)
        in (remember k hs (p\<lparr>ca_anon := snd (policy_request_id r (ca_anon p)),
              ca_load := (ca_load p)[k := ca_load p ! k + select_cost est ts hs p k],
              ca_charges := AList.update (fst (policy_request_id r (ca_anon p)))
                (k, select_cost est ts hs p k) (ca_charges p)\<rparr>), Inr k))"
  by (cases ts)
    (simp_all only: cache_select_def select_hashes_def select_cost_def Let_def split_def option.case if_True if_False
      sum.case refl cong: if_cong)

lemma remember_simps [simp]:
  "ca_dp_size (remember k hs p) = ca_dp_size p" "ca_load (remember k hs p) = ca_load p"
  "ca_charges (remember k hs p) = ca_charges p" "ca_block_size (remember k hs p) = ca_block_size p"
  "ca_hash_seed (remember k hs p) = ca_hash_seed p" "ca_capacity (remember k hs p) = ca_capacity p"
  by (simp_all add: remember_def)

lemma select_cost_pos: "1 \<le> select_cost est ts hs p k"
  by (simp add: select_cost_def uncached_def)

lemma cache_select_raises: "cache_select D est ts r p = (p', Inl e) \<Longrightarrow>
   p' = p\<lparr>ca_anon := snd (policy_request_id r (ca_anon p))\<rparr> \<and> select_hashes D ts p = Inl e"
  by (auto simp: cache_select_eq Let_def split: sum.splits)

lemma cache_select_routes:
  assumes "cache_select D est ts r p = (p', Inr k)"
  obtains hs where "select_hashes D ts p = Inr hs"
    "k = min_range (ca_dp_size p) (\<lambda>k. ca_load p ! k + select_cost est ts hs p k)"
    "p' = remember k hs (p\<lparr>ca_anon := snd (policy_request_id r (ca_anon p)),
        ca_load := (ca_load p)[k := ca_load p ! k + select_cost est ts hs p k],
        ca_charges := AList.update (fst (policy_request_id r (ca_anon p))) (k, select_cost est ts hs p k) (ca_charges p)\<rparr>)"
  using assms by (auto simp: cache_select_eq Let_def split: sum.splits)

lemma cache_select_charges:
  assumes "cache_select D est ts r p = (p', Inr k)" "0 < ca_dp_size p"
  shows "k < ca_dp_size p \<and> ca_dp_size p' = ca_dp_size p \<and>
    (\<exists>c \<ge> 1. ca_load p' = (ca_load p)[k := ca_load p ! k + c] \<and>
       ca_charges p' = AList.update (fst (policy_request_id r (ca_anon p))) (k, c) (ca_charges p))"
proof -
  from assms(1) obtain hs where
    k: "k = min_range (ca_dp_size p) (\<lambda>k. ca_load p ! k + select_cost est ts hs p k)" and
    p': "p' = remember k hs (p\<lparr>ca_anon := snd (policy_request_id r (ca_anon p)),
        ca_load := (ca_load p)[k := ca_load p ! k + select_cost est ts hs p k],
        ca_charges := AList.update (fst (policy_request_id r (ca_anon p))) (k, select_cost est ts hs p k) (ca_charges p)\<rparr>)"
    by (rule cache_select_routes)
  have "k < ca_dp_size p" unfolding k using assms(2) by (rule min_range_less)
  then show ?thesis
    unfolding p' by (auto simp: select_cost_pos intro!: exI [of _ "select_cost est ts hs p k"])
qed

lemma cache_release_eq:
  "ca_dp_size (cache_release i p) = ca_dp_size p"
  "(ca_load (cache_release i p), ca_charges (cache_release i p)) = release_charge i (ca_load p) (ca_charges p)"
  by (auto simp: cache_release_def split: prod.splits)

interpretation cap: charging ca_dp_size ca_load ca_charges "\<lambda>(e, ts, r) p. fst (policy_request_id r (ca_anon p))"
  "\<lambda>(e, ts, r). cache_select D e ts r" cache_release for D
  by unfold_locales (auto simp: cache_release_eq dest: cache_select_charges dest!: cache_select_raises)

subsection \<open>The resident index\<close>

lemma set_refresh: "set (refresh h xs) = insert h (set xs)"
proof (rule set_eqI)
  fix x show "x \<in> set (refresh h xs) \<longleftrightarrow> x \<in> insert h (set xs)"
    by (cases "x = h") (auto simp: refresh_def)
qed

lemma distinct_refresh: "distinct xs \<Longrightarrow> distinct (refresh h xs)"
  by (auto simp: refresh_def)

lemma set_fold_refresh: "set (fold refresh hs xs) = set hs \<union> set xs"
  by (induction hs arbitrary: xs) (auto simp: set_refresh)

lemma distinct_fold_refresh: "distinct xs \<Longrightarrow> distinct (fold refresh hs xs)"
  by (induction hs arbitrary: xs) (auto simp: distinct_refresh)

lemma pop_oldest_drop: "pop_oldest c xs = drop (length xs - c) xs"
  by (induction c xs rule: pop_oldest.induct) (auto simp: Suc_diff_le)

text \<open>The hashes just refreshed are among the last entries.\<close>

lemma fold_refresh_tail: "\<exists>ys zs. fold refresh hs xs = ys @ zs \<and> set hs \<subseteq> set zs \<and> length zs \<le> length hs"
proof (induction hs rule: rev_induct)
  case Nil
  show ?case by (intro exI [of _ xs] exI [of _ "[]"]) simp
next
  case (snoc h hs)
  then obtain ys zs where IH: "fold refresh hs xs = ys @ zs" "set hs \<subseteq> set zs" "length zs \<le> length hs" by blast
  have eq: "fold refresh (hs @ [h]) xs = remove1 h (ys @ zs) @ [h]"
    using IH(1) by (simp add: refresh_def [of h "ys @ zs"])
  show ?case
  proof (cases "h \<in> set ys")
    case True
    then show ?thesis unfolding eq using IH(2,3)
      by (intro exI [of _ "remove1 h ys"] exI [of _ "zs @ [h]"]) (auto simp: remove1_append)
  next
    case False
    have "set (hs @ [h]) \<subseteq> set (remove1 h zs @ [h])"
    proof
      fix x assume "x \<in> set (hs @ [h])"
      then show "x \<in> set (remove1 h zs @ [h])" using IH(2) by (cases "x = h") auto
    qed
    moreover have "length (remove1 h zs @ [h]) \<le> length (hs @ [h])"
      using IH(3) by (auto simp: length_remove1)
    moreover have "remove1 h (ys @ zs) @ [h] = ys @ remove1 h zs @ [h]"
      using False by (simp add: remove1_append)
    ultimately show ?thesis unfolding eq by blast
  qed
qed

lemma refreshed_survive:
  assumes "length hs \<le> c"
  shows "set hs \<subseteq> set (pop_oldest c (fold refresh hs xs))"
proof -
  obtain ys zs where z: "fold refresh hs xs = ys @ zs" "set hs \<subseteq> set zs" "length zs \<le> length hs"
    using fold_refresh_tail by blast
  then have "pop_oldest c (fold refresh hs xs) = drop (length (ys @ zs) - c) ys @ zs"
    using assms by (simp add: pop_oldest_drop)
  with z(2) show ?thesis by auto
qed

lemma cached_run_all: "set hs \<subseteq> set xs \<Longrightarrow> cached_run xs (hs @ ks) = length hs + cached_run xs ks"
  by (induction hs) auto

lemma cached_run_le: "cached_run xs hs \<le> length hs"
  by (induction hs) auto

definition index_ok :: "cache_policy \<Rightarrow> bool" where
  "index_ok p \<longleftrightarrow> 0 < ca_block_size p \<and> 0 < ca_capacity p \<and> length (ca_resident p) = ca_dp_size p \<and>
     (\<forall>xs \<in> set (ca_resident p). distinct xs \<and> length xs \<le> ca_capacity p)"

lemma remember_index_ok: "index_ok p \<Longrightarrow> index_ok (remember k hs p)"
proof (cases "k < length (ca_resident p)")
  case True
  moreover assume ok: "index_ok p"
  ultimately have "distinct (ca_resident p ! k)" by (auto simp: index_ok_def)
  with ok show ?thesis
    by (auto simp: index_ok_def remember_def pop_oldest_drop distinct_fold_refresh
        dest!: subsetD [OF set_update_subset_insert])
next
  case False
  moreover assume "index_ok p"
  ultimately show ?thesis by (simp add: index_ok_def remember_def list_update_beyond)
qed

lemma index_ok_bookkeeping: "index_ok (p\<lparr>ca_anon := a, ca_load := l, ca_charges := c\<rparr>) = index_ok p"
  "index_ok (p\<lparr>ca_anon := a\<rparr>) = index_ok p" "index_ok (p\<lparr>ca_load := l, ca_charges := c\<rparr>) = index_ok p"
  by (simp_all add: index_ok_def)

lemma cache_select_index_ok: "index_ok p \<Longrightarrow> cache_select D est ts r p = (p', x) \<Longrightarrow> index_ok p'"
  by (auto simp: cache_select_eq Let_def index_ok_bookkeeping remember_index_ok split: sum.splits)

lemma cache_release_index_ok: "index_ok (cache_release i p) = index_ok p"
  by (simp add: cache_release_def index_ok_bookkeeping split: prod.splits)

text \<open>
  Prefix affinity: once a prompt is routed to a replica, every prompt that extends it finds all full blocks of the
  first prompt there, as long as those blocks fit in the index.
\<close>

lemma affinity:
  assumes "index_ok p" "0 < ca_dp_size p" "cache_select D est (Some ts) r p = (p', Inr k)"
    and "length ts div ca_block_size p \<le> ca_capacity p"
    and "policy_cached_tokens D (ts @ us) k p' = Inr n"
  shows "length ts div ca_block_size p * ca_block_size p \<le> n"
proof -
  from assms(3) obtain hs where
    hs: "select_hashes D (Some ts) p = Inr hs" and
    k: "k = min_range (ca_dp_size p) (\<lambda>k. ca_load p ! k + select_cost est (Some ts) hs p k)" and
    p': "p' = remember k hs (p\<lparr>ca_anon := snd (policy_request_id r (ca_anon p)),
        ca_load := (ca_load p)[k := ca_load p ! k + select_cost est (Some ts) hs p k],
        ca_charges := AList.update (fst (policy_request_id r (ca_anon p)))
          (k, select_cost est (Some ts) hs p k) (ca_charges p)\<rparr>)"
    by (rule cache_select_routes)
  have hs': "iter_block_hashes D ts (ca_block_size p) (ca_hash_seed p) = Inr hs"
    using hs assms(1) by (auto simp: select_hashes_def iter_block_hashes_def index_ok_def split: if_splits)
  from assms(5) obtain ks where
    ks: "iter_block_hashes D (ts @ us) (ca_block_size p) (ca_hash_seed p) = Inr ks" and
    n: "n = policy_cached_blocks p' k ks * ca_block_size p"
    by (auto simp: policy_cached_tokens_def p')
  have len: "length hs = length ts div ca_block_size p"
    by (rule iter_block_hashes_length [OF hs'])
  have "k < length (ca_resident p)"
    using assms(1,2) min_range_less k by (simp add: index_ok_def)
  then have "ca_resident p' ! k = pop_oldest (ca_capacity p) (fold refresh hs (ca_resident p ! k))"
    by (simp add: p' remember_def)
  then have "set hs \<subseteq> set (ca_resident p' ! k)"
    using refreshed_survive [of hs "ca_capacity p" "ca_resident p ! k"] len assms(4) by simp
  moreover have "ks = hs @ drop (length hs) ks"
    using iter_block_hashes_prefix [OF hs' ks] by (metis append_take_drop_id)
  ultimately have "length hs \<le> policy_cached_blocks p' k ks"
    using cached_run_all [of hs "ca_resident p' ! k" "drop (length hs) ks"] by (simp add: policy_cached_blocks_def)
  then show ?thesis by (simp add: n len)
qed

section \<open>Runs of a policy\<close>

definition policy_size :: "load_policy \<Rightarrow> nat" where
  "policy_size P = (case P of RoundRobinPolicy p \<Rightarrow> rr_dp_size p | RequestCountPolicy p \<Rightarrow> cp_dp_size p
     | TokenCountPolicy p \<Rightarrow> cp_dp_size p | CacheAwarePolicy p \<Rightarrow> ca_dp_size p)"

definition policy_load :: "load_policy \<Rightarrow> int list" where
  "policy_load P = (case P of RoundRobinPolicy p \<Rightarrow> [] | RequestCountPolicy p \<Rightarrow> cp_load p
     | TokenCountPolicy p \<Rightarrow> cp_load p | CacheAwarePolicy p \<Rightarrow> ca_load p)"

definition policy_charges :: "load_policy \<Rightarrow> charges" where
  "policy_charges P = (case P of RoundRobinPolicy p \<Rightarrow> [] | RequestCountPolicy p \<Rightarrow> cp_charges p
     | TokenCountPolicy p \<Rightarrow> cp_charges p | CacheAwarePolicy p \<Rightarrow> ca_charges p)"

definition policy_ident :: "rid option \<Rightarrow> load_policy \<Rightarrow> rid" where
  "policy_ident r P = fst (policy_request_id r (case P of RoundRobinPolicy p \<Rightarrow> 0 | RequestCountPolicy p \<Rightarrow> cp_anon p
     | TokenCountPolicy p \<Rightarrow> cp_anon p | CacheAwarePolicy p \<Rightarrow> ca_anon p))"

definition tracks_load :: "load_policy \<Rightarrow> bool" where
  "tracks_load P = (case P of RoundRobinPolicy p \<Rightarrow> False | _ \<Rightarrow> True)"

definition policy_ok :: "load_policy \<Rightarrow> bool" where
  "policy_ok P \<longleftrightarrow> 0 < policy_size P \<and>
     (tracks_load P \<longrightarrow> loads_ok (policy_size P) (policy_load P) (policy_charges P)) \<and>
     (case P of CacheAwarePolicy p \<Rightarrow> index_ok p | _ \<Rightarrow> True)"

lemmas policy_views =
  policy_size_def policy_load_def policy_charges_def policy_ident_def tracks_load_def

lemma policy_ident_Some [simp]: "i \<noteq> [] \<Longrightarrow> policy_ident (Some i) P = i"
  by (simp add: policy_ident_def policy_request_id_def)

lemma create_load_policy_ok:
  assumes "create_load_policy name dp = Inr P"
  shows "policy_ok P \<and> policy_size P = nat dp \<and> policy_charges P = [] \<and>
    (tracks_load P \<longleftrightarrow> name \<noteq> ''round_robin'')"
  using assms
  by (auto simp: create_load_policy_def policy_ok_def policy_views rr_init_def counting_init_def cache_policy_init_def
      index_ok_def loads_ok_init split: if_splits)

lemma policy_select_ok:
  assumes "policy_ok P" "policy_ident r P \<notin> fst ` set (policy_charges P)" "policy_select D est ts r P = (P', x)"
  shows "policy_ok P' \<and> policy_size P' = policy_size P \<and> tracks_load P' = tracks_load P"
proof (cases P)
  case (RoundRobinPolicy p)
  with assms show ?thesis
    by (auto simp: policy_ok_def policy_views policy_select_def rr_select_def)
next
  case (RequestCountPolicy p)
  with assms req.select_accounted [of p "(est, r)"] show ?thesis
    by (auto simp: policy_ok_def policy_views policy_select_def apfst_def map_prod_def req.accounted_def split: prod.splits)
next
  case (TokenCountPolicy p)
  with assms tok.select_accounted [of p "(est, r)"] show ?thesis
    by (auto simp: policy_ok_def policy_views policy_select_def apfst_def map_prod_def tok.accounted_def split: prod.splits)
next
  case (CacheAwarePolicy p)
  with assms cap.select_accounted [where s = p and q = "(est, ts, r)" and D = D]
    cache_select_index_ok [of p D est ts r] show ?thesis
    by (auto simp: policy_ok_def policy_views policy_select_def apfst_def map_prod_def cap.accounted_def split: prod.splits)
qed

lemma policy_select_route:
  assumes "policy_ok P" "policy_select D est ts r P = (P', Inr k)"
  shows "k < policy_size P \<and> (tracks_load P \<longrightarrow>
    (\<exists>c \<ge> 1. map_of (policy_charges P') = (map_of (policy_charges P))(policy_ident r P \<mapsto> (k, c))))"
proof (cases P)
  case (RoundRobinPolicy p)
  with assms show ?thesis
    by (auto simp: policy_ok_def policy_views policy_select_def rr_select_def)
next
  case (RequestCountPolicy p)
  with assms req.select_records [of p "(est, r)"] req.select_in_range [of p "(est, r)"] show ?thesis
    by (auto simp: policy_ok_def policy_views policy_select_def apfst_def map_prod_def req.accounted_def split: prod.splits)
next
  case (TokenCountPolicy p)
  with assms tok.select_records [of p "(est, r)"] tok.select_in_range [of p "(est, r)"] show ?thesis
    by (auto simp: policy_ok_def policy_views policy_select_def apfst_def map_prod_def tok.accounted_def split: prod.splits)
next
  case (CacheAwarePolicy p)
  with assms cap.select_records [where s = p and q = "(est, ts, r)" and D = D]
    cap.select_in_range [where s = p and q = "(est, ts, r)" and D = D] show ?thesis
    by (auto simp: policy_ok_def policy_views policy_select_def apfst_def map_prod_def cap.accounted_def split: prod.splits)
qed

lemma policy_select_raises:
  assumes "policy_select D est ts r P = (P', Inl e)"
  shows "policy_charges P' = policy_charges P \<and> policy_load P' = policy_load P"
  using assms
  by (auto simp: policy_select_def policy_views rr_select_def counting_select_no_raise apfst_def map_prod_def
      split: load_policy.splits prod.splits dest!: cache_select_raises)

lemma policy_release_ok:
  assumes "policy_ok P"
  shows "policy_ok (policy_release i P) \<and> policy_size (policy_release i P) = policy_size P \<and>
    tracks_load (policy_release i P) = tracks_load P"
proof (cases P)
  case (RequestCountPolicy p)
  with assms req.release_accounted [of p i] show ?thesis
    by (auto simp: policy_ok_def policy_views policy_release_def req.accounted_def)
next
  case (TokenCountPolicy p)
  with assms tok.release_accounted [of p i] show ?thesis
    by (auto simp: policy_ok_def policy_views policy_release_def tok.accounted_def)
next
  case (CacheAwarePolicy p)
  with assms cap.release_accounted [of p i] show ?thesis
    by (auto simp: policy_ok_def policy_views policy_release_def cap.accounted_def cache_release_index_ok)
qed (use assms in \<open>simp add: policy_release_def\<close>)

lemma policy_release_charges:
  "map_of (policy_charges (policy_release i P)) = (map_of (policy_charges P))(i := None)"
  by (cases P) (auto simp: policy_release_def policy_views req.release_forgets cap.release_forgets)

text \<open>
  A run of a policy: selections for requests that are not in flight, and releases in any order, of known and unknown
  requests. A selection that raises is a step too.
\<close>

inductive policy_run :: "(bytes \<Rightarrow> bytes) \<Rightarrow> load_policy \<Rightarrow> load_policy \<Rightarrow> bool" for D P where
  run_start: "policy_run D P P"
| run_select: "policy_run D P Q \<Longrightarrow> policy_ident r Q \<notin> fst ` set (policy_charges Q) \<Longrightarrow>
    policy_select D est ts r Q = (Q', x) \<Longrightarrow> policy_run D P Q'"
| run_release: "policy_run D P Q \<Longrightarrow> policy_run D P (policy_release i Q)"

lemma policy_run_ok:
  assumes "policy_run D P Q" "policy_ok P"
  shows "policy_ok Q \<and> policy_size Q = policy_size P \<and> tracks_load Q = tracks_load P"
  using assms
proof (induction)
  case (run_select Q r est ts Q' x)
  then show ?case using policy_select_ok [of Q r D est ts Q' x] by simp
next
  case (run_release Q i)
  then show ?case using policy_release_ok [of Q i] by simp
qed simp

section \<open>Properties\<close>

text \<open>C22: the load of a replica is what is in flight on it. In every run of a policy that tracks load, in any order of
  selections and releases, the load counter of each replica is the sum of the charges of the requests routed there
  and not yet released, every charge is at least one and names an existing replica, and all counters are zero when
  nothing is in flight: the clamp at zero in \<^verbatim>\<open>release\<close> never hides an error.\<close>

theorem policy_loads_exact:
  assumes "create_load_policy name dp = Inr P" "policy_run D P Q" "name \<noteq> ''round_robin''"
  shows "length (policy_load Q) = nat dp \<and>
    (\<forall>r < nat dp. policy_load Q ! r = charge_on r (policy_charges Q)) \<and>
    (\<forall>(i, k, c) \<in> set (policy_charges Q). k < nat dp \<and> 1 \<le> c) \<and>
    (policy_charges Q = [] \<longrightarrow> policy_load Q = replicate (nat dp) 0)"
proof -
  note P = create_load_policy_ok [OF assms(1)]
  have "policy_ok Q" "policy_size Q = nat dp" "tracks_load Q"
    using policy_run_ok [OF assms(2)] P assms(3) by simp_all
  then have "loads_ok (nat dp) (policy_load Q) (policy_charges Q)" by (simp add: policy_ok_def)
  then show ?thesis using loads_ok_idle [of "nat dp" "policy_load Q"] by (auto simp: loads_ok_def)
qed

theorem policy_loads_exact_witness:
  "\<exists>P Q. create_load_policy ''total_tokens'' 2 = Inr P \<and> policy_run sample_digest P Q \<and>
     policy_load Q = [7, 0] \<and> charge_on 0 (policy_charges Q) = 7"
proof -
  let ?P = "TokenCountPolicy \<lparr>cp_dp_size = 2, cp_anon = 0, cp_load = [0, 0], cp_charges = []\<rparr>"
  let ?Q = "TokenCountPolicy \<lparr>cp_dp_size = 2, cp_anon = 0, cp_load = [7, 0], cp_charges = [(''a'', 0, 7)]\<rparr>"
  have P: "create_load_policy ''total_tokens'' 2 = Inr ?P"
    by (simp add: create_load_policy_def counting_init_def numeral_2_eq_2)
  have "policy_select sample_digest 7 None (Some ''a'') ?P = (?Q, Inr 0)"
    by (simp add: policy_select_def counting_select_def policy_request_id_def min_range_def token_weight_def
        numeral_2_eq_2 Let_def)
  then have r: "policy_run sample_digest ?P ?Q"
    by (rule run_select [OF run_start, rotated]) (simp add: policy_views)
  have "policy_load ?Q ! 0 = charge_on 0 (policy_charges ?Q)"
    using policy_loads_exact [OF P r] by simp
  then show ?thesis using P r by (intro exI [of _ ?P] exI [of _ ?Q]) (simp add: policy_views)
qed

text \<open>C23: cache affinity. The cache-aware policy routes a prompt to a replica for which the load in flight plus the
  tokens it would have to compute is least, charges exactly those tokens, and from then on every prompt that
  extends the routed one finds all its full blocks on that replica, as long as they fit in the index; the index
  of a replica never grows beyond its capacity and never holds a hash twice.\<close>

theorem cache_select_affine:
  assumes "index_ok p" "0 < ca_dp_size p" "cache_select D est (Some ts) r p = (p', Inr k)" "ts \<noteq> []"
  shows "k < ca_dp_size p \<and> index_ok p' \<and>
    (\<exists>hs. iter_block_hashes D ts (ca_block_size p) (ca_hash_seed p) = Inr hs \<and>
       (let cost = (\<lambda>j. uncached p (int (length ts)) (policy_cached_blocks p j hs))
        in (\<forall>j < ca_dp_size p. ca_load p ! k + cost k \<le> ca_load p ! j + cost j) \<and>
           ca_load p' = (ca_load p)[k := ca_load p ! k + cost k])) \<and>
    (\<forall>us n. length ts div ca_block_size p \<le> ca_capacity p \<longrightarrow> policy_cached_tokens D (ts @ us) k p' = Inr n \<longrightarrow>
       length ts div ca_block_size p * ca_block_size p \<le> n)"
proof -
  obtain hs where hs: "select_hashes D (Some ts) p = Inr hs"
    and k: "k = min_range (ca_dp_size p) (\<lambda>k. ca_load p ! k + select_cost est (Some ts) hs p k)"
    and p': "p' = remember k hs (p\<lparr>ca_anon := snd (policy_request_id r (ca_anon p)),
        ca_load := (ca_load p)[k := ca_load p ! k + select_cost est (Some ts) hs p k],
        ca_charges := AList.update (fst (policy_request_id r (ca_anon p)))
          (k, select_cost est (Some ts) hs p k) (ca_charges p)\<rparr>)"
    using assms(3) by (rule cache_select_routes)
  have cost: "select_cost est (Some ts) hs p = (\<lambda>j. uncached p (int (length ts)) (policy_cached_blocks p j hs))"
    using assms(4) by (simp add: select_cost_def fun_eq_iff)
  have "ca_load p ! k + select_cost est (Some ts) hs p k \<le> ca_load p ! j + select_cost est (Some ts) hs p j"
    if "j < ca_dp_size p" for j
    unfolding k using that by (rule min_range_least)
  moreover have "iter_block_hashes D ts (ca_block_size p) (ca_hash_seed p) = Inr hs"
    using hs assms(4) by (simp add: select_hashes_def)
  moreover have "ca_load p' = (ca_load p)[k := ca_load p ! k + select_cost est (Some ts) hs p k]"
    by (simp add: p')
  moreover have "k < ca_dp_size p" using cache_select_charges [OF assms(3,2)] by blast
  ultimately show ?thesis
    using cache_select_index_ok [OF assms(1,3)] affinity [OF assms(1,2,3)] by (auto simp: cost Let_def)
qed

theorem cache_select_affine_witness:
  "\<exists>p p'. cache_policy_init 2 2 0 4 = Inr p \<and>
     cache_select sample_digest 0 (Some [5, 6, 7]) (Some ''a'') p = (p', Inr 0) \<and> index_ok p' \<and>
     ca_load p' = [3, 0]"
proof -
  let ?p = "\<lparr>ca_dp_size = 2, ca_anon = 0, ca_block_size = 2, ca_hash_seed = 0, ca_capacity = 4,
      ca_resident = [[], []], ca_load = [0, 0], ca_charges = []\<rparr>"
  let ?q = "\<lparr>ca_dp_size = 2, ca_anon = 0, ca_block_size = 2, ca_hash_seed = 0, ca_capacity = 4,
      ca_resident = [[72340172838076673], []], ca_load = [3, 0], ca_charges = [(''a'', 0, 3)]\<rparr>"
  have p: "cache_policy_init 2 2 0 4 = Inr ?p" by (simp add: cache_policy_init_def numeral_2_eq_2)
  have h: "iter_block_hashes sample_digest [5, 6, 7] 2 0 = Inr [72340172838076673]"
    by (simp add: iter_block_hashes_def hash_block_def struct_pack_def block_at_def seed_parent_def sample_digest_def)
  have upt: "[Suc 0..<2] = [1]" by (simp add: numeral_2_eq_2)
  have s: "cache_select sample_digest 0 (Some [5, 6, 7]) (Some ''a'') ?p = (?q, Inr 0)"
    by (simp add: cache_select_def policy_request_id_def h Let_def min_range_def upt uncached_def
        policy_cached_blocks_def remember_def refresh_def)
  have "index_ok ?p" by (simp add: index_ok_def)
  then have "index_ok ?q" using cache_select_affine [OF _ _ s] by simp
  then show ?thesis using p s by auto
qed

end
