(* ===== verification/Scheduler_Step.thy ===== *)
theory Scheduler_Step
  imports Step_Work Ngram_Proposer Detokenizer Stop_Criteria Load_Policy
begin

text \<open>
  The scheduler (\<^verbatim>\<open>Scheduler\<close> in \<^verbatim>\<open>src/rapid_llm/engine/scheduler.py\<close>): admission, the synchronous and the pipelined engine
  step, speculative decoding, and the harvest of sampled tokens. The request objects live in the planner's store; the
  fields only the scheduler uses live beside them in \<open>io\<close>, under the same object identity.

  The environment \<open>senv\<close> collects what runs outside: the tokenizer, the state of background encodes at each look, the
  device (what a pass samples, and the argmax of every row of a verify pass), and the forward count agreed across
  data-parallel replicas. Reading tokens back yields what the pass sampled; streams, events, metrics and tracing have no
  effect on the state and are left out.
\<close>

section \<open>State\<close>

record request_io =
  io_params :: sampling_params
  io_text :: utext
  io_delta :: utext
  io_first_token :: "time option"
  io_error :: "py_error option"

text \<open>\<^verbatim>\<open>_TokenizeJob\<close>; of the callback only its presence matters.\<close>

record tokenize_job =
  tj_request :: oid
  tj_on_error :: bool

record pass_logprobs =
  pl_sampled :: "lp option list"
  pl_prompt :: "lp list option list"

record launched =
  la_work :: step_work
  la_tokens :: "int list"
  la_logprobs :: "pass_logprobs option"

record scheduler =
  sc_planner :: planner
  io :: "oid \<Rightarrow> request_io"
  stop_token_ids :: "int list"
  pipeline_on :: bool
  pipeline_depth :: nat
  chunked_min_rows :: "nat option"
  proposer :: "ngram_proposer option"
  async_tokenize :: bool
  detokenizers :: "(rid, detokenizer) dict"
  request_ids :: nat
  step_count :: nat
  tokenizing :: "(rid, tokenize_job) dict"
  inflight :: "launched list list"
  polls :: nat
  passes_run :: nat
  errors_fired :: "(oid \<times> py_error) list"

record senv =
  penv :: env
  decode_text :: "int list \<Rightarrow> utext"
  encode_text :: "utext \<Rightarrow> int list res"
  is_digit :: "int \<Rightarrow> bool"
  encoded :: "nat \<Rightarrow> oid \<Rightarrow> int list res option"
  execute :: "nat \<Rightarrow> model_input \<Rightarrow> int list \<times> pass_logprobs option"
  execute_verify :: "nat \<Rightarrow> model_input \<Rightarrow> int list option"
  dp_attention :: bool
  coordinate :: "nat \<Rightarrow> nat \<Rightarrow> nat"

abbreviation sobj :: "scheduler \<Rightarrow> oid \<Rightarrow> request" where
  "sobj sc x \<equiv> objs (sc_planner sc) x"

abbreviation upd_sobj :: "oid \<Rightarrow> (request \<Rightarrow> request) \<Rightarrow> scheduler \<Rightarrow> scheduler" where
  "upd_sobj x f sc \<equiv> sc\<lparr>sc_planner := upd_obj x f (sc_planner sc)\<rparr>"

abbreviation upd_io :: "oid \<Rightarrow> (request_io \<Rightarrow> request_io) \<Rightarrow> scheduler \<Rightarrow> scheduler" where
  "upd_io x f sc \<equiv> sc\<lparr>io := (io sc)(x := f (io sc x))\<rparr>"

definition POLL_INTERVAL :: nat where
  "POLL_INTERVAL = 8"

text \<open>The constructor, after the engine and its executor exist: what they say is passed in.\<close>

record engine_facts =
  is_multimodal :: bool
  engine_max_seq_len :: nat
  engine_stop_ids :: "int list"
  engine_slots :: nat
  engine_kv_blocks :: nat
  dcp_on :: bool
  fused_chunks :: bool
  replay_cap :: nat
  want_speculate :: bool
  want_pipeline :: bool
  want_async_tokenize :: bool

definition scheduler_init ::
  "engine_facts \<Rightarrow> bool \<Rightarrow> nat \<Rightarrow> (oid \<Rightarrow> request) \<Rightarrow> (oid \<Rightarrow> request_io) \<Rightarrow> scheduler_config \<Rightarrow> tier option \<Rightarrow> scheduler res" where
  "scheduler_init g dpa depth store ios c tr =
     (if is_multimodal g then Inl NotImplementedError
      else if max_seq_len c > engine_max_seq_len g then Inl ValueError
      else if want_pipeline g \<and> enable_preemption c then Inl ValueError
      else if dcp_on g \<and> tr \<noteq> None then Inl ValueError
      else rbind (planner_init store c (engine_slots g)
             (if engine_kv_blocks g = 0 then None else Some (engine_kv_blocks g)) tr) (\<lambda>P.
        if want_speculate g \<and> dpa then Inl ValueError
        else Inr \<lparr>sc_planner = P, io = ios, stop_token_ids = engine_stop_ids g, pipeline_on = want_pipeline g,
              pipeline_depth = (if want_pipeline g then max 1 depth else 1),
              chunked_min_rows = (if fused_chunks g \<and> \<not> dcp_on g then Some (replay_cap g + 1) else None),
              proposer = (if want_speculate g then Some \<lparr>max_ngram_size = 5, max_draft = 6\<rparr> else None),
              async_tokenize = want_async_tokenize g, detokenizers = [], request_ids = 0, step_count = 0,
              tokenizing = [], inflight = [], polls = 0, passes_run = 0, errors_fired = []\<rparr>))"

section \<open>Requests in and out\<close>

definition request_id_in_use :: "rid \<Rightarrow> scheduler \<Rightarrow> bool" where
  "request_id_in_use r sc \<longleftrightarrow>
     map_of (tokenizing sc) r \<noteq> None \<or> map_of (detokenizers sc) r \<noteq> None \<or> has_request_id r (sc_planner sc)"

definition register_request :: "oid \<Rightarrow> (scheduler, unit) call" where
  "register_request x sc =
     (case add_request x (sc_planner sc) of
        Inl e \<Rightarrow> (sc, Inl e)
      | Inr P \<Rightarrow> (sc\<lparr>sc_planner := P,
                    detokenizers := AList.update (request_id (objs P x)) (detok_init 1) (detokenizers sc)\<rparr>, Inr ()))"

text \<open>The \<^verbatim>\<open>while\<close> loop that draws ids until one is free; every round but the last meets an id in use.\<close>

definition generated_id :: "nat \<Rightarrow> rid" where
  "generated_id n = ''req-'' @ decimal n"

primrec fresh_id :: "nat \<Rightarrow> scheduler \<Rightarrow> (scheduler \<times> rid) res" where
  "fresh_id 0 sc = Inl OutOfFuel"
| "fresh_id (Suc fuel) sc =
     (let r = generated_id (request_ids sc); sc' = sc\<lparr>request_ids := request_ids sc + 1\<rparr>
      in if request_id_in_use r sc' then fresh_id fuel sc' else Inr (sc', r))"

definition ids_in_use :: "scheduler \<Rightarrow> nat" where
  "ids_in_use sc = length (tokenizing sc) + length (detokenizers sc) + length (live (sc_planner sc))"

definition new_request_object :: "rid \<Rightarrow> int list \<Rightarrow> sampling_params \<Rightarrow> time \<Rightarrow> request" where
  "new_request_object r ts par now =
     \<lparr>request_id = r, prompt_token_ids = ts, max_gen_len = map_option nat (par_max_gen_len par), max_new_tokens = 0,
      num_computed_tokens = 0, arrival_time = now, scheduled_time = None, status = WAITING, slot = None,
      output_token_ids = [], finish_reason = None, finish_time = None, req_cached_tokens = 0, block_plan = [],
      prompt_logprobs = None, output_logprobs = None, delta_logprobs = None, pending_tokens = 0\<rparr>"

definition new_request_io :: "sampling_params \<Rightarrow> request_io" where
  "new_request_io par = \<lparr>io_params = par, io_text = [], io_delta = [], io_first_token = None, io_error = None\<rparr>"

definition place_object :: "oid \<Rightarrow> request \<Rightarrow> sampling_params \<Rightarrow> scheduler \<Rightarrow> scheduler" where
  "place_object x r par sc =
     sc\<lparr>sc_planner := (sc_planner sc)\<lparr>objs := (objs (sc_planner sc))(x := r)\<rparr>,
        io := (io sc)(x := new_request_io par)\<rparr>"

text \<open>\<^verbatim>\<open>add_request\<close>; \<open>x\<close> is the identity of the new object.\<close>

definition sched_add_request ::
  "senv \<Rightarrow> oid \<Rightarrow> utext \<Rightarrow> sampling_params option \<Rightarrow> rid option \<Rightarrow> int list option \<Rightarrow> bool \<Rightarrow> time \<Rightarrow> (scheduler, unit) call" where
  "sched_add_request E x prompt params rid_opt tokens_opt on_error now sc =
     (case (case rid_opt of
              None \<Rightarrow> fresh_id (ids_in_use sc + 1) sc
            | Some r \<Rightarrow> if request_id_in_use r sc then Inl ValueError else Inr (sc, r)) of
        Inl e \<Rightarrow> (sc, Inl e)
      | Inr (sc1, r) \<Rightarrow>
          let par = (case params of None \<Rightarrow> default_params | Some p \<Rightarrow> p)
          in if tokens_opt = None \<and> async_tokenize sc1
             then (place_object x (new_request_object r [] par now) par sc1
                     \<lparr>tokenizing := AList.update r \<lparr>tj_request = x, tj_on_error = on_error\<rparr> (tokenizing sc1)\<rparr>, Inr ())
             else case (case tokens_opt of None \<Rightarrow> encode_text E prompt | Some ts \<Rightarrow> Inr ts) of
                    Inl e \<Rightarrow> (sc1, Inl e)
                  | Inr ts \<Rightarrow> register_request x (place_object x (new_request_object r ts par now) par sc1))"

text \<open>The rejection of a background encode.\<close>

definition reject_job :: "tokenize_job \<Rightarrow> py_error \<Rightarrow> scheduler \<Rightarrow> scheduler" where
  "reject_job job e sc =
     (let x = tj_request job;
          sc1 = upd_io x (\<lambda>q. q\<lparr>io_error := Some e\<rparr>)
                  (upd_sobj x (\<lambda>r. r\<lparr>status := FINISHED, finish_reason := Some ''invalid''\<rparr>) sc)
      in if tj_on_error job then sc1\<lparr>errors_fired := errors_fired sc1 @ [(x, e)]\<rparr> else sc1)"

definition collect_job :: "senv \<Rightarrow> nat \<Rightarrow> rid \<times> tokenize_job \<Rightarrow> scheduler \<Rightarrow> scheduler" where
  "collect_job E now j sc =
     (let x = tj_request (snd j)
      in case encoded E now x of
           None \<Rightarrow> sc
         | Some (Inl e) \<Rightarrow> reject_job (snd j) e (sc\<lparr>tokenizing := AList.delete (fst j) (tokenizing sc)\<rparr>)
         | Some (Inr ts) \<Rightarrow>
             (case register_request x (upd_sobj x (\<lambda>r. r\<lparr>prompt_token_ids := ts\<rparr>)
                     (sc\<lparr>tokenizing := AList.delete (fst j) (tokenizing sc)\<rparr>)) of
                (sc1, Inl e) \<Rightarrow> reject_job (snd j) e sc1
              | (sc1, Inr _) \<Rightarrow> sc1))"

definition collect_tokenized :: "senv \<Rightarrow> scheduler \<Rightarrow> scheduler" where
  "collect_tokenized E sc =
     (if tokenizing sc = [] then sc
      else fold (collect_job E (polls sc)) (tokenizing sc) (sc\<lparr>polls := polls sc + 1\<rparr>))"

definition retire :: "rid \<Rightarrow> scheduler \<Rightarrow> scheduler" where
  "retire r sc = sc\<lparr>detokenizers := AList.delete r (detokenizers sc)\<rparr>"

definition sched_abort :: "senv \<Rightarrow> rid \<Rightarrow> scheduler \<Rightarrow> (scheduler \<times> oid option) res" where
  "sched_abort E r sc =
     (case map_of (tokenizing sc) r of
        Some job \<Rightarrow>
          Inr (upd_sobj (tj_request job) (\<lambda>q. q\<lparr>status := FINISHED, finish_reason := Some ''abort''\<rparr>)
                 (sc\<lparr>tokenizing := AList.delete r (tokenizing sc)\<rparr>), Some (tj_request job))
      | None \<Rightarrow>
          rbind (abort (penv E) r (sc_planner sc)) (\<lambda>(P, y).
            case y of
              None \<Rightarrow> Inr (sc\<lparr>sc_planner := P\<rparr>, None)
            | Some x \<Rightarrow> Inr (retire (request_id (objs P x)) (sc\<lparr>sc_planner := P\<rparr>), Some x)))"

definition sched_has_unfinished :: "scheduler \<Rightarrow> bool" where
  "sched_has_unfinished sc \<longleftrightarrow> has_unfinished_requests (sc_planner sc) \<or> inflight sc \<noteq> [] \<or> tokenizing sc \<noteq> []"

section \<open>Harvest\<close>

definition sched_finish :: "senv \<Rightarrow> oid \<Rightarrow> string \<Rightarrow> scheduler \<Rightarrow> scheduler res" where
  "sched_finish E x reason sc =
     rbind (finish (penv E) x reason (sc_planner sc)) (\<lambda>P.
       Inr (retire (request_id (objs P x)) (sc\<lparr>sc_planner := P\<rparr>)))"

text \<open>One sampled token; \<open>opened\<close> are the ids whose delta was reset in this harvest.\<close>

definition harvest_one ::
  "senv \<Rightarrow> time \<Rightarrow> bool \<Rightarrow> oid \<times> int \<times> lp option \<Rightarrow> scheduler \<times> rid list \<times> oid list \<Rightarrow> (scheduler \<times> rid list \<times> oid list) res" where
  "harvest_one E now check_repeat e s =
     (case e of (x, token, record) \<Rightarrow> case s of (sc, opened, advanced) \<Rightarrow>
        if is_finished (sobj sc x) then Inr (sc, opened, advanced)
        else
          let rid = request_id (sobj sc x);
              sc1 = upd_io x (\<lambda>q. q\<lparr>io_first_token := (case io_first_token q of None \<Rightarrow> Some now | t \<Rightarrow> t)\<rparr>) sc;
              opened1 = (if rid \<in> set opened then opened else opened @ [rid]);
              sc2 = (if rid \<in> set opened then sc1
                     else upd_sobj x (\<lambda>r. r\<lparr>delta_logprobs := None\<rparr>) (upd_io x (\<lambda>q. q\<lparr>io_delta := []\<rparr>) sc1))
          in if token \<in> set (stop_token_ids sc)
             then rbind (sched_finish E x ''eos'' sc2) (\<lambda>sc3. Inr (sc3, opened1, advanced @ [x]))
             else
               let sc3 = upd_sobj x (\<lambda>r. r\<lparr>output_token_ids := output_token_ids r @ [token]\<rparr>) sc2;
                   sc4 = (case record of
                            None \<Rightarrow> sc3
                          | Some l \<Rightarrow> upd_sobj x (\<lambda>r. r\<lparr>output_logprobs := Some (case output_logprobs r of None \<Rightarrow> [l] | Some ls \<Rightarrow> ls @ [l]),
                                                        delta_logprobs := Some l\<rparr>) sc3)
               in case map_of (detokenizers sc4) rid of
                    None \<Rightarrow> Inl KeyError
                  | Some d \<Rightarrow>
                      case detok_append (decode_text E) 0 token d of
                        (d', Inl err) \<Rightarrow> Inl err
                      | (d', Inr piece) \<Rightarrow>
                          let sc5 = upd_io x (\<lambda>q. q\<lparr>io_delta := io_delta q @ piece, io_text := io_text q @ piece\<rparr>)
                                      (sc4\<lparr>detokenizers := AList.update rid d' (detokenizers sc4)\<rparr>);
                              r = sobj sc5 x
                          in if \<not> has_room r \<or> seq_len r \<ge> max_seq_len (pconfig (sc_planner sc5))
                             then rbind (sched_finish E x ''length'' sc5) (\<lambda>sc6. Inr (sc6, opened1, advanced @ [x]))
                             else if check_repeat \<and> stop_on_repeat (io_params (io sc5 x)) \<and>
                                     detect_repetition (is_digit E) (io_text (io sc5 x)) 128 3
                             then rbind (sched_finish E x ''repeat'' sc5) (\<lambda>sc6. Inr (sc6, opened1, advanced @ [x]))
                             else Inr (sc5, opened1, advanced @ [x]))"

definition harvest ::
  "senv \<Rightarrow> (oid \<times> int \<times> lp option) list \<Rightarrow> scheduler \<Rightarrow> (scheduler \<times> oid list) res" where
  "harvest E emitted sc =
     (case monotonic (penv E) (sc_planner sc) of (P, now) \<Rightarrow>
        rbind (rfold (harvest_one E now (step_count sc mod POLL_INTERVAL = 0)) emitted (sc\<lparr>sc_planner := P\<rparr>, [], [])) (\<lambda>(sc', _, advanced).
          Inr (sc', advanced)))"

section \<open>Passes\<close>

definition attribute_records :: "nat \<Rightarrow> lp list \<Rightarrow> lp option list \<Rightarrow> lp option list res" where
  "attribute_records start records slots =
     rfold (\<lambda>(j, l) ls. if start + j + 1 < length ls then Inr (ls[start + j + 1 := Some l]) else Inl IndexError)
       (enumerate 0 records) slots"

text \<open>\<^verbatim>\<open>_attribute_prompt_logprobs\<close>.\<close>

definition attribute_one :: "oid \<times> int \<times> lp list option \<Rightarrow> scheduler \<Rightarrow> scheduler res" where
  "attribute_one e sc =
     (case e of (x, start, records) \<Rightarrow>
        case records of
          None \<Rightarrow> Inr sc
        | Some ls \<Rightarrow>
            rbind (attribute_records (nat start) ls
                     (case prompt_logprobs (sobj sc x) of None \<Rightarrow> replicate (prompt_len (sobj sc x)) None | Some qs \<Rightarrow> qs))
              (\<lambda>qs. Inr (upd_sobj x (\<lambda>r. r\<lparr>prompt_logprobs := Some qs\<rparr>) sc)))"

definition attribute_prompt_logprobs :: "step_work \<Rightarrow> lp list option list \<Rightarrow> scheduler \<Rightarrow> scheduler res" where
  "attribute_prompt_logprobs w prompt sc =
     (if length (sw_chunk_requests w) \<noteq> length (mi_starts (sw_plan w)) \<or> length (mi_starts (sw_plan w)) \<noteq> length prompt
      then Inl ValueError
      else rfold attribute_one (zip (sw_chunk_requests w) (zip (mi_starts (sw_plan w)) prompt)) sc)"

definition wants_prompt_records :: "pass_logprobs option \<Rightarrow> bool" where
  "wants_prompt_records l \<longleftrightarrow> (case l of None \<Rightarrow> False | Some r \<Rightarrow> \<exists>k \<in> set (pl_prompt r). k \<noteq> None \<and> k \<noteq> Some [])"

definition sampled_records :: "pass_logprobs option \<Rightarrow> nat \<Rightarrow> lp option list" where
  "sampled_records l n = (case l of None \<Rightarrow> replicate n None | Some r \<Rightarrow> if pl_sampled r = [] then replicate n None else pl_sampled r)"

definition zip_records :: "oid list \<Rightarrow> int list \<Rightarrow> lp option list \<Rightarrow> (oid \<times> int \<times> lp option) list res" where
  "zip_records xs ts rs =
     (if length xs = length ts \<and> length ts = length rs then Inr (zip xs (zip ts rs)) else Inl ValueError)"

text \<open>\<^verbatim>\<open>_execute_lockstep\<close>: passes beyond the agreed count do not run; dummy passes leave no trace.\<close>

definition run_pass :: "senv \<Rightarrow> step_work \<Rightarrow> scheduler \<Rightarrow> scheduler \<times> launched" where
  "run_pass E w sc =
     (case execute E (passes_run sc) (sw_plan w) of (ts, l) \<Rightarrow>
        (sc\<lparr>passes_run := passes_run sc + 1\<rparr>, \<lparr>la_work = w, la_tokens = ts, la_logprobs = l\<rparr>))"

primrec run_passes :: "senv \<Rightarrow> step_work list \<Rightarrow> scheduler \<Rightarrow> scheduler \<times> launched list" where
  "run_passes E [] sc = (sc, [])"
| "run_passes E (w # ws) sc =
     (case run_pass E w sc of (sc1, l) \<Rightarrow> case run_passes E ws sc1 of (sc2, ls) \<Rightarrow> (sc2, l # ls))"

definition execute_lockstep :: "senv \<Rightarrow> step_work list \<Rightarrow> scheduler \<Rightarrow> scheduler \<times> launched list" where
  "execute_lockstep E works sc =
     run_passes E (take (if dp_attention E then coordinate E (passes_run sc) (length works) else length works) works) sc"

section \<open>Speculative decoding\<close>

definition propose_one ::
  "ngram_proposer \<Rightarrow> oid \<Rightarrow> planner \<times> (oid \<times> int list) list \<times> oid list \<Rightarrow>
   (planner \<times> (oid \<times> int list) list \<times> oid list) res" where
  "propose_one p x s =
     (case s of (P, drafts, remaining) \<Rightarrow>
        let proposed = propose p (prompt_token_ids (objs P x) @ output_token_ids (objs P x))
        in if proposed = [] then Inr (P, drafts, remaining @ [x])
           else rbind (reserve_speculative x (length proposed) P) (\<lambda>(P', fit).
                  if fit \<noteq> 0 then Inr (P', drafts @ [(x, take fit proposed)], remaining)
                  else Inr (P', drafts, remaining @ [x])))"

definition draft_one ::
  "ngram_proposer \<Rightarrow> (oid \<Rightarrow> request_io) \<Rightarrow> oid \<Rightarrow> planner \<times> (oid \<times> int list) list \<times> oid list \<Rightarrow>
   (planner \<times> (oid \<times> int list) list \<times> oid list) res" where
  "draft_one p ios x s =
     (case s of (P, drafts, remaining) \<Rightarrow>
        if par_logprobs (io_params (ios x)) \<noteq> None then Inr (P, drafts, remaining @ [x]) else propose_one p x s)"

definition verify_tokens :: "(oid \<Rightarrow> request) \<Rightarrow> (oid \<times> int list) list \<Rightarrow> int list res" where
  "verify_tokens st drafts =
     rbind (last_tokens st (map fst drafts)) (\<lambda>anchors. Inr (concat (map2 (\<lambda>a (x, ds). a # ds) anchors drafts)))"

definition verify_plan :: "(oid \<Rightarrow> request) \<Rightarrow> (oid \<times> int list) list \<Rightarrow> model_input res" where
  "verify_plan st drafts =
     rbind (verify_tokens st drafts) (\<lambda>ts.
       input_check
         \<lparr>mi_kind = EXTEND,
          mi_slots = map (\<lambda>(x, ds). slot (st x)) drafts,
          mi_starts = map (\<lambda>(x, ds). int (seq_len (st x)) - 1) drafts,
          mi_lens = map (\<lambda>(x, ds). int (seq_len (st x) + length ds)) drafts,
          mi_tokens = ts,
          mi_sampling = [], mi_sampled = [], mi_gen_counts = [],
          mi_block_writes = concat (map (\<lambda>(x, ds). row_writes st x) drafts),
          mi_prompt_logprobs = [], mi_prompt_targets = [], mi_return_logits = True\<rparr>)"

text \<open>How many drafts agree with the argmax of the row before them; reading past the rows raises.\<close>

fun count_accepted :: "int list \<Rightarrow> int list \<Rightarrow> nat res" where
  "count_accepted rows [] = Inr 0"
| "count_accepted [] (d # ds) = Inl IndexError"
| "count_accepted (a # rows) (d # ds) = (if a \<noteq> d then Inr 0 else rbind (count_accepted rows ds) (\<lambda>n. Inr (Suc n)))"

definition accept_drafts :: "int list \<Rightarrow> int list \<Rightarrow> int list res" where
  "accept_drafts rows ds =
     rbind (count_accepted rows ds) (\<lambda>n. if n < length rows then Inr (take n ds @ [rows ! n]) else Inl IndexError)"

primrec accept_all :: "int list \<Rightarrow> (oid \<times> int list) list \<Rightarrow> (oid \<times> int \<times> lp option) list res" where
  "accept_all rows [] = Inr []"
| "accept_all rows (d # drafts) =
     rbind (accept_drafts (take (length (snd d) + 1) rows) (snd d)) (\<lambda>ts.
     rbind (accept_all (drop (length (snd d) + 1) rows) drafts) (\<lambda>rest.
       Inr (map (\<lambda>t. (fst d, t, None)) ts @ rest)))"

text \<open>One entry per request, in the order of first appearance.\<close>

definition first_seen :: "oid list \<Rightarrow> oid list" where
  "first_seen xs = rev (remdups (rev xs))"

definition speculate_verify :: "senv \<Rightarrow> oid list \<Rightarrow> scheduler \<Rightarrow> (scheduler \<times> oid list \<times> oid list) res" where
  "speculate_verify E decode sc =
     (case proposer sc of
        None \<Rightarrow> Inl AssertionError
      | Some p \<Rightarrow>
          rbind (rfold (draft_one p (io sc)) decode (sc_planner sc, [], [])) (\<lambda>(P, drafts, remaining).
            let sc1 = sc\<lparr>sc_planner := P\<rparr>
            in if drafts = [] then Inr (sc1, [], remaining)
               else rbind (verify_plan (objs P) drafts) (\<lambda>m.
                 let sc2 = sc1\<lparr>passes_run := passes_run sc1 + 1\<rparr>
                 in case execute_verify E (passes_run sc1) m of
                      None \<Rightarrow> Inr (sc2, [], decode)
                    | Some rows \<Rightarrow>
                        rbind (accept_all rows drafts) (\<lambda>emitted.
                        rbind (harvest E emitted sc2) (\<lambda>(sc3, advanced). Inr (sc3, first_seen advanced, remaining))))))"

section \<open>The step\<close>

definition io_par :: "scheduler \<Rightarrow> oid \<Rightarrow> sampling_params" where
  "io_par sc x = io_params (io sc x)"

definition emitted_of :: "launched \<Rightarrow> scheduler \<times> (oid \<times> int \<times> lp option) list \<Rightarrow> (scheduler \<times> (oid \<times> int \<times> lp option) list) res" where
  "emitted_of l s =
     (case s of (sc, emitted) \<Rightarrow>
        rbind (case la_logprobs l of
                 None \<Rightarrow> Inr sc
               | Some r \<Rightarrow> if wants_prompt_records (la_logprobs l) then attribute_prompt_logprobs (la_work l) (pl_prompt r) sc
                           else Inr sc) (\<lambda>sc1.
        rbind (zip_records (sw_requests (la_work l)) (la_tokens l)
                 (sampled_records (la_logprobs l) (length (sw_requests (la_work l))))) (\<lambda>more.
          Inr (sc1, emitted @ more))))"

definition step_synchronous :: "senv \<Rightarrow> scheduler \<Rightarrow> (scheduler \<times> oid list) res" where
  "step_synchronous E sc =
     rbind (plan (penv E) (sc_planner sc)) (\<lambda>(P, s).
       let sc1 = sc\<lparr>sc_planner := P\<rparr>
       in if plan_is_empty s \<and> \<not> dp_attention E then Inr (sc1, [])
          else
            let sc2 = sc1\<lparr>step_count := step_count sc1 + 1\<rparr>
            in rbind (if sp_prefill s = [] then Inr []
                      else prefill_work (objs P) (io_par sc2) (sp_prefill s) (sp_chunk_lens s) (chunked_min_rows sc2)) (\<lambda>works.
               rbind (if proposer sc2 \<noteq> None \<and> sp_decode s \<noteq> [] then speculate_verify E (sp_decode s) sc2
                      else Inr (sc2, [], sp_decode s)) (\<lambda>(sc3, spec_advanced, remaining).
               rbind (if remaining = [] then Inr works
                      else rbind (decode_work (objs (sc_planner sc3)) (io_par sc3) remaining False) (\<lambda>w. Inr (works @ [w]))) (\<lambda>all_works.
                 case execute_lockstep E all_works sc3 of (sc4, done_) \<Rightarrow>
                   rbind (rfold emitted_of done_ (sc4, [])) (\<lambda>(sc5, emitted).
                   rbind (harvest E emitted sc5) (\<lambda>(sc6, advanced). Inr (sc6, advanced @ spec_advanced)))))))"

text \<open>Harvesting one launched pass of an earlier step.\<close>

definition settle_one :: "(oid \<times> int \<times> lp option) \<Rightarrow> scheduler \<times> (oid \<times> int \<times> lp option) list \<Rightarrow> scheduler \<times> (oid \<times> int \<times> lp option) list" where
  "settle_one e s =
     (case s of (sc, emitted) \<Rightarrow>
        let sc1 = upd_sobj (fst e) (\<lambda>r. r\<lparr>pending_tokens := pending_tokens r - 1\<rparr>) sc
        in if is_finished (sobj sc1 (fst e)) then (sc1, emitted) else (sc1, emitted @ [e]))"

definition harvest_launched :: "senv \<Rightarrow> launched \<Rightarrow> scheduler \<times> oid list \<Rightarrow> (scheduler \<times> oid list) res" where
  "harvest_launched E l s =
     (case s of (sc, advanced) \<Rightarrow>
        rbind (emitted_of l (sc, [])) (\<lambda>(sc1, all).
          case fold settle_one all (sc1, []) of (sc2, emitted) \<Rightarrow>
            rbind (harvest E emitted sc2) (\<lambda>(sc3, adv). Inr (sc3, advanced @ adv))))"

definition owe_token :: "oid \<Rightarrow> scheduler \<Rightarrow> scheduler" where
  "owe_token x sc = upd_sobj x (\<lambda>r. r\<lparr>pending_tokens := pending_tokens r + 1\<rparr>) sc"

definition step_pipelined :: "senv \<Rightarrow> scheduler \<Rightarrow> (scheduler \<times> oid list) res" where
  "step_pipelined E sc =
     rbind (plan (penv E) (sc_planner sc)) (\<lambda>(P, s).
       let sc1 = sc\<lparr>sc_planner := P\<rparr>
       in if plan_is_empty s \<and> inflight sc1 = [] \<and> \<not> dp_attention E then Inr (sc1, [])
          else
            let sc2 = sc1\<lparr>step_count := step_count sc1 + 1\<rparr>
            in rbind (step_passes (objs P) (io_par sc2) None True (sp_prefill s) (sp_chunk_lens s) (sp_decode s)) (\<lambda>works.
                 let can_pop = (pipeline_depth sc2 \<le> length (inflight sc2) \<or> plan_is_empty s);
                     previous = (if can_pop then case inflight sc2 of [] \<Rightarrow> [] | l # _ \<Rightarrow> l else []);
                     sc3 = (if can_pop then sc2\<lparr>inflight := tl (inflight sc2)\<rparr> else sc2)
                 in rbind (if can_pop \<and> inflight sc2 = [] then Inl IndexError else Inr ()) (\<lambda>_.
                    case execute_lockstep E works sc3 of (sc4, staged) \<Rightarrow>
                    rbind (rfold (harvest_launched E) previous (sc4, [])) (\<lambda>(sc5, advanced).
                      if staged = [] then Inr (sc5, advanced)
                      else Inr ((fold owe_token (concat (map (\<lambda>l. sw_requests (la_work l)) staged)) sc5)
                                  \<lparr>inflight := inflight sc5 @ [staged]\<rparr>, advanced)))))"

definition step :: "senv \<Rightarrow> scheduler \<Rightarrow> (scheduler \<times> oid list) res" where
  "step E sc =
     (let sc1 = collect_tokenized E sc
      in if pipeline_on sc1 then step_pipelined E sc1 else step_synchronous E sc1)"

end
