(* ===== verification/Scheduler_Invariant.thy ===== *)
theory Scheduler_Invariant
  imports Scheduler_Step
begin

text \<open>
  What the scheduler keeps between steps: a well-formed planner, room for one more token in every live request, one
  detokenizer per live request, and text that is what this detokenizer has emitted for its tokens, which follow the prompt in the
  request's tokens. \<open>G\<close> restricts what a request under an id may have been submitted with; it is not part of the state.
  The harvest of sampled tokens keeps this, and touches only the requests it has tokens for.
\<close>

section \<open>The invariant\<close>

definition text_ok :: "(rid \<Rightarrow> int list set) \<Rightarrow> senv \<Rightarrow> request \<Rightarrow> request_io \<Rightarrow> detokenizer \<Rightarrow> bool" where
  "text_ok G E r q d \<longleftrightarrow>
     length d = 1 \<and> (\<exists>p \<in> G (request_id r). tokens r = p @ dt_tokens (d ! 0)) \<and>
     length (output_token_ids r) \<le> length (dt_tokens (d ! 0)) \<and>
     append_tokens (decode_text E) (dt_tokens (d ! 0)) sequence_init = (d ! 0, io_text q)"

text \<open>No promise about prompts.\<close>

abbreviation any_prompt :: "rid \<Rightarrow> int list set" where
  "any_prompt \<equiv> \<lambda>_. UNIV"

definition sched_inv :: "(rid \<Rightarrow> int list set) \<Rightarrow> senv \<Rightarrow> scheduler \<Rightarrow> bool" where
  "sched_inv G E sc \<longleftrightarrow>
     planner_inv (digest (penv E)) (sc_planner sc) \<and>
     (\<forall>r x. map_of (live (sc_planner sc)) r = Some x \<longrightarrow>
        has_room (sobj sc x) \<and> (\<exists>d. map_of (detokenizers sc) r = Some d \<and> text_ok G E (sobj sc x) (io sc x) d)) \<and>
     (\<forall>r. map_of (live (sc_planner sc)) r = None \<longrightarrow> map_of (detokenizers sc) r = None)"

lemma sched_invD:
  assumes "sched_inv G E sc"
  shows "planner_inv (digest (penv E)) (sc_planner sc)"
    "map_of (live (sc_planner sc)) r = Some x \<Longrightarrow> has_room (sobj sc x)"
    "map_of (live (sc_planner sc)) r = Some x \<Longrightarrow> \<exists>d. map_of (detokenizers sc) r = Some d \<and> text_ok G E (sobj sc x) (io sc x) d"
    "map_of (live (sc_planner sc)) r = None \<Longrightarrow> map_of (detokenizers sc) r = None"
  using assms unfolding sched_inv_def by blast+

text \<open>Changing the planner without touching who is live or what is generated.\<close>

lemma sched_inv_planner:
  assumes inv: "sched_inv G E sc" and p: "planner_inv (digest (penv E)) P"
    and l: "live P = live (sc_planner sc)"
    and g: "\<And>x. generation (objs P x) = generation (sobj sc x)"
    and o: "\<And>r x. map_of (live P) r = Some x \<Longrightarrow> length (output_token_ids (objs P x)) \<le> length (output_token_ids (sobj sc x))"
  shows "sched_inv G E (sc\<lparr>sc_planner := P\<rparr>)"
  unfolding sched_inv_def
proof (intro conjI allI impI)
  show "planner_inv (digest (penv E)) (sc_planner (sc\<lparr>sc_planner := P\<rparr>))" using p by simp
  fix r
  show "map_of (detokenizers (sc\<lparr>sc_planner := P\<rparr>)) r = None"
    if "map_of (live (sc_planner (sc\<lparr>sc_planner := P\<rparr>))) r = None"
    using sched_invD(4) [OF inv] that l by simp
  fix x assume "map_of (live (sc_planner (sc\<lparr>sc_planner := P\<rparr>))) r = Some x"
  then have x: "map_of (live (sc_planner sc)) r = Some x" "map_of (live P) r = Some x" using l by simp_all
  show "has_room (sobj (sc\<lparr>sc_planner := P\<rparr>) x)" using sched_invD(2) [OF inv x(1)] generation_eq(3) [OF g] by simp
  obtain d where d: "map_of (detokenizers sc) r = Some d" "text_ok G E (sobj sc x) (io sc x) d"
    using sched_invD(3) [OF inv x(1)] by blast
  have "request_id (objs P x) = request_id (sobj sc x)"
    using queues_okD(8) [OF planner_invD(3) [OF p] x(2)] queues_okD(8) [OF planner_invD(3) [OF sched_invD(1) [OF inv]] x(1)] by simp
  then have "text_ok G E (objs P x) (io sc x) d"
    using d(2) generation_eq(1) [OF g, of x] o [OF x(2)] by (auto simp: text_ok_def)
  then show "\<exists>d. map_of (detokenizers (sc\<lparr>sc_planner := P\<rparr>)) r = Some d \<and>
      text_ok G E (sobj (sc\<lparr>sc_planner := P\<rparr>) x) (io (sc\<lparr>sc_planner := P\<rparr>) x) d"
    using d(1) by auto
qed

section \<open>Harvest\<close>

text \<open>The fields no step writes, in synchronous mode.\<close>

definition frozen :: "scheduler \<Rightarrow> bool \<times> ngram_proposer option \<times> bool \<times> (rid, tokenize_job) dict \<times> launched list list \<times> nat" where
  "frozen sc = (pipeline_on sc, proposer sc, async_tokenize sc, tokenizing sc, inflight sc, request_ids sc)"

text \<open>What a harvest over the requests \<open>A\<close> leaves alone.\<close>

definition harvest_frame :: "oid set \<Rightarrow> scheduler \<Rightarrow> scheduler \<Rightarrow> bool" where
  "harvest_frame A sc sc' \<longleftrightarrow>
     pconfig (sc_planner sc') = pconfig (sc_planner sc) \<and> stop_token_ids sc' = stop_token_ids sc \<and>
     frozen sc' = frozen sc \<and> set (live (sc_planner sc')) \<subseteq> set (live (sc_planner sc)) \<and>
     (\<forall>y. y \<notin> A \<longrightarrow> sobj sc' y = sobj sc y \<and> io sc' y = io sc y) \<and>
     (\<forall>y. y \<notin> A \<longrightarrow> (y \<in> set (running (sc_planner sc')) \<longleftrightarrow> y \<in> set (running (sc_planner sc)))) \<and>
     set (running (sc_planner sc')) \<subseteq> set (running (sc_planner sc)) \<and>
     (\<forall>y \<in> set (running (sc_planner sc')). rows_held (request_id (sobj sc y)) (kv (sc_planner sc')) =
        rows_held (request_id (sobj sc y)) (kv (sc_planner sc))) \<and>
     (\<forall>y. request_id (sobj sc' y) = request_id (sobj sc y) \<and> prompt_token_ids (sobj sc' y) = prompt_token_ids (sobj sc y) \<and>
        num_computed_tokens (sobj sc' y) = num_computed_tokens (sobj sc y) \<and>
        prefix (output_token_ids (sobj sc y)) (output_token_ids (sobj sc' y)) \<and>
        pending_tokens (sobj sc' y) = pending_tokens (sobj sc y) \<and> (is_finished (sobj sc y) \<longrightarrow> is_finished (sobj sc' y)))"

lemma harvest_frame_refl [simp]: "harvest_frame A sc sc"
  by (simp add: harvest_frame_def)

lemma harvest_frameD:
  assumes "harvest_frame A sc sc'"
  shows "pconfig (sc_planner sc') = pconfig (sc_planner sc)" "stop_token_ids sc' = stop_token_ids sc"
    "y \<notin> A \<Longrightarrow> sobj sc' y = sobj sc y" "y \<notin> A \<Longrightarrow> y \<in> set (running (sc_planner sc')) \<longleftrightarrow> y \<in> set (running (sc_planner sc))"
    "set (running (sc_planner sc')) \<subseteq> set (running (sc_planner sc))"
    "y \<in> set (running (sc_planner sc')) \<Longrightarrow> rows_held (request_id (sobj sc y)) (kv (sc_planner sc')) =
        rows_held (request_id (sobj sc y)) (kv (sc_planner sc))"
    "num_computed_tokens (sobj sc' y) = num_computed_tokens (sobj sc y)" "prompt_len (sobj sc' y) = prompt_len (sobj sc y)"
    "pending_tokens (sobj sc' y) = pending_tokens (sobj sc y)" "is_finished (sobj sc y) \<Longrightarrow> is_finished (sobj sc' y)"
    "request_id (sobj sc' y) = request_id (sobj sc y)" "frozen sc' = frozen sc"
    "set (live (sc_planner sc')) \<subseteq> set (live (sc_planner sc))" "y \<notin> A \<Longrightarrow> io sc' y = io sc y"
    "prompt_token_ids (sobj sc' y) = prompt_token_ids (sobj sc y)"
    "prefix (output_token_ids (sobj sc y)) (output_token_ids (sobj sc' y))"
  using assms unfolding harvest_frame_def by (auto simp: prompt_len_def)

lemma harvest_frame_trans:
  assumes "harvest_frame A s t" "harvest_frame A t u"
  shows "harvest_frame A s u"
  unfolding harvest_frame_def
proof (intro conjI allI ballI impI)
  note p = harvest_frameD [OF assms(1)] and q = harvest_frameD [OF assms(2)]
  have io: "io t y = io s y" "io u y = io t y" "prompt_token_ids (sobj t z) = prompt_token_ids (sobj s z)"
    "prompt_token_ids (sobj u z) = prompt_token_ids (sobj t z)" if "y \<notin> A" for y z
    using assms that by (simp_all add: harvest_frame_def)
  show "pconfig (sc_planner u) = pconfig (sc_planner s)" "stop_token_ids u = stop_token_ids s"
    using p(1,2) q(1,2) by simp_all
  show "frozen u = frozen s" using p(12) q(12) by simp
  show "set (live (sc_planner u)) \<subseteq> set (live (sc_planner s))" using p(13) q(13) by (rule order_trans [rotated])
  show sub: "set (running (sc_planner u)) \<subseteq> set (running (sc_planner s))" using p(5) q(5) by (rule order_trans [rotated])
  fix y
  show "sobj u y = sobj s y" "io u y = io s y" "(y \<in> set (running (sc_planner u))) = (y \<in> set (running (sc_planner s)))"
    if "y \<notin> A"
    using p(3,4) [OF that] q(3,4) [OF that] io(1,2) [OF that] by simp_all
  show "rows_held (request_id (sobj s y)) (kv (sc_planner u)) = rows_held (request_id (sobj s y)) (kv (sc_planner s))"
    if "y \<in> set (running (sc_planner u))"
    using q(6) [OF that] p(6) [OF subsetD [OF q(5) that]] unfolding p(11) by simp
  show "request_id (sobj u y) = request_id (sobj s y)" using p(11) q(11) by simp
  show "prompt_token_ids (sobj u y) = prompt_token_ids (sobj s y)" using assms by (simp add: harvest_frame_def)
  show "prefix (output_token_ids (sobj s y)) (output_token_ids (sobj u y))" using p(16) q(16) by (rule prefix_order.trans)
  show "num_computed_tokens (sobj u y) = num_computed_tokens (sobj s y)" using p(7) q(7) by simp
  show "pending_tokens (sobj u y) = pending_tokens (sobj s y)" using p(9) q(9) by simp
  show "is_finished (sobj u y)" if "is_finished (sobj s y)" using p(10) [OF that] q(10) by blast
qed

lemma harvest_frame_mono: "harvest_frame A s t \<Longrightarrow> A \<subseteq> B \<Longrightarrow> harvest_frame B s t"
  unfolding harvest_frame_def by blast

text \<open>A request the harvest may be given: finished, or running with its prompt computed.\<close>

definition harvestable :: "scheduler \<Rightarrow> oid \<Rightarrow> bool" where
  "harvestable sc x \<longleftrightarrow> is_finished (sobj sc x) \<or> x \<in> set (running (sc_planner sc)) \<and> prefill_done (sobj sc x)"

text \<open>Retiring a live request.\<close>

lemma retired_ok:
  assumes inv: "planner_inv (digest (penv E)) (sc_planner sc)" and x: "map_of (live (sc_planner sc)) r = Some x"
    and P': "planner_inv (digest (penv E)) P'" "retired x reason (sc_planner sc) P'"
    and oth: "\<And>s y. map_of (live (sc_planner sc)) s = Some y \<Longrightarrow> s \<noteq> r \<Longrightarrow>
      has_room (sobj sc y) \<and> (\<exists>d. map_of (detokenizers sc) s = Some d \<and> text_ok G E (sobj sc y) (io sc y) d)"
    and none: "\<And>s. map_of (live (sc_planner sc)) s = None \<Longrightarrow> map_of (detokenizers sc) s = None"
  defines "sc' \<equiv> retire (request_id (objs P' x)) (sc\<lparr>sc_planner := P'\<rparr>)"
  shows "sched_inv G E sc'" "harvest_frame {x} sc sc'" "is_finished (sobj sc' x)" "finish_reason (sobj sc' x) = Some reason"
    "output_token_ids (sobj sc' x) = output_token_ids (sobj sc x)" "io sc' = io sc"
    "map_of (live (sc_planner sc')) r = None" "request_id (objs P' x) = r"
proof -
  let ?P = "sc_planner sc"
  note qo = planner_invD(3) [OF inv]
  have rid: "request_id (objs ?P x) = r" by (rule queues_okD(8) [OF qo x])
  obtain now where ob: "objs P' = (objs ?P)(x := finished reason now (objs ?P x))"
    "live P' = AList.delete r (live ?P)" "running P' = remove1 x (running ?P)" "pconfig P' = pconfig ?P"
    "\<And>s. s \<noteq> r \<Longrightarrow> rows_held s (kv P') = rows_held s (kv ?P)"
    using P'(2) rid by (auto simp: retired_def)
  show fx: "request_id (objs P' x) = r" using ob(1) rid by (simp add: finished_def)
  have eq: "sc' = retire r (sc\<lparr>sc_planner := P'\<rparr>)" using fx by (simp add: sc'_def)
  have rn: "set (running P') = set (running ?P) - {x}" using ob(3) queues_okD(1) [OF qo] by simp
  have ne: "request_id (objs ?P y) \<noteq> r" if "y \<in> set (running ?P)" "y \<noteq> x" for y
    using queues_okD(5) [OF qo that(1)] x that(2) by auto
  show "sched_inv G E sc'"
    unfolding sched_inv_def eq
  proof (intro conjI allI impI)
    show "planner_inv (digest (penv E)) (sc_planner (retire r (sc\<lparr>sc_planner := P'\<rparr>)))" using P'(1) by (simp add: retire_def)
    fix s
    show "map_of (detokenizers (retire r (sc\<lparr>sc_planner := P'\<rparr>))) s = None"
      if "map_of (live (sc_planner (retire r (sc\<lparr>sc_planner := P'\<rparr>)))) s = None"
      using that none [of s] by (cases "s = r") (auto simp: retire_def ob(2) delete_conv' fun_upd_def)
    fix y assume "map_of (live (sc_planner (retire r (sc\<lparr>sc_planner := P'\<rparr>)))) s = Some y"
    then have y: "map_of (live ?P) s = Some y" "s \<noteq> r"
      by (auto simp: retire_def ob(2) delete_conv' fun_upd_def split: if_splits)
    then have "y \<noteq> x" using queues_okD(8) [OF qo y(1)] rid by auto
    then show "has_room (sobj (retire r (sc\<lparr>sc_planner := P'\<rparr>)) y)"
      "\<exists>d. map_of (detokenizers (retire r (sc\<lparr>sc_planner := P'\<rparr>))) s = Some d \<and>
        text_ok G E (sobj (retire r (sc\<lparr>sc_planner := P'\<rparr>)) y) (io (retire r (sc\<lparr>sc_planner := P'\<rparr>)) y) d"
      using oth [OF y] y(2) by (auto simp: retire_def ob(1) delete_conv')
  qed
  show "harvest_frame {x} sc sc'"
    using ob(1,2,4,5) rn ne by (auto simp: eq harvest_frame_def frozen_def retire_def finished_def is_finished_def AList.delete_eq)
  show "is_finished (sobj sc' x)" "finish_reason (sobj sc' x) = Some reason"
    "output_token_ids (sobj sc' x) = output_token_ids (sobj sc x)" "io sc' = io sc" "map_of (live (sc_planner sc')) r = None"
    by (simp_all add: eq retire_def ob(1,2) finished_def is_finished_def delete_conv')
qed

lemma sched_finish_ok:
  assumes inv: "planner_inv (digest (penv E)) (sc_planner sc)" and D: "digest8 (digest (penv E))"
    and x: "map_of (live (sc_planner sc)) r = Some x"
    and oth: "\<And>s y. map_of (live (sc_planner sc)) s = Some y \<Longrightarrow> s \<noteq> r \<Longrightarrow>
      has_room (sobj sc y) \<and> (\<exists>d. map_of (detokenizers sc) s = Some d \<and> text_ok G E (sobj sc y) (io sc y) d)"
    and none: "\<And>s. map_of (live (sc_planner sc)) s = None \<Longrightarrow> map_of (detokenizers sc) s = None"
  shows "\<exists>sc'. sched_finish E x reason sc = Inr sc' \<and> sched_inv G E sc' \<and> harvest_frame {x} sc sc' \<and>
    is_finished (sobj sc' x) \<and> finish_reason (sobj sc' x) = Some reason \<and>
    output_token_ids (sobj sc' x) = output_token_ids (sobj sc x) \<and> io sc' = io sc"
proof -
  obtain P' where P': "finish (penv E) x reason (sc_planner sc) = Inr P'" "planner_inv (digest (penv E)) P'"
    "retired x reason (sc_planner sc) P'"
    using finish_ok [OF inv D x, of reason] by blast
  show ?thesis
    unfolding sched_finish_def P'(1) rbind_simps
    using retired_ok [OF inv x P'(2,3) oth none] by blast
qed

text \<open>The two ways a harvest changes a running request before it may retire it: opening its delta, and appending a token.\<close>

definition opened_as :: "oid \<Rightarrow> scheduler \<Rightarrow> scheduler \<Rightarrow> bool" where
  "opened_as x sc sc' \<longleftrightarrow>
     (\<exists>b q. sc' = sc\<lparr>sc_planner := upd_obj x (\<lambda>r. r\<lparr>delta_logprobs := b\<rparr>) (sc_planner sc), io := (io sc)(x := q)\<rparr> \<and>
        io_text q = io_text (io sc x) \<and> io_params q = io_params (io sc x))"

definition appended_as :: "senv \<Rightarrow> oid \<Rightarrow> int \<Rightarrow> scheduler \<Rightarrow> scheduler \<Rightarrow> bool" where
  "appended_as E x t sc sc' \<longleftrightarrow>
     (\<exists>a b q d s piece. map_of (detokenizers sc) (request_id (sobj sc x)) = Some d \<and>
        append_token (decode_text E) t (d ! 0) = (s, piece) \<and>
        sc' = sc\<lparr>sc_planner := upd_obj x (\<lambda>r. r\<lparr>output_logprobs := a, delta_logprobs := b\<rparr>) (emit x t (sc_planner sc)),
                 io := (io sc)(x := q), detokenizers := AList.update (request_id (sobj sc x)) (d[0 := s]) (detokenizers sc)\<rparr> \<and>
        io_text q = io_text (io sc x) @ piece \<and> io_params q = io_params (io sc x))"

lemma harvest_one_eq:
  assumes r: "\<not> is_finished (sobj sc x)" and d: "map_of (detokenizers sc) (request_id (sobj sc x)) = Some d" "length d = 1"
  shows "\<exists>sc2 sc5 op'. opened_as x sc sc2 \<and> appended_as E x t sc sc5 \<and>
    harvest_one E now chk (x, t, l) (sc, op, adv) =
      (if t \<in> set (stop_token_ids sc) then rbind (sched_finish E x ''eos'' sc2) (\<lambda>sc3. Inr (sc3, op', adv @ [x]))
       else if \<not> has_room (sobj sc5 x) \<or> max_seq_len (pconfig (sc_planner sc5)) \<le> seq_len (sobj sc5 x)
       then rbind (sched_finish E x ''length'' sc5) (\<lambda>sc6. Inr (sc6, op', adv @ [x]))
       else if chk \<and> stop_on_repeat (io_params (io sc5 x)) \<and> detect_repetition (is_digit E) (io_text (io sc5 x)) 128 3
       then rbind (sched_finish E x ''repeat'' sc5) (\<lambda>sc6. Inr (sc6, op', adv @ [x]))
       else Inr (sc5, op', adv @ [x]))"
proof -
  let ?rid = "request_id (sobj sc x)"
  define sc1 where "sc1 = upd_io x (\<lambda>q. q\<lparr>io_first_token := (case io_first_token q of None \<Rightarrow> Some now | t \<Rightarrow> t)\<rparr>) sc"
  define sc2 where "sc2 = (if ?rid \<in> set op then sc1
     else upd_sobj x (\<lambda>r. r\<lparr>delta_logprobs := None\<rparr>) (upd_io x (\<lambda>q. q\<lparr>io_delta := []\<rparr>) sc1))"
  define sc3 where "sc3 = upd_sobj x (\<lambda>r. r\<lparr>output_token_ids := output_token_ids r @ [t]\<rparr>) sc2"
  define sc4 where "sc4 = (case l of None \<Rightarrow> sc3
     | Some l \<Rightarrow> upd_sobj x (\<lambda>r. r\<lparr>output_logprobs := Some (case output_logprobs r of None \<Rightarrow> [l] | Some ls \<Rightarrow> ls @ [l]),
         delta_logprobs := Some l\<rparr>) sc3)"
  obtain s piece where s: "append_token (decode_text E) t (d ! 0) = (s, piece)"
    by (cases "append_token (decode_text E) t (d ! 0)")
  define sc5 where "sc5 = upd_io x (\<lambda>q. q\<lparr>io_delta := io_delta q @ piece, io_text := io_text q @ piece\<rparr>)
     (sc4\<lparr>detokenizers := AList.update ?rid (d[0 := s]) (detokenizers sc)\<rparr>)"
  define op' where "op' = (if ?rid \<in> set op then op else op @ [?rid])"
  have o2: "opened_as x sc sc2"
  proof (cases "?rid \<in> set op")
    case True
    then show ?thesis unfolding opened_as_def
      by (intro exI [of _ "delta_logprobs (sobj sc x)"] exI [of _ "io sc1 x"]) (simp add: sc1_def sc2_def)
  next
    case False
    then show ?thesis unfolding opened_as_def
      by (intro exI [of _ None] exI [of _ "io sc2 x"]) (simp add: sc1_def sc2_def)
  qed
  have d4: "detokenizers sc4 = detokenizers sc" "stop_token_ids sc4 = stop_token_ids sc"
    by (simp_all add: sc4_def sc3_def sc2_def sc1_def split: option.split)
  have ob: "\<exists>a b. sc_planner sc4 = upd_obj x (\<lambda>r. r\<lparr>output_logprobs := a, delta_logprobs := b\<rparr>) (emit x t (sc_planner sc)) \<and>
      sc4 = sc\<lparr>sc_planner := sc_planner sc4, io := (io sc)(x := io sc4 x)\<rparr> \<and>
      io_text (io sc4 x) = io_text (io sc x) \<and> io_params (io sc4 x) = io_params (io sc x)"
  proof -
    obtain b q where b: "sc2 = sc\<lparr>sc_planner := upd_obj x (\<lambda>r. r\<lparr>delta_logprobs := b\<rparr>) (sc_planner sc), io := (io sc)(x := q)\<rparr>"
      "io_text q = io_text (io sc x)" "io_params q = io_params (io sc x)" using o2 by (auto simp: opened_as_def)
    show ?thesis
    proof (cases l)
      case None
      then show ?thesis
        using b by (cases "sobj sc x") (intro exI [of _ "output_logprobs (sobj sc x)"] exI [of _ b], simp add: sc4_def sc3_def emit_def)
    next
      case (Some k)
      then show ?thesis
        using b by (intro exI [of _ "output_logprobs (sobj sc4 x)"] exI [of _ "Some k"]) (simp add: sc4_def sc3_def emit_def)
    qed
  qed
  then obtain a b where ab: "sc_planner sc4 = upd_obj x (\<lambda>r. r\<lparr>output_logprobs := a, delta_logprobs := b\<rparr>) (emit x t (sc_planner sc))"
    "sc4 = sc\<lparr>sc_planner := sc_planner sc4, io := (io sc)(x := io sc4 x)\<rparr>"
    "io_text (io sc4 x) = io_text (io sc x)" "io_params (io sc4 x) = io_params (io sc x)" by blast
  have "sc5 = sc\<lparr>sc_planner := sc_planner sc4, io := (io sc)(x := io sc5 x), detokenizers := AList.update ?rid (d[0 := s]) (detokenizers sc)\<rparr>"
    unfolding sc5_def by (subst ab(2), subst ab(2)) (simp add: d4)
  then have a5: "appended_as E x t sc sc5"
    unfolding appended_as_def using d(1) s ab(1,3,4)
    by (intro exI [of _ a] exI [of _ b] exI [of _ "io sc5 x"] exI [of _ d] exI [of _ s] exI [of _ piece]) (simp add: sc5_def)
  have st: "stop_token_ids sc2 = stop_token_ids sc" by (simp add: sc2_def sc1_def)
  have da: "detok_append (decode_text E) 0 t d = (d[0 := s], Inr piece)" using d(2) s by (simp add: detok_append_def)
  have "harvest_one E now chk (x, t, l) (sc, op, adv) =
      (if t \<in> set (stop_token_ids sc)
       then rbind (sched_finish E x ''eos'' sc2) (\<lambda>sc3. Inr (sc3, op', adv @ [x]))
       else case map_of (detokenizers sc4) ?rid of
              None \<Rightarrow> Inl KeyError
            | Some d \<Rightarrow>
                case detok_append (decode_text E) 0 t d of
                  (d', Inl err) \<Rightarrow> Inl err
                | (d', Inr piece) \<Rightarrow>
                    let sc5 = upd_io x (\<lambda>q. q\<lparr>io_delta := io_delta q @ piece, io_text := io_text q @ piece\<rparr>)
                                (sc4\<lparr>detokenizers := AList.update ?rid d' (detokenizers sc4)\<rparr>);
                        r = sobj sc5 x
                    in if \<not> has_room r \<or> seq_len r \<ge> max_seq_len (pconfig (sc_planner sc5))
                       then rbind (sched_finish E x ''length'' sc5) (\<lambda>sc6. Inr (sc6, op', adv @ [x]))
                       else if chk \<and> stop_on_repeat (io_params (io sc5 x)) \<and>
                               detect_repetition (is_digit E) (io_text (io sc5 x)) 128 3
                       then rbind (sched_finish E x ''repeat'' sc5) (\<lambda>sc6. Inr (sc6, op', adv @ [x]))
                       else Inr (sc5, op', adv @ [x]))"
    unfolding harvest_one_def prod.case sc4_def sc3_def sc2_def sc1_def op'_def Let_def using r by (simp only: if_False)
  then have "harvest_one E now chk (x, t, l) (sc, op, adv) =
      (if t \<in> set (stop_token_ids sc)
       then rbind (sched_finish E x ''eos'' sc2) (\<lambda>sc3. Inr (sc3, op', adv @ [x]))
       else if \<not> has_room (sobj sc5 x) \<or> max_seq_len (pconfig (sc_planner sc5)) \<le> seq_len (sobj sc5 x)
       then rbind (sched_finish E x ''length'' sc5) (\<lambda>sc6. Inr (sc6, op', adv @ [x]))
       else if chk \<and> stop_on_repeat (io_params (io sc5 x)) \<and> detect_repetition (is_digit E) (io_text (io sc5 x)) 128 3
       then rbind (sched_finish E x ''repeat'' sc5) (\<lambda>sc6. Inr (sc6, op', adv @ [x]))
       else Inr (sc5, op', adv @ [x]))"
    unfolding d4(1) d(1) option.case da prod.case sum.case sc5_def [symmetric] Let_def .
  with o2 a5 show ?thesis by blast
qed

lemma planner_inv_records:
  assumes inv: "planner_inv D P" and c: "\<And>r. core (f r) = core r" "\<And>r. num_computed_tokens (f r) = num_computed_tokens r"
  shows "planner_inv D (upd_obj x f P)"
  by (rule planner_inv_upd_obj [OF inv])
    (use planner_invD(3,4) [OF inv] c in \<open>auto dest: queues_okD(6) kv_okD(4)\<close>)

text \<open>The other requests keep what the invariant says of them.\<close>

lemma others_kept:
  assumes inv: "sched_inv G E sc" and x: "map_of (live (sc_planner sc)) r = Some x"
    and l: "live (sc_planner sc') = live (sc_planner sc)"
    and o: "\<And>y. y \<noteq> x \<Longrightarrow> sobj sc' y = sobj sc y \<and> io sc' y = io sc y"
    and d: "\<And>s. s \<noteq> r \<Longrightarrow> map_of (detokenizers sc') s = map_of (detokenizers sc) s"
    and y: "map_of (live (sc_planner sc')) s = Some y" "s \<noteq> r"
  shows "has_room (sobj sc' y) \<and> (\<exists>d. map_of (detokenizers sc') s = Some d \<and> text_ok G E (sobj sc' y) (io sc' y) d)"
proof -
  note qo = planner_invD(3) [OF sched_invD(1) [OF inv]]
  have ly: "map_of (live (sc_planner sc)) s = Some y" using y(1) l by simp
  have "y \<noteq> x" using queues_okD(8) [OF qo ly] queues_okD(8) [OF qo x] y(2) by auto
  then show ?thesis using sched_invD(2,3) [OF inv ly] o d [OF y(2)] by auto
qed

lemma opened_ok:
  assumes inv: "sched_inv G E sc" and x: "map_of (live (sc_planner sc)) r = Some x" and o: "opened_as x sc sc'"
  shows "planner_inv (digest (penv E)) (sc_planner sc')" "live (sc_planner sc') = live (sc_planner sc)"
    "harvest_frame {x} sc sc'" "output_token_ids (sobj sc' x) = output_token_ids (sobj sc x)"
    "detokenizers sc' = detokenizers sc" "y \<noteq> x \<Longrightarrow> sobj sc' y = sobj sc y \<and> io sc' y = io sc y"
proof -
  obtain b q where b: "sc' = sc\<lparr>sc_planner := upd_obj x (\<lambda>r. r\<lparr>delta_logprobs := b\<rparr>) (sc_planner sc), io := (io sc)(x := q)\<rparr>"
    using o by (auto simp: opened_as_def)
  show "planner_inv (digest (penv E)) (sc_planner sc')"
    unfolding b by (simp, rule planner_inv_records [OF sched_invD(1) [OF inv]]) (simp_all add: core_def)
  show "live (sc_planner sc') = live (sc_planner sc)" "harvest_frame {x} sc sc'"
    "output_token_ids (sobj sc' x) = output_token_ids (sobj sc x)" "detokenizers sc' = detokenizers sc"
    "y \<noteq> x \<Longrightarrow> sobj sc' y = sobj sc y \<and> io sc' y = io sc y"
    by (simp_all add: b harvest_frame_def frozen_def is_finished_def)
qed

lemma appended_ok:
  assumes inv: "sched_inv G E sc" and x: "x \<in> set (running (sc_planner sc))" "prefill_done (sobj sc x)"
    and t: "0 \<le> t" "t < 2 ^ 32" and a: "appended_as E x t sc sc'"
  shows "planner_inv (digest (penv E)) (sc_planner sc')" "live (sc_planner sc') = live (sc_planner sc)"
    "harvest_frame {x} sc sc'" "output_token_ids (sobj sc' x) = output_token_ids (sobj sc x) @ [t]"
    "y \<noteq> x \<Longrightarrow> sobj sc' y = sobj sc y \<and> io sc' y = io sc y"
    "s \<noteq> request_id (sobj sc x) \<Longrightarrow> map_of (detokenizers sc') s = map_of (detokenizers sc) s"
    "\<exists>d. map_of (detokenizers sc') (request_id (sobj sc x)) = Some d \<and> text_ok G E (sobj sc' x) (io sc' x) d"
    "max_new_tokens (sobj sc' x) = max_new_tokens (sobj sc x)" "seq_len (sobj sc' x) = Suc (seq_len (sobj sc x))"
    "x \<in> set (running (sc_planner sc'))" "finish_reason (sobj sc' x) = finish_reason (sobj sc x)"
proof -
  let ?P = "sc_planner sc" and ?rid = "request_id (sobj sc x)"
  note pi = sched_invD(1) [OF inv]
  have lx: "map_of (live ?P) ?rid = Some x" by (rule queues_okD(5) [OF planner_invD(3) [OF pi] x(1)])
  obtain a1 b q d s1 piece where d: "map_of (detokenizers sc) ?rid = Some d"
    "append_token (decode_text E) t (d ! 0) = (s1, piece)"
    "sc' = sc\<lparr>sc_planner := upd_obj x (\<lambda>r. r\<lparr>output_logprobs := a1, delta_logprobs := b\<rparr>) (emit x t ?P),
       io := (io sc)(x := q), detokenizers := AList.update ?rid (d[0 := s1]) (detokenizers sc)\<rparr>"
    "io_text q = io_text (io sc x) @ piece"
    using a by (auto simp: appended_as_def)
  have tx: "text_ok G E (sobj sc x) (io sc x) d" using sched_invD(3) [OF inv lx] d(1) by auto
  have "planner_inv (digest (penv E)) (emit x t ?P)" by (rule emit_ok [OF pi x(1) sched_invD(2) [OF inv lx] t])
  then show "planner_inv (digest (penv E)) (sc_planner sc')"
    unfolding d(3) by (simp, rule planner_inv_records) (simp_all add: core_def)
  show "live (sc_planner sc') = live ?P" "harvest_frame {x} sc sc'"
    "output_token_ids (sobj sc' x) = output_token_ids (sobj sc x) @ [t]"
    "y \<noteq> x \<Longrightarrow> sobj sc' y = sobj sc y \<and> io sc' y = io sc y"
    "s \<noteq> ?rid \<Longrightarrow> map_of (detokenizers sc') s = map_of (detokenizers sc) s"
    "max_new_tokens (sobj sc' x) = max_new_tokens (sobj sc x)" "seq_len (sobj sc' x) = Suc (seq_len (sobj sc x))"
    "x \<in> set (running (sc_planner sc'))" "finish_reason (sobj sc' x) = finish_reason (sobj sc x)"
    using x(1) by (simp_all add: d(3) emit_def harvest_frame_def frozen_def is_finished_def seq_len_def dict_simps)
  have tk: "tokens (sobj sc' x) = tokens (sobj sc x) @ [t]" by (simp add: d(3) emit_def tokens_def)
  have "text_ok G E (sobj sc' x) (io sc' x) (d[0 := s1])"
    unfolding text_ok_def
  proof (intro conjI)
    show "length (d[0 := s1]) = 1" using tx by (simp add: text_ok_def)
    then have s0: "d[0 := s1] ! 0 = s1" by simp
    note dt = append_token_tokens [OF d(2)]
    show "\<exists>p \<in> G (request_id (sobj sc' x)). tokens (sobj sc' x) = p @ dt_tokens (d[0 := s1] ! 0)"
      using tx unfolding s0 dt tk text_ok_def by (auto simp: d(3) emit_def)
    show "length (output_token_ids (sobj sc' x)) \<le> length (dt_tokens (d[0 := s1] ! 0))"
      using tx unfolding s0 dt text_ok_def by (simp add: d(3) emit_def)
    have "append_tokens (decode_text E) (dt_tokens (d ! 0) @ [t]) sequence_init = (s1, io_text (io sc x) @ piece)"
      using tx d(2) by (simp add: append_tokens_snoc text_ok_def)
    then show "append_tokens (decode_text E) (dt_tokens (d[0 := s1] ! 0)) sequence_init = (d[0 := s1] ! 0, io_text (io sc' x))"
      unfolding s0 dt by (simp add: d(3,4))
  qed
  then show "\<exists>d. map_of (detokenizers sc') ?rid = Some d \<and> text_ok G E (sobj sc' x) (io sc' x) d"
    by (simp add: d(3) dict_simps)
qed

text \<open>How one token ends: the request stops without it, or keeps it and stops when there is no room left, or goes on.\<close>

definition token_outcome :: "senv \<Rightarrow> bool \<Rightarrow> oid \<Rightarrow> int \<Rightarrow> scheduler \<Rightarrow> scheduler \<Rightarrow> bool" where
  "token_outcome E chk x t sc sc' \<longleftrightarrow>
     (if t \<in> set (stop_token_ids sc)
      then output_token_ids (sobj sc' x) = output_token_ids (sobj sc x) \<and> is_finished (sobj sc' x) \<and>
        finish_reason (sobj sc' x) = Some ''eos''
      else output_token_ids (sobj sc' x) = output_token_ids (sobj sc x) @ [t] \<and>
        (if max_new_tokens (sobj sc x) \<le> int (Suc (length (output_token_ids (sobj sc x)))) \<or>
            max_seq_len (pconfig (sc_planner sc)) \<le> Suc (seq_len (sobj sc x))
         then is_finished (sobj sc' x) \<and> finish_reason (sobj sc' x) = Some ''length''
         else is_finished (sobj sc' x) \<and> chk \<and> finish_reason (sobj sc' x) = Some ''repeat'' \<or>
           \<not> is_finished (sobj sc' x) \<and> x \<in> set (running (sc_planner sc')) \<and>
           max_new_tokens (sobj sc' x) = max_new_tokens (sobj sc x) \<and> finish_reason (sobj sc' x) = finish_reason (sobj sc x)))"

lemma running_not_finished:
  "planner_inv D P \<Longrightarrow> x \<in> set (running P) \<Longrightarrow> \<not> is_finished (objs P x)"
  using queues_okD(4) [OF planner_invD(3)] by (auto simp: is_finished_def)

lemma harvest_one_ok:
  assumes inv: "sched_inv G E sc" and D: "digest8 (digest (penv E))"
    and x: "x \<in> set (running (sc_planner sc))" "prefill_done (sobj sc x)" and t: "0 \<le> t" "t < 2 ^ 32"
  shows "\<exists>sc' op'. harvest_one E now chk (x, t, l) (sc, op, adv) = Inr (sc', op', adv @ [x]) \<and> sched_inv G E sc' \<and>
    harvest_frame {x} sc sc' \<and> token_outcome E chk x t sc sc'"
proof -
  let ?P = "sc_planner sc" and ?rid = "request_id (sobj sc x)"
  note pi = sched_invD(1) [OF inv]
  have lx: "map_of (live ?P) ?rid = Some x" by (rule queues_okD(5) [OF planner_invD(3) [OF pi] x(1)])
  obtain d where d: "map_of (detokenizers sc) ?rid = Some d" "length d = 1"
    using sched_invD(3) [OF inv lx] by (auto simp: text_ok_def)
  obtain sc2 sc5 op' where e: "opened_as x sc sc2" "appended_as E x t sc sc5"
    "harvest_one E now chk (x, t, l) (sc, op, adv) =
      (if t \<in> set (stop_token_ids sc) then rbind (sched_finish E x ''eos'' sc2) (\<lambda>sc3. Inr (sc3, op', adv @ [x]))
       else if \<not> has_room (sobj sc5 x) \<or> max_seq_len (pconfig (sc_planner sc5)) \<le> seq_len (sobj sc5 x)
       then rbind (sched_finish E x ''length'' sc5) (\<lambda>sc6. Inr (sc6, op', adv @ [x]))
       else if chk \<and> stop_on_repeat (io_params (io sc5 x)) \<and> detect_repetition (is_digit E) (io_text (io sc5 x)) 128 3
       then rbind (sched_finish E x ''repeat'' sc5) (\<lambda>sc6. Inr (sc6, op', adv @ [x]))
       else Inr (sc5, op', adv @ [x]))"
    using harvest_one_eq [OF running_not_finished [OF pi x(1)] d] by blast
  note o = opened_ok [OF inv lx e(1)] and a = appended_ok [OF inv x t e(2)]
  have none: "map_of (detokenizers sc2) s = None" if "map_of (live (sc_planner sc2)) s = None" for s
    using that o(2,5) sched_invD(4) [OF inv] by simp
  have none5: "map_of (detokenizers sc5) s = None" if "map_of (live (sc_planner sc5)) s = None" for s
    using that a(2) a(6) [of s] sched_invD(4) [OF inv] lx by (cases "s = ?rid") simp_all
  have fin2: "\<exists>sc'. sched_finish E x reason sc2 = Inr sc' \<and> sched_inv G E sc' \<and> harvest_frame {x} sc sc' \<and>
      is_finished (sobj sc' x) \<and> finish_reason (sobj sc' x) = Some reason \<and>
      output_token_ids (sobj sc' x) = output_token_ids (sobj sc x)" for reason
  proof -
    have "map_of (live (sc_planner sc2)) ?rid = Some x" using lx o(2) by simp
    from sched_finish_ok [OF o(1) D this _ none, where reason = reason and G = G] others_kept [OF inv lx o(2,6)]
    show ?thesis using harvest_frame_trans [OF o(3)] o(4,5) by fastforce
  qed
  have fin5: "\<exists>sc'. sched_finish E x reason sc5 = Inr sc' \<and> sched_inv G E sc' \<and> harvest_frame {x} sc sc' \<and>
      is_finished (sobj sc' x) \<and> finish_reason (sobj sc' x) = Some reason \<and>
      output_token_ids (sobj sc' x) = output_token_ids (sobj sc x) @ [t]" for reason
  proof -
    have "map_of (live (sc_planner sc5)) ?rid = Some x" using lx a(2) by simp
    from sched_finish_ok [OF a(1) D this _ none5, where reason = reason and G = G] others_kept [OF inv lx a(2,5,6)]
    show ?thesis using harvest_frame_trans [OF a(3)] a(4) by fastforce
  qed
  have room: "has_room (sobj sc5 x) \<longleftrightarrow> \<not> max_new_tokens (sobj sc x) \<le> int (Suc (length (output_token_ids (sobj sc x))))"
    using a(4,8) by (simp add: has_room_def not_le)
  have cfg: "pconfig (sc_planner sc5) = pconfig ?P" by (rule harvest_frameD(1) [OF a(3)])
  show ?thesis
  proof (cases "t \<in> set (stop_token_ids sc)")
    case True
    then show ?thesis using fin2 [of "''eos''"] unfolding e(3) token_outcome_def by auto
  next
    case no_stop: False
    show ?thesis
    proof (cases "\<not> has_room (sobj sc5 x) \<or> max_seq_len (pconfig (sc_planner sc5)) \<le> seq_len (sobj sc5 x)")
      case True
      then have "max_new_tokens (sobj sc x) \<le> int (Suc (length (output_token_ids (sobj sc x)))) \<or>
          max_seq_len (pconfig ?P) \<le> Suc (seq_len (sobj sc x))" using room cfg a(9) by simp
      then show ?thesis using fin5 [of "''length''"] True no_stop unfolding e(3) token_outcome_def by auto
    next
      case fits: False
      then have go: "\<not> (max_new_tokens (sobj sc x) \<le> int (Suc (length (output_token_ids (sobj sc x)))) \<or>
          max_seq_len (pconfig ?P) \<le> Suc (seq_len (sobj sc x)))" using room cfg a(9) by simp
      show ?thesis
      proof (cases "chk \<and> stop_on_repeat (io_params (io sc5 x)) \<and> detect_repetition (is_digit E) (io_text (io sc5 x)) 128 3")
        case True
        then show ?thesis using fin5 [of "''repeat''"] no_stop fits go unfolding e(3) token_outcome_def by auto
      next
        case False
        have "sched_inv G E sc5"
          unfolding sched_inv_def
        proof (intro conjI allI impI)
          show "planner_inv (digest (penv E)) (sc_planner sc5)" by (rule a(1))
          fix s
          show "map_of (detokenizers sc5) s = None" if "map_of (live (sc_planner sc5)) s = None" by (rule none5 [OF that])
          fix y assume y: "map_of (live (sc_planner sc5)) s = Some y"
          have "has_room (sobj sc5 y) \<and> (\<exists>d. map_of (detokenizers sc5) s = Some d \<and> text_ok G E (sobj sc5 y) (io sc5 y) d)"
          proof (cases "s = ?rid")
            case True
            then have "y = x" using y a(2) lx by simp
            then show ?thesis using True fits a(7) by blast
          next
            case False
            then show ?thesis using others_kept [OF inv lx a(2,5,6) y] by blast
          qed
          then show "has_room (sobj sc5 y)" "\<exists>d. map_of (detokenizers sc5) s = Some d \<and> text_ok G E (sobj sc5 y) (io sc5 y) d"
            by blast+
        qed
        moreover have "token_outcome E chk x t sc sc5"
          using no_stop go a(4,8,10,11) running_not_finished [OF a(1,10)] by (simp add: token_outcome_def)
        ultimately show ?thesis using False fits no_stop a(3) unfolding e(3) by auto
      qed
    qed
  qed
qed

text \<open>A whole harvest.\<close>

lemma harvestable_frame:
  assumes f: "harvest_frame {x} sc sc'" and y: "harvestable sc y"
    and x: "is_finished (sobj sc' x) \<or> x \<in> set (running (sc_planner sc'))"
  shows "harvestable sc' y"
proof (cases "y = x")
  case True
  show ?thesis
  proof (cases "is_finished (sobj sc' x)")
    case False
    then have "\<not> is_finished (sobj sc x)" using harvest_frameD(10) [OF f] by blast
    then have "prefill_done (sobj sc x)" using y True by (simp add: harvestable_def)
    then show ?thesis
      using x False True harvest_frameD(7,8) [OF f] by (simp add: harvestable_def prefill_done_def)
  qed (simp add: True harvestable_def)
next
  case False
  then show ?thesis using y harvest_frameD(3,4) [OF f, of y] by (simp add: harvestable_def)
qed

lemma subseq_set: "subseq xs ys \<Longrightarrow> set xs \<subseteq> set ys"
  by (auto elim: list_emb_set)

lemma subseq_distinct: "subseq xs ys \<Longrightarrow> distinct ys \<Longrightarrow> distinct xs"
  by (induction rule: list_emb.induct) (auto dest: subseq_set)

definition harvested :: "scheduler \<Rightarrow> oid \<Rightarrow> bool" where
  "harvested sc x \<longleftrightarrow> is_finished (sobj sc x) \<or> x \<in> set (running (sc_planner sc)) \<and> output_token_ids (sobj sc x) \<noteq> []"

lemma harvest_fold_ok:
  assumes "sched_inv G E sc" "digest8 (digest (penv E))"
    "\<And>x t l. (x, t, l) \<in> set emitted \<Longrightarrow> harvestable sc x \<and> 0 \<le> t \<and> t < 2 ^ 32"
  shows "\<exists>sc' op' adv'. rfold (harvest_one E now chk) emitted (sc, op, adv) = Inr (sc', op', adv') \<and> sched_inv G E sc' \<and>
    harvest_frame (fst ` set emitted) sc sc' \<and> (\<forall>x \<in> fst ` set emitted. harvested sc' x) \<and>
    (\<exists>zs. adv' = adv @ zs \<and> subseq zs (map fst emitted)) \<and>
    (\<forall>x \<in> fst ` set emitted. \<not> is_finished (sobj sc x) \<longrightarrow> x \<in> set adv')"
  using assms
proof (induction emitted arbitrary: sc op adv)
  case Nil
  then show ?case by simp
next
  case (Cons e es)
  obtain x t l where e: "e = (x, t, l)" by (cases e) auto
  have h: "harvestable sc x" "0 \<le> t" "t < 2 ^ 32" using Cons.prems(3) [of x t l] e by simp_all
  have one: "\<exists>sc1 op1 adv1. harvest_one E now chk (x, t, l) (sc, op, adv) = Inr (sc1, op1, adv1) \<and> sched_inv G E sc1 \<and>
      harvest_frame {x} sc sc1 \<and> harvested sc1 x \<and> (\<exists>zs. adv1 = adv @ zs \<and> subseq zs [x]) \<and>
      (\<not> is_finished (sobj sc x) \<longrightarrow> x \<in> set adv1)"
  proof (cases "is_finished (sobj sc x)")
    case True
    then show ?thesis using Cons.prems(1) by (auto simp: harvest_one_def harvested_def)
  next
    case False
    then have r: "x \<in> set (running (sc_planner sc))" "prefill_done (sobj sc x)" using h(1) by (simp_all add: harvestable_def)
    obtain sc1 op1 where o: "harvest_one E now chk (x, t, l) (sc, op, adv) = Inr (sc1, op1, adv @ [x])" "sched_inv G E sc1"
      "harvest_frame {x} sc sc1" "token_outcome E chk x t sc sc1"
      using harvest_one_ok [OF Cons.prems(1,2) r h(2,3)] by blast
    then have "harvested sc1 x" by (auto simp: token_outcome_def harvested_def split: if_splits)
    then show ?thesis using o by auto
  qed
  then obtain sc1 op1 adv1 where s: "harvest_one E now chk (x, t, l) (sc, op, adv) = Inr (sc1, op1, adv1)" "sched_inv G E sc1"
    "harvest_frame {x} sc sc1" "harvested sc1 x" "\<not> is_finished (sobj sc x) \<longrightarrow> x \<in> set adv1" by blast
  obtain z1 where z1: "adv1 = adv @ z1" "subseq z1 [x]" using one s(1) by auto
  have "harvestable sc1 y \<and> 0 \<le> t' \<and> t' < 2 ^ 32" if "(y, t', l') \<in> set es" for y t' l'
    using harvestable_frame [OF s(3)] Cons.prems(3) [of y t' l'] that s(4) by (auto simp: harvested_def)
  then obtain sc2 op2 adv2 where i: "rfold (harvest_one E now chk) es (sc1, op1, adv1) = Inr (sc2, op2, adv2)" "sched_inv G E sc2"
    "harvest_frame (fst ` set es) sc1 sc2" "\<forall>y \<in> fst ` set es. harvested sc2 y" "\<exists>zs. adv2 = adv1 @ zs \<and> subseq zs (map fst es)"
    "\<forall>y \<in> fst ` set es. \<not> is_finished (sobj sc1 y) \<longrightarrow> y \<in> set adv2"
    using Cons.IH [OF s(2) Cons.prems(2)] by blast
  obtain z2 where z2: "adv2 = adv1 @ z2" "subseq z2 (map fst es)" using i(5) by blast
  have "subseq (z1 @ z2) ([x] @ map fst es)" by (rule list_emb_append_mono [OF z1(2) z2(2)])
  then have "\<exists>zs. adv2 = adv @ zs \<and> subseq zs (map fst (e # es))" using z1(1) z2(1) e by auto
  moreover have "harvest_frame (fst ` set (e # es)) sc sc2"
    by (rule harvest_frame_trans [OF harvest_frame_mono [OF s(3)] harvest_frame_mono [OF i(3)]]) (auto simp: e)
  moreover have "harvested sc2 x"
  proof (cases "x \<in> fst ` set es")
    case False
    then show ?thesis using s(4) harvest_frameD(3,4) [OF i(3) False] by (simp add: harvested_def)
  qed (use i(4) in blast)
  moreover have "y \<in> set adv2" if y: "y \<in> fst ` set (e # es)" "\<not> is_finished (sobj sc y)" for y
  proof (cases "y = x")
    case True
    then show ?thesis using s(5) z2 y(2) by auto
  next
    case False
    then have "y \<in> fst ` set es" "sobj sc1 y = sobj sc y" using y(1) e harvest_frameD(3) [OF s(3), of y] by auto
    then show ?thesis using i(6) y(2) by metis
  qed
  ultimately show ?case using s(1) i(1,2,4) by (auto simp: e)
qed

lemma planner_inv_ticks: "planner_inv D P \<Longrightarrow> planner_inv D (P\<lparr>ticks := n\<rparr>)"
  unfolding planner_inv_def queues_ok_def slots_ok_def kv_ok_def chain_of_live_def no_offload_def
  by (simp del: map_of_eq_Some_iff Some_eq_map_of_iff)

lemma harvest_ok:
  assumes inv: "sched_inv G E sc" and D: "digest8 (digest (penv E))"
    and e: "\<forall>(x, t, l) \<in> set emitted. harvestable sc x \<and> 0 \<le> t \<and> t < 2 ^ 32"
  shows "\<exists>sc' adv. harvest E emitted sc = Inr (sc', adv) \<and> sched_inv G E sc' \<and> harvest_frame (fst ` set emitted) sc sc' \<and>
    (\<forall>x \<in> fst ` set emitted. harvested sc' x) \<and> subseq adv (map fst emitted) \<and>
    (\<forall>x \<in> fst ` set emitted. \<not> is_finished (sobj sc x) \<longrightarrow> x \<in> set adv)"
proof -
  let ?sc = "sc\<lparr>sc_planner := (sc_planner sc)\<lparr>ticks := ticks (sc_planner sc) + 1\<rparr>\<rparr>"
  have i: "sched_inv G E ?sc"
    by (rule sched_inv_planner [OF inv planner_inv_ticks [OF sched_invD(1) [OF inv]]]) simp_all
  have f: "harvest_frame A sc ?sc" for A by (simp add: harvest_frame_def frozen_def)
  have h: "harvestable ?sc x \<and> 0 \<le> t \<and> t < 2 ^ 32" if "(x, t, l) \<in> set emitted" for x t l
    using e that by (auto simp: harvestable_def)
  have "\<exists>sc' op' adv'. rfold (harvest_one E (clock (penv E) (ticks (sc_planner sc))) (step_count sc mod POLL_INTERVAL = 0))
      emitted (?sc, [], []) = Inr (sc', op', adv') \<and> sched_inv G E sc' \<and> harvest_frame (fst ` set emitted) ?sc sc' \<and>
      (\<forall>x \<in> fst ` set emitted. harvested sc' x) \<and> (\<exists>zs. adv' = [] @ zs \<and> subseq zs (map fst emitted)) \<and>
      (\<forall>x \<in> fst ` set emitted. \<not> is_finished (sobj ?sc x) \<longrightarrow> x \<in> set adv')"
    by (rule harvest_fold_ok [OF i D h])
  then obtain sc' op adv where r: "rfold (harvest_one E (clock (penv E) (ticks (sc_planner sc))) (step_count sc mod POLL_INTERVAL = 0))
      emitted (?sc, [], []) = Inr (sc', op, adv)" "sched_inv G E sc'" "harvest_frame (fst ` set emitted) ?sc sc'"
    "\<forall>x \<in> fst ` set emitted. harvested sc' x" "subseq adv (map fst emitted)"
    "\<forall>x \<in> fst ` set emitted. \<not> is_finished (sobj sc x) \<longrightarrow> x \<in> set adv" by auto
  then show ?thesis
    using harvest_frame_trans [OF f r(3)] by (auto simp: harvest_def monotonic_def)
qed

section \<open>Speculative decoding\<close>

text \<open>Reserving rows for several drafts.\<close>

definition spec_all :: "planner \<Rightarrow> planner \<Rightarrow> bool" where
  "spec_all P P' \<longleftrightarrow>
     running P' = running P \<and> live P' = live P \<and> pconfig P' = pconfig P \<and>
     (\<forall>y. core (objs P' y) = core (objs P y) \<and> num_computed_tokens (objs P' y) = num_computed_tokens (objs P y) \<and>
        pending_tokens (objs P' y) = pending_tokens (objs P y)) \<and>
     (\<forall>r. length (rows_held r (kv P)) \<le> length (rows_held r (kv P')))"

lemma spec_all_refl [simp]: "spec_all P P"
  by (simp add: spec_all_def)

lemma spec_all_trans: "spec_all P Q \<Longrightarrow> spec_all Q R \<Longrightarrow> spec_all P R"
  by (auto simp: spec_all_def intro: order_trans)

lemma reserve_speculative_all:
  assumes "planner_inv D P" "x \<in> set (running P)"
  shows "\<exists>P' k. reserve_speculative x n P = Inr (P', k) \<and> planner_inv D P' \<and> k \<le> n \<and> spec_all P P' \<and>
    (0 < k \<longrightarrow> seq_len (objs P x) + k \<le> length (rows_held (request_id (objs P x)) (kv P')) * BLOCK_SIZE)"
proof -
  obtain P' k where r: "reserve_speculative x n P = Inr (P', k)" "planner_inv D P'" "k \<le> n" "running P' = running P"
    "0 < k \<longrightarrow> seq_len (objs P x) + k \<le> length (rows_held (request_id (objs P x)) (kv P')) * BLOCK_SIZE"
    "\<forall>y. y \<noteq> x \<longrightarrow> objs P' y = objs P y" "spec_frame x P P'"
    using reserve_speculative_ok [OF assms] by blast
  have "core (objs P' y) = core (objs P y) \<and> num_computed_tokens (objs P' y) = num_computed_tokens (objs P y) \<and>
      pending_tokens (objs P' y) = pending_tokens (objs P y)" for y
    using r(6,7) by (cases "y = x") (simp_all add: spec_frame_def)
  then have "spec_all P P'" using r(4,7) by (simp add: spec_all_def spec_frame_def)
  then show ?thesis using r by blast
qed

lemma draft_fold_ok:
  assumes "planner_inv D P" "set xs \<subseteq> set (running P)"
  shows "\<exists>P' dr re. rfold (draft_one p ios) xs (P, drafts, remaining) = Inr (P', drafts @ dr, remaining @ re) \<and>
    planner_inv D P' \<and> spec_all P P' \<and> mset (map fst dr @ re) = mset xs \<and> (\<forall>d \<in> set dr. snd d \<noteq> [])"
  using assms
proof (induction xs arbitrary: P drafts remaining)
  case Nil
  then show ?case by (intro exI [of _ P] exI [of _ "[]"]) simp
next
  case (Cons x xs)
  have x: "x \<in> set (running P)" using Cons.prems(2) by simp
  have "\<exists>P1 dr1 re1. draft_one p ios x (P, drafts, remaining) = Inr (P1, drafts @ dr1, remaining @ re1) \<and> planner_inv D P1 \<and>
      spec_all P P1 \<and> mset (map fst dr1 @ re1) = {#x#} \<and> (\<forall>d \<in> set dr1. snd d \<noteq> [])"
  proof (cases "par_logprobs (io_params (ios x)) \<noteq> None \<or> propose p (prompt_token_ids (objs P x) @ output_token_ids (objs P x)) = []")
    case True
    then show ?thesis
      using Cons.prems(1) by (intro exI [of _ P] exI [of _ "[]"] exI [of _ "[x]"]) (auto simp: draft_one_def propose_one_def Let_def)
  next
    case False
    define pr where "pr = propose p (prompt_token_ids (objs P x) @ output_token_ids (objs P x))"
    obtain P1 k where r: "reserve_speculative x (length pr) P = Inr (P1, k)" "planner_inv D P1" "k \<le> length pr" "spec_all P P1"
      using reserve_speculative_all [OF Cons.prems(1) x] by blast
    have eq: "draft_one p ios x (P, drafts, remaining) =
        (if k \<noteq> 0 then Inr (P1, drafts @ [(x, take k pr)], remaining) else Inr (P1, drafts, remaining @ [x]))"
      using False r(1) by (simp add: draft_one_def propose_one_def pr_def Let_def)
    show ?thesis
    proof (cases "k = 0")
      case True
      then show ?thesis using eq r by (intro exI [of _ P1] exI [of _ "[]"] exI [of _ "[x]"]) simp
    next
      case nz: False
      then have "take k pr \<noteq> []" using False by (simp add: pr_def)
      then show ?thesis using eq r nz by (intro exI [of _ P1] exI [of _ "[(x, take k pr)]"] exI [of _ "[]"]) simp
    qed
  qed
  then obtain P1 dr1 re1 where s: "draft_one p ios x (P, drafts, remaining) = Inr (P1, drafts @ dr1, remaining @ re1)"
    "planner_inv D P1" "spec_all P P1" "mset (map fst dr1 @ re1) = {#x#}" "\<forall>d \<in> set dr1. snd d \<noteq> []" by blast
  have "set xs \<subseteq> set (running P1)" using Cons.prems(2) s(3) by (simp add: spec_all_def)
  then obtain P2 dr2 re2 where i: "rfold (draft_one p ios) xs (P1, drafts @ dr1, remaining @ re1) =
      Inr (P2, (drafts @ dr1) @ dr2, (remaining @ re1) @ re2)" "planner_inv D P2" "spec_all P1 P2"
    "mset (map fst dr2 @ re2) = mset xs" "\<forall>d \<in> set dr2. snd d \<noteq> []"
    using Cons.IH [OF s(2)] by blast
  have "mset (map fst (dr1 @ dr2) @ re1 @ re2) = mset (x # xs)"
    using s(4) i(4) by (simp add: ac_simps)
  then show ?case
    using s(1,5) i(1,2,5) spec_all_trans [OF s(3) i(3)] by (intro exI [of _ P2] exI [of _ "dr1 @ dr2"] exI [of _ "re1 @ re2"]) auto
qed

text \<open>What a verify pass emits: the accepted drafts are the argmax rows themselves, so the emission is a prefix of them.\<close>

lemma count_accepted_rows:
  assumes "length ds < length rows"
  shows "\<exists>n. count_accepted rows ds = Inr n \<and> n \<le> length ds \<and> take n ds = take n rows \<and>
    (n < length ds \<longrightarrow> rows ! n \<noteq> ds ! n)"
  using assms
proof (induction rows ds rule: count_accepted.induct)
  case (3 a rows d ds)
  show ?case
  proof (cases "a = d")
    case True
    then obtain n where "count_accepted rows ds = Inr n" "n \<le> length ds" "take n ds = take n rows"
      "n < length ds \<longrightarrow> rows ! n \<noteq> ds ! n" using 3 by auto
    then show ?thesis using True by (intro exI [of _ "Suc n"]) simp
  next
    case False
    then show ?thesis by (intro exI [of _ 0]) simp
  qed
qed simp_all

lemma accept_drafts_rows:
  assumes "length ds < length rows"
  shows "\<exists>n. accept_drafts rows ds = Inr (take (Suc n) rows) \<and> n \<le> length ds \<and> take n ds = take n rows \<and>
    (n < length ds \<longrightarrow> rows ! n \<noteq> ds ! n)"
proof -
  obtain n where n: "count_accepted rows ds = Inr n" "n \<le> length ds" "take n ds = take n rows"
    "n < length ds \<longrightarrow> rows ! n \<noteq> ds ! n" using count_accepted_rows [OF assms] by blast
  then have "n < length rows" using assms by simp
  then show ?thesis using n by (intro exI [of _ n]) (simp add: accept_drafts_def take_Suc_conv_app_nth)
qed

definition draft_rows :: "(oid \<times> int list) list \<Rightarrow> nat" where
  "draft_rows drafts = sum_list (map (\<lambda>d. length (snd d) + 1) drafts)"

lemma accept_all_ok:
  assumes "length rows = draft_rows drafts"
  shows "\<exists>em. accept_all rows drafts = Inr em \<and> fst ` set em = fst ` set drafts \<and>
    (\<forall>(x, t, l) \<in> set em. t \<in> set rows)"
  using assms
proof (induction drafts arbitrary: rows)
  case Nil
  then show ?case by simp
next
  case (Cons d drafts)
  let ?n = "length (snd d) + 1"
  have len: "length (snd d) < length (take ?n rows)" "length (drop ?n rows) = draft_rows drafts"
    using Cons.prems by (simp_all add: draft_rows_def)
  obtain k where k: "accept_drafts (take ?n rows) (snd d) = Inr (take (Suc k) (take ?n rows))"
    using accept_drafts_rows [OF len(1)] by blast
  obtain em where em: "accept_all (drop ?n rows) drafts = Inr em" "fst ` set em = fst ` set drafts"
    "\<forall>(x, t, l) \<in> set em. t \<in> set (drop ?n rows)"
    using Cons.IH [OF len(2)] by blast
  let ?ts = "take (Suc k) (take ?n rows)"
  have ts: "set ?ts \<subseteq> set rows" "?ts \<noteq> []" using len(1) by (auto dest!: in_set_takeD)
  have "fst ` set (map (\<lambda>t. (fst d, t, None)) ?ts) = {fst d}" using ts(2) by (cases ?ts) force+
  then show ?case using k em ts(1) by (auto simp: image_Un dest: in_set_dropD)
qed

section \<open>The synchronous step\<close>

text \<open>
  What the step relies on from the device: one token of 32 bits for each sampled row, as many records as tokens where there
  are any, no prompt records (nobody asked for them), one argmax for every row of a verify pass, and, with data-parallel
  attention, an agreed forward count that is not below the local one (it is a maximum).
\<close>

definition token_range :: "int list \<Rightarrow> bool" where
  "token_range ts \<longleftrightarrow> (\<forall>t \<in> set ts. 0 \<le> t \<and> t < 2 ^ 32)"

definition device_ok :: "senv \<Rightarrow> bool" where
  "device_ok E \<longleftrightarrow>
     (\<forall>n m. length (fst (execute E n m)) = length (mi_sampled m) \<and> token_range (fst (execute E n m)) \<and>
        \<not> wants_prompt_records (snd (execute E n m)) \<and>
        length (sampled_records (snd (execute E n m)) (length (mi_sampled m))) = length (mi_sampled m)) \<and>
     (\<forall>n m rows. execute_verify E n m = Some rows \<longrightarrow> length rows = length (mi_tokens m) \<and> token_range rows) \<and>
     (\<forall>n k. k \<le> coordinate E n k)"

definition sync_inv :: "(rid \<Rightarrow> int list set) \<Rightarrow> senv \<Rightarrow> scheduler \<Rightarrow> bool" where
  "sync_inv G E sc \<longleftrightarrow>
     sched_inv G E sc \<and> decode_ready (sc_planner sc) \<and> (\<forall>x. 0 \<le> pending_tokens (sobj sc x))"

lemma run_passes_ok:
  assumes "device_ok E" "\<forall>w \<in> set ws. length (sw_requests w) = length (mi_sampled (sw_plan w))"
  shows "\<exists>k ls. run_passes E ws sc = (sc\<lparr>passes_run := k\<rparr>, ls) \<and> map la_work ls = ws \<and>
    (\<forall>l \<in> set ls. length (la_tokens l) = length (sw_requests (la_work l)) \<and> token_range (la_tokens l) \<and>
       \<not> wants_prompt_records (la_logprobs l) \<and>
       length (sampled_records (la_logprobs l) (length (sw_requests (la_work l)))) = length (sw_requests (la_work l)))"
  using assms(2)
proof (induction ws arbitrary: sc)
  case Nil
  then show ?case by (intro exI [of _ "passes_run sc"] exI [of _ "[]"]) simp
next
  case (Cons w ws)
  let ?sc = "sc\<lparr>passes_run := passes_run sc + 1\<rparr>"
  obtain ts lp where e: "execute E (passes_run sc) (sw_plan w) = (ts, lp)" by (cases "execute E (passes_run sc) (sw_plan w)")
  then have dev: "length ts = length (mi_sampled (sw_plan w))" "token_range ts" "\<not> wants_prompt_records lp"
    "length (sampled_records lp (length (mi_sampled (sw_plan w)))) = length (mi_sampled (sw_plan w))"
    using assms(1) unfolding device_ok_def by (metis fst_conv snd_conv)+
  obtain k ls where i: "run_passes E ws ?sc = (?sc\<lparr>passes_run := k\<rparr>, ls)" "map la_work ls = ws"
    "\<forall>l \<in> set ls. length (la_tokens l) = length (sw_requests (la_work l)) \<and> token_range (la_tokens l) \<and>
       \<not> wants_prompt_records (la_logprobs l) \<and>
       length (sampled_records (la_logprobs l) (length (sw_requests (la_work l)))) = length (sw_requests (la_work l))"
    using Cons.IH [of ?sc] Cons.prems by auto
  then show ?case
    using e dev Cons.prems by (intro exI [of _ k] exI [of _ "\<lparr>la_work = w, la_tokens = ts, la_logprobs = lp\<rparr> # ls"]) (simp add: run_pass_def)
qed

lemma emitted_fold_ok:
  assumes "\<forall>l \<in> set ls. length (la_tokens l) = length (sw_requests (la_work l)) \<and> token_range (la_tokens l) \<and>
       \<not> wants_prompt_records (la_logprobs l) \<and>
       length (sampled_records (la_logprobs l) (length (sw_requests (la_work l)))) = length (sw_requests (la_work l))"
  shows "\<exists>em. rfold emitted_of ls (sc, em0) = Inr (sc, em0 @ em) \<and>
    map fst em = concat (map (\<lambda>l. sw_requests (la_work l)) ls) \<and> (\<forall>(x, t, l) \<in> set em. 0 \<le> t \<and> t < 2 ^ 32)"
  using assms
proof (induction ls arbitrary: em0)
  case Nil
  then show ?case by simp
next
  case (Cons l ls)
  let ?xs = "sw_requests (la_work l)"
  let ?more = "zip ?xs (zip (la_tokens l) (sampled_records (la_logprobs l) (length ?xs)))"
  have l: "length (la_tokens l) = length ?xs" "token_range (la_tokens l)" "\<not> wants_prompt_records (la_logprobs l)"
    "length (sampled_records (la_logprobs l) (length ?xs)) = length ?xs" using Cons.prems by simp_all
  have one: "emitted_of l (sc, em0) = Inr (sc, em0 @ ?more)"
    using l by (auto simp: emitted_of_def zip_records_def split: option.split)
  obtain em where i: "rfold emitted_of ls (sc, em0 @ ?more) = Inr (sc, (em0 @ ?more) @ em)"
    "map fst em = concat (map (\<lambda>l. sw_requests (la_work l)) ls)" "\<forall>(x, t, l) \<in> set em. 0 \<le> t \<and> t < 2 ^ 32"
    using Cons.IH [of "em0 @ ?more"] Cons.prems by auto
  have "map fst ?more = ?xs" using l(1,4) by (simp add: map_fst_zip)
  moreover have "t \<in> set (la_tokens l)" if "(x, t, r) \<in> set ?more" for x t r
    using set_zip_leftD [OF set_zip_rightD [OF that]] .
  then have "\<forall>(x, t, l) \<in> set ?more. 0 \<le> t \<and> t < 2 ^ 32"
    using l(2) unfolding token_range_def by blast
  ultimately show ?case using one i by (intro exI [of _ "?more @ em"]) auto
qed

text \<open>The verify plan is accepted, and spans one row more than drafts for each request.\<close>

lemma verify_plan_ok:
  assumes ne: "drafts \<noteq> []" and o: "\<And>x. x \<in> fst ` set drafts \<Longrightarrow> output_token_ids (st x) \<noteq> []"
  shows "\<exists>m. verify_plan st drafts = Inr m \<and> length (mi_tokens m) = draft_rows drafts"
proof -
  define anchors where "anchors = map (\<lambda>x. last (output_token_ids (st x))) (map fst drafts)"
  define ts where "ts = concat (map2 (\<lambda>a (x, ds). a # ds) anchors drafts)"
  have lt: "last_tokens st (map fst drafts) = Inr anchors"
    unfolding anchors_def by (rule last_tokens_ok) (use o in auto)
  have "map2 (\<lambda>a (x, ds). a # ds) anchors drafts = map (\<lambda>d. last (output_token_ids (st (fst d))) # snd d) drafts"
    unfolding anchors_def by (induction drafts) auto
  then have len: "length ts = draft_rows drafts" by (simp add: ts_def length_concat_map draft_rows_def)
  have sum: "sum_list (map2 (-) (map (\<lambda>(x, ds). int (seq_len (st x) + length ds)) drafts) (map (\<lambda>(x, ds). int (seq_len (st x)) - 1) drafts)) =
      int (draft_rows drafts)"
    unfolding draft_rows_def by (induction drafts) auto
  have "verify_plan st drafts =
      Inr \<lparr>mi_kind = EXTEND, mi_slots = map (\<lambda>(x, ds). slot (st x)) drafts,
          mi_starts = map (\<lambda>(x, ds). int (seq_len (st x)) - 1) drafts,
          mi_lens = map (\<lambda>(x, ds). int (seq_len (st x) + length ds)) drafts, mi_tokens = ts,
          mi_sampling = [], mi_sampled = [], mi_gen_counts = [],
          mi_block_writes = concat (map (\<lambda>(x, ds). row_writes st x) drafts),
          mi_prompt_logprobs = [], mi_prompt_targets = [], mi_return_logits = True\<rparr>"
    using ne len sum unfolding verify_plan_def verify_tokens_def lt
    by (simp add: ts_def [symmetric] input_check_def chunk_lens_def)
  then show ?thesis using len by simp
qed

lemma sched_inv_update [simp]:
  "sched_inv G E (sc\<lparr>passes_run := k\<rparr>) = sched_inv G E sc" "sched_inv G E (sc\<lparr>step_count := n\<rparr>) = sched_inv G E sc"
  by (simp_all add: sched_inv_def)

lemma sched_inv_spec:
  assumes "sched_inv G E sc" "planner_inv (digest (penv E)) P" "spec_all (sc_planner sc) P"
  shows "sched_inv G E (sc\<lparr>sc_planner := P\<rparr>)"
proof (rule sched_inv_planner [OF assms(1,2)])
  have c: "core (objs P x) = core (sobj sc x)" for x using assms(3) by (simp add: spec_all_def)
  show "live P = live (sc_planner sc)" using assms(3) by (simp add: spec_all_def)
  show "generation (objs P x) = generation (sobj sc x)" for x by (rule core_generation [OF c])
  show "length (output_token_ids (objs P x)) \<le> length (output_token_ids (sobj sc x))" for x
    using core_outputs [OF c] by simp
qed

lemma speculate_ok:
  assumes inv: "sched_inv G E sc" and D: "digest8 (digest (penv E))" and dev: "device_ok E" and p: "proposer sc = Some p"
    and dec: "set decode \<subseteq> set (running (sc_planner sc))" "distinct decode"
      "\<And>x. x \<in> set decode \<Longrightarrow> output_token_ids (sobj sc x) \<noteq> [] \<and> prefill_done (sobj sc x)"
  shows "\<exists>sc2 sc' adv re A. speculate_verify E decode sc = Inr (sc', adv, re) \<and> sched_inv G E sc' \<and>
    spec_all (sc_planner sc) (sc_planner sc2) \<and> harvest_frame A sc2 sc' \<and> (\<forall>x \<in> A. harvested sc' x) \<and>
    frozen sc2 = frozen sc \<and> io sc2 = io sc \<and> A \<subseteq> set decode \<and> A \<inter> set re = {} \<and> set re \<subseteq> set decode \<and> distinct re \<and>
    set adv = A \<and> distinct adv \<and> set decode \<subseteq> A \<union> set re"
proof -
  let ?P = "sc_planner sc"
  obtain P dr re where d: "rfold (draft_one p (io sc)) decode (?P, [], []) = Inr (P, dr, re)" "planner_inv (digest (penv E)) P"
    "spec_all ?P P" "mset (map fst dr @ re) = mset decode" "\<forall>d \<in> set dr. snd d \<noteq> []"
    using draft_fold_ok [OF sched_invD(1) [OF inv] dec(1), of p "io sc" "[]" "[]"] by auto
  have dist: "distinct (map fst dr @ re)" using d(4) dec(2) by (metis mset_eq_imp_distinct_iff)
  have sets: "set (map fst dr @ re) = set decode" using d(4) by (metis mset_eq_setD)
  let ?A = "fst ` set dr"
  have parts: "?A \<subseteq> set decode" "?A \<inter> set re = {}" "set re \<subseteq> set decode" "distinct re" "set decode \<subseteq> ?A \<union> set re"
    using dist sets by auto
  let ?sc1 = "sc\<lparr>sc_planner := P\<rparr>" and ?sc2 = "sc\<lparr>sc_planner := P, passes_run := passes_run sc + 1\<rparr>"
  have i1: "sched_inv G E ?sc1" by (rule sched_inv_spec [OF inv d(2,3)])
  then have i2: "sched_inv G E ?sc2" by simp
  show ?thesis
  proof (cases "dr = []")
    case True
    then have "speculate_verify E decode sc = Inr (?sc1, [], re)" using d(1) p by (simp add: speculate_verify_def)
    then show ?thesis
      using i1 d(3) parts True by (intro exI [of _ ?sc1] exI [of _ ?sc1] exI [of _ "[]"] exI [of _ re] exI [of _ "{}"])
        (simp add: frozen_def)
  next
    case False
    have c: "core (objs P x) = core (sobj sc x)" "num_computed_tokens (objs P x) = num_computed_tokens (sobj sc x)" for x
      using d(3) by (simp_all add: spec_all_def)
    have o: "output_token_ids (objs P x) \<noteq> []" if "x \<in> ?A" for x
      using dec(3) [of x] parts(1) that core_outputs [OF c(1)] by auto
    obtain m where m: "verify_plan (objs P) dr = Inr m" "length (mi_tokens m) = draft_rows dr"
      using verify_plan_ok [of dr "objs P"] False o by blast
    show ?thesis
    proof (cases "execute_verify E (passes_run sc) m")
      case None
      then have "speculate_verify E decode sc = Inr (?sc2, [], decode)"
        using d(1) p False m(1) by (simp add: speculate_verify_def Let_def)
      then show ?thesis
        using i2 d(3) dec(2) by (intro exI [of _ ?sc2] exI [of _ ?sc2] exI [of _ "[]"] exI [of _ decode] exI [of _ "{}"])
          (simp add: frozen_def)
    next
      case (Some rows)
      then have rows: "length rows = draft_rows dr" "token_range rows" using dev m(2) by (auto simp: device_ok_def)
      obtain em where em: "accept_all rows dr = Inr em" "fst ` set em = ?A" "\<forall>(x, t, l) \<in> set em. t \<in> set rows"
        using accept_all_ok [OF rows(1)] by blast
      have h: "harvestable ?sc2 x \<and> 0 \<le> t \<and> t < 2 ^ 32" if e: "(x, t, l) \<in> set em" for x t l
      proof -
        have "x \<in> ?A" using e em(2) by force
        then have x: "x \<in> set decode" using parts(1) by blast
        have "running P = running ?P" using d(3) by (simp add: spec_all_def)
        then have "x \<in> set (running P)" "prefill_done (objs P x)"
          using dec(1) dec(3) [OF x] x c(2) [of x] core_eq(7) [OF c(1)] by (auto simp: prefill_done_def)
        moreover have "t \<in> set rows" using em(3) e by blast
        ultimately show ?thesis using rows(2) by (auto simp: harvestable_def token_range_def)
      qed
      then have "\<forall>(x, t, l) \<in> set em. harvestable ?sc2 x \<and> 0 \<le> t \<and> t < 2 ^ 32" by blast
      from harvest_ok [OF i2 D this] obtain sc3 adv where hv: "harvest E em ?sc2 = Inr (sc3, adv)" "sched_inv G E sc3" "harvest_frame ?A ?sc2 sc3"
        "\<forall>x \<in> ?A. harvested sc3 x" "\<forall>x \<in> ?A. \<not> is_finished (sobj ?sc2 x) \<longrightarrow> x \<in> set adv"
        "subseq adv (map fst em)"
        unfolding em(2) by blast
      have "x \<in> set (first_seen adv)" if x: "x \<in> ?A" for x
      proof -
        have "x \<in> set (running (sc_planner ?sc2))" using x parts(1) dec(1) d(3) by (auto simp: spec_all_def)
        then have "\<not> is_finished (sobj ?sc2 x)" by (rule running_not_finished [OF sched_invD(1) [OF i2]])
        then have "x \<in> set adv" using hv(5) x by blast
        then show ?thesis by (simp add: first_seen_def)
      qed
      moreover have "set adv \<subseteq> ?A" using subseq_set [OF hv(6)] em(2) by auto
      ultimately have fs: "set (first_seen adv) = ?A" "distinct (first_seen adv)" by (auto simp: first_seen_def)
      have "speculate_verify E decode sc = Inr (sc3, first_seen adv, re)"
        using d(1) p False m(1) Some em(1) hv(1) by (simp add: speculate_verify_def Let_def)
      then show ?thesis
        using hv(1-4) fs d(3) parts by (intro exI [of _ ?sc2] exI [of _ sc3] exI [of _ "first_seen adv"] exI [of _ re] exI [of _ ?A])
          (simp add: frozen_def)
    qed
  qed
qed

text \<open>Whether a request has produced something or ended, and that harvests do not undo it.\<close>

definition fed :: "scheduler \<Rightarrow> oid \<Rightarrow> bool" where
  "fed sc x \<longleftrightarrow> is_finished (sobj sc x) \<or> output_token_ids (sobj sc x) \<noteq> []"

lemma fed_frame:
  assumes "harvest_frame A sc sc'" "\<forall>x \<in> A. harvested sc' x" "fed sc x"
  shows "fed sc' x"
  using assms harvest_frameD(3) [OF assms(1), of x] by (cases "x \<in> A") (auto simp: fed_def harvested_def)

lemma plan_sched_inv:
  assumes inv: "sync_inv G E sc" and D: "digest8 (digest (penv E))"
  shows "\<exists>P s. plan (penv E) (sc_planner sc) = Inr (P, s) \<and> sched_inv G E (sc\<lparr>sc_planner := P\<rparr>) \<and> plan_ok P s \<and>
    step_frame (sc_planner sc) [] P (sp_prefill s) \<and> (\<forall>x. 0 \<le> pending_tokens (objs P x)) \<and> same_frame (sc_planner sc) P"
proof -
  have i: "sched_inv G E sc" "decode_ready (sc_planner sc)" "\<forall>x. 0 \<le> pending_tokens (sobj sc x)"
    using inv by (simp_all add: sync_inv_def)
  obtain P s where p: "plan (penv E) (sc_planner sc) = Inr (P, s)" "planner_inv (digest (penv E)) P" "plan_ok P s"
    "same_frame (sc_planner sc) P" "step_frame (sc_planner sc) [] P (sp_prefill s)"
    using plan_total [OF sched_invD(1) [OF i(1)] D] by blast
  have k: "kept (sobj sc x) (objs P x)" for x using p(4) unfolding same_frame_def by blast
  have "sched_inv G E (sc\<lparr>sc_planner := P\<rparr>)"
    by (rule sched_inv_planner [OF i(1) p(2)]) (use p(4) k in \<open>simp_all add: same_frame_def\<close>)
  moreover have "0 \<le> pending_tokens (objs P x)" for x using k [of x] i(3) by simp
  ultimately show ?thesis using p by blast
qed

lemma finished_not_running:
  "sched_inv G E sc \<Longrightarrow> x \<in> set (running (sc_planner sc)) \<Longrightarrow> fed sc x \<Longrightarrow> output_token_ids (sobj sc x) \<noteq> []"
  using running_not_finished [OF sched_invD(1)] by (auto simp: fed_def)

lemma spec_all_sched:
  assumes "spec_all (sc_planner sc) (sc_planner sc')"
  shows "running (sc_planner sc') = running (sc_planner sc)" "core (sobj sc' y) = core (sobj sc y)"
    "output_token_ids (sobj sc' y) = output_token_ids (sobj sc y)" "prefill_done (sobj sc' y) = prefill_done (sobj sc y)"
    "pending_tokens (sobj sc' y) = pending_tokens (sobj sc y)" "seq_len (sobj sc' y) = seq_len (sobj sc y)"
    "request_id (sobj sc' y) = request_id (sobj sc y)" "fed sc' y = fed sc y"
    "length (rows_held r (kv (sc_planner sc))) \<le> length (rows_held r (kv (sc_planner sc')))"
proof -
  have c: "core (sobj sc' y) = core (sobj sc y)" "num_computed_tokens (sobj sc' y) = num_computed_tokens (sobj sc y)"
    using assms by (simp_all add: spec_all_def)
  note e = core_eq [OF c(1)]
  show "running (sc_planner sc') = running (sc_planner sc)" "pending_tokens (sobj sc' y) = pending_tokens (sobj sc y)"
    "length (rows_held r (kv (sc_planner sc))) \<le> length (rows_held r (kv (sc_planner sc')))"
    using assms by (simp_all add: spec_all_def)
  show "core (sobj sc' y) = core (sobj sc y)" by (rule c(1))
  show "output_token_ids (sobj sc' y) = output_token_ids (sobj sc y)" "request_id (sobj sc' y) = request_id (sobj sc y)"
    "prefill_done (sobj sc' y) = prefill_done (sobj sc y)" "seq_len (sobj sc' y) = seq_len (sobj sc y)" "fed sc' y = fed sc y"
    using e(1,2,3,5,7) c(2) by (simp_all add: prefill_done_def seq_len_def fed_def is_finished_def)
qed

text \<open>The decode rows of the step: what speculation did not serve.\<close>

lemma spec_or_all:
  assumes inv: "sched_inv G E sc" and D: "digest8 (digest (penv E))" and dev: "device_ok E"
    and dec: "set decode \<subseteq> set (running (sc_planner sc))" "distinct decode"
      "\<And>x. x \<in> set decode \<Longrightarrow> output_token_ids (sobj sc x) \<noteq> [] \<and> prefill_done (sobj sc x)"
  shows "\<exists>sc2 sc' adv re A. (if proposer sc \<noteq> None \<and> decode \<noteq> [] then speculate_verify E decode sc else Inr (sc, [], decode)) =
      Inr (sc', adv, re) \<and> sched_inv G E sc' \<and> spec_all (sc_planner sc) (sc_planner sc2) \<and> harvest_frame A sc2 sc' \<and>
    (\<forall>x \<in> A. harvested sc' x) \<and> frozen sc2 = frozen sc \<and> io sc2 = io sc \<and> A \<subseteq> set decode \<and> A \<inter> set re = {} \<and>
    set re \<subseteq> set decode \<and> distinct re \<and> set adv = A \<and> distinct adv \<and> set decode \<subseteq> A \<union> set re"
proof (cases "proposer sc \<noteq> None \<and> decode \<noteq> []")
  case True
  then show ?thesis using speculate_ok [OF inv D dev _ dec] by auto
next
  case False
  then show ?thesis
    using inv dec(2) by (intro exI [of _ sc] exI [of _ sc] exI [of _ "[]"] exI [of _ decode] exI [of _ "{}"]) auto
qed

lemma pass_ok_requests:
  assumes "pass_ok P xs w"
  shows "set (sw_requests w) = {x \<in> set xs. prefill_done (objs P x)}" "length (sw_requests w) = length (mi_sampled (sw_plan w))"
    "distinct xs \<Longrightarrow> distinct (sw_requests w)"
proof -
  have m: "mi_sampled (sw_plan w) = filter (\<lambda>i. prefill_done (objs P (xs ! i))) [0..<length xs]"
    "sw_requests w = map ((!) xs) (mi_sampled (sw_plan w))"
    using assms by (simp_all add: pass_ok_def Let_def)
  show "set (sw_requests w) = {x \<in> set xs. prefill_done (objs P x)}"
    unfolding m(2) unfolding m(1) by (auto simp: in_set_conv_nth)
  show "length (sw_requests w) = length (mi_sampled (sw_plan w))" using m(2) by simp
  show "distinct (sw_requests w)" if "distinct xs"
    unfolding m(2) unfolding m(1) distinct_map using that by (auto simp: inj_on_def nth_eq_iff_index_eq)
qed

lemma distinct_concat_sub:
  "distinct (concat (map f ws)) \<Longrightarrow> (\<And>w. w \<in> set ws \<Longrightarrow> distinct (g w) \<and> set (g w) \<subseteq> set (f w)) \<Longrightarrow> distinct (concat (map g ws))"
  by (induction ws) (auto, blast)

text \<open>Running the passes and harvesting what they sampled.\<close>

lemma run_and_harvest:
  assumes inv: "sched_inv G E sc" and D: "digest8 (digest (penv E))" and dev: "device_ok E"
    and len: "\<forall>w \<in> set works. length (sw_requests w) = length (mi_sampled (sw_plan w))"
    and h: "\<And>x. x \<in> set (concat (map sw_requests works)) \<Longrightarrow> harvestable sc x"
  shows "\<exists>sc4 ls em sc' adv. execute_lockstep E works sc = (sc4, ls) \<and> rfold emitted_of ls (sc4, []) = Inr (sc4, em) \<and>
    harvest E em sc4 = Inr (sc', adv) \<and> sched_inv G E sc' \<and> harvest_frame (set (concat (map sw_requests works))) sc sc' \<and>
    (\<forall>x \<in> set (concat (map sw_requests works)). harvested sc' x) \<and>
    subseq adv (concat (map sw_requests works)) \<and>
    (\<forall>x \<in> set (concat (map sw_requests works)). \<not> is_finished (sobj sc x) \<longrightarrow> x \<in> set adv)"
proof -
  obtain k ls where r: "run_passes E works sc = (sc\<lparr>passes_run := k\<rparr>, ls)" "map la_work ls = works"
    "\<forall>l \<in> set ls. length (la_tokens l) = length (sw_requests (la_work l)) \<and> token_range (la_tokens l) \<and>
       \<not> wants_prompt_records (la_logprobs l) \<and>
       length (sampled_records (la_logprobs l) (length (sw_requests (la_work l)))) = length (sw_requests (la_work l))"
    using run_passes_ok [OF dev len] by blast
  let ?sc = "sc\<lparr>passes_run := k\<rparr>" and ?xs = "set (concat (map sw_requests works))"
  have "length works \<le> coordinate E (passes_run sc) (length works)" using dev by (simp add: device_ok_def)
  then have ex: "execute_lockstep E works sc = (?sc, ls)" using r(1) by (simp add: execute_lockstep_def)
  obtain em where em: "rfold emitted_of ls (?sc, []) = Inr (?sc, [] @ em)"
    "map fst em = concat (map (\<lambda>l. sw_requests (la_work l)) ls)" "\<forall>(x, t, l) \<in> set em. 0 \<le> t \<and> t < 2 ^ 32"
    using emitted_fold_ok [OF r(3)] by blast
  have "map (\<lambda>l. sw_requests (la_work l)) ls = map sw_requests (map la_work ls)" by simp
  then have mf: "map fst em = concat (map sw_requests works)" using em(2) r(2) by simp
  then have xs: "fst ` set em = ?xs" by (metis list.set_map)
  have "\<forall>(x, t, l) \<in> set em. harvestable ?sc x \<and> 0 \<le> t \<and> t < 2 ^ 32"
  proof (intro ballI, clarify)
    fix x t l assume e: "(x, t, l) \<in> set em"
    then have "x \<in> ?xs" using xs by force
    then have "harvestable ?sc x" using h [of x] by (simp add: harvestable_def)
    then show "harvestable ?sc x \<and> 0 \<le> t \<and> t < 2 ^ 32" using em(3) e by blast
  qed
  moreover have "sched_inv G E ?sc" using inv by simp
  ultimately obtain sc' adv where hv: "harvest E em ?sc = Inr (sc', adv)" "sched_inv G E sc'" "harvest_frame ?xs ?sc sc'"
    "\<forall>x \<in> ?xs. harvested sc' x" "\<forall>x \<in> ?xs. \<not> is_finished (sobj ?sc x) \<longrightarrow> x \<in> set adv"
    "subseq adv (concat (map sw_requests works))"
    using harvest_ok [OF _ D, where sc = ?sc and emitted = em and G = G] unfolding xs mf by blast
  have "harvest_frame ?xs sc ?sc" by (simp add: harvest_frame_def frozen_def)
  then have "harvest_frame ?xs sc sc'" using hv(3) by (rule harvest_frame_trans)
  then show ?thesis using ex em(1) hv by auto
qed

lemma step_synchronous_run:
  assumes "plan (penv E) (sc_planner sc) = Inr (P, s)" and go: "\<not> (plan_is_empty s \<and> \<not> dp_attention E)"
    and sc2: "sc2 = sc\<lparr>sc_planner := P, step_count := step_count sc + 1\<rparr>"
    and "(if sp_prefill s = [] then Inr [] else prefill_work (objs P) (io_par sc2) (sp_prefill s) (sp_chunk_lens s) (chunked_min_rows sc2)) = Inr works"
    and "(if proposer sc2 \<noteq> None \<and> sp_decode s \<noteq> [] then speculate_verify E (sp_decode s) sc2
      else Inr (sc2, [], sp_decode s)) = Inr (sc3, adv, re)"
    and "(if re = [] then Inr works else rbind (decode_work (objs (sc_planner sc3)) (io_par sc3) re False) (\<lambda>w. Inr (works @ [w]))) = Inr ws"
    and "execute_lockstep E ws sc3 = (sc4, ls)" "rfold emitted_of ls (sc4, []) = Inr (sc5, em)" "harvest E em sc5 = Inr (sc6, adv6)"
  shows "step_synchronous E sc = Inr (sc6, adv6 @ adv)"
proof -
  have e: "(sc\<lparr>sc_planner := P\<rparr>)\<lparr>step_count := step_count (sc\<lparr>sc_planner := P\<rparr>) + 1\<rparr> = sc2" using sc2 by simp
  show ?thesis
    unfolding step_synchronous_def assms(1) rbind_simps Let_def prod.case if_not_P [OF go] e assms(4-9) ..
qed

text \<open>What a whole step leaves alone: a request that is not live keeps its tokens and its text.\<close>

definition step_quiet :: "scheduler \<Rightarrow> scheduler \<Rightarrow> bool" where
  "step_quiet sc sc' \<longleftrightarrow>
     frozen sc' = frozen sc \<and> set (live (sc_planner sc')) \<subseteq> set (live (sc_planner sc)) \<and>
     (\<forall>y. (\<forall>r. map_of (live (sc_planner sc)) r \<noteq> Some y) \<longrightarrow> io sc' y = io sc y \<and> kept (sobj sc y) (sobj sc' y))"

text \<open>
  What a step reports: live requests, each once, among them all that ended. A request whose prompt is as it was (it was not evicted with tokens) has kept its output and maybe
  grown it, and it is reported when it has.
\<close>

definition step_reports :: "scheduler \<Rightarrow> scheduler \<Rightarrow> oid list \<Rightarrow> bool" where
  "step_reports sc sc' adv \<longleftrightarrow>
     distinct adv \<and> (\<forall>y. request_id (sobj sc' y) = request_id (sobj sc y)) \<and>
     (\<forall>y \<in> set adv. map_of (live (sc_planner sc)) (request_id (sobj sc y)) = Some y) \<and>
     (\<forall>r y. map_of (live (sc_planner sc)) r = Some y \<longrightarrow> y \<notin> set adv \<longrightarrow> \<not> is_finished (sobj sc' y)) \<and>
     (\<forall>y. output_token_ids (sobj sc y) = [] \<longrightarrow> prompt_token_ids (sobj sc' y) = prompt_token_ids (sobj sc y)) \<and>
     (\<forall>y. prompt_token_ids (sobj sc' y) = prompt_token_ids (sobj sc y) \<longrightarrow>
        prefix (output_token_ids (sobj sc y)) (output_token_ids (sobj sc' y)) \<and>
        (y \<notin> set adv \<longrightarrow> output_token_ids (sobj sc' y) = output_token_ids (sobj sc y)))"

lemma kept_prompt:
  assumes "kept r r'" "output_token_ids r = []"
  shows "prompt_token_ids r' = prompt_token_ids r"
proof -
  have "tokens r' = tokens r" by (rule generation_eq(1)) (use assms(1) in simp)
  then show ?thesis using assms by (simp add: tokens_def)
qed

lemma live_unfinished: "planner_inv D P \<Longrightarrow> map_of (live P) r = Some x \<Longrightarrow> \<not> is_finished (objs P x)"
  using queues_okD(4,7,10) [OF planner_invD(3)] by (fastforce simp: is_finished_def)

lemma kept_outputs:
  assumes "kept r r'" "prompt_token_ids r' = prompt_token_ids r"
  shows "output_token_ids r' = output_token_ids r"
proof -
  have "tokens r' = tokens r" by (rule generation_eq(1)) (use assms(1) in simp)
  then show ?thesis using assms(2) by (simp add: tokens_def)
qed

lemma step_synchronous_ok:
  assumes inv: "sync_inv G E sc" and D: "digest8 (digest (penv E))" and dev: "device_ok E"
  shows "\<exists>sc' adv. step_synchronous E sc = Inr (sc', adv) \<and> sync_inv G E sc' \<and> step_quiet sc sc' \<and> step_reports sc sc' adv"
proof -
  obtain P s where p: "plan (penv E) (sc_planner sc) = Inr (P, s)" "sched_inv G E (sc\<lparr>sc_planner := P\<rparr>)" "plan_ok P s"
    "step_frame (sc_planner sc) [] P (sp_prefill s)" "\<forall>x. 0 \<le> pending_tokens (objs P x)" "same_frame (sc_planner sc) P"
    using plan_sched_inv [OF inv D] by blast
  have sf: "live P = live (sc_planner sc)" "kept (sobj sc y) (objs P y)" for y using p(6) unfolding same_frame_def by blast+
  let ?sc1 = "sc\<lparr>sc_planner := P\<rparr>" and ?sc2 = "sc\<lparr>sc_planner := P, step_count := step_count sc + 1\<rparr>"
  have pi: "planner_inv (digest (penv E)) P" using sched_invD(1) [OF p(2)] by simp
  have rd: "decode_ready (sc_planner sc)" using inv by (simp add: sync_inv_def)
  have old: "output_token_ids (objs P x) \<noteq> []"
    if "x \<in> set (running P)" "prefill_done (objs P x)" "x \<notin> set (sp_prefill s)" for x
  proof -
    have x: "x \<in> set (running (sc_planner sc))" "core (objs P x) = core (sobj sc x)"
      "num_computed_tokens (objs P x) = num_computed_tokens (sobj sc x)"
      using p(4) that by (auto simp: step_frame_def)
    then have "prefill_done (sobj sc x)" using that(2) core_eq(7) [OF x(2)] by (simp add: prefill_done_def)
    then show ?thesis using rd x(1) core_outputs [OF x(2)] by (auto simp: decode_ready_def)
  qed
  show ?thesis
  proof (cases "plan_is_empty s \<and> \<not> dp_attention E")
    case True
    then have "step_synchronous E sc = Inr (?sc1, [])" using p(1) by (simp add: step_synchronous_def)
    moreover have "sync_inv G E ?sc1"
      using p(2,5) old True by (auto simp: sync_inv_def decode_ready_def plan_is_empty_def)
    moreover have "step_quiet sc ?sc1" using sf by (simp add: step_quiet_def frozen_def)
    moreover have "step_reports sc ?sc1 []"
      unfolding step_reports_def
    proof (intro conjI allI impI)
      fix y
      show "\<not> is_finished (sobj ?sc1 y)" if "map_of (live (sc_planner sc)) r = Some y" for r
        using live_unfinished [OF pi, of r y] that sf(1) by simp
      show "request_id (sobj ?sc1 y) = request_id (sobj sc y)" using sf(2) [of y] by simp
      show "prompt_token_ids (sobj ?sc1 y) = prompt_token_ids (sobj sc y)" if "output_token_ids (sobj sc y) = []"
        using kept_prompt [OF sf(2) that] by simp
      assume "prompt_token_ids (sobj ?sc1 y) = prompt_token_ids (sobj sc y)"
      then have "prompt_token_ids (objs P y) = prompt_token_ids (sobj sc y)" by simp
      from kept_outputs [OF sf(2) this] show "output_token_ids (sobj ?sc1 y) = output_token_ids (sobj sc y)"
        "prefix (output_token_ids (sobj sc y)) (output_token_ids (sobj ?sc1 y))" by simp_all
    qed simp_all
    ultimately show ?thesis by blast
  next
    case go: False
    have dp: "distinct (sp_prefill s @ sp_decode s)" "set (sp_prefill s @ sp_decode s) \<subseteq> set (running P)"
      using p(3) by (simp_all add: plan_ok_def)
    define par where "par = io_par ?sc2"
    define mr where "mr = chunked_min_rows ?sc2"
    obtain works where w: "(if sp_prefill s = [] then Inr [] else prefill_work (objs P) par (sp_prefill s) (sp_chunk_lens s) mr) = Inr works"
      "\<forall>w \<in> set works. pass_ok P (pass_rows w) w"
      "mset (concat (map pass_rows works)) = mset (sp_prefill s)"
      using step_passes_ok [OF pi p(3,4) rd, of "[]" par mr] by (auto simp: step_passes_def)
    have i2: "sched_inv G E ?sc2" using p(2) by simp
    note rows = plan_decode_rows [OF pi p(3,4) rd]
    have "\<exists>sc3 sc4 adv re A. (if proposer ?sc2 \<noteq> None \<and> sp_decode s \<noteq> [] then speculate_verify E (sp_decode s) ?sc2
        else Inr (?sc2, [], sp_decode s)) = Inr (sc4, adv, re) \<and> sched_inv G E sc4 \<and> spec_all (sc_planner ?sc2) (sc_planner sc3) \<and>
      harvest_frame A sc3 sc4 \<and> (\<forall>x \<in> A. harvested sc4 x) \<and> frozen sc3 = frozen ?sc2 \<and> io sc3 = io ?sc2 \<and> A \<subseteq> set (sp_decode s) \<and> A \<inter> set re = {} \<and>
      set re \<subseteq> set (sp_decode s) \<and> distinct re \<and> set adv = A \<and> distinct adv \<and> set (sp_decode s) \<subseteq> A \<union> set re"
      by (rule spec_or_all [OF i2 D dev]) (use dp rows in auto)
    then obtain sc3 sc4 adv re A where sp: "(if proposer ?sc2 \<noteq> None \<and> sp_decode s \<noteq> [] then speculate_verify E (sp_decode s) ?sc2
        else Inr (?sc2, [], sp_decode s)) = Inr (sc4, adv, re)" "sched_inv G E sc4" "spec_all (sc_planner ?sc2) (sc_planner sc3)"
      "harvest_frame A sc3 sc4" "\<forall>x \<in> A. harvested sc4 x" "A \<subseteq> set (sp_decode s)" "A \<inter> set re = {}"
      "set re \<subseteq> set (sp_decode s)" "distinct re" "frozen sc3 = frozen ?sc2" "io sc3 = io ?sc2" "set adv = A" "distinct adv" by blast
    note sa = spec_all_sched [OF sp(3), simplified] and hf = harvest_frameD [OF sp(4)]
    have same: "x \<in> set (running (sc_planner sc4))" "sobj sc4 x = sobj sc3 x" "prefill_done (sobj sc4 x) = prefill_done (objs P x)"
      "rows_held (request_id (sobj sc4 x)) (kv (sc_planner sc4)) = rows_held (request_id (objs P x)) (kv (sc_planner sc3))"
      if "x \<in> set (running P)" "x \<notin> A" for x
    proof -
      show r: "x \<in> set (running (sc_planner sc4))" using hf(4) [OF that(2)] that(1) sa(1) by simp
      show o: "sobj sc4 x = sobj sc3 x" by (rule hf(3) [OF that(2)])
      show "prefill_done (sobj sc4 x) = prefill_done (objs P x)" unfolding o by (rule sa(4))
      show "rows_held (request_id (sobj sc4 x)) (kv (sc_planner sc4)) = rows_held (request_id (objs P x)) (kv (sc_planner sc3))"
        using hf(6) [OF r] sa(7) [of x] hf(11) [of x] by simp
    qed
    have dec: "\<exists>ws. (if re = [] then Inr works else rbind (decode_work (objs (sc_planner sc4)) (io_par sc4) re False) (\<lambda>w. Inr (works @ [w]))) =
        Inr (works @ ws) \<and> (\<forall>w \<in> set ws. set (sw_requests w) = set re \<and> length (sw_requests w) = length (mi_sampled (sw_plan w))) \<and>
        distinct (concat (map sw_requests ws))"
    proof (cases "re = []")
      case False
      have c: "output_token_ids (sobj sc4 x) \<noteq> [] \<and> prefill_done (sobj sc4 x) \<and>
          seq_len (sobj sc4 x) \<le> length (rows_held (request_id (sobj sc4 x)) (kv (sc_planner sc4))) * BLOCK_SIZE" if x: "x \<in> set re" for x
      proof -
        have xd: "x \<in> set (sp_decode s)" "x \<in> set (running P)" "x \<notin> A" using x sp(7,8) dp(2) by auto
        have "seq_len (objs P x) \<le> length (rows_held (request_id (objs P x)) (kv (sc_planner sc3))) * BLOCK_SIZE"
          by (rule order_trans [OF conjunct2 [OF conjunct2 [OF rows [OF xd(1)]]] mult_le_mono1 [OF sa(9)]])
        then show ?thesis
          using rows [OF xd(1)] same(2-4) [OF xd(2,3)] sa(3,6) [of x] by simp
      qed
      obtain w where "decode_work (objs (sc_planner sc4)) (io_par sc4) re False = Inr w" "pass_ok (sc_planner sc4) re w"
        using decode_work_ok [where P = "sc_planner sc4" and xs = re and par = "io_par sc4", OF False c] by blast
      moreover have "set (sw_requests w) = set re" "length (sw_requests w) = length (mi_sampled (sw_plan w))"
        using pass_ok_requests [OF calculation(2)] c by auto
      moreover have "distinct (sw_requests w)" using pass_ok_requests(3) [OF calculation(2) sp(9)] .
      ultimately show ?thesis using False by (intro exI [of _ "[w]"]) simp
    qed simp
    then obtain ws where ws: "(if re = [] then Inr works else rbind (decode_work (objs (sc_planner sc4)) (io_par sc4) re False) (\<lambda>w. Inr (works @ [w]))) =
        Inr (works @ ws)" "\<forall>w \<in> set ws. set (sw_requests w) = set re \<and> length (sw_requests w) = length (mi_sampled (sw_plan w))" "distinct (concat (map sw_requests ws))" by blast
    have pre: "set (concat (map pass_rows works)) = set (sp_prefill s)" using w(3) by (metis mset_eq_setD)
    have reqs: "set (sw_requests w) = {x \<in> set (pass_rows w). prefill_done (objs P x)}" "length (sw_requests w) = length (mi_sampled (sw_plan w))"
      if "w \<in> set works" for w
      using pass_ok_requests [of P "pass_rows w" w] w(2) that by blast+
    have chunk: "x \<in> set (concat (map sw_requests works)) \<longleftrightarrow> x \<in> set (sp_prefill s) \<and> prefill_done (objs P x)" for x
      using reqs(1) pre by (auto simp: set_concat)
    have runs: "x \<in> set (running P) \<and> x \<notin> A \<and> prefill_done (objs P x)" if x: "x \<in> set (concat (map sw_requests (works @ ws)))" for x
    proof -
      have "x \<in> set (concat (map sw_requests works)) \<or> (\<exists>w \<in> set ws. x \<in> set (sw_requests w))"
        using x unfolding map_append concat_append set_append by auto
      then have "x \<in> set (sp_prefill s) \<and> prefill_done (objs P x) \<or> x \<in> set re" using chunk [of x] ws(2) by blast
      then show ?thesis using dp sp(6-8) rows by auto
    qed
    have all: "harvestable sc4 x" if x: "x \<in> set (concat (map sw_requests (works @ ws)))" for x
      using runs [OF x] same(1,3) [of x] by (simp add: harvestable_def)
    have len: "\<forall>w \<in> set (works @ ws). length (sw_requests w) = length (mi_sampled (sw_plan w))" using reqs(2) ws(2) by auto
    obtain sc5 ls em sc6 adv6 where h: "execute_lockstep E (works @ ws) sc4 = (sc5, ls)" "rfold emitted_of ls (sc5, []) = Inr (sc5, em)"
      "harvest E em sc5 = Inr (sc6, adv6)" "sched_inv G E sc6" "harvest_frame (set (concat (map sw_requests (works @ ws)))) sc4 sc6"
      "\<forall>x \<in> set (concat (map sw_requests (works @ ws))). harvested sc6 x"
      "\<forall>x \<in> set (concat (map sw_requests (works @ ws))). \<not> is_finished (sobj sc4 x) \<longrightarrow> x \<in> set adv6"
      "subseq adv6 (concat (map sw_requests (works @ ws)))"
      using run_and_harvest [OF sp(2) D dev len all] by blast
    have eq: "step_synchronous E sc = Inr (sc6, adv6 @ adv)"
      by (rule step_synchronous_run [OF p(1) go refl w(1) [unfolded par_def mr_def] sp(1) ws(1) h(1-3)])
    have fin: "output_token_ids (sobj sc6 x) \<noteq> [] \<and> 0 \<le> pending_tokens (sobj sc6 x)"
      if x: "x \<in> set (running (sc_planner sc6))" "prefill_done (sobj sc6 x)" for x
    proof -
      note g = harvest_frameD [OF h(5)]
      have xr: "x \<in> set (running P)" using g(5) hf(5) sa(1) x(1) by auto
      have "num_computed_tokens (sobj sc6 x) = num_computed_tokens (sobj sc3 x)" "prompt_len (sobj sc6 x) = prompt_len (sobj sc3 x)"
        using g(7,8) hf(7,8) by simp_all
      then have pd: "prefill_done (objs P x)" using x(2) sa(4) [of x] by (simp add: prefill_done_def)
      have "fed sc6 x"
      proof (cases "x \<in> set (sp_prefill s)")
        case True
        then have "harvested sc6 x" using h(6) chunk pd by auto
        then show ?thesis by (auto simp: harvested_def fed_def)
      next
        case False
        then have "fed sc3 x" using old [OF xr pd] sa(3) [of x] by (simp add: fed_def)
        then have "fed sc4 x" by (rule fed_frame [OF sp(4,5)])
        then show ?thesis by (rule fed_frame [OF h(5,6)])
      qed
      then have "output_token_ids (sobj sc6 x) \<noteq> []" by (rule finished_not_running [OF h(4) x(1)])
      moreover have "0 \<le> pending_tokens (sobj sc6 x)" using p(5) sa(5) [of x] hf(9) [of x] g(9) [of x] by simp
      ultimately show ?thesis ..
    qed
    have "0 \<le> pending_tokens (sobj sc6 x)" for x
      using p(5) sa(5) [of x] hf(9) [of x] harvest_frameD(9) [OF h(5), of x] by simp
    then have "sync_inv G E sc6" using h(4) fin by (simp add: sync_inv_def decode_ready_def)
    moreover have "step_quiet sc sc6"
      unfolding step_quiet_def
    proof (intro conjI allI impI)
      note g = harvest_frameD [OF h(5)]
      show "frozen sc6 = frozen sc" using g(12) hf(12) sp(10) by (simp add: frozen_def)
      have l3: "live (sc_planner sc3) = live (sc_planner sc)" using sp(3) sf(1) by (simp add: spec_all_def)
      show "set (live (sc_planner sc6)) \<subseteq> set (live (sc_planner sc))" using g(13) hf(13) l3 by auto
      fix y assume y: "\<forall>r. map_of (live (sc_planner sc)) r \<noteq> Some y"
      have nr: "y \<notin> set (running P)" using queues_okD(5) [OF planner_invD(3) [OF pi], of y] y sf(1) by auto
      then have n: "y \<notin> A" "y \<notin> set (concat (map sw_requests (works @ ws)))"
        using sp(6) dp(2) runs by auto
      show "io sc6 y = io sc y" using g(14) [OF n(2)] hf(14) [OF n(1)] sp(11) by simp
      have "sobj sc6 y = sobj sc3 y" using g(3) [OF n(2)] hf(3) [OF n(1)] by simp
      moreover have "generation (sobj sc3 y) = generation (objs P y)" by (rule core_generation [OF sa(2)])
      ultimately show "kept (sobj sc y) (sobj sc6 y)" using sf(2) [of y] sa(3,5,7) [of y] by simp
    qed
    moreover have dr: "distinct (concat (map sw_requests (works @ ws)))"
    proof -
      have "mset (concat (map pass_rows works)) = mset (sp_prefill s)" by (rule w(3))
      then have d: "distinct (concat (map pass_rows works))" using dp(1) by (metis distinct_append mset_eq_imp_distinct_iff)
      have row: "distinct (pass_rows w)" if "w \<in> set works" for w using d that by (auto simp: distinct_concat_iff)
      have "distinct (concat (map sw_requests works))"
        by (rule distinct_concat_sub [OF d]) (use row w(2) pass_ok_requests in blast)
      moreover have "set (concat (map sw_requests works)) \<subseteq> set (sp_prefill s)" using chunk by blast
      moreover have "set (concat (map sw_requests ws)) \<subseteq> set (sp_decode s)" using ws(2) sp(8) by auto
      moreover have "set (sp_prefill s) \<inter> set (sp_decode s) = {}" using dp(1) by simp
      ultimately show ?thesis using ws(3) unfolding map_append concat_append distinct_append by blast
    qed
    moreover have "step_reports sc sc6 (adv6 @ adv)"
      unfolding step_reports_def
    proof (intro conjI allI impI ballI)
      note g = harvest_frameD [OF h(5)]
      have sub: "set adv6 \<subseteq> set (concat (map sw_requests (works @ ws)))" by (rule subseq_set [OF h(8)])
      have "set adv6 \<inter> set adv = {}" using runs subsetD [OF sub] sp(12) by blast
      then show "distinct (adv6 @ adv)" using subseq_distinct [OF h(8) dr] sp(13) by simp
      fix y
      show "map_of (live (sc_planner sc)) (request_id (sobj sc y)) = Some y" if "y \<in> set (adv6 @ adv)"
      proof -
        have "y \<in> set adv6 \<or> y \<in> A" using that sp(12) by auto
        then have "y \<in> set (running P)"
        proof
          assume "y \<in> set adv6"
          then show ?thesis using runs [OF subsetD [OF sub]] by blast
        qed (use sp(6) dp(2) in auto)
        then have "map_of (live P) (request_id (objs P y)) = Some y" by (rule queues_okD(5) [OF planner_invD(3) [OF pi]])
        then show ?thesis using sf(1) sf(2) [of y] by simp
      qed
      have still: "sobj sc6 y = sobj sc3 y" if y: "y \<notin> set (adv6 @ adv)"
      proof -
        have n: "y \<notin> A" using y sp(12) by auto
        have "y \<notin> set (concat (map sw_requests (works @ ws)))"
        proof
          assume r: "y \<in> set (concat (map sw_requests (works @ ws)))"
          then have "\<not> is_finished (sobj sc4 y)"
            using runs [OF r] same(1) by (intro running_not_finished [OF sched_invD(1) [OF sp(2)]]) blast
          then show False using h(7) r y by auto
        qed
        then show ?thesis using g(3) hf(3) [OF n] by simp
      qed
      show "\<not> is_finished (sobj sc6 y)" if "map_of (live (sc_planner sc)) r = Some y" "y \<notin> set (adv6 @ adv)" for r
        using live_unfinished [OF pi, of r y] that(1) sf(1) still [OF that(2)] core_eq(5) [OF sa(2), of y] by (simp add: is_finished_def)
      show "request_id (sobj sc6 y) = request_id (sobj sc y)" using g(11) hf(11) sa(7) [of y] sf(2) [of y] by simp
      show "prompt_token_ids (sobj sc6 y) = prompt_token_ids (sobj sc y)" if "output_token_ids (sobj sc y) = []"
        using kept_prompt [OF sf(2) that] g(15) hf(15) core_eq(2) [OF sa(2), of y] by simp
      assume "prompt_token_ids (sobj sc6 y) = prompt_token_ids (sobj sc y)"
      then have "prompt_token_ids (objs P y) = prompt_token_ids (sobj sc y)"
        using g(15) hf(15) core_eq(2) [OF sa(2), of y] by simp
      then have o: "output_token_ids (sobj sc3 y) = output_token_ids (sobj sc y)" using kept_outputs [OF sf(2)] sa(3) [of y] by simp
      have p: "prefix (output_token_ids (sobj sc3 y)) (output_token_ids (sobj sc4 y))"
        "prefix (output_token_ids (sobj sc4 y)) (output_token_ids (sobj sc6 y))" by (rule hf(16), rule g(16))
      show "prefix (output_token_ids (sobj sc y)) (output_token_ids (sobj sc6 y))"
        using prefix_order.trans [OF p] unfolding o .
      assume "y \<notin> set (adv6 @ adv)"
      then have "sobj sc6 y = sobj sc3 y" by (rule still)
      then show "output_token_ids (sobj sc6 y) = output_token_ids (sobj sc y)" using o by simp
    qed
    ultimately show ?thesis using eq by blast
  qed
qed

end
