(* ===== verification/Scheduler_Lifecycle.thy ===== *)
theory Scheduler_Lifecycle
  imports Scheduler_Invariant
begin

text \<open>
  The life of the synchronous scheduler: construction, submission (with the prompt encoded in place, handed over, or
  encoded in the background), collection of background encodes, abort, and the step. Every state these operations
  reach keeps the scheduler's invariant; requests still being encoded are unknown to the planner and have no tokens.
\<close>

section \<open>Requests the planner does not know\<close>

definition idle :: "scheduler \<Rightarrow> oid \<Rightarrow> bool" where
  "idle sc x \<longleftrightarrow> (\<forall>r. map_of (live (sc_planner sc)) r \<noteq> Some x)"

definition jobs_ok :: "scheduler \<Rightarrow> bool" where
  "jobs_ok sc \<longleftrightarrow>
     dict_ok (tokenizing sc) \<and> distinct (map (\<lambda>j. tj_request (snd j)) (tokenizing sc)) \<and>
     (\<forall>j \<in> set (tokenizing sc). idle sc (tj_request (snd j)) \<and> request_id (sobj sc (tj_request (snd j))) = fst j \<and>
        tokens (sobj sc (tj_request (snd j))) = [] \<and> io_text (io sc (tj_request (snd j))) = [])"

definition tokenizer_ok :: "senv \<Rightarrow> bool" where
  "tokenizer_ok E \<longleftrightarrow>
     (\<forall>p ts. encode_text E p = Inr ts \<longrightarrow> tokens_ok ts) \<and> (\<forall>n x ts. encoded E n x = Some (Inr ts) \<longrightarrow> tokens_ok ts)"

lemma idle_not_running:
  assumes "sync_inv G E sc" "idle sc x"
  shows "x \<notin> set (running (sc_planner sc))"
proof
  assume "x \<in> set (running (sc_planner sc))"
  moreover have "queues_ok (sc_planner sc)"
    using assms(1) sched_invD(1) planner_invD(3) unfolding sync_inv_def by blast
  ultimately show False using queues_okD(5) assms(2) unfolding idle_def by blast
qed

text \<open>Writing such a request's objects keeps the invariant.\<close>

lemma sync_inv_store:
  assumes inv: "sync_inv G E sc" and x: "idle sc x"
    and p: "sc_planner sc' = (sc_planner sc)\<lparr>objs := (objs (sc_planner sc))(x := r)\<rparr>"
    and o: "\<And>y. y \<noteq> x \<Longrightarrow> io sc' y = io sc y" and d: "detokenizers sc' = detokenizers sc" and n: "0 \<le> pending_tokens r"
  shows "sync_inv G E sc'"
proof -
  have i: "sched_inv G E sc" "decode_ready (sc_planner sc)" "\<forall>x. 0 \<le> pending_tokens (sobj sc x)"
    using inv by (simp_all add: sync_inv_def)
  have ne: "y \<noteq> x" if "map_of (live (sc_planner sc)) s = Some y" for s y using x that unfolding idle_def by blast
  have run: "x \<notin> set (running (sc_planner sc))" by (rule idle_not_running [OF inv x])
  have "sched_inv G E sc'"
    unfolding sched_inv_def
  proof (intro conjI allI impI)
    show "planner_inv (digest (penv E)) (sc_planner sc')"
      unfolding p by (rule planner_inv_store [OF sched_invD(1) [OF i(1)]]) (use ne in auto)
    fix s
    show "map_of (detokenizers sc') s = None" if "map_of (live (sc_planner sc')) s = None"
      using that sched_invD(4) [OF i(1)] by (simp add: p d)
    fix y assume "map_of (live (sc_planner sc')) s = Some y"
    then have y: "map_of (live (sc_planner sc)) s = Some y" by (simp add: p)
    note e = ne [OF y]
    show "has_room (sobj sc' y)" using sched_invD(2) [OF i(1) y] e by (simp add: p)
    show "\<exists>d. map_of (detokenizers sc') s = Some d \<and> text_ok G E (sobj sc' y) (io sc' y) d"
      using sched_invD(3) [OF i(1) y] e unfolding d o [OF e] by (simp add: p)
  qed
  moreover have "decode_ready (sc_planner sc')" using i(2) run by (auto simp: decode_ready_def p)
  ultimately show ?thesis using i(3) n by (simp add: sync_inv_def p)
qed

lemma sync_inv_cong:
  "sc_planner sc' = sc_planner sc \<Longrightarrow> io sc' = io sc \<Longrightarrow> detokenizers sc' = detokenizers sc \<Longrightarrow> sync_inv G E sc' = sync_inv G E sc"
  by (simp add: sync_inv_def sched_inv_def)

section \<open>Registration\<close>

lemma sequence_init_tokens: "dt_tokens sequence_init = []"
  by (simp add: sequence_init_def)

lemma update_new: "map_of d k = None \<Longrightarrow> AList.update k v d = d @ [(k, v)]"
  by (induction d) (auto split: if_splits)

text \<open>The state after a registration: the request is queued last, with its generation cap and a new detokenizer.\<close>

definition registered_as :: "oid \<Rightarrow> scheduler \<Rightarrow> scheduler" where
  "registered_as x sc =
     (let P = sc_planner sc; r = request_id (sobj sc x) in
        sc\<lparr>sc_planner := P\<lparr>objs := (objs P)(x := (objs P x)\<lparr>max_new_tokens := int (generation_cap P (objs P x))\<rparr>),
             live := live P @ [(r, x)], waiting := waiting P @ [(r, x)]\<rparr>,
           detokenizers := detokenizers sc @ [(r, detok_init 1)]\<rparr>)"

lemma register_ok:
  assumes inv: "sync_inv G E sc" and x: "idle sc x" and new: "output_token_ids (sobj sc x) = []"
    "tokens_ok (prompt_token_ids (sobj sc x))" "io_text (io sc x) = []"
    and g: "map_of (live (sc_planner sc)) (request_id (sobj sc x)) = None \<longrightarrow>
      prompt_token_ids (sobj sc x) \<in> G (request_id (sobj sc x))"
  obtains (refused) "register_request x sc = (sc, Inl ValueError)"
  | (registered) sc' where "register_request x sc = (sc', Inr ())" "sync_inv G E sc'" "frozen sc' = frozen sc" "io sc' = io sc"
      "\<And>y. y \<noteq> x \<Longrightarrow> sobj sc' y = sobj sc y"
      "\<And>r y. map_of (live (sc_planner sc')) r = Some y \<Longrightarrow> y = x \<or> map_of (live (sc_planner sc)) r = Some y"
      "sc' = registered_as x sc" "map_of (live (sc_planner sc)) (request_id (sobj sc x)) = None"
proof (cases "refuses (sc_planner sc) (sobj sc x)")
  case True
  then have "add_request x (sc_planner sc) = Inl ValueError" by (simp add: add_request_eq)
  then show ?thesis by (intro refused) (simp add: register_request_def)
next
  case False
  let ?P = "sc_planner sc" and ?rid = "request_id (sobj sc x)"
  have i: "sched_inv G E sc" "decode_ready ?P" "\<forall>x. 0 \<le> pending_tokens (sobj sc x)"
    using inv by (simp_all add: sync_inv_def)
  note pi = sched_invD(1) [OF i(1)]
  define cap where "cap = generation_cap ?P (sobj sc x)"
  obtain P' where P': "add_request x ?P = Inr P'" "planner_inv (digest (penv E)) P'" "map_of (live P') ?rid = Some x"
    using add_request_ok [OF pi False new(1,2)] by blast
  have eq: "P' = (upd_obj x (\<lambda>r. r\<lparr>max_new_tokens := int cap\<rparr>) ?P)
      \<lparr>live := AList.update ?rid x (live ?P), waiting := AList.update ?rid x (waiting ?P)\<rparr>"
    using P'(1) False by (simp add: add_request_eq cap_def)
  let ?sc = "sc\<lparr>sc_planner := P', detokenizers := AList.update ?rid (detok_init 1) (detokenizers sc)\<rparr>"
  have nl: "map_of (live ?P) ?rid = None" using False by (simp add: refuses_def)
  have ne: "y \<noteq> x" if "map_of (live ?P) s = Some y" for s y using x that unfolding idle_def by blast
  have cap1: "1 \<le> cap" using False by (auto simp: cap_def generation_cap_def refuses_def Let_def split: option.splits)
  have run: "x \<notin> set (running ?P)" by (rule idle_not_running [OF inv x])
  have "sched_inv G E ?sc"
    unfolding sched_inv_def
  proof (intro conjI allI impI)
    show "planner_inv (digest (penv E)) (sc_planner ?sc)" using P'(2) by simp
    fix s
    show "map_of (detokenizers ?sc) s = None" if "map_of (live (sc_planner ?sc)) s = None"
      using that sched_invD(4) [OF i(1), of s] by (cases "s = ?rid") (auto simp: eq dict_simps)
    fix y assume y: "map_of (live (sc_planner ?sc)) s = Some y"
    have "has_room (sobj ?sc y) \<and> (\<exists>d. map_of (detokenizers ?sc) s = Some d \<and> text_ok G E (sobj ?sc y) (io ?sc y) d)"
    proof (cases "s = ?rid")
      case True
      then have "y = x" using y by (simp add: eq dict_simps)
      then show ?thesis
        using True new(1,3) cap1 g nl
        by (auto simp: eq dict_simps has_room_def text_ok_def detok_init_def tokens_def sequence_init_tokens)
    next
      case False
      then have l: "map_of (live ?P) s = Some y" using y by (simp add: eq dict_simps)
      show ?thesis using sched_invD(2,3) [OF i(1) l] ne [OF l] False by (simp add: eq dict_simps)
    qed
    then show "has_room (sobj ?sc y)" "\<exists>d. map_of (detokenizers ?sc) s = Some d \<and> text_ok G E (sobj ?sc y) (io ?sc y) d"
      by blast+
  qed
  moreover have "decode_ready P'" using i(2) run by (auto simp: decode_ready_def eq)
  ultimately have s: "sync_inv G E ?sc" using i(3) by (simp add: sync_inv_def eq)
  have "map_of (waiting ?P) ?rid = None"
    using queues_okD(7) [OF planner_invD(3) [OF pi], of ?rid] nl by (cases "map_of (waiting ?P) ?rid") auto
  then have as: "?sc = registered_as x sc"
    using nl sched_invD(4) [OF i(1) nl] by (simp add: eq registered_as_def update_new cap_def Let_def)
  have rg: "register_request x sc = (?sc, Inr ())" using P'(1) by (simp add: register_request_def eq)
  show ?thesis
    by (rule registered [of ?sc, OF rg s _ _ _ _ as nl]) (auto simp: eq frozen_def dict_simps split: if_splits)
qed

section \<open>Background encodes\<close>

lemma jobs_okD:
  assumes "jobs_ok sc" "(r, j) \<in> set (tokenizing sc)"
  shows "idle sc (tj_request j)" "request_id (sobj sc (tj_request j)) = r" "tokens (sobj sc (tj_request j)) = []"
    "io_text (io sc (tj_request j)) = []" "map_of (tokenizing sc) r = Some j"
    "(s, k) \<in> set (tokenizing sc) \<Longrightarrow> s \<noteq> r \<Longrightarrow> tj_request k \<noteq> tj_request j"
proof -
  show "idle sc (tj_request j)" "request_id (sobj sc (tj_request j)) = r" "tokens (sobj sc (tj_request j)) = []"
    "io_text (io sc (tj_request j)) = []" "map_of (tokenizing sc) r = Some j"
    using assms by (auto simp: jobs_ok_def)
  have "inj_on (\<lambda>j. tj_request (snd j)) (set (tokenizing sc))" using assms(1) by (simp add: jobs_ok_def distinct_map)
  from inj_onD [OF this, of "(s, k)" "(r, j)"]
  show "tj_request k \<noteq> tj_request j" if "(s, k) \<in> set (tokenizing sc)" "s \<noteq> r" using that assms(2) by auto
qed

lemma set_delete_dict: "set (AList.delete k d) = {e \<in> set d. fst e \<noteq> k}"
  by (auto simp: AList.delete_eq)

text \<open>Taking a job off the list, with whatever was done to its own request, leaves the other jobs as they were.\<close>

lemma jobs_ok_delete:
  assumes ok: "jobs_ok sc" and j: "(r, j) \<in> set (tokenizing sc)" and t: "tokenizing sc' = AList.delete r (tokenizing sc)"
    and o: "\<And>y. y \<noteq> tj_request j \<Longrightarrow> sobj sc' y = sobj sc y \<and> io sc' y = io sc y"
    and l: "\<And>s y. map_of (live (sc_planner sc')) s = Some y \<Longrightarrow> y = tj_request j \<or> map_of (live (sc_planner sc)) s = Some y"
  shows "jobs_ok sc'"
  unfolding jobs_ok_def t
proof (intro conjI ballI)
  show "dict_ok (AList.delete r (tokenizing sc))" using ok by (simp add: jobs_ok_def dict_simps)
  show "distinct (map (\<lambda>j. tj_request (snd j)) (AList.delete r (tokenizing sc)))"
    using ok by (auto simp: jobs_ok_def AList.delete_eq intro: distinct_map_filter)
  fix e assume e': "e \<in> set (AList.delete r (tokenizing sc))"
  obtain s k where sk: "e = (s, k)" by (cases e)
  then have e: "e = (s, k)" "(s, k) \<in> set (tokenizing sc)" "s \<noteq> r" using e' by (simp_all add: set_delete_dict)
  note d = jobs_okD [OF ok e(2)]
  have ne: "tj_request k \<noteq> tj_request j" by (rule jobs_okD(6) [OF ok j e(2,3)])
  show "idle sc' (tj_request (snd e))" using d(1) l ne unfolding e(1) idle_def by force
  show "request_id (sobj sc' (tj_request (snd e))) = fst e" "tokens (sobj sc' (tj_request (snd e))) = []"
    "io_text (io sc' (tj_request (snd e))) = []"
    using d(2-4) o [OF ne] by (simp_all add: e(1))
qed

text \<open>Rejecting a job whose entry is already gone.\<close>

lemma reject_ok:
  assumes inv: "sync_inv G E sc" and x: "idle sc (tj_request job)"
  shows "sync_inv G E (reject_job job e sc)" "tokenizing (reject_job job e sc) = tokenizing sc"
    "pipeline_on (reject_job job e sc) = pipeline_on sc" "live (sc_planner (reject_job job e sc)) = live (sc_planner sc)"
    "y \<noteq> tj_request job \<Longrightarrow> sobj (reject_job job e sc) y = sobj sc y \<and> io (reject_job job e sc) y = io sc y"
proof -
  let ?r = "(sobj sc (tj_request job))\<lparr>status := FINISHED, finish_reason := Some ''invalid''\<rparr>"
  have "sc_planner (reject_job job e sc) = (sc_planner sc)\<lparr>objs := (objs (sc_planner sc))(tj_request job := ?r)\<rparr>"
    "\<And>y. y \<noteq> tj_request job \<Longrightarrow> io (reject_job job e sc) y = io sc y"
    "detokenizers (reject_job job e sc) = detokenizers sc"
    by (simp_all add: reject_job_def Let_def)
  moreover have "0 \<le> pending_tokens ?r" using inv by (simp add: sync_inv_def)
  ultimately show "sync_inv G E (reject_job job e sc)" by (rule sync_inv_store [OF inv x])
  show "tokenizing (reject_job job e sc) = tokenizing sc"
    "pipeline_on (reject_job job e sc) = pipeline_on sc" "live (sc_planner (reject_job job e sc)) = live (sc_planner sc)"
    "y \<noteq> tj_request job \<Longrightarrow> sobj (reject_job job e sc) y = sobj sc y \<and> io (reject_job job e sc) y = io sc y"
    by (simp_all add: reject_job_def Let_def)
qed

text \<open>The prompts that the encodes of these jobs may yield are admitted, unless the id is taken.\<close>

definition enc_ok :: "(rid \<Rightarrow> int list set) \<Rightarrow> senv \<Rightarrow> (rid \<times> tokenize_job) list \<Rightarrow> scheduler \<Rightarrow> bool" where
  "enc_ok G E js sc \<longleftrightarrow>
     (\<forall>(r, j) \<in> set js. map_of (live (sc_planner sc)) r = None \<longrightarrow>
        (\<forall>n ts. encoded E n (tj_request j) = Some (Inr ts) \<longrightarrow> ts \<in> G r))"

lemma enc_ok_any [simp]: "enc_ok any_prompt E js sc"
  by (auto simp: enc_ok_def)

text \<open>What collecting encodes may do to the ids in use: an id in the queues stays there, and no job is added.\<close>

definition collect_frame :: "scheduler \<Rightarrow> scheduler \<Rightarrow> bool" where
  "collect_frame sc sc' \<longleftrightarrow>
     (\<forall>r. map_of (live (sc_planner sc)) r \<noteq> None \<longrightarrow>
        map_of (live (sc_planner sc')) r = map_of (live (sc_planner sc)) r) \<and> set (tokenizing sc') \<subseteq> set (tokenizing sc)"

lemma collect_job_ok:
  assumes inv: "sync_inv G E sc" and ok: "jobs_ok sc" and tk: "tokenizer_ok E" and j: "(r, j) \<in> set (tokenizing sc)"
    and g: "enc_ok G E [(r, j)] sc"
  shows "sync_inv G E (collect_job E now (r, j) sc) \<and> jobs_ok (collect_job E now (r, j) sc) \<and>
    pipeline_on (collect_job E now (r, j) sc) = pipeline_on sc \<and>
    (\<forall>e \<in> set (tokenizing sc). fst e \<noteq> r \<longrightarrow> e \<in> set (tokenizing (collect_job E now (r, j) sc))) \<and>
    collect_frame sc (collect_job E now (r, j) sc)"
proof -
  let ?x = "tj_request j" and ?sc = "sc\<lparr>tokenizing := AList.delete r (tokenizing sc)\<rparr>"
  note d = jobs_okD [OF ok j]
  have i: "sync_inv G E ?sc" using inv by (simp add: sync_inv_cong [of ?sc sc])
  have x: "idle ?sc ?x" using d(1) by (simp add: idle_def)
  show ?thesis
  proof (cases "encoded E now ?x")
    case None
    then show ?thesis using inv ok by (simp add: collect_job_def Let_def collect_frame_def)
  next
    case (Some o')
    show ?thesis
    proof (cases o')
      case (Inl e)
      then have eq: "collect_job E now (r, j) sc = reject_job j e ?sc" using Some by (simp add: collect_job_def Let_def)
      note rj = reject_ok [OF i x, where e = e]
      have "jobs_ok (reject_job j e ?sc)"
        by (rule jobs_ok_delete [OF ok j]) (use rj(2,4,5) in simp_all)
      then show ?thesis unfolding eq using rj(1-4) by (auto simp: set_delete_dict collect_frame_def)
    next
      case (Inr ts)
      let ?sc1 = "upd_sobj ?x (\<lambda>r. r\<lparr>prompt_token_ids := ts\<rparr>) ?sc"
      have i1: "sync_inv G E ?sc1"
        by (rule sync_inv_store [OF i x, of _ "(sobj sc ?x)\<lparr>prompt_token_ids := ts\<rparr>"]) (use inv in \<open>simp_all add: sync_inv_def\<close>)
      have x1: "idle ?sc1 ?x" using d(1) by (simp add: idle_def)
      have new: "output_token_ids (sobj ?sc1 ?x) = []" "tokens_ok (prompt_token_ids (sobj ?sc1 ?x))" "io_text (io ?sc1 ?x) = []"
        using d(3,4) tk Some Inr by (simp_all add: tokens_def tokenizer_ok_def)
      have g1: "map_of (live (sc_planner ?sc1)) (request_id (sobj ?sc1 ?x)) = None \<longrightarrow>
          prompt_token_ids (sobj ?sc1 ?x) \<in> G (request_id (sobj ?sc1 ?x))"
        using g Some Inr d(2) by (simp add: enc_ok_def)
      show ?thesis
      proof (cases rule: register_ok [OF i1 x1 new g1, case_names refused registered])
        case refused
        then have eq: "collect_job E now (r, j) sc = reject_job j ValueError ?sc1"
          using Some Inr by (simp add: collect_job_def Let_def)
        note rj = reject_ok [OF i1 x1, where e = ValueError]
        have "jobs_ok (reject_job j ValueError ?sc1)"
          by (rule jobs_ok_delete [OF ok j]) (use rj(2,4,5) in simp_all)
        then show ?thesis unfolding eq using rj(1-4) by (auto simp: set_delete_dict collect_frame_def)
      next
        case (registered sc2)
        then have eq: "collect_job E now (r, j) sc = sc2" using Some Inr by (simp add: collect_job_def Let_def)
        have fr: "tokenizing sc2 = AList.delete r (tokenizing sc)" "pipeline_on sc2 = pipeline_on sc"
          using registered(3) by (simp_all add: frozen_def)
        have "jobs_ok sc2" by (rule jobs_ok_delete [OF ok j fr(1)]) (use registered(4-6) in auto)
        moreover have "collect_frame sc sc2"
          unfolding collect_frame_def registered(7) fr(1) [unfolded registered(7)]
          using registered(8) by (auto simp: registered_as_def Let_def map_add_def set_delete_dict split: option.splits)
        ultimately show ?thesis unfolding eq using registered(2) fr by (auto simp: set_delete_dict)
      qed
    qed
  qed
qed

lemma collect_frame_refl [simp]: "collect_frame sc sc"
  by (simp add: collect_frame_def)

lemma collect_frame_trans: "collect_frame s t \<Longrightarrow> collect_frame t u \<Longrightarrow> collect_frame s u"
  unfolding collect_frame_def by (metis order_trans)

lemma collect_fold_ok:
  assumes "sync_inv G E sc" "jobs_ok sc" "tokenizer_ok E" "set js \<subseteq> set (tokenizing sc)" "dict_ok js" "enc_ok G E js sc"
  shows "sync_inv G E (fold (collect_job E now) js sc) \<and> jobs_ok (fold (collect_job E now) js sc) \<and>
    pipeline_on (fold (collect_job E now) js sc) = pipeline_on sc \<and> collect_frame sc (fold (collect_job E now) js sc)"
  using assms
proof (induction js arbitrary: sc)
  case (Cons e js)
  obtain r j where e: "e = (r, j)" by (cases e)
  let ?sc = "collect_job E now (r, j) sc"
  have c: "sync_inv G E ?sc" "jobs_ok ?sc" "pipeline_on ?sc = pipeline_on sc"
    "\<And>k. k \<in> set (tokenizing sc) \<Longrightarrow> fst k \<noteq> r \<Longrightarrow> k \<in> set (tokenizing ?sc)" "collect_frame sc ?sc"
    using collect_job_ok [OF Cons.prems(1-3), of r j now] Cons.prems(4,6) e by (auto simp: enc_ok_def)
  have "ts \<in> G s" if "(s, k) \<in> set js" "map_of (live (sc_planner ?sc)) s = None" "encoded E n (tj_request k) = Some (Inr ts)" for s k n ts
  proof -
    have "map_of (live (sc_planner sc)) s = None" using c(5) that(2) unfolding collect_frame_def by metis
    then show ?thesis using Cons.prems(6) that(1,3) by (fastforce simp: enc_ok_def)
  qed
  then have "enc_ok G E js ?sc" unfolding enc_ok_def by blast
  have "set js \<subseteq> set (tokenizing ?sc)"
  proof
    fix k assume k: "k \<in> set js"
    then have "fst k \<noteq> r" using Cons.prems(5) e by (metis distinct.simps(2) fst_conv image_eqI list.set_map list.simps(9))
    then show "k \<in> set (tokenizing ?sc)" by (intro c(4)) (use Cons.prems(4) k in auto)
  qed
  from Cons.IH [OF c(1,2) Cons.prems(3) this _ \<open>enc_ok G E js ?sc\<close>] Cons.prems(5) show ?case
    using collect_frame_trans [OF c(5)] by (simp add: e c(3))
qed simp

lemma collect_ok:
  assumes inv: "sync_inv G E sc" and ok: "jobs_ok sc" and tk: "tokenizer_ok E" and g: "enc_ok G E (tokenizing sc) sc"
  shows "sync_inv G E (collect_tokenized E sc)" "jobs_ok (collect_tokenized E sc)"
    "pipeline_on (collect_tokenized E sc) = pipeline_on sc" "collect_frame sc (collect_tokenized E sc)"
proof -
  let ?sc = "sc\<lparr>polls := polls sc + 1\<rparr>"
  have "sync_inv G E ?sc" "jobs_ok ?sc" "set (tokenizing sc) \<subseteq> set (tokenizing ?sc)" "dict_ok (tokenizing sc)"
    using inv ok sync_inv_cong [of ?sc sc] by (simp_all add: jobs_ok_def idle_def)
  from collect_fold_ok [OF this(1,2) tk this(3,4)] inv ok g
  show "sync_inv G E (collect_tokenized E sc)" "jobs_ok (collect_tokenized E sc)"
    "pipeline_on (collect_tokenized E sc) = pipeline_on sc" "collect_frame sc (collect_tokenized E sc)"
    by (simp_all add: collect_tokenized_def enc_ok_def collect_frame_def)
qed

section \<open>The step and the abort\<close>

lemma jobs_ok_quiet:
  assumes ok: "jobs_ok sc" and q: "step_quiet sc sc'" and d: "dict_ok (live (sc_planner sc))"
  shows "jobs_ok sc'"
  unfolding jobs_ok_def
proof (intro conjI ballI)
  have t: "tokenizing sc' = tokenizing sc" and l: "set (live (sc_planner sc')) \<subseteq> set (live (sc_planner sc))"
    using q by (simp_all add: step_quiet_def frozen_def)
  show "dict_ok (tokenizing sc')" "distinct (map (\<lambda>j. tj_request (snd j)) (tokenizing sc'))"
    using ok by (simp_all add: jobs_ok_def t)
  fix e assume e': "e \<in> set (tokenizing sc')"
  obtain s k where sk: "e = (s, k)" by (cases e)
  then have e: "e = (s, k)" "(s, k) \<in> set (tokenizing sc)" using e' by (simp_all add: t)
  note j = jobs_okD [OF ok e(2)]
  have q: "io sc' (tj_request k) = io sc (tj_request k)" "kept (sobj sc (tj_request k)) (sobj sc' (tj_request k))"
    using q j(1) unfolding step_quiet_def idle_def by blast+
  have "tokens (sobj sc' (tj_request k)) = tokens (sobj sc (tj_request k))" by (rule generation_eq(1)) (use q(2) in simp)
  with q show "request_id (sobj sc' (tj_request (snd e))) = fst e" "tokens (sobj sc' (tj_request (snd e))) = []"
    "io_text (io sc' (tj_request (snd e))) = []"
    using j(2-4) by (simp_all add: e(1))
  show "idle sc' (tj_request (snd e))"
    using j(1) l d unfolding e(1) idle_def by (auto dest: map_of_SomeD)
qed

lemma harvest_frame_quiet:
  assumes "harvest_frame A sc sc'" "\<And>x. x \<in> A \<Longrightarrow> \<not> idle sc x"
  shows "step_quiet sc sc'"
  unfolding step_quiet_def
proof (intro conjI allI impI)
  show "frozen sc' = frozen sc" "set (live (sc_planner sc')) \<subseteq> set (live (sc_planner sc))"
    using harvest_frameD(12,13) [OF assms(1)] by simp_all
  fix y assume "\<forall>r. map_of (live (sc_planner sc)) r \<noteq> Some y"
  then have "y \<notin> A" using assms(2) unfolding idle_def by blast
  then show "io sc' y = io sc y" "kept (sobj sc y) (sobj sc' y)"
    using harvest_frameD(3,14) [OF assms(1), of y] by simp_all
qed

lemma sync_inv_frame:
  assumes inv: "sync_inv G E sc" and i: "sched_inv G E sc'" and f: "harvest_frame {x} sc sc'" and x: "is_finished (sobj sc' x)"
  shows "sync_inv G E sc'"
proof -
  note h = harvest_frameD [OF f]
  have "output_token_ids (sobj sc' y) \<noteq> [] \<and> 0 \<le> pending_tokens (sobj sc' y)"
    if y: "y \<in> set (running (sc_planner sc'))" "prefill_done (sobj sc' y)" for y
  proof -
    have "y \<noteq> x" using running_not_finished [OF sched_invD(1) [OF i] y(1)] x by auto
    then show ?thesis using inv y h(3) [of y] h(5) by (auto simp: sync_inv_def decode_ready_def)
  qed
  then show ?thesis using inv i h(9) by (auto simp: sync_inv_def decode_ready_def)
qed

lemma sync_live: "sync_inv G E sc \<Longrightarrow> dict_ok (live (sc_planner sc))"
  using queues_okD(3) planner_invD(3) sched_invD(1) unfolding sync_inv_def by blast

lemma sched_abort_ok:
  assumes inv: "sync_inv G E sc" and ok: "jobs_ok sc" and D: "digest8 (digest (penv E))"
  obtains (encoding) j where "map_of (tokenizing sc) r = Some j" "sched_abort E r sc = Inr
      (upd_sobj (tj_request j) (\<lambda>q. q\<lparr>status := FINISHED, finish_reason := Some ''abort''\<rparr>)
         (sc\<lparr>tokenizing := AList.delete r (tokenizing sc)\<rparr>), Some (tj_request j))"
      "sync_inv G E (fst (projr (sched_abort E r sc)))" "jobs_ok (fst (projr (sched_abort E r sc)))"
  | (unknown) "map_of (tokenizing sc) r = None" "map_of (live (sc_planner sc)) r = None" "sched_abort E r sc = Inr (sc, None)"
  | (live) x sc' where "map_of (tokenizing sc) r = None" "map_of (live (sc_planner sc)) r = Some x"
      "sched_abort E r sc = Inr (sc', Some x)" "sync_inv G E sc'" "jobs_ok sc'" "harvest_frame {x} sc sc'"
      "is_finished (sobj sc' x)" "finish_reason (sobj sc' x) = Some ''abort''" "map_of (live (sc_planner sc')) r = None"
      "output_token_ids (sobj sc' x) = output_token_ids (sobj sc x)" "io sc' = io sc"
proof (cases "map_of (tokenizing sc) r")
  case (Some j)
  let ?sc = "sc\<lparr>tokenizing := AList.delete r (tokenizing sc)\<rparr>"
  let ?sc' = "upd_sobj (tj_request j) (\<lambda>q. q\<lparr>status := FINISHED, finish_reason := Some ''abort''\<rparr>) ?sc"
  have j: "(r, j) \<in> set (tokenizing sc)" using Some by (rule map_of_SomeD)
  have eq: "sched_abort E r sc = Inr (?sc', Some (tj_request j))" using Some by (simp add: sched_abort_def)
  have "sync_inv G E ?sc'"
    by (rule sync_inv_store [OF inv jobs_okD(1) [OF ok j], of _ "(sobj sc (tj_request j))\<lparr>status := FINISHED, finish_reason := Some ''abort''\<rparr>"])
      (use inv in \<open>simp_all add: sync_inv_def\<close>)
  moreover have "jobs_ok ?sc'" by (rule jobs_ok_delete [OF ok j]) simp_all
  ultimately show ?thesis using encoding [OF Some eq] eq by simp
next
  case None
  have i: "sched_inv G E sc" using inv by (simp add: sync_inv_def)
  show ?thesis
  proof (cases "map_of (live (sc_planner sc)) r")
    case n: None
    then have "abort (penv E) r (sc_planner sc) = Inr (sc_planner sc, None)"
      using abort_ok [OF sched_invD(1) [OF i] D, of r] by simp
    then have "sched_abort E r sc = Inr (sc, None)" using None by (simp add: sched_abort_def)
    then show ?thesis by (rule unknown [OF None n])
  next
    case (Some x)
    obtain P' where P': "abort (penv E) r (sc_planner sc) = Inr (P', Some x)" "planner_inv (digest (penv E)) P'"
      "retired x ''abort'' (sc_planner sc) P'"
      using abort_ok [OF sched_invD(1) [OF i] D, of r] Some by auto
    let ?sc' = "retire (request_id (objs P' x)) (sc\<lparr>sc_planner := P'\<rparr>)"
    have oth: "has_room (sobj sc y) \<and> (\<exists>d. map_of (detokenizers sc) s = Some d \<and> text_ok G E (sobj sc y) (io sc y) d)"
      if "map_of (live (sc_planner sc)) s = Some y" for s y
      using sched_invD(2,3) [OF i that] by blast
    note rt = retired_ok [OF sched_invD(1) [OF i] Some P'(2,3) oth sched_invD(4) [OF i]]
    have eq: "sched_abort E r sc = Inr (?sc', Some x)" using None P'(1) by (simp add: sched_abort_def)
    have s: "sync_inv G E ?sc'" by (rule sync_inv_frame [OF inv rt(1,2,3)])
    have "\<not> idle sc y" if "y \<in> {x}" for y using Some that by (auto simp: idle_def)
    then have "jobs_ok ?sc'" by (intro jobs_ok_quiet [OF ok harvest_frame_quiet [OF rt(2)] sync_live [OF inv]])
    then show ?thesis by (intro live [OF None Some eq s _ rt(2,3,4,7,5,6)])
  qed
qed

lemma step_ok:
  assumes inv: "sync_inv G E sc" and ok: "jobs_ok sc" and m: "\<not> pipeline_on sc"
    and D: "digest8 (digest (penv E))" and dev: "device_ok E" and tk: "tokenizer_ok E" and g: "enc_ok G E (tokenizing sc) sc"
  shows "\<exists>sc' adv. step E sc = Inr (sc', adv) \<and> sync_inv G E sc' \<and> jobs_ok sc' \<and> \<not> pipeline_on sc' \<and>
    set (tokenizing sc') \<subseteq> set (tokenizing sc)"
proof -
  let ?sc = "collect_tokenized E sc"
  note c = collect_ok [OF inv ok tk g]
  obtain sc' adv where s: "step_synchronous E ?sc = Inr (sc', adv)" "sync_inv G E sc'" "step_quiet ?sc sc'"
    using step_synchronous_ok [OF c(1) D dev] by blast
  have "jobs_ok sc'" by (rule jobs_ok_quiet [OF c(2) s(3) sync_live [OF c(1)]])
  moreover have "\<not> pipeline_on sc'" using s(3) c(3) m by (simp add: step_quiet_def frozen_def)
  moreover have "set (tokenizing sc') \<subseteq> set (tokenizing sc)" using s(3) c(4) by (simp add: step_quiet_def frozen_def collect_frame_def)
  ultimately show ?thesis using s(1,2) c(3) m by (simp add: step_def)
qed

section \<open>Submission\<close>

text \<open>Generated ids are pairwise different, so one more draw than there are ids in use finds a free one.\<close>

definition digits_value :: "string \<Rightarrow> nat" where
  "digits_value ds = foldl (\<lambda>n c. 10 * n + (of_char c - 48)) 0 ds"

lemma digits_value_decimal: "digits_value (decimal n) = n"
proof (induction n rule: decimal.induct)
  case (1 n)
  show ?case
  proof (cases "n < 10")
    case True
    then show ?thesis by (simp add: decimal.simps [of n] digits_value_def)
  next
    case False
    then have "digits_value (decimal n) = 10 * (n div 10) + n mod 10"
      using 1 by (simp add: decimal.simps [of n] digits_value_def)
    then show ?thesis by simp
  qed
qed

lemma generated_id_inj: "inj generated_id"
  by (rule injI) (metis append_same_eq digits_value_decimal generated_id_def same_append_eq)

lemma in_use_request_ids [simp]: "request_id_in_use r (sc\<lparr>request_ids := n\<rparr>) = request_id_in_use r sc"
  by (simp add: request_id_in_use_def)

lemma fresh_id_found:
  "fresh_id n sc = Inr (sc', r) \<Longrightarrow> sc' = sc\<lparr>request_ids := request_ids sc'\<rparr> \<and> \<not> request_id_in_use r sc"
proof (induction n arbitrary: sc)
  case (Suc n)
  show ?case
  proof (cases "request_id_in_use (generated_id (request_ids sc)) sc")
    case True
    then have "fresh_id n (sc\<lparr>request_ids := request_ids sc + 1\<rparr>) = Inr (sc', r)" using Suc.prems by (simp add: Let_def)
    from Suc.IH [OF this] show ?thesis by simp
  next
    case False
    then show ?thesis using Suc.prems by (auto simp: Let_def)
  qed
qed simp

lemma fresh_id_missed:
  "fresh_id n sc = Inl e \<Longrightarrow> k < n \<Longrightarrow> request_id_in_use (generated_id (request_ids sc + k)) sc"
proof (induction n arbitrary: sc k)
  case (Suc n)
  then have u: "request_id_in_use (generated_id (request_ids sc)) sc"
    and m: "fresh_id n (sc\<lparr>request_ids := request_ids sc + 1\<rparr>) = Inl e"
    by (auto simp: Let_def split: if_splits)
  show ?case
  proof (cases k)
    case (Suc k')
    then show ?thesis using Suc.IH [OF m, of k'] Suc.prems(2) by simp
  qed (use u in simp)
qed simp

lemma fresh_id_returns: "\<exists>sc' r. fresh_id (ids_in_use sc + 1) sc = Inr (sc', r)"
proof (rule ccontr)
  assume "\<not> ?thesis"
  then obtain e where e: "fresh_id (ids_in_use sc + 1) sc = Inl e" by (cases "fresh_id (ids_in_use sc + 1) sc") auto
  let ?U = "fst ` set (tokenizing sc) \<union> fst ` set (detokenizers sc) \<union> fst ` set (live (sc_planner sc))"
  let ?G = "(\<lambda>k. generated_id (request_ids sc + k)) ` {..<ids_in_use sc + 1}"
  have "?G \<subseteq> ?U"
    using fresh_id_missed [OF e]
    by (auto simp: request_id_in_use_def has_request_id_def map_of_eq_None_iff)
  then have "card ?G \<le> card ?U" by (intro card_mono) simp_all
  also have "\<dots> \<le> card (fst ` set (tokenizing sc)) + card (fst ` set (detokenizers sc)) + card (fst ` set (live (sc_planner sc)))"
    by (meson add_le_mono card_Un_le le_refl order_trans)
  also have "\<dots> \<le> ids_in_use sc"
    unfolding ids_in_use_def by (intro add_mono) (metis card_image_le card_length finite_set order_trans)+
  finally have "card ?G \<le> ids_in_use sc" .
  moreover have "card ?G = ids_in_use sc + 1"
    by (subst card_image) (auto simp: inj_on_def dest: injD [OF generated_id_inj])
  ultimately show False by simp
qed

text \<open>What a submission that raises may have changed: the id counter and the object of the rejected request.\<close>

definition only_object :: "oid \<Rightarrow> scheduler \<Rightarrow> scheduler \<Rightarrow> scheduler" where
  "only_object x sc sc' =
     sc\<lparr>sc_planner := (sc_planner sc)\<lparr>objs := (objs (sc_planner sc))(x := sobj sc' x)\<rparr>,
        io := (io sc)(x := io sc' x), request_ids := request_ids sc'\<rparr>"

text \<open>The prompt of a submission, if it is known at once.\<close>

definition prompt_is :: "senv \<Rightarrow> utext \<Rightarrow> int list option \<Rightarrow> int list \<Rightarrow> bool" where
  "prompt_is E prompt tokens_opt ts \<longleftrightarrow> (case tokens_opt of None \<Rightarrow> encode_text E prompt = Inr ts | Some us \<Rightarrow> ts = us)"

text \<open>What a submission did that returned: one new request, last in the queue or among the encodes, and nothing else.\<close>

definition submitted :: "senv \<Rightarrow> oid \<Rightarrow> utext \<Rightarrow> rid option \<Rightarrow> int list option \<Rightarrow> bool \<Rightarrow> scheduler \<Rightarrow> scheduler \<Rightarrow> bool" where
  "submitted E x prompt rid_opt tokens_opt on_error sc sc' \<longleftrightarrow>
     (let r = request_id (sobj sc' x); base = only_object x sc sc' in
        \<not> request_id_in_use r sc \<and> (\<forall>i. rid_opt = Some i \<longrightarrow> r = i) \<and>
        output_token_ids (sobj sc' x) = [] \<and> io_text (io sc' x) = [] \<and>
        (if tokens_opt = None \<and> async_tokenize sc
         then prompt_token_ids (sobj sc' x) = [] \<and>
           sc' = base\<lparr>tokenizing := tokenizing sc @ [(r, \<lparr>tj_request = x, tj_on_error = on_error\<rparr>)]\<rparr>
         else prompt_is E prompt tokens_opt (prompt_token_ids (sobj sc' x)) \<and>
           sc' = base\<lparr>sc_planner := (sc_planner base)\<lparr>live := live (sc_planner sc) @ [(r, x)],
                          waiting := waiting (sc_planner sc) @ [(r, x)]\<rparr>,
                      detokenizers := detokenizers sc @ [(r, detok_init 1)]\<rparr>))"

lemma only_object_tokenizing: "tokenizing (only_object x sc sc') = tokenizing sc"
  by (simp add: only_object_def)

lemma submitted_tokenizing:
  "submitted E x prompt rid_opt tokens_opt on_error sc sc' \<Longrightarrow>
     tokenizing sc' = tokenizing sc \<or> (\<exists>r b. tokenizing sc' = tokenizing sc @ [(r, \<lparr>tj_request = x, tj_on_error = b\<rparr>)])"
  by (auto simp: submitted_def Let_def only_object_tokenizing dest: arg_cong [where f = tokenizing] split: if_splits)

lemma submitted_live:
  assumes "submitted E x prompt rid_opt tokens_opt on_error sc sc'" "\<not> (tokens_opt = None \<and> async_tokenize sc)"
  shows "live (sc_planner sc') = live (sc_planner sc) @ [(request_id (sobj sc' x), x)]"
proof -
  from assms have "\<exists>w d. sc' = (only_object x sc sc')\<lparr>sc_planner := (sc_planner (only_object x sc sc'))
      \<lparr>live := live (sc_planner sc) @ [(request_id (sobj sc' x), x)], waiting := w\<rparr>, detokenizers := d\<rparr>"
    unfolding submitted_def Let_def if_not_P [OF assms(2)] by blast
  then obtain w d where e: "sc' = (only_object x sc sc')\<lparr>sc_planner := (sc_planner (only_object x sc sc'))
      \<lparr>live := live (sc_planner sc) @ [(request_id (sobj sc' x), x)], waiting := w\<rparr>, detokenizers := d\<rparr>" by blast
  show ?thesis using arg_cong [OF e, of "\<lambda>s. live (sc_planner s)"] by simp
qed

text \<open>A prompt that is registered at once is admitted, whatever id is drawn.\<close>

definition admits :: "(rid \<Rightarrow> int list set) \<Rightarrow> senv \<Rightarrow> scheduler \<Rightarrow> utext \<Rightarrow> rid option \<Rightarrow> int list option \<Rightarrow> bool" where
  "admits G E sc prompt rid_opt tokens_opt \<longleftrightarrow> tokens_opt = None \<and> async_tokenize sc \<or>
     (\<forall>r ts. \<not> request_id_in_use r sc \<longrightarrow> (\<forall>i. rid_opt = Some i \<longrightarrow> r = i) \<longrightarrow> prompt_is E prompt tokens_opt ts \<longrightarrow> ts \<in> G r)"

lemma admits_any [simp]: "admits any_prompt E sc prompt rid_opt tokens_opt"
  by (simp add: admits_def)

lemma sched_add_ok:
  assumes inv: "sync_inv G E sc" and ok: "jobs_ok sc" and tk: "tokenizer_ok E"
    and x: "idle sc x" "\<forall>j \<in> set (tokenizing sc). tj_request (snd j) \<noteq> x"
    and ts: "\<forall>ts. tokens_opt = Some ts \<longrightarrow> tokens_ok ts"
    and r: "sched_add_request E x prompt params rid_opt tokens_opt on_error now sc = (sc', res)"
    and g: "admits G E sc prompt rid_opt tokens_opt"
  shows "sync_inv G E sc'" "jobs_ok sc'" "pipeline_on sc' = pipeline_on sc"
    "case res of
       Inl e \<Rightarrow> (e = ValueError \<or> tokens_opt = None \<and> encode_text E prompt = Inl e) \<and> sc' = only_object x sc sc'
     | Inr _ \<Rightarrow> submitted E x prompt rid_opt tokens_opt on_error sc sc'"
    "map_of (live (sc_planner sc')) s = Some y \<Longrightarrow> y = x \<or> map_of (live (sc_planner sc)) s = Some y"
    "y \<noteq> x \<Longrightarrow> sobj sc' y = sobj sc y" "tokens_opt \<noteq> None \<Longrightarrow> tokenizing sc' = tokenizing sc"
proof -
  let ?live = "(\<forall>s y. map_of (live (sc_planner sc')) s = Some y \<longrightarrow> y = x \<or> map_of (live (sc_planner sc)) s = Some y) \<and>
    (\<forall>y. y \<noteq> x \<longrightarrow> sobj sc' y = sobj sc y) \<and> (tokens_opt \<noteq> None \<longrightarrow> tokenizing sc' = tokenizing sc)"
  let ?res = "case res of
       Inl e \<Rightarrow> (e = ValueError \<or> tokens_opt = None \<and> encode_text E prompt = Inl e) \<and> sc' = only_object x sc sc'
     | Inr _ \<Rightarrow> submitted E x prompt rid_opt tokens_opt on_error sc sc'"
  define drawn where "drawn = (case rid_opt of
              None \<Rightarrow> fresh_id (ids_in_use sc + 1) sc
            | Some r \<Rightarrow> if request_id_in_use r sc then Inl ValueError else Inr (sc, r))"
  define par where "par = (case params of None \<Rightarrow> default_params | Some p \<Rightarrow> p)"
  have "sync_inv G E sc' \<and> jobs_ok sc' \<and> pipeline_on sc' = pipeline_on sc \<and> ?res \<and> ?live"
  proof (cases drawn)
    case (Inl e)
    have "e = ValueError"
      using Inl fresh_id_returns [of sc] by (auto simp: drawn_def split: option.splits if_splits)
    moreover have "sc' = sc" "res = Inl e"
      using r Inl unfolding sched_add_request_def drawn_def [symmetric] by simp_all
    ultimately show ?thesis using inv ok by (simp add: only_object_def)
  next
    case (Inr d)
    obtain sc1 rid where d: "d = (sc1, rid)" by (cases d)
    have f: "sc1 = sc\<lparr>request_ids := request_ids sc1\<rparr>" "\<not> request_id_in_use rid sc" "\<forall>i. rid_opt = Some i \<longrightarrow> rid = i"
      using Inr d fresh_id_found [of "ids_in_use sc + 1" sc sc1 rid]
      by (auto simp: drawn_def split: option.splits if_splits)
    define put where "put ts = place_object x (new_request_object rid ts par now) par sc1" for ts
    obtain n where f1: "sc1 = sc\<lparr>request_ids := n\<rparr>" using f(1) by blast
    have same_object: "only_object x sc sc1 = sc1" by (simp add: f1 only_object_def)
    have s1: "sc_planner sc1 = sc_planner sc" "io sc1 = io sc" "detokenizers sc1 = detokenizers sc" "tokenizing sc1 = tokenizing sc"
      "pipeline_on sc1 = pipeline_on sc" "async_tokenize sc1 = async_tokenize sc"
      by (subst f(1), simp)+
    have i1: "sync_inv G E sc1" using inv sync_inv_cong [OF s1(1-3)] by simp
    have x1: "idle sc1 x" using x(1) by (simp add: idle_def s1)
    have p: "sync_inv G E (put ts)" "idle (put ts) x" "live (sc_planner (put ts)) = live (sc_planner sc)"
      "tokenizing (put ts) = tokenizing sc" "pipeline_on (put ts) = pipeline_on sc" "detokenizers (put ts) = detokenizers sc"
      "request_id (sobj (put ts) x) = rid" "prompt_token_ids (sobj (put ts) x) = ts" "output_token_ids (sobj (put ts) x) = []"
      "io_text (io (put ts) x) = []" "\<And>y. y \<noteq> x \<Longrightarrow> sobj (put ts) y = sobj sc y \<and> io (put ts) y = io sc y"
      "put ts = only_object x sc (put ts)" for ts
    proof -
      show "sync_inv G E (put ts)"
        by (rule sync_inv_store [OF i1 x1, of _ "new_request_object rid ts par now"]) (simp_all add: put_def place_object_def new_request_object_def)
      show "put ts = only_object x sc (put ts)"
        by (simp add: put_def place_object_def f1 only_object_def)
    qed (use x(1) in \<open>simp_all add: put_def place_object_def new_request_object_def new_request_io_def idle_def s1\<close>)
    have eq: "(sc', res) =
        (if tokens_opt = None \<and> async_tokenize sc1
         then ((put [])\<lparr>tokenizing := AList.update rid \<lparr>tj_request = x, tj_on_error = on_error\<rparr> (tokenizing sc1)\<rparr>, Inr ())
         else case (case tokens_opt of None \<Rightarrow> encode_text E prompt | Some ts \<Rightarrow> Inr ts) of
                Inl e \<Rightarrow> (sc1, Inl e) | Inr ts \<Rightarrow> register_request x (put ts))"
      unfolding r [symmetric] sched_add_request_def drawn_def [symmetric] par_def [symmetric] Inr d sum.case prod.case put_def Let_def ..
    have jobs: "jobs_ok t"
      if "tokenizing t = tokenizing sc" "\<And>s y. map_of (live (sc_planner t)) s = Some y \<Longrightarrow> y = x \<or> map_of (live (sc_planner sc)) s = Some y"
        "\<And>y. y \<noteq> x \<Longrightarrow> sobj t y = sobj sc y \<and> io t y = io sc y" for t
      unfolding jobs_ok_def that(1)
    proof (intro conjI ballI)
      show "dict_ok (tokenizing sc)" "distinct (map (\<lambda>j. tj_request (snd j)) (tokenizing sc))" using ok by (simp_all add: jobs_ok_def)
      fix j assume j: "j \<in> set (tokenizing sc)"
      then have ne: "tj_request (snd j) \<noteq> x" using x(2) by blast
      note jd = jobs_okD [OF ok, of "fst j" "snd j", simplified, OF j]
      show "idle t (tj_request (snd j))" using jd(1) that(2) ne unfolding idle_def by force
      show "request_id (sobj t (tj_request (snd j))) = fst j" "tokens (sobj t (tj_request (snd j))) = []"
        "io_text (io t (tj_request (snd j))) = []" using jd(2-4) that(3) [OF ne] by simp_all
    qed
    show ?thesis
    proof (cases "tokens_opt = None \<and> async_tokenize sc1")
      case True
      let ?j = "\<lparr>tj_request = x, tj_on_error = on_error\<rparr>"
      have e: "sc' = (put [])\<lparr>tokenizing := AList.update rid ?j (tokenizing sc1)\<rparr>" "res = Inr ()" using eq True by simp_all
      have nt: "map_of (tokenizing sc) rid = None" using f(2) by (simp add: request_id_in_use_def)
      have t: "tokenizing sc' = tokenizing sc @ [(rid, ?j)]" using update_new [OF nt] by (simp add: e(1) s1)
      have i: "sync_inv G E sc'" using p(1) [of "[]"] sync_inv_cong [of sc' "put []"] by (simp add: e(1))
      have jp: "jobs_ok (put [])" by (rule jobs) (use p in simp_all)
      have "jobs_ok sc'"
        unfolding jobs_ok_def t
      proof (intro conjI ballI)
        show "dict_ok (tokenizing sc @ [(rid, ?j)])" using ok nt by (auto simp: jobs_ok_def map_of_eq_None_iff)
        show "distinct (map (\<lambda>j. tj_request (snd j)) (tokenizing sc @ [(rid, ?j)]))" using ok x(2) by (auto simp: jobs_ok_def)
        fix j assume j: "j \<in> set (tokenizing sc @ [(rid, ?j)])"
        have "idle (put []) (tj_request (snd j)) \<and> request_id (sobj (put []) (tj_request (snd j))) = fst j \<and>
            tokens (sobj (put []) (tj_request (snd j))) = [] \<and> io_text (io (put []) (tj_request (snd j))) = []"
        proof (cases "j \<in> set (tokenizing sc)")
          case True
          then show ?thesis using jp p(4) [of "[]"] unfolding jobs_ok_def by simp
        next
          case False
          then have "j = (rid, ?j)" using j by simp
          then show ?thesis using p(2,7-10) [of "[]"] by (simp add: tokens_def)
        qed
        then show "idle sc' (tj_request (snd j))" "request_id (sobj sc' (tj_request (snd j))) = fst j"
          "tokens (sobj sc' (tj_request (snd j))) = []" "io_text (io sc' (tj_request (snd j))) = []"
          by (simp_all add: e(1) idle_def)
      qed
      moreover have "sc' = (only_object x sc sc')\<lparr>tokenizing := tokenizing sc @ [(rid, ?j)]\<rparr>"
        unfolding e(1) s1(4) by (subst p(12)) (simp add: only_object_def update_new [OF nt])
      then have "submitted E x prompt rid_opt tokens_opt on_error sc sc'"
        using f(2,3) p(7-10) [of "[]"] True s1(6) by (simp add: submitted_def e(1) Let_def)
      ultimately show ?thesis using i p(3,5,11) True by (simp add: e)
    next
      case sync: False
      show ?thesis
      proof (cases "case tokens_opt of None \<Rightarrow> encode_text E prompt | Some ts \<Rightarrow> Inr ts")
        case (Inl e)
        then have "sc' = sc1" "res = Inl e" "tokens_opt = None" "encode_text E prompt = Inl e"
          using eq sync by (simp_all split: option.splits)
        moreover have "jobs_ok sc1" by (rule jobs) (simp_all add: s1)
        ultimately show ?thesis using i1 same_object by (simp add: s1)
      next
        case (Inr ts')
        then have q: "(sc', res) = register_request x (put ts')" using eq sync by (simp split: option.splits)
        have tok: "tokens_ok (prompt_token_ids (sobj (put ts') x))"
          using Inr ts tk unfolding p(8) by (auto simp: tokenizer_ok_def split: option.splits)
        have jp: "jobs_ok (put ts')" by (rule jobs) (use p(3-11) in simp_all)
        have pr: "prompt_is E prompt tokens_opt ts'" using Inr by (simp add: prompt_is_def split: option.splits)
        have ns: "\<not> (tokens_opt = None \<and> async_tokenize sc)" using sync s1(6) by simp
        have gp: "map_of (live (sc_planner (put ts'))) (request_id (sobj (put ts') x)) = None \<longrightarrow>
            prompt_token_ids (sobj (put ts') x) \<in> G (request_id (sobj (put ts') x))"
          using g f(2,3) pr ns unfolding admits_def p(7,8) by blast
        show ?thesis
        proof (cases rule: register_ok [OF p(1,2,9) tok p(10) gp, case_names refused registered])
          case refused
          then show ?thesis using q p(1-11) jp p(12) [of ts'] by simp
        next
          case (registered sc2)
          then have e: "sc' = sc2" "res = Inr ()" using q by simp_all
          have t2: "tokenizing sc2 = tokenizing sc" "pipeline_on sc2 = pipeline_on sc" using registered(3) p(4,5) by (simp_all add: frozen_def)
          have "jobs_ok sc2"
            by (rule jobs [OF t2(1)]) (use registered(4-6) p(3,11) in auto)
          moreover have "sc2 = (only_object x sc sc2)\<lparr>sc_planner := (sc_planner (only_object x sc sc2))
              \<lparr>live := live (sc_planner sc) @ [(rid, x)], waiting := waiting (sc_planner sc) @ [(rid, x)]\<rparr>,
              detokenizers := detokenizers sc @ [(rid, detok_init 1)]\<rparr>"
            unfolding registered(7) registered_as_def p(7) Let_def by (simp add: put_def place_object_def f1 only_object_def)
          moreover have "request_id (sobj sc2 x) = rid" "output_token_ids (sobj sc2 x) = []" "prompt_token_ids (sobj sc2 x) = ts'"
            "io_text (io sc2 x) = []"
            using p(7-10) [of ts'] by (simp_all add: registered(7) registered_as_def Let_def)
          ultimately have sub: "jobs_ok sc2" "submitted E x prompt rid_opt tokens_opt on_error sc sc2"
            using f(2,3) pr unfolding submitted_def Let_def if_not_P [OF ns] by simp_all
          have "\<forall>s y. map_of (live (sc_planner sc2)) s = Some y \<longrightarrow> y = x \<or> map_of (live (sc_planner sc)) s = Some y"
            using registered(6) p(3) by auto
          moreover have "\<forall>y. y \<noteq> x \<longrightarrow> sobj sc2 y = sobj sc y" using registered(5) p(11) by simp
          ultimately show ?thesis using registered(2) t2 sub by (simp add: e)
        qed
      qed
    qed
  qed
  then show "sync_inv G E sc'" "jobs_ok sc'" "pipeline_on sc' = pipeline_on sc" ?res
    "map_of (live (sc_planner sc')) s = Some y \<Longrightarrow> y = x \<or> map_of (live (sc_planner sc)) s = Some y"
    "y \<noteq> x \<Longrightarrow> sobj sc' y = sobj sc y" "tokens_opt \<noteq> None \<Longrightarrow> tokenizing sc' = tokenizing sc" by blast+
qed

section \<open>Reachable states\<close>

inductive sched_step :: "senv \<Rightarrow> scheduler \<Rightarrow> scheduler \<Rightarrow> bool" for E where
  submit: "\<lbrakk>idle sc x; \<forall>j \<in> set (tokenizing sc). tj_request (snd j) \<noteq> x; \<forall>ts. tokens_opt = Some ts \<longrightarrow> tokens_ok ts;
     sched_add_request E x prompt params rid_opt tokens_opt on_error now sc = (sc', res)\<rbrakk> \<Longrightarrow> sched_step E sc sc'"
| abort: "sched_abort E r sc = Inr (sc', y) \<Longrightarrow> sched_step E sc sc'"
| step: "step E sc = Inr (sc', advanced) \<Longrightarrow> sched_step E sc sc'"

inductive sched_reachable :: "senv \<Rightarrow> scheduler \<Rightarrow> bool" for E where
  init: "\<lbrakk>config_check c0 = Inr c; \<not> want_pipeline g; \<forall>x. pending_tokens (store x) = 0;
     scheduler_init g dpa depth store ios c None = Inr sc\<rbrakk> \<Longrightarrow> sched_reachable E sc"
| step: "\<lbrakk>sched_reachable E sc; sched_step E sc sc'\<rbrakk> \<Longrightarrow> sched_reachable E sc'"

inductive_cases sched_stepE: "sched_step E sc sc'"

lemma scheduler_init_ok:
  assumes c: "config_check c0 = Inr c" and w: "\<not> want_pipeline g" and n: "\<forall>x. pending_tokens (store x) = 0"
    and i: "scheduler_init g dpa depth store ios c None = Inr sc"
  shows "sync_inv G E sc \<and> jobs_ok sc \<and> \<not> pipeline_on sc \<and> tokenizing sc = [] \<and> live (sc_planner sc) = []"
proof -
  let ?num = "if engine_kv_blocks g = 0 then None else Some (engine_kv_blocks g)"
  have cc: "config_check c = Inr c" by (rule config_check_idem [OF c])
  obtain P where P: "planner_init store c (engine_slots g) ?num None = Inr P"
    using i by (auto simp: scheduler_init_def split: if_splits)
  have "1 \<le> engine_slots g" "2 \<le> pool_size c (engine_slots g) ?num"
    using planner_init_raises [of "engine_slots g" c ?num store] P by fastforce+
  then obtain P0 where P0: "planner_init store c (engine_slots g) ?num None = Inr P0" "planner_inv (digest (penv E)) P0"
    "live P0 = []" "running P0 = []" "objs P0 = store"
    by (rule planner_init_ok [OF cc]) (rule that)
  have sc: "sc_planner sc = P0" "detokenizers sc = []" "tokenizing sc = []" "\<not> pipeline_on sc"
    using i w P0(1) by (auto simp: scheduler_init_def split: if_splits)
  then show ?thesis using P0 n by (simp add: sync_inv_def sched_inv_def decode_ready_def jobs_ok_def)
qed

lemma sched_step_inv:
  assumes s: "sched_step E sc sc'" and inv: "sync_inv G E sc" and ok: "jobs_ok sc" and m: "\<not> pipeline_on sc"
    and D: "digest8 (digest (penv E))" and dev: "device_ok E" and tk: "tokenizer_ok E"
    and enc: "enc_ok G E (tokenizing sc) sc" and fresh: "\<forall>r. \<not> request_id_in_use r sc \<longrightarrow> G r = UNIV"
  shows "sync_inv G E sc' \<and> jobs_ok sc' \<and> \<not> pipeline_on sc' \<and> (\<forall>j \<in> set (tokenizing sc'). idle sc (tj_request (snd j)))"
proof -
  have old: "idle sc (tj_request (snd j))" if "j \<in> set (tokenizing sc)" for j using ok that unfolding jobs_ok_def by blast
  show ?thesis
    using s
  proof cases
    case (submit x tokens_opt prompt params rid_opt on_error now res)
    have "admits G E sc prompt rid_opt tokens_opt" using fresh by (simp add: admits_def)
    note a = sched_add_ok [OF inv ok tk submit this]
    have "idle sc (tj_request (snd j))" if "j \<in> set (tokenizing sc')" for j
    proof (cases res)
      case (Inl e)
      then have "sc' = only_object x sc sc'" using a(4) by simp
      then have "tokenizing sc' = tokenizing sc" by (metis only_object_tokenizing)
      then show ?thesis using old that by simp
    next
      case (Inr u)
      then have "submitted E x prompt rid_opt tokens_opt on_error sc sc'" using a(4) by simp
      then have "tokenizing sc' = tokenizing sc \<or> (\<exists>r b. tokenizing sc' = tokenizing sc @ [(r, \<lparr>tj_request = x, tj_on_error = b\<rparr>)])"
        by (rule submitted_tokenizing)
      then show ?thesis using old [of j] that submit(1) by auto
    qed
    then show ?thesis using a(1-3) m by simp
  next
    case (abort r y)
    show ?thesis
    proof (cases rule: sched_abort_ok [OF inv ok D, of r, case_names encoding unknown live])
      case (encoding j)
      then show ?thesis using abort m old by (auto simp: set_delete_dict)
    next
      case unknown
      then show ?thesis using abort inv ok m old by simp
    next
      case (live x t)
      then have e: "sc' = t" using abort by simp
      have "pipeline_on t = pipeline_on sc" "tokenizing t = tokenizing sc" using harvest_frameD(12) [OF live(6)] by (simp_all add: frozen_def)
      then show ?thesis using live(4,5) m old unfolding e by simp
    qed
  next
    case (step advanced)
    then show ?thesis using step_ok [OF inv ok m D dev tk enc] old by auto
  qed
qed

lemma sched_reachable_inv:
  assumes "sched_reachable E sc" "digest8 (digest (penv E))" "device_ok E" "tokenizer_ok E"
  shows "sync_inv any_prompt E sc \<and> jobs_ok sc \<and> \<not> pipeline_on sc"
  using assms
proof (induction rule: sched_reachable.induct)
  case (init c0 c g store dpa depth ios sc)
  then show ?case using scheduler_init_ok by blast
next
  case (step sc sc')
  then show ?case using sched_step_inv [where G = any_prompt] by (metis enc_ok_any)
qed

section \<open>The life of a request\<close>

text \<open>From submission on, the id names the request: first, maybe, among the encodes, then among the live ones, queued or running.\<close>

definition known :: "rid \<Rightarrow> oid \<Rightarrow> scheduler \<Rightarrow> bool" where
  "known r x sc \<longleftrightarrow>
     map_of (live (sc_planner sc)) r = Some x \<or> (\<exists>j. map_of (tokenizing sc) r = Some j \<and> tj_request j = x)"

inductive sched_life :: "senv \<Rightarrow> rid \<Rightarrow> oid \<Rightarrow> scheduler \<Rightarrow> scheduler \<Rightarrow> bool" for E r x where
  start: "known r x sc \<Longrightarrow> sched_life E r x sc sc"
| step: "\<lbrakk>sched_life E r x sc sc'; sched_step E sc' sc''; known r x sc''\<rbrakk> \<Longrightarrow> sched_life E r x sc sc''"

text \<open>A promise about the prompts under an id that is not live yet costs nothing.\<close>

lemma sync_inv_promise:
  assumes "sync_inv any_prompt E sc" "map_of (live (sc_planner sc)) r = None"
  shows "sync_inv (any_prompt(r := A)) E sc"
proof -
  have "text_ok (any_prompt(r := A)) E (sobj sc x) (io sc x) d"
    if "map_of (live (sc_planner sc)) s = Some x" "text_ok any_prompt E (sobj sc x) (io sc x) d" for s x d
  proof -
    have "queues_ok (sc_planner sc)" using assms(1) sched_invD(1) planner_invD(3) unfolding sync_inv_def by blast
    then have "request_id (sobj sc x) \<noteq> r" using queues_okD(8) that(1) assms(2) by fastforce
    then show ?thesis using that(2) by (simp add: text_ok_def)
  qed
  then show ?thesis using assms(1) unfolding sync_inv_def sched_inv_def by blast
qed

text \<open>A promise made at submission is kept for life: by the prompt handed over, or by what the encode may yield.\<close>

definition kept_promise :: "senv \<Rightarrow> rid \<Rightarrow> oid \<Rightarrow> int list set \<Rightarrow> scheduler \<Rightarrow> bool" where
  "kept_promise E r x A sc \<longleftrightarrow>
     sync_inv (any_prompt(r := A)) E sc \<and> jobs_ok sc \<and> \<not> pipeline_on sc \<and>
     (map_of (live (sc_planner sc)) r = Some x \<or> (\<forall>n ts. encoded E n x = Some (Inr ts) \<longrightarrow> ts \<in> A))"

lemma sched_life_promise:
  assumes "sched_life E r x sc sc'" "kept_promise E r x A sc"
    and D: "digest8 (digest (penv E))" and dev: "device_ok E" and tk: "tokenizer_ok E"
  shows "kept_promise E r x A sc' \<and> known r x sc'"
  using assms(1,2)
proof (induction rule: sched_life.induct)
  case (step sc sc1 sc2)
  let ?G = "any_prompt(r := A)"
  have p: "sync_inv ?G E sc1" "jobs_ok sc1" "\<not> pipeline_on sc1" "known r x sc1"
    "map_of (live (sc_planner sc1)) r = Some x \<or> (\<forall>n ts. encoded E n x = Some (Inr ts) \<longrightarrow> ts \<in> A)"
    using step.IH step.prems unfolding kept_promise_def by blast+
  have job: "map_of (tokenizing sc1) s = Some j" if "(s, j) \<in> set (tokenizing sc1)" for s j by (rule jobs_okD(5) [OF p(2) that])
  have "enc_ok ?G E (tokenizing sc1) sc1"
    using job p(4,5) by (fastforce simp: enc_ok_def known_def)
  moreover have "request_id_in_use r sc1" using p(4) by (auto simp: known_def request_id_in_use_def has_request_id_def)
  then have "\<forall>s. \<not> request_id_in_use s sc1 \<longrightarrow> ?G s = UNIV" by auto
  ultimately have i: "sync_inv ?G E sc2" "jobs_ok sc2" "\<not> pipeline_on sc2" "\<forall>j \<in> set (tokenizing sc2). idle sc1 (tj_request (snd j))"
    using sched_step_inv [OF step.hyps(2) p(1-3) D dev tk] by blast+
  have "map_of (live (sc_planner sc2)) r = Some x \<or> (\<forall>n ts. encoded E n x = Some (Inr ts) \<longrightarrow> ts \<in> A)"
  proof (cases "map_of (live (sc_planner sc1)) r = Some x")
    case True
    then have "\<not> idle sc1 x" by (auto simp: idle_def)
    then have "map_of (tokenizing sc2) r = Some j \<Longrightarrow> tj_request j \<noteq> x" for j using i(4) map_of_SomeD [of "tokenizing sc2" r j] by fastforce
    then show ?thesis using step.hyps(3) by (auto simp: known_def)
  qed (use p(5) in blast)
  then show ?case using i(1-3) step.hyps(3) by (simp add: kept_promise_def)
qed simp

text \<open>The prompts a submission may end up with: the one handed over or encoded in place, or what the background encode yields.\<close>

definition prompts_of :: "senv \<Rightarrow> scheduler \<Rightarrow> oid \<Rightarrow> utext \<Rightarrow> int list option \<Rightarrow> int list set" where
  "prompts_of E sc x prompt tokens_opt =
     (if tokens_opt = None \<and> async_tokenize sc then {ts. \<exists>n. encoded E n x = Some (Inr ts)}
      else {ts. prompt_is E prompt tokens_opt ts})"

lemma submission_promise:
  assumes inv: "sync_inv any_prompt E sc" and ok: "jobs_ok sc" and m: "\<not> pipeline_on sc" and tk: "tokenizer_ok E"
    and x: "idle sc x" "\<forall>j \<in> set (tokenizing sc). tj_request (snd j) \<noteq> x"
    and ts: "\<forall>ts. tokens_opt = Some ts \<longrightarrow> tokens_ok ts"
    and r: "sched_add_request E x prompt params rid_opt tokens_opt on_error now sc = (sc', Inr u)"
  shows "kept_promise E (request_id (sobj sc' x)) x (prompts_of E sc x prompt tokens_opt) sc'"
proof -
  let ?r = "request_id (sobj sc' x)" and ?A = "prompts_of E sc x prompt tokens_opt"
  have s: "submitted E x prompt rid_opt tokens_opt on_error sc sc'" using sched_add_ok(4) [OF inv ok tk x ts r admits_any] by simp
  then have fresh: "map_of (live (sc_planner sc)) ?r = None" "map_of (tokenizing sc) ?r = None"
    by (auto simp: submitted_def Let_def request_id_in_use_def has_request_id_def)
  have "admits (any_prompt(?r := ?A)) E sc prompt rid_opt tokens_opt" by (auto simp: admits_def prompts_of_def)
  note a = sched_add_ok(1-3) [OF sync_inv_promise [OF inv fresh(1)] ok tk x ts r this]
  have "map_of (live (sc_planner sc')) ?r = Some x \<or> (\<forall>n ts. encoded E n x = Some (Inr ts) \<longrightarrow> ts \<in> ?A)"
  proof (cases "tokens_opt = None \<and> async_tokenize sc")
    case False
    then have "live (sc_planner sc') = live (sc_planner sc) @ [(?r, x)]"
      by (rule submitted_live [OF s])
    then show ?thesis using fresh(1) by (simp add: map_add_def)
  qed (auto simp: prompts_of_def)
  then show ?thesis using a m by (simp add: kept_promise_def)
qed

end
