(* ===== verification/Scheduler_Properties.thy ===== *)
theory Scheduler_Properties
  imports Scheduler_Lifecycle
begin

text \<open>
  What the scheduler guarantees (\<^verbatim>\<open>src/rapid_llm/engine/scheduler.py\<close>): every synchronous step returns in every reachable
  state, the text of a request is the decoding of its own tokens, submission never loses or doubles an id, and speculative
  decoding emits what greedy decoding would. Two properties show where the pipelined mode breaks its own bookkeeping.
\<close>

section \<open>A concrete scheduler\<close>

definition demo_senv :: senv where
  "demo_senv = \<lparr>penv = demo_env, decode_text = decode2, encode_text = Inr, is_digit = (\<lambda>c. 48 \<le> c \<and> c \<le> 57),
     encoded = (\<lambda>n x. None), execute = (\<lambda>n m. (map (\<lambda>i. 65) (mi_sampled m), None)),
     execute_verify = (\<lambda>n m. None), dp_attention = False, coordinate = (\<lambda>n k. k)\<rparr>"

definition demo_facts :: engine_facts where
  "demo_facts = \<lparr>is_multimodal = False, engine_max_seq_len = 32, engine_stop_ids = [2], engine_slots = 2, engine_kv_blocks = 0,
     dcp_on = False, fused_chunks = True, replay_cap = 8, want_speculate = False, want_pipeline = False,
     want_async_tokenize = False\<rparr>"

definition demo_scheduler :: "scheduler res" where
  "demo_scheduler = scheduler_init demo_facts False 1 (\<lambda>_. demo_request) (\<lambda>_. new_request_io default_params) demo_config None"

definition demo_submit :: "scheduler \<Rightarrow> (scheduler \<times> unit res)" where
  "demo_submit = sched_add_request demo_senv 0 [] None (Some ''a'') (Some [5, 6, 7]) False 0"

lemma demo_device: "device_ok demo_senv" "tokenizer_ok (demo_senv\<lparr>encode_text := (\<lambda>t. Inl ValueError)\<rparr>)"
    "digest8 (digest (penv demo_senv))"
  using demo_digest
  by (simp_all add: device_ok_def demo_senv_def token_range_def wants_prompt_records_def sampled_records_def tokenizer_ok_def)

text \<open>The tokenizer of the example encodes nothing, so that its law holds.\<close>

definition demo_E :: senv where
  "demo_E = demo_senv\<lparr>encode_text := (\<lambda>t. Inl ValueError)\<rparr>"

lemma demo_E_ok: "device_ok demo_E" "tokenizer_ok demo_E" "digest8 (digest (penv demo_E))" "decode_text demo_E = decode2"
  using demo_device by (simp_all add: demo_E_def device_ok_def) (simp add: demo_senv_def)

lemma demo_scheduler_start:
  obtains sc where "demo_scheduler = Inr sc" "sched_reachable demo_E sc" "live (sc_planner sc) = []" "tokenizing sc = []"
    "detokenizers sc = []" "async_tokenize sc = False" "objs (sc_planner sc) = (\<lambda>_. demo_request)" "pconfig (sc_planner sc) = demo_config"
    "inflight sc = []" "running (sc_planner sc) = []"
proof -
  have c: "config_check demo_config = Inr demo_config" by code_simp
  obtain P where P: "planner_init (\<lambda>_. demo_request) demo_config 2 None None = Inr P" "live P = []" "objs P = (\<lambda>_. demo_request)"
    "pconfig P = demo_config" "running P = []"
    by (rule planner_init_ok [OF c, of 2 None "\<lambda>_. demo_request"]) (simp_all add: pool_size_def or_default_def demo_config_def default_num_blocks_def)
  obtain sc where sc: "demo_scheduler = Inr sc" "sc_planner sc = P" "tokenizing sc = []" "detokenizers sc = []" "async_tokenize sc = False" "inflight sc = []"
    using P(1) by (simp add: demo_scheduler_def scheduler_init_def demo_facts_def demo_config_def)
  have "sched_reachable demo_E sc"
    by (rule sched_reachable.init [OF c _ _ sc(1) [unfolded demo_scheduler_def]]) (simp_all add: demo_facts_def demo_request_def)
  with sc P show ?thesis using that by metis
qed

lemma demo_scheduler_submitted:
  obtains sc sc' where "demo_scheduler = Inr sc" "sched_reachable demo_E sc"
    "sched_add_request demo_E 0 [] None (Some ''a'') (Some [5, 6, 7]) False 0 sc = (sc', Inr ())" "sched_reachable demo_E sc'"
    "map_of (live (sc_planner sc')) ''a'' = Some 0" "waiting (sc_planner sc') \<noteq> []"
proof -
  obtain sc where sc: "demo_scheduler = Inr sc" "sched_reachable demo_E sc" "live (sc_planner sc) = []" "tokenizing sc = []"
    "detokenizers sc = []" "async_tokenize sc = False" "pconfig (sc_planner sc) = demo_config" by (rule demo_scheduler_start) (rule that)
  let ?r = "new_request_object ''a'' [5, 6, 7] default_params 0"
  obtain sc' where a: "sched_add_request demo_E 0 [] None (Some ''a'') (Some [5, 6, 7]) False 0 sc = (sc', Inr ())"
    "map_of (live (sc_planner sc')) ''a'' = Some 0" "waiting (sc_planner sc') \<noteq> []"
    using sc(3-7)
    by (simp add: sched_add_request_def request_id_in_use_def has_request_id_def register_request_def place_object_def
        add_request_eq refuses_def new_request_object_def prompt_len_def demo_config_def dict_simps)
  have "sched_step demo_E sc sc'"
    by (rule sched_step.submit [OF _ _ _ a(1)]) (simp_all add: idle_def sc tokens_ok_def)
  then have "sched_reachable demo_E sc'" by (rule sched_reachable.step [OF sc(2)])
  then show ?thesis using sc(1,2) a that by blast
qed

section \<open>The synchronous scheduler\<close>

text \<open>C2: the synchronous engine step never raises. In every state that construction, submission (plain, pre-tokenised or
  encoded in the background), abort and earlier steps reach, whatever they raised, a step returns: planning, building the
  passes, speculation, the harvest and its retirements all succeed, given a digest of eight bytes, a device that returns one
  32-bit token per sampled row and no prompt records (no request asks for prompt log-probabilities), and a tokenizer of 32-bit ids.\<close>

theorem step_never_raises:
  assumes "sched_reachable E sc" "digest8 (digest (penv E))" "device_ok E" "tokenizer_ok E"
  shows "\<exists>sc' advanced. step E sc = Inr (sc', advanced) \<and> planner_inv (digest (penv E)) (sc_planner sc') \<and>
    (\<forall>x \<in> set (running (sc_planner sc')). prefill_done (sobj sc' x) \<longrightarrow> output_token_ids (sobj sc' x) \<noteq> [])"
proof -
  have i: "sync_inv any_prompt E sc" "jobs_ok sc" "\<not> pipeline_on sc" using sched_reachable_inv [OF assms] by blast+
  obtain sc' adv where s: "step E sc = Inr (sc', adv)" "sync_inv any_prompt E sc'"
    using step_ok [OF i assms(2-4) enc_ok_any] by blast
  then have "sched_inv any_prompt E sc'" "decode_ready (sc_planner sc')" by (simp_all add: sync_inv_def)
  then show ?thesis using s(1) sched_invD(1) unfolding decode_ready_def by blast
qed

theorem step_never_raises_witness:
  "\<exists>sc sc' sc'' advanced. demo_scheduler = Inr sc \<and>
     sched_add_request demo_E 0 [] None (Some ''a'') (Some [5, 6, 7]) False 0 sc = (sc', Inr ()) \<and>
     waiting (sc_planner sc') \<noteq> [] \<and> step demo_E sc' = Inr (sc'', advanced)"
proof -
  obtain sc sc' where s: "demo_scheduler = Inr sc" "sched_reachable demo_E sc'" "waiting (sc_planner sc') \<noteq> []"
    "sched_add_request demo_E 0 [] None (Some ''a'') (Some [5, 6, 7]) False 0 sc = (sc', Inr ())"
    by (rule demo_scheduler_submitted) (rule that)
  show ?thesis using step_never_raises [OF s(2) demo_E_ok(3,1,2)] s by blast
qed

text \<open>C5: streamed text is the decoding of the generated tokens. From the submission of a request on, whatever other requests,
  aborts and steps do, and however often it is evicted: while it is live, its tokens are its own prompt (what was handed over,
  or what its encode gave) followed by the generated ones; its text is exactly what the incremental detokenizer emits for the
  generated tokens from its initial state on, nothing dropped and nothing doubled; and for a tokenizer that satisfies the window
  law it is the one-shot decoding of the generated tokens up to the detokenizer's read offset.\<close>

theorem text_is_decoding:
  assumes "sched_reachable E sc" "digest8 (digest (penv E))" "device_ok E" "tokenizer_ok E"
    and "idle sc x" "\<forall>j \<in> set (tokenizing sc). tj_request (snd j) \<noteq> x" "\<forall>ts. tokens_opt = Some ts \<longrightarrow> tokens_ok ts"
    and "sched_add_request E x prompt params rid_opt tokens_opt on_error now sc = (sc1, Inr u)"
    and "r = request_id (sobj sc1 x)" "sched_life E r x sc1 sc2" "map_of (live (sc_planner sc2)) r = Some x"
  shows "\<exists>ts generated d. ts \<in> prompts_of E sc x prompt tokens_opt \<and> tokens (sobj sc2 x) = ts @ generated \<and>
    length (output_token_ids (sobj sc2 x)) \<le> length generated \<and> map_of (detokenizers sc2) r = Some [d] \<and>
    append_tokens (decode_text E) generated sequence_init = (d, io_text (io sc2 x)) \<and>
    (window_law (decode_text E) \<longrightarrow> io_text (io sc2 x) = detok_decode (decode_text E) (take (read_offset d) generated))"
proof -
  have i: "sync_inv any_prompt E sc" "jobs_ok sc" "\<not> pipeline_on sc" using sched_reachable_inv [OF assms(1-4)] by blast+
  let ?A = "prompts_of E sc x prompt tokens_opt"
  have "kept_promise E r x ?A sc1" using submission_promise [OF i assms(4-8)] unfolding assms(9) .
  then have "sched_inv (any_prompt(r := ?A)) E sc2"
    using sched_life_promise [OF assms(10) _ assms(2-4)] by (simp add: kept_promise_def sync_inv_def)
  then obtain d where d: "map_of (detokenizers sc2) r = Some d" "text_ok (any_prompt(r := ?A)) E (sobj sc2 x) (io sc2 x) d"
    "request_id (sobj sc2 x) = r"
    using sched_invD(1,3) assms(11) queues_okD(8) planner_invD(3) by metis
  let ?g = "dt_tokens (d ! 0)"
  have t: "append_tokens (decode_text E) ?g sequence_init = (d ! 0, io_text (io sc2 x))" "d = [d ! 0]"
    using d(2) by (auto simp: text_ok_def length_Suc_conv)
  have "io_text (io sc2 x) = detok_decode (decode_text E) (take (read_offset (d ! 0)) ?g)" if "window_law (decode_text E)"
    using append_tokens_emitted [OF that emitted_init t(1)] by (simp add: emitted_ok_def)
  then show ?thesis using d t by (intro exI [of _ "take (length (tokens (sobj sc2 x)) - length ?g) (tokens (sobj sc2 x))"]
    exI [of _ ?g] exI [of _ "d ! 0"]) (auto simp: text_ok_def)
qed

theorem text_is_decoding_witness:
  "window_law decode2 \<and> (\<exists>sc sc1 sc2 sc3 adv1 adv2. demo_scheduler = Inr sc \<and>
     sched_add_request demo_E 0 [] None (Some ''a'') (Some [5, 6, 7]) False 0 sc = (sc1, Inr ()) \<and>
     step demo_E sc1 = Inr (sc2, adv1) \<and> step demo_E sc2 = Inr (sc3, adv2) \<and>
     tokens (sobj sc3 0) = [5, 6, 7] @ [65, 65] \<and> io_text (io sc3 0) = decode2 [65, 65] \<and> io_text (io sc3 0) = [65, 65])"
proof -
  obtain sc sc1 where s: "demo_scheduler = Inr sc" "sched_reachable demo_E sc"
    "sched_add_request demo_E 0 [] None (Some ''a'') (Some [5, 6, 7]) False 0 sc = (sc1, Inr ())"
    by (rule demo_scheduler_submitted) (rule that)
  have "case demo_scheduler of Inl e \<Rightarrow> False | Inr sc \<Rightarrow>
      live (sc_planner sc) = [] \<and> tokenizing sc = [] \<and> (case sched_add_request demo_E 0 [] None (Some ''a'') (Some [5, 6, 7]) False 0 sc of
      (sc1, _) \<Rightarrow> request_id (sobj sc1 0) = ''a'' \<and> live (sc_planner sc1) = [(''a'', 0)] \<and> (case step demo_E sc1 of Inl e \<Rightarrow> False | Inr (sc2, _) \<Rightarrow>
      live (sc_planner sc2) = [(''a'', 0)] \<and> (case step demo_E sc2 of Inl e \<Rightarrow> False | Inr (sc3, _) \<Rightarrow>
      live (sc_planner sc3) = [(''a'', 0)] \<and> tokens (sobj sc3 0) = [5, 6, 7, 65, 65])))" by code_simp
  then have v: "live (sc_planner sc) = []" "tokenizing sc = []" "request_id (sobj sc1 0) = ''a''" "live (sc_planner sc1) = [(''a'', 0)]"
    "case step demo_E sc1 of Inl e \<Rightarrow> False | Inr (sc2, _) \<Rightarrow>
      live (sc_planner sc2) = [(''a'', 0)] \<and> (case step demo_E sc2 of Inl e \<Rightarrow> False | Inr (sc3, _) \<Rightarrow>
      live (sc_planner sc3) = [(''a'', 0)] \<and> tokens (sobj sc3 0) = [5, 6, 7, 65, 65])"
    unfolding s(1,3) sum.case prod.case by blast+
  obtain sc2 adv1 where s2: "step demo_E sc1 = Inr (sc2, adv1)" using v(5) by (cases "step demo_E sc1") auto
  note v2 = v(5) [unfolded s2 sum.case prod.case]
  obtain sc3 adv2 where s3: "step demo_E sc2 = Inr (sc3, adv2)" using v2 by (cases "step demo_E sc2") auto
  note v3 = v2 [unfolded s3 sum.case prod.case]
  have "sched_life demo_E ''a'' 0 sc1 sc1" by (rule sched_life.start) (simp add: known_def v(4))
  then have "sched_life demo_E ''a'' 0 sc1 sc2"
    by (rule sched_life.step [OF _ sched_step.step [OF s2]]) (simp add: known_def v2)
  then have l: "sched_life demo_E ''a'' 0 sc1 sc3"
    by (rule sched_life.step [OF _ sched_step.step [OF s3]]) (simp add: known_def v3)
  have "\<forall>ts. Some [5, 6, 7] = Some ts \<longrightarrow> tokens_ok ts" by (simp add: tokens_ok_def)
  from text_is_decoding [OF s(2) demo_E_ok(3,1,2) _ _ this s(3) v(3) [symmetric] l]
  obtain ts generated d where g: "ts \<in> prompts_of demo_E sc 0 [] (Some [5, 6, 7])" "tokens (sobj sc3 0) = ts @ generated"
    "append_tokens decode2 generated sequence_init = (d, io_text (io sc3 0))"
    using v(1,2) v3 unfolding demo_E_ok(4) by (auto simp: idle_def)
  have "ts = [5, 6, 7]" using g(1) by (simp add: prompts_of_def prompt_is_def)
  then have "generated = [65, 65]" using g(2) v3 by simp
  moreover have "snd (append_tokens decode2 [65, 65] sequence_init) = [65, 65] \<and> decode2 [65, 65] = [65, 65]" by code_simp
  ultimately show ?thesis using g(3) s(1,3) s2 s3 v3 decode2_window by auto
qed

text \<open>C9: submission. In every reachable state, submitting a new request either raises \<^verbatim>\<open>ValueError\<close> or the
  tokenizer's error, and then the whole scheduler is as it was (queues, live requests, encodes, detokenizers, cache, every other
  request) but for the id counter and the rejected object; or it adds exactly one request under an id that was not in use in any
  phase, the given one if there was one: with its prompt, at the end of the waiting queue and of the live table, with a new
  detokenizer, or with no prompt yet at the end of the encodes; and nothing else changes. The loop that draws ids always ends:
  one more draw than there are ids in use finds a free one.\<close>

theorem submit_exact:
  assumes "sched_reachable E sc" "digest8 (digest (penv E))" "device_ok E" "tokenizer_ok E"
    and "idle sc x" "\<forall>j \<in> set (tokenizing sc). tj_request (snd j) \<noteq> x" "\<forall>ts. tokens_opt = Some ts \<longrightarrow> tokens_ok ts"
  shows "case sched_add_request E x prompt params rid_opt tokens_opt on_error now sc of
      (sc', Inl e) \<Rightarrow> (e = ValueError \<or> tokens_opt = None \<and> encode_text E prompt = Inl e) \<and> sc' = only_object x sc sc'
    | (sc', Inr _) \<Rightarrow> submitted E x prompt rid_opt tokens_opt on_error sc sc'"
proof -
  have i: "sync_inv any_prompt E sc" "jobs_ok sc" using sched_reachable_inv [OF assms(1-4)] by blast+
  obtain sc' res where r: "sched_add_request E x prompt params rid_opt tokens_opt on_error now sc = (sc', res)"
    by (cases "sched_add_request E x prompt params rid_opt tokens_opt on_error now sc")
  show ?thesis using sched_add_ok(4) [OF i assms(4-7) r admits_any] by (simp add: r split: sum.splits)
qed

theorem submit_exact_witness:
  "\<exists>sc sc' sc''. demo_scheduler = Inr sc \<and>
     sched_add_request demo_E 0 [] None (Some ''a'') (Some [5, 6, 7]) False 0 sc = (sc', Inr ()) \<and>
     submitted demo_E 0 [] (Some ''a'') (Some [5, 6, 7]) False sc sc' \<and> live (sc_planner sc') = [(''a'', 0)] \<and>
     sched_add_request demo_E 1 [] None (Some ''a'') (Some [9]) False 0 sc' = (sc'', Inl ValueError) \<and> sc'' = only_object 1 sc' sc''"
proof -
  obtain sc sc' where s: "demo_scheduler = Inr sc" "sched_reachable demo_E sc" "sched_reachable demo_E sc'"
    "map_of (live (sc_planner sc')) ''a'' = Some 0"
    "sched_add_request demo_E 0 [] None (Some ''a'') (Some [5, 6, 7]) False 0 sc = (sc', Inr ())"
    by (rule demo_scheduler_submitted) (rule that)
  have "case demo_scheduler of Inl e \<Rightarrow> False | Inr sc \<Rightarrow>
      live (sc_planner sc) = [] \<and> tokenizing sc = [] \<and> (case sched_add_request demo_E 0 [] None (Some ''a'') (Some [5, 6, 7]) False 0 sc of
      (sc1, _) \<Rightarrow> live (sc_planner sc1) = [(''a'', 0)] \<and> tokenizing sc1 = [])" by code_simp
  then have e: "live (sc_planner sc) = []" "tokenizing sc = []" "live (sc_planner sc') = [(''a'', 0)]" "tokenizing sc' = []"
    unfolding s(1,5) sum.case prod.case by blast+
  have "submitted demo_E 0 [] (Some ''a'') (Some [5, 6, 7]) False sc sc'"
    using submit_exact [OF s(2) demo_E_ok(3,1,2), where x = 0 and tokens_opt = "Some [5, 6, 7]" and prompt = "[]" and
        params = None and rid_opt = "Some ''a''" and on_error = False and now = 0] s(5) e(1,2)
    by (simp add: idle_def tokens_ok_def)
  moreover obtain sc'' where a: "sched_add_request demo_E 1 [] None (Some ''a'') (Some [9]) False 0 sc' = (sc'', Inl ValueError)"
    using s(4) by (simp add: sched_add_request_def request_id_in_use_def has_request_id_def)
  moreover have "sc'' = only_object 1 sc' sc''"
    using submit_exact [OF s(3) demo_E_ok(3,1,2), where x = 1 and tokens_opt = "Some [9]" and prompt = "[]" and
        params = None and rid_opt = "Some ''a''" and on_error = False and now = 0] a e(3,4)
    by (simp add: idle_def tokens_ok_def)
  ultimately show ?thesis using s(1,5) e(3) by blast
qed

section \<open>Speculative decoding\<close>

text \<open>Greedy decoding with a model that maps the tokens so far to the next one.\<close>

primrec greedy :: "(int list \<Rightarrow> int) \<Rightarrow> nat \<Rightarrow> int list \<Rightarrow> int list" where
  "greedy f 0 ts = []"
| "greedy f (Suc n) ts = f ts # greedy f n (ts @ [f ts])"

text \<open>What the verify pass returns for one request: the argmax after its tokens and after each prefix of its drafts.\<close>

definition verify_rows :: "(int list \<Rightarrow> int) \<Rightarrow> int list \<Rightarrow> int list \<Rightarrow> int list" where
  "verify_rows f ts ds = map (\<lambda>j. f (ts @ take j ds)) [0..<length ds + 1]"

lemma verify_rows_Cons: "verify_rows f ts (d # ds) = f ts # verify_rows f (ts @ [d]) ds"
  by (simp add: verify_rows_def upt_rec [of 0] map_Suc_upt [symmetric] o_def del: upt_Suc)

lemma accepted_greedy:
  "length rows = Suc (length ds) \<Longrightarrow> rows = verify_rows f ts ds \<Longrightarrow>
     \<exists>n. count_accepted rows ds = Inr n \<and> n \<le> length ds \<and> take n ds @ [rows ! n] = greedy f (Suc n) ts"
proof (induction ds arbitrary: rows ts)
  case Nil
  then show ?case by (simp add: verify_rows_def)
next
  case (Cons d ds)
  obtain rs where r: "rows = f ts # rs" "rs = verify_rows f (ts @ [d]) ds" using Cons.prems(2) by (simp add: verify_rows_Cons)
  show ?case
  proof (cases "f ts = d")
    case True
    obtain n where "count_accepted rs ds = Inr n" "n \<le> length ds" "take n ds @ [rs ! n] = greedy f (Suc n) (ts @ [d])"
      using Cons.IH [OF _ r(2)] Cons.prems(1) r(1) by auto
    then show ?thesis using True r(1) by (intro exI [of _ "Suc n"]) simp
  next
    case False
    then show ?thesis using r(1) by (intro exI [of _ 0]) simp
  qed
qed

text \<open>C8: speculation is lossless for greedy decoding. When the verify pass returns, for each drafted request, the argmax
  after its tokens and after each prefix of its drafts, then what is emitted for that request is a non-empty run of at most
  one token more than its drafts, exactly the tokens greedy decoding from its own tokens would produce, in order; drafts
  are accepted or not without any influence on what is emitted.\<close>

theorem speculation_lossless:
  assumes "rows = concat (map (\<lambda>(x, ds). verify_rows f (tokens (st x)) ds) drafts)"
  shows "\<exists>ns. length ns = length drafts \<and> (\<forall>i < length drafts. 1 \<le> ns ! i \<and> ns ! i \<le> length (snd (drafts ! i)) + 1) \<and>
    accept_all rows drafts = Inr (concat (map (\<lambda>((x, ds), n). map (\<lambda>t. (x, t, None)) (greedy f n (tokens (st x)))) (zip drafts ns)))"
  using assms
proof (induction drafts arbitrary: rows)
  case Nil
  then show ?case by simp
next
  case (Cons d drafts)
  obtain x ds where d: "d = (x, ds)" by (cases d)
  let ?row = "verify_rows f (tokens (st x)) ds"
  have len: "length ?row = Suc (length ds)" by (simp add: verify_rows_def)
  obtain n where n: "count_accepted ?row ds = Inr n" "n \<le> length ds" "take n ds @ [?row ! n] = greedy f (Suc n) (tokens (st x))"
    using accepted_greedy [OF len refl] by blast
  have a: "accept_drafts ?row ds = Inr (greedy f (Suc n) (tokens (st x)))"
    using n len by (simp add: accept_drafts_def)
  define rest where "rest = concat (map (\<lambda>(x, ds). verify_rows f (tokens (st x)) ds) drafts)"
  obtain ns where ns: "length ns = length drafts" "\<forall>i < length drafts. 1 \<le> ns ! i \<and> ns ! i \<le> length (snd (drafts ! i)) + 1"
    "accept_all rest drafts = Inr (concat (map (\<lambda>((x, ds), n). map (\<lambda>t. (x, t, None)) (greedy f n (tokens (st x)))) (zip drafts ns)))"
    using Cons.IH [OF rest_def] by blast
  have rows: "rows = ?row @ rest" using Cons.prems by (simp add: d rest_def)
  have "take (length ds + 1) rows = ?row" "drop (length ds + 1) rows = rest" using len by (simp_all add: rows)
  then have "accept_all rows (d # drafts) = Inr (map (\<lambda>t. (x, t, None)) (greedy f (Suc n) (tokens (st x))) @
      concat (map (\<lambda>((x, ds), n). map (\<lambda>t. (x, t, None)) (greedy f n (tokens (st x)))) (zip drafts ns)))"
    using a ns(3) unfolding accept_all.simps d snd_conv fst_conv by (simp only: rbind_simps)
  then show ?case
    using n(2) ns(1,2) by (intro exI [of _ "Suc n # ns"]) (auto simp: d nth_Cons split: nat.split)
qed

definition demo_model :: "int list \<Rightarrow> int" where
  "demo_model ts = (if last ts = 4 then 3 else last ts + 1)"

theorem speculation_lossless_witness:
  "accept_all [8, 9, 3, 8] [(0, [8, 4]), (1, [])] = Inr [(0, 8, None), (0, 9, None), (1, 8, None)] \<and>
   (\<exists>ns. accept_all [8, 9, 3, 8] [(0, [8, 4]), (1, [])] =
     Inr (concat (map (\<lambda>((x, ds), n). map (\<lambda>t. (x, t, None)) (greedy demo_model n (tokens demo_request)))
       (zip [(0, [8, 4]), (1, [] :: int list)] ns))))"
proof
  show "accept_all [8, 9, 3, 8] [(0, [8, 4]), (1, [])] = Inr [(0, 8, None), (0, 9, None), (1, 8, None)]" by code_simp
  have r: "[8, 9, 3, 8] = concat (map (\<lambda>(x, ds). verify_rows demo_model (tokens ((\<lambda>_. demo_request) x)) ds) [(0 :: nat, [8, 4]), (1, [])])"
    by code_simp
  show "\<exists>ns. accept_all [8, 9, 3, 8] [(0, [8, 4]), (1, [])] =
     Inr (concat (map (\<lambda>((x, ds), n). map (\<lambda>t. (x, t, None)) (greedy demo_model n (tokens demo_request)))
       (zip [(0, [8, 4]), (1, [] :: int list)] ns)))"
    using speculation_lossless [OF r] by blast
qed

section \<open>The pipelined mode\<close>

text \<open>An idle replica in a data-parallel attention group raises. When the pipeline is on, nothing is live and nothing is in
  flight, the step does not return early because other replicas may have work; it decides to pop the oldest launched step,
  there is none, and \<^verbatim>\<open>popleft\<close> raises \<^verbatim>\<open>IndexError\<close>.\<close>

lemma idle_pipelined_raises:
  assumes "sched_inv any_prompt E sc" "digest8 (digest (penv E))" "live (sc_planner sc) = []" "inflight sc = []" "dp_attention E"
  shows "step_pipelined E sc = Inl IndexError"
proof -
  obtain P s where p: "plan (penv E) (sc_planner sc) = Inr (P, s)" "planner_inv (digest (penv E)) P" "plan_ok P s"
    "same_frame (sc_planner sc) P"
    using plan_total [OF sched_invD(1) [OF assms(1)] assms(2)] by blast
  have "live P = []" using p(4) assms(3) by (simp add: same_frame_def)
  then have "running P = []" using queues_okD(5) [OF planner_invD(3) [OF p(2)]] by (cases "running P") auto
  then have e: "sp_prefill s = []" "sp_decode s = []" using p(3) by (auto simp: plan_ok_def)
  then show ?thesis
    using p(1) assms(4,5) by (simp add: step_pipelined_def Let_def plan_is_empty_def step_passes_def)
qed

lemma harvest_one_appends:
  assumes r: "\<not> is_finished (sobj sc x)" and d: "map_of (detokenizers sc) (request_id (sobj sc x)) = Some d" "length d = 1"
    and t: "t \<notin> set (stop_token_ids sc)" and room: "Suc (seq_len (sobj sc x)) < max_seq_len (pconfig (sc_planner sc))"
      "int (length (output_token_ids (sobj sc x))) + 1 < max_new_tokens (sobj sc x)"
    and rep: "\<not> stop_on_repeat (io_params (io sc x))"
  shows "\<exists>sc' op'. appended_as E x t sc sc' \<and> harvest_one E now chk (x, t, l) (sc, op, adv) = Inr (sc', op', adv @ [x])"
proof -
  obtain sc2 sc5 op' where h: "appended_as E x t sc sc5"
    "harvest_one E now chk (x, t, l) (sc, op, adv) =
      (if t \<in> set (stop_token_ids sc) then rbind (sched_finish E x ''eos'' sc2) (\<lambda>sc3. Inr (sc3, op', adv @ [x]))
       else if \<not> has_room (sobj sc5 x) \<or> max_seq_len (pconfig (sc_planner sc5)) \<le> seq_len (sobj sc5 x)
       then rbind (sched_finish E x ''length'' sc5) (\<lambda>sc6. Inr (sc6, op', adv @ [x]))
       else if chk \<and> stop_on_repeat (io_params (io sc5 x)) \<and> detect_repetition (is_digit E) (io_text (io sc5 x)) 128 3
       then rbind (sched_finish E x ''repeat'' sc5) (\<lambda>sc6. Inr (sc6, op', adv @ [x]))
       else Inr (sc5, op', adv @ [x]))"
    using harvest_one_eq [OF r d, of E t now chk l op adv] by blast
  have "has_room (sobj sc5 x)" "seq_len (sobj sc5 x) < max_seq_len (pconfig (sc_planner sc5))" "\<not> stop_on_repeat (io_params (io sc5 x))"
    using h(1) room rep by (auto simp: appended_as_def emit_def has_room_def seq_len_def)
  then have "harvest_one E now chk (x, t, l) (sc, op, adv) = Inr (sc5, op', adv @ [x])"
    using t unfolding h(2) by (simp add: not_le)
  then show ?thesis using h(1) by blast
qed

text \<open>C38: evicting a request whose token is still on the device corrupts its bookkeeping. The pipeline refuses the preemption
  option, but the planner also evicts under memory pressure. When a request with a launched, unread token is evicted and the
  token is harvested, it is appended to a request that is back in the queue, whose recomputation will sample it again; its
  count of outstanding tokens drops below zero, so later decode rows are placed one row early; and the planner's state is
  no longer well formed.\<close>

theorem evicted_in_flight_corrupts:
  assumes pi: "planner_inv (digest (penv E)) (sc_planner sc)" and x: "x \<in> set (running (sc_planner sc))"
    and d: "map_of (detokenizers sc) (request_id (sobj sc x)) = Some d" "length d = 1"
    and t: "t \<notin> set (stop_token_ids sc)" and room: "seq_len (sobj sc x) + 1 < max_seq_len (pconfig (sc_planner sc))"
      "int (length (output_token_ids (sobj sc x))) + 1 < max_new_tokens (sobj sc x)"
    and rep: "\<not> stop_on_repeat (io_params (io sc x))"
    and la: "sw_requests (la_work la) = [x]" "la_tokens la = [t]" "la_logprobs la = None"
  shows "\<exists>P' sc'. preempt x (sc_planner sc) = Inr P' \<and> harvest_launched E la (sc\<lparr>sc_planner := P'\<rparr>, []) = Inr (sc', [x]) \<and>
    map_of (waiting (sc_planner sc')) (request_id (sobj sc x)) = Some x \<and> status (sobj sc' x) = WAITING \<and>
    output_token_ids (sobj sc' x) = [t] \<and> pending_tokens (sobj sc' x) = -1 \<and> \<not> planner_inv (digest (penv E)) (sc_planner sc')"
proof -
  let ?P = "sc_planner sc" and ?rid = "request_id (sobj sc x)"
  obtain pc s where p: "preempt x ?P = Inr (preempted x s pc ?P)" by (rule preempt_ok [OF pi x]) (rule that)
  have lx: "map_of (live ?P) ?rid = Some x" by (rule queues_okD(5) [OF planner_invD(3) [OF pi] x])
  let ?P' = "preempted x s pc ?P"
  define sc2 where "sc2 = upd_sobj x (\<lambda>r. r\<lparr>pending_tokens := pending_tokens r - 1\<rparr>) (sc\<lparr>sc_planner := ?P'\<rparr>)"
  define sc3 where "sc3 = sc2\<lparr>sc_planner := (sc_planner sc2)\<lparr>ticks := ticks (sc_planner sc2) + 1\<rparr>\<rparr>"
  have o: "sobj sc2 x = (recomputed (sobj sc x))\<lparr>pending_tokens := -1\<rparr>" "sobj sc3 x = sobj sc2 x"
    by (simp_all add: sc2_def sc3_def preempted_def) (simp add: recomputed_def)
  have f: "stop_token_ids sc3 = stop_token_ids sc" "detokenizers sc3 = detokenizers sc" "io sc3 = io sc"
    "pconfig (sc_planner sc3) = pconfig ?P" "waiting (sc_planner sc3) = (?rid, x) # AList.delete ?rid (waiting ?P)"
    by (simp_all add: sc3_def sc2_def preempted_def)
  have r: "\<not> is_finished (sobj sc3 x)" "\<not> is_finished (sobj sc2 x)" "request_id (sobj sc3 x) = ?rid" "status (sobj sc3 x) = WAITING"
    "output_token_ids (sobj sc3 x) = []" "pending_tokens (sobj sc3 x) = -1" "seq_len (sobj sc3 x) = seq_len (sobj sc x)"
    "max_new_tokens (sobj sc3 x) = max_new_tokens (sobj sc x) - int (length (output_token_ids (sobj sc x)))"
    unfolding o by (simp_all add: recomputed_def is_finished_def seq_len_def tokens_def)
  obtain sc' op' where h: "appended_as E x t sc3 sc'"
    "harvest_one E (clock (penv E) (ticks (sc_planner sc2))) (step_count sc2 mod POLL_INTERVAL = 0) (x, t, None) (sc3, [], []) = Inr (sc', op', [] @ [x])"
    using harvest_one_appends [where sc = sc3 and x = x and t = t and d = d and op = "[]" and adv = "[]" and l = None] r d t room rep
    unfolding f by force
  have e: "emitted_of la (sc\<lparr>sc_planner := ?P'\<rparr>, []) = Inr (sc\<lparr>sc_planner := ?P'\<rparr>, [(x, t, None)])"
    by (simp add: emitted_of_def la zip_records_def sampled_records_def)
  have "settle_one (x, t, None) (sc\<lparr>sc_planner := ?P'\<rparr>, []) = (sc2, [(x, t, None)])"
    unfolding settle_one_def prod.case fst_conv sc2_def [symmetric] Let_def using r(2) by simp
  then have "fold settle_one [(x, t, None)] (sc\<lparr>sc_planner := ?P'\<rparr>, []) = (sc2, [(x, t, None)])" by simp
  moreover have "harvest E [(x, t, None)] sc2 = Inr (sc', [x])"
    unfolding harvest_def monotonic_def prod.case sc3_def [symmetric] rfold.simps h(2) rbind_simps by simp
  ultimately have hl: "harvest_launched E la (sc\<lparr>sc_planner := ?P'\<rparr>, []) = Inr (sc', [x])"
    unfolding harvest_launched_def prod.case e rbind_simps by simp
  have o': "output_token_ids (sobj sc' x) = [t]" "status (sobj sc' x) = WAITING" "pending_tokens (sobj sc' x) = -1"
    "waiting (sc_planner sc') = (?rid, x) # AList.delete ?rid (waiting ?P)"
    using h(1) r f by (auto simp: appended_as_def emit_def)
  have w: "map_of (waiting (sc_planner sc')) ?rid = Some x" by (simp add: o'(4))
  have "\<not> planner_inv (digest (penv E)) (sc_planner sc')"
    using queues_okD(7) [OF planner_invD(3) w] o'(1) by auto
  then show ?thesis using p hl w o' by blast
qed

theorem evicted_in_flight_corrupts_witness:
  "\<exists>sc la P' sc'. planner_inv (digest (penv demo_E)) (sc_planner sc) \<and> running (sc_planner sc) = [0] \<and> sw_requests (la_work la) = [0] \<and> la_tokens la = [65] \<and>
     preempt 0 (sc_planner sc) = Inr P' \<and> harvest_launched demo_E la (sc\<lparr>sc_planner := P'\<rparr>, []) = Inr (sc', [0]) \<and>
     status (sobj sc' 0) = WAITING \<and> output_token_ids (sobj sc' 0) = [65] \<and> pending_tokens (sobj sc' 0) = -1"
proof -
  obtain P where P: "demo_run = Inr P" "reachable demo_env P" "running P = [0]" "pconfig P = demo_config" "seq_len (objs P 0) = 3"
    "request_id (objs P 0) = ''a''"
    by (rule demo_state)
  have "case demo_run of Inr P \<Rightarrow> live P = [(''a'', 0)] \<and> max_new_tokens (objs P 0) = 4 \<and> output_token_ids (objs P 0) = []
    | Inl e \<Rightarrow> False" by code_simp
  then have l: "live P = [(''a'', 0)]" "max_new_tokens (objs P 0) = 4" "output_token_ids (objs P 0) = []"
    unfolding P(1) sum.case by blast+
  obtain sc0 where sc0: "demo_scheduler = Inr sc0" by (rule demo_scheduler_start) (rule that)
  let ?sc = "sc0\<lparr>sc_planner := P, detokenizers := [(''a'', detok_init 1)], stop_token_ids := [2],
    io := (\<lambda>x. new_request_io (default_params\<lparr>stop_on_repeat := False\<rparr>))\<rparr>"
  have e: "penv demo_E = demo_env" by (simp add: demo_E_def demo_senv_def)
  have inv: "planner_inv (digest (penv demo_E)) (sc_planner ?sc)" using reachable_inv [OF P(2) demo_digest] by (simp add: e)
  have d: "map_of (detokenizers ?sc) (request_id (sobj ?sc 0)) = Some (detok_init 1)" "length (detok_init 1) = 1"
    using P(6) by (simp_all add: detok_init_def)
  define la :: launched where
    "la = \<lparr>la_work = \<lparr>sw_plan = undefined, sw_requests = [0], sw_chunk_requests = []\<rparr>, la_tokens = [65], la_logprobs = None\<rparr>"
  have la: "sw_requests (la_work la) = [0]" "la_tokens la = [65]" "la_logprobs la = None" by (simp_all add: la_def)
  have "0 \<in> set (running (sc_planner ?sc))" "65 \<notin> set (stop_token_ids ?sc)"
    "seq_len (sobj ?sc 0) + 1 < max_seq_len (pconfig (sc_planner ?sc))"
    "int (length (output_token_ids (sobj ?sc 0))) + 1 < max_new_tokens (sobj ?sc 0)" "\<not> stop_on_repeat (io_params (io ?sc 0))"
    using P(3-5) l by (simp_all add: demo_config_def new_request_io_def)
  from evicted_in_flight_corrupts [OF inv this(1) d this(2-) la]
  obtain P' sc' where c: "preempt 0 (sc_planner ?sc) = Inr P'" "harvest_launched demo_E la (?sc\<lparr>sc_planner := P'\<rparr>, []) = Inr (sc', [0])"
    "status (sobj sc' 0) = WAITING" "output_token_ids (sobj sc' 0) = [65]" "pending_tokens (sobj sc' 0) = -1" by blast
  have "running (sc_planner ?sc) = [0]" using P(3) by simp
  then show ?thesis using inv la(1,2) c by blast
qed

end
