(* ===== verification/Dp_Controller.thy ===== *)
theory Dp_Controller
  imports Complex_Main Load_Policy
begin

text \<open>
  The controller of data-parallel serving (\<^verbatim>\<open>DataParallelController\<close> in \<^verbatim>\<open>src/rapid_llm/engine/data_parallel.py\<close>) with
  the commands and events of \<^verbatim>\<open>scheduler_ipc.py\<close>: it routes requests to replicas with a load policy, remembers where
  each active request went, forwards aborts there, and takes a request's charge back when it ends.

  A command queue is the list of the commands put on it; a put on a closed queue raises. A call returns the controller
  with everything changed so far, whether it returns or raises. The calls hold the route lock while they touch the
  routes, so one call is one step. Starting, joining and killing the processes is outside the model; what arrives from
  them is a list of polls of the event queue.
\<close>

section \<open>Commands and events\<close>

record 'p new_request =
  ar_request_id :: rid
  ar_prompt_token_ids :: "int list"
  ar_sampling_params :: 'p
  ar_arrival_time :: rat
  ar_stream :: bool

datatype 'p command =
    AddRequest "'p new_request"
  | AddRequestBatch "'p new_request list"
  | AbortRequest rid
  | UtilityRequest nat string
  | WakeScheduler
  | ShutdownScheduler

record 'l request_event =
  re_request_id :: rid
  re_new_token_ids :: "int list"
  re_finish_reason :: "string option"
  re_prompt_len :: nat
  re_delta_logprobs :: "'l option"
  re_prompt_logprobs :: "'l option list option"
  re_error :: "string option"

definition re_finished :: "'l request_event \<Rightarrow> bool" where
  "re_finished o1 = (re_finish_reason o1 \<noteq> None)"

record step_stats =
  ss_running :: nat
  ss_waiting :: nat
  ss_promoting :: nat
  ss_last_step_ms :: rat

record utility_event =
  ue_call_id :: nat
  ue_result :: "step_stats option"
  ue_failure_message :: "string option"

record ready_info =
  protocol_version :: int
  engine_version :: string
  ready_max_model_len :: int
  ready_num_gpu_blocks :: int
  ready_max_num_seqs :: int

datatype 'l event =
    ReplicaReady nat "ready_info option"
  | ReplicaFailed nat string
  | SchedulerFailed string
  | SchedulerEvents "'l request_event list" "utility_event option"
  | SchedulerReady ready_info

definition PROTOCOL_VERSION :: int where
  "PROTOCOL_VERSION = 2"

section \<open>The controller\<close>

record 'p channel =
  ch_sent :: "'p command list"
  ch_open :: bool

record 'p controller =
  dc_policy :: load_policy
  dc_routes :: "(rid, nat) dict"
  dc_channels :: "'p channel list"
  dc_closed :: bool
  dc_failure :: "string option"
  dc_dp_size :: nat
  dc_tp_size :: nat
  dc_dp_attention :: bool

definition dc_put :: "'p command \<Rightarrow> nat \<Rightarrow> ('p controller, unit) call" where
  "dc_put cmd k c =
     (let ch = dc_channels c ! k
      in if ch_open ch
         then (c\<lparr>dc_channels := (dc_channels c)[k := ch\<lparr>ch_sent := ch_sent ch @ [cmd]\<rparr>]\<rparr>, Inr ())
         else (c, Inl ValueError))"

definition send_replica :: "nat \<Rightarrow> 'p command \<Rightarrow> ('p controller, unit) call" where
  "send_replica k cmd =
     cbind (dc_put cmd k) (\<lambda>_ c.
       if dc_dp_attention c
       then cfor (dc_put WakeScheduler) (filter (\<lambda>peer. peer \<noteq> k) [0..<length (dc_channels c)]) c
       else (c, Inr ()))"

definition broadcast :: "'p command \<Rightarrow> ('p controller, unit) call" where
  "broadcast cmd c = cfor (dc_put cmd) [0..<length (dc_channels c)] c"

definition dc_release :: "rid \<Rightarrow> 'p controller \<Rightarrow> 'p controller" where
  "dc_release i c =
     (case map_of (dc_routes c) i of
        None \<Rightarrow> c
      | Some _ \<Rightarrow> c\<lparr>dc_routes := AList.delete i (dc_routes c), dc_policy := policy_release i (dc_policy c)\<rparr>)"

definition route_request :: "(bytes \<Rightarrow> bytes) \<Rightarrow> 'p new_request \<Rightarrow> ('p controller, nat) call" where
  "route_request D r c =
     (let ts = ar_prompt_token_ids r
      in case policy_select D (int (length ts)) (Some ts) (Some (ar_request_id r)) (dc_policy c) of
           (P, Inl e) \<Rightarrow> (c\<lparr>dc_policy := P\<rparr>, Inl e)
         | (P, Inr k) \<Rightarrow> (c\<lparr>dc_policy := P, dc_routes := AList.update (ar_request_id r) k (dc_routes c)\<rparr>, Inr k))"

primrec route_batch ::
  "(bytes \<Rightarrow> bytes) \<Rightarrow> 'p new_request list \<Rightarrow> 'p new_request list list \<Rightarrow> ('p controller, 'p new_request list list) call" where
  "route_batch D [] grouped c = (c, Inr grouped)"
| "route_batch D (r # rs) grouped c =
     cbind (route_request D r) (\<lambda>k. route_batch D rs (grouped[k := grouped ! k @ [r]])) c"

definition send_group :: "nat \<times> 'p new_request list \<Rightarrow> ('p controller, unit) call" where
  "send_group g c = (case g of (k, rs) \<Rightarrow>
     if rs = [] then (c, Inr ()) else send_replica k (AddRequestBatch rs) c)"

definition send_add_batch :: "(bytes \<Rightarrow> bytes) \<Rightarrow> 'p new_request list \<Rightarrow> ('p controller, unit) call" where
  "send_add_batch D rs c =
     (let ids = map ar_request_id rs
      in if \<not> distinct ids then (c, Inl ValueError)
         else if \<exists>i \<in> set ids. map_of (dc_routes c) i \<noteq> None then (c, Inl ValueError)
         else case route_batch D rs (replicate (dc_dp_size c) []) c of
           (c1, Inl e) \<Rightarrow> (c1, Inl e)
         | (c1, Inr grouped) \<Rightarrow>
             (case cfor send_group (zip [0..<length grouped] grouped) c1 of
                (c2, Inl e) \<Rightarrow> (fold dc_release ids c2, Inl e)
              | (c2, Inr _) \<Rightarrow> (c2, Inr ())))"

definition send_add :: "(bytes \<Rightarrow> bytes) \<Rightarrow> 'p new_request \<Rightarrow> ('p controller, unit) call" where
  "send_add D r c =
     (if map_of (dc_routes c) (ar_request_id r) \<noteq> None then (c, Inl ValueError)
      else case route_request D r c of
        (c1, Inl e) \<Rightarrow> (c1, Inl e)
      | (c1, Inr k) \<Rightarrow>
          (case send_replica k (AddRequest r) c1 of
             (c2, Inl e) \<Rightarrow> (dc_release (ar_request_id r) c2, Inl e)
           | (c2, Inr _) \<Rightarrow> (c2, Inr ())))"

definition send_abort :: "rid \<Rightarrow> ('p controller, unit) call" where
  "send_abort i c =
     (case map_of (dc_routes c) i of
        None \<Rightarrow> (c, Inr ())
      | Some k \<Rightarrow> cbind (send_replica k (AbortRequest i)) (\<lambda>_ c1. (dc_release i c1, Inr ())) c)"

definition dc_send :: "(bytes \<Rightarrow> bytes) \<Rightarrow> 'p command \<Rightarrow> ('p controller, unit) call" where
  "dc_send D cmd c =
     (if dc_closed c then (c, Inl RuntimeError)
      else if dc_failure c \<noteq> None then (c, Inl RuntimeError)
      else case cmd of
        AddRequestBatch rs \<Rightarrow> send_add_batch D rs c
      | AddRequest r \<Rightarrow> send_add D r c
      | AbortRequest i \<Rightarrow> send_abort i c
      | _ \<Rightarrow> broadcast cmd c)"

section \<open>Receiving\<close>

definition failure_message :: "nat \<Rightarrow> string \<Rightarrow> string" where
  "failure_message g msg = ''data-parallel rank '' @ decimal g @ '' failed:'' @ [char_of (10 :: nat)] @ msg"

definition handle_event :: "'l event \<Rightarrow> 'p controller \<Rightarrow> 'p controller \<times> 'l event" where
  "handle_event ev c =
     (case ev of
        ReplicaFailed g msg \<Rightarrow>
          (c\<lparr>dc_failure := Some (failure_message g msg)\<rparr>, SchedulerFailed (failure_message g msg))
      | SchedulerEvents outs _ \<Rightarrow>
          (fold (\<lambda>o1 c. if re_finished o1 \<or> re_error o1 \<noteq> None then dc_release (re_request_id o1) c else c) outs c, ev)
      | _ \<Rightarrow> (c, ev))"

text \<open>
  One turn of the receive loop: the deadline has passed before the wait, an event arrived, or the wait ran out; then the
  dead workers are looked at (the message names them) and the deadline once more.
\<close>

datatype 'l poll =
    Late
  | Got "'l event"
  | Quiet "string option" bool

fun dc_receive :: "'l poll list \<Rightarrow> 'p controller \<Rightarrow> ('p controller \<times> 'l event res) option" where
  "dc_receive [] c = None"
| "dc_receive (Late # ps) c = Some (c, Inl QueueEmpty)"
| "dc_receive (Got ev # ps) c = Some (apsnd Inr (handle_event ev c))"
| "dc_receive (Quiet dead late # ps) c =
     (if dead \<noteq> None \<and> \<not> dc_closed c then Some (c\<lparr>dc_failure := dead\<rparr>, Inl RuntimeError)
      else if late then Some (c, Inl QueueEmpty)
      else dc_receive ps c)"

text \<open>
  The startup loop. Each turn checks its own deadline and then receives; \<open>pending\<close> are the ranks that have not
  reported.
\<close>

definition ready_turn ::
  "'l poll list \<Rightarrow> nat list \<Rightarrow> ready_info option \<Rightarrow> 'p controller \<Rightarrow>
   (('p controller \<times> py_error) + (nat list \<times> ready_info option \<times> 'p controller)) option" where
  "ready_turn polls pending leader c =
     (case dc_receive polls c of
        None \<Rightarrow> None
      | Some (c1, Inl e) \<Rightarrow> Some (if e = QueueEmpty then Inr (pending, leader, c1) else Inl (c1, e))
      | Some (c1, Inr ev) \<Rightarrow> Some
          (case ev of
             SchedulerFailed msg \<Rightarrow> Inl (c1, RuntimeError)
           | ReplicaReady g None \<Rightarrow> Inr (removeAll g pending, leader, c1)
           | ReplicaReady g (Some info) \<Rightarrow>
               if protocol_version info \<noteq> PROTOCOL_VERSION then Inl (c1, RuntimeError)
               else Inr (removeAll g pending, Some (case leader of None \<Rightarrow> info | Some l \<Rightarrow> l), c1)
           | _ \<Rightarrow> Inr (pending, leader, c1)))"

fun await_ready ::
  "(bool \<times> 'l poll list) list \<Rightarrow> nat list \<Rightarrow> ready_info option \<Rightarrow> 'p controller \<Rightarrow> ('p controller \<times> ready_info res) option" where
  "await_ready [] pending leader c =
     (if pending = [] then Some (c, case leader of None \<Rightarrow> Inl RuntimeError | Some info \<Rightarrow> Inr info) else None)"
| "await_ready ((expired, polls) # env) pending leader c =
     (if pending = [] then Some (c, case leader of None \<Rightarrow> Inl RuntimeError | Some info \<Rightarrow> Inr info)
      else if expired then Some (c, Inl TimeoutError)
      else case ready_turn polls pending leader c of
        None \<Rightarrow> None
      | Some (Inl (c1, e)) \<Rightarrow> Some (c1, Inl e)
      | Some (Inr (pending1, leader1, c1)) \<Rightarrow> await_ready env pending1 leader1 c1)"

definition close_channel :: "'p channel \<Rightarrow> 'p channel" where
  "close_channel ch = ch\<lparr>ch_open := False\<rparr>"

definition dc_shutdown :: "(bytes \<Rightarrow> bytes) \<Rightarrow> 'p controller \<Rightarrow> 'p controller" where
  "dc_shutdown D c =
     (if dc_closed c then c
      else let c1 = fst (dc_send D ShutdownScheduler c)
           in c1\<lparr>dc_closed := True, dc_channels := map close_channel (dc_channels c1)\<rparr>)"

section \<open>Construction\<close>

record dc_options =
  op_device :: "string option"
  op_expert_parallel :: bool
  op_use_cuda_graph :: "bool option option"
  op_speculate :: string

definition lower_char :: "char \<Rightarrow> char" where
  "lower_char ch = (let n = of_char ch :: nat in if 65 \<le> n \<and> n \<le> 90 then char_of (n + 32) else ch)"

definition blank :: "char \<Rightarrow> bool" where
  "blank ch \<longleftrightarrow> (of_char ch :: nat) \<in> {9, 10, 11, 12, 13, 28, 29, 30, 31, 32, 133, 160}"

definition strip :: "string \<Rightarrow> string" where
  "strip s = rev (dropWhile blank (rev (dropWhile blank s)))"

definition controller_init ::
  "int \<Rightarrow> int \<Rightarrow> string \<Rightarrow> bool \<Rightarrow> dc_options \<Rightarrow> int \<Rightarrow> 'p controller res" where
  "controller_init dp tp balancer dp_attention opts visible =
     (if dp < 1 then Inl ValueError
      else if tp < 1 then Inl ValueError
      else if op_device opts \<noteq> None \<and> op_device opts \<noteq> Some ''cpu'' then Inl ValueError
      else if balancer \<notin> {''round_robin'', ''total_requests'', ''total_tokens'', ''cache_aware''} then Inl ValueError
      else if dp_attention \<and> dp \<le> 1 then Inl ValueError
      else if dp_attention \<and> \<not> op_expert_parallel opts then Inl ValueError
      else if dp_attention \<and> (case op_use_cuda_graph opts of None \<Rightarrow> True | Some None \<Rightarrow> False | Some (Some b) \<Rightarrow> b) then Inl ValueError
      else if dp_attention \<and> map lower_char (strip (op_speculate opts)) \<in> {''1'', ''true'', ''on''} then Inl ValueError
      else if op_device opts \<noteq> Some ''cpu'' \<and> dp * tp > visible then Inl ValueError
      else rbind (create_load_policy balancer dp) (\<lambda>P. Inr
        \<lparr>dc_policy = P, dc_routes = [], dc_channels = replicate (nat dp) \<lparr>ch_sent = [], ch_open = True\<rparr>,
         dc_closed = False, dc_failure = None, dc_dp_size = nat dp, dc_tp_size = nat tp,
         dc_dp_attention = dp_attention\<rparr>))"

text \<open>The grid of worker processes: global rank, replica and rank within the replica; a replica shares its queue.\<close>

definition worker_grid :: "'p controller \<Rightarrow> (nat \<times> nat \<times> nat) list" where
  "worker_grid c = map (\<lambda>g. (g, g div dc_tp_size c, g mod dc_tp_size c)) [0..<dc_dp_size c * dc_tp_size c]"

section \<open>Blocking generation\<close>

record 'l gathering =
  co_tokens :: "(rid, int list) dict"
  co_logprobs :: "(rid, 'l list) dict"
  co_prompt_logprobs :: "(rid, 'l option list) dict"
  co_reasons :: "(rid, string option) dict"
  co_pending :: "rid list"

definition collected_init :: "rid list \<Rightarrow> 'l gathering" where
  "collected_init ids =
     \<lparr>co_tokens = map (\<lambda>i. (i, [])) ids, co_logprobs = map (\<lambda>i. (i, [])) ids, co_prompt_logprobs = [],
      co_reasons = [], co_pending = remdups ids\<rparr>"

definition dict_get :: "'v \<Rightarrow> ('k, 'v) dict \<Rightarrow> 'k \<Rightarrow> 'v" where
  "dict_get d0 d k = (case map_of d k of None \<Rightarrow> d0 | Some v \<Rightarrow> v)"

definition collect_output :: "'l request_event \<Rightarrow> ('l gathering, unit) call" where
  "collect_output o1 st =
     (let i = re_request_id o1
      in if map_of (co_tokens st) i = None then (st, Inr ())
         else
           let st1 = st\<lparr>co_tokens := AList.update i (dict_get [] (co_tokens st) i @ re_new_token_ids o1) (co_tokens st)\<rparr>;
               st2 = (case re_delta_logprobs o1 of None \<Rightarrow> st1
                 | Some l \<Rightarrow> st1\<lparr>co_logprobs := AList.update i (dict_get [] (co_logprobs st1) i @ [l]) (co_logprobs st1)\<rparr>);
               st3 = (case re_prompt_logprobs o1 of None \<Rightarrow> st2
                 | Some ls \<Rightarrow> st2\<lparr>co_prompt_logprobs := AList.update i ls (co_prompt_logprobs st2)\<rparr>)
           in if re_error o1 \<noteq> None then (st3, Inl ValueError)
              else if re_finished o1
              then (st3\<lparr>co_reasons := AList.update i (re_finish_reason o1) (co_reasons st3),
                        co_pending := removeAll i (co_pending st3)\<rparr>, Inr ())
              else (st3, Inr ()))"

fun gather :: "'l poll list list \<Rightarrow> 'l gathering \<Rightarrow> 'p controller \<Rightarrow> ('p controller \<times> 'l gathering \<times> unit res) option" where
  "gather env st c =
     (if co_pending st = [] then Some (c, st, Inr ())
      else case env of
        [] \<Rightarrow> None
      | polls # env' \<Rightarrow>
          (case dc_receive polls c of
             None \<Rightarrow> None
           | Some (c1, Inl e) \<Rightarrow> Some (c1, st, Inl e)
           | Some (c1, Inr ev) \<Rightarrow>
               (case ev of
                  SchedulerFailed msg \<Rightarrow> Some (c1, st, Inl RuntimeError)
                | SchedulerEvents outs _ \<Rightarrow>
                    (case cfor collect_output outs st of
                       (st1, Inl e) \<Rightarrow> Some (c1, st1, Inl e)
                     | (st1, Inr _) \<Rightarrow> gather env' st1 c1)
                | _ \<Rightarrow> gather env' st c1)))"

declare gather.simps [simp del]

record 'l completion =
  cm_prompt :: string
  cm_text :: string
  cm_finish_reason :: "string option"
  cm_logprobs :: "'l list option"
  cm_prompt_logprobs :: "'l option list option"

definition completion_of :: "(int list \<Rightarrow> string) \<Rightarrow> 'l gathering \<Rightarrow> string \<times> rid \<Rightarrow> 'l completion" where
  "completion_of decode st pr = (case pr of (prompt, i) \<Rightarrow>
     \<lparr>cm_prompt = prompt, cm_text = decode (dict_get [] (co_tokens st) i), cm_finish_reason = dict_get None (co_reasons st) i,
      cm_logprobs = (let l = dict_get [] (co_logprobs st) i in if l = [] then None else Some l),
      cm_prompt_logprobs = map_of (co_prompt_logprobs st) i\<rparr>)"

definition abort_all :: "(bytes \<Rightarrow> bytes) \<Rightarrow> rid list \<Rightarrow> 'p controller \<Rightarrow> 'p controller" where
  "abort_all D ids c = fold (\<lambda>i c. fst (dc_send D (AbortRequest i) c)) ids c"

text \<open>
  \<^verbatim>\<open>generate\<close> for a list of prompts: \<open>n\<close> is the number of request ids drawn before, the tokenizer is a parameter, and
  \<open>None\<close> means that the events run out while a request is pending.
\<close>

definition dc_generate ::
  "(bytes \<Rightarrow> bytes) \<Rightarrow> (string \<Rightarrow> int list) \<Rightarrow> (int list \<Rightarrow> string) \<Rightarrow> 'p \<Rightarrow> bool \<Rightarrow> rat \<Rightarrow> nat \<Rightarrow> string list \<Rightarrow>
   'l poll list list \<Rightarrow> 'p controller \<Rightarrow> ('p controller \<times> 'l completion list res) option" where
  "dc_generate D encode decode params logprobs now n prompts env c =
     (if prompts = [] then Some (c, Inr [])
      else
        let ids = map (\<lambda>k. ''batch-'' @ decimal k) [n..<n + length prompts];
            requests = map (\<lambda>(i, p). \<lparr>ar_request_id = i, ar_prompt_token_ids = encode p, ar_sampling_params = params,
              ar_arrival_time = now, ar_stream = logprobs\<rparr>) (zip ids prompts)
        in case dc_send D (AddRequestBatch requests) c of
             (c1, Inl e) \<Rightarrow> Some (abort_all D ids c1, Inl e)
           | (c1, Inr _) \<Rightarrow>
               (case gather env (collected_init ids) c1 of
                  None \<Rightarrow> None
                | Some (c2, st, Inl e) \<Rightarrow> Some (abort_all D ids c2, Inl e)
                | Some (c2, st, Inr _) \<Rightarrow> Some (c2, Inr (map (completion_of decode st) (zip prompts ids)))))"

section \<open>The routes and the policy agree\<close>

definition ctl_ok :: "'p controller \<Rightarrow> bool" where
  "ctl_ok c \<longleftrightarrow>
     policy_ok (dc_policy c) \<and> policy_size (dc_policy c) = dc_dp_size c \<and> length (dc_channels c) = dc_dp_size c \<and>
     dict_ok (dc_routes c) \<and> (\<forall>(i, k) \<in> set (dc_routes c). i \<noteq> [] \<and> k < dc_dp_size c) \<and>
     (tracks_load (dc_policy c) \<longrightarrow>
        (\<forall>i. map_option fst (map_of (policy_charges (dc_policy c)) i) = map_of (dc_routes c) i))"

lemma untracked_charges: "\<not> tracks_load P \<Longrightarrow> policy_charges P = []"
  by (cases P) (simp_all add: tracks_load_def policy_charges_def)

lemma ctl_ok_fresh: "ctl_ok c \<Longrightarrow> map_of (dc_routes c) i = None \<Longrightarrow> i \<notin> fst ` set (policy_charges (dc_policy c))"
  by (metis (no_types, lifting) ctl_ok_def empty_iff empty_set image_empty map_of_eq_None_iff
      option.map_disc_iff untracked_charges)

lemma ctl_ok_channels:
  "ctl_ok c \<Longrightarrow> length chs = dc_dp_size c \<Longrightarrow>
   ctl_ok (c\<lparr>dc_channels := chs\<rparr>)"
  "ctl_ok (c\<lparr>dc_failure := f\<rparr>) = ctl_ok c"
  "ctl_ok c \<Longrightarrow> length chs = dc_dp_size c \<Longrightarrow> ctl_ok (c\<lparr>dc_closed := b, dc_channels := chs\<rparr>)"
  by (simp_all add: ctl_ok_def)

text \<open>A put touches nothing but the queues, and they only grow.\<close>

definition sent_to :: "nat \<Rightarrow> 'p controller \<Rightarrow> 'p command list" where
  "sent_to k c = ch_sent (dc_channels c ! k)"

definition same_but_channels :: "'p controller \<Rightarrow> 'p controller \<Rightarrow> bool" where
  "same_but_channels c c' \<longleftrightarrow>
     dc_policy c' = dc_policy c \<and> dc_routes c' = dc_routes c \<and> dc_dp_size c' = dc_dp_size c \<and>
     dc_closed c' = dc_closed c \<and> dc_failure c' = dc_failure c \<and> dc_dp_attention c' = dc_dp_attention c \<and>
     length (dc_channels c') = length (dc_channels c) \<and>
     (\<forall>k < length (dc_channels c). set (sent_to k c) \<subseteq> set (sent_to k c'))"

lemma same_but_channels_refl [intro]: "same_but_channels c c"
  by (simp add: same_but_channels_def)

lemma same_but_channels_trans: "same_but_channels c c1 \<Longrightarrow> same_but_channels c1 c2 \<Longrightarrow> same_but_channels c c2"
  by (auto simp: same_but_channels_def)

lemma same_but_channels_sent:
  "same_but_channels c c' \<Longrightarrow> k < length (dc_channels c) \<Longrightarrow> set (sent_to k c) \<subseteq> set (sent_to k c')"
  by (simp add: same_but_channels_def)

lemma same_but_channelsD:
  assumes "same_but_channels c c'"
  shows "dc_policy c' = dc_policy c" "dc_routes c' = dc_routes c" "dc_dp_size c' = dc_dp_size c"
    "length (dc_channels c') = length (dc_channels c)" "dc_closed c' = dc_closed c" "dc_failure c' = dc_failure c"
    "dc_dp_attention c' = dc_dp_attention c"
  using assms by (auto simp: same_but_channels_def)

lemma same_but_channels_ok: "same_but_channels c c' \<Longrightarrow> ctl_ok c \<Longrightarrow> ctl_ok c'"
  by (auto simp: same_but_channels_def ctl_ok_def)

lemma dc_put_same: "same_but_channels c (fst (dc_put cmd k c))"
  by (cases "k < length (dc_channels c)")
    (auto simp: same_but_channels_def dc_put_def Let_def sent_to_def nth_list_update)

lemma cfor_same:
  assumes "\<And>x c. same_but_channels c (fst (f x c))"
  shows "same_but_channels c (fst (cfor f xs c))"
  by (rule cfor_invariant) (blast intro: same_but_channels_trans assms)+

lemma send_replica_same: "same_but_channels c (fst (send_replica k cmd c))"
proof -
  obtain c1 x where put: "dc_put cmd k c = (c1, x)" by (cases "dc_put cmd k c")
  then have c1: "same_but_channels c c1" using dc_put_same [of c cmd k] by simp
  show ?thesis
  proof (cases x)
    case (Inl e)
    then show ?thesis using put c1 by (simp add: send_replica_def cbind_def)
  next
    case (Inr u)
    have "same_but_channels c (fst (cfor (dc_put WakeScheduler) ks c1))" for ks
      by (rule same_but_channels_trans [OF c1 cfor_same]) (rule dc_put_same)
    then show ?thesis using Inr put c1 by (simp add: send_replica_def cbind_def)
  qed
qed

lemma broadcast_same: "same_but_channels c (fst (broadcast cmd c))"
  unfolding broadcast_def by (rule cfor_same) (rule dc_put_same)

lemma send_group_same: "same_but_channels c (fst (send_group g c))"
  by (cases g) (auto simp: send_group_def send_replica_same)

lemma dc_release_ok: "ctl_ok c \<Longrightarrow> ctl_ok (dc_release i c)"
proof (cases "map_of (dc_routes c) i")
  case (Some k)
  assume ok: "ctl_ok c"
  have "\<forall>(j, k) \<in> set (AList.delete i (dc_routes c)). j \<noteq> [] \<and> k < dc_dp_size c"
    using ok by (fastforce simp: ctl_ok_def AList.delete_eq)
  then show ?thesis
    using ok Some policy_release_ok [of "dc_policy c" i]
    by (auto simp: dc_release_def ctl_ok_def policy_release_charges distinct_delete delete_conv' fun_upd_def)
qed (simp add: dc_release_def)

lemma fold_release_ok: "ctl_ok c \<Longrightarrow> ctl_ok (fold dc_release is c)"
  by (induction "is" arbitrary: c) (simp_all add: dc_release_ok)

lemma dc_release_routes: "map_of (dc_routes (dc_release i c)) = (map_of (dc_routes c))(i := None)"
  by (auto simp: dc_release_def delete_conv' split: option.split)

lemma fold_release_routes:
  "map_of (dc_routes (fold dc_release is c)) = (\<lambda>i. if i \<in> set is then None else map_of (dc_routes c) i)"
  by (induction "is" arbitrary: c) (auto simp: dc_release_routes fun_eq_iff)

lemma dc_release_other [simp]:
  "dc_channels (dc_release i c) = dc_channels c" "dc_dp_size (dc_release i c) = dc_dp_size c"
  "dc_closed (dc_release i c) = dc_closed c" "dc_failure (dc_release i c) = dc_failure c"
  by (simp_all add: dc_release_def split: option.split)

lemma fold_release_other [simp]:
  "dc_channels (fold dc_release is c) = dc_channels c" "dc_dp_size (fold dc_release is c) = dc_dp_size c"
  by (induction "is" arbitrary: c) simp_all

lemma map_of_snoc: "map_of xs i = None \<Longrightarrow> map_of (xs @ [(i, k)]) = (map_of xs)(i \<mapsto> k)"
  by (metis map_of_eq_None_iff update_conv' update_fresh_set)

lemma route_request_ok:
  assumes "ctl_ok c" "ar_request_id r \<noteq> []" "map_of (dc_routes c) (ar_request_id r) = None"
    and "route_request D r c = (c', x)"
  shows "ctl_ok c' \<and> dc_channels c' = dc_channels c \<and> dc_dp_size c' = dc_dp_size c \<and>
    (case x of Inl e \<Rightarrow> dc_routes c' = dc_routes c
     | Inr k \<Rightarrow> k < dc_dp_size c \<and> dc_routes c' = dc_routes c @ [(ar_request_id r, k)])"
proof -
  let ?i = "ar_request_id r" and ?P = "dc_policy c"
  obtain P' where s: "policy_select D (int (length (ar_prompt_token_ids r))) (Some (ar_prompt_token_ids r)) (Some ?i) ?P = (P', x)"
    and c': "c' = (case x of Inl e \<Rightarrow> c\<lparr>dc_policy := P'\<rparr>
        | Inr k \<Rightarrow> c\<lparr>dc_policy := P', dc_routes := AList.update ?i k (dc_routes c)\<rparr>)"
    using assms(4) by (auto simp: route_request_def Let_def split: prod.splits sum.splits)
  have P: "policy_ok ?P" "policy_size ?P = dc_dp_size c" using assms(1) by (simp_all add: ctl_ok_def)
  have fresh: "?i \<notin> fst ` set (dc_routes c)" using assms(3) by (simp add: map_of_eq_None_iff)
  have sel: "policy_ok P' \<and> policy_size P' = policy_size ?P \<and> tracks_load P' = tracks_load ?P"
    by (rule policy_select_ok [OF P(1) _ s]) (use ctl_ok_fresh [OF assms(1,3)] assms(2) in simp)
  show ?thesis
  proof (cases x)
    case (Inl e)
    then show ?thesis using assms(1) sel policy_select_raises [of D _ _ _ ?P P' e] s by (auto simp: c' ctl_ok_def)
  next
    case (Inr k)
    note route = policy_select_route [OF P(1) s [unfolded Inr]]
    have m: "map_of (dc_routes c @ [(?i, k)]) = (map_of (dc_routes c))(?i \<mapsto> k)"
      by (rule map_of_snoc [OF assms(3)])
    show ?thesis
      using assms(1,2) sel route P fresh
      by (auto simp: c' Inr ctl_ok_def update_fresh_set m simp del: map_of_append)
  qed
qed

lemma route_batch_ok:
  assumes "ctl_ok c" "distinct (map ar_request_id rs)"
    and "\<forall>r \<in> set rs. ar_request_id r \<noteq> [] \<and> map_of (dc_routes c) (ar_request_id r) = None"
    and "route_batch D rs grouped c = (c', x)" "length grouped = dc_dp_size c"
  shows "ctl_ok c' \<and> dc_channels c' = dc_channels c \<and> dc_dp_size c' = dc_dp_size c \<and>
    (\<forall>i. i \<notin> ar_request_id ` set rs \<longrightarrow> map_of (dc_routes c') i = map_of (dc_routes c) i) \<and>
    (\<forall>g. x = Inr g \<longrightarrow> length g = length grouped \<and>
      (\<forall>k < length grouped. g ! k = grouped ! k @ filter (\<lambda>r. map_of (dc_routes c') (ar_request_id r) = Some k) rs) \<and>
      (\<forall>r \<in> set rs. \<exists>k < dc_dp_size c. map_of (dc_routes c') (ar_request_id r) = Some k))"
  using assms
proof (induction rs arbitrary: c grouped)
  case Nil
  then show ?case by auto
next
  case (Cons r rs)
  obtain c1 y where s: "route_request D r c = (c1, y)" by (cases "route_request D r c")
  have r: "ar_request_id r \<noteq> []" "map_of (dc_routes c) (ar_request_id r) = None" using Cons.prems(3) by simp_all
  note one = route_request_ok [OF Cons.prems(1) r s]
  show ?case
  proof (cases y)
    case (Inl e)
    then show ?thesis using one Cons.prems(4) s by (auto simp: cbind_def)
  next
    case (Inr k)
    have c1: "ctl_ok c1" "dc_channels c1 = dc_channels c" "dc_dp_size c1 = dc_dp_size c" "k < dc_dp_size c"
      and r1: "dc_routes c1 = dc_routes c @ [(ar_request_id r, k)]"
      using one by (simp_all add: Inr)
    have routes: "map_of (dc_routes c1) = (map_of (dc_routes c))(ar_request_id r \<mapsto> k)"
      unfolding r1 by (rule map_of_snoc [OF r(2)])
    let ?g = "grouped[k := grouped ! k @ [r]]"
    have rest: "route_batch D rs ?g c1 = (c', x)" using Cons.prems(4) s by (simp add: Inr cbind_def)
    have other: "ar_request_id q \<noteq> ar_request_id r" if "q \<in> set rs" for q
      using Cons.prems(2) that by (metis distinct.simps(2) image_eqI list.set_map list.simps(9))
    have fresh: "\<forall>q \<in> set rs. ar_request_id q \<noteq> [] \<and> map_of (dc_routes c1) (ar_request_id q) = None"
      using Cons.prems(3) other by (auto simp: routes)
    note IH = Cons.IH [OF c1(1) _ fresh rest]
    have "map_of (dc_routes c') (ar_request_id r) = Some k"
      using IH Cons.prems(2,5) c1(3) r(2) by (auto simp: routes)
    then show ?thesis
      using IH Cons.prems(2,5) c1 by (auto simp: routes nth_list_update)
  qed
qed

definition command_ids :: "'p command \<Rightarrow> rid list" where
  "command_ids cmd = (case cmd of AddRequest r \<Rightarrow> [ar_request_id r] | AddRequestBatch rs \<Rightarrow> map ar_request_id rs | _ \<Rightarrow> [])"

lemma send_add_ok:
  assumes "ctl_ok c" "ar_request_id r \<noteq> []"
  shows "ctl_ok (fst (send_add D r c))"
proof (cases "map_of (dc_routes c) (ar_request_id r)")
  case None
  obtain c1 x where s: "route_request D r c = (c1, x)" by (cases "route_request D r c")
  note one = route_request_ok [OF assms None s]
  show ?thesis
  proof (cases x)
    case (Inr k)
    have "ctl_ok (fst (send_replica k (AddRequest r) c1))"
      using same_but_channels_ok [OF send_replica_same] one by blast
    then show ?thesis using None s Inr by (auto simp: send_add_def dc_release_ok split: prod.splits sum.splits)
  qed (use None s one in \<open>simp add: send_add_def\<close>)
qed (use assms in \<open>simp add: send_add_def\<close>)

lemma send_add_batch_ok:
  assumes "ctl_ok c" "\<forall>r \<in> set rs. ar_request_id r \<noteq> []"
  shows "ctl_ok (fst (send_add_batch D rs c))"
proof (cases "distinct (map ar_request_id rs) \<and> (\<forall>i \<in> ar_request_id ` set rs. map_of (dc_routes c) i = None)")
  case True
  obtain c1 x where s: "route_batch D rs (replicate (dc_dp_size c) []) c = (c1, x)"
    by (cases "route_batch D rs (replicate (dc_dp_size c) []) c")
  have one: "ctl_ok c1"
    using route_batch_ok [OF assms(1) _ _ s] True assms(2) by simp
  have "same_but_channels c1 (fst (cfor send_group gs c1))" for gs
    by (rule cfor_same) (rule send_group_same)
  then have sent: "cfor send_group gs c1 = (c2, y) \<Longrightarrow> ctl_ok c2" for gs c2 y
    using same_but_channels_ok one by (metis fst_conv)
  show ?thesis
    using True s one
    by (auto simp: send_add_batch_def intro!: fold_release_ok dest: sent split: prod.splits sum.splits)
next
  case False
  then show ?thesis using assms(1) by (auto simp: send_add_batch_def Let_def)
qed

lemma send_abort_ok: "ctl_ok c \<Longrightarrow> ctl_ok (fst (send_abort i c))"
proof (cases "map_of (dc_routes c) i")
  case (Some k)
  assume "ctl_ok c"
  then have "ctl_ok (fst (send_replica k (AbortRequest i) c))" using same_but_channels_ok send_replica_same by blast
  then show ?thesis using Some by (auto simp: send_abort_def cbind_def dc_release_ok split: prod.splits sum.splits)
qed (simp add: send_abort_def)

lemma dc_send_ok:
  assumes "ctl_ok c" "[] \<notin> set (command_ids cmd)"
  shows "ctl_ok (fst (dc_send D cmd c))"
proof -
  have "ctl_ok (fst (broadcast cmd c))" using same_but_channels_ok [OF broadcast_same] assms(1) by blast
  moreover have "ctl_ok (fst (send_add_batch D rs c))" if "cmd = AddRequestBatch rs" for rs
    by (rule send_add_batch_ok [OF assms(1)]) (use assms(2) that in \<open>force simp: command_ids_def\<close>)
  moreover have "ctl_ok (fst (send_add D r c))" if "cmd = AddRequest r" for r
    by (rule send_add_ok [OF assms(1)]) (use assms(2) that in \<open>simp add: command_ids_def\<close>)
  ultimately show ?thesis using assms(1) send_abort_ok [OF assms(1)] by (cases cmd) (simp_all add: dc_send_def)
qed

lemma handle_event_ok: "ctl_ok c \<Longrightarrow> ctl_ok (fst (handle_event ev c))"
proof (cases ev)
  case (SchedulerEvents outs u)
  assume "ctl_ok c"
  then have "ctl_ok (fold (\<lambda>o1 c. if re_finished o1 \<or> re_error o1 \<noteq> None then dc_release (re_request_id o1) c else c) outs c)"
    by (induction outs arbitrary: c) (simp_all add: dc_release_ok)
  then show ?thesis by (simp add: handle_event_def SchedulerEvents)
qed (simp_all add: handle_event_def ctl_ok_channels(2))

lemma dc_receive_ok: "ctl_ok c \<Longrightarrow> dc_receive ps c = Some (c', x) \<Longrightarrow> ctl_ok c'"
proof (induction ps c rule: dc_receive.induct)
  case (3 ev ps c)
  then show ?case using handle_event_ok [of c ev] by (cases "handle_event ev c") auto
qed (auto simp: ctl_ok_channels(2) split: if_splits)

lemma dc_shutdown_ok: "ctl_ok c \<Longrightarrow> ctl_ok (dc_shutdown D c)"
  using dc_send_ok [of c ShutdownScheduler D]
  by (auto simp: dc_shutdown_def Let_def command_ids_def ctl_ok_def)

lemma controller_init_ok:
  assumes "controller_init dp tp balancer att opts visible = Inr c"
  shows "ctl_ok c \<and> dc_routes c = []"
proof -
  from assms obtain P where P: "create_load_policy balancer dp = Inr P" and
    c: "c = \<lparr>dc_policy = P, dc_routes = [], dc_channels = replicate (nat dp) \<lparr>ch_sent = [], ch_open = True\<rparr>,
         dc_closed = False, dc_failure = None, dc_dp_size = nat dp, dc_tp_size = nat tp, dc_dp_attention = att\<rparr>"
    by (simp add: controller_init_def split: if_split_asm) blast
  then show ?thesis using create_load_policy_ok [OF P] by (simp add: ctl_ok_def)
qed

section \<open>What is put on the queues\<close>

lemma cfor_put_sent:
  assumes "cfor (dc_put cmd) ks c = (c', Inr ())" "distinct ks" "j < length (dc_channels c)"
    and "\<forall>k \<in> set ks. k < length (dc_channels c)"
  shows "sent_to j c' = sent_to j c @ (if j \<in> set ks then [cmd] else [])"
  using assms
proof (induction ks arbitrary: c)
  case (Cons k ks)
  from Cons.prems(1) obtain c1 where put: "dc_put cmd k c = (c1, Inr ())" and rest: "cfor (dc_put cmd) ks c1 = (c', Inr ())"
    by (auto simp: old.unit.exhaust)
  have len: "length (dc_channels c1) = length (dc_channels c)"
    using same_but_channelsD(4) [OF dc_put_same [of c cmd k]] put by simp
  have "sent_to j c1 = sent_to j c @ (if j = k then [cmd] else [])"
    using put Cons.prems(3,4) by (auto simp: dc_put_def Let_def sent_to_def nth_list_update split: if_splits)
  then show ?case using Cons.IH [OF rest] Cons.prems len by auto
qed simp

lemma send_replica_sent:
  assumes "send_replica k cmd c = (c', Inr ())" "k < length (dc_channels c)" "j < length (dc_channels c)"
  shows "sent_to j c' = sent_to j c @ (if j = k then [cmd] else if dc_dp_attention c then [WakeScheduler] else [])"
proof -
  from assms(1) obtain c1 where put: "dc_put cmd k c = (c1, Inr ())" and
    rest: "(if dc_dp_attention c1 then cfor (dc_put WakeScheduler) (filter (\<lambda>p. p \<noteq> k) [0..<length (dc_channels c1)]) c1
       else (c1, Inr ())) = (c', Inr ())"
    by (auto simp: send_replica_def old.unit.exhaust)
  have c1: "dc_dp_attention c1 = dc_dp_attention c" "length (dc_channels c1) = length (dc_channels c)"
    using same_but_channelsD(4,7) [OF dc_put_same [of c cmd k]] put by simp_all
  have "sent_to j c1 = sent_to j c @ (if j = k then [cmd] else [])"
    using put assms(2,3) by (auto simp: dc_put_def Let_def sent_to_def nth_list_update split: if_splits)
  then show ?thesis
    using rest c1 assms(2,3) cfor_put_sent [of WakeScheduler "filter (\<lambda>p. p \<noteq> k) [0..<length (dc_channels c1)]" c1 c' j]
    by (auto split: if_splits)
qed

lemma send_groups_sent:
  assumes "cfor send_group gs c = (c', Inr ())" "(k, rs) \<in> set gs" "rs \<noteq> []" "k < length (dc_channels c)"
  shows "AddRequestBatch rs \<in> set (sent_to k c')"
  using assms
proof (induction gs arbitrary: c)
  case (Cons g gs)
  from Cons.prems(1) obtain c1 where one: "send_group g c = (c1, Inr ())" and rest: "cfor send_group gs c1 = (c', Inr ())"
    by (auto simp: old.unit.exhaust)
  have len: "length (dc_channels c1) = length (dc_channels c)"
    using same_but_channelsD(4) [OF send_group_same [of c g]] one by simp
  have more: "same_but_channels c1 c'"
    using cfor_same [of send_group c1 gs] send_group_same rest by (metis fst_conv)
  show ?case
  proof (cases "g = (k, rs)")
    case True
    then have "AddRequestBatch rs \<in> set (sent_to k c1)"
      using one Cons.prems(3,4) send_replica_sent [of k "AddRequestBatch rs" c c1 k] by (simp add: send_group_def)
    then show ?thesis using same_but_channels_sent [OF more, of k] Cons.prems(4) len by auto
  next
    case False
    then show ?thesis using Cons.IH [OF rest] Cons.prems len by auto
  qed
qed simp

text \<open>Every active request is on the queue of its replica.\<close>

definition delivered :: "'p controller \<Rightarrow> bool" where
  "delivered c \<longleftrightarrow>
     (\<forall>i k. map_of (dc_routes c) i = Some k \<longrightarrow> (\<exists>cmd \<in> set (sent_to k c). i \<in> set (command_ids cmd)))"

lemma route_bound: "ctl_ok c \<Longrightarrow> map_of (dc_routes c) i = Some k \<Longrightarrow> k < length (dc_channels c)"
  by (auto simp: ctl_ok_def dest!: map_of_SomeD)

lemma delivered_grow:
  assumes "delivered c" "ctl_ok c" "length (dc_channels c') = length (dc_channels c)"
    and "\<forall>k < length (dc_channels c). set (sent_to k c) \<subseteq> set (sent_to k c')"
    and "\<forall>i k. map_of (dc_routes c') i = Some k \<longrightarrow> map_of (dc_routes c) i = Some k"
  shows "delivered c'"
  using assms route_bound [OF assms(2)] unfolding delivered_def by (metis subsetD)

lemma delivered_same: "delivered c \<Longrightarrow> ctl_ok c \<Longrightarrow> same_but_channels c c' \<Longrightarrow> delivered c'"
  by (rule delivered_grow) (auto simp: same_but_channelsD dest: same_but_channels_sent)

lemma delivered_old:
  assumes "delivered c" "ctl_ok c" "dc_channels c1 = dc_channels c" "same_but_channels c1 c2" "map_of (dc_routes c) i = Some j"
  shows "\<exists>cmd \<in> set (sent_to j c2). i \<in> set (command_ids cmd)"
proof -
  obtain cmd where cmd: "cmd \<in> set (sent_to j c)" "i \<in> set (command_ids cmd)"
    using assms(1,5) by (auto simp: delivered_def)
  have "set (sent_to j c1) \<subseteq> set (sent_to j c2)"
    by (rule same_but_channels_sent [OF assms(4)]) (simp add: assms(3) route_bound [OF assms(2,5)])
  then have "cmd \<in> set (sent_to j c2)" using cmd(1) assms(3) by (auto simp: sent_to_def)
  with cmd(2) show ?thesis by blast
qed

lemma delivered_release: "delivered c \<Longrightarrow> delivered (dc_release i c)"
  by (auto simp: delivered_def dc_release_routes sent_to_def)

section \<open>Runs of the controller\<close>

definition command_tokens_ok :: "'p command \<Rightarrow> bool" where
  "command_tokens_ok cmd = (case cmd of AddRequest r \<Rightarrow> tokens_ok (ar_prompt_token_ids r)
     | AddRequestBatch rs \<Rightarrow> (\<forall>r \<in> set rs. tokens_ok (ar_prompt_token_ids r)) | _ \<Rightarrow> True)"

lemma route_request_total:
  assumes "digest8 D" "ctl_ok c" "tokens_ok (ar_prompt_token_ids r)"
  shows "\<exists>c' k. route_request D r c = (c', Inr k)"
proof -
  have "snd (policy_select D e (Some ts) i P) \<noteq> Inl err"
    if "policy_ok P" "tokens_ok ts" for e ts i P err
  proof (cases P)
    case (CacheAwarePolicy p)
    with that(1) have "0 < ca_block_size p" by (simp add: policy_ok_def index_ok_def)
    from iter_block_hashes_ok [OF assms(1) this that(2)] obtain hs where
      "iter_block_hashes D ts (ca_block_size p) (ca_hash_seed p) = Inr hs" by blast
    then have "\<exists>hs. select_hashes D (Some ts) p = Inr hs" by (simp add: select_hashes_def)
    then show ?thesis
      using cache_select_raises [of D e "Some ts" i p] CacheAwarePolicy
      by (cases "cache_select D e (Some ts) i p") (auto simp: policy_select_def)
  qed (auto simp: policy_select_def rr_select_def counting_select_no_raise apfst_def map_prod_def
      dest: counting_select_no_raise [THEN notE, rotated] split: prod.splits)
  moreover have "policy_ok (dc_policy c)" using assms(2) by (simp add: ctl_ok_def)
  ultimately show ?thesis
    using assms(3) by (auto simp: route_request_def Let_def split: prod.splits sum.splits) (metis snd_conv)+
qed

lemma route_batch_total:
  assumes "digest8 D" "ctl_ok c" "distinct (map ar_request_id rs)"
    and "\<forall>r \<in> set rs. ar_request_id r \<noteq> [] \<and> map_of (dc_routes c) (ar_request_id r) = None"
    and "\<forall>r \<in> set rs. tokens_ok (ar_prompt_token_ids r)"
  shows "\<exists>c' g. route_batch D rs grouped c = (c', Inr g)"
  using assms(2-)
proof (induction rs arbitrary: c grouped)
  case (Cons r rs)
  then obtain c1 k where s: "route_request D r c = (c1, Inr k)"
    using route_request_total [OF assms(1), of c r] by auto
  have one: "ctl_ok c1 \<and> dc_routes c1 = dc_routes c @ [(ar_request_id r, k)]"
    using route_request_ok [OF Cons.prems(1) _ _ s] Cons.prems(3) by simp
  have "ar_request_id q \<noteq> ar_request_id r" if "q \<in> set rs" for q
    using Cons.prems(2) that by (metis distinct.simps(2) image_eqI list.set_map list.simps(9))
  then have "\<exists>c' g. route_batch D rs (grouped[k := grouped ! k @ [r]]) c1 = (c', Inr g)"
    using Cons.prems one by (intro Cons.IH) (auto simp: map_add_def)
  then show ?case using s by (auto simp: cbind_def)
qed simp

lemma send_add_delivered:
  assumes "digest8 D" "ctl_ok c" "delivered c" "ar_request_id r \<noteq> []" "tokens_ok (ar_prompt_token_ids r)"
  shows "delivered (fst (send_add D r c))"
proof (cases "map_of (dc_routes c) (ar_request_id r)")
  case None
  obtain c1 k where s: "route_request D r c = (c1, Inr k)" using route_request_total [OF assms(1,2,5)] by blast
  have one: "ctl_ok c1" "dc_channels c1 = dc_channels c" "dc_dp_size c1 = dc_dp_size c" "k < dc_dp_size c"
    and routes: "dc_routes c1 = dc_routes c @ [(ar_request_id r, k)]"
    using route_request_ok [OF assms(2,4) None s] by simp_all
  have len: "length (dc_channels c) = dc_dp_size c" using assms(2) by (simp add: ctl_ok_def)
  obtain c2 x where t: "send_replica k (AddRequest r) c1 = (c2, x)" by (cases "send_replica k (AddRequest r) c1")
  have same: "same_but_channels c1 c2" using send_replica_same [of c1 k "AddRequest r"] t by simp
  have old: "\<exists>cmd \<in> set (sent_to j c2). i \<in> set (command_ids cmd)"
    if "map_of (dc_routes c2) i = Some j" "i \<noteq> ar_request_id r" for i j
  proof -
    have "map_of (dc_routes c) i = Some j"
      using that by (simp add: same_but_channelsD(2) [OF same] routes map_of_snoc [OF None] del: map_of_append)
    then show ?thesis by (rule delivered_old [OF assms(3,2) one(2) same])
  qed
  show ?thesis
  proof (cases x)
    case (Inl e)
    have "delivered (dc_release (ar_request_id r) c2)"
      using old by (auto simp: delivered_def dc_release_routes sent_to_def)
    then show ?thesis using None s t Inl by (simp add: send_add_def)
  next
    case (Inr u)
    then have "AddRequest r \<in> set (sent_to k c2)"
      using send_replica_sent [of k "AddRequest r" c1 c2 k] t one len by simp
    moreover have "map_of (dc_routes c2) (ar_request_id r) = Some k"
      by (simp add: same_but_channelsD(2) [OF same] routes map_of_snoc [OF None] del: map_of_append)
    moreover have "ar_request_id r \<in> set (command_ids (AddRequest r))" by (simp add: command_ids_def)
    ultimately have "delivered c2" unfolding delivered_def
    proof (intro allI impI)
      fix i j assume i: "map_of (dc_routes c2) i = Some j"
        and new: "AddRequest r \<in> set (sent_to k c2)" "map_of (dc_routes c2) (ar_request_id r) = Some k"
          "ar_request_id r \<in> set (command_ids (AddRequest r))"
      show "\<exists>cmd \<in> set (sent_to j c2). i \<in> set (command_ids cmd)"
        using old [OF i] i new by (cases "i = ar_request_id r") auto
    qed
    then show ?thesis using None s t Inr by (simp add: send_add_def)
  qed
qed (use assms in \<open>simp add: send_add_def\<close>)

lemma send_add_batch_delivered:
  assumes "digest8 D" "ctl_ok c" "delivered c" "\<forall>r \<in> set rs. ar_request_id r \<noteq> [] \<and> tokens_ok (ar_prompt_token_ids r)"
  shows "delivered (fst (send_add_batch D rs c))"
proof (cases "distinct (map ar_request_id rs) \<and> (\<forall>i \<in> ar_request_id ` set rs. map_of (dc_routes c) i = None)")
  case True
  let ?ids = "map ar_request_id rs"
  have "\<exists>c1 g. route_batch D rs (replicate (dc_dp_size c) []) c = (c1, Inr g)"
    by (rule route_batch_total [OF assms(1,2)]) (use True assms(4) in auto)
  then obtain c1 g where s: "route_batch D rs (replicate (dc_dp_size c) []) c = (c1, Inr g)" by blast
  have len: "length (dc_channels c) = dc_dp_size c" using assms(2) by (simp add: ctl_ok_def)
  have chans: "dc_channels c1 = dc_channels c"
    and other: "\<forall>i. i \<notin> ar_request_id ` set rs \<longrightarrow> map_of (dc_routes c1) i = map_of (dc_routes c) i"
    and g: "length g = dc_dp_size c" "\<forall>k < dc_dp_size c. g ! k = filter (\<lambda>r. map_of (dc_routes c1) (ar_request_id r) = Some k) rs"
    and routed: "\<forall>r \<in> set rs. \<exists>k < dc_dp_size c. map_of (dc_routes c1) (ar_request_id r) = Some k"
    using route_batch_ok [OF assms(2) _ _ s] True assms(4) by auto
  let ?gs = "zip [0..<length g] g"
  obtain c2 x where t: "cfor send_group ?gs c1 = (c2, x)" by (cases "cfor send_group ?gs c1")
  have same: "same_but_channels c1 c2"
    using cfor_same [of send_group c1 ?gs] send_group_same t by (metis fst_conv)
  have old: "\<exists>cmd \<in> set (sent_to j c2). i \<in> set (command_ids cmd)"
    if "map_of (dc_routes c2) i = Some j" "i \<notin> ar_request_id ` set rs" for i j
  proof -
    have "map_of (dc_routes c) i = Some j" using that other by (simp add: same_but_channelsD(2) [OF same])
    then show ?thesis by (rule delivered_old [OF assms(3,2) chans same])
  qed
  show ?thesis
  proof (cases x)
    case (Inl e)
    have "delivered (fold dc_release ?ids c2)"
      using old by (auto simp: delivered_def fold_release_routes sent_to_def)
    then show ?thesis using True s t Inl by (auto simp: send_add_batch_def)
  next
    case (Inr u)
    have new: "\<exists>cmd \<in> set (sent_to j c2). ar_request_id r \<in> set (command_ids cmd)"
      if "r \<in> set rs" "map_of (dc_routes c2) (ar_request_id r) = Some j" for r j
    proof -
      have j: "map_of (dc_routes c1) (ar_request_id r) = Some j" using that(2) by (simp add: same_but_channelsD(2) [OF same])
      then have jl: "j < dc_dp_size c" using routed that(1) by fastforce
      then have r: "r \<in> set (g ! j)" using g(2) j that(1) by simp
      moreover have "(j, g ! j) \<in> set ?gs" using jl g(1) by (force simp: set_zip)
      ultimately have "AddRequestBatch (g ! j) \<in> set (sent_to j c2)"
        using send_groups_sent [of ?gs c1 c2 j "g ! j"] t Inr jl len chans by force
      then show ?thesis using r by (force simp: command_ids_def)
    qed
    have "delivered c2" unfolding delivered_def using old new by (metis imageE)
    then show ?thesis using True s t Inr by (auto simp: send_add_batch_def)
  qed
next
  case False
  then show ?thesis using assms(3) by (auto simp: send_add_batch_def Let_def)
qed

lemma dc_send_delivered:
  assumes "digest8 D" "ctl_ok c" "delivered c" "[] \<notin> set (command_ids cmd)" "command_tokens_ok cmd"
  shows "delivered (fst (dc_send D cmd c))"
proof -
  have bc: "delivered (fst (broadcast cmd c))" using delivered_same [OF assms(3,2) broadcast_same] .
  have sent: "send_replica k cmd c = (c1, y) \<Longrightarrow> delivered c1" for k cmd c1 y
    using delivered_same [OF assms(3,2) send_replica_same] by (metis fst_conv)
  then have "delivered (fst (send_abort i c))" for i
    using assms(3) by (auto simp: send_abort_def cbind_def delivered_release split: option.splits prod.splits sum.splits)
  moreover have "delivered (fst (send_add_batch D rs c))" if "cmd = AddRequestBatch rs" for rs
    by (rule send_add_batch_delivered [OF assms(1-3)])
      (use assms(4,5) that in \<open>force simp: command_ids_def command_tokens_ok_def\<close>)
  moreover have "delivered (fst (send_add D r c))" if "cmd = AddRequest r" for r
    by (rule send_add_delivered [OF assms(1-3)])
      (use assms(4,5) that in \<open>simp_all add: command_ids_def command_tokens_ok_def\<close>)
  ultimately show ?thesis using assms(3) bc by (cases cmd) (simp_all add: dc_send_def)
qed

lemma handle_event_delivered: "delivered c \<Longrightarrow> delivered (fst (handle_event ev c))"
proof (cases ev)
  case (SchedulerEvents outs u)
  assume "delivered c"
  then have "delivered (fold (\<lambda>o1 c. if re_finished o1 \<or> re_error o1 \<noteq> None then dc_release (re_request_id o1) c else c) outs c)"
    by (induction outs arbitrary: c) (simp_all add: delivered_release)
  then show ?thesis by (simp add: handle_event_def SchedulerEvents)
qed (simp_all add: handle_event_def delivered_def sent_to_def)

lemma dc_receive_delivered: "delivered c \<Longrightarrow> dc_receive ps c = Some (c', x) \<Longrightarrow> delivered c'"
proof (induction ps c rule: dc_receive.induct)
  case (3 ev ps c)
  then show ?case using handle_event_delivered [of c ev] by (cases "handle_event ev c") auto
qed (auto simp: delivered_def sent_to_def split: if_splits)

text \<open>
  The controller from its construction on: commands that satisfy \<open>Q\<close>, sent with any outcome, polls of the event queue
  that satisfy \<open>R\<close>, and the shutdown, in any order.
\<close>

inductive ctl_run ::
  "(bytes \<Rightarrow> bytes) \<Rightarrow> ('p command \<Rightarrow> bool) \<Rightarrow> ('l poll list \<Rightarrow> bool) \<Rightarrow> 'p controller \<Rightarrow> 'p controller \<Rightarrow> bool" for D Q R c0 where
  ctl_start: "ctl_run D Q R c0 c0"
| ctl_send: "ctl_run D Q R c0 c \<Longrightarrow> Q cmd \<Longrightarrow> ctl_run D Q R c0 (fst (dc_send D cmd c))"
| ctl_receive: "ctl_run D Q R c0 c \<Longrightarrow> R polls \<Longrightarrow> dc_receive polls c = Some (c', x) \<Longrightarrow> ctl_run D Q R c0 c'"
| ctl_shutdown: "ctl_run D Q R c0 c \<Longrightarrow> ctl_run D Q R c0 (dc_shutdown D c)"

lemma ctl_run_ok:
  assumes "ctl_run D Q R c0 c" "ctl_ok c0" "\<And>cmd. Q cmd \<Longrightarrow> [] \<notin> set (command_ids cmd)"
  shows "ctl_ok c"
  using assms by (induction) (auto intro: dc_send_ok dc_receive_ok dc_shutdown_ok)

lemma dc_shutdown_delivered:
  assumes "digest8 D" "ctl_ok c" "delivered c"
  shows "delivered (dc_shutdown D c)"
proof -
  let ?c1 = "fst (dc_send D ShutdownScheduler c)"
  have d: "delivered ?c1" "ctl_ok ?c1"
    using dc_send_delivered [OF assms, of ShutdownScheduler] dc_send_ok [OF assms(2), of ShutdownScheduler]
    by (simp_all add: command_ids_def command_tokens_ok_def)
  have "delivered (?c1\<lparr>dc_closed := True, dc_channels := map close_channel (dc_channels ?c1)\<rparr>)"
    by (rule delivered_grow [OF d]) (simp_all add: sent_to_def close_channel_def)
  then show ?thesis using assms(3) by (simp add: dc_shutdown_def Let_def)
qed

lemma ctl_run_delivered:
  assumes "ctl_run D Q R c0 c" "digest8 D" "ctl_ok c0" "delivered c0"
    "\<And>cmd. Q cmd \<Longrightarrow> [] \<notin> set (command_ids cmd) \<and> command_tokens_ok cmd"
  shows "delivered c"
  using assms(1)
proof (induction)
  case (ctl_send c cmd)
  then show ?case using ctl_run_ok [OF ctl_send(1) assms(3)] assms(5) by (blast intro: dc_send_delivered [OF assms(2)])
next
  case (ctl_shutdown c)
  then show ?case using ctl_run_ok [OF ctl_shutdown(1) assms(3)] assms(5) dc_shutdown_delivered [OF assms(2)] by blast
qed (use assms(4) dc_receive_delivered in blast)+

section \<open>Startup and collection\<close>

lemma dc_receive_got:
  "dc_receive ps c = Some (c', Inr (ReplicaReady g i)) \<Longrightarrow> Got (ReplicaReady g i) \<in> set ps"
  by (induction ps c rule: dc_receive.induct)
    (auto simp: handle_event_def apsnd_def map_prod_def split: if_splits event.splits)

lemma ready_turn_sound:
  assumes "ready_turn polls ps leader c = Some (Inr (ps1, leader1, c1))"
  shows "(\<forall>g \<in> set ps. g \<in> set ps1 \<or> (\<exists>i. Got (ReplicaReady g i) \<in> set polls)) \<and>
    (leader1 = leader \<or> (\<exists>l. leader1 = Some l \<and> (leader = Some l \<or> protocol_version l = PROTOCOL_VERSION)))"
proof -
  note got = dc_receive_got [of polls c c1]
  from assms show ?thesis
    unfolding ready_turn_def
    by (auto split: option.splits prod.splits sum.splits event.splits if_splits) (use got in blast)+
qed

lemma await_ready_sound:
  assumes "await_ready env ps leader c = Some (c', Inr info)"
    and "\<forall>l. leader = Some l \<longrightarrow> protocol_version l = PROTOCOL_VERSION"
  shows "protocol_version info = PROTOCOL_VERSION \<and>
    (\<forall>g \<in> set ps. \<exists>b polls i. (b, polls) \<in> set env \<and> Got (ReplicaReady g i) \<in> set polls)"
  using assms
proof (induction env arbitrary: ps leader c)
  case Nil
  then show ?case by (auto split: if_splits option.splits)
next
  case (Cons e env)
  obtain expired polls where e: "e = (expired, polls)" by (cases e)
  show ?case
  proof (cases "ps = []")
    case True
    then show ?thesis using Cons.prems by (auto simp: e split: option.splits)
  next
    case False
    then obtain ps1 leader1 c1 where t: "ready_turn polls ps leader c = Some (Inr (ps1, leader1, c1))"
      and rest: "await_ready env ps1 leader1 c1 = Some (c', Inr info)"
      using Cons.prems(1) by (auto simp: e split: option.splits sum.splits if_splits)
    note s = ready_turn_sound [OF t]
    have "\<forall>l. leader1 = Some l \<longrightarrow> protocol_version l = PROTOCOL_VERSION" using s Cons.prems(2) by auto
    note IH = Cons.IH [OF rest this]
    have "\<exists>b polls' i. (b, polls') \<in> set (e # env) \<and> Got (ReplicaReady g i) \<in> set polls'" if "g \<in> set ps" for g
    proof (cases "g \<in> set ps1")
      case True
      with IH obtain b polls' i where "(b, polls') \<in> set env" "Got (ReplicaReady g i) \<in> set polls'" by blast
      then show ?thesis by (metis list.set_intros(2))
    next
      case False
      with s that obtain i where "Got (ReplicaReady g i) \<in> set polls" by blast
      then show ?thesis unfolding e by (metis list.set_intros(1))
    qed
    then show ?thesis using IH by blast
  qed
qed

lemma collect_output_eq:
  assumes "collect_output o1 st = (st', Inr ())" "map_of (co_tokens st) i \<noteq> None"
  shows "map_of (co_tokens st') i =
      Some (dict_get [] (co_tokens st) i @ (if re_request_id o1 = i then re_new_token_ids o1 else [])) \<and>
    (i \<in> set (co_pending st') \<longleftrightarrow> i \<in> set (co_pending st) \<and> \<not> (re_request_id o1 = i \<and> re_finished o1))"
  using assms
  by (auto simp: collect_output_def Let_def dict_get_def update_conv' split: if_splits option.splits)

lemma collect_all:
  assumes "cfor collect_output outs st = (st', Inr ())" "map_of (co_tokens st) i = Some ts"
  shows "map_of (co_tokens st') i = Some (ts @ concat (map re_new_token_ids (filter (\<lambda>o1. re_request_id o1 = i) outs))) \<and>
    (i \<in> set (co_pending st') \<longleftrightarrow>
       i \<in> set (co_pending st) \<and> \<not> (\<exists>o1 \<in> set outs. re_request_id o1 = i \<and> re_finished o1))"
  using assms
proof (induction outs arbitrary: st ts)
  case (Cons o1 outs)
  then obtain st1 where one: "collect_output o1 st = (st1, Inr ())" and rest: "cfor collect_output outs st1 = (st', Inr ())"
    by (auto simp: old.unit.exhaust)
  have "map_of (co_tokens st1) i = Some (ts @ (if re_request_id o1 = i then re_new_token_ids o1 else []))"
    "i \<in> set (co_pending st1) \<longleftrightarrow> i \<in> set (co_pending st) \<and> \<not> (re_request_id o1 = i \<and> re_finished o1)"
    using collect_output_eq [OF one, of i] Cons.prems(2) by (simp_all add: dict_get_def)
  then show ?case using Cons.IH [OF rest] by auto
qed simp

lemma init_delivered: "controller_init dp tp balancer att opts visible = Inr c \<Longrightarrow> delivered c"
  using controller_init_ok [of dp tp balancer att opts visible c] by (simp add: delivered_def)

lemma send_add_cases:
  assumes "ctl_ok c" "ar_request_id r \<noteq> []" "dc_send D (AddRequest r) c = (c', x)"
  shows "(\<forall>e. x = Inl e \<longrightarrow> map_of (dc_routes c') = map_of (dc_routes c)) \<and>
    (x = Inr () \<longrightarrow> (\<exists>k < dc_dp_size c. map_of (dc_routes c') = (map_of (dc_routes c))(ar_request_id r \<mapsto> k) \<and>
       (\<forall>j < dc_dp_size c. sent_to j c' = sent_to j c @
          (if j = k then [AddRequest r] else if dc_dp_attention c then [WakeScheduler] else []))))"
proof (cases "dc_closed c \<or> dc_failure c \<noteq> None \<or> map_of (dc_routes c) (ar_request_id r) \<noteq> None")
  case True
  then show ?thesis using assms(3) by (auto simp: dc_send_def send_add_def split: if_splits)
next
  case False
  then have None: "map_of (dc_routes c) (ar_request_id r) = None" by simp
  obtain c1 y where s: "route_request D r c = (c1, y)" by (cases "route_request D r c")
  note one = route_request_ok [OF assms(1,2) None s]
  show ?thesis
  proof (cases y)
    case (Inl e)
    then show ?thesis using False assms(3) s one by (auto simp: dc_send_def send_add_def)
  next
    case (Inr k)
    obtain c2 z where t: "send_replica k (AddRequest r) c1 = (c2, z)" by (cases "send_replica k (AddRequest r) c1")
    have routes: "map_of (dc_routes c2) = (map_of (dc_routes c))(ar_request_id r \<mapsto> k)"
      using same_but_channelsD(2) [OF send_replica_same [of c1 k "AddRequest r"]] t one
      by (simp add: Inr map_of_snoc [OF None] del: map_of_append)
    have att: "dc_dp_attention c1 = dc_dp_attention c"
      using s by (auto simp: route_request_def Let_def split: prod.splits sum.splits)
    have len: "length (dc_channels c) = dc_dp_size c" using assms(1) by (simp add: ctl_ok_def)
    show ?thesis
    proof (cases z)
      case (Inl e)
      then have "c' = dc_release (ar_request_id r) c2" "x = Inl e"
        using False assms(3) s t Inr by (simp_all add: dc_send_def send_add_def)
      then show ?thesis using None by (simp add: dc_release_routes routes fun_upd_idem)
    next
      case inr: (Inr u)
      then have "c' = c2" "x = Inr ()" using False assms(3) s t Inr by (simp_all add: dc_send_def send_add_def)
      moreover have "sent_to j c2 = sent_to j c @
          (if j = k then [AddRequest r] else if dc_dp_attention c then [WakeScheduler] else [])" if "j < dc_dp_size c" for j
        using send_replica_sent [of k "AddRequest r" c1 c2 j] t inr that one len att by (simp add: Inr sent_to_def)
      ultimately show ?thesis using one routes by (auto simp: Inr)
    qed
  qed
qed

section \<open>Properties\<close>

text \<open>A run to apply the properties to: one request sent to two replicas.\<close>

definition sample_request :: "unit new_request" where
  "sample_request = \<lparr>ar_request_id = ''a'', ar_prompt_token_ids = [1, 2, 3], ar_sampling_params = (),
     ar_arrival_time = 0, ar_stream = True\<rparr>"

definition sample_options :: dc_options where
  "sample_options = \<lparr>op_device = Some ''cpu'', op_expert_parallel = True, op_use_cuda_graph = Some (Some False),
     op_speculate = ''0''\<rparr>"

definition sample_controller :: "unit controller" where
  "sample_controller =
     \<lparr>dc_policy = TokenCountPolicy \<lparr>cp_dp_size = 2, cp_anon = 0, cp_load = [0, 0], cp_charges = []\<rparr>, dc_routes = [],
      dc_channels = [\<lparr>ch_sent = [], ch_open = True\<rparr>, \<lparr>ch_sent = [], ch_open = True\<rparr>], dc_closed = False,
      dc_failure = None, dc_dp_size = 2, dc_tp_size = 1, dc_dp_attention = True\<rparr>"

definition sample_sent :: "unit controller" where
  "sample_sent =
     \<lparr>dc_policy = TokenCountPolicy \<lparr>cp_dp_size = 2, cp_anon = 0, cp_load = [3, 0], cp_charges = [(''a'', 0, 3)]\<rparr>,
      dc_routes = [(''a'', 0)],
      dc_channels = [\<lparr>ch_sent = [AddRequest sample_request], ch_open = True\<rparr>, \<lparr>ch_sent = [WakeScheduler], ch_open = True\<rparr>],
      dc_closed = False, dc_failure = None, dc_dp_size = 2, dc_tp_size = 1, dc_dp_attention = True\<rparr>"

lemma sample_init: "controller_init 2 1 ''total_tokens'' True sample_options 0 = Inr sample_controller"
  by (simp add: controller_init_def sample_options_def sample_controller_def create_load_policy_def counting_init_def
      numeral_2_eq_2 strip_def lower_char_def blank_def)

lemma sample_send: "dc_send sample_digest (AddRequest sample_request) sample_controller = (sample_sent, Inr ())"
proof -
  have upt: "[Suc 0..<2] = [1]" "[0..<2] = [0, 1 :: nat]" by (simp_all add: numeral_2_eq_2)
  show ?thesis
    by (simp add: dc_send_def send_add_def sample_controller_def sample_sent_def sample_request_def route_request_def
        policy_select_def counting_select_def policy_request_id_def min_range_def token_weight_def send_replica_def
        dc_put_def cbind_def upt Let_def)
qed

lemma sample_run:
  assumes "Q (AddRequest sample_request)"
  shows "ctl_run sample_digest Q R sample_controller sample_sent"
  using ctl_send [of sample_digest Q R sample_controller sample_controller, OF ctl_start assms] by (simp add: sample_send)

text \<open>C20: the controller's books are right. In every run of a controller whose policy tracks load, with any commands that
  name their requests, any outcomes (closed queues, duplicate ids, selections that raise half way through a batch),
  any events and the shutdown, in any order: each active request is charged once, on the replica its route names, the
  load of a replica is the sum of the charges on it, and with nothing active all loads are zero.\<close>

theorem controller_accounts:
  assumes "controller_init dp tp balancer att opts visible = Inr c0"
    and "ctl_run D (\<lambda>cmd. [] \<notin> set (command_ids cmd)) R c0 c" "tracks_load (dc_policy c)"
  shows "(\<forall>i. map_of (dc_routes c) i = map_option fst (map_of (policy_charges (dc_policy c)) i)) \<and>
    (\<forall>i k. map_of (dc_routes c) i = Some k \<longrightarrow> k < dc_dp_size c) \<and>
    (\<forall>k < dc_dp_size c. policy_load (dc_policy c) ! k = charge_on k (policy_charges (dc_policy c))) \<and>
    (dc_routes c = [] \<longrightarrow> policy_load (dc_policy c) = replicate (dc_dp_size c) 0)"
proof -
  have ok: "ctl_ok c" using ctl_run_ok [OF assms(2)] controller_init_ok [OF assms(1)] by blast
  then have l: "loads_ok (dc_dp_size c) (policy_load (dc_policy c)) (policy_charges (dc_policy c))"
    using assms(3) by (metis ctl_ok_def policy_ok_def)
  have agree: "\<forall>i. map_option fst (map_of (policy_charges (dc_policy c)) i) = map_of (dc_routes c) i"
    using ok assms(3) by (simp add: ctl_ok_def)
  have "policy_charges (dc_policy c) = []" if "dc_routes c = []"
    using agree that by (cases "policy_charges (dc_policy c)") (auto dest: spec [of _ "fst (hd (policy_charges (dc_policy c)))"])
  then show ?thesis
    using agree l loads_ok_idle [of "dc_dp_size c" "policy_load (dc_policy c)"] route_bound [OF ok] ok
    by (auto simp: loads_ok_def ctl_ok_def)
qed

theorem controller_accounts_witness:
  "map_of (dc_routes sample_sent) ''a'' = Some 0 \<and> policy_load (dc_policy sample_sent) ! 0 = 3 \<and>
   charge_on 0 (policy_charges (dc_policy sample_sent)) = 3"
proof -
  have r: "ctl_run sample_digest (\<lambda>cmd. [] \<notin> set (command_ids cmd)) (\<lambda>ps. ps \<noteq> ([] :: unit poll list))
      sample_controller sample_sent"
    by (rule sample_run) (simp add: command_ids_def sample_request_def)
  have "tracks_load (dc_policy sample_sent)" by (simp add: sample_sent_def tracks_load_def)
  from controller_accounts [OF sample_init r this] show ?thesis
    by (simp add: sample_sent_def policy_load_def policy_charges_def)
qed

text \<open>C19: no active request is lost on the way. In every run in which the prompts fit the hash layout and no id is
  empty, each active request has been put on the queue of the replica its route names, as a single command or in a batch (a queue is
  the list of everything put on it; the replica that takes from it is not part of the model).\<close>

theorem controller_delivers:
  assumes "controller_init dp tp balancer att opts visible = Inr c0" "digest8 D"
    and "ctl_run D (\<lambda>cmd. [] \<notin> set (command_ids cmd) \<and> command_tokens_ok cmd) R c0 c"
    and "map_of (dc_routes c) i = Some k"
  shows "\<exists>cmd \<in> set (sent_to k c). i \<in> set (command_ids cmd)"
proof -
  have "delivered c"
    by (rule ctl_run_delivered [OF assms(3,2)])
      (use controller_init_ok [OF assms(1)] init_delivered [OF assms(1)] in auto)
  then show ?thesis using assms(4) by (simp add: delivered_def)
qed

theorem controller_delivers_witness:
  "digest8 sample_digest \<and> map_of (dc_routes sample_sent) ''a'' = Some 0 \<and>
   (\<exists>cmd \<in> set (sent_to 0 sample_sent). ''a'' \<in> set (command_ids cmd))"
proof -
  have d: "digest8 sample_digest" by (simp add: digest8_def sample_digest_def)
  have r: "ctl_run sample_digest (\<lambda>cmd. [] \<notin> set (command_ids cmd) \<and> command_tokens_ok cmd)
      (\<lambda>ps. ps \<noteq> ([] :: unit poll list)) sample_controller sample_sent"
    by (rule sample_run) (simp add: command_ids_def command_tokens_ok_def tokens_ok_def sample_request_def)
  have k: "map_of (dc_routes sample_sent) ''a'' = Some 0" by (simp add: sample_sent_def)
  from controller_delivers [OF sample_init d r k] d k show ?thesis by blast
qed

text \<open>Adding one request is all or nothing. If \<^verbatim>\<open>send\<close> returns, the request has a route to an existing replica, that
  replica's queue gains exactly the request, the other queues gain a wake-up with DP attention and nothing without,
  and the other routes stay; if it raises, the active requests are the ones before.\<close>

lemma send_add_all_or_nothing:
  assumes "controller_init dp tp balancer att opts visible = Inr c0"
    and "ctl_run D (\<lambda>cmd. [] \<notin> set (command_ids cmd)) R c0 c"
    and "ar_request_id r \<noteq> []" "dc_send D (AddRequest r) c = (c', x)"
  shows "case x of
      Inl e \<Rightarrow> map_of (dc_routes c') = map_of (dc_routes c)
    | Inr _ \<Rightarrow> (\<exists>k < dc_dp_size c. map_of (dc_routes c') = (map_of (dc_routes c))(ar_request_id r \<mapsto> k) \<and>
        (\<forall>j < dc_dp_size c. sent_to j c' = sent_to j c @
           (if j = k then [AddRequest r] else if dc_dp_attention c then [WakeScheduler] else [])))"
proof -
  have "ctl_ok c" using ctl_run_ok [OF assms(2)] controller_init_ok [OF assms(1)] by blast
  from send_add_cases [OF this assms(3,4)] show ?thesis by (auto split: sum.split)
qed

text \<open>A batch is not. When a later prompt of a batch makes the cache-aware selection raise (a token outside the 32-bit
  field it is hashed with), \<^verbatim>\<open>send\<close> raises with nothing put on any queue, but the earlier requests of the batch stay
  routed and charged: sending one of them again is refused as already active, although no replica has it.\<close>

lemma batch_select_leaks:
  "\<exists>c0 c1. controller_init 1 1 ''cache_aware'' False \<lparr>op_device = Some ''cpu'', op_expert_parallel = False,
      op_use_cuda_graph = None, op_speculate = ''0''\<rparr> 0 = Inr c0 \<and>
    (let good = \<lparr>ar_request_id = ''a'', ar_prompt_token_ids = [1], ar_sampling_params = (), ar_arrival_time = 0, ar_stream = True\<rparr>;
         bad = \<lparr>ar_request_id = ''b'', ar_prompt_token_ids = replicate 16 (-1), ar_sampling_params = (), ar_arrival_time = 0, ar_stream = True\<rparr>
     in dc_send D (AddRequestBatch [good, bad]) c0 = (c1, Inl StructError) \<and> sent_to 0 c1 = [] \<and>
        map_of (dc_routes c1) ''a'' = Some 0 \<and> policy_load (dc_policy c1) = [1] \<and>
        dc_send D (AddRequest good) c1 = (c1, Inl ValueError))"
proof -
  let ?P = "\<lambda>l ch. CacheAwarePolicy \<lparr>ca_dp_size = Suc 0, ca_anon = 0, ca_block_size = 16, ca_hash_seed = 0,
      ca_capacity = 65536, ca_resident = [[]], ca_load = l, ca_charges = ch\<rparr>"
  let ?c = "\<lambda>P rt. \<lparr>dc_policy = P, dc_routes = rt, dc_channels = [\<lparr>ch_sent = [], ch_open = True\<rparr>],
      dc_closed = False, dc_failure = None, dc_dp_size = Suc 0, dc_tp_size = Suc 0, dc_dp_attention = False\<rparr> :: unit controller"
  let ?good = "\<lparr>ar_request_id = ''a'', ar_prompt_token_ids = [1], ar_sampling_params = (), ar_arrival_time = 0, ar_stream = True\<rparr> :: unit new_request"
  let ?bad = "\<lparr>ar_request_id = ''b'', ar_prompt_token_ids = replicate 16 (-1), ar_sampling_params = (), ar_arrival_time = 0, ar_stream = True\<rparr> :: unit new_request"
  let ?c1 = "?c (?P [1] [(''a'', 0, 1)]) [(''a'', 0)]"
  have i: "controller_init 1 1 ''cache_aware'' False \<lparr>op_device = Some ''cpu'', op_expert_parallel = False,
      op_use_cuda_graph = None, op_speculate = ''0''\<rparr> 0 = Inr (?c (?P [0] []) [])"
    by (simp add: controller_init_def create_load_policy_def cache_policy_init_def)
  have h1: "iter_block_hashes D [1] 16 0 = Inr []" by (simp add: iter_block_hashes_def)
  have h2: "iter_block_hashes D (replicate 16 (-1)) 16 0 = Inl StructError"
    by (simp add: iter_block_hashes_def hash_block_def struct_pack_def block_at_def seed_parent_def)
  have r1: "route_request D ?good (?c (?P [0] []) []) = (?c1, Inr 0)"
    by (simp add: route_request_def policy_select_def cache_select_def policy_request_id_def h1 Let_def min_range_def
        uncached_def policy_cached_blocks_def remember_def)
  have r2: "route_request D ?bad ?c1 = (?c1, Inl StructError)"
    using h2 by (simp add: route_request_def policy_select_def cache_select_def policy_request_id_def Let_def)
  have "dc_send D (AddRequestBatch [?good, ?bad]) (?c (?P [0] []) []) = (?c1, Inl StructError)"
    by (simp add: dc_send_def send_add_batch_def cbind_def r1 r2 del: replicate.simps)
  then show ?thesis
    using i by (intro exI [of _ "?c (?P [0] []) []"] exI [of _ ?c1])
      (simp add: sent_to_def policy_load_def dc_send_def [of D "AddRequest ?good"] send_add_def)
qed

text \<open>The blocking facade collects each request's own tokens. Handling a batch of outputs that reports no error appends
  to every request it waits for exactly the new tokens of that request's outputs, in order, and stops waiting for
  exactly the requests with a finishing output; outputs of requests it did not send change nothing.\<close>

lemma collect_exact:
  assumes "cfor collect_output outs st = (st', Inr ())" "map_of (co_tokens st) i = Some ts"
  shows "map_of (co_tokens st') i = Some (ts @ concat (map re_new_token_ids (filter (\<lambda>o1. re_request_id o1 = i) outs))) \<and>
    (i \<in> set (co_pending st') \<longleftrightarrow>
       i \<in> set (co_pending st) \<and> \<not> (\<exists>o1 \<in> set outs. re_request_id o1 = i \<and> re_finished o1))"
  by (rule collect_all [OF assms])

end
