(* ===== verification/Event_Loop.thy ===== *)
theory Event_Loop
  imports Scheduler_Properties Dp_Controller
begin

text \<open>
  The command loop of a scheduler process (\<^verbatim>\<open>Scheduler.run_event_loop\<close> in \<^verbatim>\<open>src/rapid_llm/engine/scheduler.py\<close>): it takes
  the commands of \<^verbatim>\<open>scheduler_ipc.py\<close> off a queue, submits and aborts, runs steps while there is work, and publishes the tokens
  each request gained since its last event.

  One turn of the \<^verbatim>\<open>while\<close> loop is one call of \<open>turn\<close>. What arrives from outside in a turn is its input: the commands the
  queue yields before it is empty, whether the parent process is alive, whether another replica has work, and how long the
  step took. The event queue is the list of what was put on it. Waiting and sleeping have no effect on the state.
\<close>

section \<open>The loop\<close>

record event_loop =
  el_scheduler :: scheduler
  el_next :: oid
  sent_tokens :: "(rid, nat) dict"
  stream_outputs :: "(rid, bool) dict"
  last_step_ms :: rat
  stopping :: bool
  globally_active :: bool
  el_events :: "lp event list"

definition loop_init :: "oid \<Rightarrow> scheduler \<Rightarrow> event_loop" where
  "loop_init x sc =
     \<lparr>el_scheduler = sc, el_next = x, sent_tokens = [], stream_outputs = [], last_step_ms = 0, stopping = False,
      globally_active = False, el_events = []\<rparr>"

definition put_event :: "lp event \<Rightarrow> event_loop \<Rightarrow> event_loop" where
  "put_event e el = el\<lparr>el_events := el_events el @ [e]\<rparr>"

text \<open>The \<^verbatim>\<open>repr\<close> of a string of Latin-1 characters.\<close>

definition hex_digit :: "nat \<Rightarrow> char" where
  "hex_digit n = char_of (if n < 10 then 48 + n else 87 + n)"

definition repr_char :: "char \<Rightarrow> char \<Rightarrow> string" where
  "repr_char q c =
     (let n = of_char c :: nat; esc = char_of (92 :: nat)
      in if c = q \<or> c = esc then [esc, c]
         else if n = 10 then [esc, CHR ''n''] else if n = 13 then [esc, CHR ''r''] else if n = 9 then [esc, CHR ''t'']
         else if n < 32 \<or> 127 \<le> n \<and> n \<le> 160 \<or> n = 173 then [esc, CHR ''x'', hex_digit (n div 16), hex_digit (n mod 16)]
         else [c])"

definition py_repr :: "string \<Rightarrow> string" where
  "py_repr s =
     (let single = char_of (39 :: nat); double = char_of (34 :: nat);
          q = (if single \<in> set s \<and> double \<notin> set s then double else single)
      in q # concat (map (repr_char q) s) @ [q])"

definition invalid_event :: "rid \<Rightarrow> string \<Rightarrow> lp request_event" where
  "invalid_event r msg =
     \<lparr>re_request_id = r, re_new_token_ids = [], re_finish_reason = Some ''invalid'', re_prompt_len = 0,
      re_delta_logprobs = None, re_prompt_logprobs = None, re_error = Some msg\<rparr>"

text \<open>\<^verbatim>\<open>apply\<close> of one \<^verbatim>\<open>AddRequest\<close>; \<open>say\<close> is the text of the exception.\<close>

definition apply_add ::
  "senv \<Rightarrow> (sampling_params new_request \<Rightarrow> string) \<Rightarrow> sampling_params new_request \<Rightarrow> event_loop \<Rightarrow> event_loop res" where
  "apply_add E say cmd el =
     (if stopping el then Inr el
      else case sched_add_request E (el_next el) [] (Some (ar_sampling_params cmd)) (Some (ar_request_id cmd))
                  (Some (ar_prompt_token_ids cmd)) False (ar_arrival_time cmd) (el_scheduler el) of
             (sc, Inl e) \<Rightarrow>
               if e = ValueError
               then Inr (put_event (SchedulerEvents [invalid_event (ar_request_id cmd) (say cmd)] None)
                           (el\<lparr>el_scheduler := sc, el_next := el_next el + 1\<rparr>))
               else Inl e
           | (sc, Inr _) \<Rightarrow>
               Inr (el\<lparr>el_scheduler := sc, el_next := el_next el + 1,
                      sent_tokens := AList.update (ar_request_id cmd) 0 (sent_tokens el),
                      stream_outputs := AList.update (ar_request_id cmd) (ar_stream cmd) (stream_outputs el)\<rparr>))"

definition utility_reply :: "nat \<Rightarrow> string \<Rightarrow> event_loop \<Rightarrow> utility_event" where
  "utility_reply k method el =
     (let P = sc_planner (el_scheduler el)
      in if method = ''step_stats''
         then \<lparr>ue_call_id = k, ue_result = Some \<lparr>ss_running = num_running P, ss_waiting = num_waiting P,
                 ss_promoting = num_promoting P, ss_last_step_ms = last_step_ms el\<rparr>, ue_failure_message = None\<rparr>
         else \<lparr>ue_call_id = k, ue_result = None, ue_failure_message = Some (''unknown utility method '' @ py_repr method)\<rparr>)"

fun apply_command ::
  "senv \<Rightarrow> (sampling_params new_request \<Rightarrow> string) \<Rightarrow> sampling_params command \<Rightarrow> event_loop \<Rightarrow> event_loop res" where
  "apply_command E say (AddRequestBatch cmds) el = rfold (apply_add E say) cmds el"
| "apply_command E say (AddRequest cmd) el = apply_add E say cmd el"
| "apply_command E say (AbortRequest r) el =
     rbind (sched_abort E r (el_scheduler el)) (\<lambda>(sc, _).
       Inr (el\<lparr>el_scheduler := sc, sent_tokens := AList.delete r (sent_tokens el), stream_outputs := AList.delete r (stream_outputs el)\<rparr>))"
| "apply_command E say (UtilityRequest k method) el = Inr (put_event (SchedulerEvents [] (Some (utility_reply k method el))) el)"
| "apply_command E say WakeScheduler el = Inr el"
| "apply_command E say ShutdownScheduler el = Inr (el\<lparr>stopping := True\<rparr>)"

text \<open>Taking commands until the queue is empty or a shutdown arrives; what is behind a shutdown is never taken.\<close>

primrec drain_commands ::
  "senv \<Rightarrow> (sampling_params new_request \<Rightarrow> string) \<Rightarrow> sampling_params command list \<Rightarrow> event_loop \<Rightarrow> event_loop res" where
  "drain_commands E say [] el = Inr el"
| "drain_commands E say (c # cs) el =
     rbind (apply_command E say c el) (\<lambda>el1. if stopping el1 then Inr el1 else drain_commands E say cs el1)"

section \<open>Publishing\<close>

type_synonym publish_state = "(rid, nat) dict \<times> (rid, bool) dict \<times> lp request_event list"

definition token_event :: "request \<Rightarrow> int list \<Rightarrow> lp request_event" where
  "token_event r new =
     \<lparr>re_request_id = request_id r, re_new_token_ids = new, re_finish_reason = finish_reason r, re_prompt_len = prompt_len r,
      re_delta_logprobs = (if new \<noteq> [] then delta_logprobs r else None),
      re_prompt_logprobs = (if is_finished r then prompt_logprobs r else None), re_error = None\<rparr>"

definition publish_one :: "(oid \<Rightarrow> request) \<Rightarrow> oid \<Rightarrow> publish_state \<Rightarrow> publish_state" where
  "publish_one st x s =
     (case s of (sents, streams, outputs) \<Rightarrow>
        let r = st x; rid = request_id r;
            stream = (case map_of streams rid of None \<Rightarrow> True | Some b \<Rightarrow> b)
        in if \<not> stream \<and> \<not> is_finished r then s
           else
             let sent = (case map_of sents rid of None \<Rightarrow> 0 | Some n \<Rightarrow> n);
                 new = drop sent (output_token_ids r);
                 sents1 = (if new \<noteq> [] then AList.update rid (sent + length new) sents else sents)
             in (if is_finished r then AList.delete rid sents1 else sents1,
                 if is_finished r then AList.delete rid streams else streams,
                 if new \<noteq> [] \<or> is_finished r then outputs @ [token_event r new] else outputs))"

definition publish :: "oid list \<Rightarrow> event_loop \<Rightarrow> event_loop" where
  "publish advanced el =
     (case fold (publish_one (objs (sc_planner (el_scheduler el)))) advanced (sent_tokens el, stream_outputs el, []) of
        (sents, streams, outputs) \<Rightarrow>
          let el1 = el\<lparr>sent_tokens := sents, stream_outputs := streams\<rparr>
          in if outputs \<noteq> [] then put_event (SchedulerEvents outputs None) el1 else el1)"

definition step_and_publish :: "senv \<Rightarrow> rat \<Rightarrow> event_loop \<Rightarrow> event_loop res" where
  "step_and_publish E ms el =
     rbind (step E (el_scheduler el)) (\<lambda>(sc, advanced). Inr (publish advanced (el\<lparr>el_scheduler := sc, last_step_ms := ms\<rparr>)))"

section \<open>One turn\<close>

record turn_input =
  ti_commands :: "sampling_params command list"
  ti_parent_alive :: bool
  ti_peers_active :: bool
  ti_step_ms :: rat

text \<open>The flag says that the loop has returned.\<close>

definition turn ::
  "senv \<Rightarrow> (sampling_params new_request \<Rightarrow> string) \<Rightarrow> turn_input \<Rightarrow> event_loop \<Rightarrow> (event_loop \<times> bool) res" where
  "turn E say i el =
     (if \<not> stopping el \<and> ti_commands i = [] \<and> \<not> ti_parent_alive i then Inr (el, True)
      else
        rbind (if stopping el then Inr el else drain_commands E say (ti_commands i) el) (\<lambda>el1.
          let local_active = sched_has_unfinished (el_scheduler el1)
          in if dp_attention E
             then
               let el2 = el1\<lparr>globally_active := local_active \<or> ti_peers_active i\<rparr>
               in if \<not> globally_active el2 then Inr (el2, stopping el2)
                  else rbind (step_and_publish E (ti_step_ms i) el2) (\<lambda>el3. Inr (el3, False))
             else if \<not> local_active then Inr (el1, stopping el1)
             else rbind (step_and_publish E (ti_step_ms i) el1) (\<lambda>el2. Inr (el2, False))))"

primrec run_event_loop ::
  "senv \<Rightarrow> (sampling_params new_request \<Rightarrow> string) \<Rightarrow> turn_input list \<Rightarrow> event_loop \<Rightarrow> (event_loop \<times> bool) res" where
  "run_event_loop E say [] el = Inr (el, False)"
| "run_event_loop E say (i # is) el =
     rbind (turn E say i el) (\<lambda>(el1, returned). if returned then Inr (el1, True) else run_event_loop E say is el1)"

section \<open>The loop never raises\<close>

definition loop_ok :: "senv \<Rightarrow> event_loop \<Rightarrow> bool" where
  "loop_ok E el \<longleftrightarrow>
     sync_inv any_prompt E (el_scheduler el) \<and> jobs_ok (el_scheduler el) \<and> \<not> pipeline_on (el_scheduler el) \<and>
     tokenizing (el_scheduler el) = [] \<and>
     (\<forall>r x. map_of (live (sc_planner (el_scheduler el))) r = Some x \<longrightarrow> x < el_next el)"

definition env_ok :: "senv \<Rightarrow> bool" where
  "env_ok E \<longleftrightarrow> digest8 (digest (penv E)) \<and> device_ok E \<and> tokenizer_ok E"

text \<open>The prompts of a command have 32-bit ids.\<close>

fun command_ok :: "sampling_params command \<Rightarrow> bool" where
  "command_ok (AddRequest cmd) = tokens_ok (ar_prompt_token_ids cmd)"
| "command_ok (AddRequestBatch cmds) = (\<forall>cmd \<in> set cmds. tokens_ok (ar_prompt_token_ids cmd))"
| "command_ok c = True"

lemma loop_ok_cong:
  "el_scheduler el' = el_scheduler el \<Longrightarrow> el_next el' = el_next el \<Longrightarrow> loop_ok E el' = loop_ok E el"
  by (simp add: loop_ok_def)

lemma apply_add_ok:
  assumes el: "loop_ok E el" and env: "env_ok E" and ts: "tokens_ok (ar_prompt_token_ids cmd)"
  shows "\<exists>el'. apply_add E say cmd el = Inr el' \<and> loop_ok E el'"
proof (cases "stopping el")
  case True
  then show ?thesis using el by (simp add: apply_add_def)
next
  case False
  let ?sc = "el_scheduler el"
  have i: "sync_inv any_prompt E ?sc" "jobs_ok ?sc" "\<not> pipeline_on ?sc" "tokenizing ?sc = []"
    "\<And>r x. map_of (live (sc_planner ?sc)) r = Some x \<Longrightarrow> x < el_next el"
    using el by (simp_all add: loop_ok_def)
  have tk: "tokenizer_ok E" using env by (simp add: env_ok_def)
  have x: "idle ?sc (el_next el)" using i(5) by (fastforce simp: idle_def)
  have nj: "\<forall>j \<in> set (tokenizing ?sc). tj_request (snd j) \<noteq> el_next el" using i(4) by simp
  have t: "\<forall>ts. Some (ar_prompt_token_ids cmd) = Some ts \<longrightarrow> tokens_ok ts" using ts by simp
  obtain sc res where a: "sched_add_request E (el_next el) [] (Some (ar_sampling_params cmd)) (Some (ar_request_id cmd))
      (Some (ar_prompt_token_ids cmd)) False (ar_arrival_time cmd) ?sc = (sc, res)"
    by (cases "sched_add_request E (el_next el) [] (Some (ar_sampling_params cmd)) (Some (ar_request_id cmd))
      (Some (ar_prompt_token_ids cmd)) False (ar_arrival_time cmd) ?sc")
  note ad = sched_add_ok [OF i(1,2) tk x nj t a admits_any]
  have ok: "loop_ok E el'" if "el_scheduler el' = sc" "el_next el' = el_next el + 1" for el'
    using ad(1,2,3,7) i(3,4) ad(5) i(5) unfolding loop_ok_def that by (auto simp: less_Suc_eq)
  show ?thesis
  proof (cases res)
    case (Inl e)
    then have "e = ValueError" using ad(4) by simp
    then show ?thesis using False a Inl ok by (simp add: apply_add_def put_event_def)
  next
    case (Inr u)
    then show ?thesis using False a ok by (simp add: apply_add_def)
  qed
qed

lemma apply_adds_ok:
  assumes "loop_ok E el" "env_ok E" "\<forall>cmd \<in> set cmds. tokens_ok (ar_prompt_token_ids cmd)"
  shows "\<exists>el'. rfold (apply_add E say) cmds el = Inr el' \<and> loop_ok E el'"
  using assms
proof (induction cmds arbitrary: el)
  case (Cons c cs)
  then obtain el1 where "apply_add E say c el = Inr el1" "loop_ok E el1" using apply_add_ok by fastforce
  then show ?case using Cons.IH [of el1] Cons.prems(2,3) by simp
qed simp

lemma apply_command_ok:
  assumes el: "loop_ok E el" and env: "env_ok E" and c: "command_ok c"
  shows "\<exists>el'. apply_command E say c el = Inr el' \<and> loop_ok E el'"
proof (cases c)
  case (AddRequest cmd)
  then show ?thesis using apply_add_ok [OF el env] c by simp
next
  case (AddRequestBatch cmds)
  then show ?thesis using apply_adds_ok [OF el env] c by simp
next
  case (AbortRequest r)
  let ?sc = "el_scheduler el"
  have i: "sync_inv any_prompt E ?sc" "jobs_ok ?sc" "\<not> pipeline_on ?sc" "tokenizing ?sc = []"
    "\<And>r x. map_of (live (sc_planner ?sc)) r = Some x \<Longrightarrow> x < el_next el"
    using el by (simp_all add: loop_ok_def)
  have D: "digest8 (digest (penv E))" using env by (simp add: env_ok_def)
  show ?thesis
  proof (cases rule: sched_abort_ok [OF i(1,2) D, of r, case_names encoding unknown live])
    case (encoding j)
    then show ?thesis using i(4) by simp
  next
    case unknown
    then show ?thesis using AbortRequest el by (simp add: loop_ok_def)
  next
    case (live x sc')
    have "set (live (sc_planner sc')) \<subseteq> set (live (sc_planner ?sc))" "frozen sc' = frozen ?sc"
      using harvest_frameD(12,13) [OF live(6)] by simp_all
    then have "map_of (live (sc_planner sc')) s = Some y \<Longrightarrow> y < el_next el" for s y
      using i(5) sync_live [OF i(1)] by (metis map_of_SomeD map_of_is_SomeI subsetD)
    then show ?thesis
      using AbortRequest live(3-5) i(3,4) \<open>frozen sc' = frozen ?sc\<close> by (simp add: loop_ok_def frozen_def)
  qed
next
  case (UtilityRequest k m)
  then show ?thesis using el by (simp add: loop_ok_def put_event_def)
qed (use el in \<open>simp_all add: loop_ok_def\<close>)

lemma drain_commands_ok:
  assumes "loop_ok E el" "env_ok E" "\<forall>c \<in> set cs. command_ok c"
  shows "\<exists>el'. drain_commands E say cs el = Inr el' \<and> loop_ok E el'"
  using assms
proof (induction cs arbitrary: el)
  case (Cons c cs)
  then obtain el1 where "apply_command E say c el = Inr el1" "loop_ok E el1" using apply_command_ok by fastforce
  then show ?case using Cons.IH [of el1] Cons.prems(2,3) by simp
qed simp

lemma publish_scheduler [simp]: "el_scheduler (publish adv el) = el_scheduler el" "el_next (publish adv el) = el_next el"
  by (simp_all add: publish_def put_event_def Let_def split: prod.split)

lemma step_and_publish_ok:
  assumes el: "loop_ok E el" and env: "env_ok E"
  shows "\<exists>sc adv. step E (el_scheduler el) = Inr (sc, adv) \<and>
    step_and_publish E ms el = Inr (publish adv (el\<lparr>el_scheduler := sc, last_step_ms := ms\<rparr>)) \<and>
    loop_ok E (publish adv (el\<lparr>el_scheduler := sc, last_step_ms := ms\<rparr>)) \<and> step_reports (el_scheduler el) sc adv"
proof -
  let ?sc = "el_scheduler el"
  have i: "sync_inv any_prompt E ?sc" "jobs_ok ?sc" "\<not> pipeline_on ?sc" "tokenizing ?sc = []"
    "\<And>r x. map_of (live (sc_planner ?sc)) r = Some x \<Longrightarrow> x < el_next el"
    using el by (simp_all add: loop_ok_def)
  obtain sc adv where s: "step_synchronous E ?sc = Inr (sc, adv)" "sync_inv any_prompt E sc" "step_quiet ?sc sc" "step_reports ?sc sc adv"
    using step_synchronous_ok [OF i(1)] env unfolding env_ok_def by blast
  have st: "step E ?sc = Inr (sc, adv)" using s(1) i(3,4) by (simp add: step_def collect_tokenized_def)
  have f: "frozen sc = frozen ?sc" "set (live (sc_planner sc)) \<subseteq> set (live (sc_planner ?sc))"
    using s(3) by (simp_all add: step_quiet_def)
  have "map_of (live (sc_planner sc)) r = Some y \<Longrightarrow> y < el_next el" for r y
    using i(5) sync_live [OF i(1)] f(2) by (metis map_of_SomeD map_of_is_SomeI subsetD)
  then have "loop_ok E (publish adv (el\<lparr>el_scheduler := sc, last_step_ms := ms\<rparr>))"
    using s(2) i(3,4) f(1) by (simp add: loop_ok_def frozen_def jobs_ok_def)
  then show ?thesis using st s(4) by (simp add: step_and_publish_def)
qed

lemma turn_ok:
  assumes el: "loop_ok E el" and env: "env_ok E" and c: "\<forall>c \<in> set (ti_commands i). command_ok c"
  shows "\<exists>t. turn E say i el = Inr t \<and> loop_ok E (fst t)"
proof (cases "\<not> stopping el \<and> ti_commands i = [] \<and> \<not> ti_parent_alive i")
  case True
  then show ?thesis using el by (simp add: turn_def)
next
  case False
  obtain el1 where d: "(if stopping el then Inr el else drain_commands E say (ti_commands i) el) = Inr el1" "loop_ok E el1"
    using drain_commands_ok [OF el env c] el by (cases "stopping el") auto
  let ?el2 = "el1\<lparr>globally_active := sched_has_unfinished (el_scheduler el1) \<or> ti_peers_active i\<rparr>"
  have l2: "loop_ok E ?el2" using d(2) by (simp add: loop_ok_def)
  obtain el3 where "step_and_publish E (ti_step_ms i) ?el2 = Inr el3" "loop_ok E el3"
    using step_and_publish_ok [OF l2 env] by blast
  moreover obtain el4 where "step_and_publish E (ti_step_ms i) el1 = Inr el4" "loop_ok E el4"
    using step_and_publish_ok [OF d(2) env] by blast
  ultimately show ?thesis using d l2 unfolding turn_def if_not_P [OF False] by (auto simp: Let_def)
qed

lemma event_loop_ok:
  assumes "loop_ok E el" "env_ok E" "\<forall>i \<in> set is. \<forall>c \<in> set (ti_commands i). command_ok c"
  shows "\<exists>t. run_event_loop E say is el = Inr t \<and> loop_ok E (fst t)"
  using assms
proof (induction "is" arbitrary: el)
  case (Cons i "is")
  then obtain el1 b where "turn E say i el = Inr (el1, b)" "loop_ok E el1" using turn_ok [of E el i say] by fastforce
  then show ?case using Cons.IH [of el1] Cons.prems(2,3) by (cases b) simp_all
qed simp

section \<open>What is published\<close>

text \<open>The tokens published for an id, in order.\<close>

definition tokens_of_events :: "rid \<Rightarrow> lp request_event list \<Rightarrow> int list" where
  "tokens_of_events r es = concat (map re_new_token_ids (filter (\<lambda>e. re_request_id e = r) es))"

fun outputs_of :: "lp event \<Rightarrow> lp request_event list" where
  "outputs_of (SchedulerEvents es u) = es"
| "outputs_of e = []"

definition published :: "rid \<Rightarrow> event_loop \<Rightarrow> int list" where
  "published r el = tokens_of_events r (concat (map outputs_of (el_events el)))"

lemma tokens_of_events_append [simp]: "tokens_of_events r (es @ fs) = tokens_of_events r es @ tokens_of_events r fs"
  and tokens_of_events_Nil [simp]: "tokens_of_events r [] = []"
  by (simp_all add: tokens_of_events_def)

text \<open>Publishing other requests does not touch an id; publishing its own request emits what is new.\<close>

lemma publish_one_other:
  assumes "request_id (st y) \<noteq> r" "publish_one st y (sents, streams, outs) = (sents', streams', outs')"
  shows "map_of sents' r = map_of sents r" "map_of streams' r = map_of streams r"
    "tokens_of_events r outs' = tokens_of_events r outs" "\<exists>es. outs' = outs @ es"
  using assms by (auto simp: publish_one_def Let_def dict_simps token_event_def tokens_of_events_def split: if_splits option.splits)

lemma publish_others:
  assumes "\<forall>y \<in> set ys. request_id (st y) \<noteq> r" "fold (publish_one st) ys (sents, streams, outs) = (sents', streams', outs')"
  shows "map_of sents' r = map_of sents r \<and> map_of streams' r = map_of streams r \<and>
    tokens_of_events r outs' = tokens_of_events r outs \<and> (\<exists>es. outs' = outs @ es)"
  using assms
proof (induction ys arbitrary: sents streams outs)
  case (Cons y ys)
  obtain a b c where s: "publish_one st y (sents, streams, outs) = (a, b, c)" by (cases "publish_one st y (sents, streams, outs)")
  have "request_id (st y) \<noteq> r" using Cons.prems(1) by simp
  note o = publish_one_other [OF this s]
  have "fold (publish_one st) ys (a, b, c) = (sents', streams', outs')" using Cons.prems(2) s by simp
  from Cons.IH [OF _ this] Cons.prems(1) o show ?case by auto
qed simp

definition event_sent :: "request \<Rightarrow> int list \<Rightarrow> lp request_event list" where
  "event_sent r new = (if new \<noteq> [] \<or> is_finished r then [token_event r new] else [])"

lemma publish_one_self:
  assumes r: "request_id (st x) = r" and sm: "map_of streams r = Some True \<or> is_finished (st x)" and n: "map_of sents r = Some n"
    and p: "publish_one st x (sents, streams, outs) = (sents', streams', outs')"
  shows "outs' = outs @ event_sent (st x) (drop n (output_token_ids (st x)))"
    "map_of sents' r = (if is_finished (st x) then None else Some (max n (length (output_token_ids (st x)))))"
    "\<not> is_finished (st x) \<Longrightarrow> map_of streams' r = map_of streams r"
proof -
  let ?new = "drop n (output_token_ids (st x))"
  define stream where "stream = (case map_of streams r of None \<Rightarrow> True | Some b \<Rightarrow> b)"
  have go: "\<not> (\<not> stream \<and> \<not> is_finished (st x))" using sm by (auto simp: stream_def)
  have e: "publish_one st x (sents, streams, outs) =
      (if is_finished (st x) then AList.delete r (if ?new \<noteq> [] then AList.update r (n + length ?new) sents else sents)
         else if ?new \<noteq> [] then AList.update r (n + length ?new) sents else sents,
       if is_finished (st x) then AList.delete r streams else streams, outs @ event_sent (st x) ?new)"
    unfolding publish_one_def prod.case Let_def r n option.case stream_def [symmetric] if_not_P [OF go] event_sent_def
    by (simp add: r)
  show "outs' = outs @ event_sent (st x) ?new" using p unfolding e by simp
  show "map_of streams' r = map_of streams r" if "\<not> is_finished (st x)" using p that unfolding e by simp
  show "map_of sents' r = (if is_finished (st x) then None else Some (max n (length (output_token_ids (st x)))))"
    using p n unfolding e by (auto simp: dict_simps)
qed

lemma publish_fold_self:
  assumes d: "distinct adv" "x \<in> set adv" and ids: "\<And>y. y \<in> set adv \<Longrightarrow> y \<noteq> x \<Longrightarrow> request_id (st y) \<noteq> request_id (st x)"
    and sm: "map_of streams (request_id (st x)) = Some True \<or> is_finished (st x)" and n: "map_of sents (request_id (st x)) = Some n"
    and f: "fold (publish_one st) adv (sents, streams, []) = (sents', streams', outs')"
  shows "tokens_of_events (request_id (st x)) outs' = drop n (output_token_ids (st x))"
    "map_of sents' (request_id (st x)) = (if is_finished (st x) then None else Some (max n (length (output_token_ids (st x)))))"
    "\<not> is_finished (st x) \<Longrightarrow> map_of streams' (request_id (st x)) = map_of streams (request_id (st x))"
    "is_finished (st x) \<Longrightarrow> token_event (st x) (drop n (output_token_ids (st x))) \<in> set outs'"
proof -
  let ?r = "request_id (st x)" and ?new = "drop n (output_token_ids (st x))"
  obtain ys zs where adv: "adv = ys @ x # zs" using d(2) by (meson split_list)
  then have xs: "x \<notin> set ys" "x \<notin> set zs" using d(1) by auto
  obtain a b c where s1: "fold (publish_one st) ys (sents, streams, []) = (a, b, c)"
    by (cases "fold (publish_one st) ys (sents, streams, [])")
  obtain a2 b2 c2 where s2: "publish_one st x (a, b, c) = (a2, b2, c2)" by (cases "publish_one st x (a, b, c)")
  have s3: "fold (publish_one st) zs (a2, b2, c2) = (sents', streams', outs')" using f by (simp add: adv s1 s2)
  have p1: "map_of a ?r = map_of sents ?r" "map_of b ?r = map_of streams ?r" "tokens_of_events ?r c = []"
    using publish_others [OF _ s1, of ?r] ids adv xs by auto
  have p3: "map_of sents' ?r = map_of a2 ?r" "map_of streams' ?r = map_of b2 ?r"
    "tokens_of_events ?r outs' = tokens_of_events ?r c2" "\<exists>es. outs' = c2 @ es"
    using publish_others [OF _ s3, of ?r] ids adv xs by auto
  have m: "map_of b ?r = Some True \<or> is_finished (st x)" "map_of a ?r = Some n" using sm n p1 by simp_all
  note p2 = publish_one_self [OF refl m s2]
  have "tokens_of_events ?r (event_sent (st x) ?new) = ?new"
    by (simp add: event_sent_def tokens_of_events_def token_event_def)
  then show "tokens_of_events ?r outs' = ?new" using p2(1) p1(3) p3(3) by simp
  show "map_of sents' ?r = (if is_finished (st x) then None else Some (max n (length (output_token_ids (st x)))))"
    using p2(2) p3(1) by simp
  show "map_of streams' ?r = map_of streams ?r" if "\<not> is_finished (st x)" using p2(3) that p1(2) p3(2) by simp
  show "token_event (st x) ?new \<in> set outs'" if "is_finished (st x)"
    using that p2(1) p3(4) by (auto simp: event_sent_def)
qed

section \<open>Properties\<close>

text \<open>C3: the command loop of a scheduler process never raises. From construction in synchronous mode, for every sequence of
  turns, whatever commands arrive (duplicate ids, prompts that are empty or too long, aborts of unknown ids, unknown utility
  methods, commands behind a shutdown), as long as prompt ids have 32 bits and no request asks for prompt log-probabilities (\<open>device_ok\<close>), every turn returns and the
  planner stays well formed; a rejected request is answered by an event.\<close>

theorem event_loop_never_raises:
  assumes "config_check c0 = Inr c" "\<not> want_pipeline g" "\<forall>x. pending_tokens (store x) = 0"
    "scheduler_init g dpa depth store ios c None = Inr sc" "env_ok E"
    "\<forall>i \<in> set is. \<forall>cmd \<in> set (ti_commands i). command_ok cmd"
  shows "\<exists>el returned. run_event_loop E say is (loop_init 0 sc) = Inr (el, returned) \<and>
    planner_inv (digest (penv E)) (sc_planner (el_scheduler el))"
proof -
  have "loop_ok E (loop_init 0 sc)"
    using scheduler_init_ok [OF assms(1-4)] by (simp add: loop_ok_def loop_init_def)
  from event_loop_ok [OF this assms(5,6), of say] obtain t where t: "run_event_loop E say is (loop_init 0 sc) = Inr t" "loop_ok E (fst t)" by blast
  then have "planner_inv (digest (penv E)) (sc_planner (el_scheduler (fst t)))"
    by (intro sched_invD(1) [where G = any_prompt]) (simp add: loop_ok_def sync_inv_def)
  then show ?thesis using t(1) by (cases t) auto
qed

definition demo_command :: "sampling_params new_request" where
  "demo_command = \<lparr>ar_request_id = ''a'', ar_prompt_token_ids = [5, 6, 7], ar_sampling_params = default_params, ar_arrival_time = 0,
     ar_stream = True\<rparr>"

definition demo_turn :: turn_input where
  "demo_turn = \<lparr>ti_commands = [AddRequest demo_command, AddRequest demo_command, AbortRequest ''b'', ShutdownScheduler],
     ti_parent_alive = True, ti_peers_active = False, ti_step_ms = 1\<rparr>"

lemma demo_env_ok: "env_ok demo_E"
  using demo_E_ok by (simp add: env_ok_def)

theorem event_loop_never_raises_witness:
  "\<exists>sc el returned. demo_scheduler = Inr sc \<and> run_event_loop demo_E (\<lambda>c. []) [demo_turn, demo_turn] (loop_init 0 sc) = Inr (el, returned)"
proof -
  have c: "config_check demo_config = Inr demo_config" by code_simp
  obtain sc where sc: "demo_scheduler = Inr sc" by (rule demo_scheduler_start) (rule that)
  have "\<exists>el returned. run_event_loop demo_E (\<lambda>c. []) [demo_turn, demo_turn] (loop_init 0 sc) = Inr (el, returned) \<and>
      planner_inv (digest (penv demo_E)) (sc_planner (el_scheduler el))"
    by (rule event_loop_never_raises [OF c _ _ sc [unfolded demo_scheduler_def] demo_env_ok])
      (simp_all add: demo_facts_def demo_request_def demo_turn_def demo_command_def tokens_ok_def)
  then show ?thesis using sc by blast
qed

lemma publish_published:
  assumes "fold (publish_one (objs (sc_planner (el_scheduler el)))) adv (sent_tokens el, stream_outputs el, []) = (sents, streams, outs)"
  shows "sent_tokens (publish adv el) = sents" "stream_outputs (publish adv el) = streams"
    "published r (publish adv el) = published r el @ tokens_of_events r outs"
    "concat (map outputs_of (el_events (publish adv el))) = concat (map outputs_of (el_events el)) @ outs"
  using assms by (simp_all add: publish_def put_event_def published_def Let_def)

text \<open>C6: streamed tokens are delivered exactly once and in order. When a streamed request's published count is the length of
  its output and the step does not evict it with generated tokens, then what the step appended to its output is exactly what
  is published for its id, and the count is again the length of the output; when the request ended, an event carries its
  finish reason and its count is forgotten. As in C3, no request asks for prompt log-probabilities.\<close>

theorem publish_delivers:
  assumes el: "loop_ok E el" and env: "env_ok E" and x: "map_of (live (sc_planner (el_scheduler el))) r = Some x"
    and st: "map_of (stream_outputs el) r = Some True"
    and n: "map_of (sent_tokens el) r = Some (length (output_token_ids (sobj (el_scheduler el) x)))"
    and s: "step_and_publish E ms el = Inr el'"
    and keep: "prompt_token_ids (sobj (el_scheduler el') x) = prompt_token_ids (sobj (el_scheduler el) x)"
  shows "\<exists>new. output_token_ids (sobj (el_scheduler el') x) = output_token_ids (sobj (el_scheduler el) x) @ new \<and>
    published r el' = published r el @ new \<and>
    (if is_finished (sobj (el_scheduler el') x)
     then map_of (sent_tokens el') r = None \<and>
       (\<exists>es. concat (map outputs_of (el_events el')) = concat (map outputs_of (el_events el)) @ es \<and>
         token_event (sobj (el_scheduler el') x) new \<in> set es)
     else map_of (sent_tokens el') r = Some (length (output_token_ids (sobj (el_scheduler el') x))) \<and>
       map_of (stream_outputs el') r = Some True)"
proof -
  let ?sc = "el_scheduler el" and ?out = "output_token_ids (sobj (el_scheduler el) x)"
  obtain sc adv where p: "step E ?sc = Inr (sc, adv)" "el' = publish adv (el\<lparr>el_scheduler := sc, last_step_ms := ms\<rparr>)"
    "step_reports ?sc sc adv"
    using step_and_publish_ok [OF el env, of ms] s by auto
  let ?el = "el\<lparr>el_scheduler := sc, last_step_ms := ms\<rparr>"
  have sc': "el_scheduler el' = sc" by (simp add: p(2))
  have r: "request_id (sobj ?sc x) = r"
    using el x queues_okD(8) planner_invD(3) sched_invD(1) unfolding loop_ok_def sync_inv_def by blast
  have rep: "distinct adv" "\<And>y. request_id (sobj sc y) = request_id (sobj ?sc y)"
    "\<And>y. y \<in> set adv \<Longrightarrow> map_of (live (sc_planner ?sc)) (request_id (sobj ?sc y)) = Some y"
    "x \<notin> set adv \<Longrightarrow> \<not> is_finished (sobj sc x)" "prefix ?out (output_token_ids (sobj sc x))"
    "x \<notin> set adv \<Longrightarrow> output_token_ids (sobj sc x) = ?out"
    using p(3) x keep unfolding step_reports_def sc' by blast+
  obtain new where new: "output_token_ids (sobj sc x) = ?out @ new" using rep(5) by (auto simp: prefix_def)
  obtain sents streams outs where f: "fold (publish_one (objs (sc_planner sc))) adv (sent_tokens el, stream_outputs el, []) = (sents, streams, outs)"
    by (cases "fold (publish_one (objs (sc_planner sc))) adv (sent_tokens el, stream_outputs el, [])")
  have f': "fold (publish_one (objs (sc_planner (el_scheduler ?el)))) adv (sent_tokens ?el, stream_outputs ?el, []) = (sents, streams, outs)"
    using f by simp
  note pub = publish_published [OF f']
  have pe: "published r ?el = published r el" "el_events ?el = el_events el" by (simp_all add: published_def)
  show ?thesis
  proof (cases "x \<in> set adv")
    case True
    have ids: "request_id (sobj sc y) \<noteq> request_id (sobj sc x)" if "y \<in> set adv" "y \<noteq> x" for y
      using rep(3) [OF that(1)] that(2) x unfolding rep(2) r by auto
    have rs: "request_id (sobj sc x) = r" using rep(2) r by simp
    have a: "map_of (stream_outputs el) (request_id (sobj sc x)) = Some True \<or> is_finished (sobj sc x)"
      "map_of (sent_tokens el) (request_id (sobj sc x)) = Some (length ?out)" using st n rs by simp_all
    note self = publish_fold_self [OF rep(1) True ids a f, unfolded rs, simplified new, simplified]
    show ?thesis
      using self pub pe st by (intro exI [of _ new]) (auto simp: sc' p(2) new)
  next
    case False
    have o: "\<forall>y \<in> set adv. request_id (sobj sc y) \<noteq> r" using rep(2,3) x False by auto
    have "map_of sents r = map_of (sent_tokens el) r \<and> map_of streams r = map_of (stream_outputs el) r \<and> tokens_of_events r outs = []"
      using publish_others [OF o f] by simp
    then show ?thesis
      using rep(4,6) [OF False] pub pe st n by (intro exI [of _ "[]"]) (simp add: sc' p(2))
  qed
qed

lemma demo_loop:
  obtains sc el where "demo_scheduler = Inr sc" "apply_command demo_E (\<lambda>c. []) (AddRequest demo_command) (loop_init 0 sc) = Inr el"
    "loop_ok demo_E el" "map_of (live (sc_planner (el_scheduler el))) ''a'' = Some 0" "map_of (stream_outputs el) ''a'' = Some True"
    "map_of (sent_tokens el) ''a'' = Some 0" "output_token_ids (sobj (el_scheduler el) 0) = []"
    "prompt_token_ids (sobj (el_scheduler el) 0) = [5, 6, 7]"
proof -
  obtain sc where sc: "demo_scheduler = Inr sc" "sched_reachable demo_E sc" "live (sc_planner sc) = []" "tokenizing sc = []"
    "detokenizers sc = []" "async_tokenize sc = False" "pconfig (sc_planner sc) = demo_config" by (rule demo_scheduler_start) (rule that)
  have c: "config_check demo_config = Inr demo_config" by code_simp
  have "loop_ok demo_E (loop_init 0 sc)"
    using scheduler_init_ok [OF c _ _ sc(1) [unfolded demo_scheduler_def], where E = demo_E and G = any_prompt]
    by (simp add: loop_ok_def loop_init_def demo_facts_def demo_request_def)
  moreover obtain sc' where a: "sched_add_request demo_E 0 [] (Some default_params) (Some ''a'') (Some [5, 6, 7]) False 0 sc = (sc', Inr ())"
    "map_of (live (sc_planner sc')) ''a'' = Some 0" "output_token_ids (sobj sc' 0) = []" "prompt_token_ids (sobj sc' 0) = [5, 6, 7]"
    using sc(3-7)
    by (simp add: sched_add_request_def request_id_in_use_def has_request_id_def register_request_def place_object_def
        add_request_eq refuses_def new_request_object_def prompt_len_def demo_config_def dict_simps)
  moreover obtain el where el: "apply_command demo_E (\<lambda>c. []) (AddRequest demo_command) (loop_init 0 sc) = Inr el"
    "el_scheduler el = sc'" "map_of (stream_outputs el) ''a'' = Some True" "map_of (sent_tokens el) ''a'' = Some 0"
    using a(1) by (simp add: apply_add_def loop_init_def demo_command_def dict_simps)
  ultimately have "loop_ok demo_E el"
    using apply_command_ok [of demo_E "loop_init 0 sc" "AddRequest demo_command" "\<lambda>c. []"] demo_env_ok
    by (auto simp: demo_command_def tokens_ok_def)
  then show ?thesis using sc(1) a el that by simp
qed

theorem publish_delivers_witness:
  "\<exists>sc el el' new. demo_scheduler = Inr sc \<and>
     apply_command demo_E (\<lambda>c. []) (AddRequest demo_command) (loop_init 0 sc) = Inr el \<and>
     step_and_publish demo_E 1 el = Inr el' \<and> output_token_ids (sobj (el_scheduler el') 0) = new \<and> published ''a'' el' = published ''a'' el @ new"
proof -
  obtain sc el where l: "demo_scheduler = Inr sc" "apply_command demo_E (\<lambda>c. []) (AddRequest demo_command) (loop_init 0 sc) = Inr el"
    "loop_ok demo_E el" "map_of (live (sc_planner (el_scheduler el))) ''a'' = Some 0" "map_of (stream_outputs el) ''a'' = Some True"
    "map_of (sent_tokens el) ''a'' = Some 0" "output_token_ids (sobj (el_scheduler el) 0) = []"
    by (rule demo_loop) (rule that)
  obtain sc' adv where s: "step_and_publish demo_E 1 el = Inr (publish adv (el\<lparr>el_scheduler := sc', last_step_ms := 1\<rparr>))"
    "step_reports (el_scheduler el) sc' adv"
    using step_and_publish_ok [OF l(3) demo_env_ok, of 1] by blast
  have "prompt_token_ids (sobj sc' 0) = prompt_token_ids (sobj (el_scheduler el) 0)"
    using s(2) l(4,7) unfolding step_reports_def by blast
  then show ?thesis
    using publish_delivers [OF l(3) demo_env_ok l(4,5) _ s(1)] l(1,2,6,7) s(1) by auto
qed

text \<open>C39: tokens generated after an eviction are not published. Preemption moves a request's output into its prompt and empties
  the output, but the loop's count of published tokens stays; so while the new output is not longer than what had been
  published before, publishing the request publishes none of it, although these tokens extend everything the request had,
  and what is sent at its end has no tokens either.\<close>

theorem evicted_tokens_unpublished:
  assumes "planner_inv D P" "x \<in> set (running P)" "preempt x P = Inr P'"
    and "request_id (st x) = request_id (objs P x)" "prompt_token_ids (st x) = prompt_token_ids (objs P' x)"
    and "map_of sents (request_id (objs P x)) = Some (length (output_token_ids (objs P x)))"
    and "length (output_token_ids (st x)) \<le> length (output_token_ids (objs P x))"
    and "publish_one st x (sents, streams, outs) = (sents', streams', outs')"
  shows "tokens (st x) = tokens (objs P x) @ output_token_ids (st x) \<and>
    tokens_of_events (request_id (objs P x)) outs' = tokens_of_events (request_id (objs P x)) outs \<and>
    (\<not> is_finished (st x) \<longrightarrow> (sents', streams', outs') = (sents, streams, outs))"
proof -
  obtain pc s where p: "preempt x P = Inr (preempted x s pc P)" by (rule preempt_ok [OF assms(1,2)])
  then have "prompt_token_ids (st x) = tokens (objs P x)" using assms(3,5) by (simp add: preempted_def recomputed_def)
  moreover have "tokens_of_events (request_id (objs P x)) outs' = tokens_of_events (request_id (objs P x)) outs \<and>
      (\<not> is_finished (st x) \<longrightarrow> (sents', streams', outs') = (sents, streams, outs))"
    using assms(4,6-8) by (auto simp: publish_one_def Let_def token_event_def tokens_of_events_def split: if_splits option.splits)
  ultimately show ?thesis by (simp add: tokens_def)
qed

text \<open>One token was generated and published; the request is evicted, and the token generated after that is never published.\<close>

theorem evicted_tokens_unpublished_witness:
  "\<exists>P P'. demo_run = Inr P \<and> preempt 0 (emit 0 9 P) = Inr P' \<and> tokens (objs (emit 0 9 P) 0) = [5, 6, 7, 9] \<and>
     tokens (objs (emit 0 8 P') 0) = [5, 6, 7, 9, 8] \<and>
     publish_one (objs (emit 0 8 P')) 0 ([(''a'', 1)], [(''a'', True)], []) = ([(''a'', 1)], [(''a'', True)], [])"
proof -
  obtain P where P: "demo_run = Inr P" "reachable demo_env P" "running P = [0]" by (rule demo_state)
  have "case demo_run of Inr P \<Rightarrow> prefill_done (objs P 0) \<and> has_room (objs P 0) \<and> pending_tokens (objs P 0) = 0 \<and>
      output_token_ids (objs P 0) = [] \<and> request_id (objs P 0) = ''a'' \<and> tokens (objs P 0) = [5, 6, 7] \<and>
      \<not> is_finished (objs P 0) | Inl e \<Rightarrow> False" by code_simp
  then have c: "prefill_done (objs P 0)" "has_room (objs P 0)" "pending_tokens (objs P 0) = 0" "output_token_ids (objs P 0) = []"
    "request_id (objs P 0) = ''a''" "tokens (objs P 0) = [5, 6, 7]" "\<not> is_finished (objs P 0)" unfolding P(1) by simp_all
  have r: "reachable demo_env (emit 0 9 P)" by (rule reachable.step [OF P(2) pstep.emit]) (use P(3) c in simp_all)
  note inv = reachable_inv [OF r demo_digest]
  have run: "0 \<in> set (running (emit 0 9 P))" using P(3) by (simp add: emit_def)
  obtain pc s where p: "preempt 0 (emit 0 9 P) = Inr (preempted 0 s pc (emit 0 9 P))" by (rule preempt_ok [OF inv run])
  let ?P' = "preempted 0 s pc (emit 0 9 P)"
  have e: "request_id (objs (emit 0 9 P) 0) = ''a''" "output_token_ids (objs (emit 0 9 P) 0) = [9]"
    "tokens (objs (emit 0 9 P) 0) = [5, 6, 7, 9]" "request_id (objs (emit 0 8 ?P') 0) = ''a''"
    "prompt_token_ids (objs (emit 0 8 ?P') 0) = prompt_token_ids (objs ?P' 0)" "output_token_ids (objs (emit 0 8 ?P') 0) = [8]"
    "\<not> is_finished (objs (emit 0 8 ?P') 0)"
    using c(4-7) by (simp_all add: emit_def preempted_def recomputed_def tokens_def is_finished_def)
  obtain a b d where o: "publish_one (objs (emit 0 8 ?P')) 0 ([(''a'', 1)], [(''a'', True)], []) = (a, b, d)"
    by (cases "publish_one (objs (emit 0 8 ?P')) 0 ([(''a'', 1)], [(''a'', True)], [])")
  from evicted_tokens_unpublished [OF inv run p _ _ _ _ o] show ?thesis using P(1) p e o by auto
qed

end
