(* ===== verification/Async_Engine.thy ===== *)
theory Async_Engine
  imports Event_Loop
begin

text \<open>
  The request manager of a serving process (\<^verbatim>\<open>src/rapid_llm/engine/async_engine.py\<close>): \<^verbatim>\<open>AsyncLLMEngine\<close> registers a stream per
  request, sends commands to the scheduler process, and a receiver thread hands the events that come back to the streams,
  which detokenize them and queue what the client reads.

  The backend (the command queue of one scheduler process, or a data-parallel controller) is a value of type \<open>'b\<close>; \<open>put\<close>
  sends a command to it and may raise. Stream objects live in a store indexed by identity. A coroutine of \<^verbatim>\<open>generate\<close> is a
  value of type \<open>coroutine\<close> and its stretches between two awaits are calls: opening, submitting, reading, closing. The calls
  of the receiver and of the coroutines interleave in any order; each holds the lock that guards what it touches, so it is one
  step (a failure is two in the code, see \<open>mark_failed\<close>). Handing an item to the client's event loop keeps the order and has no effect when that loop is closed.
\<close>

section \<open>Streams\<close>

record 'l streamed_output =
  so_request_id :: rid
  so_delta :: utext
  so_text :: utext
  so_finish_reason :: "string option"
  so_prompt_tokens :: nat
  so_completion_tokens :: nat
  so_logprobs :: "'l option"
  so_prompt_logprobs :: "'l option list option"

definition so_is_finished :: "'l streamed_output \<Rightarrow> bool" where
  "so_is_finished c \<longleftrightarrow> so_finish_reason c \<noteq> None"

text \<open>What a stream delivers: an increment, an exception (of a rejected request or of a failed process), or the end.\<close>

datatype 'l item = Chunk "'l streamed_output" | Rejected string | ProcessFailed string | EndOfStream

record 'l rstream =
  rs_request_id :: rid
  rs_loop_open :: bool
  rs_queue :: "'l item list"
  rs_detokenizer :: detokenizer
  rs_text :: utext
  rs_completion_tokens :: nat
  rs_finished :: bool

definition stream_init :: "rid \<Rightarrow> bool \<Rightarrow> 'l rstream" where
  "stream_init r loop_open =
     \<lparr>rs_request_id = r, rs_loop_open = loop_open, rs_queue = [], rs_detokenizer = detok_init 1, rs_text = [],
      rs_completion_tokens = 0, rs_finished = False\<rparr>"

definition push :: "'l item \<Rightarrow> 'l rstream \<Rightarrow> 'l rstream" where
  "push i s = (if rs_loop_open s then s\<lparr>rs_queue := rs_queue s @ [i]\<rparr> else s)"

definition push_event :: "(int list \<Rightarrow> utext) \<Rightarrow> 'l request_event \<Rightarrow> 'l rstream \<Rightarrow> 'l rstream" where
  "push_event D ev s =
     (case re_error ev of
        Some msg \<Rightarrow> push (Rejected msg) (s\<lparr>rs_finished := True\<rparr>)
      | None \<Rightarrow>
          (case run_appends D (map (Pair 0) (re_new_token_ids ev)) (rs_detokenizer s) of (d, out) \<Rightarrow>
             let delta = concat (map snd out);
                 s1 = s\<lparr>rs_detokenizer := d\<rparr>;
                 s2 = (if re_new_token_ids ev \<noteq> []
                       then s1\<lparr>rs_completion_tokens := rs_completion_tokens s1 + length (re_new_token_ids ev),
                               rs_text := rs_text s1 @ delta\<rparr>
                       else s1);
                 s3 = (if re_finished ev then s2\<lparr>rs_finished := True\<rparr> else s2)
             in if delta = [] \<and> \<not> re_finished ev then s3
                else push (Chunk \<lparr>so_request_id = rs_request_id s3, so_delta = delta, so_text = rs_text s3,
                       so_finish_reason = re_finish_reason ev, so_prompt_tokens = re_prompt_len ev,
                       so_completion_tokens = rs_completion_tokens s3,
                       so_logprobs = (if re_new_token_ids ev \<noteq> [] then re_delta_logprobs ev else None),
                       so_prompt_logprobs = re_prompt_logprobs ev\<rparr>) s3))"

section \<open>The engine\<close>

datatype lifecycle = STARTING | RUNNING | FAILED | CLOSING | CLOSED

record ('b, 'l) async_engine =
  ae_backend :: 'b
  ae_objects :: "nat \<Rightarrow> 'l rstream"
  ae_next :: nat
  ae_streams :: "(rid, nat) dict"
  ae_snapshot :: "(rid, nat) dict"
  ae_request_ids :: nat
  ae_utility_ids :: nat
  ae_state :: lifecycle
  ae_failure :: "string option"
  ae_receiver :: bool
  ae_stop_receiver :: bool
  ae_load :: "(nat \<times> nat) option"

text \<open>The state after a start that succeeded; \<open>objects\<close> is the unused part of the store.\<close>

definition engine_init :: "'b \<Rightarrow> (nat \<Rightarrow> 'l rstream) \<Rightarrow> ('b, 'l) async_engine" where
  "engine_init b objects =
     \<lparr>ae_backend = b, ae_objects = objects, ae_next = 0, ae_streams = [], ae_snapshot = [], ae_request_ids = 0,
      ae_utility_ids = 0, ae_state = RUNNING, ae_failure = None, ae_receiver = False, ae_stop_receiver = False, ae_load = None\<rparr>"

definition update_stream :: "nat \<Rightarrow> ('l rstream \<Rightarrow> 'l rstream) \<Rightarrow> ('b, 'l) async_engine \<Rightarrow> ('b, 'l) async_engine" where
  "update_stream i f e = e\<lparr>ae_objects := (ae_objects e)(i := f (ae_objects e i))\<rparr>"

subsection \<open>The request table\<close>

definition tracker_register :: "rid \<Rightarrow> bool \<Rightarrow> (('b, 'l) async_engine, nat) call" where
  "tracker_register r loop_open e =
     (let i = ae_next e; e1 = e\<lparr>ae_objects := (ae_objects e)(i := stream_init r loop_open), ae_next := i + 1\<rparr>
      in if map_of (ae_streams e1) r \<noteq> None then (e1, Inl ValueError)
         else let streams = AList.update r i (ae_streams e1)
              in (e1\<lparr>ae_streams := streams, ae_snapshot := streams\<rparr>, Inr i))"

definition tracker_get :: "rid \<Rightarrow> ('b, 'l) async_engine \<Rightarrow> nat option" where
  "tracker_get r e = map_of (ae_snapshot e) r"

definition tracker_remove :: "rid \<Rightarrow> nat \<Rightarrow> ('b, 'l) async_engine \<Rightarrow> ('b, 'l) async_engine" where
  "tracker_remove r i e =
     (if map_of (ae_streams e) r = Some i
      then let streams = AList.delete r (ae_streams e) in e\<lparr>ae_streams := streams, ae_snapshot := streams\<rparr>
      else e)"

definition end_stream :: "'l item \<Rightarrow> nat \<Rightarrow> ('b, 'l) async_engine \<Rightarrow> ('b, 'l) async_engine" where
  "end_stream it i = update_stream i (\<lambda>s. push it (s\<lparr>rs_finished := True\<rparr>))"

definition fail_all :: "'l item \<Rightarrow> ('b, 'l) async_engine \<Rightarrow> ('b, 'l) async_engine" where
  "fail_all it e = fold (end_stream it) (map snd (ae_snapshot e)) e"

definition clear_all :: "'l item \<Rightarrow> ('b, 'l) async_engine \<Rightarrow> ('b, 'l) async_engine" where
  "clear_all it e = fold (end_stream it) (map snd (ae_streams e)) (e\<lparr>ae_streams := [], ae_snapshot := []\<rparr>)"

subsection \<open>Commands and lifecycle\<close>

type_synonym 'b put = "sampling_params command \<Rightarrow> ('b, unit) call"

definition put_command :: "'b put \<Rightarrow> sampling_params command \<Rightarrow> (('b, 'l) async_engine, unit) call" where
  "put_command put c e = (case put c (ae_backend e) of (b, res) \<Rightarrow> (e\<lparr>ae_backend := b\<rparr>, res))"

definition require_running :: "(('b, 'l) async_engine, unit) call" where
  "require_running e = (e, if ae_state e = RUNNING then Inr () else Inl RuntimeError)"

definition engine_start :: "(('b, 'l) async_engine, unit) call" where
  "engine_start = cbind require_running (\<lambda>_ e. (e\<lparr>ae_receiver := True\<rparr>, Inr ()))"

definition engine_abort :: "'b put \<Rightarrow> rid \<Rightarrow> (('b, 'l) async_engine, unit) call" where
  "engine_abort put r e = (if ae_state e = RUNNING then put_command put (AbortRequest r) e else (e, Inr ()))"

text \<open>The state is set under the lifecycle lock and the streams are told right after it is released; both are one step here. No
  stream can be registered in between, since opening one checks the state under the same lock.\<close>

definition mark_failed :: "string \<Rightarrow> ('b, 'l) async_engine \<Rightarrow> ('b, 'l) async_engine" where
  "mark_failed msg e =
     (if ae_state e \<noteq> RUNNING then e
      else fail_all (ProcessFailed msg) (e\<lparr>ae_state := FAILED, ae_failure := Some msg, ae_stop_receiver := True\<rparr>))"

definition on_process_exit :: "string \<Rightarrow> ('b, 'l) async_engine \<Rightarrow> ('b, 'l) async_engine" where
  "on_process_exit code e = (if ae_state e \<noteq> RUNNING then e else mark_failed (''exited unexpectedly with code '' @ code) e)"

text \<open>Shutting down: what happens before the backend is joined, and after; the flag says whether there is anything to do.\<close>

definition shutdown_begin :: "'b put \<Rightarrow> ('b, 'l) async_engine \<Rightarrow> ('b, 'l) async_engine \<times> bool" where
  "shutdown_begin put e =
     (if ae_state e = CLOSING \<or> ae_state e = CLOSED then (e, False)
      else ((fst (put_command put ShutdownScheduler (e\<lparr>ae_state := CLOSING\<rparr>)))\<lparr>ae_stop_receiver := True\<rparr>, True))"

definition shutdown_finish :: "('b, 'l) async_engine \<Rightarrow> ('b, 'l) async_engine" where
  "shutdown_finish e = (clear_all EndOfStream e)\<lparr>ae_receiver := False, ae_state := CLOSED\<rparr>"

subsection \<open>Events\<close>

definition apply_utility :: "utility_event \<Rightarrow> ('b, 'l) async_engine \<Rightarrow> ('b, 'l) async_engine" where
  "apply_utility u e =
     (if ue_failure_message u \<noteq> None then e
      else e\<lparr>ae_load := Some (case ue_result u of None \<Rightarrow> (0, 0) | Some r \<Rightarrow> (ss_running r, ss_waiting r))\<rparr>)"

definition deliver :: "(int list \<Rightarrow> utext) \<Rightarrow> 'l request_event \<Rightarrow> ('b, 'l) async_engine \<Rightarrow> ('b, 'l) async_engine" where
  "deliver D ev e = (case tracker_get (re_request_id ev) e of None \<Rightarrow> e | Some i \<Rightarrow> update_stream i (push_event D ev) e)"

definition engine_handle_event :: "(int list \<Rightarrow> utext) \<Rightarrow> 'l event \<Rightarrow> ('b, 'l) async_engine \<Rightarrow> ('b, 'l) async_engine" where
  "engine_handle_event D ev e =
     (case ev of
        SchedulerFailed msg \<Rightarrow> mark_failed msg e
      | SchedulerEvents outputs u \<Rightarrow>
          fold (deliver D) outputs (case u of None \<Rightarrow> e | Some u \<Rightarrow> apply_utility u e)
      | _ \<Rightarrow> e)"

text \<open>One turn of the receiver thread: what a poll of the event queue gave, whether the backend is alive and its exit code, and
  whether statistics are due. The value says that the thread has ended.\<close>

definition receiver_turn ::
  "'b put \<Rightarrow> (int list \<Rightarrow> utext) \<Rightarrow> 'l event option \<Rightarrow> bool \<Rightarrow> string \<Rightarrow> bool \<Rightarrow> (('b, 'l) async_engine, bool) call" where
  "receiver_turn put D polled alive code stats_due e =
     (if ae_stop_receiver e then (e, Inr True)
      else if polled = None \<and> \<not> alive then (on_process_exit code e, Inr True)
      else let e1 = (case polled of None \<Rightarrow> e | Some ev \<Rightarrow> engine_handle_event D ev e)
           in if ae_stop_receiver e1 then (e1, Inr True)
              else if stats_due
              then cbind (put_command put (UtilityRequest (ae_utility_ids e1) ''step_stats'')) (\<lambda>_ e. (e, Inr False))
                     (e1\<lparr>ae_utility_ids := ae_utility_ids e1 + 1\<rparr>)
              else (e1, Inr False))"

text \<open>The startup handshake over the polls made before the deadline.\<close>

fun await_engine_ready :: "('l event option \<times> bool) list \<Rightarrow> ready_info res" where
  "await_engine_ready [] = Inl TimeoutError"
| "await_engine_ready ((None, alive) # qs) = (if alive then await_engine_ready qs else Inl RuntimeError)"
| "await_engine_ready ((Some ev, alive) # qs) =
     (case ev of
        SchedulerFailed msg \<Rightarrow> Inl RuntimeError
      | SchedulerReady r \<Rightarrow> if protocol_version r \<noteq> PROTOCOL_VERSION then Inl RuntimeError else Inr r
      | _ \<Rightarrow> await_engine_ready qs)"

section \<open>Generating\<close>

record coroutine =
  gn_request_id :: rid
  gn_stream :: nat
  gn_submitted :: bool
  gn_last :: bool

definition stream_request_id :: "nat \<Rightarrow> rid" where
  "stream_request_id n = ''request-'' @ decimal n"

text \<open>An id that is absent or empty is replaced by the next of a counter.\<close>

definition generate_open :: "rid option \<Rightarrow> bool \<Rightarrow> (('b, 'l) async_engine, coroutine) call" where
  "generate_open r loop_open =
     cbind engine_start (\<lambda>_ e.
       (case (if r = None \<or> r = Some [] then (stream_request_id (ae_request_ids e), e\<lparr>ae_request_ids := ae_request_ids e + 1\<rparr>)
              else (the r, e)) of
          (r, e1) \<Rightarrow>
            cbind (tracker_register r loop_open)
              (\<lambda>i e. (e, Inr \<lparr>gn_request_id = r, gn_stream = i, gn_submitted = False, gn_last = False\<rparr>)) e1))"

text \<open>The \<^verbatim>\<open>finally\<close> clause.\<close>

definition generate_close :: "'b put \<Rightarrow> coroutine \<Rightarrow> (('b, 'l) async_engine, unit) call" where
  "generate_close put g e =
     (let e1 = tracker_remove (gn_request_id g) (gn_stream g) e
      in if gn_submitted g \<and> \<not> rs_finished (ae_objects e1 (gn_stream g)) then engine_abort put (gn_request_id g) e1 else (e1, Inr ()))"

text \<open>Encoding gives the tokens or an exception; an exception runs the \<^verbatim>\<open>finally\<close> clause.\<close>

definition submit_body ::
  "'b put \<Rightarrow> int list res \<Rightarrow> sampling_params option \<Rightarrow> rat \<Rightarrow> coroutine \<Rightarrow> (('b, 'l) async_engine, coroutine) call" where
  "submit_body put enc params now g e =
     (case enc of
        Inl x \<Rightarrow> (e, Inl x)
      | Inr ts \<Rightarrow>
          if ts = [] then (e, Inl ValueError)
          else cbind require_running (\<lambda>_. cbind (put_command put (AddRequest \<lparr>ar_request_id = gn_request_id g, ar_prompt_token_ids = ts,
                 ar_sampling_params = (case params of None \<Rightarrow> default_params | Some p \<Rightarrow> p), ar_arrival_time = now, ar_stream = True\<rparr>))
                 (\<lambda>_ e. (e, Inr (g\<lparr>gn_submitted := True\<rparr>)))) e)"

definition generate_submit ::
  "'b put \<Rightarrow> int list res \<Rightarrow> sampling_params option \<Rightarrow> rat \<Rightarrow> coroutine \<Rightarrow> (('b, 'l) async_engine, coroutine) call" where
  "generate_submit put enc params now g e =
     (case submit_body put enc params now g e of
        (e1, Inl x) \<Rightarrow> cbind (generate_close put g) (\<lambda>_ e. (e, Inl x)) e1
      | (e1, Inr g1) \<Rightarrow> (e1, Inr g1))"

datatype 'l read_outcome = Waits | Yields coroutine "'l streamed_output" | Returns

text \<open>Reading on: with nothing queued the coroutine waits; an exception and the end run the \<^verbatim>\<open>finally\<close> clause.\<close>

definition generate_next :: "'b put \<Rightarrow> coroutine \<Rightarrow> (('b, 'l) async_engine, 'l read_outcome) call" where
  "generate_next put g e =
     (if gn_last g then cbind (generate_close put g) (\<lambda>_ e. (e, Inr Returns)) e
      else case rs_queue (ae_objects e (gn_stream g)) of
        [] \<Rightarrow> (e, Inr Waits)
      | it # rest \<Rightarrow>
          let e1 = update_stream (gn_stream g) (\<lambda>s. s\<lparr>rs_queue := rest\<rparr>) e
          in (case it of
                Chunk c \<Rightarrow> (e1, Inr (Yields (g\<lparr>gn_last := so_is_finished c\<rparr>) c))
              | EndOfStream \<Rightarrow> cbind (generate_close put g) (\<lambda>_ e. (e, Inr Returns)) e1
              | Rejected msg \<Rightarrow> cbind (generate_close put g) (\<lambda>_ e. (e, Inl ValueError)) e1
              | ProcessFailed msg \<Rightarrow> cbind (generate_close put g) (\<lambda>_ e. (e, Inl RuntimeError)) e1))"

text \<open>\<^verbatim>\<open>generate_text\<close> over the chunks that were yielded.\<close>

definition generate_text :: "'l streamed_output list \<Rightarrow> 'l streamed_output res" where
  "generate_text chunks = (if chunks = [] then Inl RuntimeError else Inr (last chunks))"

section \<open>One stream\<close>

definition stream_ok :: "(int list \<Rightarrow> utext) \<Rightarrow> 'l rstream \<Rightarrow> bool" where
  "stream_ok D s \<longleftrightarrow> (\<exists>d. rs_detokenizer s = [d] \<and> rs_completion_tokens s = length (dt_tokens d) \<and>
     (window_law D \<longrightarrow> emitted_ok D d (rs_text s)))"

lemma push_simps [simp]:
  "rs_request_id (push i s) = rs_request_id s" "rs_loop_open (push i s) = rs_loop_open s"
  "rs_detokenizer (push i s) = rs_detokenizer s" "rs_text (push i s) = rs_text s"
  "rs_completion_tokens (push i s) = rs_completion_tokens s" "rs_finished (push i s) = rs_finished s"
  "rs_queue (push i s) = (if rs_loop_open s then rs_queue s @ [i] else rs_queue s)"
  by (simp_all add: push_def)

lemma run_appends_one:
  assumes "run_appends D (map (Pair 0) ts) [d] = (d', out)"
  shows "d' = [d' ! 0] \<and> append_tokens D ts d = (d' ! 0, concat (map snd out))"
proof -
  have "append_tokens D (tokens_of 0 (map (Pair 0) ts)) d = (d' ! 0, text_of 0 out) \<and> length d' = 1"
    using run_appends_project [OF _ assms, of 0] by simp
  moreover have "tokens_of 0 (map (Pair 0) ts) = ts" by (simp add: tokens_of_def o_def)
  moreover have "text_of 0 out = concat (map snd out)" using run_appends_index [OF assms] by (simp add: text_of_def)
  ultimately show ?thesis by (simp add: list_eq_iff_nth_eq)
qed

lemma append_tokens_dt: "append_tokens D ts d = (d', x) \<Longrightarrow> dt_tokens d' = dt_tokens d @ ts"
  by (induction ts arbitrary: d x) (auto split: prod.splits dest: append_token_tokens)

lemma push_event_request [simp]: "rs_request_id (push_event D ev s) = rs_request_id s" "rs_loop_open (push_event D ev s) = rs_loop_open s"
  by (simp_all add: push_event_def Let_def split: option.split prod.split)

lemma push_event_finished: "rs_finished s \<Longrightarrow> rs_finished (push_event D ev s)"
  by (simp add: push_event_def Let_def split: option.split prod.split)

lemma push_event_tokens:
  assumes d: "rs_detokenizer s = [d]" and e: "re_error ev = None" and a: "append_tokens D (re_new_token_ids ev) d = (d', delta)"
  shows "rs_detokenizer (push_event D ev s) = [d']" "rs_text (push_event D ev s) = rs_text s @ delta"
    "rs_completion_tokens (push_event D ev s) = rs_completion_tokens s + length (re_new_token_ids ev)"
    "rs_finished (push_event D ev s) \<longleftrightarrow> rs_finished s \<or> re_finished ev"
    "\<exists>cs. rs_loop_open s \<longrightarrow> rs_queue (push_event D ev s) = rs_queue s @ map Chunk cs \<and> concat (map so_delta cs) = delta"
proof -
  obtain ds out where r: "run_appends D (map (Pair 0) (re_new_token_ids ev)) [d] = (ds, out)"
    by (cases "run_appends D (map (Pair 0) (re_new_token_ids ev)) [d]")
  have o: "ds = [d']" "concat (map snd out) = delta" using run_appends_one [OF r] a by auto
  have n: "re_new_token_ids ev = [] \<Longrightarrow> delta = []" using a by simp
  note pe = push_event_def [of D ev s, unfolded e option.case d r prod.case Let_def o]
  show "rs_detokenizer (push_event D ev s) = [d']" "rs_text (push_event D ev s) = rs_text s @ delta"
    "rs_completion_tokens (push_event D ev s) = rs_completion_tokens s + length (re_new_token_ids ev)"
    "rs_finished (push_event D ev s) \<longleftrightarrow> rs_finished s \<or> re_finished ev"
    using n by (simp_all add: pe)
  show "\<exists>cs. rs_loop_open s \<longrightarrow> rs_queue (push_event D ev s) = rs_queue s @ map Chunk cs \<and> concat (map so_delta cs) = delta"
  proof (cases "delta = [] \<and> \<not> re_finished ev")
    case True
    then show ?thesis by (intro exI [of _ "[]"]) (use True in \<open>simp add: pe\<close>)
  next
    case False
    then show ?thesis
      by (intro exI [of _ "[\<lparr>so_request_id = rs_request_id s, so_delta = delta, so_text = rs_text s @ delta,
            so_finish_reason = re_finish_reason ev, so_prompt_tokens = re_prompt_len ev,
            so_completion_tokens = rs_completion_tokens s + length (re_new_token_ids ev),
            so_logprobs = (if re_new_token_ids ev \<noteq> [] then re_delta_logprobs ev else None),
            so_prompt_logprobs = re_prompt_logprobs ev\<rparr>]"])
        (use n False in \<open>auto simp: pe\<close>)
  qed
qed

lemma push_event_ok:
  assumes "stream_ok D s"
  shows "stream_ok D (push_event D ev s)"
proof (cases "re_error ev")
  case (Some m)
  then show ?thesis using assms by (simp add: push_event_def stream_ok_def)
next
  case None
  obtain d where d: "rs_detokenizer s = [d]" "rs_completion_tokens s = length (dt_tokens d)" "window_law D \<longrightarrow> emitted_ok D d (rs_text s)"
    using assms by (auto simp: stream_ok_def)
  obtain d' delta where a: "append_tokens D (re_new_token_ids ev) d = (d', delta)"
    by (cases "append_tokens D (re_new_token_ids ev) d")
  have "window_law D \<longrightarrow> emitted_ok D d' (rs_text s @ delta)" using append_tokens_emitted [OF _ _ a] d(3) by blast
  then show ?thesis
    using push_event_tokens [OF d(1) None a] d(2) append_tokens_dt [OF a] unfolding stream_ok_def by simp
qed

lemma stream_init_simps [simp]:
  "rs_detokenizer (stream_init r b) = [sequence_init]" "rs_loop_open (stream_init r b) = b" "rs_text (stream_init r b) = []"
  "rs_completion_tokens (stream_init r b) = 0" "rs_finished (stream_init r b) = False" "rs_queue (stream_init r b) = []"
  "rs_request_id (stream_init r b) = r"
  by (simp_all add: stream_init_def detok_init_def)

lemma stream_init_ok: "stream_ok D (stream_init r b)"
  by (simp add: stream_ok_def emitted_init) (simp add: sequence_init_def)

text \<open>All events of a stream together.\<close>

lemma push_events_tokens:
  assumes "rs_detokenizer s = [d]" "\<forall>ev \<in> set es. re_error ev = None" "rs_loop_open s"
    "append_tokens D (concat (map re_new_token_ids es)) d = (d', w)"
  shows "rs_detokenizer (fold (push_event D) es s) = [d'] \<and> rs_text (fold (push_event D) es s) = rs_text s @ w \<and>
    rs_completion_tokens (fold (push_event D) es s) = rs_completion_tokens s + length (concat (map re_new_token_ids es)) \<and>
    (rs_finished (fold (push_event D) es s) \<longleftrightarrow> rs_finished s \<or> (\<exists>ev \<in> set es. re_finished ev)) \<and>
    (\<exists>cs. rs_queue (fold (push_event D) es s) = rs_queue s @ map Chunk cs \<and> concat (map so_delta cs) = w)"
  using assms
proof (induction es arbitrary: s d w)
  case Nil
  then show ?case by simp
next
  case (Cons ev es)
  obtain d1 x where a: "append_tokens D (re_new_token_ids ev) d = (d1, x)" by (cases "append_tokens D (re_new_token_ids ev) d")
  obtain y where y: "append_tokens D (concat (map re_new_token_ids es)) d1 = (d', y)" "w = x @ y"
    using Cons.prems(4) by (auto simp: append_tokens_snoc a split: prod.splits)
  have e: "re_error ev = None" "\<forall>ev \<in> set es. re_error ev = None" using Cons.prems(2) by simp_all
  note p = push_event_tokens [OF Cons.prems(1) e(1) a]
  obtain cs where cs: "rs_queue (push_event D ev s) = rs_queue s @ map Chunk cs" "concat (map so_delta cs) = x" using p(5) Cons.prems(3) by blast
  have IH: "rs_detokenizer (fold (push_event D) es (push_event D ev s)) = [d'] \<and>
      rs_text (fold (push_event D) es (push_event D ev s)) = rs_text (push_event D ev s) @ y \<and>
      rs_completion_tokens (fold (push_event D) es (push_event D ev s)) =
        rs_completion_tokens (push_event D ev s) + length (concat (map re_new_token_ids es)) \<and>
      (rs_finished (fold (push_event D) es (push_event D ev s)) \<longleftrightarrow> rs_finished (push_event D ev s) \<or> (\<exists>ev \<in> set es. re_finished ev)) \<and>
      (\<exists>cs. rs_queue (fold (push_event D) es (push_event D ev s)) = rs_queue (push_event D ev s) @ map Chunk cs \<and>
         concat (map so_delta cs) = y)"
    using Cons.IH [OF p(1) e(2) _ y(1)] Cons.prems(3) by simp
  then obtain cs2 where c2: "rs_queue (fold (push_event D) es (push_event D ev s)) = rs_queue (push_event D ev s) @ map Chunk cs2"
    "concat (map so_delta cs2) = y" by blast
  have "rs_queue (fold (push_event D) (ev # es) s) = rs_queue s @ map Chunk (cs @ cs2) \<and> concat (map so_delta (cs @ cs2)) = w"
    using cs c2 y(2) by simp
  then have "\<exists>cs. rs_queue (fold (push_event D) (ev # es) s) = rs_queue s @ map Chunk cs \<and> concat (map so_delta cs) = w" by blast
  then show ?case using IH p(2,3,4) y(2) by simp
qed

section \<open>Reachable states of the engine\<close>

inductive engine_step ::
  "(int list \<Rightarrow> utext) \<Rightarrow> 'b put \<Rightarrow> ('b, 'l) async_engine \<Rightarrow> ('b, 'l) async_engine \<Rightarrow> bool" for D put where
  start: "engine_step D put e (fst (engine_start e))"
| opened: "engine_step D put e (fst (generate_open r loop_open e))"
| submit: "engine_step D put e (fst (generate_submit put enc params now g e))"
| read: "engine_step D put e (fst (generate_next put g e))"
| close: "engine_step D put e (fst (generate_close put g e))"
| abort: "engine_step D put e (fst (engine_abort put r e))"
| receive: "engine_step D put e (fst (receiver_turn put D polled alive code due e))"
| closing: "engine_step D put e (fst (shutdown_begin put e))"
| closed: "ae_state e = CLOSING \<Longrightarrow> engine_step D put e (shutdown_finish e)"

inductive engine_reachable :: "(int list \<Rightarrow> utext) \<Rightarrow> 'b put \<Rightarrow> ('b, 'l) async_engine \<Rightarrow> bool" for D put where
  init: "engine_reachable D put (engine_init b objects)"
| step: "engine_reachable D put e \<Longrightarrow> engine_step D put e e' \<Longrightarrow> engine_reachable D put e'"

definition engine_inv :: "(int list \<Rightarrow> utext) \<Rightarrow> ('b, 'l) async_engine \<Rightarrow> bool" where
  "engine_inv D e \<longleftrightarrow>
     dict_ok (ae_streams e) \<and> ae_snapshot e = ae_streams e \<and>
     (\<forall>r i. map_of (ae_streams e) r = Some i \<longrightarrow> i < ae_next e \<and> rs_request_id (ae_objects e i) = r) \<and>
     (\<forall>i < ae_next e. stream_ok D (ae_objects e i)) \<and>
     (ae_state e = FAILED \<longrightarrow> (\<forall>r i. map_of (ae_streams e) r = Some i \<longrightarrow> rs_finished (ae_objects e i))) \<and>
     (ae_state e = CLOSED \<longrightarrow> ae_streams e = [])"

lemma engine_invD:
  assumes "engine_inv D e"
  shows "dict_ok (ae_streams e)" "ae_snapshot e = ae_streams e"
    "map_of (ae_streams e) r = Some i \<Longrightarrow> i < ae_next e" "map_of (ae_streams e) r = Some i \<Longrightarrow> rs_request_id (ae_objects e i) = r"
    "i < ae_next e \<Longrightarrow> stream_ok D (ae_objects e i)"
  using assms by (simp_all add: engine_inv_def)

lemma engine_inv_cong:
  assumes "engine_inv D e" "ae_streams e' = ae_streams e" "ae_snapshot e' = ae_snapshot e" "ae_objects e' = ae_objects e"
    "ae_next e' = ae_next e" "ae_state e' = ae_state e"
  shows "engine_inv D e'"
  using assms by (simp add: engine_inv_def)

lemma streams_distinct:
  assumes "engine_inv D e"
  shows "distinct (map snd (ae_streams e))"
proof -
  have "fst p = rs_request_id (ae_objects e (snd p))" if "p \<in> set (ae_streams e)" for p
    using engine_invD(4) [OF assms, of "fst p" "snd p"] engine_invD(1) [OF assms] that by simp
  then have "map fst (ae_streams e) = map (\<lambda>i. rs_request_id (ae_objects e i)) (map snd (ae_streams e))" by simp
  then show ?thesis using engine_invD(1) [OF assms] by (metis distinct_map)
qed

lemma update_stream_inv:
  assumes inv: "engine_inv D e" and f: "\<And>s. rs_request_id (f s) = rs_request_id s" "\<And>s. stream_ok D s \<Longrightarrow> stream_ok D (f s)"
    "\<And>s. rs_finished s \<Longrightarrow> rs_finished (f s)"
  shows "engine_inv D (update_stream i f e)"
  using assms by (simp add: engine_inv_def update_stream_def)

lemma end_streams:
  assumes "distinct is"
  shows "fold (end_stream it) is e =
    e\<lparr>ae_objects := (\<lambda>i. if i \<in> set is then push it ((ae_objects e i)\<lparr>rs_finished := True\<rparr>) else ae_objects e i)\<rparr>"
  using assms
proof (induction "is" arbitrary: e)
  case (Cons i "is")
  then show ?case by (simp add: end_stream_def update_stream_def fun_eq_iff)
qed simp

lemma stream_ok_ended [simp]: "stream_ok D (push it s) = stream_ok D s" "stream_ok D (s\<lparr>rs_finished := b\<rparr>) = stream_ok D s"
  by (simp_all add: stream_ok_def)

lemma fail_all_eq:
  assumes "engine_inv D e" "ae_streams e' = ae_streams e" "ae_snapshot e' = ae_snapshot e"
  shows "fail_all it e' = e'\<lparr>ae_objects := (\<lambda>i. if i \<in> snd ` set (ae_streams e) then push it ((ae_objects e' i)\<lparr>rs_finished := True\<rparr>)
    else ae_objects e' i)\<rparr>"
  using end_streams [OF streams_distinct [OF assms(1)], of it e'] engine_invD(2) [OF assms(1)] assms(2,3)
  by (simp add: fail_all_def)

lemma clear_all_eq:
  assumes "engine_inv D e"
  shows "clear_all it e = e\<lparr>ae_streams := [], ae_snapshot := [],
    ae_objects := (\<lambda>i. if i \<in> snd ` set (ae_streams e) then push it ((ae_objects e i)\<lparr>rs_finished := True\<rparr>) else ae_objects e i)\<rparr>"
  unfolding clear_all_def by (subst end_streams [OF streams_distinct [OF assms]]) (simp cong: if_cong)

lemma cbind_keeps:
  assumes "I (fst (m s))" "\<And>x s1. m s = (s1, Inr x) \<Longrightarrow> I s1 \<Longrightarrow> I (fst (f x s1))"
  shows "I (fst (cbind m f s))"
  using assms by (cases "m s"; cases "snd (m s)") (auto simp: cbind_def)

subsection \<open>Every call keeps the invariant\<close>

lemma put_command_inv: "engine_inv D e \<Longrightarrow> engine_inv D (fst (put_command put c e))"
  by (simp add: put_command_def engine_inv_def split: prod.split)

lemma require_running_simps [simp]: "fst (require_running e) = e" "snd (require_running e) = Inr () \<longleftrightarrow> ae_state e = RUNNING"
  by (simp_all add: require_running_def)

lemma engine_start_cases: "engine_start e = (if ae_state e = RUNNING then (e\<lparr>ae_receiver := True\<rparr>, Inr ()) else (e, Inl RuntimeError))"
  by (simp add: engine_start_def require_running_def cbind_def)

lemma engine_abort_inv: "engine_inv D e \<Longrightarrow> engine_inv D (fst (engine_abort put r e))"
  by (simp add: engine_abort_def put_command_inv)

lemma fewer_streams_inv:
  assumes inv: "engine_inv D e" and s: "dict_ok d" "\<And>k j. map_of d k = Some j \<Longrightarrow> map_of (ae_streams e) k = Some j"
  shows "engine_inv D (e\<lparr>ae_streams := d, ae_snapshot := d\<rparr>)"
proof -
  have "d = []" if "ae_streams e = []" using s(2) [of "fst (hd d)" "snd (hd d)"] that by (cases d) auto
  moreover have "set d \<subseteq> set (ae_streams e)"
    using s(2) by (auto simp: s(1) engine_invD(1) [OF inv])
  ultimately show ?thesis using inv s(1) unfolding engine_inv_def by auto
qed

lemma tracker_remove_inv: "engine_inv D e \<Longrightarrow> engine_inv D (tracker_remove r i e)"
  unfolding tracker_remove_def Let_def
  by (auto intro!: fewer_streams_inv simp: engine_invD(1) dict_simps simp del: map_of_eq_Some_iff split: if_splits)

lemma generate_close_inv: "engine_inv D e \<Longrightarrow> engine_inv D (fst (generate_close put g e))"
  by (simp add: generate_close_def Let_def engine_abort_inv tracker_remove_inv)

lemma tracker_register_inv:
  assumes "engine_inv D e" "ae_state e = RUNNING"
  shows "engine_inv D (fst (tracker_register r b e))"
proof -
  let ?i = "ae_next e" and ?e = "e\<lparr>ae_objects := (ae_objects e)(ae_next e := stream_init r b), ae_next := ae_next e + 1\<rparr>"
  have lt: "map_of (ae_streams e) r' = Some j \<Longrightarrow> j < ae_next e" for r' j by (rule engine_invD(3) [OF assms(1)])
  have ob: "stream_ok D (ae_objects ?e j)" if "j < ae_next e + 1" for j
    using that engine_invD(5) [OF assms(1), of j] stream_init_ok by (auto simp: less_Suc_eq)
  have "engine_inv D ?e" using assms ob lt by (auto simp: engine_inv_def less_Suc_eq dest!: lt)
  moreover have "engine_inv D (?e\<lparr>ae_streams := AList.update r ?i (ae_streams e), ae_snapshot := AList.update r ?i (ae_streams e)\<rparr>)"
    using assms ob lt by (auto simp: engine_inv_def dict_simps less_Suc_eq stream_init_def split: if_splits dest!: lt)
  ultimately show ?thesis by (simp add: tracker_register_def Let_def)
qed

lemma register_then_inv:
  fixes h :: "nat \<Rightarrow> coroutine"
  assumes "engine_inv D e" "ae_state e = RUNNING"
  shows "engine_inv D (fst (cbind (tracker_register r b) (\<lambda>i e. (e, Inr (h i))) e))"
  by (rule cbind_keeps [where I = "engine_inv D"]) (use tracker_register_inv [OF assms, of r b] in simp_all)

lemma generate_open_inv:
  assumes "engine_inv D e"
  shows "engine_inv D (fst (generate_open r b e))"
proof (cases "ae_state e = RUNNING")
  case False
  then show ?thesis using assms by (simp add: generate_open_def cbind_def engine_start_cases)
next
  case True
  have i: "engine_inv D (e\<lparr>ae_receiver := True\<rparr>)" "engine_inv D (e\<lparr>ae_receiver := True, ae_request_ids := ae_request_ids e + 1\<rparr>)"
    using assms by (simp_all add: engine_inv_def)
  have s: "ae_state (e\<lparr>ae_receiver := True\<rparr>) = RUNNING" "ae_state (e\<lparr>ae_receiver := True, ae_request_ids := ae_request_ids e + 1\<rparr>) = RUNNING"
    using True by simp_all
  have "generate_open r b e =
      (case (if r = None \<or> r = Some [] then (stream_request_id (ae_request_ids e), e\<lparr>ae_receiver := True, ae_request_ids := ae_request_ids e + 1\<rparr>)
              else (the r, e\<lparr>ae_receiver := True\<rparr>)) of
          (r, e1) \<Rightarrow>
            cbind (tracker_register r b)
              (\<lambda>i e. (e, Inr \<lparr>gn_request_id = r, gn_stream = i, gn_submitted = False, gn_last = False\<rparr>)) e1)"
    using True by (simp add: generate_open_def cbind_def [of engine_start] engine_start_cases del: One_nat_def)
  then show ?thesis
    using register_then_inv [OF i(1) s(1)] register_then_inv [OF i(2) s(2)]
    by (cases "r = None \<or> r = Some []") (simp_all only: if_True if_False prod.case)
qed

lemma submit_body_inv: "engine_inv D e \<Longrightarrow> engine_inv D (fst (submit_body put enc params now g e))"
  using put_command_inv [of D e put]
  by (simp add: submit_body_def cbind_def require_running_def split: sum.split prod.split) (metis fst_conv)

lemma close_then_inv: "engine_inv D e \<Longrightarrow> engine_inv D (fst (cbind (generate_close put g) (\<lambda>_ e. (e, y)) e))"
  by (rule cbind_keeps [where I = "engine_inv D"]) (use generate_close_inv [of D e put g] in simp_all)

lemma generate_submit_inv:
  assumes "engine_inv D e"
  shows "engine_inv D (fst (generate_submit put enc params now g e))"
proof -
  obtain e1 x where b: "submit_body put enc params now g e = (e1, x)" by (cases "submit_body put enc params now g e")
  have "engine_inv D e1" using submit_body_inv [OF assms, of put enc params now g] b by simp
  then show ?thesis by (cases x) (simp_all add: generate_submit_def b close_then_inv)
qed

lemma generate_next_inv:
  assumes "engine_inv D e"
  shows "engine_inv D (fst (generate_next put g e))"
proof -
  have "engine_inv D (update_stream (gn_stream g) (\<lambda>s. s\<lparr>rs_queue := q\<rparr>) e)" for q
    by (rule update_stream_inv [OF assms]) (simp_all add: stream_ok_def)
  then show ?thesis
    using assms by (simp add: generate_next_def Let_def close_then_inv split: list.split item.split)
qed

lemma fail_all_inv:
  assumes "engine_inv D e" "ae_state e = RUNNING"
  shows "engine_inv D (fail_all it (e\<lparr>ae_state := FAILED, ae_failure := m, ae_stop_receiver := b\<rparr>))"
proof -
  have "fail_all it (e\<lparr>ae_state := FAILED, ae_failure := m, ae_stop_receiver := b\<rparr>) =
      e\<lparr>ae_state := FAILED, ae_failure := m, ae_stop_receiver := b,
        ae_objects := (\<lambda>i. if i \<in> snd ` set (ae_streams e) then push it ((ae_objects e i)\<lparr>rs_finished := True\<rparr>) else ae_objects e i)\<rparr>"
    by (subst fail_all_eq [OF assms(1)]) (simp_all cong: if_cong)
  moreover have "rs_finished (if i \<in> snd ` set (ae_streams e) then push it ((ae_objects e i)\<lparr>rs_finished := True\<rparr>) else ae_objects e i)"
    if "(r, i) \<in> set (ae_streams e)" for r i
    using that by force
  ultimately show ?thesis using assms by (simp add: engine_inv_def)
qed

lemma mark_failed_inv: "engine_inv D e \<Longrightarrow> engine_inv D (mark_failed m e)"
  by (simp add: mark_failed_def fail_all_inv)

lemma deliver_inv: "engine_inv D e \<Longrightarrow> engine_inv D (deliver D ev e)"
  by (auto simp: deliver_def intro!: update_stream_inv push_event_ok push_event_finished split: option.split)

lemma delivers_inv: "engine_inv D e \<Longrightarrow> engine_inv D (fold (deliver D) es e)"
  by (induction es arbitrary: e) (simp_all add: deliver_inv)

lemma apply_utility_inv: "engine_inv D e \<Longrightarrow> engine_inv D (apply_utility u e)"
  by (simp add: apply_utility_def engine_inv_def)

lemma handle_event_inv: "engine_inv D e \<Longrightarrow> engine_inv D (engine_handle_event D ev e)"
  by (simp add: engine_handle_event_def mark_failed_inv delivers_inv apply_utility_inv split: event.split option.split)

lemma receiver_turn_inv:
  assumes "engine_inv D e"
  shows "engine_inv D (fst (receiver_turn put D polled alive code due e))"
proof -
  have q: "engine_inv D (fst (cbind (put_command put c) (\<lambda>_ e. (e, y)) (e'\<lparr>ae_utility_ids := n\<rparr>)))"
    if "engine_inv D e'" for e' c n and y :: "bool res"
  proof (rule cbind_keeps [where I = "engine_inv D"])
    show "engine_inv D (fst (put_command put c (e'\<lparr>ae_utility_ids := n\<rparr>)))"
      using that by (intro put_command_inv) (simp add: engine_inv_def)
  qed simp
  show ?thesis
    unfolding receiver_turn_def Let_def
    by (simp add: on_process_exit_def assms mark_failed_inv handle_event_inv q split: option.split)
qed

lemma shutdown_begin_inv:
  assumes "engine_inv D e"
  shows "engine_inv D (fst (shutdown_begin put e))"
proof -
  have "engine_inv D (fst (put_command put ShutdownScheduler (e\<lparr>ae_state := CLOSING\<rparr>)))"
    using assms by (intro put_command_inv) (simp add: engine_inv_def)
  then have "engine_inv D ((fst (put_command put ShutdownScheduler (e\<lparr>ae_state := CLOSING\<rparr>)))\<lparr>ae_stop_receiver := True\<rparr>)"
    by (rule engine_inv_cong) simp_all
  then show ?thesis using assms by (simp add: shutdown_begin_def)
qed

lemma shutdown_finish_inv: "engine_inv D e \<Longrightarrow> engine_inv D (shutdown_finish e)"
  by (simp add: shutdown_finish_def clear_all_eq) (simp add: engine_inv_def)

lemma engine_start_inv: "engine_inv D e \<Longrightarrow> engine_inv D (fst (engine_start e))"
  by (simp add: engine_start_cases engine_inv_def)

lemma engine_step_inv:
  assumes "engine_step D put e e'" "engine_inv D e"
  shows "engine_inv D e'"
  using assms
  by cases (simp_all add: engine_start_inv generate_open_inv generate_submit_inv generate_next_inv generate_close_inv
      engine_abort_inv receiver_turn_inv shutdown_begin_inv shutdown_finish_inv)

lemma engine_reachable_inv: "engine_reachable D put e \<Longrightarrow> engine_inv D e"
proof (induction rule: engine_reachable.induct)
  case (init b objects)
  then show ?case by (simp add: engine_inv_def engine_init_def)
qed (rule engine_step_inv)

section \<open>What a stream receives\<close>

lemma deliver_stream:
  assumes inv: "engine_inv D e" and i: "map_of (ae_streams e) r = Some i"
  shows "ae_objects (deliver D ev e) i = (if re_request_id ev = r then push_event D ev (ae_objects e i) else ae_objects e i)"
    "ae_streams (deliver D ev e) = ae_streams e"
proof -
  have t: "tracker_get q e = map_of (ae_streams e) q" for q by (simp add: tracker_get_def engine_invD(2) [OF inv])
  have "re_request_id ev = r" if "map_of (ae_streams e) (re_request_id ev) = Some i"
    using engine_invD(4) [OF inv that] engine_invD(4) [OF inv i] by simp
  then have ne: "map_of (ae_streams e) (re_request_id ev) \<noteq> Some i" if "re_request_id ev \<noteq> r" using that by blast
  show "ae_objects (deliver D ev e) i = (if re_request_id ev = r then push_event D ev (ae_objects e i) else ae_objects e i)"
  proof (cases "re_request_id ev = r")
    case True
    have "tracker_get (re_request_id ev) e = Some i" unfolding t True by (rule i)
    then show ?thesis using True by (simp add: deliver_def update_stream_def)
  next
    case False
    have "tracker_get (re_request_id ev) e \<noteq> Some i" unfolding t by (rule ne [OF False])
    then show ?thesis using False by (cases "tracker_get (re_request_id ev) e") (simp_all add: deliver_def update_stream_def)
  qed
  show "ae_streams (deliver D ev e) = ae_streams e" by (simp add: deliver_def update_stream_def split: option.split)
qed

lemma delivers_stream:
  assumes "engine_inv D e" "map_of (ae_streams e) r = Some i"
  shows "ae_objects (fold (deliver D) es e) i = fold (push_event D) (filter (\<lambda>ev. re_request_id ev = r) es) (ae_objects e i) \<and>
    ae_streams (fold (deliver D) es e) = ae_streams e"
  using assms
proof (induction es arbitrary: e)
  case (Cons ev es)
  note d = deliver_stream [OF Cons.prems, of ev]
  have i: "map_of (ae_streams (deliver D ev e)) r = Some i" using Cons.prems(2) by (simp only: d(2))
  from Cons.IH [OF deliver_inv [OF Cons.prems(1)] i] d show ?case by simp
qed simp

definition no_failure :: "'l event \<Rightarrow> bool" where
  "no_failure ev \<longleftrightarrow> (case ev of SchedulerFailed m \<Rightarrow> False | _ \<Rightarrow> True)"

lemma handle_event_stream:
  assumes inv: "engine_inv D e" and i: "map_of (ae_streams e) r = Some i" and ev: "no_failure ev"
  shows "ae_objects (engine_handle_event D ev e) i =
      fold (push_event D) (filter (\<lambda>o1. re_request_id o1 = r) (outputs_of ev)) (ae_objects e i) \<and>
    ae_streams (engine_handle_event D ev e) = ae_streams e"
proof (cases ev)
  case (SchedulerEvents es u)
  let ?e = "case u of None \<Rightarrow> e | Some u \<Rightarrow> apply_utility u e"
  have "engine_inv D ?e" using inv apply_utility_inv [OF inv] by (cases u) simp_all
  moreover have "ae_streams ?e = ae_streams e" "ae_objects ?e = ae_objects e"
    by (simp_all add: apply_utility_def split: option.split)
  ultimately have e: "engine_inv D ?e" "ae_streams ?e = ae_streams e" "ae_objects ?e = ae_objects e" by blast+
  have "map_of (ae_streams ?e) r = Some i" using i by (simp only: e(2))
  from delivers_stream [OF e(1) this, of es] show ?thesis by (simp add: SchedulerEvents engine_handle_event_def e(2,3))
qed (use ev in \<open>simp_all add: engine_handle_event_def no_failure_def\<close>)

lemma handle_events_stream:
  assumes "engine_inv D e" "map_of (ae_streams e) r = Some i" "\<forall>ev \<in> set evs. no_failure ev"
  shows "ae_objects (fold (engine_handle_event D) evs e) i =
    fold (push_event D) (filter (\<lambda>o1. re_request_id o1 = r) (concat (map outputs_of evs))) (ae_objects e i)"
  using assms
proof (induction evs arbitrary: e)
  case (Cons ev evs)
  have "no_failure ev" using Cons.prems(3) by simp
  note h = handle_event_stream [OF Cons.prems(1,2) this]
  have i: "map_of (ae_streams (engine_handle_event D ev e)) r = Some i" using Cons.prems(2) h by (simp only: )
  show ?case using Cons.IH [OF handle_event_inv [OF Cons.prems(1)] i] Cons.prems(3) h by simp
qed simp

text \<open>What opening gives, and that submitting and closing create no stream.\<close>

lemma generate_open_result:
  assumes "generate_open (Some r) b e = (e', Inr g)" "r \<noteq> []"
  shows "gn_stream g = ae_next e" "ae_next e' = ae_next e + 1" "map_of (ae_streams e') r = Some (gn_stream g)"
    "ae_objects e' (gn_stream g) = stream_init r b"
  using assms by (auto simp: generate_open_def cbind_def engine_start_cases tracker_register_def Let_def dict_simps
      split: if_splits)

lemma engine_abort_next: "ae_next (fst (engine_abort put r e)) = ae_next e"
  by (simp add: engine_abort_def put_command_def split: prod.split)

lemma generate_close_next: "ae_next (fst (generate_close put g e)) = ae_next e"
  by (simp add: generate_close_def Let_def engine_abort_next) (simp add: tracker_remove_def Let_def)

lemma generate_submit_next:
  assumes "generate_submit put enc params now g e = (e', Inr g')"
  shows "ae_next e' = ae_next e"
  using assms by (auto simp: generate_submit_def submit_body_def cbind_def require_running_def put_command_def
      split: sum.splits prod.splits if_splits)

section \<open>Properties\<close>

text \<open>C21: no client waits for a dead engine. In every state that any interleaving of coroutines, receiver and shutdown reaches, the
  lock-free snapshot is the request table; when the engine has failed every registered stream is finished and when it is closed
  there is none; unless it is running, opening a request raises and registers nothing; and a failure puts the error at the end
  of the queue of every registered stream whose client loop is open.\<close>

theorem engine_no_orphans:
  assumes "engine_reachable D put e"
  shows "ae_snapshot e = ae_streams e \<and>
    (ae_state e = FAILED \<longrightarrow> (\<forall>r i. map_of (ae_streams e) r = Some i \<longrightarrow> rs_finished (ae_objects e i))) \<and>
    (ae_state e = CLOSED \<longrightarrow> ae_streams e = []) \<and>
    (ae_state e \<noteq> RUNNING \<longrightarrow> (\<forall>r b. generate_open r b e = (e, Inl RuntimeError))) \<and>
    (\<forall>msg r i. ae_state e = RUNNING \<and> map_of (ae_streams e) r = Some i \<and> rs_loop_open (ae_objects e i) \<longrightarrow>
       ae_state (mark_failed msg e) = FAILED \<and> rs_finished (ae_objects (mark_failed msg e) i) \<and>
       rs_queue (ae_objects (mark_failed msg e) i) = rs_queue (ae_objects e i) @ [ProcessFailed msg])"
proof -
  note inv = engine_reachable_inv [OF assms]
  have "mark_failed msg e = e\<lparr>ae_state := FAILED, ae_failure := Some msg, ae_stop_receiver := True,
      ae_objects := (\<lambda>i. if i \<in> snd ` set (ae_streams e) then push (ProcessFailed msg) ((ae_objects e i)\<lparr>rs_finished := True\<rparr>)
        else ae_objects e i)\<rparr>" if "ae_state e = RUNNING" for msg
    using that by (simp add: mark_failed_def) (subst fail_all_eq [OF inv], simp_all cong: if_cong)
  then have "ae_state (mark_failed msg e) = FAILED \<and> rs_finished (ae_objects (mark_failed msg e) i) \<and>
      rs_queue (ae_objects (mark_failed msg e) i) = rs_queue (ae_objects e i) @ [ProcessFailed msg]"
    if "ae_state e = RUNNING" "map_of (ae_streams e) r = Some i" "rs_loop_open (ae_objects e i)" for msg r i
    using that map_of_SomeD [OF that(2)] by force
  moreover have "generate_open r b e = (e, Inl RuntimeError)" if "ae_state e \<noteq> RUNNING" for r b
    using that by (simp add: generate_open_def cbind_def engine_start_cases)
  ultimately show ?thesis using inv unfolding engine_inv_def by blast
qed

text \<open>C7: what a client reads is what was published. From the moment a stream is registered, if the receiver handles the events
  that the scheduler process published since, none of which is a failure or rejects the request, then the tokens counted are
  exactly those published for its id, in order; the increments queued are chunks whose texts concatenate to the accumulated
  text, which is exactly what the incremental detokenizer emits for these tokens from its initial state on and so the one-shot
  decoding of a prefix of them; and it is finished exactly when an event ended the request.
  Events of other requests do not touch it.\<close>

theorem stream_is_exact:
  assumes "engine_reachable D put e" "window_law D" "map_of (ae_streams e) r = Some i" "ae_objects e i = stream_init r True"
    and "el_events el' = el_events el @ evs" "\<forall>ev \<in> set evs. no_failure ev"
    and "\<forall>ev \<in> set evs. \<forall>o1 \<in> set (outputs_of ev). re_request_id o1 = r \<longrightarrow> re_error o1 = None"
  shows "\<exists>tokens chunks k. published r el' = published r el @ tokens \<and>
    (let s = ae_objects (fold (engine_handle_event D) evs e) i
     in detok_tokens 0 (rs_detokenizer s) = Inr tokens \<and> rs_completion_tokens s = length tokens \<and>
        rs_queue s = map Chunk chunks \<and> concat (map so_delta chunks) = rs_text s \<and>
        append_tokens D tokens sequence_init = (rs_detokenizer s ! 0, rs_text s) \<and>
        rs_text s = detok_decode D (take k tokens) \<and>
        (rs_finished s \<longleftrightarrow> (\<exists>o1 \<in> set (concat (map outputs_of evs)). re_request_id o1 = r \<and> re_finished o1)))"
proof -
  let ?es = "filter (\<lambda>o1. re_request_id o1 = r) (concat (map outputs_of evs))"
  let ?s = "ae_objects (fold (engine_handle_event D) evs e) i" and ?ts = "concat (map re_new_token_ids ?es)"
  have s: "?s = fold (push_event D) ?es (stream_init r True)"
    using handle_events_stream [OF engine_reachable_inv [OF assms(1)] assms(3,6)] assms(4) by simp
  obtain d w where a: "append_tokens D ?ts sequence_init = (d, w)" by (cases "append_tokens D ?ts sequence_init")
  have "\<forall>o1 \<in> set ?es. re_error o1 = None" using assms(7) by auto
  note q = push_events_tokens [OF stream_init_simps(1) this _ a, of r True, folded s]
  then obtain cs where cs: "rs_queue ?s = map Chunk cs" "concat (map so_delta cs) = w" by auto
  have p: "rs_detokenizer ?s = [d]" "rs_text ?s = w" "rs_completion_tokens ?s = length ?ts"
    "rs_finished ?s \<longleftrightarrow> (\<exists>o1 \<in> set ?es. re_finished o1)"
    using q by simp_all
  have "emitted_ok D d w" "dt_tokens d = ?ts"
    using append_tokens_emitted [OF assms(2) emitted_init a] by (simp_all add: sequence_init_def)
  moreover have "published r el' = published r el @ ?ts" by (simp add: published_def assms(5) tokens_of_events_def)
  ultimately show ?thesis
    using p cs a by (intro exI [of _ ?ts] exI [of _ cs] exI [of _ "read_offset d"]) (auto simp: Let_def detok_tokens_def emitted_ok_def)
qed

text \<open>A backend that is a command queue, and a client that opens a stream.\<close>

definition queue_put :: "sampling_params command list put" where
  "queue_put c q = (q @ [c], Inr ())"

definition demo_engine :: "(sampling_params command list, lp) async_engine" where
  "demo_engine = engine_init [] (\<lambda>_. stream_init [] False)"

definition demo_open :: "(sampling_params command list, lp) async_engine" where
  "demo_open = fst (generate_open (Some ''a'') True demo_engine)"

lemma demo_open_reachable: "engine_reachable D queue_put demo_open"
  unfolding demo_open_def demo_engine_def by (rule engine_reachable.step [OF engine_reachable.init engine_step.opened])

lemma demo_open_state: "ae_state demo_open = RUNNING" "map_of (ae_streams demo_open) ''a'' = Some 0"
  "ae_objects demo_open 0 = stream_init ''a'' True"
  by (simp_all add: demo_open_def demo_engine_def engine_init_def generate_open_def cbind_def engine_start_cases
      tracker_register_def Let_def)

theorem engine_no_orphans_witness:
  "rs_queue (ae_objects (mark_failed ''lost'' demo_open) 0) = [ProcessFailed ''lost''] \<and>
   rs_finished (ae_objects (mark_failed ''lost'' demo_open) 0)"
proof -
  have "rs_loop_open (ae_objects demo_open 0)" by (simp add: demo_open_state)
  then show ?thesis
    using engine_no_orphans [OF demo_open_reachable [of decode2]] demo_open_state by simp
qed

definition demo_event :: "int list \<Rightarrow> string option \<Rightarrow> lp request_event" where
  "demo_event ts fin =
     \<lparr>re_request_id = ''a'', re_new_token_ids = ts, re_finish_reason = fin, re_prompt_len = 3, re_delta_logprobs = None,
      re_prompt_logprobs = None, re_error = None\<rparr>"

definition demo_events :: "lp event list" where
  "demo_events = [SchedulerEvents [demo_event [72, 195] None] None, SchedulerEvents [demo_event [169] (Some ''eos'')] None]"

theorem stream_is_exact_witness:
  "\<exists>tokens chunks k. tokens = [72, 195, 169] \<and>
     rs_queue (ae_objects (fold (engine_handle_event decode2) demo_events demo_open) 0) = map Chunk chunks \<and>
     concat (map so_delta chunks) = detok_decode decode2 (take k tokens) \<and>
     rs_finished (ae_objects (fold (engine_handle_event decode2) demo_events demo_open) 0)"
proof -
  let ?el = "loop_init 0 undefined"
  have v: "published ''a'' (?el\<lparr>el_events := demo_events\<rparr>) = [72, 195, 169]" "published ''a'' ?el = []"
    by (simp_all add: published_def demo_events_def demo_event_def tokens_of_events_def loop_init_def)
  have e: "el_events (?el\<lparr>el_events := demo_events\<rparr>) = el_events ?el @ demo_events" by (simp add: loop_init_def)
  have "\<forall>ev \<in> set demo_events. no_failure ev"
    "\<forall>ev \<in> set demo_events. \<forall>o1 \<in> set (outputs_of ev). re_request_id o1 = ''a'' \<longrightarrow> re_error o1 = None"
    by (simp_all add: demo_events_def demo_event_def no_failure_def)
  from stream_is_exact [OF demo_open_reachable decode2_window demo_open_state(2,3) e this, unfolded Let_def v append_Nil]
  obtain tokens chunks k where t: "tokens = [72, 195, 169]"
    "rs_queue (ae_objects (fold (engine_handle_event decode2) demo_events demo_open) 0) = map Chunk chunks"
    "concat (map so_delta chunks) = detok_decode decode2 (take k tokens)"
    "rs_finished (ae_objects (fold (engine_handle_event decode2) demo_events demo_open) 0) \<longleftrightarrow>
      (\<exists>o1 \<in> set (concat (map outputs_of demo_events)). re_request_id o1 = ''a'' \<and> re_finished o1)" by (elim exE conjE) simp
  have "\<exists>o1 \<in> set (concat (map outputs_of demo_events)). re_request_id o1 = ''a'' \<and> re_finished o1"
    by (simp add: demo_events_def demo_event_def re_finished_def)
  then show ?thesis using t by blast
qed

text \<open>C40: events of an earlier request reach a later one. Streams are found by the request id alone, and closing a stream early
  only sends an abort; so when a client closes a request early and opens a new one under the same id, an event that the
  scheduler process published for the first request before it took the abort is given to the new, fresh stream.\<close>

theorem stale_events_mixed:
  assumes "generate_open (Some r) True e = (e1, Inr g1)" "r \<noteq> []" "engine_inv D e"
    and "generate_submit put enc params now g1 e1 = (e2, Inr g2)" "generate_close put g2 e2 = (e3, Inr ())"
    and "generate_open (Some r) True e3 = (e4, Inr g3)" "re_request_id (ev :: lp request_event) = r"
  shows "gn_stream g3 \<noteq> gn_stream g1 \<and>
    ae_objects (engine_handle_event D (SchedulerEvents [ev] None) e4) (gn_stream g3) = push_event D ev (stream_init r True)"
proof -
  note o1 = generate_open_result [OF assms(1,2)] and o3 = generate_open_result [OF assms(6,2)]
  have "engine_inv D e3"
    using generate_open_inv [OF assms(3), of "Some r" True] generate_submit_inv [of D e1 put enc params now g1]
      generate_close_inv [of D e2 put g2] assms(1,4,5) by simp
  then have inv: "engine_inv D e4" using generate_open_inv [of D e3 "Some r" True] assms(6) by simp
  have "ae_next e3 = ae_next e1"
    using generate_submit_next [of put enc params now g1 e1] generate_close_next [of put g2 e2] assms(4,5) by simp
  then have "gn_stream g3 \<noteq> gn_stream g1" using o1(1,2) o3(1) by simp
  moreover have nf: "no_failure (SchedulerEvents [ev] None)" by (simp add: no_failure_def)
  ultimately show ?thesis using handle_event_stream [OF inv o3(3) nf] o3(4) assms(7) by simp
qed

definition demo_reopened :: "((sampling_params command list, lp) async_engine \<times> coroutine) res" where
  "demo_reopened =
     (case generate_open (Some ''a'') True demo_engine of (e1, r1) \<Rightarrow> rbind r1 (\<lambda>g1.
      case generate_submit queue_put (Inr [5]) None 0 g1 e1 of (e2, r2) \<Rightarrow> rbind r2 (\<lambda>g2.
      case generate_close queue_put g2 e2 of (e3, r3) \<Rightarrow> rbind r3 (\<lambda>_.
      case generate_open (Some ''a'') True e3 of (e4, r4) \<Rightarrow> rbind r4 (\<lambda>g3. Inr (e4, g3))))))"

text \<open>The second client reads the first one's text.\<close>

theorem stale_events_mixed_witness:
  "\<exists>e4 g3. demo_reopened = Inr (e4, g3) \<and> length (ae_backend e4) = 2 \<and> last (ae_backend e4) = AbortRequest ''a'' \<and>
     rs_text (ae_objects (engine_handle_event decode2 (SchedulerEvents [demo_event [72, 105] None] None) e4) (gn_stream g3)) = [72, 105]"
proof -
  have inv: "engine_inv decode2 demo_engine"
    unfolding demo_engine_def by (rule engine_reachable_inv [OF engine_reachable.init [where put = queue_put]])
  have "case demo_reopened of Inr (e4, g3) \<Rightarrow> length (ae_backend e4) = 2 \<and> last (ae_backend e4) = AbortRequest ''a''
      | Inl x \<Rightarrow> False" by code_simp
  then obtain e4 g3 where r: "demo_reopened = Inr (e4, g3)" "length (ae_backend e4) = 2" "last (ae_backend e4) = AbortRequest ''a''"
    by (auto split: sum.splits)
  obtain e1 r1 where c1: "generate_open (Some ''a'') True demo_engine = (e1, r1)" by (cases "generate_open (Some ''a'') True demo_engine")
  then obtain g1 where g1: "r1 = Inr g1" using r(1) by (auto simp: demo_reopened_def)
  obtain e2 r2 where c2: "generate_submit queue_put (Inr [5]) None 0 g1 e1 = (e2, r2)"
    by (cases "generate_submit queue_put (Inr [5]) None 0 g1 e1")
  then obtain g2 where g2: "r2 = Inr g2" using r(1) by (auto simp: demo_reopened_def c1 g1)
  obtain e3 r3 where c3: "generate_close queue_put g2 e2 = (e3, r3)" by (cases "generate_close queue_put g2 e2")
  then have g3: "r3 = Inr ()" using r(1) by (auto simp: demo_reopened_def c1 g1 c2 g2)
  have "generate_open (Some ''a'') True e3 = (e4, Inr g3)"
    using r(1) by (auto simp: demo_reopened_def c1 g1 c2 g2 c3 g3 split: prod.splits)
  note c = c1 [unfolded g1] c2 [unfolded g2] c3 [unfolded g3] this
  have "re_request_id (demo_event [72, 105] None) = ''a''" by (simp add: demo_event_def)
  from stale_events_mixed [OF c(1) _ inv c(2-4) this]
  have "ae_objects (engine_handle_event decode2 (SchedulerEvents [demo_event [72, 105] None] None) e4) (gn_stream g3) =
      push_event decode2 (demo_event [72, 105] None) (stream_init ''a'' True)" by simp
  moreover have "rs_text (push_event decode2 (demo_event [72, 105] None) (stream_init ''a'' True)) = [72, 105]" by code_simp
  ultimately show ?thesis using r by (intro exI [of _ e4] exI [of _ g3]) simp
qed

end
