(* ===== verification/Decode_Session.thy ===== *)
theory Decode_Session
  imports Scheduler_Step
begin

text \<open>
  One-shot generation of a batch (\<^verbatim>\<open>_DecodeSession\<close> in \<^verbatim>\<open>src/rapid_llm/engine/llm_engine.py\<close>): the token grid, the accepted
  positions, the stop flags and the detokenizer of one call, the loop over the columns, and the read-back of columns as text,
  every step when streaming and every \<^verbatim>\<open>POLL_INTERVAL\<close> steps when not.

  The device (forward pass and sampler) is a parameter: from the previous and the current column, the sequence lengths and the
  columns so far it gives one token per sequence, and records where they are asked for, or raises. Cache rows, positions and
  prompt log-probabilities live on the device and are not modelled. A run returns what it yielded before it returned or raised.
\<close>

section \<open>The state of a call\<close>

record 'l session =
  sn_batch_size :: nat
  sn_max_prompt_len :: nat
  sn_total_len :: nat
  sn_prompt_mask :: "bool list list"
  sn_host_lens :: "nat list"
  sn_tokens :: "int list list"
  sn_accepted :: "bool list list"
  sn_stop :: stop_criteria
  sn_detokenizer :: detokenizer
  sn_completions :: "utext list"
  sn_output_logprobs :: "'l list list option"

text \<open>A cap of zero counts as absent. Negative caps do not occur: the check of the sampling parameters refuses them
  (\<open>params_check\<close>, \<^verbatim>\<open>sampler.py\<close>).\<close>

definition session_init :: "nat \<Rightarrow> int \<Rightarrow> int list \<Rightarrow> nat \<Rightarrow> sampling_params \<Rightarrow> int list list \<Rightarrow> 'l session res" where
  "session_init max_seq pad stop_ids vocab params prompts =
     (if prompts = [] then Inl ValueError
      else let lens = map length prompts; longest = foldr max lens 0
           in if longest > max_seq then Inl ValueError
              else let max_gen = (case par_max_gen_len params of None \<Rightarrow> int (max_seq - longest)
                                  | Some n \<Rightarrow> if n = 0 then int (max_seq - longest) else n);
                       total = nat (min (int max_seq) (int longest + max_gen));
                       tokens = map (\<lambda>ids. ids @ replicate (total - length ids) pad) prompts
                   in rbind (stop_init (length prompts) stop_ids vocab) (\<lambda>st. Inr
                        \<lparr>sn_batch_size = length prompts, sn_max_prompt_len = longest, sn_total_len = total,
                         sn_prompt_mask = map (map (\<lambda>t. t \<noteq> pad)) tokens, sn_host_lens = lens, sn_tokens = tokens,
                         sn_accepted = replicate (length prompts) (replicate total False), sn_stop = st,
                         sn_detokenizer = detok_init (length prompts), sn_completions = replicate (length prompts) [],
                         sn_output_logprobs = (if par_logprobs params \<noteq> None then Some (replicate (length prompts) []) else None)\<rparr>))"

type_synonym 'l device = "nat \<Rightarrow> nat \<Rightarrow> nat list \<Rightarrow> int list list \<Rightarrow> (int list \<times> 'l option list) res"

text \<open>One column: forward, sample, write what is not prompt, update the stop flags, accept.\<close>

definition keep_records :: "bool list \<Rightarrow> 'l option list \<Rightarrow> 'l list list \<Rightarrow> 'l list list" where
  "keep_records keeps records ls =
     map2 (\<lambda>(keep, r) l. if keep then (case r of None \<Rightarrow> l | Some x \<Rightarrow> l @ [x]) else l) (zip keeps records) ls"

definition session_step :: "'l device \<Rightarrow> sampling_params \<Rightarrow> nat \<Rightarrow> nat \<Rightarrow> 'l session \<Rightarrow> 'l session res" where
  "session_step device params prev cur s =
     rbind (device prev cur (sn_host_lens s) (map (take cur) (sn_tokens s))) (\<lambda>(next_token, records).
       let writable = map (\<lambda>row. \<not> row ! cur) (sn_prompt_mask s);
           tokens = map2 (\<lambda>(w, t) row. if w then row[cur := t] else row) (zip writable next_token) (sn_tokens s)
       in rbind (stop_update next_token writable (sn_stop s)) (\<lambda>st.
            let keeps = map2 (\<lambda>w f. w \<and> \<not> f) writable (st_finished st)
            in Inr (s\<lparr>sn_host_lens := map Suc (sn_host_lens s), sn_tokens := tokens, sn_stop := st,
                     sn_accepted := map2 (\<lambda>k row. row[cur := k]) keeps (sn_accepted s),
                     sn_output_logprobs := (if par_logprobs params = None then sn_output_logprobs s
                       else map_option (keep_records keeps records) (sn_output_logprobs s))\<rparr>)))"

section \<open>Reading back\<close>

definition row_tokens :: "'l session \<Rightarrow> nat \<Rightarrow> nat \<Rightarrow> nat \<Rightarrow> int list" where
  "row_tokens s i a b =
     filter (\<lambda>t. 0 \<le> t) (map (\<lambda>c. if sn_accepted s ! i ! c then sn_tokens s ! i ! c else - 1) [a..<b])"

definition emit_delta :: "nat \<Rightarrow> utext \<Rightarrow> 'l session \<times> utext list \<Rightarrow> 'l session \<times> utext list" where
  "emit_delta i delta sd =
     (case sd of (s, deltas) \<Rightarrow>
        (s\<lparr>sn_completions := (sn_completions s)[i := sn_completions s ! i @ delta]\<rparr>, deltas @ [delta]))"

definition flush_row ::
  "(int list \<Rightarrow> utext) \<Rightarrow> (int \<Rightarrow> bool) \<Rightarrow> sampling_params \<Rightarrow> nat \<Rightarrow> nat \<Rightarrow> bool \<Rightarrow> nat \<Rightarrow> 'l session \<times> utext list \<Rightarrow>
     ('l session \<times> utext list) res" where
  "flush_row D digit params a b check_repeat i sd =
     (case sd of (s, deltas) \<Rightarrow>
        case run_appends D (map (Pair i) (row_tokens s i a b)) (sn_detokenizer s) of (d, out) \<Rightarrow>
          let delta = concat (map snd out); s1 = s\<lparr>sn_detokenizer := d\<rparr>
          in if check_repeat \<and> stop_on_repeat params \<and> delta \<noteq> [] \<and> \<not> st_finished (sn_stop s1) ! i
             then rbind (detok_text D i d) (\<lambda>text.
                    if detect_repetition digit text 128 3
                    then rbind (mark_repeat (int i) (sn_stop s1)) (\<lambda>st. Inr (emit_delta i [] (s1\<lparr>sn_stop := st\<rparr>, deltas)))
                    else Inr (emit_delta i delta (s1, deltas)))
             else Inr (emit_delta i delta (s1, deltas)))"

definition flush ::
  "(int list \<Rightarrow> utext) \<Rightarrow> (int \<Rightarrow> bool) \<Rightarrow> sampling_params \<Rightarrow> nat \<Rightarrow> nat \<Rightarrow> bool \<Rightarrow> 'l session \<Rightarrow> ('l session \<times> utext list) res" where
  "flush D digit params a b check_repeat s =
     (if b \<le> a then Inr (s, replicate (sn_batch_size s) [])
      else rfold (flush_row D digit params a b check_repeat) [0..<sn_batch_size s] (s, []))"

section \<open>The loop\<close>

fun run_columns ::
  "(int list \<Rightarrow> utext) \<Rightarrow> (int \<Rightarrow> bool) \<Rightarrow> 'l device \<Rightarrow> sampling_params \<Rightarrow> bool \<Rightarrow> nat list \<Rightarrow> nat \<Rightarrow> nat \<Rightarrow> nat \<Rightarrow> 'l session \<Rightarrow>
     utext list list \<times> ('l session \<times> nat) res" where
  "run_columns D digit device params stream [] step_no prev pending_from s = ([], Inr (s, pending_from))"
| "run_columns D digit device params stream (cur # curs) step_no prev pending_from s =
     (let is_poll = (step_no mod POLL_INTERVAL = 0) in
      case rbind (session_step device params prev cur s) (\<lambda>s1.
             if stream then flush D digit params pending_from (cur + 1) is_poll s1
             else if is_poll then flush D digit params pending_from (cur + 1) True s1
             else Inr (s1, [])) of
        Inl e \<Rightarrow> ([], Inl e)
      | Inr (s2, deltas) \<Rightarrow>
          let pending1 = (if stream \<or> is_poll then cur + 1 else pending_from);
              yielded = (if stream then [deltas] else [])
          in if is_poll \<and> all_finished (sn_stop s2) then (yielded, Inr (s2, pending1))
             else case run_columns D digit device params stream curs (step_no + 1) cur pending1 s2 of
                    (more_yielded, r) \<Rightarrow> (yielded @ more_yielded, r))"

text \<open>The columns the poll interval never covered are read at the end.\<close>

definition session_run ::
  "(int list \<Rightarrow> utext) \<Rightarrow> (int \<Rightarrow> bool) \<Rightarrow> 'l device \<Rightarrow> sampling_params \<Rightarrow> bool \<Rightarrow> 'l session \<Rightarrow>
     utext list list \<times> ('l session \<times> string list) res" where
  "session_run D digit device params stream s =
     (case run_columns D digit device params stream [sn_max_prompt_len s..<sn_total_len s] 1 0 (sn_max_prompt_len s) s of
        (yielded, Inl e) \<Rightarrow> (yielded, Inl e)
      | (yielded, Inr (s1, pending_from)) \<Rightarrow>
          (case (if pending_from < sn_total_len s1 then flush D digit params pending_from (sn_total_len s1) False s1
                 else Inr (s1, [])) of
             Inl e \<Rightarrow> (yielded, Inl e)
           | Inr (s2, deltas) \<Rightarrow>
               (if stream \<and> (\<exists>d \<in> set deltas. d \<noteq> []) then yielded @ [deltas] else yielded,
                rbind (stop_reasons (sn_stop s2)) (\<lambda>reasons. Inr (s2, reasons)))))"

text \<open>\<^verbatim>\<open>LLMEngine.generate_text\<close>; \<^verbatim>\<open>generate\<close> is the yields of a streaming run.\<close>

definition generate_batch_text ::
  "(int list \<Rightarrow> utext) \<Rightarrow> (int \<Rightarrow> bool) \<Rightarrow> 'l device \<Rightarrow> sampling_params \<Rightarrow> 'l session \<Rightarrow> utext list res" where
  "generate_batch_text D digit device params s =
     rbind (snd (session_run D digit device params False s)) (\<lambda>(s1, reasons). Inr (sn_completions s1))"

section \<open>Reading back without the repetition breaker\<close>

definition sized :: "nat \<Rightarrow> 'l session \<Rightarrow> bool" where
  "sized n s \<longleftrightarrow> sn_batch_size s = n \<and> length (sn_detokenizer s) = n \<and> length (sn_completions s) = n \<and>
     length (sn_tokens s) = n \<and> length (sn_accepted s) = n \<and> length (sn_prompt_mask s) = n \<and>
     stop_ok (sn_stop s) \<and> st_batch_size (sn_stop s) = n"

definition text_core :: "'l session \<Rightarrow> 'l session" where
  "text_core s = s\<lparr>sn_detokenizer := [], sn_completions := []\<rparr>"

lemma text_core_update [simp]:
  "text_core (s\<lparr>sn_detokenizer := d\<rparr>) = text_core s" "text_core (s\<lparr>sn_completions := c\<rparr>) = text_core s"
  by (simp_all add: text_core_def)

lemma text_core_fields [simp]:
  "sn_batch_size (text_core s) = sn_batch_size s" "sn_tokens (text_core s) = sn_tokens s"
  "sn_accepted (text_core s) = sn_accepted s" "sn_stop (text_core s) = sn_stop s" "sn_total_len (text_core s) = sn_total_len s"
  "sn_max_prompt_len (text_core s) = sn_max_prompt_len s" "sn_prompt_mask (text_core s) = sn_prompt_mask s"
  "sn_host_lens (text_core s) = sn_host_lens s" "sn_output_logprobs (text_core s) = sn_output_logprobs s"
  by (simp_all add: text_core_def)

lemma text_coreD:
  assumes "text_core s' = text_core s"
  shows "sn_batch_size s' = sn_batch_size s" "sn_tokens s' = sn_tokens s" "sn_accepted s' = sn_accepted s" "sn_stop s' = sn_stop s"
    "sn_total_len s' = sn_total_len s" "sn_max_prompt_len s' = sn_max_prompt_len s" "sn_prompt_mask s' = sn_prompt_mask s"
    "row_tokens s' i a b = row_tokens s i a b"
  using arg_cong [OF assms, of sn_batch_size] arg_cong [OF assms, of sn_tokens] arg_cong [OF assms, of sn_accepted]
    arg_cong [OF assms, of sn_stop] arg_cong [OF assms, of sn_total_len] arg_cong [OF assms, of sn_max_prompt_len]
    arg_cong [OF assms, of sn_prompt_mask]
  by (simp_all add: row_tokens_def cong: if_cong)

text \<open>Row \<open>i\<close> has been read up to column \<open>b\<close>.\<close>

definition read_upto :: "(int list \<Rightarrow> utext) \<Rightarrow> nat \<Rightarrow> nat \<Rightarrow> 'l session \<Rightarrow> bool" where
  "read_upto D i b s \<longleftrightarrow>
     append_tokens D (row_tokens s i (sn_max_prompt_len s) b) sequence_init = (sn_detokenizer s ! i, sn_completions s ! i)"

lemma run_appends_row:
  assumes "i < length d" "run_appends D (map (Pair i) ts) d = (d', out)"
  shows "append_tokens D ts (d ! i) = (d' ! i, concat (map snd out))" "length d' = length d" "j < length d \<Longrightarrow> j \<noteq> i \<Longrightarrow> d' ! j = d ! j"
proof -
  note ix = run_appends_index [OF assms(2)]
  have o: "tokens_of i (map (Pair i) ts) = ts" "text_of i out = concat (map snd out)"
    using ix by (simp_all add: tokens_of_def text_of_def o_def)
  show "append_tokens D ts (d ! i) = (d' ! i, concat (map snd out))" "length d' = length d"
    using run_appends_project [OF assms] o by simp_all
  show "d' ! j = d ! j" if "j < length d" "j \<noteq> i"
    using run_appends_project [OF that(1) assms(2)] that(2) by (simp add: tokens_of_def o_def)
qed

lemma flush_row_plain:
  assumes s: "sized n s" "i < n" and np: "\<not> stop_on_repeat params"
  shows "\<exists>s' delta. flush_row D digit params a b chk i (s, deltas) = Inr (s', deltas @ [delta]) \<and> sized n s' \<and>
    text_core s' = text_core s \<and> append_tokens D (row_tokens s i a b) (sn_detokenizer s ! i) = (sn_detokenizer s' ! i, delta) \<and>
    sn_completions s' ! i = sn_completions s ! i @ delta \<and>
    (\<forall>j < n. j \<noteq> i \<longrightarrow> sn_detokenizer s' ! j = sn_detokenizer s ! j \<and> sn_completions s' ! j = sn_completions s ! j)"
proof -
  obtain d out where r: "run_appends D (map (Pair i) (row_tokens s i a b)) (sn_detokenizer s) = (d, out)"
    by (cases "run_appends D (map (Pair i) (row_tokens s i a b)) (sn_detokenizer s)")
  have l: "length (sn_detokenizer s) = n" "length (sn_completions s) = n" using s(1) by (simp_all add: sized_def)
  note q = run_appends_row [OF _ r, unfolded l(1), OF s(2)]
  let ?delta = "concat (map snd out)"
  let ?s = "s\<lparr>sn_detokenizer := d, sn_completions := (sn_completions s)[i := sn_completions s ! i @ ?delta]\<rparr>"
  have "flush_row D digit params a b chk i (s, deltas) = Inr (?s, deltas @ [?delta])"
    by (simp add: flush_row_def r np emit_delta_def Let_def)
  moreover have "sized n ?s" using s(1) q(2) by (simp add: sized_def)
  moreover have "text_core ?s = text_core s" by (simp add: text_core_def)
  ultimately show ?thesis using q(1,3) s(2) l by (intro exI [of _ ?s] exI [of _ ?delta]) simp
qed

lemma flush_rows_plain:
  assumes s: "sized n s" and np: "\<not> stop_on_repeat params"
  shows "k \<le> n \<Longrightarrow> \<exists>s' ds. rfold (flush_row D digit params a b chk) [0..<k] (s, []) = Inr (s', ds) \<and> length ds = k \<and> sized n s' \<and>
    text_core s' = text_core s \<and>
    (\<forall>j < k. append_tokens D (row_tokens s j a b) (sn_detokenizer s ! j) = (sn_detokenizer s' ! j, ds ! j) \<and>
       sn_completions s' ! j = sn_completions s ! j @ ds ! j) \<and>
    (\<forall>j < n. k \<le> j \<longrightarrow> sn_detokenizer s' ! j = sn_detokenizer s ! j \<and> sn_completions s' ! j = sn_completions s ! j)"
proof (induction k)
  case 0
  then show ?case using s by simp
next
  case (Suc k)
  then obtain s1 ds where h: "rfold (flush_row D digit params a b chk) [0..<k] (s, []) = Inr (s1, ds)" "length ds = k" "sized n s1"
    "text_core s1 = text_core s"
    "\<forall>j < k. append_tokens D (row_tokens s j a b) (sn_detokenizer s ! j) = (sn_detokenizer s1 ! j, ds ! j) \<and>
       sn_completions s1 ! j = sn_completions s ! j @ ds ! j"
    "\<forall>j < n. k \<le> j \<longrightarrow> sn_detokenizer s1 ! j = sn_detokenizer s ! j \<and> sn_completions s1 ! j = sn_completions s ! j" by auto
  have k: "k < n" using Suc.prems by simp
  obtain s2 delta where f: "flush_row D digit params a b chk k (s1, ds) = Inr (s2, ds @ [delta])" "sized n s2"
    "text_core s2 = text_core s1" "append_tokens D (row_tokens s1 k a b) (sn_detokenizer s1 ! k) = (sn_detokenizer s2 ! k, delta)"
    "sn_completions s2 ! k = sn_completions s1 ! k @ delta"
    "\<forall>j < n. j \<noteq> k \<longrightarrow> sn_detokenizer s2 ! j = sn_detokenizer s1 ! j \<and> sn_completions s2 ! j = sn_completions s1 ! j"
    using flush_row_plain [OF h(3) k np] by blast
  have "rfold (flush_row D digit params a b chk) [0..<Suc k] (s, []) = Inr (s2, ds @ [delta])"
    by (simp add: rfold_append h(1) f(1))
  moreover have "row_tokens s1 k a b = row_tokens s k a b" by (rule text_coreD(8) [OF h(4)])
  ultimately show ?case
    using h f k by (intro exI [of _ s2] exI [of _ "ds @ [delta]"]) (auto simp: nth_append less_Suc_eq)
qed

text \<open>Reading columns on from \<open>a\<close> to \<open>b\<close>.\<close>

lemma flush_plain:
  assumes s: "sized n s" and np: "\<not> stop_on_repeat params"
    and rd: "\<forall>i < n. read_upto D i a s" and le: "sn_max_prompt_len s \<le> a" "a \<le> b"
  shows "\<exists>s' ds. flush D digit params a b chk s = Inr (s', ds) \<and> length ds = n \<and> sized n s' \<and> text_core s' = text_core s \<and>
    (\<forall>i < n. read_upto D i b s' \<and> sn_completions s' ! i = sn_completions s ! i @ ds ! i)"
proof (cases "b \<le> a")
  case True
  then show ?thesis using s rd le by (intro exI [of _ s] exI [of _ "replicate n []"]) (simp add: flush_def sized_def)
next
  case False
  obtain s' ds where f: "rfold (flush_row D digit params a b chk) [0..<n] (s, []) = Inr (s', ds)" "length ds = n" "sized n s'"
    "text_core s' = text_core s"
    "\<forall>j < n. append_tokens D (row_tokens s j a b) (sn_detokenizer s ! j) = (sn_detokenizer s' ! j, ds ! j) \<and>
       sn_completions s' ! j = sn_completions s ! j @ ds ! j"
    using flush_rows_plain [OF s np, of n D digit a b chk] by auto
  have "sn_batch_size s = n" using s by (simp add: sized_def)
  then have e: "flush D digit params a b chk s = Inr (s', ds)" using False f(1) by (simp add: flush_def)
  have "read_upto D i b s'" if i: "i < n" for i
  proof -
    let ?m = "sn_max_prompt_len s"
    have "[?m..<b] = [?m..<a] @ [a..<b]" using upt_add_eq_append [of ?m a "b - a"] le by simp
    then have "row_tokens s i ?m b = row_tokens s i ?m a @ row_tokens s i a b" by (simp add: row_tokens_def)
    then have "append_tokens D (row_tokens s i ?m b) sequence_init = (sn_detokenizer s' ! i, sn_completions s' ! i)"
      using rd [unfolded read_upto_def] f(5) i by (simp add: append_tokens_snoc)
    then show ?thesis using text_coreD(6,8) [OF f(4)] by (simp add: read_upto_def)
  qed
  then show ?thesis using e f(2-5) by blast
qed

section \<open>The columns\<close>

definition device_sized :: "nat \<Rightarrow> 'l device \<Rightarrow> bool" where
  "device_sized n device \<longleftrightarrow>
     (\<forall>prev cur lens ts next_token records. length ts = n \<longrightarrow> device prev cur lens ts = Inr (next_token, records) \<longrightarrow> length next_token = n)"

text \<open>A step does not look at the text.\<close>

lemma session_step_core:
  "session_step device params prev cur (text_core s) = rbind (session_step device params prev cur s) (\<lambda>s1. Inr (text_core s1))"
  by (cases s; cases "device prev cur (sn_host_lens s) (map (take cur) (sn_tokens s))")
    (simp_all add: session_step_def Let_def rbind_assoc text_core_def split: prod.split cong: if_cong)

lemma session_step_ok:
  assumes s: "sized n s" and dev: "device_sized n device" and st: "session_step device params prev cur s = Inr s1"
  shows "sized n s1" "sn_detokenizer s1 = sn_detokenizer s" "sn_completions s1 = sn_completions s"
    "sn_max_prompt_len s1 = sn_max_prompt_len s" "sn_total_len s1 = sn_total_len s"
    "i < n \<Longrightarrow> b \<le> cur \<Longrightarrow> row_tokens s1 i a b = row_tokens s i a b"
proof -
  obtain next_token records stop' where d: "device prev cur (sn_host_lens s) (map (take cur) (sn_tokens s)) = Inr (next_token, records)"
    and u: "stop_update next_token (map (\<lambda>row. \<not> row ! cur) (sn_prompt_mask s)) (sn_stop s) = Inr stop'"
    and s1: "s1 = s\<lparr>sn_host_lens := map Suc (sn_host_lens s),
      sn_tokens := map2 (\<lambda>(w, t) row. if w then row[cur := t] else row) (zip (map (\<lambda>row. \<not> row ! cur) (sn_prompt_mask s)) next_token) (sn_tokens s),
      sn_stop := stop',
      sn_accepted := map2 (\<lambda>k row. row[cur := k]) (map2 (\<lambda>w f. w \<and> \<not> f) (map (\<lambda>row. \<not> row ! cur) (sn_prompt_mask s)) (st_finished stop')) (sn_accepted s),
      sn_output_logprobs := sn_output_logprobs s1\<rparr>"
    using st by (auto simp: session_step_def Let_def)
  have l: "length next_token = n" using dev d s unfolding device_sized_def sized_def by (metis length_map)
  note sz = s [unfolded sized_def]
  have "stop_ok stop' \<and> st_batch_size stop' = n" using stop_update_ok [OF u] sz l by simp
  moreover from this have lf: "length (st_finished stop') = n" by (simp add: stop_ok_def)
  ultimately show "sized n s1" using sz l by (subst s1) (simp add: sized_def)
  show "sn_detokenizer s1 = sn_detokenizer s" "sn_completions s1 = sn_completions s"
    "sn_max_prompt_len s1 = sn_max_prompt_len s" "sn_total_len s1 = sn_total_len s" by (subst s1, simp)+
  show "row_tokens s1 i a b = row_tokens s i a b" if "i < n" "b \<le> cur"
  proof -
    have "sn_tokens s1 ! i ! c = sn_tokens s ! i ! c" "sn_accepted s1 ! i ! c = sn_accepted s ! i ! c" if "c < cur" for c
      using sz l lf \<open>i < n\<close> that by (subst s1, simp)+
    then show ?thesis unfolding row_tokens_def using that(2) by (intro arg_cong [of _ _ "filter _"] map_cong) simp_all
  qed
qed

text \<open>The loop on the grid alone.\<close>

fun grid_columns :: "'l device \<Rightarrow> sampling_params \<Rightarrow> nat list \<Rightarrow> nat \<Rightarrow> nat \<Rightarrow> 'l session \<Rightarrow> 'l session res" where
  "grid_columns device params [] step_no prev g = Inr g"
| "grid_columns device params (cur # curs) step_no prev g =
     rbind (session_step device params prev cur g) (\<lambda>g1.
       if step_no mod POLL_INTERVAL = 0 \<and> all_finished (sn_stop g1) then Inr g1
       else grid_columns device params curs (step_no + 1) cur g1)"

definition run_matches ::
  "(int list \<Rightarrow> utext) \<Rightarrow> nat \<Rightarrow> nat \<Rightarrow> bool \<Rightarrow> 'l session \<Rightarrow> 'l session res \<Rightarrow> utext list list \<times> ('l session \<times> nat) res \<Rightarrow> bool" where
  "run_matches D n cend stream s g r \<longleftrightarrow>
     (case g of
        Inl e \<Rightarrow> snd r = Inl e
      | Inr g1 \<Rightarrow> \<exists>ys s' q. r = (ys, Inr (s', q)) \<and> text_core s' = g1 \<and> sized n s' \<and> sn_max_prompt_len s' \<le> q \<and> q \<le> cend \<and>
          (\<forall>i < n. read_upto D i q s') \<and> (\<not> stream \<longrightarrow> ys = []) \<and>
          (stream \<longrightarrow> (\<forall>i < n. sn_completions s' ! i = sn_completions s ! i @ concat (map (\<lambda>d. d ! i) ys))))"

lemma run_columns_grid:
  assumes dev: "device_sized n device" and np: "\<not> stop_on_repeat params"
  shows "sized n s \<Longrightarrow> \<forall>i < n. read_upto D i p s \<Longrightarrow> sn_max_prompt_len s \<le> p \<Longrightarrow> p \<le> c \<Longrightarrow> c \<le> cend \<Longrightarrow>
    run_matches D n cend stream s (grid_columns device params [c..<cend] k prev (text_core s))
      (run_columns D digit device params stream [c..<cend] k prev p s)"
proof (induction "cend - c" arbitrary: c s p k prev)
  case 0
  then have "[c..<cend] = []" by simp
  then show ?case using 0 by (simp add: run_matches_def)
next
  case (Suc d)
  have lt: "c < cend" using Suc.hyps(2) by simp
  have cons: "[c..<cend] = c # [c + 1..<cend]" using lt by (simp add: upt_conv_Cons)
  show ?case
  proof (cases "session_step device params prev c s")
    case (Inl e)
    then show ?thesis by (simp add: cons session_step_core run_matches_def Let_def)
  next
    case (Inr s1)
    note o = session_step_ok [OF Suc.prems(1) dev Inr]
    have rd1: "\<forall>i < n. read_upto D i p s1"
      using Suc.prems(2,4) o(2-4) o(6) unfolding read_upto_def by simp
    let ?poll = "k mod POLL_INTERVAL = 0" and ?p = "if stream \<or> k mod POLL_INTERVAL = 0 then c + 1 else p"
    let ?flush = "if stream then flush D digit params p (c + 1) ?poll s1 else if ?poll then flush D digit params p (c + 1) True s1 else Inr (s1, [])"
    obtain s2 ds where f: "?flush = Inr (s2, ds)" "sized n s2" "text_core s2 = text_core s1" "\<forall>i < n. read_upto D i ?p s2"
      "stream \<longrightarrow> (\<forall>i < n. sn_completions s2 ! i = sn_completions s1 ! i @ ds ! i)"
    proof (cases "stream \<or> ?poll")
      case True
      obtain s2 ds where "flush D digit params p (c + 1) ?poll s1 = Inr (s2, ds)" "sized n s2" "text_core s2 = text_core s1"
        "\<forall>i < n. read_upto D i (c + 1) s2 \<and> sn_completions s2 ! i = sn_completions s1 ! i @ ds ! i"
        using flush_plain [OF o(1) np rd1, of "c + 1" digit ?poll] Suc.prems(3,4) o(4) by auto
      then show ?thesis using True by (intro that [of s2 ds]) auto
    next
      case False
      then show ?thesis using o(1) rd1 by (intro that [of s1 "[]"]) auto
    qed
    have m: "sn_max_prompt_len s2 = sn_max_prompt_len s" using text_coreD(6) [OF f(3)] o(4) by simp
    have stop: "sn_stop s2 = sn_stop s1" by (rule text_coreD(4) [OF f(3)])
    have g: "grid_columns device params [c..<cend] k prev (text_core s) =
        (if ?poll \<and> all_finished (sn_stop s2) then Inr (text_core s2) else grid_columns device params [c + 1..<cend] (k + 1) c (text_core s2))"
      by (simp add: cons session_step_core Inr f(3) stop)
    define ys where "ys = (if stream then [ds] else [])"
    have r: "run_columns D digit device params stream [c..<cend] k prev p s =
        (if ?poll \<and> all_finished (sn_stop s2) then (ys, Inr (s2, ?p))
         else case run_columns D digit device params stream [c + 1..<cend] (k + 1) c ?p s2 of (zs, r) \<Rightarrow> (ys @ zs, r))"
      using f(1) by (simp add: cons Inr ys_def Let_def)
    have c2: "stream \<longrightarrow> (\<forall>i < n. sn_completions s2 ! i = sn_completions s ! i @ concat (map (\<lambda>d. d ! i) ys))"
      using f(5) o(3) by (simp add: ys_def)
    have b: "sn_max_prompt_len s2 \<le> ?p" "?p \<le> c + 1" "c + 1 \<le> cend" using Suc.prems(3,4) m lt by auto
    show ?thesis
    proof (cases "?poll \<and> all_finished (sn_stop s2)")
      case True
      then show ?thesis
        unfolding g r using f(2,4) b c2 by (auto simp: run_matches_def ys_def)
    next
      case False
      have IH: "run_matches D n cend stream s2 (grid_columns device params [c + 1..<cend] (k + 1) c (text_core s2))
          (run_columns D digit device params stream [c + 1..<cend] (k + 1) c ?p s2)"
        by (rule Suc.hyps(1)) (use Suc.hyps(2) f(2,4) b in simp_all)
      show ?thesis
        unfolding g r if_not_P [OF False]
        using IH c2 by (auto simp: run_matches_def ys_def split: sum.splits prod.splits)
    qed
  qed
qed

lemma grid_columns_frame:
  "grid_columns device params cs k prev g = Inr g' \<Longrightarrow>
     sn_max_prompt_len g' = sn_max_prompt_len g \<and> sn_total_len g' = sn_total_len g"
proof (induction cs arbitrary: k prev g)
  case (Cons c cs)
  obtain g1 where st: "session_step device params prev c g = Inr g1"
    "(if k mod POLL_INTERVAL = 0 \<and> all_finished (sn_stop g1) then Inr g1 else grid_columns device params cs (k + 1) c g1) = Inr g'"
    using Cons.prems by auto
  have "sn_max_prompt_len g1 = sn_max_prompt_len g \<and> sn_total_len g1 = sn_total_len g"
    using st(1) by (auto simp: session_step_def Let_def)
  then show ?case using st(2) Cons.IH [of "k + 1" c g1] by (auto split: if_splits)
qed simp

section \<open>A whole call\<close>

lemma foldr_max_le: "x \<in> set xs \<Longrightarrow> x \<le> foldr max xs (0 :: nat)"
  by (induction xs) auto

lemma session_init_ok:
  assumes "session_init max_seq pad stop_ids vocab params prompts = Inr s" "params_check params = Inr params"
  shows "sized (length prompts) s" "sn_max_prompt_len s \<le> sn_total_len s"
    "i < length prompts \<Longrightarrow> read_upto D i (sn_max_prompt_len s) s \<and> sn_completions s ! i = []"
proof -
  have "par_max_gen_len params = Some n \<Longrightarrow> 1 \<le> n" for n
    using assms(2) by (auto simp: params_check_def split: if_splits)
  then show "sn_max_prompt_len s \<le> sn_total_len s"
    using assms(1) by (auto simp: session_init_def Let_def split: if_splits option.splits)
  obtain st where st: "stop_init (length prompts) stop_ids vocab = Inr st" "sn_stop s = st" "sn_batch_size s = length prompts"
    "sn_detokenizer s = detok_init (length prompts)" "sn_completions s = replicate (length prompts) []"
    "length (sn_tokens s) = length prompts" "length (sn_accepted s) = length prompts" "length (sn_prompt_mask s) = length prompts"
    using assms(1) by (auto simp: session_init_def Let_def split: if_splits)
  then show "sized (length prompts) s" using stop_init_ok [OF st(1)] by (simp add: sized_def detok_init_def)
  show "read_upto D i (sn_max_prompt_len s) s \<and> sn_completions s ! i = []" if "i < length prompts"
    using that st(4,5) by (simp add: read_upto_def row_tokens_def detok_init_def)
qed

lemma stop_reasons_ok: "stop_ok st \<Longrightarrow> stop_reasons st = Inr (map ((!) REASON_NAMES) (st_reason st))"
  by (auto simp: stop_reasons_def stop_ok_def REASON_NAMES_def in_set_conv_nth eval_nat_numeral less_Suc_eq_le)

text \<open>The state is determined by the grid once every column has been read.\<close>

lemma read_all_eq:
  assumes "text_core s' = text_core s" "sized n s" "sized n s'"
    and "\<forall>i < n. read_upto D i b s" "\<forall>i < n. read_upto D i b s'"
  shows "s' = s"
proof -
  have m: "row_tokens s' i (sn_max_prompt_len s') b = row_tokens s i (sn_max_prompt_len s) b" for i
    using text_coreD(6,8) [OF assms(1)] by simp
  have "(sn_detokenizer s' ! i, sn_completions s' ! i) = (sn_detokenizer s ! i, sn_completions s ! i)" if "i < n" for i
    using assms(4,5) that m unfolding read_upto_def by metis
  then have "sn_detokenizer s' = sn_detokenizer s" "sn_completions s' = sn_completions s"
    using assms(2,3) by (simp_all add: sized_def list_eq_iff_nth_eq)
  then show ?thesis using assms(1) by (cases s; cases s') (simp add: text_core_def)
qed

lemma session_run_result:
  assumes dev: "device_sized n device" and np: "\<not> stop_on_repeat params" and s: "sized n s"
    and m: "sn_max_prompt_len s \<le> sn_total_len s"
    and rd: "\<forall>i < n. read_upto D i (sn_max_prompt_len s) s \<and> sn_completions s ! i = []"
  shows "case grid_columns device params [sn_max_prompt_len s..<sn_total_len s] 1 0 (text_core s) of
      Inl e \<Rightarrow> snd (session_run D digit device params stream s) = Inl e
    | Inr g \<Rightarrow> \<exists>ys s'. session_run D digit device params stream s = (ys, Inr (s', map ((!) REASON_NAMES) (st_reason (sn_stop g)))) \<and>
        text_core s' = g \<and> sized n s' \<and> (\<forall>i < n. read_upto D i (sn_total_len s) s') \<and> (\<not> stream \<longrightarrow> ys = []) \<and>
        (stream \<longrightarrow> (\<forall>i < n. sn_completions s' ! i = concat (map (\<lambda>d. d ! i) ys)))"
proof -
  let ?cs = "[sn_max_prompt_len s..<sn_total_len s]" and ?m = "sn_max_prompt_len s"
  have rm: "run_matches D n (sn_total_len s) stream s (grid_columns device params ?cs 1 0 (text_core s))
      (run_columns D digit device params stream ?cs 1 0 ?m s)"
    by (rule run_columns_grid [OF dev np s]) (use rd m in simp_all)
  show ?thesis
  proof (cases "grid_columns device params ?cs 1 0 (text_core s)")
    case (Inl e)
    then show ?thesis using rm by (auto simp: run_matches_def session_run_def split: prod.split)
  next
    case (Inr g)
    obtain ys s1 q where r: "run_columns D digit device params stream ?cs 1 0 ?m s = (ys, Inr (s1, q))" "text_core s1 = g" "sized n s1"
      "sn_max_prompt_len s1 \<le> q" "q \<le> sn_total_len s" "\<forall>i < n. read_upto D i q s1" "\<not> stream \<longrightarrow> ys = []"
      "stream \<longrightarrow> (\<forall>i < n. sn_completions s1 ! i = sn_completions s ! i @ concat (map (\<lambda>d. d ! i) ys))"
      using rm Inr by (auto simp: run_matches_def)
    have t: "sn_total_len s1 = sn_total_len s" using grid_columns_frame [OF Inr] unfolding r(2) [symmetric] by simp
    obtain s2 ds where f: "flush D digit params q (sn_total_len s) False s1 = Inr (s2, ds)" "length ds = n" "sized n s2"
      "text_core s2 = text_core s1"
      "\<forall>i < n. read_upto D i (sn_total_len s) s2 \<and> sn_completions s2 ! i = sn_completions s1 ! i @ ds ! i"
      using flush_plain [OF r(3) np r(6,4,5), of digit False] by blast
    have fl: "(if q < sn_total_len s1 then flush D digit params q (sn_total_len s1) False s1 else Inr (s1, [])) =
        Inr (s2, if q < sn_total_len s then ds else [])"
      using f(1) t by (auto simp: flush_def)
    define zs where "zs = (if q < sn_total_len s then ds else [])"
    define more_ys where "more_ys = (if stream \<and> (\<exists>d \<in> set zs. d \<noteq> []) then [zs] else [])"
    have sr: "stop_reasons (sn_stop s2) = Inr (map ((!) REASON_NAMES) (st_reason (sn_stop g)))"
      using stop_reasons_ok [of "sn_stop s2"] f(3) text_coreD(4) [OF f(4)] r(2) by (auto simp: sized_def)
    have run: "session_run D digit device params stream s = (ys @ more_ys, Inr (s2, map ((!) REASON_NAMES) (st_reason (sn_stop g))))"
      unfolding session_run_def r(1) prod.case sum.case fl by (simp add: zs_def [symmetric] more_ys_def sr)
    have "ds ! i = concat (map (\<lambda>d. d ! i) more_ys)" if "stream" "i < n" for i
    proof (cases "\<exists>d \<in> set zs. d \<noteq> []")
      case True
      then show ?thesis using that by (auto simp: more_ys_def zs_def split: if_splits)
    next
      case False
      show ?thesis
      proof (cases "q < sn_total_len s")
        case True
        then show ?thesis using False that f(2) by (auto simp: more_ys_def zs_def)
      next
        case q: False
        then have "ds = replicate n []" using f(1) r(3) by (auto simp: flush_def sized_def)
        then show ?thesis using False that by (simp add: more_ys_def)
      qed
    qed
    then have "\<forall>i < n. sn_completions s2 ! i = concat (map (\<lambda>d. d ! i) (ys @ more_ys))" if "stream"
      using f(5) r(8) rd that by simp
    moreover have "\<not> stream \<longrightarrow> ys @ more_ys = []" using r(7) by (simp add: more_ys_def)
    ultimately show ?thesis
      unfolding Inr sum.case run using f r(2) by blast
  qed
qed

section \<open>Properties\<close>

text \<open>C37: streaming changes no text. Without the repetition breaker, for the same samples, a streaming call and a batched call end
  in the same state, with the same stop reasons, or raise the same exception, although one reads back every column and the other
  one column in eight steps: what the streaming call yielded for a sequence concatenates to its completion in the batched call,
  which is the one-shot decoding of a prefix of its accepted tokens.\<close>

theorem stream_matches_batch:
  assumes "params_check params = Inr params" "\<not> stop_on_repeat params"
    and "session_init max_seq pad stop_ids vocab params prompts = Inr s0" "device_sized (length prompts) device"
  shows "case session_run D digit device params False s0 of
      (ys, Inl e) \<Rightarrow> snd (session_run D digit device params True s0) = Inl e
    | (ys, Inr (s, reasons)) \<Rightarrow> ys = [] \<and>
        (\<exists>deltas. session_run D digit device params True s0 = (deltas, Inr (s, reasons)) \<and>
          (\<forall>i < length prompts. concat (map (\<lambda>d. d ! i) deltas) = sn_completions s ! i \<and>
             (window_law D \<longrightarrow> (\<exists>k. sn_completions s ! i =
                detok_decode D (take k (row_tokens s i (sn_max_prompt_len s) (sn_total_len s)))))))"
proof -
  note i = session_init_ok [OF assms(3,1)]
  have rd: "\<forall>j < length prompts. read_upto D j (sn_max_prompt_len s0) s0 \<and> sn_completions s0 ! j = []" using i(3) by blast
  note run = session_run_result [OF assms(4,2) i(1,2) rd, where digit = digit]
  show ?thesis
  proof (cases "grid_columns device params [sn_max_prompt_len s0..<sn_total_len s0] 1 0 (text_core s0)")
    case (Inl e)
    then show ?thesis using run [of False] run [of True] by (auto split: prod.split)
  next
    case (Inr g)
    let ?reasons = "map ((!) REASON_NAMES) (st_reason (sn_stop g))"
    obtain s where s: "session_run D digit device params False s0 = ([], Inr (s, ?reasons))" "text_core s = g" "sized (length prompts) s"
      "\<forall>j < length prompts. read_upto D j (sn_total_len s0) s" using run [of False] Inr by auto
    obtain ds s' where s': "session_run D digit device params True s0 = (ds, Inr (s', ?reasons))" "text_core s' = g"
      "sized (length prompts) s'" "\<forall>j < length prompts. read_upto D j (sn_total_len s0) s'"
      "\<forall>j < length prompts. sn_completions s' ! j = concat (map (\<lambda>d. d ! j) ds)" using run [of True] Inr by auto
    have e: "s' = s" using read_all_eq [OF _ s(3) s'(3) s(4) s'(4)] s(2) s'(2) by simp
    have t: "sn_total_len s = sn_total_len s0" using grid_columns_frame [OF Inr] unfolding s(2) [symmetric] by simp
    have "\<exists>k. sn_completions s ! j = detok_decode D (take k (row_tokens s j (sn_max_prompt_len s) (sn_total_len s)))"
      if "window_law D" "j < length prompts" for j
    proof -
      have "append_tokens D (row_tokens s j (sn_max_prompt_len s) (sn_total_len s)) sequence_init = (sn_detokenizer s ! j, sn_completions s ! j)"
        using s(4) that(2) by (simp add: read_upto_def t)
      from append_tokens_emitted [OF that(1) emitted_init this] show ?thesis
        by (intro exI [of _ "read_offset (sn_detokenizer s ! j)"]) (simp add: emitted_ok_def sequence_init_def)
    qed
    then show ?thesis using s(1) s'(1,5) by (simp add: e)
  qed
qed

text \<open>Two prompts of different length; the device counts up, and token 8 stops a sequence.\<close>

definition count_device :: "unit device" where
  "count_device prev cur lens ts = Inr (map (\<lambda>row. last (0 # filter (\<lambda>t. t \<noteq> 0) row) + 1) ts, [])"

definition plain_params :: sampling_params where
  "plain_params = default_params\<lparr>stop_on_repeat := False, par_max_gen_len := Some 10\<rparr>"

definition plain_session :: "unit session" where
  "plain_session = (case session_init 32 0 [8] 32 plain_params [[9, 10], [5]] of Inr s \<Rightarrow> s)"

theorem stream_matches_batch_witness:
  "case session_run decode2 (\<lambda>c. False) count_device plain_params False plain_session of
      (ys, Inl e) \<Rightarrow> False
    | (ys, Inr (s, reasons)) \<Rightarrow>
        ys = [] \<and> reasons = [''length'', ''eos''] \<and> sn_completions s = [[11, 12, 13, 14, 15, 16, 17, 18, 19, 20], [6, 7]] \<and>
        (\<exists>deltas. session_run decode2 (\<lambda>c. False) count_device plain_params True plain_session = (deltas, Inr (s, reasons)) \<and>
          (\<forall>i < 2. concat (map (\<lambda>d. d ! i) deltas) = sn_completions s ! i \<and>
             (\<exists>k. sn_completions s ! i =
                detok_decode decode2 (take k (row_tokens s i (sn_max_prompt_len s) (sn_total_len s))))))"
proof -
  let ?run = "\<lambda>stream. session_run decode2 (\<lambda>c. False) count_device plain_params stream plain_session"
  have "params_check plain_params = Inr plain_params" "\<not> stop_on_repeat plain_params"
    "session_init 32 0 [8] 32 plain_params [[9, 10], [5]] = Inr plain_session" by code_simp+
  moreover have "device_sized (length [[9, 10], [5 :: int]]) count_device" by (auto simp: device_sized_def count_device_def)
  ultimately have m: "case ?run False of
      (ys, Inl e) \<Rightarrow> snd (?run True) = Inl e
    | (ys, Inr (s, reasons)) \<Rightarrow> ys = [] \<and>
        (\<exists>deltas. ?run True = (deltas, Inr (s, reasons)) \<and>
          (\<forall>i < length [[9, 10], [5 :: int]]. concat (map (\<lambda>d. d ! i) deltas) = sn_completions s ! i \<and>
             (window_law decode2 \<longrightarrow> (\<exists>k. sn_completions s ! i =
                detok_decode decode2 (take k (row_tokens s i (sn_max_prompt_len s) (sn_total_len s)))))))"
    by (rule stream_matches_batch)
  have "(case snd (?run False) of Inl e \<Rightarrow> None | Inr (s, reasons) \<Rightarrow> Some (reasons, sn_completions s)) =
      Some ([''length'', ''eos''], [[11, 12, 13, 14, 15, 16, 17, 18, 19, 20], [6, 7]])" by code_simp
  then show ?thesis using m decode2_window by (auto split: prod.splits sum.splits)
qed


end
