(* ===== verification/Tiering.thy ===== *)
theory Tiering
  imports KV_Offload
begin

text \<open>
  The engine's handle on the offloading stack: the protocol of \<^verbatim>\<open>OffloadingManager\<close> (\<^verbatim>\<open>kv_offload/base.py\<close>) and the manager
  that the planner talks to, \<^verbatim>\<open>TieringOffloadingManager\<close> (\<^verbatim>\<open>kv_offload/tiering.py\<close>), which refuses secondary tiers and forwards
  every call to the primary one.

  The protocol is the locale \<open>offload_manager\<close>: a manager with its transfers in flight, the operations of \<^verbatim>\<open>OffloadingManager\<close>
  and what each promises. It is interpreted on the CPU tier (\<open>cpu\<close>) and on the tiering manager (\<open>tiers\<close>). What follows from
  the protocol alone, for every sequence of calls, is proved once inside it.
\<close>

section \<open>The tiering manager\<close>

datatype medium = CPU | STORAGE

datatype locality = LOCAL | REMOTE

record secondary_tier =
  st_medium :: medium
  st_locality :: locality

record tiering =
  primary :: tier

definition tiering_init :: "tier \<Rightarrow> secondary_tier list \<Rightarrow> tiering res" where
  "tiering_init t secondaries = (if secondaries \<noteq> [] then Inl NotImplementedError else Inr \<lparr>primary = t\<rparr>)"

text \<open>Forwarding a call: the primary tier is an object, so what the call does to it stays.\<close>

definition forward :: "(tier \<Rightarrow> tier res) \<Rightarrow> tiering \<Rightarrow> tiering res" where
  "forward f m = rbind (f (primary m)) (\<lambda>t. Inr (m\<lparr>primary := t\<rparr>))"

definition forward_value :: "(tier \<Rightarrow> (tier \<times> 'a) res) \<Rightarrow> tiering \<Rightarrow> (tiering \<times> 'a) res" where
  "forward_value f m = rbind (f (primary m)) (\<lambda>(t, v). Inr (m\<lparr>primary := t\<rparr>, v))"

definition tiering_lookup :: "bhash \<Rightarrow> tiering \<Rightarrow> tiering \<times> lookup_result" where
  "tiering_lookup key m = (case tier_lookup key (primary m) of (t, v) \<Rightarrow> (m\<lparr>primary := t\<rparr>, v))"

definition tiering_touch :: "bhash list \<Rightarrow> tiering \<Rightarrow> tiering res" where
  "tiering_touch keys = forward (tier_touch keys)"

definition tiering_prepare_load ::
  "(copy_run list \<Rightarrow> bool \<Rightarrow> event option) \<Rightarrow> bhash list \<Rightarrow> nat list \<Rightarrow> tiering \<Rightarrow> (tiering \<times> load_spec option) res" where
  "tiering_prepare_load submit keys gpu_blocks = forward_value (prepare_load submit keys gpu_blocks)"

definition tiering_complete_load :: "bhash list \<Rightarrow> tiering \<Rightarrow> tiering res" where
  "tiering_complete_load keys = forward (complete_load keys)"

definition tiering_prepare_store ::
  "(copy_run list \<Rightarrow> bool \<Rightarrow> event option) \<Rightarrow> (nat \<times> bhash) list \<Rightarrow> tiering \<Rightarrow> (tiering \<times> store_spec) res" where
  "tiering_prepare_store submit entries = forward_value (prepare_store submit entries)"

definition tiering_complete_store :: "bhash list \<Rightarrow> tiering \<Rightarrow> tiering res" where
  "tiering_complete_store keys = forward (complete_store keys)"

definition tiering_take_events :: "(event \<Rightarrow> bool) \<Rightarrow> tiering \<Rightarrow> (tiering \<times> offload_event list) res" where
  "tiering_take_events query = forward_value (take_events query)"

definition tiering_has_pending_work :: "tiering \<Rightarrow> bool" where
  "tiering_has_pending_work m \<longleftrightarrow> has_pending_work (primary m)"

definition tiering_pending_store_events :: "tiering \<Rightarrow> event list" where
  "tiering_pending_store_events m = pending_store_events (primary m)"

definition tiering_reset_cache :: "(event \<Rightarrow> bool) \<Rightarrow> tiering \<Rightarrow> (tiering \<times> bool) res" where
  "tiering_reset_cache query = forward_value (reset_cache query)"

definition tiering_get_stats :: "tiering \<Rightarrow> tiering \<times> offload_stats" where
  "tiering_get_stats m = (case get_stats (primary m) of (t, s) \<Rightarrow> (m\<lparr>primary := t\<rparr>, s))"

section \<open>Calls\<close>

datatype offload_call =
    Lookup bhash
  | Touch "bhash list"
  | PrepareLoad "copy_run list \<Rightarrow> bool \<Rightarrow> event option" "bhash list" "nat list"
  | CompleteLoad "bhash list"
  | PrepareStore "copy_run list \<Rightarrow> bool \<Rightarrow> event option" "(nat \<times> bhash) list"
  | CompleteStore "bhash list"
  | TakeEvents "event \<Rightarrow> bool"
  | ResetCache "event \<Rightarrow> bool"
  | GetStats

text \<open>A call carries what the copier answers to it: the event of a move, and which events have fired. A load names a target for each key, a store names each key once.\<close>

fun call_ok :: "offload_call \<Rightarrow> bool" where
  "call_ok (PrepareLoad submit keys gpu_blocks) = (length keys = length gpu_blocks)"
| "call_ok (PrepareStore submit entries) = distinct (map snd entries)"
| "call_ok c = True"

section \<open>The protocol\<close>

locale offload_manager =
  fixes ok :: "'s \<Rightarrow> bool" and moving :: "'s \<Rightarrow> transfer list"
    and look :: "bhash \<Rightarrow> 's \<Rightarrow> 's \<times> lookup_result"
    and touched :: "bhash list \<Rightarrow> 's \<Rightarrow> 's res"
    and load :: "(copy_run list \<Rightarrow> bool \<Rightarrow> event option) \<Rightarrow> bhash list \<Rightarrow> nat list \<Rightarrow> 's \<Rightarrow> ('s \<times> load_spec option) res"
    and loaded :: "bhash list \<Rightarrow> 's \<Rightarrow> 's res"
    and store :: "(copy_run list \<Rightarrow> bool \<Rightarrow> event option) \<Rightarrow> (nat \<times> bhash) list \<Rightarrow> 's \<Rightarrow> ('s \<times> store_spec) res"
    and stored :: "bhash list \<Rightarrow> 's \<Rightarrow> 's res"
    and events :: "(event \<Rightarrow> bool) \<Rightarrow> 's \<Rightarrow> ('s \<times> offload_event list) res"
    and reset :: "(event \<Rightarrow> bool) \<Rightarrow> 's \<Rightarrow> ('s \<times> bool) res"
    and stats :: "'s \<Rightarrow> 's \<times> offload_stats"
  assumes look_law: "ok s \<Longrightarrow> ok (fst (look k s)) \<and> moving (fst (look k s)) = moving s \<and> snd (look k s) \<in> {HIT, MISS}"
    and touched_law: "ok s \<Longrightarrow> \<exists>s'. touched keys s = Inr s' \<and> ok s' \<and> moving s' = moving s"
    and load_law: "ok s \<Longrightarrow> length keys = length gpu_blocks \<Longrightarrow> \<exists>s' v. load submit keys gpu_blocks s = Inr (s', v) \<and> ok s' \<and>
          (case v of None \<Rightarrow> s' = s
           | Some spec \<Rightarrow> \<exists>tr. moving s' = moving s @ [tr] \<and> t_kind tr = Load \<and> t_keys tr = keys \<and>
               (\<forall>k \<in> set keys. snd (look k s) = HIT \<and> snd (look k s') = HIT))"
    and loaded_law: "ok s \<Longrightarrow> \<exists>s'. loaded keys s = Inr s' \<and> ok s'"
    and store_law: "ok s \<Longrightarrow> distinct (map snd entries) \<Longrightarrow> \<exists>s' v. store submit entries s = Inr (s', v) \<and> ok s'"
    and stored_law: "ok s \<Longrightarrow> \<exists>s'. stored keys s = Inr s' \<and> ok s'"
    and events_law: "ok s \<Longrightarrow> \<exists>s'. events query s = Inr (s', map event_of (filter (is_done query) (moving s))) \<and> ok s' \<and>
          moving s' = filter (\<lambda>tr. \<not> is_done query tr) (moving s) \<and>
          (\<forall>k. snd (look k s) = HIT \<longrightarrow> snd (look k s') = HIT) \<and>
          (\<forall>tr \<in> set (moving s). is_done query tr \<and> t_kind tr = Store \<longrightarrow> (\<forall>k \<in> set (t_keys tr). snd (look k s') = HIT))"
    and reset_law: "ok s \<Longrightarrow> \<exists>s'. reset query s = Inr (s', \<forall>tr \<in> set (moving s). is_done query tr) \<and> ok s' \<and>
          moving s' = filter (\<lambda>tr. \<not> is_done query tr) (moving s) \<and>
          ((\<forall>tr \<in> set (moving s). is_done query tr) \<longrightarrow> (\<forall>k. snd (look k s') = MISS))"
    and stats_law: "ok s \<Longrightarrow> ok (fst (stats s)) \<and> moving (fst (stats s)) = moving s"
begin

fun call :: "offload_call \<Rightarrow> 's \<Rightarrow> 's res" where
  "call (Lookup k) s = Inr (fst (look k s))"
| "call (Touch keys) s = touched keys s"
| "call (PrepareLoad submit keys gpu_blocks) s = rbind (load submit keys gpu_blocks s) (\<lambda>(s', v). Inr s')"
| "call (CompleteLoad keys) s = loaded keys s"
| "call (PrepareStore submit entries) s = rbind (store submit entries s) (\<lambda>(s', v). Inr s')"
| "call (CompleteStore keys) s = stored keys s"
| "call (TakeEvents query) s = rbind (events query s) (\<lambda>(s', v). Inr s')"
| "call (ResetCache query) s = rbind (reset query s) (\<lambda>(s', v). Inr s')"
| "call GetStats s = Inr (fst (stats s))"

lemma call_returns:
  assumes "ok s" "call_ok c"
  shows "\<exists>s'. call c s = Inr s' \<and> ok s'"
proof (cases c)
  case (PrepareLoad submit keys gpu_blocks)
  then show ?thesis using load_law [OF assms(1), of keys gpu_blocks submit] assms(2) by auto
next
  case (PrepareStore submit entries)
  then show ?thesis using store_law [OF assms(1), of entries submit] assms(2) by auto
next
  case (TakeEvents query)
  then show ?thesis using events_law [OF assms(1), of query] by auto
next
  case (ResetCache query)
  then show ?thesis using reset_law [OF assms(1), of query] by auto
next
  case (Touch keys)
  then show ?thesis using touched_law [OF assms(1), of keys] by auto
qed (use assms(1) look_law loaded_law stored_law stats_law in simp_all)

lemma calls_return:
  "ok s \<Longrightarrow> \<forall>c \<in> set cs. call_ok c \<Longrightarrow> \<exists>s'. rfold call cs s = Inr s' \<and> ok s'"
proof (induction cs arbitrary: s)
  case (Cons c cs)
  then obtain s1 where "call c s = Inr s1" "ok s1" using call_returns [of s c] by auto
  then show ?case using Cons.IH [of s1] Cons.prems(2) by simp
qed simp

text \<open>After any calls, draining when every copy has landed leaves nothing in flight, makes every store a hit, and then the cache
  can be reset.\<close>

lemma calls_quiesce:
  assumes "ok s" "\<forall>c \<in> set cs. call_ok c" "\<And>e. query e"
  shows "\<exists>s1 s2 s3. rfold call cs s = Inr s1 \<and> events query s1 = Inr (s2, map event_of (moving s1)) \<and> moving s2 = [] \<and>
    (\<forall>tr \<in> set (moving s1). t_kind tr = Store \<longrightarrow> (\<forall>k \<in> set (t_keys tr). snd (look k s2) = HIT)) \<and>
    reset query s2 = Inr (s3, True) \<and> moving s3 = [] \<and> (\<forall>k. snd (look k s3) = MISS)"
proof -
  have d: "is_done query tr" for tr using assms(3) by (simp add: is_done_def split: option.split)
  obtain s1 where s1: "rfold call cs s = Inr s1" "ok s1" using calls_return [OF assms(1,2)] by blast
  obtain s2 where s2: "events query s1 = Inr (s2, map event_of (moving s1))" "ok s2" "moving s2 = []"
    "\<forall>tr \<in> set (moving s1). t_kind tr = Store \<longrightarrow> (\<forall>k \<in> set (t_keys tr). snd (look k s2) = HIT)"
    using events_law [OF s1(2), of query] d by auto
  obtain s3 where "reset query s2 = Inr (s3, True)" "moving s3 = []" "\<forall>k. snd (look k s3) = MISS"
    using reset_law [OF s2(2), of query] s2(3) by auto
  then show ?thesis using s1 s2 by blast
qed

end

section \<open>The CPU tier keeps the protocol\<close>

lemma pop_pending_member:
  "pop_pending kind keys trs = Some (tr, rest) \<Longrightarrow> tr \<in> set trs \<and> t_kind tr = kind \<and> t_keys tr = keys"
  by (induction trs arbitrary: rest) (auto split: if_splits)

lemma complete_load_returns:
  assumes "tier_inv t"
  shows "\<exists>t'. complete_load keys t = Inr t' \<and> tier_inv t'"
proof (cases "pop_pending Load keys (pending t)")
  case None
  then show ?thesis using assms by (simp add: complete_load_def)
next
  case (Some q)
  then obtain tr where tr: "tr \<in> set (pending t)" "t_kind tr = Load" "t_keys tr = keys"
    using pop_pending_member by (metis surj_pair)
  then have "tkey tr \<in> set (map tkey (pending t))" by simp
  from assms this tr(2) obtain t' where "complete_load (t_keys tr) t = Inr t'" "tier_inv t'" by (rule complete_load_ok)
  then show ?thesis by (simp add: tr(3))
qed

lemma complete_store_returns:
  assumes "tier_inv t"
  shows "\<exists>t'. complete_store keys t = Inr t' \<and> tier_inv t'"
proof (cases "pop_pending Store keys (pending t)")
  case None
  then show ?thesis using assms by (simp add: complete_store_def)
next
  case (Some q)
  then obtain tr where tr: "tr \<in> set (pending t)" "t_kind tr = Store" "t_keys tr = keys"
    using pop_pending_member by (metis surj_pair)
  then have "tkey tr \<in> set (map tkey (pending t))" by simp
  from assms this tr(2) obtain t' where "complete_store (t_keys tr) t = Inr t'" "tier_inv t'" by (rule complete_store_ok)
  then show ?thesis by (simp add: tr(3))
qed

lemma tier_lookup_keeps:
  "tpool (fst (tier_lookup k t)) = tpool t" "pending (fst (tier_lookup k t)) = pending t"
  "tier_inv (fst (tier_lookup k t)) = tier_inv t" "snd (tier_lookup k t) \<in> {HIT, MISS}"
  by (simp_all add: tier_lookup_def tier_inv_def Let_def split: option.split)

lemma tier_stats_keeps:
  "pending (fst (get_stats t)) = pending t" "tier_inv (fst (get_stats t)) = tier_inv t"
  by (simp_all add: get_stats_def tier_inv_def Let_def)

lemma ledger_empty:
  assumes "ledger p [] infl pinned" "reset_prefix_cache p = (p', r)"
  shows "r \<and> ledger p' [] infl pinned \<and> (\<forall>b. block_hash p' b = None)"
proof -
  note l = ledgerD [OF assms(1)] and q = reset_prefix_cache_ok [OF l(1) assms(2)]
  have r: "r" using q(2) l(3) by simp
  have "infl = []" "pinned = 0" using l(10,11) by simp_all
  moreover have "enable_caching p'" using q(5) l(2) by (simp add: same_geometry_def)
  ultimately show ?thesis using r q(1,3) l(3) by (simp add: ledger_def)
qed

lemma tier_reset:
  assumes "tier_inv t"
  shows "\<exists>t'. reset_cache query t = Inr (t', \<forall>tr \<in> set (pending t). is_done query tr) \<and> tier_inv t' \<and>
    pending t' = filter (\<lambda>tr. \<not> is_done query tr) (pending t) \<and>
    ((\<forall>tr \<in> set (pending t). is_done query tr) \<longrightarrow> (\<forall>k. snd (tier_lookup k t') = MISS))"
proof -
  obtain t1 where t1: "take_events query t = Inr (t1, map event_of (filter (is_done query) (pending t)))" "tier_inv t1"
    "pending t1 = filter (\<lambda>tr. \<not> is_done query tr) (pending t)"
    by (rule take_events_ok [OF assms, of query]) (rule that)
  show ?thesis
  proof (cases "\<forall>tr \<in> set (pending t). is_done query tr")
    case False
    then have "pending t1 \<noteq> []" by (auto simp: t1(3) filter_empty_conv)
    then have "reset_cache query t = Inr (t1, False)" using t1(1) by (simp add: reset_cache_def)
    then show ?thesis using False t1(2,3) by auto
  next
    case True
    then have e: "pending t1 = []" by (simp add: t1(3))
    obtain p r where p: "reset_prefix_cache (tpool t1) = (p, r)" by (cases "reset_prefix_cache (tpool t1)")
    have l: "r" "ledger p [] (inflight_stores t1) (pinned_cached t1)" "\<forall>b. block_hash p b = None"
      using ledger_empty [OF _ p] t1(2) e unfolding tier_inv_def by simp_all
    let ?t = "t1\<lparr>tpool := p\<rparr>"
    have inv: "tier_inv ?t" using l(2) e by (simp add: tier_inv_def)
    have "snd (tier_lookup k ?t) = MISS" for k
      using tier_hit [OF inv, of k] l(3) tier_lookup_keeps(4) [of k ?t] by auto
    moreover have "reset_cache query t = Inr (?t, True)" using t1(1) e p l(1) by (simp add: reset_cache_def)
    ultimately show ?thesis using True inv e t1(3) by simp
  qed
qed

lemma tier_load:
  assumes "tier_inv t" "length keys = length gpu_blocks"
  shows "\<exists>t' v. prepare_load submit keys gpu_blocks t = Inr (t', v) \<and> tier_inv t' \<and>
    (case v of None \<Rightarrow> t' = t
     | Some spec \<Rightarrow> \<exists>tr. pending t' = pending t @ [tr] \<and> t_kind tr = Load \<and> t_keys tr = keys \<and>
         (\<forall>k \<in> set keys. snd (tier_lookup k t) = HIT \<and> snd (tier_lookup k t') = HIT))"
proof (rule prepare_load_ok [OF assms, of submit])
  assume "prepare_load submit keys gpu_blocks t = Inr (t, None)"
  then show ?thesis using assms(1) by simp
next
  fix t' tr
  assume "prepare_load submit keys gpu_blocks t =
      Inr (t', Some \<lparr>ls_cpu_blocks = t_cpu_blocks tr, ls_gpu_blocks = gpu_blocks, ls_keys = keys\<rparr>)" "tier_inv t'"
    "pending t' = pending t @ [tr]" "t_kind tr = Load" "t_keys tr = keys" "block_hash (tpool t') = block_hash (tpool t)"
    "\<And>k. k \<in> set keys \<Longrightarrow> \<exists>b. block_hash (tpool t) b = Some k"
  then show ?thesis using tier_hit [OF assms(1)] tier_hit [of t'] by simp
qed

interpretation cpu: offload_manager tier_inv pending tier_lookup tier_touch prepare_load complete_load prepare_store complete_store
  take_events reset_cache get_stats
proof (unfold_locales, goal_cases)
  case (2 s keys)
  then show ?case using tier_touch_ok by blast
next
  case (5 s entries submit)
  then show ?case by (rule prepare_store_ok [where submit = submit]) blast
next
  case (7 s query)
  show ?case
    by (rule take_events_ok [OF 7, of query]) (auto simp: tier_hit [OF 7] tier_hit)
qed (use tier_lookup_keeps tier_stats_keeps tier_load complete_load_returns complete_store_returns tier_reset in auto)

section \<open>The tiering manager keeps it as well\<close>

fun tiering_call :: "offload_call \<Rightarrow> tiering \<Rightarrow> tiering res" where
  "tiering_call (Lookup k) m = Inr (fst (tiering_lookup k m))"
| "tiering_call (Touch keys) m = tiering_touch keys m"
| "tiering_call (PrepareLoad submit keys gpu_blocks) m = rbind (tiering_prepare_load submit keys gpu_blocks m) (\<lambda>(m', v). Inr m')"
| "tiering_call (CompleteLoad keys) m = tiering_complete_load keys m"
| "tiering_call (PrepareStore submit entries) m = rbind (tiering_prepare_store submit entries m) (\<lambda>(m', v). Inr m')"
| "tiering_call (CompleteStore keys) m = tiering_complete_store keys m"
| "tiering_call (TakeEvents query) m = rbind (tiering_take_events query m) (\<lambda>(m', v). Inr m')"
| "tiering_call (ResetCache query) m = rbind (tiering_reset_cache query m) (\<lambda>(m', v). Inr m')"
| "tiering_call GetStats m = Inr (fst (tiering_get_stats m))"

definition tiering_inv :: "tiering \<Rightarrow> bool" where
  "tiering_inv m \<longleftrightarrow> tier_inv (primary m)"

abbreviation in_flight :: "tiering \<Rightarrow> transfer list" where
  "in_flight m \<equiv> pending (primary m)"

lemma forward_Inr:
  "f (primary m) = Inr t \<Longrightarrow> forward f m = Inr (m\<lparr>primary := t\<rparr>)"
  "g (primary m) = Inr (t, v) \<Longrightarrow> forward_value g m = Inr (m\<lparr>primary := t\<rparr>, v)"
  by (simp_all add: forward_def forward_value_def)

lemma tiering_lookup_eq: "tiering_lookup k m = (m\<lparr>primary := fst (tier_lookup k (primary m))\<rparr>, snd (tier_lookup k (primary m)))"
  by (simp add: tiering_lookup_def split: prod.split)

lemma tiering_stats_eq: "tiering_get_stats m = (m\<lparr>primary := fst (get_stats (primary m))\<rparr>, snd (get_stats (primary m)))"
  by (simp add: tiering_get_stats_def split: prod.split)

lemma forward_all:
  assumes "\<exists>t. f (primary m) = Inr t \<and> Q t"
  shows "\<exists>m'. forward f m = Inr m' \<and> Q (primary m')"
  using assms by (force simp: forward_def)

lemma forward_value_all:
  assumes "\<exists>t v. g (primary m) = Inr (t, v) \<and> Q t v"
  shows "\<exists>m' v. forward_value g m = Inr (m', v) \<and> Q (primary m') v"
  using assms by (force simp: forward_value_def)

interpretation tiers: offload_manager tiering_inv in_flight tiering_lookup tiering_touch tiering_prepare_load tiering_complete_load
  tiering_prepare_store tiering_complete_store tiering_take_events tiering_reset_cache tiering_get_stats
proof (unfold_locales, goal_cases)
  case (1 m k)
  then show ?case using cpu.look_law [of "primary m" k] by (simp add: tiering_inv_def tiering_lookup_eq)
next
  case (2 m keys)
  then show ?case
    unfolding tiering_inv_def tiering_touch_def by (intro forward_all cpu.touched_law)
next
  case (3 m keys gpu_blocks submit)
  have "\<exists>m' v. forward_value (prepare_load submit keys gpu_blocks) m = Inr (m', v) \<and> tier_inv (primary m') \<and>
      (case v of None \<Rightarrow> primary m' = primary m
       | Some spec \<Rightarrow> \<exists>tr. in_flight m' = in_flight m @ [tr] \<and> t_kind tr = Load \<and> t_keys tr = keys \<and>
           (\<forall>k \<in> set keys. snd (tier_lookup k (primary m)) = HIT \<and> snd (tier_lookup k (primary m')) = HIT))"
    using 3 unfolding tiering_inv_def by (intro forward_value_all cpu.load_law)
  then show ?case unfolding tiering_inv_def tiering_prepare_load_def tiering_lookup_eq by (auto split: option.splits)
next
  case (4 m keys)
  then show ?case
    unfolding tiering_inv_def tiering_complete_load_def by (intro forward_all cpu.loaded_law)
next
  case (5 m entries submit)
  then show ?case
    unfolding tiering_inv_def tiering_prepare_store_def by (intro forward_value_all cpu.store_law)
next
  case (6 m keys)
  then show ?case
    unfolding tiering_inv_def tiering_complete_store_def by (intro forward_all cpu.stored_law)
next
  case (7 m query)
  then obtain t where "take_events query (primary m) = Inr (t, map event_of (filter (is_done query) (in_flight m)))" "tier_inv t"
    "pending t = filter (\<lambda>tr. \<not> is_done query tr) (in_flight m)"
    "\<forall>k. snd (tier_lookup k (primary m)) = HIT \<longrightarrow> snd (tier_lookup k t) = HIT"
    "\<forall>tr \<in> set (in_flight m). is_done query tr \<and> t_kind tr = Store \<longrightarrow> (\<forall>k \<in> set (t_keys tr). snd (tier_lookup k t) = HIT)"
    using cpu.events_law [of "primary m" query] unfolding tiering_inv_def by blast
  then show ?case
    by (intro exI [of _ "m\<lparr>primary := t\<rparr>"]) (simp add: tiering_inv_def tiering_take_events_def forward_Inr tiering_lookup_eq)
next
  case (8 m query)
  then obtain t where "reset_cache query (primary m) = Inr (t, \<forall>tr \<in> set (in_flight m). is_done query tr)" "tier_inv t"
    "pending t = filter (\<lambda>tr. \<not> is_done query tr) (in_flight m)"
    "(\<forall>tr \<in> set (in_flight m). is_done query tr) \<longrightarrow> (\<forall>k. snd (tier_lookup k t) = MISS)"
    using cpu.reset_law [of "primary m" query] unfolding tiering_inv_def by blast
  then show ?case
    by (intro exI [of _ "m\<lparr>primary := t\<rparr>"]) (simp add: tiering_inv_def tiering_reset_cache_def forward_Inr tiering_lookup_eq)
next
  case (9 m)
  then show ?case using cpu.stats_law [of "primary m"] by (simp add: tiering_inv_def tiering_stats_eq)
qed

lemma tiering_call_eq: "tiering_call c m = tiers.call c m"
  by (cases c) simp_all

lemma tiering_calls_eq: "tiering_call = tiers.call"
  by (intro ext) (rule tiering_call_eq)

lemma tiering_start:
  assumes "tier_init n bs bpb = Inr t" "2 \<le> n" "1 \<le> bs"
  shows "tiering_init t [] = Inr \<lparr>primary = t\<rparr>" "tiering_inv \<lparr>primary = t\<rparr>"
  using tier_init_ok [OF assms(2,3), of bpb] assms(1) by (simp_all add: tiering_init_def tiering_inv_def)

section \<open>Properties\<close>

text \<open>C26: the offloading stack quiesces. After any sequence of well-formed calls to the manager of the engine, over a fresh CPU
  tier and whatever the copier answers, every call has returned; once every copy has landed, one drain reports exactly the
  transfers in flight, leaves none, and makes every stored key a hit; then a reset succeeds and forgets every key.\<close>

theorem offload_quiesces:
  assumes "tier_init n bs bpb = Inr t" "2 \<le> n" "1 \<le> bs" "\<forall>c \<in> set cs. call_ok c" "\<forall>e. query e"
  shows "\<exists>m m1 m2 m3. tiering_init t [] = Inr m \<and> rfold tiering_call cs m = Inr m1 \<and>
    tiering_take_events query m1 = Inr (m2, map event_of (pending (primary m1))) \<and> \<not> tiering_has_pending_work m2 \<and>
    (\<forall>tr \<in> set (pending (primary m1)). t_kind tr = Store \<longrightarrow> (\<forall>k \<in> set (t_keys tr). snd (tiering_lookup k m2) = HIT)) \<and>
    tiering_reset_cache query m2 = Inr (m3, True) \<and> (\<forall>k. snd (tiering_lookup k m3) = MISS)"
proof -
  note st = tiering_start [OF assms(1-3)]
  have q: "query e" for e using assms(5) by simp
  from tiers.calls_quiesce [where query = query, OF st(2) assms(4) q, folded tiering_calls_eq] st(1) show ?thesis
    unfolding tiering_has_pending_work_def has_pending_work_def by blast
qed

lemma refs_of_mem: "u \<in> set trs \<Longrightarrow> b \<in> set (t_cpu_blocks u) \<Longrightarrow> 0 < refs_of trs b"
  by (auto simp: refs_of_def count_list_pos_iff)

lemma ledger_transfer:
  assumes "ledger p (trs @ tr # trs') infl pinned"
  shows "b \<in> set (t_cpu_blocks tr) \<Longrightarrow> b \<notin> set (free_list p)"
    "t_kind tr = Load \<Longrightarrow> map (block_hash p) (t_cpu_blocks tr) = map Some (t_keys tr)"
    "t_kind tr = Store \<Longrightarrow> b \<in> set (t_cpu_blocks tr) \<Longrightarrow> block_hash p b = None"
    "t_kind tr = Store \<Longrightarrow> distinct (t_cpu_blocks tr)"
    "t_kind tr = Store \<Longrightarrow> b \<in> set (t_cpu_blocks tr) \<Longrightarrow> u \<in> set (trs @ trs') \<Longrightarrow> b \<notin> set (t_cpu_blocks u)"
    "t_kind tr = Store \<Longrightarrow> k \<in> set (t_keys tr) \<Longrightarrow> block_hash p b \<noteq> Some k"
proof -
  note l = ledgerD [OF assms]
  have ok: "transfer_ok p tr" by (rule l(4)) simp
  have pos: "0 < count_list (t_cpu_blocks tr) b" if "b \<in> set (t_cpu_blocks tr)" for b
    using that by (simp add: count_list_pos_iff)
  show "b \<notin> set (free_list p)" if "b \<in> set (t_cpu_blocks tr)"
    using pos [OF that] ok that l(3) [of b] pool_invD(3) [OF l(1), of b] by (auto simp: transfer_ok_def)
  show "map (block_hash p) (t_cpu_blocks tr) = map Some (t_keys tr)" if "t_kind tr = Load"
    using ok that by (simp add: transfer_ok_def list_eq_iff_nth_eq)
  show free: "block_hash p b = None" if "t_kind tr = Store" "b \<in> set (t_cpu_blocks tr)" for b
    using ok that by (simp add: transfer_ok_def)
  have one: "refs_of trs b + count_list (t_cpu_blocks tr) b + refs_of trs' b \<le> 1" if "t_kind tr = Store" "b \<in> set (t_cpu_blocks tr)" for b
    using l(8) [OF free [OF that]] by simp
  show "distinct (t_cpu_blocks tr)" if "t_kind tr = Store"
    using one [OF that] by (intro count_list_le_1_distinct) force
  show "b \<notin> set (t_cpu_blocks u)" if "t_kind tr = Store" "b \<in> set (t_cpu_blocks tr)" "u \<in> set (trs @ trs')"
    using one [OF that(1,2)] pos [OF that(2)] refs_of_mem [of u trs b] refs_of_mem [of u trs' b] that(3) by fastforce
  show "block_hash p b \<noteq> Some k" if "t_kind tr = Store" "k \<in> set (t_keys tr)"
    by (rule l(7)) (use that in simp)
qed

text \<open>C25: copies never race. In every state that such calls reach, each load in flight reads blocks that still carry its keys,
  each store in flight writes blocks that no lookup finds, none of its keys is a hit yet, no other transfer uses its blocks,
  and none of the blocks of a transfer is free to be handed out.\<close>

theorem transfers_never_race:
  assumes "tier_init n bs bpb = Inr t" "2 \<le> n" "1 \<le> bs" "\<forall>c \<in> set cs. call_ok c"
    and "tiering_init t [] = Inr m" "rfold tiering_call cs m = Inr m1" "pending (primary m1) = trs @ tr # trs'"
  shows "(\<forall>b \<in> set (t_cpu_blocks tr). b \<notin> set (free_list (tpool (primary m1)))) \<and>
    (case t_kind tr of
       Load \<Rightarrow> map (block_hash (tpool (primary m1))) (t_cpu_blocks tr) = map Some (t_keys tr)
     | Store \<Rightarrow> distinct (t_cpu_blocks tr) \<and>
         (\<forall>b \<in> set (t_cpu_blocks tr). block_hash (tpool (primary m1)) b = None \<and> (\<forall>u \<in> set (trs @ trs'). b \<notin> set (t_cpu_blocks u))) \<and>
         (\<forall>k \<in> set (t_keys tr). snd (tiering_lookup k m1) = MISS))"
proof -
  note st = tiering_start [OF assms(1-3)]
  have "tiering_inv m1" using tiers.calls_return [OF st(2) assms(4), folded tiering_calls_eq] assms(5,6) st(1) by auto
  then have inv: "tier_inv (primary m1)" by (simp add: tiering_inv_def)
  then have "ledger (tpool (primary m1)) (trs @ tr # trs') (inflight_stores (primary m1)) (pinned_cached (primary m1))"
    unfolding tier_inv_def assms(7) .
  note l = ledger_transfer [OF this]
  show ?thesis
  proof (cases "t_kind tr")
    case Load
    then show ?thesis using l(1,2) by simp
  next
    case Store
    have "snd (tiering_lookup k m1) = MISS" if "k \<in> set (t_keys tr)" for k
      using tier_hit [OF inv, of k] l(6) [OF Store that] tier_lookup_keeps(4) [of k "primary m1"] by (auto simp: tiering_lookup_eq)
    then show ?thesis unfolding Store transfer_kind.case using l(1) l(3-5) [OF Store] by blast
  qed
qed

text \<open>Two blocks are stored and landed; one is loaded back and another stored while both copies are in flight.\<close>

definition sample_calls :: "offload_call list" where
  "sample_calls =
     [PrepareStore (\<lambda>_ _. None) [(5, 11), (6, 22)], TakeEvents (\<lambda>_. True), PrepareLoad (\<lambda>_ _. Some 1) [11] [7],
      PrepareStore (\<lambda>_ _. Some 2) [(9, 33)]]"

definition sample_stack :: "tiering res" where
  "sample_stack = rbind (tier_init 4 16 0) (\<lambda>t. rbind (tiering_init t []) (rfold tiering_call sample_calls))"

lemma sample_stack_runs:
  obtains t m m1 where "tier_init 4 16 0 = Inr t" "tiering_init t [] = Inr m" "rfold tiering_call sample_calls m = Inr m1"
    "map t_kind (pending (primary m1)) = [Load, Store]" "map t_keys (pending (primary m1)) = [[11], [33]]"
proof -
  have "case sample_stack of Inr m1 \<Rightarrow> map t_kind (pending (primary m1)) = [Load, Store] \<and>
      map t_keys (pending (primary m1)) = [[11], [33]] | Inl e \<Rightarrow> False" by code_simp
  then obtain m1 where m1: "sample_stack = Inr m1" "map t_kind (pending (primary m1)) = [Load, Store]"
    "map t_keys (pending (primary m1)) = [[11], [33]]" by (auto split: sum.splits)
  then obtain t m where "tier_init 4 16 0 = Inr t" "tiering_init t [] = Inr m" "rfold tiering_call sample_calls m = Inr m1"
    unfolding sample_stack_def by (auto simp: rbind_eq_Inr)
  then show ?thesis using m1(2,3) by (rule that)
qed

theorem offload_quiesces_witness:
  "\<exists>t m m1 m2. tier_init 4 16 0 = Inr t \<and> tiering_init t [] = Inr m \<and> rfold tiering_call sample_calls m = Inr m1 \<and>
     map t_kind (pending (primary m1)) = [Load, Store] \<and>
     tiering_take_events (\<lambda>_. True) m1 = Inr (m2, map event_of (pending (primary m1))) \<and> snd (tiering_lookup 33 m2) = HIT"
proof -
  obtain t m m1 where r: "tier_init 4 16 0 = Inr t" "tiering_init t [] = Inr m" "rfold tiering_call sample_calls m = Inr m1"
    "map t_kind (pending (primary m1)) = [Load, Store]" "map t_keys (pending (primary m1)) = [[11], [33]]"
    by (rule sample_stack_runs) (rule that)
  have "\<forall>c \<in> set sample_calls. call_ok c" by (simp add: sample_calls_def)
  from offload_quiesces [OF r(1) _ _ this, of "\<lambda>_. True"] obtain m2 where m2:
    "tiering_take_events (\<lambda>_. True) m1 = Inr (m2, map event_of (pending (primary m1)))"
    "\<forall>tr \<in> set (pending (primary m1)). t_kind tr = Store \<longrightarrow> (\<forall>k \<in> set (t_keys tr). snd (tiering_lookup k m2) = HIT)"
    using r(2,3) by auto
  obtain u v where "pending (primary m1) = [u, v]" using r(4) by (auto simp: map_eq_Cons_conv)
  then have "snd (tiering_lookup 33 m2) = HIT" using m2(2) r(4,5) by simp
  then show ?thesis using r(1-4) m2(1) by (intro exI conjI)
qed

theorem transfers_never_race_witness:
  "\<exists>t m m1 u v. tier_init 4 16 0 = Inr t \<and> tiering_init t [] = Inr m \<and> rfold tiering_call sample_calls m = Inr m1 \<and>
     pending (primary m1) = [u, v] \<and> t_kind v = Store \<and> set (t_cpu_blocks v) \<inter> set (t_cpu_blocks u) = {} \<and>
     snd (tiering_lookup 33 m1) = MISS"
proof -
  obtain t m m1 where r: "tier_init 4 16 0 = Inr t" "tiering_init t [] = Inr m" "rfold tiering_call sample_calls m = Inr m1"
    "map t_kind (pending (primary m1)) = [Load, Store]" "map t_keys (pending (primary m1)) = [[11], [33]]"
    by (rule sample_stack_runs) (rule that)
  obtain u v where p: "pending (primary m1) = [u, v]" using r(4) by (auto simp: map_eq_Cons_conv)
  then have "pending (primary m1) = [u] @ v # []" by simp
  moreover have "\<forall>c \<in> set sample_calls. call_ok c" by (simp add: sample_calls_def)
  ultimately show ?thesis using transfers_never_race [OF r(1) _ _ _ r(2,3), of "[u]" v "[]"] r p by auto
qed

end
