(* ===== verification/Reasoning_Splitter.thy ===== *)
theory Reasoning_Splitter
  imports Streaming_Text
begin

text \<open>
  The reasoning splitter (\<^verbatim>\<open>src/rapid_llm/engine/reasoning.py\<close>): a two-channel state machine that routes
  streamed text to the reasoning or to the content channel. The file's contract is that any chunking of
  the text yields, concatenated, what \<^verbatim>\<open>parse\<close> returns in one piece; it is proved here by interpreting
  the locale \<open>chunked\<close> on the splitter's own \<open>feed\<close>.
\<close>

section \<open>The machine\<close>

definition tag_of :: "string \<Rightarrow> utext" where
  "tag_of name = chars (''<'' @ name @ ''>'')"

definition OPEN_TAG :: utext where
  "OPEN_TAG = tag_of ''think''"

definition CLOSE_TAG :: utext where
  "CLOSE_TAG = tag_of ''/think''"

datatype split_state = OPENING | THINKING | CONTENT

record splitter =
  sp_state :: split_state
  sp_held :: utext

definition splitter_init :: "bool \<Rightarrow> splitter" where
  "splitter_init starts_inside = \<lparr>sp_state = (if starts_inside then THINKING else OPENING), sp_held = []\<rparr>"

definition for_family :: "string \<Rightarrow> splitter res" where
  "for_family name = (if name = ''deepseek_r1'' then Inr (splitter_init True) else Inl ValueError)"

definition feed_thinking :: "utext \<Rightarrow> splitter \<times> (utext \<times> utext)" where
  "feed_thinking xs =
     (case str_find CLOSE_TAG xs of
        Some i \<Rightarrow> (\<lparr>sp_state = CONTENT, sp_held = []\<rparr>, (take i xs, drop (i + length CLOSE_TAG) xs))
      | None \<Rightarrow> let h = partial_suffix xs CLOSE_TAG
                in (\<lparr>sp_state = THINKING, sp_held = h\<rparr>, (take (length xs - length h) xs, [])))"

definition feed_opening :: "utext \<Rightarrow> splitter \<times> (utext \<times> utext)" where
  "feed_opening xs =
     (if prefix OPEN_TAG xs then feed_thinking (drop (length OPEN_TAG) xs)
      else if prefix xs OPEN_TAG then (\<lparr>sp_state = OPENING, sp_held = xs\<rparr>, ([], []))
      else (\<lparr>sp_state = CONTENT, sp_held = []\<rparr>, ([], xs)))"

definition split_feed :: "splitter \<Rightarrow> utext \<Rightarrow> splitter \<times> (utext \<times> utext)" where
  "split_feed s delta =
     (case sp_state s of
        CONTENT \<Rightarrow> (s, ([], delta))
      | OPENING \<Rightarrow> feed_opening (sp_held s @ delta)
      | THINKING \<Rightarrow> feed_thinking (sp_held s @ delta))"

definition split_finish :: "splitter \<Rightarrow> splitter \<times> (utext \<times> utext)" where
  "split_finish s =
     (s\<lparr>sp_held := []\<rparr>, if sp_state s = OPENING then ([], sp_held s) else (sp_held s, []))"

definition channels :: "utext \<times> utext \<Rightarrow> utext \<times> utext \<Rightarrow> utext \<times> utext" where
  "channels x y = (fst x @ fst y, snd x @ snd y)"

definition split_parse :: "utext \<Rightarrow> bool \<Rightarrow> utext \<times> utext" where
  "split_parse xs starts_inside =
     (case split_feed (splitter_init starts_inside) xs of (s, out) \<Rightarrow> channels out (snd (split_finish s)))"

text \<open>The caller's loop: feed every delta, then flush.\<close>

definition split_stream :: "bool \<Rightarrow> utext list \<Rightarrow> utext \<times> utext" where
  "split_stream starts_inside deltas =
     (case run_chunks split_feed ([], []) channels (splitter_init starts_inside) deltas of
        (s, out) \<Rightarrow> channels out (snd (split_finish s)))"

section \<open>Chunking does not matter\<close>

lemma tags_nonempty [simp]: "OPEN_TAG \<noteq> []" "CLOSE_TAG \<noteq> []"
  by (simp_all add: OPEN_TAG_def CLOSE_TAG_def tag_of_def chars_def)

definition splitter_ok :: "splitter \<Rightarrow> bool" where
  "splitter_ok s \<longleftrightarrow>
     (case sp_state s of
        CONTENT \<Rightarrow> sp_held s = []
      | OPENING \<Rightarrow> strict_prefix (sp_held s) OPEN_TAG
      | THINKING \<Rightarrow> str_find CLOSE_TAG (sp_held s) = None \<and> partial_suffix (sp_held s) CLOSE_TAG = sp_held s)"

lemma thinking_ok: "splitter_ok (fst (feed_thinking xs))"
  by (auto simp: feed_thinking_def splitter_ok_def held_stable Let_def split: option.splits)

lemma opening_ok: "splitter_ok (fst (feed_opening xs))"
  by (auto simp: feed_opening_def splitter_ok_def strict_prefix_def split: if_splits intro: thinking_ok [unfolded splitter_ok_def])

lemma thinking_append:
  "feed_thinking (a @ b) =
     (case feed_thinking a of (s, out) \<Rightarrow> case split_feed s b of (s', out') \<Rightarrow> (s', channels out out'))"
proof (cases "str_find CLOSE_TAG a")
  case None
  let ?h = "partial_suffix a CLOSE_TAG"
  obtain u where u: "a = u @ ?h" "take (length a - length ?h) a = u"
    by (rule hold_split [OF tags_nonempty(2), of a]) (rule that)
  show ?thesis
  proof (cases "str_find CLOSE_TAG (?h @ b)")
    case later: None
    show ?thesis
      using None later u(2) scan_never [OF tags_nonempty(2) None later u(1)]
      by (simp add: feed_thinking_def split_feed_def channels_def Let_def)
  next
    case (Some j)
    show ?thesis
      using None Some u(2) scan_later [OF tags_nonempty(2) None Some u(1)]
      by (simp add: feed_thinking_def split_feed_def channels_def Let_def)
  qed
next
  case (Some i)
  then show ?thesis
    using scan_found [OF Some, of b] by (simp add: feed_thinking_def split_feed_def channels_def)
qed

lemma opening_append:
  "feed_opening (a @ b) =
     (case feed_opening a of (s, out) \<Rightarrow> case split_feed s b of (s', out') \<Rightarrow> (s', channels out out'))"
proof -
  consider "prefix OPEN_TAG a" | "\<not> prefix OPEN_TAG a" "prefix a OPEN_TAG"
    | "\<not> prefix OPEN_TAG a" "\<not> prefix a OPEN_TAG" by blast
  then show ?thesis
  proof cases
    case 1
    then have "prefix OPEN_TAG (a @ b)" "drop (length OPEN_TAG) (a @ b) = drop (length OPEN_TAG) a @ b"
      by (auto simp: prefix_def)
    then show ?thesis using 1 thinking_append by (simp add: feed_opening_def)
  next
    case 2
    then show ?thesis by (simp add: feed_opening_def [of a] split_feed_def channels_def case_prod_beta)
  next
    case 3
    have "\<not> prefix OPEN_TAG (a @ b)" using 3 by (metis prefix_same_cases prefixI)
    moreover have "\<not> prefix (a @ b) OPEN_TAG" using 3 by (metis append_prefixD)
    ultimately show ?thesis using 3 by (simp add: feed_opening_def split_feed_def channels_def)
  qed
qed

interpretation rs: chunked split_feed "([], [])" channels splitter_ok "\<lambda>_ _. True" "(=)"
proof
  fix s :: splitter and a b :: utext
  assume ok: "splitter_ok s"
  show "splitter_ok (fst (split_feed s a))"
    using ok thinking_ok opening_ok by (auto simp: split_feed_def split: split_state.splits)
  show "fst (split_feed s []) = s \<and> snd (split_feed s []) = ([], [])"
  proof (cases "sp_state s")
    case OPENING
    then have "strict_prefix (sp_held s) OPEN_TAG" using ok by (simp add: splitter_ok_def)
    then have "prefix (sp_held s) OPEN_TAG" "\<not> prefix OPEN_TAG (sp_held s)"
      by (auto simp: strict_prefix_def prefix_order.eq_iff)
    then show ?thesis using OPENING by (cases s) (simp add: split_feed_def feed_opening_def)
  next
    case THINKING
    then show ?thesis using ok by (cases s) (simp add: split_feed_def splitter_ok_def feed_thinking_def)
  next
    case CONTENT
    then show ?thesis by (simp add: split_feed_def)
  qed
  show "fst (split_feed s (a @ b)) = fst (split_feed (fst (split_feed s a)) b) \<and>
      snd (split_feed s (a @ b)) = channels (snd (split_feed s a)) (snd (split_feed (fst (split_feed s a)) b))"
  proof (cases "sp_state s")
    case OPENING
    then show ?thesis using opening_append [of "sp_held s @ a" b] by (simp add: split_feed_def case_prod_beta)
  next
    case THINKING
    then show ?thesis using thinking_append [of "sp_held s @ a" b] by (simp add: split_feed_def case_prod_beta)
  next
    case CONTENT
    then show ?thesis by (simp add: split_feed_def channels_def)
  qed
qed (simp_all add: channels_def)

lemma splitter_init_ok: "splitter_ok (splitter_init b)"
  using held_stable [OF tags_nonempty(2), of "[]"]
  by (auto simp: splitter_ok_def splitter_init_def strict_prefix_def find_Nil partial_suffix_def
      tags_nonempty [symmetric])

section \<open>The contract\<close>

text \<open>C28: feeding a text in any chunks and flushing yields, concatenated, exactly the split that
  \<^verbatim>\<open>parse\<close> computes of the whole text in one call, for both values of \<open>starts_inside\<close>.\<close>

theorem split_stream_is_parse: "split_stream starts_inside deltas = split_parse (concat deltas) starts_inside"
  using rs.run_concat [OF splitter_init_ok, of starts_inside deltas]
  by (simp add: split_stream_def split_parse_def case_prod_beta)

text \<open>The split itself, without the machine: a thinking section runs to the first closing tag.\<close>

definition split_at_close :: "utext \<Rightarrow> utext \<times> utext" where
  "split_at_close xs =
     (case str_find CLOSE_TAG xs of Some i \<Rightarrow> (take i xs, drop (i + length CLOSE_TAG) xs) | None \<Rightarrow> (xs, []))"

lemma thinking_flush:
  "feed_thinking xs = (s, out) \<Longrightarrow> channels out (snd (split_finish s)) = split_at_close xs"
proof (cases "str_find CLOSE_TAG xs")
  case None
  assume f: "feed_thinking xs = (s, out)"
  obtain u where u: "xs = u @ partial_suffix xs CLOSE_TAG" "take (length xs - length (partial_suffix xs CLOSE_TAG)) xs = u"
    by (rule hold_split [OF tags_nonempty(2), of xs]) (rule that)
  have "channels out (snd (split_finish s)) = (u @ partial_suffix xs CLOSE_TAG, [])"
    using f None u(2) by (auto simp: feed_thinking_def split_finish_def channels_def Let_def)
  then show ?thesis unfolding u(1) [symmetric] using None by (simp add: split_at_close_def)
next
  case (Some i)
  assume "feed_thinking xs = (s, out)"
  then show ?thesis using Some by (auto simp: feed_thinking_def split_finish_def channels_def split_at_close_def)
qed

text \<open>What \<^verbatim>\<open>parse\<close> computes. Starting inside, the text up to the first closing tag is
  reasoning, the text after it content, and without a closing tag all is reasoning. Otherwise the same
  holds of the text after a leading opening tag, and a text that does not start with that tag is content,
  unchanged, even when it is a proper prefix of the tag or holds a closing tag.\<close>

lemma split_parse_spec:
  "split_parse xs True = split_at_close xs \<and>
   split_parse xs False =
     (if prefix OPEN_TAG xs then split_at_close (drop (length OPEN_TAG) xs) else ([], xs))"
proof (intro conjI)
  show "split_parse xs True = split_at_close xs"
    using thinking_flush [of xs]
    by (cases "feed_thinking xs") (simp add: split_parse_def split_feed_def splitter_init_def)
  show "split_parse xs False =
      (if prefix OPEN_TAG xs then split_at_close (drop (length OPEN_TAG) xs) else ([], xs))"
  proof (cases "prefix OPEN_TAG xs")
    case True
    then show ?thesis using thinking_flush [of "drop (length OPEN_TAG) xs"]
      by (cases "feed_thinking (drop (length OPEN_TAG) xs)")
        (simp add: split_parse_def split_feed_def splitter_init_def feed_opening_def)
  next
    case False
    then show ?thesis
      by (simp add: split_parse_def split_feed_def splitter_init_def feed_opening_def split_finish_def channels_def)
  qed
qed

end
