(* ===== verification/Tool_Parser.thy ===== *)
theory Tool_Parser
  imports Streaming_Text
begin

text \<open>
  Streaming tool-call extraction (\<^verbatim>\<open>src/rapid_llm/engine/tool_parser.py\<close>): the wire types, \<^verbatim>\<open>_merge\<close>
  and the DeepSeek-V3 parser. The file's axiom is that any chunking of a text builds the calls and the
  content of the one-shot \<^verbatim>\<open>parse\<close>. For the DeepSeek parser it is false in general (a malformed section
  degrades differently) and true of every text whose one-shot parse does not degrade; both are proved
  here. The markers are assembled as in the source; the while loop of \<^verbatim>\<open>feed\<close> is a total function.
\<close>

section \<open>Wire types\<close>

record tool_call_delta =
  d_index :: int
  d_arguments :: utext
  d_id :: "utext option"
  d_name :: "utext option"

record tool_call =
  tc_name :: utext
  tc_arguments :: utext
  tc_id :: utext

record tool_stream =
  ts_content :: utext
  ts_calls :: "tool_call_delta list"

definition no_stream :: tool_stream where
  "no_stream = \<lparr>ts_content = [], ts_calls = []\<rparr>"

text \<open>Decimal printing of an index, for \<^verbatim>\<open>f"call_{index}"\<close>.\<close>

fun digits :: "nat \<Rightarrow> utext" where
  "digits n = (if n < 10 then [48 + int n] else digits (n div 10) @ [48 + int (n mod 10)])"

declare digits.simps [simp del]

definition str_int :: "int \<Rightarrow> utext" where
  "str_int i = (if i < 0 then 45 # digits (nat (- i)) else digits (nat i))"

definition call_id :: "int \<Rightarrow> utext" where
  "call_id i = chars ''call_'' @ str_int i"

definition args_delta :: "int \<Rightarrow> utext \<Rightarrow> tool_call_delta" where
  "args_delta i a = \<lparr>d_index = i, d_arguments = a, d_id = None, d_name = None\<rparr>"

definition name_delta :: "int \<Rightarrow> utext \<Rightarrow> tool_call_delta" where
  "name_delta i n = \<lparr>d_index = i, d_arguments = [], d_id = Some (call_id i), d_name = Some n\<rparr>"

text \<open>\<^verbatim>\<open>_merge\<close>: a dict by index and the list of its keys in order of arrival.\<close>

definition or_empty :: "utext option \<Rightarrow> utext" where
  "or_empty x = (case x of Some v \<Rightarrow> v | None \<Rightarrow> [])"

type_synonym merge_state = "(int \<rightharpoonup> tool_call) \<times> int list"

definition merge_delta :: "merge_state \<Rightarrow> tool_call_delta \<Rightarrow> merge_state" where
  "merge_delta m d =
     (case fst m (d_index d) of
        None \<Rightarrow> ((fst m)(d_index d \<mapsto>
                   \<lparr>tc_name = or_empty (d_name d), tc_arguments = d_arguments d, tc_id = or_empty (d_id d)\<rparr>),
                 snd m @ [d_index d])
      | Some c \<Rightarrow> ((fst m)(d_index d \<mapsto> c\<lparr>tc_arguments := tc_arguments c @ d_arguments d\<rparr>), snd m))"

definition merge :: "tool_call_delta list \<Rightarrow> tool_call list" where
  "merge ds = (case foldl merge_delta (Map.empty, []) ds of (calls, order) \<Rightarrow> map (\<lambda>i. the (calls i)) order)"

section \<open>The DeepSeek parser\<close>

definition BAR :: utext where "BAR = [0xff5c]"
definition US :: utext where "US = [0x2581]"

definition ds_marker :: "utext list \<Rightarrow> utext" where
  "ds_marker parts = chars ''<'' @ BAR @ concat parts @ BAR @ chars ''>''"

definition DS_CALLS_BEGIN :: utext where
  "DS_CALLS_BEGIN = ds_marker [chars ''tool'', US, chars ''calls'', US, chars ''begin'']"

definition DS_CALL_BEGIN :: utext where
  "DS_CALL_BEGIN = ds_marker [chars ''tool'', US, chars ''call'', US, chars ''begin'']"

definition DS_SEP :: utext where
  "DS_SEP = ds_marker [chars ''tool'', US, chars ''sep'']"

definition DS_CALL_END :: utext where
  "DS_CALL_END = ds_marker [chars ''tool'', US, chars ''call'', US, chars ''end'']"

definition DS_CALLS_END :: utext where
  "DS_CALLS_END = ds_marker [chars ''tool'', US, chars ''calls'', US, chars ''end'']"

definition BT :: utext where "BT = replicate 3 96"

definition DS_HEADER :: utext where
  "DS_HEADER = DS_CALL_BEGIN @ chars ''function'' @ DS_SEP"

definition DS_FENCE :: utext where
  "DS_FENCE = BT @ chars ''json'' @ [10]"

definition DS_ARGS_END :: utext where
  "DS_ARGS_END = [10] @ BT @ DS_CALL_END"

datatype ds_state = Outside | Header | Name | Fence | Args | Trailer

record deepseek =
  ds_st :: ds_state
  ds_held :: utext
  ds_index :: int

definition ds_init :: deepseek where
  "ds_init = \<lparr>ds_st = Outside, ds_held = [], ds_index = 0\<rparr>"

text \<open>
  One step: the state and index, the text and the output so far give the new state, index, remaining
  text, output and whether the step is blocked for more input.
\<close>

type_synonym ds_result = "(ds_state \<times> int) \<times> utext \<times> tool_stream \<times> bool"

definition ds_emit_content :: "utext \<Rightarrow> tool_stream \<Rightarrow> tool_stream" where
  "ds_emit_content xs out = out\<lparr>ts_content := ts_content out @ xs\<rparr>"

definition ds_emit_call :: "tool_call_delta \<Rightarrow> tool_stream \<Rightarrow> tool_stream" where
  "ds_emit_call d out = out\<lparr>ts_calls := ts_calls out @ [d]\<rparr>"

definition step_outside :: "int \<Rightarrow> utext \<Rightarrow> tool_stream \<Rightarrow> ds_result" where
  "step_outside i xs out =
     (case str_find DS_CALLS_BEGIN xs of
        Some k \<Rightarrow> ((Header, i), drop (k + length DS_CALLS_BEGIN) xs, ds_emit_content (take k xs) out, False)
      | None \<Rightarrow> let held = partial_suffix xs DS_CALLS_BEGIN
                in ((Outside, i), held, ds_emit_content (take (length xs - length held) xs) out, held \<noteq> []))"

definition step_header :: "int \<Rightarrow> utext \<Rightarrow> tool_stream \<Rightarrow> ds_result" where
  "step_header i xs out =
     (if prefix DS_HEADER xs then ((Name, i), drop (length DS_HEADER) xs, out, False)
      else if prefix xs DS_HEADER then ((Header, i), xs, out, True)
      else ((Outside, i), [], ds_emit_content xs out, False))"

definition step_name :: "int \<Rightarrow> utext \<Rightarrow> tool_stream \<Rightarrow> ds_result" where
  "step_name i xs out =
     (case str_find [10] xs of
        None \<Rightarrow> ((Name, i), xs, out, True)
      | Some k \<Rightarrow> ((Fence, i + 1), drop (k + 1) xs, ds_emit_call (name_delta i (take k xs)) out, False))"

definition step_fence :: "int \<Rightarrow> utext \<Rightarrow> tool_stream \<Rightarrow> ds_result" where
  "step_fence i xs out =
     (if prefix DS_FENCE xs then ((Args, i), drop (length DS_FENCE) xs, out, False)
      else if prefix xs DS_FENCE then ((Fence, i), xs, out, True)
      else ((Outside, i), [], ds_emit_content xs out, False))"

definition step_args :: "int \<Rightarrow> utext \<Rightarrow> tool_stream \<Rightarrow> ds_result" where
  "step_args i xs out =
     (case str_find DS_ARGS_END xs of
        Some k \<Rightarrow> ((Trailer, i), drop (k + length DS_ARGS_END) xs, ds_emit_call (args_delta (i - 1) (take k xs)) out, False)
      | None \<Rightarrow> let held = partial_suffix xs DS_ARGS_END
                in ((Args, i), held, ds_emit_call (args_delta (i - 1) (take (length xs - length held) xs)) out, True))"

definition step_trailer :: "int \<Rightarrow> utext \<Rightarrow> tool_stream \<Rightarrow> ds_result" where
  "step_trailer i xs out =
     (if prefix DS_CALLS_END xs then ((Outside, i), drop (length DS_CALLS_END) xs, out, False)
      else if prefix xs DS_CALLS_END then ((Trailer, i), xs, out, True)
      else ((Header, i), xs, out, False))"

definition ds_step :: "ds_state \<Rightarrow> int \<Rightarrow> utext \<Rightarrow> tool_stream \<Rightarrow> ds_result" where
  "ds_step st i xs out =
     (case st of Outside \<Rightarrow> step_outside i xs out | Header \<Rightarrow> step_header i xs out | Name \<Rightarrow> step_name i xs out
      | Fence \<Rightarrow> step_fence i xs out | Args \<Rightarrow> step_args i xs out | Trailer \<Rightarrow> step_trailer i xs out)"

lemmas ds_steps = step_outside_def step_header_def step_name_def step_fence_def step_args_def step_trailer_def

lemma ds_markers_nonempty [simp]:
  "DS_CALLS_BEGIN \<noteq> []" "DS_HEADER \<noteq> []" "DS_FENCE \<noteq> []" "DS_ARGS_END \<noteq> []" "DS_CALLS_END \<noteq> []"
  by (simp_all add: DS_CALLS_BEGIN_def DS_HEADER_def DS_CALL_BEGIN_def DS_FENCE_def DS_ARGS_END_def
      DS_CALLS_END_def ds_marker_def chars_def)

text \<open>A step that is not blocked consumes text, except that a trailer hands its text on to a header.\<close>

lemma drop_shorter: "xs \<noteq> [] \<Longrightarrow> tag \<noteq> [] \<Longrightarrow> length (drop (k + length tag) xs) < length xs"
  by (cases tag) auto

lemma ds_step_shrinks:
  assumes "ds_step st i xs out = ((st', i'), ys, out', False)" "xs \<noteq> []"
  shows "length ys < length xs \<or> ys = xs \<and> st = Trailer \<and> st' = Header"
proof -
  have dr: "tag \<noteq> [] \<Longrightarrow> length xs - (k + length tag) < length xs" for tag :: utext and k
    using drop_shorter [OF assms(2), of tag k] by simp
  have d0: "tag \<noteq> [] \<Longrightarrow> length xs - length tag < length xs" for tag :: utext using dr [of tag 0] by simp
  show ?thesis
    using assms by (cases st) (auto simp: ds_step_def ds_steps Let_def dr d0 split: option.splits if_splits)
qed

lemma ds_measure:
  assumes "xs \<noteq> []" "((st', i'), ys, out', False) = ds_step st i xs out"
  shows "2 * length ys + of_bool (st' = Trailer) < 2 * length xs + of_bool (st = Trailer)"
  using ds_step_shrinks [OF assms(2) [symmetric] assms(1)] by (auto simp: of_bool_def)

text \<open>The while loop of \<^verbatim>\<open>feed\<close>; the text it stops with is the held text.\<close>

function ds_loop :: "ds_state \<Rightarrow> int \<Rightarrow> utext \<Rightarrow> tool_stream \<Rightarrow> deepseek \<times> tool_stream" where
  "ds_loop st i xs out =
     (if xs = [] then (\<lparr>ds_st = st, ds_held = [], ds_index = i\<rparr>, out)
      else case ds_step st i xs out of ((st', i'), ys, out', blocked) \<Rightarrow>
        if blocked then (\<lparr>ds_st = st', ds_held = ys, ds_index = i'\<rparr>, out') else ds_loop st' i' ys out')"
  by pat_completeness auto
termination
  by (relation "measure (\<lambda>(st, i, xs, out). 2 * length xs + of_bool (st = Trailer))")
    (simp, simp only: in_measure case_prod_conv, metis ds_measure)

declare ds_loop.simps [simp del]

definition ds_feed :: "deepseek \<Rightarrow> utext \<Rightarrow> deepseek \<times> tool_stream" where
  "ds_feed p delta = ds_loop (ds_st p) (ds_index p) (ds_held p @ delta) no_stream"

definition ds_finish :: "deepseek \<Rightarrow> deepseek \<times> tool_stream" where
  "ds_finish p =
     (p\<lparr>ds_held := []\<rparr>,
      if ds_st p = Args then no_stream\<lparr>ts_calls := [args_delta (ds_index p - 1) (ds_held p)]\<rparr>
      else no_stream\<lparr>ts_content := ds_held p\<rparr>)"

text \<open>
  The inherited \<^verbatim>\<open>ToolParser.parse\<close> and the caller's loop over a stream, for any parser given by its
  \<open>feed\<close> and \<open>finish\<close>.
\<close>

definition both :: "tool_stream \<Rightarrow> tool_stream \<Rightarrow> tool_stream" where
  "both x y = \<lparr>ts_content = ts_content x @ ts_content y, ts_calls = ts_calls x @ ts_calls y\<rparr>"

definition collected :: "tool_stream \<Rightarrow> utext \<times> tool_call list" where
  "collected out = (ts_content out, merge (ts_calls out))"

definition tool_parse ::
  "('p \<Rightarrow> utext \<Rightarrow> 'p \<times> tool_stream) \<Rightarrow> ('p \<Rightarrow> 'p \<times> tool_stream) \<Rightarrow> 'p \<Rightarrow> utext \<Rightarrow> utext \<times> tool_call list" where
  "tool_parse feed finish p xs =
     (case feed p xs of (p1, out) \<Rightarrow> collected (both out (snd (finish p1))))"

definition tool_streamed ::
  "('p \<Rightarrow> utext \<Rightarrow> 'p \<times> tool_stream) \<Rightarrow> ('p \<Rightarrow> 'p \<times> tool_stream) \<Rightarrow> 'p \<Rightarrow> utext list \<Rightarrow> utext \<times> tool_call list" where
  "tool_streamed feed finish p deltas =
     (case run_chunks feed no_stream both p deltas of (p1, out) \<Rightarrow> collected (both out (snd (finish p1))))"

abbreviation ds_parse :: "utext \<Rightarrow> utext \<times> tool_call list" where
  "ds_parse \<equiv> tool_parse ds_feed ds_finish ds_init"

abbreviation ds_stream :: "utext list \<Rightarrow> utext \<times> tool_call list" where
  "ds_stream \<equiv> tool_streamed ds_feed ds_finish ds_init"

section \<open>What a list of deltas builds\<close>

text \<open>
  A delta list as the atoms it carries: the opening of a call, and single characters of arguments. How
  the characters are grouped into deltas is what chunking may change.
\<close>

datatype atom = Opened int "utext option" "utext option" | Arg int int

definition bare :: "tool_call_delta \<Rightarrow> bool" where
  "bare d \<longleftrightarrow> d_id d = None \<and> d_name d = None"

definition delta_atoms :: "tool_call_delta \<Rightarrow> atom list" where
  "delta_atoms d =
     (if bare d then [] else [Opened (d_index d) (d_id d) (d_name d)]) @ map (Arg (d_index d)) (d_arguments d)"

definition atoms :: "tool_call_delta list \<Rightarrow> atom list" where
  "atoms ds = concat (map delta_atoms ds)"

definition same_stream :: "tool_stream \<Rightarrow> tool_stream \<Rightarrow> bool" where
  "same_stream x y \<longleftrightarrow> ts_content x = ts_content y \<and> atoms (ts_calls x) = atoms (ts_calls y)"

lemma atoms_simps [simp]:
  "atoms [] = []" "atoms (d # ds) = delta_atoms d @ atoms ds" "atoms (ds @ es) = atoms ds @ atoms es"
  by (simp_all add: atoms_def)

lemma delta_atoms_simps [simp]:
  "delta_atoms (args_delta i a) = map (Arg i) a"
  "delta_atoms (name_delta i n) = [Opened i (Some (call_id i)) (Some n)]"
  by (simp_all add: delta_atoms_def args_delta_def name_delta_def bare_def)

text \<open>
  The discipline of a parser's deltas: call \<open>i\<close> is opened when the next index is \<open>i\<close>, and a delta without
  id and name belongs to a call already opened. \<open>opened i ds j\<close>: the deltas take the next index from \<open>i\<close>
  to \<open>j\<close>.
\<close>

fun opened :: "int \<Rightarrow> tool_call_delta list \<Rightarrow> int \<Rightarrow> bool" where
  "opened i [] j \<longleftrightarrow> i = j"
| "opened i (d # ds) j \<longleftrightarrow>
     (if bare d then 0 \<le> d_index d \<and> d_index d < i \<and> opened i ds j
      else d_index d = i \<and> opened (i + 1) ds j)"

lemma opened_append: "opened i (ds @ es) j \<longleftrightarrow> (\<exists>k. opened i ds k \<and> opened k es j)"
  by (induction ds arbitrary: i) auto

lemma delta_fields [simp]:
  "bare (args_delta i a)" "\<not> bare (name_delta i n)" "d_index (args_delta i a) = i" "d_index (name_delta i n) = i"
  by (simp_all add: args_delta_def name_delta_def bare_def)

text \<open>Under that discipline the merged calls depend on the atoms only.\<close>

definition merge_atom :: "merge_state \<Rightarrow> atom \<Rightarrow> merge_state" where
  "merge_atom m a =
     (case a of
        Opened i ident n \<Rightarrow> merge_delta m \<lparr>d_index = i, d_arguments = [], d_id = ident, d_name = n\<rparr>
      | Arg i c \<Rightarrow> merge_delta m (args_delta i [c]))"

lemma merge_args:
  assumes "fst m i = Some c"
  shows "foldl merge_atom m (map (Arg i) xs) = merge_delta m (args_delta i xs)"
  using assms
proof (induction xs arbitrary: m c)
  case Nil
  then have "(fst m)(i \<mapsto> c) = fst m" by auto
  then show ?case using Nil by (cases m) (simp add: merge_delta_def args_delta_def)
next
  case (Cons x xs)
  have "fst (merge_delta m (args_delta i [x])) i = Some (c\<lparr>tc_arguments := tc_arguments c @ [x]\<rparr>)"
    using Cons.prems by (simp add: merge_delta_def args_delta_def)
  from Cons.IH [OF this] show ?case
    using Cons.prems by (simp add: merge_atom_def merge_delta_def args_delta_def)
qed

lemma merge_delta_dom: "dom (fst (merge_delta m d)) = insert (d_index d) (dom (fst m))"
  by (auto simp: merge_delta_def split: option.splits)

lemma merge_delta_atoms:
  assumes "bare d \<longrightarrow> d_index d \<in> dom (fst m)"
  shows "foldl merge_atom m (delta_atoms d) = merge_delta m d"
proof (cases "bare d")
  case True
  then have "d = args_delta (d_index d) (d_arguments d)" by (cases d) (simp add: bare_def args_delta_def)
  moreover obtain c where "fst m (d_index d) = Some c" using assms True by auto
  ultimately show ?thesis using True merge_args [of m "d_index d" c "d_arguments d"] by (simp add: delta_atoms_def)
next
  case False
  let ?o = "merge_delta m (d\<lparr>d_arguments := []\<rparr>)"
  have o: "merge_atom m (Opened (d_index d) (d_id d) (d_name d)) = ?o"
    by (cases d) (simp add: merge_atom_def)
  obtain c where c: "fst ?o (d_index d) = Some c" using merge_delta_dom [of m "d\<lparr>d_arguments := []\<rparr>"] by auto
  have "merge_delta ?o (args_delta (d_index d) (d_arguments d)) = merge_delta m d"
    by (cases "fst m (d_index d)") (simp_all add: merge_delta_def args_delta_def)
  then show ?thesis using False o merge_args [OF c] by (simp add: delta_atoms_def)
qed

lemma merge_by_atoms:
  assumes "opened i ds j" "dom (fst m) = {0..<i}" "0 \<le> i"
  shows "foldl merge_delta m ds = foldl merge_atom m (atoms ds)"
  using assms
proof (induction ds arbitrary: i m)
  case (Cons d ds)
  have "bare d \<longrightarrow> d_index d \<in> dom (fst m)" using Cons.prems by (simp split: if_splits)
  note md = merge_delta_atoms [OF this]
  have "\<exists>i'. opened i' ds j \<and> dom (fst (merge_delta m d)) = {0..<i'} \<and> 0 \<le> i'"
  proof (cases "bare d")
    case True
    then show ?thesis using Cons.prems by (intro exI [of _ i]) (auto simp: merge_delta_dom)
  next
    case False
    then show ?thesis using Cons.prems by (intro exI [of _ "i + 1"]) (auto simp: merge_delta_dom)
  qed
  then obtain i' where "opened i' ds j" "dom (fst (merge_delta m d)) = {0..<i'}" "0 \<le> i'" by blast
  from Cons.IH [OF this] show ?case using md by simp
qed simp

lemma merge_same:
  assumes "opened 0 ds i" "opened 0 es j" "atoms ds = atoms es"
  shows "merge ds = merge es"
  using merge_by_atoms [OF assms(1), of "(Map.empty, [])"] merge_by_atoms [OF assms(2), of "(Map.empty, [])"] assms(3)
  by (simp add: merge_def)

section \<open>The DeepSeek parser keeps its deltas in order\<close>

lemma both_simps [simp]:
  "both no_stream x = x" "both x no_stream = x" "both (both x y) z = both x (both y z)"
  by (simp_all add: both_def no_stream_def)

definition content_only :: "utext \<Rightarrow> tool_stream" where
  "content_only xs = no_stream\<lparr>ts_content := xs\<rparr>"

definition call_only :: "tool_call_delta \<Rightarrow> tool_stream" where
  "call_only d = no_stream\<lparr>ts_calls := [d]\<rparr>"

lemma emit_both: "ds_emit_content xs out = both out (content_only xs)" "ds_emit_call d out = both out (call_only d)"
  by (simp_all add: ds_emit_content_def ds_emit_call_def both_def content_only_def call_only_def no_stream_def)

lemma emit_simps [simp]:
  "ts_content (content_only xs) = xs" "ts_calls (content_only xs) = []"
  "ts_content (call_only d) = []" "ts_calls (call_only d) = [d]"
  "ts_content no_stream = []" "ts_calls no_stream = []"
  "ts_content (both x y) = ts_content x @ ts_content y" "ts_calls (both x y) = ts_calls x @ ts_calls y"
  by (simp_all add: content_only_def call_only_def no_stream_def both_def)

lemma content_both: "content_only (u @ v) = both (content_only u) (content_only v)" "content_only [] = no_stream"
  by (simp_all add: content_only_def both_def no_stream_def)

text \<open>The output so far is only appended to.\<close>

lemma ds_step_out:
  "ds_step st i xs out = (case ds_step st i xs no_stream of (q, ys, out', b) \<Rightarrow> (q, ys, both out out', b))"
  by (cases st) (simp_all add: ds_step_def ds_steps emit_both Let_def split: option.split)

lemma ds_induct [case_names step]:
  assumes "\<And>st i xs. (\<And>st' i' ys out. xs \<noteq> [] \<Longrightarrow> ds_step st i xs no_stream = ((st', i'), ys, out, False) \<Longrightarrow> P st' i' ys) \<Longrightarrow> P st i xs"
  shows "P st i xs"
proof (induction "2 * length xs + of_bool (st = Trailer)" arbitrary: st i xs rule: less_induct)
  case less
  show ?case
  proof (rule assms)
    fix st' i' ys out
    assume "xs \<noteq> []" "ds_step st i xs no_stream = ((st', i'), ys, out, False)"
    from less [OF ds_measure [OF this(1) this(2) [symmetric]]] show "P st' i' ys" .
  qed
qed

lemma ds_loop_Nil [simp]: "ds_loop st i [] out = (\<lparr>ds_st = st, ds_held = [], ds_index = i\<rparr>, out)"
  by (simp add: ds_loop.simps)

lemma ds_loop_step:
  assumes "xs \<noteq> []" "ds_step st i xs no_stream = ((st', i'), ys, o', b)"
  shows "ds_loop st i xs out =
    (if b then (\<lparr>ds_st = st', ds_held = ys, ds_index = i'\<rparr>, both out o') else ds_loop st' i' ys (both out o'))"
  using assms by (subst ds_loop.simps) (simp add: ds_step_out [of st i xs out])

lemma ds_loop_out: "ds_loop st i xs out = (fst (ds_loop st i xs no_stream), both out (snd (ds_loop st i xs no_stream)))"
proof (induction st i xs arbitrary: out rule: ds_induct)
  case (step st i xs)
  show ?case
  proof (cases "xs = []")
    case False
    obtain st' i' ys o' b where s: "ds_step st i xs no_stream = ((st', i'), ys, o', b)"
      by (metis prod.exhaust)
    note l = ds_loop_step [OF False s]
    show ?thesis
    proof (cases b)
      case nb: False
      note ih = step [OF False, of st' i' ys o'] s nb
      show ?thesis using nb ih(1) [of "both out o'"] ih(1) [of o'] s by (simp add: l)
    qed (simp add: l)
  qed simp
qed

text \<open>The loop in equational form, with the output of the rest appended.\<close>

lemma ds_run:
  assumes "xs \<noteq> []" "ds_step st i xs no_stream = ((st', i'), ys, o', b)"
  shows "ds_loop st i xs no_stream =
    (if b then (\<lparr>ds_st = st', ds_held = ys, ds_index = i'\<rparr>, o')
     else (fst (ds_loop st' i' ys no_stream), both o' (snd (ds_loop st' i' ys no_stream))))"
  using ds_loop_step [OF assms, of no_stream] ds_loop_out [of st' i' ys o'] by simp

definition ds_indexed :: "ds_state \<Rightarrow> int \<Rightarrow> bool" where
  "ds_indexed st i \<longleftrightarrow> 0 \<le> i \<and> (st = Fence \<or> st = Args \<longrightarrow> 0 < i)"

lemma ds_step_opened:
  assumes "ds_indexed st i" "ds_step st i xs no_stream = ((st', i'), ys, o', b)"
  shows "opened i (ts_calls o') i' \<and> ds_indexed st' i'"
  using assms
  by (cases st) (auto simp: ds_step_def ds_steps emit_both ds_indexed_def Let_def split: option.splits if_splits)

lemma ds_loop_opened:
  "ds_indexed st i \<Longrightarrow> ds_loop st i xs no_stream = (p, out) \<Longrightarrow>
     opened i (ts_calls out) (ds_index p) \<and> ds_indexed (ds_st p) (ds_index p)"
proof (induction st i xs arbitrary: p out rule: ds_induct)
  case (step st i xs)
  show ?case
  proof (cases "xs = []")
    case True
    then show ?thesis using step.prems by auto
  next
    case False
    obtain st' i' ys o' b where s: "ds_step st i xs no_stream = ((st', i'), ys, o', b)"
      by (metis prod.exhaust)
    note r = ds_run [OF False s] and o = ds_step_opened [OF step.prems(1) s]
    show ?thesis
    proof (cases b)
      case True
      then show ?thesis using r o step.prems(2) by auto
    next
      case nb: False
      obtain p1 o1 where l: "ds_loop st' i' ys no_stream = (p1, o1)" by fastforce
      have "opened i' (ts_calls o1) (ds_index p1) \<and> ds_indexed (ds_st p1) (ds_index p1)"
        using step.IH [OF False _ _ l] s nb o by simp
      then show ?thesis using r o step.prems(2) nb l by (auto simp: opened_append)
    qed
  qed
qed

section \<open>Chunking a text that does not degrade\<close>

text \<open>
  A section degrades when its header or its fence is neither complete nor a prefix of the marker. The text
  is clean when the loop never degrades on it.
\<close>

definition degrades :: "ds_state \<Rightarrow> utext \<Rightarrow> bool" where
  "degrades st xs \<longleftrightarrow>
     st = Header \<and> \<not> prefix DS_HEADER xs \<and> \<not> prefix xs DS_HEADER \<or>
     st = Fence \<and> \<not> prefix DS_FENCE xs \<and> \<not> prefix xs DS_FENCE"

function ds_clean_from :: "ds_state \<Rightarrow> int \<Rightarrow> utext \<Rightarrow> bool" where
  "ds_clean_from st i xs =
     (if xs = [] then True
      else if degrades st xs then False
      else case ds_step st i xs no_stream of ((st', i'), ys, _, blocked) \<Rightarrow>
        if blocked then True else ds_clean_from st' i' ys)"
  by pat_completeness auto
termination
  by (relation "measure (\<lambda>(st, i, xs). 2 * length xs + of_bool (st = Trailer))")
    (simp, simp only: in_measure case_prod_conv, metis ds_measure)

declare ds_clean_from.simps [simp del]

definition ds_clean :: "deepseek \<Rightarrow> utext \<Rightarrow> bool" where
  "ds_clean p xs = ds_clean_from (ds_st p) (ds_index p) (ds_held p @ xs)"

lemma ds_clean_Nil [simp]: "ds_clean_from st i []"
  by (simp add: ds_clean_from.simps)

lemma ds_clean_step:
  assumes "xs \<noteq> []" "ds_step st i xs no_stream = ((st', i'), ys, o', b)"
  shows "ds_clean_from st i xs \<longleftrightarrow> \<not> degrades st xs \<and> (b \<or> ds_clean_from st' i' ys)"
  using assms by (subst ds_clean_from.simps) simp

lemma marker_cases:
  assumes "\<not> prefix tag a" "\<not> prefix a tag"
  shows "\<not> prefix tag (a @ b)" "\<not> prefix (a @ b) tag"
  using assms by (metis prefix_same_cases prefixI, metis append_prefixD)

lemma marker_more: "prefix tag a \<Longrightarrow> prefix tag (a @ b) \<and> drop (length tag) (a @ b) = drop (length tag) a @ b"
  by (auto simp: prefix_def)

lemma degrades_more: "degrades st a \<Longrightarrow> degrades st (a @ b)"
  unfolding degrades_def using marker_cases by blast

text \<open>Scanning steps keep the text they have settled: only the held suffix meets the next chunk.\<close>

definition holds :: "ds_state \<Rightarrow> bool" where
  "holds st \<longleftrightarrow> st = Outside \<or> st = Args"

definition ds_tag :: "ds_state \<Rightarrow> utext" where
  "ds_tag st = (if st = Outside then DS_CALLS_BEGIN else DS_ARGS_END)"

lemma step_forward:
  assumes "ds_step st i a no_stream = ((st', i'), ys, o', False)" "\<not> degrades st a"
    "holds st \<longrightarrow> str_find (ds_tag st) a \<noteq> None"
  shows "ds_step st i (a @ b) no_stream = ((st', i'), ys @ b, o', False)"
proof (cases st)
  case Outside
  then obtain k where k: "str_find DS_CALLS_BEGIN a = Some k" using assms(3) by (auto simp: holds_def ds_tag_def)
  show ?thesis using assms(1) Outside k scan_found [OF k, of b] by (auto simp: ds_step_def step_outside_def)
next
  case Header
  then have "prefix DS_HEADER a" using assms(1,2) by (auto simp: ds_step_def step_header_def degrades_def split: if_splits)
  then show ?thesis using assms(1) Header marker_more [of DS_HEADER a b] by (simp add: ds_step_def step_header_def)
next
  case Name
  then obtain k where k: "str_find [10] a = Some k"
    using assms(1) by (auto simp: ds_step_def step_name_def split: option.splits)
  show ?thesis using assms(1) Name k scan_found [OF k, of b] by (auto simp: ds_step_def step_name_def)
next
  case Fence
  then have "prefix DS_FENCE a" using assms(1,2) by (auto simp: ds_step_def step_fence_def degrades_def split: if_splits)
  then show ?thesis using assms(1) Fence marker_more [of DS_FENCE a b] by (simp add: ds_step_def step_fence_def)
next
  case Args
  then obtain k where k: "str_find DS_ARGS_END a = Some k" using assms(3) by (auto simp: holds_def ds_tag_def)
  show ?thesis using assms(1) Args k scan_found [OF k, of b] by (auto simp: ds_step_def step_args_def)
next
  case Trailer
  then show ?thesis
    using assms(1) marker_more [of DS_CALLS_END a b] marker_cases [of DS_CALLS_END a b]
    by (auto simp: ds_step_def step_trailer_def split: if_splits)
qed

text \<open>A step that waits with all of its text simply sees the longer text next time.\<close>

lemma step_waits:
  assumes "ds_step st i a no_stream = ((st', i'), ys, o', True)" "\<not> holds st"
  shows "st' = st \<and> i' = i \<and> ys = a \<and> o' = no_stream"
  using assms by (cases st) (auto simp: ds_step_def ds_steps holds_def split: option.splits if_splits)

definition settled :: "ds_state \<Rightarrow> int \<Rightarrow> utext \<Rightarrow> tool_stream" where
  "settled st i u = (if st = Outside then content_only u else call_only (args_delta (i - 1) u))"

lemma ds_tag_nonempty [simp]: "ds_tag st \<noteq> []"
  by (simp add: ds_tag_def)

lemma step_holds:
  assumes "holds st"
  shows "ds_step st i xs no_stream =
    (case str_find (ds_tag st) xs of
       Some k \<Rightarrow> ((if st = Outside then Header else Trailer, i), drop (k + length (ds_tag st)) xs, settled st i (take k xs), False)
     | None \<Rightarrow> let h = partial_suffix xs (ds_tag st)
               in ((st, i), h, settled st i (take (length xs - length h) xs), st = Args \<or> h \<noteq> []))"
  using assms
  by (auto simp: holds_def ds_step_def step_outside_def step_args_def settled_def ds_tag_def emit_both Let_def
      split: option.split)

lemma same_stream_laws:
  "same_stream x x" "same_stream x y \<Longrightarrow> same_stream y x" "same_stream x y \<Longrightarrow> same_stream y z \<Longrightarrow> same_stream x z"
  "same_stream x y \<Longrightarrow> same_stream u v \<Longrightarrow> same_stream (both x u) (both y v)"
  by (simp_all add: same_stream_def)

lemma settled_append: "same_stream (both (settled st i (u @ v)) w) (both (settled st i u) (both (settled st i v) w))"
  by (simp add: same_stream_def settled_def)

lemma settled_Nil: "same_stream (both (settled st i u) (settled st i [])) (settled st i u)"
  by (simp add: same_stream_def settled_def)

lemma loop_holds:
  assumes "holds st" "a \<noteq> []" "str_find (ds_tag st) a = None"
  shows "ds_loop st i a no_stream =
    (\<lparr>ds_st = st, ds_held = partial_suffix a (ds_tag st), ds_index = i\<rparr>,
     settled st i (take (length a - length (partial_suffix a (ds_tag st))) a))"
  using ds_run [OF assms(2), of st i] step_holds [OF assms(1), of i a] assms(3)
  by (simp add: Let_def split: if_splits)

lemma hold_append:
  assumes st: "holds st" and a: "a \<noteq> []" and none: "str_find (ds_tag st) a = None"
    and u: "a = u @ partial_suffix a (ds_tag st)"
  defines "h \<equiv> partial_suffix a (ds_tag st)"
  shows "fst (ds_loop st i (a @ b) no_stream) = fst (ds_loop st i (h @ b) no_stream)"
    "same_stream (snd (ds_loop st i (a @ b) no_stream)) (both (settled st i u) (snd (ds_loop st i (h @ b) no_stream)))"
    "ds_clean_from st i (a @ b) = ds_clean_from st i (h @ b)"
proof -
  let ?t = "ds_tag st"
  have ab: "a @ b \<noteq> []" using a by simp
  have nd: "\<not> degrades st xs" for xs using st by (auto simp: degrades_def holds_def)
  note un = u [folded h_def]
  have "fst (ds_loop st i (a @ b) no_stream) = fst (ds_loop st i (h @ b) no_stream) \<and>
    same_stream (snd (ds_loop st i (a @ b) no_stream)) (both (settled st i u) (snd (ds_loop st i (h @ b) no_stream))) \<and>
    ds_clean_from st i (a @ b) = ds_clean_from st i (h @ b)"
  proof (cases "h @ b = []")
    case True
    then have "h = []" "b = []" by auto
    then have "u = a" using un by simp
    then show ?thesis
      using True \<open>b = []\<close> loop_holds [OF st a none, of i] ds_run [OF a, of st i] step_holds [OF st, of i a] none nd
        ds_clean_step [OF a, of st i] same_stream_laws(1) \<open>h = []\<close>
      by (simp add: h_def Let_def)
  next
    case ne: False
    show ?thesis
    proof (cases "str_find ?t (h @ b)")
      case None
      note sn = scan_never [OF ds_tag_nonempty none None [unfolded h_def] u, folded h_def]
      have "ds_clean_from st i (a @ b)" "ds_clean_from st i (h @ b)"
        using ds_clean_step [OF ab, of st i] ds_clean_step [OF ne, of st i] step_holds [OF st, of i] sn(1) None nd
        by (simp_all add: Let_def)
      then show ?thesis
        using loop_holds [OF st ab sn(1), of i] loop_holds [OF st ne None, of i] sn(2,3)
          settled_append [of st i u _ no_stream] by simp
    next
      case (Some j)
      note sl = scan_later [OF ds_tag_nonempty none Some [unfolded h_def] u, folded h_def]
      note s1 = step_holds [OF st, of i "a @ b", unfolded sl(1) option.case sl(2,3)]
        and s2 = step_holds [OF st, of i "h @ b", unfolded Some option.case]
      show ?thesis
        using ds_run [OF ab s1] ds_run [OF ne s2] ds_clean_step [OF ab s1] ds_clean_step [OF ne s2] nd
          settled_append [of st i u] by simp
    qed
  qed
  then show "fst (ds_loop st i (a @ b) no_stream) = fst (ds_loop st i (h @ b) no_stream)"
    "same_stream (snd (ds_loop st i (a @ b) no_stream)) (both (settled st i u) (snd (ds_loop st i (h @ b) no_stream)))"
    "ds_clean_from st i (a @ b) = ds_clean_from st i (h @ b)" by blast+
qed

text \<open>The main step: running on a longer clean text is running on its parts.\<close>

definition ds_resumes :: "ds_state \<Rightarrow> int \<Rightarrow> utext \<Rightarrow> utext \<Rightarrow> bool" where
  "ds_resumes st i a b \<longleftrightarrow>
     (let (p, o1) = ds_loop st i a no_stream; (q, o2) = ds_loop (ds_st p) (ds_index p) (ds_held p @ b) no_stream
      in fst (ds_loop st i (a @ b) no_stream) = q \<and>
         same_stream (snd (ds_loop st i (a @ b) no_stream)) (both o1 o2) \<and>
         ds_clean_from (ds_st p) (ds_index p) (ds_held p @ b))"

lemma ds_loop_append: "ds_clean_from st i (a @ b) \<Longrightarrow> ds_resumes st i a b"
proof (induction st i a rule: ds_induct)
  case (step st i a)
  show ?case
  proof (cases "a = []")
    case True
    then show ?thesis using step.prems by (simp add: ds_resumes_def case_prod_beta same_stream_laws(1))
  next
    case ne: False
    obtain st' i' ys o' bl where s: "ds_step st i a no_stream = ((st', i'), ys, o', bl)" by (metis prod.exhaust)
    consider (hold) "holds st" "str_find (ds_tag st) a = None"
      | (wait) bl "\<not> holds st"
      | (go) "\<not> bl" "holds st \<longrightarrow> str_find (ds_tag st) a \<noteq> None"
      using s step_holds [of st i a] by (cases bl; cases "holds st"; cases "str_find (ds_tag st) a") auto
    then show ?thesis
    proof cases
      case hold
      obtain u where u: "a = u @ partial_suffix a (ds_tag st)"
        "take (length a - length (partial_suffix a (ds_tag st))) a = u"
        by (rule hold_split [OF ds_tag_nonempty, of a]) (rule that)
      show ?thesis
        using hold_append [OF hold(1) ne hold(2) u(1), of i b] loop_holds [OF hold(1) ne hold(2), of i] u(2) step.prems
        by (simp add: ds_resumes_def case_prod_beta)
    next
      case wait
      have "ds_loop st i a no_stream = (\<lparr>ds_st = st, ds_held = a, ds_index = i\<rparr>, no_stream)"
        using ds_run [OF ne s] step_waits [OF s [unfolded eqTrueI [OF wait(1)]] wait(2)] wait(1) by simp
      then show ?thesis using step.prems by (simp add: ds_resumes_def case_prod_beta same_stream_laws(1))
    next
      case go
      have abn: "a @ b \<noteq> []" using ne by simp
      have sF: "ds_step st i a no_stream = ((st', i'), ys, o', False)" using s go(1) by simp
      have nd: "\<not> degrades st a" using step.prems degrades_more [of st a b] abn by (auto simp: ds_clean_from.simps)
      note f = step_forward [OF sF nd go(2), of b]
      have "ds_clean_from st' i' (ys @ b)" using ds_clean_step [OF abn f] step.prems by simp
      from step.IH [OF ne sF this] show ?thesis
        using ds_run [OF ne sF] ds_run [OF abn f] same_stream_laws(4) [OF same_stream_laws(1) [of o']]
        by (simp add: ds_resumes_def case_prod_beta)
    qed
  qed
qed

text \<open>The state between two calls: an empty feed changes nothing and adds nothing.\<close>

definition ds_ok :: "deepseek \<Rightarrow> bool" where
  "ds_ok p \<longleftrightarrow> ds_indexed (ds_st p) (ds_index p) \<and> fst (ds_feed p []) = p \<and> same_stream (snd (ds_feed p [])) no_stream"

lemma ds_loop_settles:
  "ds_loop st i xs no_stream = (p, out) \<Longrightarrow> fst (ds_feed p []) = p \<and> same_stream (snd (ds_feed p [])) no_stream"
proof (induction st i xs arbitrary: p out rule: ds_induct)
  case (step st i xs)
  show ?case
  proof (cases "xs = []")
    case True
    then show ?thesis using step.prems by (auto simp: ds_feed_def same_stream_laws(1))
  next
    case ne: False
    obtain st' i' ys o' bl where s: "ds_step st i xs no_stream = ((st', i'), ys, o', bl)" by (metis prod.exhaust)
    note r = ds_run [OF ne s]
    consider (hold) "holds st" "str_find (ds_tag st) xs = None" | (wait) bl "\<not> holds st" | (go) "\<not> bl"
      using s step_holds [of st i xs] by (cases bl; cases "holds st"; cases "str_find (ds_tag st) xs") auto
    then show ?thesis
    proof cases
      case hold
      let ?h = "partial_suffix xs (ds_tag st)"
      have p: "p = \<lparr>ds_st = st, ds_held = ?h, ds_index = i\<rparr>" using loop_holds [OF hold(1) ne hold(2), of i] step.prems by simp
      show ?thesis
      proof (cases "?h = []")
        case False
        note hs = held_stable [OF ds_tag_nonempty [of st], of xs]
        have "same_stream (settled st i []) no_stream" by (simp add: same_stream_def settled_def)
        then show ?thesis using loop_holds [OF hold(1) False hs(1), of i] hs(2) by (simp add: p ds_feed_def)
      qed (simp add: p ds_feed_def same_stream_laws(1))
    next
      case wait
      then have "\<lparr>ds_st = st, ds_held = xs, ds_index = i\<rparr> = p" "ds_loop st i xs no_stream = (p, no_stream)"
        using r step_waits [OF s [unfolded eqTrueI [OF wait(1)]] wait(2)] step.prems by simp_all
      then show ?thesis by (auto simp: ds_feed_def same_stream_laws(1))
    next
      case go
      obtain p1 o1 where l: "ds_loop st' i' ys no_stream = (p1, o1)" by fastforce
      then show ?thesis using step.IH [OF ne _ l] s r go step.prems by simp
    qed
  qed
qed

lemma ds_feed_ok: "ds_ok p \<Longrightarrow> ds_ok (fst (ds_feed p a))"
  using ds_loop_opened [of "ds_st p" "ds_index p" "ds_held p @ a"] ds_loop_settles [of "ds_st p" "ds_index p" "ds_held p @ a"]
  by (simp add: ds_ok_def ds_feed_def [of p a] prod_eq_iff)

interpretation ds: chunked ds_feed no_stream both ds_ok ds_clean same_stream
proof
  fix p :: deepseek and a b :: utext
  assume ok: "ds_ok p"
  show "ds_ok (fst (ds_feed p a))" by (rule ds_feed_ok [OF ok])
  show "fst (ds_feed p []) = p \<and> same_stream (snd (ds_feed p [])) no_stream" using ok by (simp add: ds_ok_def)
  assume "ds_clean p (a @ b)"
  then have "ds_resumes (ds_st p) (ds_index p) (ds_held p @ a) b"
    by (intro ds_loop_append) (simp add: ds_clean_def)
  then show "fst (ds_feed p (a @ b)) = fst (ds_feed (fst (ds_feed p a)) b) \<and>
      same_stream (snd (ds_feed p (a @ b))) (both (snd (ds_feed p a)) (snd (ds_feed (fst (ds_feed p a)) b)))"
    "ds_clean (fst (ds_feed p a)) b"
    by (simp_all add: ds_resumes_def ds_feed_def ds_clean_def case_prod_beta)
qed (fact same_stream_laws)+

lemma ds_init_ok: "ds_ok ds_init"
  by (simp add: ds_ok_def ds_init_def ds_feed_def ds_indexed_def same_stream_laws(1))

lemma ds_run_opened:
  "ds_ok p \<Longrightarrow> run_chunks ds_feed no_stream both p cs = (q, out) \<Longrightarrow> opened (ds_index p) (ts_calls out) (ds_index q)"
proof (induction cs arbitrary: p q out)
  case (Cons c cs)
  obtain p1 o1 where f: "ds_feed p c = (p1, o1)" by fastforce
  obtain p2 o2 where r: "run_chunks ds_feed no_stream both p1 cs = (p2, o2)" by fastforce
  have "ds_ok p1" using ds_feed_ok [OF Cons.prems(1), of c] f by simp
  moreover have "opened (ds_index p) (ts_calls o1) (ds_index p1)"
    using ds_loop_opened [of "ds_st p" "ds_index p" "ds_held p @ c" p1 o1] f Cons.prems(1)
    by (simp add: ds_ok_def ds_feed_def)
  ultimately show ?case using Cons.IH [OF _ r] Cons.prems(2) f r by (auto simp: opened_append)
qed simp

lemma ds_finish_opened: "ds_ok p \<Longrightarrow> opened (ds_index p) (ts_calls (snd (ds_finish p))) (ds_index p)"
  by (auto simp: ds_finish_def ds_ok_def ds_indexed_def)

text \<open>C33: the DeepSeek parser's axiom. If the one-shot parse of a text meets no malformed header and no
  malformed fence, then streaming the text in any chunks, and flushing, yields the content and the calls
  (names, ids, arguments, order) of \<^verbatim>\<open>parse\<close> over the whole text.\<close>

theorem ds_stream_is_parse:
  assumes "ds_clean ds_init (concat deltas)"
  shows "ds_stream deltas = ds_parse (concat deltas)"
proof -
  obtain q o1 where r: "run_chunks ds_feed no_stream both ds_init deltas = (q, o1)" by fastforce
  obtain q2 o2 where f: "ds_feed ds_init (concat deltas) = (q2, o2)" by fastforce
  have same: "q = q2" "same_stream o1 o2" using ds.run_concat [OF ds_init_ok assms] r f by simp_all
  have ok: "ds_ok q" using ds.run_ok [OF ds_init_ok, of deltas] r by simp
  have "opened (ds_index ds_init) (ts_calls o1) (ds_index q)" by (rule ds_run_opened [OF ds_init_ok r])
  then have o1: "opened 0 (ts_calls (both o1 (snd (ds_finish q)))) (ds_index q)"
    using ds_finish_opened [OF ok] by (auto simp: opened_append ds_init_def)
  have "opened (ds_index ds_init) (ts_calls o2) (ds_index q2)"
    using ds_run_opened [OF ds_init_ok, of "[concat deltas]" q2 o2] f by simp
  then have o2: "opened 0 (ts_calls (both o2 (snd (ds_finish q)))) (ds_index q)"
    using ds_finish_opened [OF ok] same(1) by (auto simp: opened_append ds_init_def)
  show ?thesis
    using merge_same [OF o1 o2] same r f
    by (simp add: tool_streamed_def tool_parse_def collected_def same_stream_def)
qed

definition ds_sample :: "utext list" where
  "ds_sample =
     [chars ''hi '' @ take 5 DS_CALLS_BEGIN,
      drop 5 DS_CALLS_BEGIN @ DS_HEADER @ chars ''f'' @ [10] @ DS_FENCE @ chars ''{'',
      chars ''}'' @ DS_ARGS_END @ DS_CALLS_END @ chars '' ok'']"

theorem ds_stream_is_parse_witness:
  "ds_clean ds_init (concat ds_sample) \<and> ds_stream ds_sample = ds_parse (concat ds_sample) \<and>
   ds_parse (concat ds_sample) =
     (chars ''hi  ok'', [\<lparr>tc_name = chars ''f'', tc_arguments = chars ''{}'', tc_id = chars ''call_0''\<rparr>])"
proof -
  have c: "ds_clean ds_init (concat ds_sample)" by code_simp
  have "ds_parse (concat ds_sample) =
     (chars ''hi  ok'', [\<lparr>tc_name = chars ''f'', tc_arguments = chars ''{}'', tc_id = chars ''call_0''\<rparr>])"
    by code_simp
  then show ?thesis using c ds_stream_is_parse [OF c] by blast
qed

definition ds_degraded :: "utext list" where
  "ds_degraded = [DS_CALLS_BEGIN @ chars ''x'', DS_CALLS_BEGIN @ DS_HEADER @ chars ''f'' @ [10]]"

text \<open>Without that condition the axiom is false. The text is a begin marker, a header that does not
  conform, and a section of one call. In one piece the malformed header sends all of the remaining text to
  the content channel; cut after the malformed header, the parser is back outside when the second section
  arrives, and extracts a call from it.\<close>

lemma ds_degraded_differs:
  "ds_parse (concat ds_degraded) = (chars ''x'' @ DS_CALLS_BEGIN @ DS_HEADER @ chars ''f'' @ [10], []) \<and>
   ds_stream ds_degraded = (chars ''x'', [\<lparr>tc_name = chars ''f'', tc_arguments = [], tc_id = chars ''call_0''\<rparr>])"
  by (rule conjI) code_simp+

section \<open>Printing and parsing\<close>

definition render_call :: "utext \<times> utext \<Rightarrow> utext" where
  "render_call c = DS_HEADER @ fst c @ [10] @ DS_FENCE @ snd c @ DS_ARGS_END"

definition render_calls :: "(utext \<times> utext) list \<Rightarrow> utext" where
  "render_calls cs = concat (map render_call cs)"

text \<open>\<open>ends_at tag xs\<close>: the tag, put after \<open>xs\<close>, is first found there.\<close>

definition ends_at :: "utext \<Rightarrow> utext \<Rightarrow> bool" where
  "ends_at tag xs \<longleftrightarrow> str_find tag (xs @ tag) = Some (length xs)"

definition call_ok :: "utext \<times> utext \<Rightarrow> bool" where
  "call_ok c \<longleftrightarrow> ends_at [10] (fst c) \<and> ends_at DS_ARGS_END (snd c)"

primrec numbered :: "int \<Rightarrow> (utext \<times> utext) list \<Rightarrow> tool_call list" where
  "numbered i [] = []"
| "numbered i (c # cs) = \<lparr>tc_name = fst c, tc_arguments = snd c, tc_id = call_id i\<rparr> # numbered (i + 1) cs"

primrec call_deltas :: "int \<Rightarrow> (utext \<times> utext) list \<Rightarrow> tool_call_delta list" where
  "call_deltas i [] = []"
| "call_deltas i (c # cs) = name_delta i (fst c) # args_delta i (snd c) # call_deltas (i + 1) cs"

lemma ends_at_more:
  assumes "ends_at tag xs"
  shows "str_find tag (xs @ tag @ ys) = Some (length xs)"
  using scan_found(1) [OF assms [unfolded ends_at_def], of ys] by simp

lemma ds_go: "xs \<noteq> [] \<Longrightarrow> ds_step st i xs no_stream = ((st', i'), ys, o', False) \<Longrightarrow>
    ds_loop st i xs no_stream = (fst (ds_loop st' i' ys no_stream), both o' (snd (ds_loop st' i' ys no_stream)))"
  using ds_run [of xs st i st' i' ys o' False] by simp

lemma loop_one_call:
  assumes "call_ok c"
  shows "ds_loop Header i (render_call c @ ys) no_stream =
    (fst (ds_loop Trailer (i + 1) ys no_stream),
     both (both (call_only (name_delta i (fst c))) (call_only (args_delta i (snd c))))
       (snd (ds_loop Trailer (i + 1) ys no_stream)))"
proof -
  obtain n a where c: "c = (n, a)" by fastforce
  let ?r4 = "a @ DS_ARGS_END @ ys"
  let ?r3 = "DS_FENCE @ ?r4"
  let ?r2 = "n @ [10] @ ?r3"
  have 1: "ds_step Header i (DS_HEADER @ ?r2) no_stream = ((Name, i), ?r2, no_stream, False)"
    by (simp add: ds_step_def step_header_def)
  have "str_find [10] ?r2 = Some (length n)" using ends_at_more [of "[10]" n ?r3] assms c by (simp add: call_ok_def)
  then have 2: "ds_step Name i ?r2 no_stream = ((Fence, i + 1), ?r3, call_only (name_delta i n), False)"
    by (simp add: ds_step_def step_name_def emit_both)
  have 3: "ds_step Fence (i + 1) ?r3 no_stream = ((Args, i + 1), ?r4, no_stream, False)"
    by (simp add: ds_step_def step_fence_def)
  have "str_find DS_ARGS_END ?r4 = Some (length a)" using ends_at_more [of DS_ARGS_END a ys] assms c by (simp add: call_ok_def)
  then have 4: "ds_step Args (i + 1) ?r4 no_stream = ((Trailer, i + 1), ys, call_only (args_delta i a), False)"
    by (simp add: ds_step_def step_args_def emit_both)
  show ?thesis
    using ds_go [OF _ 1] ds_go [OF _ 2] ds_go [OF _ 3] ds_go [OF _ 4] by (simp add: c render_call_def)
qed

lemma trailer_markers: "\<not> prefix DS_CALLS_END (DS_HEADER @ ys)" "\<not> prefix (DS_HEADER @ ys) DS_CALLS_END"
proof -
  have "\<not> prefix DS_CALLS_END DS_HEADER" "\<not> prefix DS_HEADER DS_CALLS_END" by code_simp+
  then show "\<not> prefix DS_CALLS_END (DS_HEADER @ ys)" "\<not> prefix (DS_HEADER @ ys) DS_CALLS_END"
    using marker_cases by blast+
qed

lemma loop_calls:
  assumes "list_all call_ok (c # cs)"
  shows "ds_loop Header i (render_calls (c # cs) @ DS_CALLS_END @ ys) no_stream =
    (fst (ds_loop Outside (i + int (length (c # cs))) ys no_stream),
     both \<lparr>ts_content = [], ts_calls = call_deltas i (c # cs)\<rparr> (snd (ds_loop Outside (i + int (length (c # cs))) ys no_stream)))"
  using assms
proof (induction cs arbitrary: c i)
  case Nil
  have "ds_step Trailer (i + 1) (DS_CALLS_END @ ys) no_stream = ((Outside, i + 1), ys, no_stream, False)"
    by (simp add: ds_step_def step_trailer_def)
  then show ?case using Nil loop_one_call [of c i "DS_CALLS_END @ ys"] ds_go [of "DS_CALLS_END @ ys" Trailer "i + 1"]
    by (simp add: render_calls_def both_def call_only_def no_stream_def)
next
  case (Cons d cs)
  let ?r = "render_calls (d # cs) @ DS_CALLS_END @ ys"
  have hd: "\<exists>z. ?r = DS_HEADER @ z" by (simp add: render_calls_def render_call_def)
  have "?r \<noteq> [] \<and> ds_step Trailer (i + 1) ?r no_stream = ((Header, i + 1), ?r, no_stream, False)"
    using hd trailer_markers by (auto simp: ds_step_def step_trailer_def)
  then have "ds_loop Trailer (i + 1) ?r no_stream = ds_loop Header (i + 1) ?r no_stream"
    using ds_go [of ?r Trailer "i + 1"] by simp
  moreover have "render_calls (c # d # cs) @ DS_CALLS_END @ ys = render_call c @ ?r" by (simp add: render_calls_def)
  ultimately show ?case
    using loop_one_call [of c i ?r] Cons.prems Cons.IH [of d "i + 1"]
    by (simp add: both_def call_only_def no_stream_def algebra_simps)
qed

lemma merge_numbered:
  assumes "dom (fst m) \<subseteq> {..<i}" "set (snd m) \<subseteq> {..<i}"
  shows "(case foldl merge_delta m (call_deltas i cs) of (calls, order) \<Rightarrow> map (\<lambda>k. the (calls k)) order) =
    map (\<lambda>k. the (fst m k)) (snd m) @ numbered i cs"
  using assms
proof (induction cs arbitrary: i m)
  case (Cons c cs)
  let ?c = "\<lparr>tc_name = fst c, tc_arguments = snd c, tc_id = call_id i\<rparr>"
  have "fst m i = None" using Cons.prems(1) by (meson domIff lessThan_iff less_irrefl subsetD)
  then have m: "merge_delta (merge_delta m (name_delta i (fst c))) (args_delta i (snd c)) =
      ((fst m)(i \<mapsto> ?c), snd m @ [i])"
    by (simp add: merge_delta_def name_delta_def args_delta_def or_empty_def)
  have same: "map (\<lambda>k. the (((fst m)(i \<mapsto> ?c)) k)) (snd m) = map (\<lambda>k. the (fst m k)) (snd m)"
    using Cons.prems(2) by (intro map_cong) auto
  have "dom (fst ((fst m)(i \<mapsto> ?c), snd m @ [i])) \<subseteq> {..<i + 1}" "set (snd ((fst m)(i \<mapsto> ?c), snd m @ [i])) \<subseteq> {..<i + 1}"
    using Cons.prems by auto
  from Cons.IH [OF this] show ?case by (simp only: call_deltas.simps foldl_Cons m fst_conv snd_conv map_append same) simp
qed (simp add: case_prod_beta)

lemma merge_call_deltas: "merge (call_deltas 0 cs) = numbered 0 cs"
  using merge_numbered [of "(Map.empty, [])" 0 cs] by (simp add: merge_def)

lemma outside_flush:
  assumes "str_find DS_CALLS_BEGIN xs = None" "ds_loop Outside i xs no_stream = (p, out)"
  shows "both out (snd (ds_finish p)) = content_only xs"
proof (cases "xs = []")
  case True
  then show ?thesis using assms(2) by (auto simp: ds_finish_def no_stream_def both_def content_only_def)
next
  case False
  have o: "holds Outside" "ds_tag Outside = DS_CALLS_BEGIN" by (simp_all add: holds_def ds_tag_def)
  obtain u where u: "xs = u @ partial_suffix xs DS_CALLS_BEGIN"
    "take (length xs - length (partial_suffix xs DS_CALLS_BEGIN)) xs = u"
    by (rule hold_split [OF ds_markers_nonempty(1), of xs]) (rule that)
  have "both out (snd (ds_finish p)) = content_only (u @ partial_suffix xs DS_CALLS_BEGIN)"
    using loop_holds [OF o(1) False, of i] assms u(2)
    by (auto simp: o(2) settled_def ds_finish_def no_stream_def both_def content_only_def)
  then show ?thesis unfolding u(1) [symmetric] .
qed

text \<open>C34: parsing what the format prints. A text, a section of one or more calls in the DeepSeek markup and
  a closing text parse to the two texts, in order, and exactly the printed calls, numbered from 0, as long
  as no part contains the marker that ends it.\<close>

theorem ds_parse_render:
  assumes "cs \<noteq> []" "list_all call_ok cs" "ends_at DS_CALLS_BEGIN pre" "str_find DS_CALLS_BEGIN post = None"
  shows "ds_parse (pre @ DS_CALLS_BEGIN @ render_calls cs @ DS_CALLS_END @ post) = (pre @ post, numbered 0 cs)"
proof -
  let ?xs = "pre @ DS_CALLS_BEGIN @ render_calls cs @ DS_CALLS_END @ post"
  have 1: "ds_step Outside 0 ?xs no_stream = ((Header, 0), render_calls cs @ DS_CALLS_END @ post, content_only pre, False)"
    using ends_at_more [OF assms(3)] by (simp add: ds_step_def step_outside_def emit_both)
  obtain c ds where cs: "cs = c # ds" using assms(1) by (cases cs) auto
  obtain p out where l: "ds_loop Outside (int (length cs)) post no_stream = (p, out)" by fastforce
  have "ds_feed ds_init ?xs = (p, both (content_only pre) (both \<lparr>ts_content = [], ts_calls = call_deltas 0 cs\<rparr> out))"
    using ds_go [OF _ 1] loop_calls [OF assms(2) [unfolded cs], of 0 post] l
    by (simp add: ds_feed_def ds_init_def cs)
  then show ?thesis
    using merge_call_deltas [of cs]
    by (simp add: tool_parse_def collected_def outside_flush [OF assms(4) l] del: emit_simps(7,8))
      (simp add: both_def content_only_def no_stream_def)
qed

theorem ds_parse_render_witness:
  "list_all call_ok [(chars ''f'', chars ''{}''), (chars ''g'', chars ''[]'')] \<and>
   ds_parse (chars ''a'' @ DS_CALLS_BEGIN @ render_calls [(chars ''f'', chars ''{}''), (chars ''g'', chars ''[]'')] @
       DS_CALLS_END @ chars ''b'') =
     (chars ''a'' @ chars ''b'', numbered 0 [(chars ''f'', chars ''{}''), (chars ''g'', chars ''[]'')])"
proof -
  have "list_all call_ok [(chars ''f'', chars ''{}''), (chars ''g'', chars ''[]'')]"
    "ends_at DS_CALLS_BEGIN (chars ''a'')" "str_find DS_CALLS_BEGIN (chars ''b'') = None" by code_simp+
  then show ?thesis using ds_parse_render by blast
qed

end
