(* ===== verification/Qwen_Parser.thy ===== *)
theory Qwen_Parser
  imports Tool_Parser
begin

text \<open>
  The Qwen half of \<^verbatim>\<open>src/rapid_llm/engine/tool_parser.py\<close>: the character scanner of one call object and
  the parser around it. \<^verbatim>\<open>QwenToolParser\<close> shares the axiom of the DeepSeek parser (any chunking builds what
  the one-shot parse builds); two texts show that it does not hold of it, one of them the ordinary layout
  with a newline before the closing tag. What does hold is proved: the scanner itself does not depend on
  the chunking, the deltas keep their order, a live parser never fails its assertion, and printing a call
  and parsing it gives the call back, with the argument text verbatim.
\<close>

section \<open>The scanner\<close>

datatype scan_state = KEY | COLON | NAME | OTHER | ARGS | DONE

record json_scanner =
  sc_name :: "utext option"
  sc_state :: scan_state
  sc_in_key :: bool
  sc_key :: utext
  sc_buf :: utext
  sc_depth :: int
  sc_args_depth :: int
  sc_other_depth :: int
  sc_in_string :: bool
  sc_escaped :: bool

definition scanner_init :: json_scanner where
  "scanner_init = \<lparr>sc_name = None, sc_state = KEY, sc_in_key = False, sc_key = [], sc_buf = [], sc_depth = 0,
     sc_args_depth = 0, sc_other_depth = 0, sc_in_string = False, sc_escaped = False\<rparr>"

abbreviation (input) quote :: int where "quote \<equiv> 34"
abbreviation (input) backslash :: int where "backslash \<equiv> 92"
abbreviation (input) lbrace :: int where "lbrace \<equiv> 123"
abbreviation (input) rbrace :: int where "rbrace \<equiv> 125"
abbreviation (input) lbracket :: int where "lbracket \<equiv> 91"
abbreviation (input) rbracket :: int where "rbracket \<equiv> 93"

definition track_string :: "json_scanner \<Rightarrow> int \<Rightarrow> json_scanner" where
  "track_string s c =
     (if sc_escaped s then s\<lparr>sc_escaped := False\<rparr>
      else if c = backslash then s\<lparr>sc_escaped := True\<rparr>
      else if c = quote then s\<lparr>sc_in_string := False\<rparr> else s)"

definition take_key :: "json_scanner \<Rightarrow> int \<Rightarrow> json_scanner \<times> utext" where
  "take_key s c =
     (if sc_in_key s then
        (if c = quote then s\<lparr>sc_key := sc_buf s, sc_buf := [], sc_in_key := False, sc_state := COLON\<rparr>
         else s\<lparr>sc_buf := sc_buf s @ [c]\<rparr>, [])
      else if c = quote then (s\<lparr>sc_in_key := True, sc_buf := []\<rparr>, [])
      else if c = lbrace then (s\<lparr>sc_depth := sc_depth s + 1\<rparr>, [])
      else if c = rbrace then
        (if sc_depth s - 1 = 0 then s\<lparr>sc_depth := sc_depth s - 1, sc_state := DONE\<rparr>
         else s\<lparr>sc_depth := sc_depth s - 1\<rparr>, [])
      else (s, []))"

definition take_colon :: "json_scanner \<Rightarrow> int \<Rightarrow> json_scanner \<times> utext" where
  "take_colon s c =
     (if c = 58 then
        ((if sc_key s = chars ''name'' then s\<lparr>sc_state := NAME, sc_in_string := False, sc_escaped := False\<rparr>
          else if sc_key s = chars ''arguments'' then s\<lparr>sc_state := ARGS, sc_args_depth := 0\<rparr>
          else s\<lparr>sc_state := OTHER, sc_other_depth := 0, sc_in_string := False\<rparr>)\<lparr>sc_buf := []\<rparr>, [])
      else (s, []))"

definition take_name :: "json_scanner \<Rightarrow> int \<Rightarrow> json_scanner \<times> utext" where
  "take_name s c =
     (if \<not> sc_in_string s then (if c = quote then s\<lparr>sc_in_string := True\<rparr> else s, [])
      else if sc_escaped s then (s\<lparr>sc_buf := sc_buf s @ [c], sc_escaped := False\<rparr>, [])
      else if c = backslash then (s\<lparr>sc_buf := sc_buf s @ [c], sc_escaped := True\<rparr>, [])
      else if c = quote then (s\<lparr>sc_name := Some (sc_buf s), sc_in_string := False, sc_state := KEY\<rparr>, [])
      else (s\<lparr>sc_buf := sc_buf s @ [c]\<rparr>, []))"

definition take_other :: "json_scanner \<Rightarrow> int \<Rightarrow> json_scanner \<times> utext" where
  "take_other s c =
     (if sc_in_string s then (track_string s c, [])
      else if c = quote then (s\<lparr>sc_in_string := True\<rparr>, [])
      else if c \<in> set [lbrace, lbracket] then (s\<lparr>sc_other_depth := sc_other_depth s + 1\<rparr>, [])
      else if c \<in> set [rbrace, rbracket] then
        (if sc_other_depth s > 0 then s\<lparr>sc_other_depth := sc_other_depth s - 1\<rparr>
         else if c = rbrace then
           s\<lparr>sc_depth := sc_depth s - 1, sc_state := (if sc_depth s - 1 = 0 then DONE else KEY)\<rparr>
         else s, [])
      else if c = 44 \<and> sc_other_depth s = 0 then (s\<lparr>sc_state := KEY\<rparr>, [])
      else (s, []))"

definition take_args :: "json_scanner \<Rightarrow> int \<Rightarrow> json_scanner \<times> utext" where
  "take_args s c =
     (if sc_args_depth s = 0 \<and> \<not> sc_in_string s \<and> c \<in> set [32, 10, 13, 9] then (s, [])
      else if sc_in_string s then (track_string s c, [c])
      else if c = quote then (s\<lparr>sc_in_string := True\<rparr>, [c])
      else if c \<in> set [lbrace, lbracket] then (s\<lparr>sc_args_depth := sc_args_depth s + 1\<rparr>, [c])
      else if c \<in> set [rbrace, rbracket] then
        (if sc_args_depth s - 1 = 0 then s\<lparr>sc_args_depth := sc_args_depth s - 1, sc_state := KEY\<rparr>
         else s\<lparr>sc_args_depth := sc_args_depth s - 1\<rparr>, [c])
      else (s, [c]))"

definition scan_take :: "json_scanner \<Rightarrow> int \<Rightarrow> json_scanner \<times> utext" where
  "scan_take s c =
     (if sc_state s = ARGS then take_args s c
      else if sc_state s = NAME then take_name s c
      else if sc_state s = OTHER then take_other s c
      else if sc_state s = COLON then take_colon s c
      else take_key s c)"

text \<open>\<^verbatim>\<open>feed\<close>: the arguments text, whether the object is complete, and the number of characters consumed.\<close>

fun scan_loop :: "json_scanner \<Rightarrow> utext \<Rightarrow> utext \<Rightarrow> nat \<Rightarrow> json_scanner \<times> utext \<times> nat" where
  "scan_loop s [] args n = (s, args, n)"
| "scan_loop s (c # cs) args n =
     (if sc_state s = DONE then (s, args, n)
      else case scan_take s c of (s', e) \<Rightarrow> scan_loop s' cs (args @ e) (Suc n))"

definition scan_feed :: "json_scanner \<Rightarrow> utext \<Rightarrow> json_scanner \<times> utext \<times> bool \<times> nat" where
  "scan_feed s xs = (case scan_loop s xs [] 0 of (s', args, n) \<Rightarrow> (s', args, sc_state s' = DONE, n))"

section \<open>The parser\<close>

definition QWEN_OPEN :: utext where "QWEN_OPEN = chars ''<tool_call>''"
definition QWEN_CLOSE :: utext where "QWEN_CLOSE = chars ''</tool_call>''"

datatype qw_state = QOutside | Scanning | Closing

record qwen =
  qw_st :: qw_state
  qw_held :: utext
  qw_scanner :: "json_scanner option"
  qw_index :: int
  qw_announced :: bool
  qw_pending :: utext

definition qw_init :: qwen where
  "qw_init = \<lparr>qw_st = QOutside, qw_held = [], qw_scanner = None, qw_index = 0, qw_announced = False, qw_pending = []\<rparr>"

definition qw_outside :: "qwen \<Rightarrow> utext \<Rightarrow> qwen \<times> utext \<times> tool_stream \<times> bool" where
  "qw_outside q xs =
     (case str_find QWEN_OPEN xs of
        Some k \<Rightarrow> (q\<lparr>qw_scanner := Some scanner_init, qw_announced := False, qw_pending := [], qw_st := Scanning\<rparr>,
                   drop (k + length QWEN_OPEN) xs, content_only (take k xs), False)
      | None \<Rightarrow> let held = partial_suffix xs QWEN_OPEN
                in (q, held, content_only (take (length xs - length held) xs), held \<noteq> []))"

text \<open>\<^verbatim>\<open>_scanning\<close>: the announcement of the name, the arguments, then the end of the object.\<close>

definition qw_announce :: "qwen \<Rightarrow> json_scanner \<Rightarrow> qwen \<times> tool_call_delta list" where
  "qw_announce q sc =
     (case sc_name sc of
        Some n \<Rightarrow> if qw_announced q then (q, [])
                  else (q\<lparr>qw_announced := True, qw_index := qw_index q + 1, qw_pending := []\<rparr>,
                        name_delta (qw_index q) n #
                        (if qw_pending q = [] then [] else [args_delta (qw_index q) (qw_pending q)]))
      | None \<Rightarrow> (q, []))"

definition qw_arguments :: "qwen \<Rightarrow> utext \<Rightarrow> qwen \<times> tool_call_delta list" where
  "qw_arguments q args =
     (if args = [] then (q, [])
      else if qw_announced q then (q, [args_delta (qw_index q - 1) args])
      else (q\<lparr>qw_pending := qw_pending q @ args\<rparr>, []))"

definition qw_scanning :: "qwen \<Rightarrow> utext \<Rightarrow> (qwen \<times> utext \<times> tool_stream \<times> bool) res" where
  "qw_scanning q xs =
     (case qw_scanner q of
        None \<Rightarrow> Inl AssertionError
      | Some sc0 \<Rightarrow>
          (case scan_feed sc0 xs of (sc, args, complete, consumed) \<Rightarrow>
           case qw_announce (q\<lparr>qw_scanner := Some sc\<rparr>) sc of (q1, d1) \<Rightarrow>
           case qw_arguments q1 args of (q2, d2) \<Rightarrow>
             let out = \<lparr>ts_content = [], ts_calls = d1 @ d2\<rparr>
             in Inr (if complete then (q2\<lparr>qw_st := Closing\<rparr>, drop consumed xs, out, False) else (q2, [], out, True))))"

definition qw_closing :: "qwen \<Rightarrow> utext \<Rightarrow> qwen \<times> utext \<times> tool_stream \<times> bool" where
  "qw_closing q xs =
     (case str_find QWEN_CLOSE xs of
        Some k \<Rightarrow> (q\<lparr>qw_st := QOutside\<rparr>, drop (k + length QWEN_CLOSE) xs, no_stream, False)
      | None \<Rightarrow> let held = partial_suffix xs QWEN_CLOSE
                in (q, held, content_only (take (length xs - length held) xs), held \<noteq> []))"

definition qw_step :: "qwen \<Rightarrow> utext \<Rightarrow> (qwen \<times> utext \<times> tool_stream \<times> bool) res" where
  "qw_step q xs =
     (case qw_st q of QOutside \<Rightarrow> Inr (qw_outside q xs) | Scanning \<Rightarrow> qw_scanning q xs | Closing \<Rightarrow> Inr (qw_closing q xs))"

lemma qw_tags_nonempty [simp]: "QWEN_OPEN \<noteq> []" "QWEN_CLOSE \<noteq> []"
  by (simp_all add: QWEN_OPEN_def QWEN_CLOSE_def chars_def)

lemma scan_loop_acc:
  "scan_loop s xs args n = (case scan_loop s xs [] 0 of (s', a, k) \<Rightarrow> (s', args @ a, n + k))"
proof (induction xs arbitrary: s args n)
  case (Cons c cs)
  obtain s' e where t: "scan_take s c = (s', e)" by fastforce
  show ?case
    using Cons.IH [of s' "args @ e" "Suc n"] Cons.IH [of s' e "Suc 0"] by (simp add: t case_prod_beta)
qed simp

lemma qw_step_shrinks:
  assumes "qw_step q xs = Inr (q', ys, out, False)" "xs \<noteq> []"
  shows "length ys < length xs \<or> length ys \<le> length xs \<and> qw_st q = Scanning \<and> qw_st q' = Closing"
proof -
  have dr: "tag \<noteq> [] \<Longrightarrow> length xs - (k + length tag) < length xs" for tag :: utext and k
    using drop_shorter [OF assms(2), of tag k] by simp
  show ?thesis
    using assms
    by (cases "qw_st q")
      (auto simp: qw_step_def qw_outside_def qw_scanning_def qw_closing_def Let_def dr
        split: option.splits prod.splits if_splits)
qed

lemma qw_measure:
  assumes "xs \<noteq> []" "Inr (q', ys, out, False) = qw_step q xs"
  shows "2 * length ys + of_bool (qw_st q' = Scanning) < 2 * length xs + of_bool (qw_st q = Scanning)"
  using qw_step_shrinks [OF assms(2) [symmetric] assms(1)] by (auto simp: of_bool_def)

text \<open>The while loop of \<^verbatim>\<open>feed\<close>.\<close>

function qw_loop :: "qwen \<Rightarrow> utext \<Rightarrow> (qwen \<times> tool_stream) res" where
  "qw_loop q xs =
     (if xs = [] then Inr (q\<lparr>qw_held := []\<rparr>, no_stream)
      else case qw_step q xs of
        Inl e \<Rightarrow> Inl e
      | Inr (q', ys, out, blocked) \<Rightarrow>
          if blocked then Inr (q'\<lparr>qw_held := ys\<rparr>, out)
          else rbind (qw_loop q' ys) (\<lambda>(p, rest). Inr (p, both out rest)))"
  by pat_completeness auto
termination
  by (relation "measure (\<lambda>(q, xs). 2 * length xs + of_bool (qw_st q = Scanning))")
    (simp, simp only: in_measure case_prod_conv, metis qw_measure)

declare qw_loop.simps [simp del]

definition qw_feed :: "qwen \<Rightarrow> utext \<Rightarrow> (qwen \<times> tool_stream) res" where
  "qw_feed q delta = qw_loop q (qw_held q @ delta)"

definition qw_finish :: "qwen \<Rightarrow> qwen \<times> tool_stream" where
  "qw_finish q = (q\<lparr>qw_held := [], qw_scanner := None\<rparr>, content_only (qw_held q))"

primrec qw_run :: "qwen \<Rightarrow> utext list \<Rightarrow> (qwen \<times> tool_stream) res" where
  "qw_run q [] = Inr (q, no_stream)"
| "qw_run q (c # cs) =
     rbind (qw_feed q c) (\<lambda>(q1, o1). rbind (qw_run q1 cs) (\<lambda>(q2, o2). Inr (q2, both o1 o2)))"

definition qw_stream :: "utext list \<Rightarrow> (utext \<times> tool_call list) res" where
  "qw_stream deltas = rbind (qw_run qw_init deltas) (\<lambda>(q, out). Inr (collected (both out (snd (qw_finish q)))))"

definition qw_parse :: "utext \<Rightarrow> (utext \<times> tool_call list) res" where
  "qw_parse xs = rbind (qw_feed qw_init xs) (\<lambda>(q, out). Inr (collected (both out (snd (qw_finish q)))))"

text \<open>The registry: the family name selects the parser class.\<close>

datatype tool_parser = DeepSeekToolParser deepseek | QwenToolParser qwen

definition for_model :: "string \<Rightarrow> tool_parser res" where
  "for_model family =
     (if family = ''deepseek'' then Inr (DeepSeekToolParser ds_init)
      else if family = ''qwen'' then Inr (QwenToolParser qw_init)
      else Inl ValueError)"

section \<open>Chunking\<close>

definition qw_object :: utext where
  "qw_object = [123, 34] @ chars ''name'' @ [34, 58, 34] @ chars ''f'' @ [34, 44, 34] @ chars ''arguments'' @
     [34, 58] @ chars ''{}}''"

text \<open>The axiom does not hold of the Qwen parser. In the ordinary layout a newline stands between the
  object and the closing tag; the one-shot parse drops it, but when it arrives in a chunk of its own the
  closing step finds no tag in it and emits it as content.\<close>

lemma qw_newline_differs:
  "qw_parse (QWEN_OPEN @ qw_object @ [10] @ QWEN_CLOSE) =
     Inr ([], [\<lparr>tc_name = chars ''f'', tc_arguments = chars ''{}'', tc_id = chars ''call_0''\<rparr>]) \<and>
   qw_stream [QWEN_OPEN @ qw_object, [10], QWEN_CLOSE] =
     Inr ([10], [\<lparr>tc_name = chars ''f'', tc_arguments = chars ''{}'', tc_id = chars ''call_0''\<rparr>])"
  by (rule conjI) code_simp+

lemma scan_loop_append:
  "scan_loop s (a @ b) args n = (case scan_loop s a args n of (s', args', n') \<Rightarrow> scan_loop s' b args' n')"
proof (induction a arbitrary: s args n)
  case (Cons c cs)
  have "scan_loop s b args n = (s, args, n)" if "sc_state s = DONE" using that by (cases b) simp_all
  then show ?case using Cons.IH by (simp add: case_prod_beta)
qed simp

text \<open>The scanner does not depend on the chunking. Feeding two pieces of text yields the arguments text,
  the completion flag and the number of consumed characters of feeding them at once, from any state.\<close>

lemma scan_feed_append:
  "scan_feed s (a @ b) =
     (case scan_feed s a of (s1, args1, complete1, n1) \<Rightarrow>
      case scan_feed s1 b of (s2, args2, complete2, n2) \<Rightarrow> (s2, args1 @ args2, complete2, n1 + n2))"
proof -
  obtain s1 a1 n1 where 1: "scan_loop s a [] 0 = (s1, a1, n1)" by (metis prod.exhaust)
  obtain s2 a2 n2 where 2: "scan_loop s1 b [] 0 = (s2, a2, n2)" by (metis prod.exhaust)
  show ?thesis using scan_loop_acc [of s1 b a1 n1] by (simp add: scan_feed_def scan_loop_append 1 2)
qed

section \<open>Order of the deltas\<close>

definition qw_live :: "qwen \<Rightarrow> bool" where
  "qw_live q \<longleftrightarrow> (qw_st q = Scanning \<longrightarrow> qw_scanner q \<noteq> None) \<and> 0 \<le> qw_index q \<and> (qw_announced q \<longrightarrow> 0 < qw_index q)"

lemma qw_announce_opened:
  assumes "0 \<le> qw_index q" "qw_announced q \<longrightarrow> 0 < qw_index q" "qw_announce q sc = (q', ds)"
  shows "opened (qw_index q) ds (qw_index q') \<and> 0 \<le> qw_index q' \<and> (qw_announced q' \<longrightarrow> 0 < qw_index q') \<and>
    qw_scanner q' = qw_scanner q \<and> qw_st q' = qw_st q"
  using assms by (auto simp: qw_announce_def split: option.splits if_splits)

lemma qw_arguments_opened:
  assumes "0 \<le> qw_index q" "qw_announced q \<longrightarrow> 0 < qw_index q" "qw_arguments q args = (q', ds)"
  shows "opened (qw_index q) ds (qw_index q') \<and> 0 \<le> qw_index q' \<and> (qw_announced q' \<longrightarrow> 0 < qw_index q') \<and>
    qw_scanner q' = qw_scanner q \<and> qw_st q' = qw_st q"
  using assms by (auto simp: qw_arguments_def split: if_splits)

lemma qw_step_live:
  assumes "qw_live q"
  shows "\<exists>q' ys out b. qw_step q xs = Inr (q', ys, out, b) \<and> qw_live q' \<and> opened (qw_index q) (ts_calls out) (qw_index q')"
proof (cases "qw_st q")
  case QOutside
  then show ?thesis using assms
    by (auto simp: qw_step_def qw_outside_def qw_live_def Let_def split: option.split)
next
  case Closing
  then show ?thesis using assms
    by (auto simp: qw_step_def qw_closing_def qw_live_def Let_def split: option.split)
next
  case Scanning
  then obtain sc0 where sc0: "qw_scanner q = Some sc0" using assms by (auto simp: qw_live_def)
  obtain sc args complete consumed where f: "scan_feed sc0 xs = (sc, args, complete, consumed)" by (metis prod.exhaust)
  obtain q1 d1 where a: "qw_announce (q\<lparr>qw_scanner := Some sc\<rparr>) sc = (q1, d1)" by fastforce
  obtain q2 d2 where g: "qw_arguments q1 args = (q2, d2)" by fastforce
  have 1: "opened (qw_index q) d1 (qw_index q1) \<and> 0 \<le> qw_index q1 \<and> (qw_announced q1 \<longrightarrow> 0 < qw_index q1) \<and>
      qw_scanner q1 = Some sc \<and> qw_st q1 = Scanning"
    using qw_announce_opened [OF _ _ a] assms Scanning by (simp add: qw_live_def)
  have 2: "opened (qw_index q1) d2 (qw_index q2) \<and> 0 \<le> qw_index q2 \<and> (qw_announced q2 \<longrightarrow> 0 < qw_index q2) \<and>
      qw_scanner q2 = qw_scanner q1 \<and> qw_st q2 = qw_st q1"
    using qw_arguments_opened [OF _ _ g] 1 by simp
  have "opened (qw_index q) (d1 @ d2) (qw_index q2)" using 1 2 by (auto simp: opened_append)
  then show ?thesis using 1 2 Scanning sc0 f a g
    by (cases complete) (auto simp: qw_step_def qw_scanning_def Let_def qw_live_def)
qed

lemma qw_held_live: "qw_live (q\<lparr>qw_held := h\<rparr>) = qw_live q"
  by (simp add: qw_live_def)

lemma qw_loop_Nil: "qw_loop q [] = Inr (q\<lparr>qw_held := []\<rparr>, no_stream)"
  by (simp add: qw_loop.simps)

lemma qw_loop_step:
  assumes "xs \<noteq> []" "qw_step q xs = Inr (q', ys, out, b)"
  shows "qw_loop q xs = (if b then Inr (q'\<lparr>qw_held := ys\<rparr>, out)
      else rbind (qw_loop q' ys) (\<lambda>(p, rest). Inr (p, both out rest)))"
  using assms by (subst qw_loop.simps) simp

lemma qw_loop_live:
  "qw_live q \<Longrightarrow> \<exists>q' out. qw_loop q xs = Inr (q', out) \<and> qw_live q' \<and> opened (qw_index q) (ts_calls out) (qw_index q')"
proof (induction q xs rule: qw_loop.induct)
  case (1 q xs)
  obtain q' ys out b where s: "qw_step q xs = Inr (q', ys, out, b)" "qw_live q'" "opened (qw_index q) (ts_calls out) (qw_index q')"
    using qw_step_live [OF 1(2)] by metis
  consider "xs = []" | "xs \<noteq> []" b | "xs \<noteq> []" "\<not> b" by blast
  then show ?case
  proof cases
    case 1
    then show ?thesis using "1.prems" by (simp add: qw_loop_Nil qw_held_live)
  next
    case 2
    then show ?thesis using s qw_loop_step [OF 2(1) s(1)] by (simp add: qw_held_live)
  next
    case 3
    have "\<exists>q2 o2. qw_loop q' ys = Inr (q2, o2) \<and> qw_live q2 \<and> opened (qw_index q') (ts_calls o2) (qw_index q2)"
      using "1.IH" [of "(q', ys, out, b)" q' "(ys, out, b)" ys "(out, b)" out b] s 3 by simp
    then obtain q2 o2 where r: "qw_loop q' ys = Inr (q2, o2)" "qw_live q2" "opened (qw_index q') (ts_calls o2) (qw_index q2)" by blast
    have "qw_loop q xs = Inr (q2, both out o2)" using qw_loop_step [OF 3(1) s(1)] 3(2) r(1) by simp
    moreover have "opened (qw_index q) (ts_calls (both out o2)) (qw_index q2)" using s(3) r(3) by (auto simp: opened_append)
    ultimately show ?thesis using r(2) by blast
  qed
qed

lemma qw_run_live:
  "qw_live q \<Longrightarrow> \<exists>q' out. qw_run q cs = Inr (q', out) \<and> qw_live q' \<and> opened (qw_index q) (ts_calls out) (qw_index q')"
proof (induction cs arbitrary: q)
  case (Cons c cs)
  obtain q1 o1 where f: "qw_feed q c = Inr (q1, o1)" "qw_live q1" "opened (qw_index q) (ts_calls o1) (qw_index q1)"
    using qw_loop_live [OF Cons.prems, of "qw_held q @ c"] by (auto simp: qw_feed_def)
  obtain q2 o2 where r: "qw_run q1 cs = Inr (q2, o2)" "qw_live q2" "opened (qw_index q1) (ts_calls o2) (qw_index q2)"
    using Cons.IH [OF f(2)] by blast
  have "opened (qw_index q) (ts_calls (both o1 o2)) (qw_index q2)" using f(3) r(3) by (auto simp: opened_append)
  then show ?case using f(1) r(1,2) by simp
qed simp

text \<open>C36: for any text in any chunks the Qwen parser returns, its assertion never fails, and its deltas are
  disciplined: call 0 is opened first, then call 1, and so on, each by one delta with its id and name, and
  every further delta carries the arguments of a call that is already open.\<close>

theorem qw_run_returns:
  "\<exists>q out. qw_run qw_init deltas = Inr (q, out) \<and> opened 0 (ts_calls out) (qw_index q)"
  using qw_run_live [of qw_init deltas] by (auto simp: qw_live_def qw_init_def)

section \<open>Printing and parsing\<close>

text \<open>
  The text of an arguments value, as a tree: single characters, quoted strings (plain characters and escape
  pairs) and bracketed groups. The text of every JSON object and array has this shape.
\<close>

datatype string_item = Plain int | Escape int

datatype piece = Chr int | Quoted "string_item list" | Nest bool "piece list"

definition item_ok :: "string_item \<Rightarrow> bool" where
  "item_ok it = (case it of Plain c \<Rightarrow> c \<noteq> quote \<and> c \<noteq> backslash | Escape c \<Rightarrow> True)"

definition show_item :: "string_item \<Rightarrow> utext" where
  "show_item it = (case it of Plain c \<Rightarrow> [c] | Escape c \<Rightarrow> [backslash, c])"

fun show_piece :: "piece \<Rightarrow> utext" and show_pieces :: "piece list \<Rightarrow> utext" where
  "show_piece (Chr c) = [c]"
| "show_piece (Quoted its) = quote # concat (map show_item its) @ [quote]"
| "show_piece (Nest braces ps) =
     (if braces then lbrace else lbracket) # show_pieces ps @ [if braces then rbrace else rbracket]"
| "show_pieces [] = []"
| "show_pieces (p # ps) = show_piece p @ show_pieces ps"

fun piece_ok :: "piece \<Rightarrow> bool" and pieces_ok :: "piece list \<Rightarrow> bool" where
  "piece_ok (Chr c) = (c \<notin> set [quote, lbrace, rbrace, lbracket, rbracket])"
| "piece_ok (Quoted its) = list_all item_ok its"
| "piece_ok (Nest braces ps) = pieces_ok ps"
| "pieces_ok [] = True"
| "pieces_ok (p # ps) = (piece_ok p \<and> pieces_ok ps)"

text \<open>\<open>scans s xs s' out\<close>: the scanner takes all of \<open>xs\<close>, from \<open>s\<close> to \<open>s'\<close>, and emits \<open>out\<close>.\<close>

definition scans :: "json_scanner \<Rightarrow> utext \<Rightarrow> json_scanner \<Rightarrow> utext \<Rightarrow> bool" where
  "scans s xs s' out \<longleftrightarrow> scan_loop s xs [] 0 = (s', out, length xs)"

lemma scans_Nil: "scans s [] s []"
  by (simp add: scans_def)

lemma scans_one: "sc_state s \<noteq> DONE \<Longrightarrow> scan_take s c = (s', e) \<Longrightarrow> scans s [c] s' e"
  by (simp add: scans_def)

lemma scans_append: "scans s a s1 o1 \<Longrightarrow> scans s1 b s2 o2 \<Longrightarrow> scans s (a @ b) s2 (o1 @ o2)"
  using scan_loop_acc [of s1 b o1 "length a"] by (simp add: scans_def scan_loop_append)

lemma scans_Cons: "sc_state s \<noteq> DONE \<Longrightarrow> scan_take s c = (s1, e) \<Longrightarrow> scans s1 xs s2 out \<Longrightarrow> scans s (c # xs) s2 (e @ out)"
  using scans_append [OF scans_one, of s c s1 e xs s2 out] by simp

text \<open>Inside the arguments value every character is emitted verbatim and the scanner comes back to its state.\<close>

definition in_args :: "json_scanner \<Rightarrow> bool" where
  "in_args s \<longleftrightarrow> sc_state s = ARGS \<and> \<not> sc_in_string s \<and> \<not> sc_escaped s \<and> 0 < sc_args_depth s"

lemma scans_items:
  assumes "sc_state s = ARGS" "sc_in_string s" "\<not> sc_escaped s"
  shows "list_all item_ok its \<Longrightarrow> scans s (concat (map show_item its)) s (concat (map show_item its))"
proof (induction its)
  case (Cons it its)
  have "scans s (show_item it) s (show_item it)"
  proof (cases it)
    case (Plain c)
    then show ?thesis using assms Cons.prems
      by (intro back_subst [of "\<lambda>x. scans s x s x", OF scans_one [of s c]])
        (simp_all add: scan_take_def take_args_def track_string_def item_ok_def show_item_def)
  next
    case (Escape c)
    have "scan_take s backslash = (s\<lparr>sc_escaped := True\<rparr>, [backslash])"
      "scan_take (s\<lparr>sc_escaped := True\<rparr>) c = (s, [c])"
      using assms by (simp_all add: scan_take_def take_args_def track_string_def)
    then show ?thesis using assms(1) Escape by (simp add: scans_def show_item_def)
  qed
  then show ?case using Cons scans_append [of s "show_item it" s "show_item it"] by simp
qed (simp add: scans_Nil)

lemma scans_pieces:
  "in_args s \<Longrightarrow> piece_ok p \<Longrightarrow> scans s (show_piece p) s (show_piece p)"
  "in_args s \<Longrightarrow> pieces_ok ps \<Longrightarrow> scans s (show_pieces ps) s (show_pieces ps)"
proof (induction p and ps arbitrary: s and s rule: show_piece_show_pieces.induct)
  case (1 c)
  then show ?case by (simp add: scans_def scan_take_def take_args_def in_args_def)
next
  case (2 its)
  let ?q = "s\<lparr>sc_in_string := True\<rparr>"
  have o: "scan_take s quote = (?q, [quote])" "scan_take ?q quote = (s, [quote])"
    using 2 by (simp_all add: scan_take_def take_args_def track_string_def in_args_def)
  have "scans ?q (concat (map show_item its)) ?q (concat (map show_item its))"
    using 2 by (intro scans_items) (simp_all add: in_args_def)
  from scans_append [OF this scans_one [OF _ o(2)]] have "scans ?q (concat (map show_item its) @ [quote]) s (concat (map show_item its) @ [quote])"
    using 2 by (simp add: in_args_def)
  from scans_Cons [OF _ o(1) this] show ?case using 2 by (simp add: in_args_def)
next
  case (3 braces ps)
  let ?l = "if braces then lbrace else lbracket" and ?r = "if braces then rbrace else rbracket"
  let ?q = "s\<lparr>sc_args_depth := sc_args_depth s + 1\<rparr>"
  have o: "scan_take s ?l = (?q, [?l])" "scan_take ?q ?r = (s, [?r])"
    using 3(2) by (simp_all add: scan_take_def take_args_def in_args_def)
  have "scans ?q (show_pieces ps) ?q (show_pieces ps)" using 3 by (simp add: in_args_def)
  from scans_append [OF this scans_one [OF _ o(2)]] have "scans ?q (show_pieces ps @ [?r]) s (show_pieces ps @ [?r])"
    using 3(2) by (simp add: in_args_def)
  from scans_Cons [OF _ o(1) this] show ?case using 3(2) by (simp add: in_args_def)
next
  case 4
  then show ?case by (simp add: scans_Nil)
next
  case (5 p ps)
  then show ?case using scans_append [of s "show_piece p" s "show_piece p" "show_pieces ps" s] by simp
qed

definition qw_call_text :: "utext \<Rightarrow> bool \<Rightarrow> piece list \<Rightarrow> utext" where
  "qw_call_text n braces ps =
     ([lbrace, quote] @ chars ''name'' @ [quote, 58, quote]) @ n @
     ([quote, 44, quote] @ chars ''arguments'' @ [quote, 58]) @ show_piece (Nest braces ps) @ [rbrace]"

definition name_ok :: "utext \<Rightarrow> bool" where
  "name_ok n = list_all (\<lambda>c. c \<noteq> quote \<and> c \<noteq> backslash) n"

definition at_name :: "utext \<Rightarrow> json_scanner" where
  "at_name buf = \<lparr>sc_name = None, sc_state = NAME, sc_in_key = False, sc_key = chars ''name'', sc_buf = buf,
     sc_depth = 1, sc_args_depth = 0, sc_other_depth = 0, sc_in_string = True, sc_escaped = False\<rparr>"

definition at_args :: "utext \<Rightarrow> int \<Rightarrow> json_scanner" where
  "at_args n d = \<lparr>sc_name = Some n, sc_state = ARGS, sc_in_key = False, sc_key = chars ''arguments'', sc_buf = [],
     sc_depth = 1, sc_args_depth = d, sc_other_depth = 0, sc_in_string = False, sc_escaped = False\<rparr>"

lemmas scan_defs = scan_take_def take_key_def take_colon_def take_name_def take_args_def

lemma scans_open: "scans scanner_init ([lbrace, quote] @ chars ''name'' @ [quote, 58, quote]) (at_name []) []"
  by (simp add: scans_def scanner_init_def at_name_def chars_def scan_defs)

lemma scans_name: "name_ok n \<Longrightarrow> scans (at_name buf) n (at_name (buf @ n)) []"
proof (induction n arbitrary: buf)
  case (Cons c n)
  have "scan_take (at_name buf) c = (at_name (buf @ [c]), [])"
    using Cons.prems by (simp add: at_name_def name_ok_def scan_defs)
  from scans_Cons [OF _ this Cons.IH] show ?case using Cons.prems by (simp add: name_ok_def at_name_def)
qed (simp add: scans_Nil)

lemma scans_key: "scans (at_name n) ([quote, 44, quote] @ chars ''arguments'' @ [quote, 58]) (at_args n 0) []"
  by (simp add: scans_def at_name_def at_args_def chars_def scan_defs)

lemma scans_value:
  assumes "pieces_ok ps"
  shows "scans (at_args n 0) (show_piece (Nest braces ps)) ((at_args n 0)\<lparr>sc_state := KEY\<rparr>) (show_piece (Nest braces ps))"
proof -
  let ?l = "if braces then lbrace else lbracket" and ?r = "if braces then rbrace else rbracket"
  have o: "scan_take (at_args n 0) ?l = (at_args n 1, [?l])"
    "scan_take (at_args n 1) ?r = ((at_args n 0)\<lparr>sc_state := KEY\<rparr>, [?r])"
    by (simp_all add: at_args_def scan_defs)
  have nd: "sc_state (at_args n d) \<noteq> DONE" for d by (simp add: at_args_def)
  have "scans (at_args n 1) (show_pieces ps) (at_args n 1) (show_pieces ps)"
    using scans_pieces(2) [OF _ assms] by (simp add: in_args_def at_args_def)
  from scans_Cons [OF nd o(1) scans_append [OF this scans_one [OF nd o(2)]]] show ?thesis by simp
qed

lemma scans_call:
  assumes "name_ok n" "pieces_ok ps"
  shows "scans scanner_init (qw_call_text n braces ps) ((at_args n 0)\<lparr>sc_state := DONE, sc_depth := 0\<rparr>)
    (show_piece (Nest braces ps))"
proof -
  have e: "scans ((at_args n 0)\<lparr>sc_state := KEY\<rparr>) [rbrace] ((at_args n 0)\<lparr>sc_state := DONE, sc_depth := 0\<rparr>) []"
    by (simp add: scans_def at_args_def scan_defs)
  have "scans (at_name []) n (at_name n) []" using scans_name [OF assms(1), of "[]"] by simp
  from scans_append [OF scans_open scans_append [OF this scans_append [OF scans_key scans_append [OF scans_value [OF assms(2)] e]]]]
  show ?thesis by (simp add: qw_call_text_def del: show_piece.simps)
qed

lemma scan_feed_call:
  assumes "name_ok n" "pieces_ok ps"
  shows "scan_feed scanner_init (qw_call_text n braces ps @ ys) =
    ((at_args n 0)\<lparr>sc_state := DONE, sc_depth := 0\<rparr>, show_piece (Nest braces ps), True, length (qw_call_text n braces ps))"
proof -
  have "scan_loop ((at_args n 0)\<lparr>sc_state := DONE, sc_depth := 0\<rparr>) ys args k =
      ((at_args n 0)\<lparr>sc_state := DONE, sc_depth := 0\<rparr>, args, k)" for args k by (cases ys) simp_all
  then show ?thesis using scans_call [OF assms, of braces] by (simp add: scan_feed_def scan_loop_append scans_def)
qed

lemma qw_flush:
  assumes "str_find QWEN_OPEN xs = None" "qw_st q = QOutside" "qw_loop q xs = Inr (p, out)"
  shows "both out (snd (qw_finish p)) = content_only xs"
proof (cases "xs = []")
  case True
  then show ?thesis using assms(3) by (auto simp: qw_loop_Nil qw_finish_def content_both)
next
  case False
  obtain u where u: "xs = u @ partial_suffix xs QWEN_OPEN" "take (length xs - length (partial_suffix xs QWEN_OPEN)) xs = u"
    by (rule hold_split [OF qw_tags_nonempty(1), of xs]) (rule that)
  have s: "qw_step q xs = Inr (q, partial_suffix xs QWEN_OPEN, content_only u, partial_suffix xs QWEN_OPEN \<noteq> [])"
    using assms(1,2) u(2) by (simp add: qw_step_def qw_outside_def Let_def)
  have "both out (snd (qw_finish p)) = content_only (u @ partial_suffix xs QWEN_OPEN)"
    using qw_loop_step [OF False s] assms(3)
    by (cases "partial_suffix xs QWEN_OPEN = []") (auto simp: qw_loop_Nil qw_finish_def content_both)
  then show ?thesis unfolding u(1) [symmetric] .
qed

text \<open>C35: parsing what the format prints. A text, the markup of one call (its name a plain string, its
  arguments any object or array text, strings with escapes and brackets in them included), any gap before
  the closing tag and a closing text parse to the two texts and that call, its arguments verbatim; the gap
  is dropped.\<close>

theorem qw_parse_render:
  assumes "name_ok n" "pieces_ok ps" "ends_at QWEN_OPEN pre" "ends_at QWEN_CLOSE gap" "str_find QWEN_OPEN post = None"
  shows "qw_parse (pre @ QWEN_OPEN @ qw_call_text n braces ps @ gap @ QWEN_CLOSE @ post) =
    Inr (pre @ post, [\<lparr>tc_name = n, tc_arguments = show_piece (Nest braces ps), tc_id = call_id 0\<rparr>])"
proof -
  let ?c = "qw_call_text n braces ps" and ?a = "show_piece (Nest braces ps)"
  let ?sc = "(at_args n 0)\<lparr>sc_state := DONE, sc_depth := 0\<rparr>"
  let ?q1 = "qw_init\<lparr>qw_scanner := Some scanner_init, qw_announced := False, qw_pending := [], qw_st := Scanning\<rparr>"
  let ?q2 = "?q1\<lparr>qw_scanner := Some ?sc, qw_announced := True, qw_index := 1, qw_st := Closing\<rparr>"
  let ?d = "\<lparr>ts_content = [], ts_calls = [name_delta 0 n, args_delta 0 ?a]\<rparr>"
  have ne: "?a \<noteq> []" "?c \<noteq> []" by (simp_all add: qw_call_text_def)
  have 1: "qw_step qw_init (pre @ QWEN_OPEN @ ?c @ gap @ QWEN_CLOSE @ post) =
      Inr (?q1, ?c @ gap @ QWEN_CLOSE @ post, content_only pre, False)"
    using ends_at_more [OF assms(3)] by (simp add: qw_step_def qw_outside_def qw_init_def)
  have 2: "qw_step ?q1 (?c @ gap @ QWEN_CLOSE @ post) = Inr (?q2, gap @ QWEN_CLOSE @ post, ?d, False)"
    using scan_feed_call [OF assms(1,2), of braces "gap @ QWEN_CLOSE @ post"] ne(1)
    by (simp add: qw_step_def qw_scanning_def qw_announce_def qw_arguments_def qw_init_def at_args_def Let_def
        del: show_piece.simps)
  have 3: "qw_step ?q2 (gap @ QWEN_CLOSE @ post) = Inr (?q2\<lparr>qw_st := QOutside\<rparr>, post, no_stream, False)"
    using ends_at_more [OF assms(4)] by (simp add: qw_step_def qw_closing_def)
  have live: "qw_live (?q2\<lparr>qw_st := QOutside\<rparr>)" by (simp add: qw_live_def)
  obtain p out where l: "qw_loop (?q2\<lparr>qw_st := QOutside\<rparr>) post = Inr (p, out)" using qw_loop_live [OF live, of post] by blast
  have fl: "both out (snd (qw_finish p)) = content_only post" by (rule qw_flush [OF assms(5) _ l]) simp
  have "qw_feed qw_init (pre @ QWEN_OPEN @ ?c @ gap @ QWEN_CLOSE @ post) = Inr (p, both (content_only pre) (both ?d out))"
    using qw_loop_step [OF _ 1] qw_loop_step [OF _ 2] qw_loop_step [OF _ 3] l ne(2)
    by (simp add: qw_feed_def qw_init_def del: show_piece.simps)
  moreover have "merge [name_delta 0 n, args_delta 0 ?a] = [\<lparr>tc_name = n, tc_arguments = ?a, tc_id = call_id 0\<rparr>]"
    using merge_call_deltas [of "[(n, ?a)]"] by (simp del: show_piece.simps)
  ultimately show ?thesis
    by (simp add: qw_parse_def collected_def fl del: emit_simps(7,8) show_piece.simps)
      (simp add: both_def content_only_def no_stream_def del: show_piece.simps)
qed

theorem qw_parse_render_witness:
  "pieces_ok [Quoted [Plain 97, Escape 34, Plain 125], Chr 58, Nest False []] \<and>
   qw_parse (chars ''a'' @ QWEN_OPEN @
       qw_call_text (chars ''f'') True [Quoted [Plain 97, Escape 34, Plain 125], Chr 58, Nest False []] @
       [10] @ QWEN_CLOSE @ chars ''b'') =
     Inr (chars ''a'' @ chars ''b'', [\<lparr>tc_name = chars ''f'', tc_arguments =
        show_piece (Nest True [Quoted [Plain 97, Escape 34, Plain 125], Chr 58, Nest False []]), tc_id = call_id 0\<rparr>])"
proof -
  have "name_ok (chars ''f'')" "pieces_ok [Quoted [Plain 97, Escape 34, Plain 125], Chr 58, Nest False []]"
    "ends_at QWEN_OPEN (chars ''a'')" "ends_at QWEN_CLOSE [10]" "str_find QWEN_OPEN (chars ''b'') = None"
    by code_simp+
  then show ?thesis using qw_parse_render by blast
qed

end
