(* ===== verification/Spec2Isabelle.thy ===== *)
theory Spec2Isabelle
  imports Async_Engine Decode_Session Tiering Reasoning_Splitter Qwen_Parser
begin

text \<open>
  Verification of the host side of rapid_llm (\<^verbatim>\<open>src/rapid_llm/engine\<close>): the paged KV cache, the batch planner
  that runs on it, the streaming parsers of generated text, and the routing of requests to data-parallel replicas.

  \<^bold>\<open>The program.\<close> The engine generates text for many requests at once. Keys and values live in blocks of a fixed
  pool (\<^verbatim>\<open>block_pool.py\<close>); a coordinator (\<^verbatim>\<open>kv_cache_spec.py\<close>) gives every request blocks per layer group; the
  prefix cache (\<^verbatim>\<open>prefix_cache.py\<close>) names full blocks by a chain of hashes, so that requests with a common prefix
  share blocks; a CPU tier (\<^verbatim>\<open>kv_offload\<close>) keeps copies of evicted blocks; and the batch planner
  (\<^verbatim>\<open>batch_planner.py\<close>) decides, step by step, which requests prefill and decode, evicting and retiring requests
  as blocks and slots run out. The scheduler (\<^verbatim>\<open>scheduler.py\<close>) admits requests, turns each plan into forward passes, runs them,
  and harvests the sampled tokens: it appends and detokenizes them (\<^verbatim>\<open>detokenizer.py\<close>), stops requests
  (\<^verbatim>\<open>stop_criteria.py\<close>), and may draft tokens ahead (\<^verbatim>\<open>ngram_proposer.py\<close>). What the model emits is split into reasoning and content (\<^verbatim>\<open>reasoning.py\<close>) and
  searched for tool calls (\<^verbatim>\<open>tool_parser.py\<close>) while it streams. With several replicas a controller
  (\<^verbatim>\<open>data_parallel.py\<close>) routes requests by a load policy over command queues (\<^verbatim>\<open>scheduler_ipc.py\<close>). A serving process hands
  the events to its clients (\<^verbatim>\<open>async_engine.py\<close>). For offline use, a call can also run a batch from start to end without
  the scheduler (\<^verbatim>\<open>llm_engine.py\<close>).

  \<^bold>\<open>The theories\<close>, in the order of the calls:
  \<^item> \<open>RL_Prelude\<close>: exceptions as values (\<open>res\<close>, \<open>rbind\<close>, \<open>rfold\<close>), dictionaries as association lists, shared lemmas.
  \<^item> \<open>Free_Queue\<close>: the linked list of free blocks, as field maps over block ids. The locale \<open>block_queue\<close> states
    what the pool relies on; its interpretation on the pointer operations is the refinement proof.
  \<^item> \<open>Block_Pool\<close>: \<^verbatim>\<open>BlockPool\<close>, with the invariant that the free queue holds exactly the unreferenced blocks and the
    hash index exactly the hashed ones.
  \<^item> \<open>KV_Cache_Spec\<close>: specs, hit policies, groups and configurations. The locale \<open>hit_policy\<close> is the contract of a
    policy, interpreted on the prefix run of full attention and the scan of a sliding window.
  \<^item> \<open>KV_Coordinator\<close>: \<^verbatim>\<open>KVCacheCoordinator\<close>; a block's count is the number of times requests hold it.
  \<^item> \<open>Block_Hash\<close>, \<open>Prefix_Cache\<close>: the hash chain and \<^verbatim>\<open>PrefixCache\<close>. The digest (\<^verbatim>\<open>blake2b\<close> of the standard library) is a
    parameter; the hypotheses on it are \<open>digest8\<close> (it yields eight bytes) and, for sharing, \<open>no_collision\<close> on the
    messages of the two sequences compared.
  \<^item> \<open>KV_Offload\<close>: the CPU tier; the copier and the state of its events are parameters.
  \<^item> \<open>Tiering\<close>: the manager the engine talks to (\<^verbatim>\<open>kv_offload/tiering.py\<close>). The protocol of \<^verbatim>\<open>OffloadingManager\<close> is the
    locale \<open>offload_manager\<close>, interpreted on the CPU tier and on this manager.
  \<^item> \<open>Batch_Planner\<close>: requests, configuration and every operation of \<^verbatim>\<open>BatchPlanner\<close>. Request objects live in a store
    indexed by object identity. \<open>Planner_Invariant\<close>, \<open>Planner_Steps\<close>, \<open>Planner_Lifecycle\<close>: its invariant, that each
    operation keeps it, and the step relation \<open>pstep\<close> with its reachable states. \<open>Planner_Properties\<close>: what follows.
  \<^item> \<open>Streaming_Text\<close>: searching text and the held suffix; the locale \<open>chunked\<close> states when a streaming machine does
    not depend on the chunking, interpreted on the reasoning splitter (\<open>Reasoning_Splitter\<close>) and the DeepSeek
    parser (\<open>Tool_Parser\<close>). \<open>Qwen_Parser\<close>: the JSON scanner and the Qwen parser.
  \<^item> \<open>Load_Policy\<close>: the routing policies. The locale \<open>charging\<close> is the contract of a policy that tracks load; it is
    interpreted on the request-count, the token-count and the cache-aware policy.
  \<^item> \<open>Dp_Controller\<close>: \<^verbatim>\<open>DataParallelController\<close> as calls that return the changed controller with a value or an exception,
    and the relation \<open>ctl_run\<close> of its runs. A queue is the list of what was put on it.
  \<^item> \<open>Detokenizer\<close>, \<open>Stop_Criteria\<close>, \<open>Ngram_Proposer\<close>: incremental detokenization over a tokenizer that is a parameter, the
    repetition breaker and the finished flags, and the drafts of speculative decoding.
  \<^item> \<open>Step_Work\<close>: sampling parameters, the plan of a forward pass with its checks (\<^verbatim>\<open>executor/worker.py\<close>), and how a step
    becomes passes. \<open>Scheduler_Step\<close>: the state and the operations of \<^verbatim>\<open>Scheduler\<close>; the planner is a field of its state, and
    the record \<open>senv\<close> holds what runs outside (tokenizer, device, agreed forward count). \<open>Scheduler_Invariant\<close>: its
    invariant and the synchronous step; the invariant takes a promise \<open>G\<close>, a set of prompts per request id, which plays no part in
    the code and records what a request was submitted with. \<open>Scheduler_Lifecycle\<close>: submission, background encodes, abort, the
    relation \<open>sched_step\<close> with its reachable states, and \<open>sched_life\<close>, the steps during which one request is known to the
    scheduler. \<open>Scheduler_Properties\<close>: what follows.
  \<^item> \<open>Event_Loop\<close>: the command loop of a scheduler process (\<^verbatim>\<open>Scheduler.run_event_loop\<close>): the commands that the controller
    puts on the queue, a step, and the events that report it. One turn of its \<^verbatim>\<open>while\<close> is a call of \<open>turn\<close>; what arrives from
    outside in a turn (commands, a live parent, other replicas with work) is an argument, and a run is a list of turns.
  \<^item> \<open>Async_Engine\<close>: the request manager of a serving process (\<^verbatim>\<open>async_engine.py\<close>): client streams, the request table, the
    receiver of events, failure and shutdown, with the relation \<open>engine_step\<close> of their interleavings. A failure is one step
    (\<open>mark_failed\<close>), although the code sets the state under the lifecycle lock and tells the streams after releasing it: the
    short time in which a failed engine has streams that were not told yet is not a state of the model. No stream can be opened
    in it.
  \<^item> \<open>Decode_Session\<close>: one-shot generation of a batch (\<^verbatim>\<open>llm_engine.py\<close>), the engine without a scheduler: a grid of token
    columns, one step per column, and the read-back of columns as text every step or every eight steps.

  \<^bold>\<open>What is shown.\<close> Sharing is safe (below). Planning never raises and always yields an executable plan; slots and
  blocks are conserved; eviction loses no token; retirement releases everything. Allocation is all or nothing at
  every level, lookups are sound and maximal, commits are found again, hashing is incremental. The offloading
  stack never raises on well-formed calls, its copies never race, and it quiesces when they have landed. The splitter and the JSON scanner do not depend on chunking, the DeepSeek
  parser does not on texts that do not degrade, and both tool formats parse what they print. The controller's loads
  are the sums of the charges in flight whatever raises, and every active request has been put on its replica's queue. The synchronous
  scheduler never raises in any reachable state, its passes feed each request its own tokens at rows it owns, a submission
  adds exactly one request or nothing, from then on the tokens of a request are its prompt and what was generated and its text is
  exactly what the detokenizer emits for the latter, and speculation emits what greedy decoding would. The command loop never raises
  whatever it is sent, and publishes what a step generated once and in order as long as the request is not evicted;
  a client reads exactly what was published for it and never waits for a dead engine. One-shot calls
  give the same text streamed or batched, as long as the repetition breaker is off. Several
  deviations of the code from its documentation or intention are proved on concrete inputs.

  \<^bold>\<open>What the scheduler relies on.\<close> \<open>device_ok\<close>: a pass returns one 32-bit token for each sampled row and as many records as
  tokens where there are any, no prompt records are returned (no request asks for prompt log-probabilities), a verify pass returns one argmax per row, and the forward count
  agreed across replicas is not below the local one. \<open>tokenizer_ok\<close>: ids have 32 bits. \<open>window_law\<close>: a text that is
  complete is continued by decoding from inside it. The examples instantiate all three.

  \<^bold>\<open>Loops and bounds.\<close> Loops over lists are recursion on them; the parsers' loops are total functions with a measure
  (the length of the text). The planner's three \<^verbatim>\<open>while\<close> loops carry a bound, the number of entries they can consume
  (one more than the running requests for \<open>reserve_loop\<close>, which evicts one per round; the waiting requests for \<open>admit_loop\<close>,
  which leaves fewer of them in every round but the last; the ready promotions for \<open>promote_loop\<close>); the error value \<open>OutOfFuel\<close> marks a bound that is too small, is not an exception of the
  program, and the proofs that planning returns show that it never occurs. Counts are naturals where the code
  keeps them non-negative and integers where it subtracts; hashes and packed tokens keep their widths.

  \<^bold>\<open>Not modelled.\<close> The reachable states are those of a planner without an offload tier (the operations with a tier
  are modelled, and the tier is verified on its own), and those of a scheduler in synchronous mode; the pipelined step is
  modelled, with two theorems on where it fails. Requests for prompt log-probabilities are excluded from the scheduler's
  theorems. Streams, events, metrics and tracing have no effect on the modelled state. Tensor code (models, kernels, executor, sampler), processes and
  sockets (servers, starting and stopping processes, the worker processes of data parallelism), the distributed runtime, secondary tiers (an abstract
  protocol without an implementation) and the construction of engines are outside.
\<close>

section \<open>Sharing is safe\<close>

lemma chain_messages_prefix:
  assumes "iter_block_hashes D (ts @ us) bs seed = Inr ks"
  shows "chain_messages D ts bs seed \<subseteq> chain_messages D (ts @ us) bs seed"
proof
  fix m assume "m \<in> chain_messages D ts bs seed"
  then obtain hs b where h: "iter_block_hashes D ts bs seed = Inr hs" "b < length hs"
    "struct_pack bs (if b = 0 then seed_parent seed else hs ! (b - 1)) (block_at bs ts b) = Inr m"
    unfolding chain_messages_def by blast
  have p: "hs = take (length hs) ks" by (rule iter_block_hashes_prefix [OF h(1) assms])
  then have l: "length hs \<le> length ks" by (metis length_take min.cobounded1)
  have "b < length ts div bs" using h(2) iter_block_hashes_length [OF h(1)] by simp
  then have blk: "block_at bs (ts @ us) b = block_at bs ts b" by (rule block_at_append)
  have "hs ! (b - 1) = take (length hs) ks ! (b - 1)" by (rule arg_cong [OF p])
  also have "\<dots> = ks ! (b - 1)" using h(2) by simp
  finally have "struct_pack bs (if b = 0 then seed_parent seed else ks ! (b - 1)) (block_at bs (ts @ us) b) = Inr m"
    using h(3) blk by (cases "b = 0") simp_all
  moreover have "b < length ks" using h(2) l by simp
  ultimately show "m \<in> chain_messages D (ts @ us) bs seed" unfolding chain_messages_def using assms by blast
qed

lemma no_collision_prefix:
  assumes "no_collision D bs seed ts us" "iter_block_hashes D ts bs seed = Inr hs" "iter_block_hashes D us bs seed = Inr ks"
  shows "no_collision D bs seed (take k ts) (take n us)"
proof -
  have "chain_messages D (take k ts) bs seed \<subseteq> chain_messages D ts bs seed"
    "chain_messages D (take n us) bs seed \<subseteq> chain_messages D us bs seed"
    using chain_messages_prefix [of D "take k ts" "drop k ts" bs seed hs]
      chain_messages_prefix [of D "take n us" "drop n us" bs seed ks] assms(2,3) by simp_all
  then have sub: "m \<in> chain_messages D ts bs seed \<union> chain_messages D us bs seed"
    if "m \<in> chain_messages D (take k ts) bs seed \<union> chain_messages D (take n us) bs seed" for m
    using that by blast
  show ?thesis unfolding no_collision_def
  proof (intro ballI conjI impI)
    fix m assume m: "m \<in> chain_messages D (take k ts) bs seed \<union> chain_messages D (take n us) bs seed"
    show "from_le_bytes (D m) \<noteq> seed_parent seed" using assms(1) sub [OF m] unfolding no_collision_def by blast
    fix m' assume m': "m' \<in> chain_messages D (take k ts) bs seed \<union> chain_messages D (take n us) bs seed"
      and "from_le_bytes (D m) = from_le_bytes (D m')"
    then show "m = m'" using assms(1) sub [OF m] sub [OF m'] unfolding no_collision_def by blast
  qed
qed

text \<open>A running request's chain is the chain of a prefix of its tokens.\<close>

lemma running_chain:
  assumes "planner_inv D P" "digest8 D" "x \<in> set (running P)"
  obtains k hs where "iter_block_hashes D (take k (tokens (objs P x))) BLOCK_SIZE (hash_seed (kv P)) =
      Inr (block_hashes (request_id (objs P x)) (kv P))"
    "iter_block_hashes D (tokens (objs P x)) BLOCK_SIZE (hash_seed (kv P)) = Inr hs"
proof -
  note q = planner_invD(3) [OF assms(1)] and k = planner_invD(4) [OF assms(1)]
  have l: "map_of (live P) (request_id (objs P x)) = Some x" by (rule queues_okD(5) [OF q assms(3)])
  obtain n where "tracks D (request_id (objs P x)) (take n (tokens (objs P x))) (kv P)"
    using kv_okD(5) [OF k assms(3)] kv_okD(6) [OF k, of "request_id (objs P x)"] l by (auto simp: chain_of_live_def)
  then have t: "iter_block_hashes D (take n (tokens (objs P x))) BLOCK_SIZE (hash_seed (kv P)) =
      Inr (block_hashes (request_id (objs P x)) (kv P))"
    using kv_okD(2) [OF k] by (simp add: tracks_def hash_tokens_def)
  have "tokens_ok (tokens (objs P x))" using queues_okD(9) [OF q l] by (simp add: wf_req_def tokens_def)
  then obtain hs where "iter_block_hashes D (tokens (objs P x)) BLOCK_SIZE (hash_seed (kv P)) = Inr hs"
    using iter_block_hashes_ok [OF assms(2), of BLOCK_SIZE "tokens (objs P x)" "hash_seed (kv P)"] by (auto simp: BLOCK_SIZE_def)
  with t show ?thesis by (rule that)
qed

text \<open>C1: sharing is safe. In every reachable state of the planner, if two running requests hold the same block,
  they hold it at the same position and their tokens agree from the start through that block, so the keys and
  values in it are right for both. This needs that the digest does not collide on the messages hashed for
  these two requests, which is what the code relies on.\<close>

theorem shared_block_same_prefix:
  assumes "reachable E P" "digest8 (digest E)" "x \<in> set (running P)" "y \<in> set (running P)" "x \<noteq> y"
    "no_collision (digest E) BLOCK_SIZE (hash_seed (kv P)) (tokens (objs P x)) (tokens (objs P y))"
    "i < length (rows_held (request_id (objs P x)) (kv P))" "j < length (rows_held (request_id (objs P y)) (kv P))"
    "rows_held (request_id (objs P x)) (kv P) ! i = rows_held (request_id (objs P y)) (kv P) ! j"
  shows "i = j \<and> take (Suc i * BLOCK_SIZE) (tokens (objs P x)) = take (Suc i * BLOCK_SIZE) (tokens (objs P y)) \<and>
    Suc i * BLOCK_SIZE \<le> seq_len (objs P x) \<and> Suc i * BLOCK_SIZE \<le> seq_len (objs P y)"
proof -
  note inv = reachable_inv [OF assms(1,2)]
  let ?rx = "request_id (objs P x)" and ?ry = "request_id (objs P y)"
  let ?tx = "tokens (objs P x)" and ?ty = "tokens (objs P y)"
  have ne: "?rx \<noteq> ?ry"
    using queues_okD(5) [OF planner_invD(3) [OF inv] assms(3)] queues_okD(5) [OF planner_invD(3) [OF inv] assms(4)] assms(5) by auto
  have s: "i < length (block_hashes ?rx (kv P))" "j < length (block_hashes ?ry (kv P))"
    "block_hashes ?rx (kv P) ! i = block_hashes ?ry (kv P) ! j"
    using shared_block_position [OF planner_invD(5) [OF inv] ne assms(7-9)] by blast+
  obtain m hs where m: "iter_block_hashes (digest E) (take m ?tx) BLOCK_SIZE (hash_seed (kv P)) = Inr (block_hashes ?rx (kv P))"
    "iter_block_hashes (digest E) ?tx BLOCK_SIZE (hash_seed (kv P)) = Inr hs"
    by (rule running_chain [OF inv assms(2,3)])
  obtain n ks where n: "iter_block_hashes (digest E) (take n ?ty) BLOCK_SIZE (hash_seed (kv P)) = Inr (block_hashes ?ry (kv P))"
    "iter_block_hashes (digest E) ?ty BLOCK_SIZE (hash_seed (kv P)) = Inr ks"
    by (rule running_chain [OF inv assms(2,4)])
  note eq = equal_hash_equal_prefix [OF no_collision_prefix [OF assms(6) m(2) n(2)] m(1) n(1) s]
  have b: "0 < BLOCK_SIZE" by (simp add: BLOCK_SIZE_def)
  have lx: "Suc i * BLOCK_SIZE \<le> length (take m ?tx)" and ly: "Suc j * BLOCK_SIZE \<le> length (take n ?ty)"
    using s(1,2) iter_block_hashes_length [OF m(1)] iter_block_hashes_length [OF n(1)] b
    by (simp_all add: less_eq_div_iff_mult_less_eq Suc_le_eq [symmetric] del: mult_Suc length_take)
  have "take (Suc i * BLOCK_SIZE) ?tx = take (Suc i * BLOCK_SIZE) (take m ?tx)"
    "take (Suc j * BLOCK_SIZE) ?ty = take (Suc j * BLOCK_SIZE) (take n ?ty)"
    using lx ly by (simp_all add: min_absorb1 del: mult_Suc)
  moreover have "length ?tx = seq_len (objs P x)" "length ?ty = seq_len (objs P y)" by (simp_all add: tokens_def seq_len_def)
  ultimately show ?thesis using eq lx ly by (auto simp del: mult_Suc)
qed

text \<open>Two requests with the same prompt of twenty tokens: the second is admitted on the first block of the first.\<close>

definition share_env :: env where
  "share_env = demo_env\<lparr>digest := (\<lambda>m. [1, 0, 0, 0, 0, 0, 0, 0])\<rparr>"

definition share_config :: scheduler_config where
  "share_config = demo_config\<lparr>max_seq_len := 48, max_num_batched_tokens := 48, max_chunk_size := 32, decode_window_steps := 0\<rparr>"

definition share_store :: "oid \<Rightarrow> request" where
  "share_store x = demo_request\<lparr>request_id := (if x = 0 then ''a'' else ''b''), prompt_token_ids := replicate 20 7\<rparr>"

definition share_steps :: "planner \<Rightarrow> planner res" where
  "share_steps P =
     rbind (add_request 0 P) (\<lambda>P.
     rbind (plan share_env P) (\<lambda>(P, _).
     rbind (add_request 1 P) (\<lambda>P.
     rbind (plan share_env P) (\<lambda>(P, _). Inr P))))"

definition share_run :: "planner res" where
  "share_run = rbind (planner_init share_store share_config 2 None None) share_steps"

lemma share_digest: "digest8 (digest share_env)"
  by (simp add: digest8_def share_env_def)

lemma share_state:
  obtains P where "share_run = Inr P" "reachable share_env P" "running P = [0, 1]"
    "rows_held ''a'' (kv P) = [1, 2]" "rows_held ''b'' (kv P) = [1, 3]" "hash_seed (kv P) = 0"
    "request_id (objs P 0) = ''a''" "request_id (objs P 1) = ''b''"
    "tokens (objs P 0) = replicate 20 7" "tokens (objs P 1) = replicate 20 7"
proof -
  have r: "case share_run of Inr P \<Rightarrow> running P = [0, 1] \<and> rows_held ''a'' (kv P) = [1, 2] \<and>
      rows_held ''b'' (kv P) = [1, 3] \<and> hash_seed (kv P) = 0 \<and> request_id (objs P 0) = ''a'' \<and>
      request_id (objs P 1) = ''b'' \<and> tokens (objs P 0) = replicate 20 7 \<and> tokens (objs P 1) = replicate 20 7
    | Inl e \<Rightarrow> False" by code_simp
  obtain P where P: "share_run = Inr P" "running P = [0, 1]" "rows_held ''a'' (kv P) = [1, 2]"
    "rows_held ''b'' (kv P) = [1, 3]" "hash_seed (kv P) = 0" "request_id (objs P 0) = ''a''"
    "request_id (objs P 1) = ''b''" "tokens (objs P 0) = replicate 20 7" "tokens (objs P 1) = replicate 20 7"
    using r by (cases share_run) (auto split: sum.splits)
  have c: "config_check share_config = Inr share_config" by code_simp
  obtain P0 where P0: "planner_init share_store share_config 2 None None = Inr P0" "live P0 = []" "objs P0 = share_store"
    by (rule planner_init_ok [OF c, of 2 None share_store])
      (simp_all add: pool_size_def or_default_def share_config_def demo_config_def default_num_blocks_def)
  obtain P1 P2 s P3 s' where st: "add_request 0 P0 = Inr P1" "plan share_env P1 = Inr (P2, s)"
    "add_request 1 P2 = Inr P3" "plan share_env P3 = Inr (P, s')"
    using P(1) unfolding share_run_def P0(1) by (auto simp: share_steps_def)
  have fresh: "output_token_ids (share_store x) = []" "tokens_ok (prompt_token_ids (share_store x))" for x
    by (simp_all add: share_store_def demo_request_def tokens_ok_def)
  have r0: "reachable share_env P0" by (rule reachable.init [OF c P0(1)])
  have "P0\<lparr>objs := (objs P0)(0 := share_store 0)\<rparr> = P0" using P0(3) by (simp add: fun_upd_idem)
  then have r1: "reachable share_env P1"
    using reachable.step [OF r0 pstep.submit [of P0 0 "share_store 0" P1 share_env]] P0(2) st(1) fresh by simp
  have r2: "reachable share_env P2" by (rule reachable.step [OF r1 pstep.plan [OF st(2)]])
  have e: "case rbind (planner_init share_store share_config 2 None None) (\<lambda>P. rbind (add_request 0 P) (plan share_env)) of
      Inr (P, s) \<Rightarrow> objs P 1 = share_store 1 \<and> live P = [(''a'', 0)] | Inl e \<Rightarrow> False" by code_simp
  have "objs P2 1 = share_store 1" "live P2 = [(''a'', 0)]" using e unfolding P0(1) by (simp_all add: st(1,2))
  then have "P2\<lparr>objs := (objs P2)(1 := share_store 1)\<rparr> = P2" "\<forall>r. map_of (live P2) r \<noteq> Some 1"
    by (simp_all add: fun_upd_idem)
  then have r3: "reachable share_env P3"
    using reachable.step [OF r2 pstep.submit [of P2 1 "share_store 1" P3 share_env]] st(3) fresh by simp
  have "reachable share_env P" by (rule reachable.step [OF r3 pstep.plan [OF st(4)]])
  with P show ?thesis by (intro that)
qed

lemma share_no_collision: "no_collision (digest share_env) BLOCK_SIZE 0 (replicate 20 7) (replicate 20 7)"
proof -
  have h: "from_le_bytes (digest share_env m) \<noteq> seed_parent 0" for m by (simp add: share_env_def seed_parent_def)
  have one: "m = m'" if m: "m \<in> chain_messages (digest share_env) (replicate 20 7) BLOCK_SIZE 0"
    "m' \<in> chain_messages (digest share_env) (replicate 20 7) BLOCK_SIZE 0" for m m'
  proof -
    have "struct_pack BLOCK_SIZE (seed_parent 0) (block_at BLOCK_SIZE (replicate 20 7) 0) = Inr x"
      if x: "x \<in> chain_messages (digest share_env) (replicate 20 7) BLOCK_SIZE 0" for x
    proof -
      obtain hs b where b: "iter_block_hashes (digest share_env) (replicate 20 7) BLOCK_SIZE 0 = Inr hs" "b < length hs"
        "struct_pack BLOCK_SIZE (if b = 0 then seed_parent 0 else hs ! (b - 1)) (block_at BLOCK_SIZE (replicate 20 7) b) = Inr x"
        using x unfolding chain_messages_def by blast
      have "b = 0" using b(2) iter_block_hashes_length [OF b(1)] by (simp add: BLOCK_SIZE_def)
      then show ?thesis using b(3) by simp
    qed
    from this [OF m(1)] this [OF m(2)] show ?thesis by simp
  qed
  show ?thesis unfolding no_collision_def using h one by auto
qed

theorem shared_block_same_prefix_witness:
  "\<exists>P. share_run = Inr P \<and> rows_held ''a'' (kv P) ! 0 = rows_held ''b'' (kv P) ! 0 \<and>
     take (Suc 0 * BLOCK_SIZE) (tokens (objs P 0)) = take (Suc 0 * BLOCK_SIZE) (tokens (objs P 1))"
proof -
  obtain P where P: "share_run = Inr P" "reachable share_env P" "running P = [0, 1]"
    "rows_held ''a'' (kv P) = [1, 2]" "rows_held ''b'' (kv P) = [1, 3]" "hash_seed (kv P) = 0"
    "request_id (objs P 0) = ''a''" "request_id (objs P 1) = ''b''"
    "tokens (objs P 0) = replicate 20 7" "tokens (objs P 1) = replicate 20 7" by (rule share_state)
  have nc: "no_collision (digest share_env) BLOCK_SIZE (hash_seed (kv P)) (tokens (objs P 0)) (tokens (objs P 1))"
    unfolding P(6,9,10) by (rule share_no_collision)
  have "0 = (0 :: nat) \<and> take (Suc 0 * BLOCK_SIZE) (tokens (objs P 0)) = take (Suc 0 * BLOCK_SIZE) (tokens (objs P 1)) \<and>
      Suc 0 * BLOCK_SIZE \<le> seq_len (objs P 0) \<and> Suc 0 * BLOCK_SIZE \<le> seq_len (objs P 1)"
    by (rule shared_block_same_prefix [OF P(2) share_digest _ _ _ nc]) (simp_all add: P(3,4,5,7) P(8) [unfolded One_nat_def])
  then show ?thesis using P(1,4,5) by auto
qed

end
